(* ===== verification/Prelude.thy ===== *)
theory Prelude
  imports Main "HOL-Library.Word"
begin

text \<open>
  Shared vocabulary of the development: machine types, checked slices, little-endian
  byte encodings, alignment padding and the standard library's binary search, with the
  generic lemmas the component theories rest on.  \<open>usize\<close> is a \<open>nat\<close> (the program
  targets 64-bit machines and never adds two of them without first converting from a
  32-bit field), an \<open>i64\<close> is an \<open>int\<close> in the range \<open>i64_range\<close>, and the 32-bit
  fields of the wire format are words.
\<close>

section \<open>Machine types and hint collections\<close>

type_synonym byte = "8 word"
type_synonym u16 = "16 word"
type_synonym u32 = "32 word"
type_synonym u64 = "64 word"

named_theorems slice_simps \<open>evaluation of checked slices\<close>
named_theorems le_simps \<open>little-endian encodings and their lengths\<close>
named_theorems inv_intros \<open>introduction rules for the component invariants\<close>

text \<open>The value range of an \<open>i64\<close>.\<close>

definition i64_range :: "int \<Rightarrow> bool" where
  "i64_range t \<longleftrightarrow> - (2 ^ 63) \<le> t \<and> t < 2 ^ 63"

text \<open>Two's complement wrap-around of an \<open>i64\<close> operation (release profile).\<close>

definition i64_wrap :: "int \<Rightarrow> int" where
  "i64_wrap t = (t + 2 ^ 63) mod 2 ^ 64 - 2 ^ 63"

lemma i64_wrap_id [simp]: "i64_range t \<Longrightarrow> i64_wrap t = t"
  by (simp add: i64_wrap_def i64_range_def)

lemma i64_wrap_range [simp]: "i64_range (i64_wrap t)"
proof -
  define u where "u = (t + 2 ^ 63) mod (2 ^ 64 :: int)"
  have "0 \<le> u" "u < 2 ^ 64" by (simp_all add: u_def)
  then show ?thesis by (simp add: i64_wrap_def i64_range_def flip: u_def)
qed

section \<open>Checked slices\<close>

text \<open>
  Rust's \<open>xs.get(a..b)\<close>: the slice when \<open>a \<le> b \<le> len\<close>, otherwise \<open>None\<close>.
  \<open>slice\<close> is the unchecked part; an indexing expression \<open>&xs[a..b]\<close> panics exactly
  where \<open>get_range\<close> is \<open>None\<close>.
\<close>

definition slice :: "nat \<Rightarrow> nat \<Rightarrow> 'a list \<Rightarrow> 'a list" where
  "slice a b xs = take (b - a) (drop a xs)"

definition get_range :: "'a list \<Rightarrow> nat \<Rightarrow> nat \<Rightarrow> 'a list option" where
  "get_range xs a b = (if a \<le> b \<and> b \<le> length xs then Some (slice a b xs) else None)"

definition get_from :: "'a list \<Rightarrow> nat \<Rightarrow> 'a list option" where
  "get_from xs a = (if a \<le> length xs then Some (drop a xs) else None)"

definition get_index :: "'a list \<Rightarrow> nat \<Rightarrow> 'a option" where
  "get_index xs i = (if i < length xs then Some (xs ! i) else None)"

text \<open>Overwriting \<open>xs[a .. a + len ys]\<close> in place.\<close>

definition splice :: "nat \<Rightarrow> 'a list \<Rightarrow> 'a list \<Rightarrow> 'a list" where
  "splice a ys xs = take a xs @ ys @ drop (a + length ys) xs"

lemma length_slice [slice_simps]: "b \<le> length xs \<Longrightarrow> length (slice a b xs) = b - a"
  by (simp add: slice_def)

lemma length_splice [slice_simps]:
  "a + length ys \<le> length xs \<Longrightarrow> length (splice a ys xs) = length xs"
  by (simp add: splice_def)

lemma slice_empty [simp]: "slice a a xs = []"
  by (simp add: slice_def)

lemma slice_all [simp]: "slice 0 (length xs) xs = xs"
  by (simp add: slice_def)

lemma slice_nth: "a + i < b \<Longrightarrow> b \<le> length xs \<Longrightarrow> slice a b xs ! i = xs ! (a + i)"
  by (simp add: slice_def)

lemma get_range_Some: "get_range xs a b = Some ys \<longleftrightarrow> a \<le> b \<and> b \<le> length xs \<and> ys = slice a b xs"
  by (auto simp: get_range_def)

lemma slice_append_split: "a \<le> b \<Longrightarrow> b \<le> c \<Longrightarrow> slice a c xs = slice a b xs @ slice b c xs"
proof -
  assume ab: "a \<le> b" and bc: "b \<le> c"
  have "take (c - a) (drop a xs) = take ((b - a) + (c - b)) (drop a xs)" using ab bc by simp
  also have "\<dots> = take (b - a) (drop a xs) @ take (c - b) (drop (b - a) (drop a xs))"
    by (rule take_add)
  also have "drop (b - a) (drop a xs) = drop b xs" using ab by simp
  finally show ?thesis by (simp only: slice_def)
qed

lemma slice_append1: "b \<le> length xs \<Longrightarrow> slice a b (xs @ ys) = slice a b xs"
  by (simp add: slice_def)

lemma slice_append2: "length xs \<le> a \<Longrightarrow> slice a b (xs @ ys) = slice (a - length xs) (b - length xs) ys"
  by (simp add: slice_def)

lemma slice_splice_before [slice_simps]: "b \<le> a \<Longrightarrow> a \<le> length xs \<Longrightarrow> slice i b (splice a ys xs) = slice i b xs"
  by (simp add: splice_def slice_append1) (simp add: slice_def drop_take min_def)

lemma slice_splice_same [slice_simps]:
  "a \<le> length xs \<Longrightarrow> slice a (a + length ys) (splice a ys xs) = ys"
  by (simp add: splice_def slice_def)

lemma slice_splice_after [slice_simps]:
  "a + length ys \<le> i \<Longrightarrow> a + length ys \<le> length xs \<Longrightarrow> slice i b (splice a ys xs) = slice i b xs"
  by (simp add: splice_def slice_def)

section \<open>Little-endian bytes\<close>

lemma unat_lt_power: "unat (w :: 'a::len word) < 2 ^ LENGTH('a)"
  by transfer simp

lemma unat_byte_less: "unat (b :: byte) < 256"
  using unat_lt_power [of b] by simp

fun nat_to_le :: "nat \<Rightarrow> nat \<Rightarrow> byte list" where
  "nat_to_le 0 x = []"
| "nat_to_le (Suc n) x = of_nat (x mod 256) # nat_to_le n (x div 256)"

fun le_to_nat :: "byte list \<Rightarrow> nat" where
  "le_to_nat [] = 0"
| "le_to_nat (b # bs) = unat b + 256 * le_to_nat bs"

lemma length_nat_to_le [simp]: "length (nat_to_le n x) = n"
  by (induction n arbitrary: x) auto

lemma unat_of_nat_mod256 [simp]: "unat (of_nat (x mod 256) :: byte) = x mod 256"
  by (simp add: unat_of_nat)

lemma le_to_nat_to_le [le_simps]: "le_to_nat (nat_to_le n x) = x mod 256 ^ n"
proof (induction n arbitrary: x)
  case 0
  then show ?case by simp
next
  case (Suc n)
  have "le_to_nat (nat_to_le (Suc n) x) = x mod 256 + 256 * (x div 256 mod 256 ^ n)"
    by (simp add: Suc.IH unat_of_nat)
  also have "\<dots> = x mod (256 * 256 ^ n)"
    by (simp add: mod_mult2_eq)
  finally show ?case by simp
qed

lemma le_to_nat_bound: "le_to_nat bs < 256 ^ length bs"
proof (induction bs)
  case Nil
  then show ?case by simp
next
  case (Cons b bs)
  have "unat b < 256" by (rule unat_byte_less)
  with Cons show ?case by simp
qed

lemma nat_to_le_to_nat [le_simps]: "length bs = n \<Longrightarrow> nat_to_le n (le_to_nat bs) = bs"
proof (induction bs arbitrary: n)
  case Nil
  then show ?case by simp
next
  case (Cons b bs)
  have b: "unat b < 256" by (rule unat_byte_less)
  from Cons.prems obtain m where m: "n = Suc m" "length bs = m" by auto
  have "(unat b + 256 * le_to_nat bs) mod 256 = unat b"
    "(unat b + 256 * le_to_nat bs) div 256 = le_to_nat bs"
    using b by simp_all
  with Cons.IH [OF m(2)] m show ?case by simp
qed

text \<open>\<open>u32::to_le_bytes\<close>, \<open>u64::to_le_bytes\<close>, \<open>i64::to_le_bytes\<close> and their inverses.\<close>

definition u32_to_le :: "u32 \<Rightarrow> byte list" where
  "u32_to_le w = nat_to_le 4 (unat w)"

definition u32_of_le :: "byte list \<Rightarrow> u32" where
  "u32_of_le bs = of_nat (le_to_nat bs)"

definition u64_to_le :: "u64 \<Rightarrow> byte list" where
  "u64_to_le w = nat_to_le 8 (unat w)"

definition u64_of_le :: "byte list \<Rightarrow> u64" where
  "u64_of_le bs = of_nat (le_to_nat bs)"

definition i64_to_le :: "int \<Rightarrow> byte list" where
  "i64_to_le t = nat_to_le 8 (nat (t mod 2 ^ 64))"

definition i64_of_le :: "byte list \<Rightarrow> int" where
  "i64_of_le bs = i64_wrap (int (le_to_nat bs))"

lemma length_to_le [simp]:
  "length (u32_to_le w) = 4" "length (u64_to_le x) = 8" "length (i64_to_le t) = 8"
  by (simp_all add: u32_to_le_def u64_to_le_def i64_to_le_def)

lemma u32_le_roundtrip [le_simps]: "u32_of_le (u32_to_le w) = w"
proof -
  have "unat w < 256 ^ 4" using unat_lt_power [of w] by simp
  then show ?thesis by (simp add: u32_of_le_def u32_to_le_def le_to_nat_to_le)
qed

lemma u64_le_roundtrip [le_simps]: "u64_of_le (u64_to_le w) = w"
proof -
  have "unat w < 256 ^ 8" using unat_lt_power [of w] by simp
  then show ?thesis by (simp add: u64_of_le_def u64_to_le_def le_to_nat_to_le)
qed

lemma i64_le_roundtrip [le_simps]: "i64_range t \<Longrightarrow> i64_of_le (i64_to_le t) = t"
proof -
  assume r: "i64_range t"
  have "nat (t mod 2 ^ 64) < 256 ^ 8" by (simp add: nat_less_iff)
  then have "int (le_to_nat (i64_to_le t)) = t mod 2 ^ 64"
    by (simp add: i64_to_le_def le_to_nat_to_le)
  moreover have "i64_wrap (t mod 2 ^ 64) = i64_wrap t"
    by (simp add: i64_wrap_def mod_add_left_eq)
  ultimately show ?thesis using r by (simp add: i64_of_le_def)
qed

lemma i64_of_le_range [simp]: "i64_range (i64_of_le bs)"
  by (simp add: i64_of_le_def)

text \<open>
  A byte slice viewed as an array of \<open>i64\<close> (a cast of the memory, no copy): the length
  has to be a multiple of eight, and element \<open>i\<close> is bytes \<open>8 i .. 8 i + 8\<close>.
\<close>

definition i64_elems :: "byte list \<Rightarrow> int list" where
  "i64_elems bs = map (\<lambda>i. i64_of_le (slice (8 * i) (8 * i + 8) bs)) [0..<length bs div 8]"

definition i64_view :: "byte list \<Rightarrow> int list option" where
  "i64_view bs = (if length bs mod 8 = 0 then Some (i64_elems bs) else None)"

lemma length_i64_elems [simp]: "length (i64_elems bs) = length bs div 8"
  by (simp add: i64_elems_def)

lemma i64_elems_append: "8 dvd length bs \<Longrightarrow> i64_range t \<Longrightarrow> i64_elems (bs @ i64_to_le t) = i64_elems bs @ [t]"
proof -
  assume d: "8 dvd length bs" and t: "i64_range t"
  then obtain n where n: "length bs = 8 * n" by auto
  have "slice (8 * n) (8 * n + 8) (bs @ i64_to_le t) = i64_to_le t"
    using n by (simp add: slice_append2) (simp add: slice_def)
  moreover have "slice (8 * i) (8 * i + 8) (bs @ i64_to_le t) = slice (8 * i) (8 * i + 8) bs" if "i < n" for i
    using n that by (intro slice_append1) simp
  ultimately show ?thesis using n t by (simp add: i64_elems_def i64_le_roundtrip)
qed

lemma i64_view_append: "i64_view bs = Some ts \<Longrightarrow> i64_range t \<Longrightarrow> i64_view (bs @ i64_to_le t) = Some (ts @ [t])"
proof -
  assume v: "i64_view bs = Some ts" and t: "i64_range t"
  from v have m: "length bs mod 8 = 0" and ts: "ts = i64_elems bs" by (auto simp: i64_view_def split: if_splits)
  then have "8 dvd length bs" by (simp add: dvd_eq_mod_eq_0)
  with i64_elems_append [OF this t] ts m show ?thesis by (simp add: i64_view_def mod_add_left_eq)
qed

lemma i64_view_Nil [simp]: "i64_view [] = Some []"
  by (simp add: i64_view_def i64_elems_def)

lemma i64_view_length: "i64_view bs = Some ts \<Longrightarrow> length bs = 8 * length ts"
  by (auto simp: i64_view_def split: if_splits)

lemma i64_elems_concat: "\<forall>t \<in> set ts. i64_range t \<Longrightarrow> i64_elems (concat (map i64_to_le ts)) = ts"
proof (induction ts rule: rev_induct)
  case Nil
  then show ?case by (simp add: i64_elems_def)
next
  case (snoc t ts)
  have "length (concat (map i64_to_le ts)) = 8 * length ts" by (induction ts) auto
  then have "8 dvd length (concat (map i64_to_le ts))" by simp
  with snoc show ?case by (simp add: i64_elems_append)
qed

section \<open>Alignment\<close>

text \<open>
  Zero bytes needed to bring a length to a multiple of an alignment, in the form the
  builders use, \<open>(align - len % align) % align\<close>.
\<close>

definition pad_len :: "nat \<Rightarrow> nat \<Rightarrow> nat" where
  "pad_len align len = (align - len mod align) mod align"

lemma pad_len_aligned [simp]: "0 < a \<Longrightarrow> (len + pad_len a len) mod a = 0"
proof -
  assume a: "0 < a"
  show ?thesis
  proof (cases "len mod a = 0")
    case True
    then show ?thesis by (simp add: pad_len_def)
  next
    case False
    with a have "pad_len a len = a - len mod a" by (simp add: pad_len_def)
    then have "(len + pad_len a len) mod a = (len mod a + (a - len mod a)) mod a"
      by (metis mod_add_left_eq)
    then show ?thesis using a by simp
  qed
qed

lemma pad_len_dvd [simp]: "0 < a \<Longrightarrow> a dvd len + pad_len a len"
  by (simp add: mod_eq_0_iff_dvd [symmetric])

lemma pad_len_less: "0 < a \<Longrightarrow> pad_len a len < a"
  by (simp add: pad_len_def)

lemma pad_len_zero [simp]: "a dvd len \<Longrightarrow> pad_len a len = 0"
  by (simp add: pad_len_def)

section \<open>The standard library's binary search\<close>

text \<open>
  \<open>[T]::binary_search\<close> on a slice: the branch-free loop keeps a base and a size, halves
  the size and finally compares the element at the base.  \<open>Inl i\<close> is \<open>Ok(i)\<close>, \<open>Inr i\<close>
  is \<open>Err(i)\<close>, the insertion point.
\<close>

function bs_loop :: "('a::linorder) list \<Rightarrow> 'a \<Rightarrow> nat \<Rightarrow> nat \<Rightarrow> nat" where
  "bs_loop xs x base sz =
     (if sz \<le> 1 then base
      else let half = sz div 2; mid = base + half
           in bs_loop xs x (if x < xs ! mid then base else mid) (sz - half))"
  by pat_completeness auto
termination
  by (relation "measure (\<lambda>(xs, x, base, sz). sz)") auto

declare bs_loop.simps [simp del]

definition binary_search :: "('a::linorder) list \<Rightarrow> 'a \<Rightarrow> nat + nat" where
  "binary_search xs x =
     (if xs = [] then Inr 0
      else let base = bs_loop xs x 0 (length xs)
           in if xs ! base = x then Inl base
              else Inr (base + (if xs ! base < x then 1 else 0)))"

lemma bs_loop_bounds: "0 < sz \<Longrightarrow> base \<le> bs_loop xs x base sz \<and> bs_loop xs x base sz < base + sz"
proof (induction xs x base sz rule: bs_loop.induct)
  case (1 xs x base sz)
  show ?case
  proof (cases "sz \<le> 1")
    case True
    with "1.prems" show ?thesis by (simp add: bs_loop.simps [of xs x base sz])
  next
    case False
    let ?b = "if x < xs ! (base + sz div 2) then base else base + sz div 2"
    have "0 < sz - sz div 2" using False by simp
    from "1.IH" [OF False refl refl this]
    have "?b \<le> bs_loop xs x ?b (sz - sz div 2) \<and>
        bs_loop xs x ?b (sz - sz div 2) < ?b + (sz - sz div 2)" .
    with False show ?thesis
      by (auto simp: bs_loop.simps [of xs x base sz] Let_def split: if_splits)
  qed
qed

definition bs_split :: "('a::linorder) list \<Rightarrow> 'a \<Rightarrow> nat \<Rightarrow> bool" where
  "bs_split xs x r \<longleftrightarrow>
     (\<forall>j < r. xs ! j \<le> x) \<and> (\<forall>j. r < j \<longrightarrow> j < length xs \<longrightarrow> x < xs ! j) \<and> (r = 0 \<or> xs ! r \<le> x)"

lemma bs_loop_inv:
  "sorted xs \<Longrightarrow> 0 < sz \<Longrightarrow> base + sz \<le> length xs \<Longrightarrow>
   (\<And>j. j < base \<Longrightarrow> xs ! j \<le> x) \<Longrightarrow> (\<And>j. base + sz \<le> j \<Longrightarrow> j < length xs \<Longrightarrow> x < xs ! j) \<Longrightarrow>
   (base = 0 \<or> xs ! base \<le> x) \<Longrightarrow>
   bs_split xs x (bs_loop xs x base sz)"
proof (induction xs x base sz rule: bs_loop.induct)
  case (1 xs x base sz)
  show ?case
  proof (cases "sz \<le> 1")
    case True
    then have "bs_loop xs x base sz = base" by (simp add: bs_loop.simps [of xs x base sz])
    with "1.prems" True show ?thesis by (simp add: bs_split_def)
  next
    case False
    let ?h = "sz div 2"
    let ?b = "if x < xs ! (base + ?h) then base else base + ?h"
    have len: "base + ?h < length xs" using False "1.prems"(2,3) by linarith
    have lo: "\<And>j. j < ?b \<Longrightarrow> xs ! j \<le> x"
      using "1.prems"(1,4) len by (auto split: if_splits) (meson le_less_trans less_or_eq_imp_le
        not_less order_trans sorted_nth_mono)
    have hi: "x < xs ! j" if j: "?b + (sz - ?h) \<le> j" "j < length xs" for j
    proof (cases "x < xs ! (base + ?h)")
      case True
      have "base + ?h \<le> j" using j(1) True by simp
      then have "xs ! (base + ?h) \<le> xs ! j" using "1.prems"(1) j(2) by (simp add: sorted_nth_mono)
      with True show ?thesis by simp
    next
      case nlt: False
      have "base + sz \<le> j" using j(1) nlt by simp
      then show ?thesis using "1.prems"(5) j(2) by blast
    qed
    have "?b + (sz - ?h) \<le> length xs" "0 < sz - ?h" "?b = 0 \<or> xs ! ?b \<le> x"
      using "1.prems"(3,6) False by auto
    note ih = "1.IH" [OF False refl refl "1.prems"(1) this(2,1) lo hi this(3)]
    have "bs_loop xs x base sz = bs_loop xs x ?b (sz - ?h)"
      using False by (simp only: bs_loop.simps [of xs x base sz] if_False Let_def)
    with ih show ?thesis by (simp only:)
  qed
qed

lemma binary_search_loop:
  fixes x :: "'a::linorder"
  assumes s: "sorted xs" and ne: "xs \<noteq> []"
  defines "r \<equiv> bs_loop xs x 0 (length xs)"
  shows "r < length xs" "\<And>j. j < r \<Longrightarrow> xs ! j \<le> x" "\<And>j. r < j \<Longrightarrow> j < length xs \<Longrightarrow> x < xs ! j"
    "r = 0 \<or> xs ! r \<le> x"
proof -
  have l: "0 < length xs" using ne by simp
  from bs_loop_bounds [OF l, of 0 xs x] show "r < length xs" by (simp add: r_def)
  have "bs_split xs x r" unfolding r_def by (rule bs_loop_inv [OF s l]) simp_all
  then show "\<And>j. j < r \<Longrightarrow> xs ! j \<le> x" "\<And>j. r < j \<Longrightarrow> j < length xs \<Longrightarrow> x < xs ! j"
    "r = 0 \<or> xs ! r \<le> x" by (auto simp: bs_split_def)
qed

text \<open>
  The contract the clients use: any search with these two laws serves them, whichever
  duplicate it returns.
\<close>

locale searcher =
  fixes search :: "('a::linorder) list \<Rightarrow> 'a \<Rightarrow> nat + nat"
  assumes search_ok: "search xs x = Inl i \<Longrightarrow> i < length xs \<and> xs ! i = x"
    and search_err: "sorted xs \<Longrightarrow> search xs x = Inr i \<Longrightarrow>
      i \<le> length xs \<and> (\<forall>j < i. xs ! j < x) \<and> (\<forall>j. i \<le> j \<longrightarrow> j < length xs \<longrightarrow> x < xs ! j)"
begin

lemma search_found_iff: "sorted xs \<Longrightarrow> (\<exists>i. search xs x = Inl i) \<longleftrightarrow> x \<in> set xs"
proof
  assume "\<exists>i. search xs x = Inl i"
  then show "x \<in> set xs" using search_ok nth_mem by blast
next
  assume s: "sorted xs" and "x \<in> set xs"
  then obtain j where j: "j < length xs" "xs ! j = x" by (auto simp: in_set_conv_nth)
  show "\<exists>i. search xs x = Inl i"
  proof (cases "search xs x")
    case (Inr i)
    from search_err [OF s this] have "\<forall>k < i. xs ! k < x" "\<forall>k. i \<le> k \<longrightarrow> k < length xs \<longrightarrow> x < xs ! k"
      by blast+
    with j have False by (metis less_irrefl not_less)
    then show ?thesis ..
  qed blast
qed

text \<open>The insertion point counts the strictly smaller elements.\<close>

lemma search_err_take: "sorted xs \<Longrightarrow> search xs x = Inr i \<Longrightarrow> filter (\<lambda>y. y < x) xs = take i xs"
proof -
  assume s: "sorted xs" and e: "search xs x = Inr i"
  note b = search_err [OF s e]
  have "\<forall>y \<in> set (take i xs). y < x" using b by (auto simp: in_set_conv_nth)
  moreover have "\<not> y < x" if "y \<in> set (drop i xs)" for y
  proof -
    from that obtain k where "k < length xs - i" "y = xs ! (i + k)" by (auto simp: in_set_conv_nth)
    with b have "x < y" by simp
    then show ?thesis by simp
  qed
  ultimately have "\<forall>y \<in> set (take i xs). y < x" and "\<forall>y \<in> set (drop i xs). \<not> y < x" by blast+
  then have "filter (\<lambda>y. y < x) (take i xs @ drop i xs) = take i xs"
    by (simp only: filter_append filter_True filter_False append_Nil2)
  then show ?thesis by simp
qed

text \<open>
  The index the readers of the logs use when they look for the nearest entry at or
  before a key: the found index, or the one before the insertion point.
\<close>

lemma search_at_or_before:
  assumes s: "sorted xs" and ne: "xs \<noteq> []" and first: "xs ! 0 \<le> x"
  defines "i \<equiv> (case search xs x of Inl i \<Rightarrow> i | Inr i \<Rightarrow> i - 1)"
  shows "i < length xs" "xs ! i \<le> x" "\<And>j. j < length xs \<Longrightarrow> xs ! j \<le> x \<Longrightarrow> xs ! j \<le> xs ! i"
proof -
  have "i < length xs \<and> xs ! i \<le> x \<and> (\<forall>j < length xs. xs ! j \<le> x \<longrightarrow> xs ! j \<le> xs ! i)"
  proof (cases "search xs x")
    case (Inl k)
    with search_ok [OF this] show ?thesis by (simp add: i_def)
  next
    case (Inr k)
    note e = search_err [OF s Inr]
    have k: "0 < k" using e ne first by (cases k) force+
    have "xs ! j \<le> xs ! (k - 1)" if "j < length xs" "xs ! j \<le> x" for j
    proof -
      have "j < k" using e that by (meson not_le)
      then show ?thesis using s k e by (intro sorted_nth_mono) auto
    qed
    moreover have "xs ! (k - 1) \<le> x" "k - 1 < length xs" using e k by (auto simp: less_imp_le)
    ultimately show ?thesis using Inr by (simp add: i_def)
  qed
  then show "i < length xs" "xs ! i \<le> x" "\<And>j. j < length xs \<Longrightarrow> xs ! j \<le> x \<Longrightarrow> xs ! j \<le> xs ! i"
    by blast+
qed

end

interpretation bs: searcher binary_search
proof
  fix xs :: "'a list" and x :: 'a and i
  assume e: "binary_search xs x = Inl i"
  then have ne: "xs \<noteq> []" by (auto simp: binary_search_def)
  with bs_loop_bounds [of "length xs" 0 xs x] e
  show "i < length xs \<and> xs ! i = x" by (auto simp: binary_search_def Let_def split: if_splits)
next
  fix xs :: "'a list" and x :: 'a and i
  assume s: "sorted xs" and e: "binary_search xs x = Inr i"
  show "i \<le> length xs \<and> (\<forall>j < i. xs ! j < x) \<and> (\<forall>j. i \<le> j \<longrightarrow> j < length xs \<longrightarrow> x < xs ! j)"
  proof (cases "xs = []")
    case True
    with e show ?thesis by (simp add: binary_search_def)
  next
    case False
    let ?r = "bs_loop xs x 0 (length xs)"
    note l = binary_search_loop [OF s False, where x = x]
    from e False have ne: "xs ! ?r \<noteq> x" and i: "i = ?r + (if xs ! ?r < x then 1 else 0)"
      by (auto simp: binary_search_def Let_def split: if_splits)
    have r0: "x < xs ! ?r \<Longrightarrow> ?r = 0" using l(4) by auto
    have "xs ! j < x" if "j < i" for j
    proof (cases "xs ! ?r < x")
      case True
      then have "j \<le> ?r" using that i by simp
      then have "xs ! j \<le> xs ! ?r" using s l(1) by (simp add: sorted_nth_mono)
      with True show ?thesis by simp
    next
      case False
      with ne have "x < xs ! ?r" by simp
      with r0 i that show ?thesis by (simp split: if_splits)
    qed
    moreover have "x < xs ! j" if "i \<le> j" "j < length xs" for j
    proof (cases "xs ! ?r < x")
      case True
      then show ?thesis using that i l(3) [of j] by simp
    next
      case nlt: False
      with ne have gt: "x < xs ! ?r" by simp
      then have "xs ! ?r \<le> xs ! j" using s that i nlt by (simp add: sorted_nth_mono)
      with gt show ?thesis by simp
    qed
    moreover have "i \<le> length xs" using i l(1) by simp
    ultimately show ?thesis by blast
  qed
qed

end
