(* ===== verification/Errors.thy ===== *)
theory Errors
  imports Prelude
begin

text \<open>
  The error values of the protocol crate (\<open>libs/metor-proto/src/error.rs\<close>) and of the
  database (\<open>libs/db/src/error.rs\<close>).  A fallible operation of the program is a function
  into \<open>error + 'a\<close>, with \<open>Inl\<close> for \<open>Err\<close>; a panic is \<open>None\<close> where it can occur.
  Payloads that come from other crates (postcard, arrow, datafusion, the operating system)
  are kept as opaque numbers or strings.
\<close>

section \<open>Protocol errors\<close>

datatype proto_error =
    BufferUnderflow
  | BufferOverflow
  | OffsetOverflow
  | Alignment
  | InvalidComponentData
  | VTableNotFound
  | Postcard nat
  | InvalidPacket
  | OpRefNotFound
  | InvalidOp
  | SchemaNotFound

text \<open>
  The verdicts of a zerocopy cast.  \<open>CastError\<close> and \<open>TryCastError\<close> are converted by
  \<open>from_cast\<close> and \<open>from_try_cast\<close>, a bare \<open>SizeError\<close> by \<open>from_size\<close>.  A plain
  \<open>CastError\<close> has no validity case (\<open>unreachable!()\<close>, a panic).
\<close>

datatype cast_error = CastAlignment | CastSize | CastValidity

fun from_cast :: "cast_error \<Rightarrow> proto_error option" where
  "from_cast CastAlignment = Some Alignment"
| "from_cast CastSize = Some BufferUnderflow"
| "from_cast CastValidity = None"

fun from_try_cast :: "cast_error \<Rightarrow> proto_error" where
  "from_try_cast CastAlignment = Alignment"
| "from_try_cast CastSize = BufferUnderflow"
| "from_try_cast CastValidity = InvalidComponentData"

definition from_size :: "cast_error \<Rightarrow> proto_error" where
  "from_size _ = OffsetOverflow"

section \<open>Database errors\<close>

datatype io_kind = BrokenPipe | ConnectionReset | NotFound | AlreadyExists | OtherIo nat

datatype stellar_error =
    SubmissionQueueFull
  | ExecutorAlreadyInstalled
  | StellarIo io_kind
  | InvalidSocketAddrType
  | InvalidPath
  | CompletionStateMissing
  | PolledIgnoredCompletion
  | CompletionOpCodeMissing
  | StellarBufferOverflow
  | EOF
  | IntegerOverflow
  | JoinFailed

text \<open>The error of the packet transport; an error response carries its description.\<close>

datatype impeller_stellar_error =
    ISImpeller proto_error
  | ISStellar stellar_error
  | ISPostcard nat
  | ISInvalidPacketType
  | ISWait nat
  | ISRxHandleClosed
  | ISResponse string

datatype db_error =
    MapOverflow
  | Stellar stellar_error
  | Io io_kind
  | ImpellerStella impeller_stellar_error
  | Impeller proto_error
  | ComponentNotFound u64
  | DbPostcard nat
  | InvalidComponentId
  | TimeTravel
  | DataFusion nat
  | Arrow nat
  | StreamNotFound u64
  | TimeRangeOutOfBounds
  | InvalidMsgId
  | MsgNotFound "byte list"
  | BadMessage
  | UnsupportedArchiveFormat
  | SchemaMismatch

fun from_stellar :: "stellar_error \<Rightarrow> db_error" where
  "from_stellar (StellarIo err) = Io err"
| "from_stellar err = Stellar err"

fun from_impeller_stellar :: "impeller_stellar_error \<Rightarrow> db_error" where
  "from_impeller_stellar (ISStellar err) = from_stellar err"
| "from_impeller_stellar err = ImpellerStella err"

fun is_stream_closed :: "db_error \<Rightarrow> bool" where
  "is_stream_closed (Stellar EOF) = True"
| "is_stream_closed (Io err) = (err = BrokenPipe \<or> err = ConnectionReset)"
| "is_stream_closed _ = False"

text \<open>
  Converting a transport error never hides a closed stream: the three ways a closed
  connection is reported all end in the branch that the connection loop treats silently.
\<close>

lemma from_impeller_stellar_closed [simp]:
  "is_stream_closed (from_impeller_stellar e) \<longleftrightarrow>
     e = ISStellar EOF \<or> e = ISStellar (StellarIo BrokenPipe) \<or>
     e = ISStellar (StellarIo ConnectionReset)"
proof (cases e)
  case (ISStellar s)
  then show ?thesis by (cases s) auto
qed simp_all

section \<open>Results\<close>

text \<open>The \<open>?\<close> operator: sequencing that stops at the first error.\<close>

fun bind_result :: "'e + 'a \<Rightarrow> ('a \<Rightarrow> 'e + 'b) \<Rightarrow> 'e + 'b" where
  "bind_result (Inl e) f = Inl e"
| "bind_result (Inr a) f = f a"

fun map_err :: "('e \<Rightarrow> 'f) \<Rightarrow> 'e + 'a \<Rightarrow> 'f + 'a" where
  "map_err f (Inl e) = Inl (f e)"
| "map_err f (Inr a) = Inr a"

definition ok_or :: "'e \<Rightarrow> 'a option \<Rightarrow> 'e + 'a" where
  "ok_or e x = (case x of None \<Rightarrow> Inl e | Some a \<Rightarrow> Inr a)"

lemma bind_result_Inr_iff:
  "bind_result r f = Inr b \<longleftrightarrow> (\<exists>a. r = Inr a \<and> f a = Inr b)"
  by (cases r) auto

lemma ok_or_simps [simp]: "ok_or e None = Inl e" "ok_or e (Some a) = Inr a"
  by (simp_all add: ok_or_def)

lemma ok_or_Inr_iff: "ok_or e x = Inr a \<longleftrightarrow> x = Some a"
  by (cases x) auto

end
