(* ===== verification/Disruptor.thy ===== *)
theory Disruptor
  imports Errors
begin

text \<open>
  The write-ahead ring buffer (\<open>libs/db/src/disruptor.rs\<close>): one byte ring, a committed
  position, a high-water mark for the lap, a write lock and a list of reader cursors.
  Positions are \<open>u64\<close> in the code and never exceed the capacity, so they are \<open>nat\<close>.
  \<open>try_grant\<close> is split where the code can be interrupted: the committed position is
  loaded before the lock is taken, the rest runs under the lock.  A write grant is a range
  of the ring; \<open>d_lock\<close> says that one is outstanding.  Waking the readers' wait queue has
  no effect on this state.
\<close>

section \<open>State\<close>

record disruptor =
  d_ring :: "byte list"
  d_committed :: nat
  d_hwm :: nat
  d_readers :: "(nat \<times> nat) list"
  d_lock :: bool
  d_fresh :: nat

datatype disruptor_error = WouldBlock | InsufficientCapacity

record grant =
  g_start :: nat
  g_end :: nat

definition d_max :: "disruptor \<Rightarrow> nat" where
  "d_max d = length (d_ring d)"

definition disruptor_new :: "nat \<Rightarrow> disruptor" where
  "disruptor_new capacity =
     \<lparr>d_ring = replicate capacity 0, d_committed = 0, d_hwm = 0, d_readers = [],
      d_lock = False, d_fresh = 0\<rparr>"

section \<open>Writers\<close>

text \<open>The loop of \<open>can_write\<close> over the reader nodes, with its two \<open>break\<close>s.\<close>

fun check_room :: "(nat \<times> nat) list \<Rightarrow> nat \<Rightarrow> nat \<Rightarrow> nat \<Rightarrow> nat \<Rightarrow> bool" where
  "check_room [] ring len wr mx = True"
| "check_room ((_, cursor) # rs) ring len wr mx =
     (let read = cursor mod ring
      in if wr < read \<and> read \<le> wr + len then False
         else if mx < wr + len \<and> read \<le> len then False
         else check_room rs ring len wr mx)"

definition can_write :: "disruptor \<Rightarrow> nat \<Rightarrow> nat \<Rightarrow> nat \<Rightarrow> bool" where
  "can_write d len wr mx = check_room (d_readers d) (d_max d) len wr mx"

text \<open>
  First step of \<open>try_grant\<close>: the load of the committed position, before the lock.
  \<open>None\<close> is the division by zero of an empty ring.
\<close>

definition load_write :: "disruptor \<Rightarrow> nat option" where
  "load_write d = (if d_max d = 0 then None else Some (d_committed d mod d_max d))"

text \<open>Second step, under the lock: the checks, the lap and the high-water mark.\<close>

definition locked_grant :: "disruptor \<Rightarrow> nat \<Rightarrow> nat \<Rightarrow> disruptor_error + (grant \<times> disruptor)" where
  "locked_grant d wr len =
     (let mx = d_max d
      in if mx < len then Inl InsufficientCapacity
         else if \<not> can_write d len wr mx then Inl WouldBlock
         else if mx < wr + len
              then Inr (\<lparr>g_start = 0, g_end = 0 + len\<rparr>, d\<lparr>d_hwm := 0, d_lock := True\<rparr>)
         else if d_hwm d < wr + len
              then Inr (\<lparr>g_start = wr, g_end = wr + len\<rparr>, d\<lparr>d_hwm := wr + len, d_lock := True\<rparr>)
         else Inr (\<lparr>g_start = wr, g_end = wr + len\<rparr>, d\<lparr>d_lock := True\<rparr>))"

definition try_grant :: "disruptor \<Rightarrow> nat \<Rightarrow> (disruptor_error + (grant \<times> disruptor)) option" where
  "try_grant d len = map_option (\<lambda>wr. locked_grant d wr len) (load_write d)"

text \<open>Writing through the grant (\<open>DerefMut\<close>) and committing it (\<open>Drop\<close>).\<close>

definition grant_fill :: "disruptor \<Rightarrow> grant \<Rightarrow> byte list \<Rightarrow> disruptor" where
  "grant_fill d g bs = d\<lparr>d_ring := splice (g_start g) bs (d_ring d)\<rparr>"

definition grant_drop :: "disruptor \<Rightarrow> grant \<Rightarrow> disruptor" where
  "grant_drop d g =
     (let committed = d_committed d;
          hwm = (if g_end g < committed \<and> g_end g \<noteq> d_max d then committed
                 else if d_hwm d < g_end g then d_max d
                 else d_hwm d)
      in d\<lparr>d_hwm := hwm, d_committed := g_end g, d_lock := False\<rparr>)"

text \<open>
  The writers' idiom in \<open>Component::push_buf\<close> and \<open>MsgLog::push\<close>: grant, fill, drop.
  \<open>None\<close> is the panic of an empty ring.
\<close>

definition publish :: "disruptor \<Rightarrow> byte list \<Rightarrow> (disruptor_error + disruptor) option" where
  "publish d bs =
     map_option (\<lambda>r. case r of
         Inl e \<Rightarrow> Inl e
       | Inr (g, d') \<Rightarrow> Inr (grant_drop (grant_fill d' g bs) g))
     (try_grant d (length bs))"

section \<open>Readers\<close>

definition reader_new :: "disruptor \<Rightarrow> nat \<times> disruptor" where
  "reader_new d =
     (d_fresh d, d\<lparr>d_readers := (d_fresh d, d_committed d) # d_readers d, d_fresh := Suc (d_fresh d)\<rparr>)"

fun reader_count_loop :: "(nat \<times> nat) list \<Rightarrow> nat \<Rightarrow> nat" where
  "reader_count_loop [] count = count"
| "reader_count_loop (_ # rs) count = reader_count_loop rs (count + 1)"

definition reader_count :: "disruptor \<Rightarrow> nat" where
  "reader_count d = reader_count_loop (d_readers d) 0"

definition cursor_of :: "disruptor \<Rightarrow> nat \<Rightarrow> nat option" where
  "cursor_of d r = map_of (d_readers d) r"

definition set_cursor :: "disruptor \<Rightarrow> nat \<Rightarrow> nat \<Rightarrow> disruptor" where
  "set_cursor d r c = d\<lparr>d_readers := map (\<lambda>(i, x). if i = r then (i, c) else (i, x)) (d_readers d)\<rparr>"

text \<open>
  One poll, the body shared by \<open>next\<close> (the closure it waits on) and \<open>try_next\<close>: the
  cursor resets to the start of the ring when it stands at the high-water mark and the
  writer has lapped; the readable range goes to the high-water mark or to the committed
  position.  The outer \<open>None\<close> is the underflow of the unsigned subtraction (a panic).
\<close>

definition poll :: "disruptor \<Rightarrow> nat \<Rightarrow> nat \<Rightarrow> ((nat \<times> nat) option \<times> disruptor) option" where
  "poll d r cursor =
     (let wr = d_committed d; hwm = d_hwm d;
          lap = (cursor = hwm \<and> wr < cursor);
          read = (if lap then 0 else cursor);
          d' = (if lap then set_cursor d r 0 else d);
          top = (if wr < read then hwm else wr)
      in if top < read then None
         else Some (if 0 < top - read then Some (read, read + (top - read)) else None, d'))"

definition try_next :: "disruptor \<Rightarrow> nat \<Rightarrow> ((nat \<times> nat) option \<times> disruptor) option" where
  "try_next d r = (case cursor_of d r of None \<Rightarrow> None | Some cursor \<Rightarrow> poll d r cursor)"

text \<open>Reading through the grant and releasing it, which moves the cursor to its end.\<close>

definition read_grant :: "disruptor \<Rightarrow> nat \<times> nat \<Rightarrow> byte list option" where
  "read_grant d rng = get_range (d_ring d) (fst rng) (snd rng)"

definition read_drop :: "disruptor \<Rightarrow> nat \<Rightarrow> nat \<times> nat \<Rightarrow> disruptor" where
  "read_drop d r rng = set_cursor d r (snd rng)"

text \<open>
  Dropping a reader unlinks its node from the list.  The walk stops at the first node that
  is this reader's; a list without it is the detached case (a debug panic, otherwise a
  silent return).
\<close>

fun unlink :: "nat \<Rightarrow> (nat \<times> nat) list \<Rightarrow> (nat \<times> nat) list option" where
  "unlink r [] = None"
| "unlink r ((i, c) # rs) = (if i = r then Some rs else map_option ((#) (i, c)) (unlink r rs))"

definition reader_drop :: "disruptor \<Rightarrow> nat \<Rightarrow> disruptor option" where
  "reader_drop d r = map_option (\<lambda>rs. d\<lparr>d_readers := rs\<rparr>) (unlink r (d_readers d))"

section \<open>Invariant and abstraction\<close>

text \<open>
  The bytes a cursor has still to read: up to the committed position, or, once the writer
  has lapped, up to the high-water mark and then from the start.
\<close>

definition pending :: "disruptor \<Rightarrow> nat \<Rightarrow> byte list" where
  "pending d c =
     (if d_committed d < c
      then slice c (d_hwm d) (d_ring d) @ slice 0 (d_committed d) (d_ring d)
      else slice c (d_committed d) (d_ring d))"

definition cursor_ok :: "disruptor \<Rightarrow> nat \<Rightarrow> bool" where
  "cursor_ok d c \<longleftrightarrow> c \<le> d_max d \<and> (d_committed d < c \<longrightarrow> c \<le> d_hwm d)"

definition d_inv :: "disruptor \<Rightarrow> bool" where
  "d_inv d \<longleftrightarrow> 0 < d_max d \<and> d_committed d \<le> d_hwm d \<and> d_hwm d \<le> d_max d \<and> \<not> d_lock d \<and>
     (\<forall>(i, c) \<in> set (d_readers d). cursor_ok d c) \<and>
     distinct (map fst (d_readers d)) \<and> (\<forall>(i, c) \<in> set (d_readers d). i < d_fresh d)"

text \<open>
  The condition under which the ring tells a full buffer from an empty one.  Positions are
  compared modulo the capacity, so the start and the end of the ring look alike: a reader
  at the start of a ring that was filled to its very end, or a reader at the end when a
  message reaches the end again, would seem to have nothing unread.
\<close>

definition unambiguous :: "disruptor \<Rightarrow> nat \<Rightarrow> bool" where
  "unambiguous d len \<longleftrightarrow>
     (\<forall>(i, c) \<in> set (d_readers d). \<not> (c = 0 \<and> d_committed d = d_max d) \<and>
        \<not> (c = d_max d \<and> d_committed d mod d_max d + len = d_max d))"

text \<open>A range that a reader standing at \<open>a\<close> may hold.\<close>

definition held_ok :: "disruptor \<Rightarrow> nat \<Rightarrow> nat \<Rightarrow> bool" where
  "held_ok d a b \<longleftrightarrow> a < b \<and> (if d_committed d < a then b \<le> d_hwm d else b \<le> d_committed d)"

lemma check_room_iff:
  "check_room rs ring len wr mx \<longleftrightarrow>
     (\<forall>(i, c) \<in> set rs. \<not> (wr < c mod ring \<and> c mod ring \<le> wr + len) \<and>
        \<not> (mx < wr + len \<and> c mod ring \<le> len))"
  by (induction rs ring len wr mx rule: check_room.induct) (auto simp: Let_def)

lemma d_inv_new [inv_intros]: "0 < capacity \<Longrightarrow> d_inv (disruptor_new capacity)"
  by (simp add: d_inv_def disruptor_new_def d_max_def)

lemma reader_count_eq: "reader_count d = length (d_readers d)"
proof -
  have "reader_count_loop rs n = n + length rs" for rs n
    by (induction rs n rule: reader_count_loop.induct) auto
  then show ?thesis by (simp add: reader_count_def)
qed

lemma set_cursor_simps [simp]:
  "d_ring (set_cursor d r c) = d_ring d" "d_committed (set_cursor d r c) = d_committed d"
  "d_hwm (set_cursor d r c) = d_hwm d" "d_lock (set_cursor d r c) = d_lock d"
  "d_fresh (set_cursor d r c) = d_fresh d" "d_max (set_cursor d r c) = d_max d"
  "map fst (d_readers (set_cursor d r c)) = map fst (d_readers d)"
  by (auto simp: set_cursor_def d_max_def)

lemma set_cursor_readers:
  "(i, x) \<in> set (d_readers (set_cursor d r c)) \<longleftrightarrow>
     (if i = r then x = c \<and> (\<exists>y. (r, y) \<in> set (d_readers d)) else (i, x) \<in> set (d_readers d))"
  by (auto simp: set_cursor_def split: if_splits) force+

lemma set_cursor_inv:
  assumes "d_inv d" "cursor_ok d c"
  shows "d_inv (set_cursor d r c)"
proof -
  have ok: "cursor_ok (set_cursor d r c) x = cursor_ok d x" for x by (simp add: cursor_ok_def)
  have "\<forall>(i, x) \<in> set (d_readers (set_cursor d r c)). cursor_ok d x \<and> i < d_fresh d"
    using assms by (fastforce simp: d_inv_def set_cursor_readers split: if_splits)
  then show ?thesis using assms(1) by (auto simp: d_inv_def ok)
qed

lemma pending_set_cursor [simp]: "pending (set_cursor d r c) x = pending d x"
  by (simp add: pending_def)

section \<open>Publishing\<close>

text \<open>
  The three ways a message can be placed: behind the committed position, at the start
  because the ring is filled exactly to its end, or at the start because it does not fit
  behind (a lap).
\<close>

lemma publish_cases:
  assumes inv: "d_inv d" and pub: "publish d bs = Some (Inr d')"
  obtains
    (behind) "d_committed d < d_max d" "d_committed d + length bs \<le> d_max d"
      "check_room (d_readers d) (d_max d) (length bs) (d_committed d) (d_max d)"
      "d' = d\<lparr>d_ring := splice (d_committed d) bs (d_ring d), d_hwm := max (d_hwm d) (d_committed d + length bs),
             d_committed := d_committed d + length bs, d_lock := False\<rparr>"
  | (exact) "d_committed d = d_max d" "d_hwm d = d_max d" "length bs \<le> d_max d"
      "check_room (d_readers d) (d_max d) (length bs) 0 (d_max d)"
      "d' = d\<lparr>d_ring := splice 0 bs (d_ring d), d_hwm := d_max d,
             d_committed := length bs, d_lock := False\<rparr>"
  | (lap) "d_committed d < d_max d" "length bs \<le> d_max d" "d_max d < d_committed d + length bs"
      "check_room (d_readers d) (d_max d) (length bs) (d_committed d) (d_max d)"
      "d' = d\<lparr>d_ring := splice 0 bs (d_ring d),
             d_hwm := (if length bs < d_committed d then d_committed d else d_max d),
             d_committed := length bs, d_lock := False\<rparr>"
proof -
  let ?W = "d_committed d" and ?M = "d_max d" and ?n = "length bs"
  from inv have b: "0 < ?M" "?W \<le> d_hwm d" "d_hwm d \<le> ?M" by (simp_all add: d_inv_def)
  then have WM: "?W \<le> ?M" by simp
  have dm: "d_max (d\<lparr>d_hwm := h, d_lock := k\<rparr>) = ?M" "d_max (d\<lparr>d_lock := k\<rparr>) = ?M" for h k
    by (simp_all add: d_max_def)
  from pub b(1) obtain g e where lg: "locked_grant d (?W mod ?M) ?n = Inr (g, e)"
    and d': "d' = grant_drop (grant_fill e g bs) g"
    by (auto simp: publish_def try_grant_def load_write_def split: sum.splits)
  from lg have n: "?n \<le> ?M" and cw: "check_room (d_readers d) ?M ?n (?W mod ?M) ?M"
    by (auto simp: locked_grant_def Let_def can_write_def split: if_splits)
  have len: "d_max (grant_fill e g bs) = ?M" if "g_start g + ?n \<le> ?M" "d_ring e = d_ring d" for g e
    using that by (simp add: grant_fill_def d_max_def length_splice)
  show ?thesis
  proof (cases "?W = ?M")
    case True
    with b have h: "d_hwm d = ?M" by simp
    from lg True n h have g: "g = \<lparr>g_start = 0, g_end = ?n\<rparr>" and e: "e = d\<lparr>d_lock := True\<rparr>"
      by (auto simp: locked_grant_def Let_def split: if_splits)
    have "d' = d\<lparr>d_ring := splice 0 bs (d_ring d), d_hwm := ?M, d_committed := ?n, d_lock := False\<rparr>"
      using d' g e True h n len [of g e] by (auto simp: grant_drop_def grant_fill_def Let_def)
    with True h n cw b(1) show ?thesis by (intro exact) simp_all
  next
    case False
    with WM have lt: "?W < ?M" by simp
    then have mod: "?W mod ?M = ?W" by simp
    show ?thesis
    proof (cases "?M < ?W + ?n")
      case True
      from lg mod True n have g: "g = \<lparr>g_start = 0, g_end = ?n\<rparr>" and e: "e = d\<lparr>d_hwm := 0, d_lock := True\<rparr>"
        by (auto simp: locked_grant_def Let_def split: if_splits)
      have "0 < ?n" using True lt by linarith
      then have "d' = d\<lparr>d_ring := splice 0 bs (d_ring d), d_hwm := (if ?n < ?W then ?W else ?M),
          d_committed := ?n, d_lock := False\<rparr>"
        using d' g e n lt len [of g e] by (auto simp: grant_drop_def grant_fill_def Let_def)
      with lt n True cw mod show ?thesis by (intro lap) simp_all
    next
      case False
      from lg mod False have g: "g = \<lparr>g_start = ?W, g_end = ?W + ?n\<rparr>"
        and e: "e = d\<lparr>d_hwm := max (d_hwm d) (?W + ?n), d_lock := True\<rparr>"
        by (auto simp: locked_grant_def Let_def max_def split: if_splits)
      have "d' = d\<lparr>d_ring := splice ?W bs (d_ring d), d_hwm := max (d_hwm d) (?W + ?n),
          d_committed := ?W + ?n, d_lock := False\<rparr>"
        using d' g e False len [of g e] by (auto simp: grant_drop_def grant_fill_def Let_def)
      with lt False cw mod show ?thesis by (intro behind) simp_all
    qed
  qed
qed

lemma publish_frame:
  assumes "d_inv d" "publish d bs = Some (Inr d')"
  shows "d_readers d' = d_readers d" "d_max d' = d_max d" "d_fresh d' = d_fresh d" "\<not> d_lock d'"
    "length bs \<le> d_max d"
  using assms by (cases rule: publish_cases; simp add: d_max_def length_splice)+

lemma room_reader:
  assumes "check_room rs m n w mx" "(i, c) \<in> set rs"
  shows "\<not> (w < c mod m \<and> c mod m \<le> w + n)" "\<not> (mx < w + n \<and> c mod m \<le> n)"
  using assms by (auto simp: check_room_iff)

text \<open>One reader through one publish: the message is appended to what it has to read.\<close>

lemma publish_reader:
  assumes inv: "d_inv d" and pub: "publish d bs = Some (Inr d')"
    and un: "unambiguous d (length bs)" and r: "(i, c) \<in> set (d_readers d)"
  shows "pending d' c = pending d c @ bs \<and> cursor_ok d' c \<and> (\<forall>b. held_ok d c b \<longrightarrow> held_ok d' c b)"
proof -
  let ?W = "d_committed d" and ?M = "d_max d" and ?n = "length bs" and ?R = "d_ring d"
  have M: "?M = length ?R" by (simp add: d_max_def)
  from inv have b: "0 < ?M" "?W \<le> d_hwm d" "d_hwm d \<le> ?M" by (simp_all add: d_inv_def)
  from inv r have c: "c \<le> ?M" "?W < c \<longrightarrow> c \<le> d_hwm d" by (auto simp: d_inv_def cursor_ok_def)
  from un r have u: "\<not> (c = 0 \<and> ?W = ?M)" "\<not> (c = ?M \<and> ?W mod ?M + ?n = ?M)"
    by (auto simp: unambiguous_def)
  from inv pub show ?thesis
  proof (cases rule: publish_cases)
    case behind
    let ?R' = "splice ?W bs ?R"
    have app: "slice ?W (?W + ?n) ?R' = bs" using behind(1) M by (simp add: slice_splice_same)
    have pre: "slice a ?W ?R' = slice a ?W ?R" for a using behind(1) M by (simp add: slice_splice_before)
    have glue: "slice a (?W + ?n) ?R' = slice a ?W ?R @ bs" if "a \<le> ?W" for a
      using slice_append_split [of a ?W "?W + ?n" ?R'] that app pre by simp
    show ?thesis
    proof (cases "c \<le> ?W")
      case True
      then show ?thesis using behind(4) glue [of c] c(1) M behind(2)
        by (simp add: pending_def cursor_ok_def held_ok_def d_max_def length_splice)
    next
      case False
      then have gt: "?W < c" by simp
      have lt: "?W + ?n < c"
      proof (cases "c = ?M")
        case True
        with u(2) behind(1,2) show ?thesis by simp
      next
        case ne: False
        with c(1) room_reader(1) [OF behind(3) r] gt show ?thesis by auto
      qed
      then have h: "max (d_hwm d) (?W + ?n) = d_hwm d" using c(2) gt by simp
      have "slice c (d_hwm d) ?R' = slice c (d_hwm d) ?R"
        using lt behind(2) M by (intro slice_splice_after) simp_all
      then show ?thesis using behind(4) glue [of 0] gt lt h c M behind(2)
        by (simp add: pending_def cursor_ok_def held_ok_def d_max_def length_splice)
    qed
  next
    case exact
    let ?R' = "splice 0 bs ?R"
    have app: "slice 0 ?n ?R' = bs" using slice_splice_same [of 0 ?R bs] by simp
    have lt: "?n < c"
    proof (cases "c = ?M")
      case True
      with u(2) exact(1,3) show ?thesis by simp
    next
      case False
      then have "c mod ?M = c" using c(1) by simp
      with room_reader(1) [OF exact(4) r] u(1) exact(1) show ?thesis by auto
    qed
    have "slice c ?M ?R' = slice c ?M ?R" using lt exact(3) M by (intro slice_splice_after) simp_all
    then show ?thesis using exact app lt c(1) M
      by (simp add: pending_def cursor_ok_def held_ok_def d_max_def length_splice)
  next
    case lap
    let ?R' = "splice 0 bs ?R"
    have app: "slice 0 ?n ?R' = bs" using slice_splice_same [of 0 ?R bs] by simp
    have nc: "?n < c mod ?M" using room_reader(2) [OF lap(4) r] lap(3) by auto
    then have cm: "c \<noteq> ?M" by (intro notI) simp
    with c(1) have "c mod ?M = c" by simp
    with nc have lt: "?n < c" by simp
    have le: "c \<le> ?W" using room_reader(1) [OF lap(4) r] \<open>c mod ?M = c\<close> lap(3) c(1) by auto
    have "slice c ?W ?R' = slice c ?W ?R" using lt lap(2) M by (intro slice_splice_after) simp_all
    then show ?thesis using lap(5) app lt le c(1) M lap(2)
      by (simp add: pending_def cursor_ok_def held_ok_def d_max_def length_splice)
  qed
qed

lemma publish_inv:
  assumes inv: "d_inv d" and pub: "publish d bs = Some (Inr d')" and un: "unambiguous d (length bs)"
  shows "d_inv d'"
proof -
  note f = publish_frame [OF inv pub]
  have "d_committed d' \<le> d_hwm d' \<and> d_hwm d' \<le> d_max d'"
    using inv pub
  proof (cases rule: publish_cases)
    case behind
    then show ?thesis using inv by (auto simp: d_max_def length_splice d_inv_def)
  qed (auto simp: d_max_def length_splice)
  moreover have "\<forall>(i, c) \<in> set (d_readers d'). cursor_ok d' c"
    using publish_reader [OF inv pub un] f(1) by auto
  ultimately show ?thesis using inv f by (simp add: d_inv_def)
qed

section \<open>Polling\<close>

lemma held_split:
  assumes "held_ok d a b"
  shows "pending d a = slice a b (d_ring d) @ pending d b"
proof (cases "d_committed d < a")
  case True
  with assms have "a < b" "b \<le> d_hwm d" by (simp_all add: held_ok_def)
  with True slice_append_split [of a b "d_hwm d" "d_ring d"] show ?thesis by (simp add: pending_def)
next
  case False
  with assms have "a < b" "b \<le> d_committed d" by (simp_all add: held_ok_def)
  with False slice_append_split [of a b "d_committed d" "d_ring d"] show ?thesis by (simp add: pending_def)
qed

text \<open>
  A poll never panics, never loses a byte, and offers a non-empty range exactly when there
  is something to read; the range lies in the ring and starts at the reader's cursor.
\<close>

lemma poll_sound:
  assumes inv: "d_inv d" and c: "(r, c) \<in> set (d_readers d)"
  obtains
    (idle) e where "poll d r c = Some (None, e)" "d_inv e" "pending d c = []"
      "\<exists>c'. (r, c') \<in> set (d_readers e) \<and> pending e c' = []"
  | (ready) a b e where "poll d r c = Some (Some (a, b), e)" "d_inv e" "held_ok e a b"
      "(r, a) \<in> set (d_readers e)" "pending e a = pending d c" "b \<le> d_max e"
      "read_grant e (a, b) = Some (slice a b (d_ring e))"
proof -
  let ?W = "d_committed d" and ?H = "d_hwm d"
  from inv have b: "?W \<le> ?H" "?H \<le> d_max d" by (simp_all add: d_inv_def)
  from inv c have ok: "c \<le> d_max d" "?W < c \<longrightarrow> c \<le> ?H" by (auto simp: d_inv_def cursor_ok_def)
  have zero: "cursor_ok d 0" by (simp add: cursor_ok_def)
  have rg: "read_grant e (x, y) = Some (slice x y (d_ring e))" if "x \<le> y" "y \<le> d_max e" for e x y
    using that by (simp add: read_grant_def get_range_def d_max_def)
  show ?thesis
  proof (cases "c = ?H \<and> ?W < c")
    case True
    let ?e = "set_cursor d r 0"
    have e: "d_inv ?e" using inv zero by (rule set_cursor_inv)
    have m: "(r, 0) \<in> set (d_readers ?e)" using c by (auto simp: set_cursor_readers)
    have p: "pending ?e 0 = pending d c" using True by (simp add: pending_def)
    show ?thesis
    proof (cases "?W = 0")
      case W: True
      then have "poll d r c = Some (None, ?e)" using True by (simp add: poll_def Let_def)
      moreover have "pending d c = []" using True W by (simp add: pending_def)
      ultimately show ?thesis using e m p by (intro idle) auto
    next
      case W: False
      then have "poll d r c = Some (Some (0, ?W), ?e)" using True by (simp add: poll_def Let_def)
      moreover have "held_ok ?e 0 ?W" using W by (simp add: held_ok_def)
      ultimately show ?thesis using e m p rg [of 0 ?W ?e] b by (intro ready [of 0 ?W ?e]) simp_all
    qed
  next
    case False
    show ?thesis
    proof (cases "?W < c")
      case W: True
      with False ok have h: "c < ?H" by linarith
      then have "poll d r c = Some (Some (c, ?H), d)" using False W by (auto simp: poll_def Let_def)
      moreover have "held_ok d c ?H" using W h by (simp add: held_ok_def)
      ultimately show ?thesis using inv c b h rg [of c ?H d] by (intro ready [of c ?H d]) simp_all
    next
      case W: False
      show ?thesis
      proof (cases "c = ?W")
        case True
        then have "poll d r c = Some (None, d)" using False by (simp add: poll_def Let_def)
        moreover have "pending d c = []" using True by (simp add: pending_def)
        ultimately show ?thesis using inv c by (intro idle) auto
      next
        case ne: False
        then have "poll d r c = Some (Some (c, ?W), d)" using W by (auto simp: poll_def Let_def)
        moreover have "held_ok d c ?W" using W ne by (simp add: held_ok_def)
        ultimately show ?thesis using inv c b W rg [of c ?W d] by (intro ready [of c ?W d]) simp_all
      qed
    qed
  qed
qed

lemma held_cursor_ok: "d_inv d \<Longrightarrow> held_ok d a b \<Longrightarrow> cursor_ok d b"
  by (auto simp: held_ok_def cursor_ok_def d_inv_def split: if_splits)

lemma read_drop_inv: "d_inv d \<Longrightarrow> held_ok d a b \<Longrightarrow> d_inv (read_drop d r (a, b))"
  unfolding read_drop_def by (simp add: set_cursor_inv held_cursor_ok)

lemma reader_new_inv: "d_inv d \<Longrightarrow> d_inv (snd (reader_new d))"
  by (fastforce simp: d_inv_def reader_new_def d_max_def cursor_ok_def)

lemma unlink_Some:
  "distinct (map fst rs) \<Longrightarrow> unlink r rs = Some rs' \<Longrightarrow>
   set rs' = {p \<in> set rs. fst p \<noteq> r} \<and> distinct (map fst rs') \<and> set (map fst rs') \<subseteq> set (map fst rs)"
proof (induction r rs arbitrary: rs' rule: unlink.induct)
  case (1 r)
  then show ?case by simp
next
  case (2 r i c rs)
  then show ?case
    by (cases "i = r") (force split: option.splits)+
qed

lemma reader_drop_inv:
  assumes "d_inv d" "reader_drop d r = Some e"
  shows "d_inv e" "set (d_readers e) = {p \<in> set (d_readers d). fst p \<noteq> r}"
    "e = d\<lparr>d_readers := d_readers e\<rparr>"
proof -
  from assms(2) obtain rs where rs: "unlink r (d_readers d) = Some rs" and e: "e = d\<lparr>d_readers := rs\<rparr>"
    by (auto simp: reader_drop_def)
  have dist: "distinct (map fst (d_readers d))" using assms(1) by (simp add: d_inv_def)
  note u = unlink_Some [OF dist rs]
  show "set (d_readers e) = {p \<in> set (d_readers d). fst p \<noteq> r}" using u e by simp
  show "e = d\<lparr>d_readers := d_readers e\<rparr>" using e by simp
  show "d_inv e" using assms(1) u e by (auto simp: d_inv_def d_max_def cursor_ok_def)
qed

end
