(* ===== verification/DisruptorRun.thy ===== *)
theory DisruptorRun
  imports Disruptor
begin

text \<open>
  Runs of the ring buffer: one writer side and any number of readers, interleaved step by
  step.  A reader's read grant is held over several steps, so writers publish while it is
  being read; ghost fields record what was published since a reader joined
  (\<open>w_sent\<close>) and what the reader has been handed (\<open>w_got\<close>).  The main results: the
  ring delivers exactly the published bytes in order as long as it never confuses a full
  lap with an empty one, fixed-size messages whose size does not divide the capacity never
  cause that confusion, and when the size divides the capacity a full buffer of unread
  messages is silently overwritten.
\<close>

section \<open>The step relation\<close>

record wal_run =
  w_d :: disruptor
  w_sent :: "nat \<Rightarrow> byte list"
  w_got :: "nat \<Rightarrow> byte list"
  w_held :: "nat \<Rightarrow> (nat \<times> nat) option"

definition wal_init :: "nat \<Rightarrow> wal_run" where
  "wal_init capacity = \<lparr>w_d = disruptor_new capacity, w_sent = (\<lambda>_. []), w_got = (\<lambda>_. []), w_held = (\<lambda>_. None)\<rparr>"

text \<open>\<open>guard\<close> restricts the messages the writer publishes, given the ring's state.\<close>

inductive wal_step :: "(disruptor \<Rightarrow> byte list \<Rightarrow> bool) \<Rightarrow> wal_run \<Rightarrow> wal_run \<Rightarrow> bool" for guard where
  ws_publish: "guard (w_d s) bs \<Longrightarrow> publish (w_d s) bs = Some (Inr d') \<Longrightarrow>
     wal_step guard s (s\<lparr>w_d := d', w_sent := (\<lambda>r. w_sent s r @ bs)\<rparr>)"
| ws_refused: "publish (w_d s) bs = Some (Inl e) \<Longrightarrow> wal_step guard s s"
| ws_join: "reader_new (w_d s) = (r, d') \<Longrightarrow>
     wal_step guard s (s\<lparr>w_d := d', w_sent := (w_sent s)(r := []), w_got := (w_got s)(r := []),
                   w_held := (w_held s)(r := None)\<rparr>)"
| ws_take: "w_held s r = None \<Longrightarrow> try_next (w_d s) r = Some (Some rng, d') \<Longrightarrow>
     wal_step guard s (s\<lparr>w_d := d', w_held := (w_held s)(r := Some rng)\<rparr>)"
| ws_idle: "w_held s r = None \<Longrightarrow> try_next (w_d s) r = Some (None, d') \<Longrightarrow>
     wal_step guard s (s\<lparr>w_d := d'\<rparr>)"
| ws_release: "w_held s r = Some rng \<Longrightarrow> read_grant (w_d s) rng = Some bs \<Longrightarrow>
     wal_step guard s (s\<lparr>w_d := read_drop (w_d s) r rng, w_got := (w_got s)(r := w_got s r @ bs),
                   w_held := (w_held s)(r := None)\<rparr>)"
| ws_leave: "w_held s r = None \<Longrightarrow> reader_drop (w_d s) r = Some d' \<Longrightarrow>
     wal_step guard s (s\<lparr>w_d := d'\<rparr>)"

inductive wal_reach :: "(disruptor \<Rightarrow> byte list \<Rightarrow> bool) \<Rightarrow> nat \<Rightarrow> wal_run \<Rightarrow> bool" for guard capacity where
  wr_init: "wal_reach guard capacity (wal_init capacity)"
| wr_step: "wal_reach guard capacity s \<Longrightarrow> wal_step guard s t \<Longrightarrow> wal_reach guard capacity t"

inductive_simps wal_step_iff: "wal_step guard s t"

section \<open>The run invariant\<close>

definition reader_inv :: "wal_run \<Rightarrow> nat \<Rightarrow> nat \<Rightarrow> bool" where
  "reader_inv s r c \<longleftrightarrow> w_got s r @ pending (w_d s) c = w_sent s r \<and>
     (\<forall>a b. w_held s r = Some (a, b) \<longrightarrow> a = c \<and> held_ok (w_d s) a b)"

definition wal_inv :: "wal_run \<Rightarrow> bool" where
  "wal_inv s \<longleftrightarrow> d_inv (w_d s) \<and> (\<forall>(r, c) \<in> set (d_readers (w_d s)). reader_inv s r c) \<and>
     (\<forall>r. w_held s r \<noteq> None \<longrightarrow> r \<in> fst ` set (d_readers (w_d s)))"

lemma reader_unique:
  assumes "d_inv d" "(r, c) \<in> set (d_readers d)" "(r, c') \<in> set (d_readers d)"
  shows "c = c'"
  using assms by (auto simp: d_inv_def dest: eq_key_imp_eq_value)

lemma try_next_poll:
  assumes "try_next d r = Some x"
  obtains c where "(r, c) \<in> set (d_readers d)" "poll d r c = Some x"
  using assms by (auto simp: try_next_def cursor_of_def split: option.splits dest: map_of_SomeD)

lemma poll_frame:
  assumes "poll d r c = Some (x, e)"
  shows "d_committed e = d_committed d" "d_hwm e = d_hwm d" "d_ring e = d_ring d" "pending e y = pending d y"
    "held_ok e a b = held_ok d a b"
    "i \<noteq> r \<Longrightarrow> (i, z) \<in> set (d_readers e) \<longleftrightarrow> (i, z) \<in> set (d_readers d)"
    "fst ` set (d_readers e) = fst ` set (d_readers d)"
proof -
  have e: "e = d \<or> e = set_cursor d r 0"
    using assms by (auto simp: poll_def Let_def split: if_splits)
  have "fst ` set (d_readers (set_cursor d r 0)) = fst ` set (d_readers d)"
    by (simp flip: set_map)
  with e show "d_committed e = d_committed d" "d_hwm e = d_hwm d" "d_ring e = d_ring d" "pending e y = pending d y"
    "held_ok e a b = held_ok d a b" "fst ` set (d_readers e) = fst ` set (d_readers d)"
    by (auto simp: held_ok_def)
  assume "i \<noteq> r"
  with e show "(i, z) \<in> set (d_readers e) \<longleftrightarrow> (i, z) \<in> set (d_readers d)"
    by (auto simp: set_cursor_readers)
qed

lemma wal_inv_init: "0 < capacity \<Longrightarrow> wal_inv (wal_init capacity)"
  by (simp add: wal_inv_def wal_init_def d_inv_new) (simp add: disruptor_new_def)

lemma wal_inv_publish:
  assumes inv: "wal_inv s" and un: "unambiguous (w_d s) (length bs)"
    and p: "publish (w_d s) bs = Some (Inr d')"
  shows "wal_inv (s\<lparr>w_d := d', w_sent := (\<lambda>r. w_sent s r @ bs)\<rparr>)"
proof -
  from inv have d: "d_inv (w_d s)" by (simp add: wal_inv_def)
  note f = publish_frame [OF d p]
  have "reader_inv (s\<lparr>w_d := d', w_sent := (\<lambda>r. w_sent s r @ bs)\<rparr>) r c"
    if r: "(r, c) \<in> set (d_readers (w_d s))" for r c
    using publish_reader [OF d p un r] inv r by (fastforce simp: wal_inv_def reader_inv_def)
  then show ?thesis using inv publish_inv [OF d p un] f by (auto simp: wal_inv_def)
qed

lemma wal_inv_join:
  assumes inv: "wal_inv s" and j: "reader_new (w_d s) = (r, d')"
  shows "wal_inv (s\<lparr>w_d := d', w_sent := (w_sent s)(r := []), w_got := (w_got s)(r := []),
                   w_held := (w_held s)(r := None)\<rparr>)"
proof -
  let ?d = "w_d s"
  from inv have d: "d_inv ?d" by (simp add: wal_inv_def)
  from j have r: "r = d_fresh ?d"
    and d': "d' = ?d\<lparr>d_readers := (r, d_committed ?d) # d_readers ?d, d_fresh := Suc (d_fresh ?d)\<rparr>"
    by (auto simp: reader_new_def)
  have di: "d_inv d'" using reader_new_inv [OF d] j by simp
  have same: "pending d' c = pending ?d c" "held_ok d' a b = held_ok ?d a b" for a b c
    using d' by (simp_all add: pending_def held_ok_def)
  have old: "i \<noteq> r" if "(i, c) \<in> set (d_readers ?d)" for i c
    using d that r by (auto simp: d_inv_def)
  have "pending d' (d_committed ?d) = []" using d' by (simp add: pending_def)
  moreover have "i \<noteq> r" if "w_held s i \<noteq> None" for i
    using inv old that by (force simp: wal_inv_def)
  ultimately show ?thesis using inv di same old
    by (auto simp: wal_inv_def reader_inv_def d' image_iff)
qed

lemma wal_inv_poll:
  assumes inv: "wal_inv s" and h: "w_held s r = None" and t: "try_next (w_d s) r = Some (x, d')"
  shows "wal_inv (s\<lparr>w_d := d', w_held := (w_held s)(r := x)\<rparr>)"
proof -
  let ?d = "w_d s"
  from inv have d: "d_inv ?d" by (simp add: wal_inv_def)
  from t obtain c where c: "(r, c) \<in> set (d_readers ?d)" and p: "poll ?d r c = Some (x, d')"
    by (rule try_next_poll)
  note f = poll_frame [OF p]
  from inv c have rc: "w_got s r @ pending ?d c = w_sent s r" by (auto simp: wal_inv_def reader_inv_def)
  have mine: "d_inv d' \<and> reader_inv (s\<lparr>w_d := d', w_held := (w_held s)(r := x)\<rparr>) r c'"
    if c': "(r, c') \<in> set (d_readers d')" for c'
  proof (rule poll_sound [OF d c])
    fix e assume e: "poll ?d r c = Some (None, e)" "d_inv e" "pending ?d c = []"
      "\<exists>c'. (r, c') \<in> set (d_readers e) \<and> pending e c' = []"
    with p have "x = None" "e = d'" by simp_all
    moreover have "pending d' c' = []" using e c' reader_unique calculation by blast
    ultimately show ?thesis using e rc by (simp add: reader_inv_def)
  next
    fix a b e assume e: "poll ?d r c = Some (Some (a, b), e)" "d_inv e" "held_ok e a b"
      "(r, a) \<in> set (d_readers e)" "pending e a = pending ?d c" "b \<le> d_max e"
      "read_grant e (a, b) = Some (slice a b (d_ring e))"
    with p have "x = Some (a, b)" "e = d'" by simp_all
    moreover have "c' = a" using e c' reader_unique calculation by blast
    ultimately show ?thesis using e rc by (simp add: reader_inv_def)
  qed
  have ex: "\<exists>c'. (r, c') \<in> set (d_readers d')" using f(7) c by force
  have others: "reader_inv (s\<lparr>w_d := d', w_held := (w_held s)(r := x)\<rparr>) i y"
    if i: "(i, y) \<in> set (d_readers d')" "i \<noteq> r" for i y
  proof -
    from i f(6) have "(i, y) \<in> set (d_readers ?d)" by blast
    with inv have "reader_inv s i y" by (auto simp: wal_inv_def)
    with i(2) f(4,5) show ?thesis by (simp add: reader_inv_def)
  qed
  have "\<forall>(i, y) \<in> set (d_readers d'). reader_inv (s\<lparr>w_d := d', w_held := (w_held s)(r := x)\<rparr>) i y"
    using mine others by blast
  moreover have "\<forall>i. ((w_held s)(r := x)) i \<noteq> None \<longrightarrow> i \<in> fst ` set (d_readers d')"
  proof (intro allI impI)
    fix i assume i: "((w_held s)(r := x)) i \<noteq> None"
    show "i \<in> fst ` set (d_readers d')"
    proof (cases "i = r")
      case True
      with f(7) c show ?thesis by force
    next
      case False
      with i have "w_held s i \<noteq> None" by simp
      with inv have "i \<in> fst ` set (d_readers ?d)" unfolding wal_inv_def by blast
      with f(7) show ?thesis by simp
    qed
  qed
  moreover have "d_inv d'" using mine ex by blast
  ultimately show ?thesis by (simp add: wal_inv_def)
qed

lemma wal_inv_release:
  assumes inv: "wal_inv s" and h: "w_held s r = Some rng" and g: "read_grant (w_d s) rng = Some bs"
  shows "wal_inv (s\<lparr>w_d := read_drop (w_d s) r rng, w_got := (w_got s)(r := w_got s r @ bs),
                   w_held := (w_held s)(r := None)\<rparr>)"
proof -
  let ?d = "w_d s"
  obtain a b where ab: "rng = (a, b)" by force
  from inv have d: "d_inv ?d" by (simp add: wal_inv_def)
  from inv h have "r \<in> fst ` set (d_readers ?d)" unfolding wal_inv_def by blast
  then obtain c where c: "(r, c) \<in> set (d_readers ?d)" by force
  with inv have ri: "reader_inv s r c" by (auto simp: wal_inv_def)
  with h ab have ac: "a = c" "held_ok ?d a b" and rc: "w_got s r @ pending ?d c = w_sent s r"
    by (auto simp: reader_inv_def)
  have bs: "bs = slice a b (d_ring ?d)" using g ab by (simp add: read_grant_def get_range_Some)
  have "pending ?d c = bs @ pending ?d b" using held_split [OF ac(2)] ac(1) bs by simp
  with rc have key: "(w_got s r @ bs) @ pending ?d b = w_sent s r" by simp
  let ?e = "read_drop ?d r rng"
  have e: "d_inv ?e" using read_drop_inv [OF d ac(2)] ab by simp
  have mem: "(i, y) \<in> set (d_readers ?e) \<longleftrightarrow> (if i = r then y = b else (i, y) \<in> set (d_readers ?d))" for i y
    using c ab by (auto simp: read_drop_def set_cursor_readers)
  have same: "pending ?e x = pending ?d x" "held_ok ?e x y = held_ok ?d x y" for x y
    by (simp_all add: read_drop_def held_ok_def)
  have dom: "fst ` set (d_readers ?e) = fst ` set (d_readers ?d)"
    by (simp add: read_drop_def flip: set_map)
  let ?t = "s\<lparr>w_d := ?e, w_got := (w_got s)(r := w_got s r @ bs), w_held := (w_held s)(r := None)\<rparr>"
  have "reader_inv ?t i y" if m: "(i, y) \<in> set (d_readers ?e)" for i y
  proof (cases "i = r")
    case True
    with m mem have "y = b" by simp
    with True key show ?thesis by (simp add: reader_inv_def same)
  next
    case False
    with m mem have "(i, y) \<in> set (d_readers ?d)" by simp
    with inv have "reader_inv s i y" by (auto simp: wal_inv_def)
    with False show ?thesis by (simp add: reader_inv_def same)
  qed
  then have "\<forall>(i, y) \<in> set (d_readers ?e). reader_inv ?t i y" by blast
  then show ?thesis using e inv by (simp add: wal_inv_def dom)
qed

lemma wal_inv_leave:
  assumes inv: "wal_inv s" and h: "w_held s r = None" and l: "reader_drop (w_d s) r = Some d'"
  shows "wal_inv (s\<lparr>w_d := d'\<rparr>)"
proof -
  from inv have d: "d_inv (w_d s)" by (simp add: wal_inv_def)
  note rd = reader_drop_inv [OF d l]
  have same: "pending d' c = pending (w_d s) c" "held_ok d' a b = held_ok (w_d s) a b" for a b c
    by (subst rd(3), simp add: pending_def held_ok_def)+
  have "reader_inv (s\<lparr>w_d := d'\<rparr>) i c" if "(i, c) \<in> set (d_readers d')" for i c
  proof -
    from that rd(2) inv have "reader_inv s i c" by (auto simp: wal_inv_def)
    then show ?thesis by (simp add: reader_inv_def same)
  qed
  moreover have "i \<in> fst ` set (d_readers d')" if w: "w_held s i \<noteq> None" for i
  proof -
    from w h have "i \<noteq> r" by auto
    moreover from w inv have "i \<in> fst ` set (d_readers (w_d s))" unfolding wal_inv_def by blast
    ultimately show ?thesis using rd(2) by force
  qed
  ultimately show ?thesis using rd(1) by (auto simp: wal_inv_def)
qed

lemma wal_inv_step:
  assumes "wal_step guard s t" "wal_inv s"
    and "\<And>bs. guard (w_d s) bs \<Longrightarrow> unambiguous (w_d s) (length bs)"
  shows "wal_inv t"
  using assms
proof (induction rule: wal_step.induct)
  case (ws_idle s r d')
  then have "wal_inv (s\<lparr>w_d := d', w_held := (w_held s)(r := None)\<rparr>)" by (intro wal_inv_poll)
  moreover have "(w_held s)(r := None) = w_held s" using ws_idle by auto
  ultimately show ?case by simp
qed (auto intro: wal_inv_publish wal_inv_join wal_inv_poll wal_inv_release wal_inv_leave)

section \<open>Delivery\<close>

lemma wal_reach_inv:
  assumes "wal_reach guard capacity s" "0 < capacity"
    and "\<And>d bs. guard d bs \<Longrightarrow> unambiguous d (length bs)"
  shows "wal_inv s"
  using assms
proof (induction rule: wal_reach.induct)
  case wr_init
  then show ?case by (simp add: wal_inv_init)
next
  case (wr_step s t)
  show ?case by (rule wal_inv_step [OF wr_step.hyps(2) wr_step.IH]) (use wr_step.prems in auto)
qed

lemma wal_inv_delivers:
  "wal_inv s \<Longrightarrow> (r, c) \<in> set (d_readers (w_d s)) \<Longrightarrow> w_got s r @ pending (w_d s) c = w_sent s r"
  by (auto simp: wal_inv_def reader_inv_def)


section \<open>Messages of one size\<close>

text \<open>
  Every component of the database publishes messages of one size: eight bytes of timestamp
  and one element.
\<close>

definition fixed_ok :: "nat \<Rightarrow> wal_run \<Rightarrow> bool" where
  "fixed_ok n s \<longleftrightarrow> n dvd d_committed (w_d s) \<and> \<not> n dvd d_max (w_d s) \<and>
     (\<forall>(r, c) \<in> set (d_readers (w_d s)). n dvd c \<and> (d_committed (w_d s) < c \<longrightarrow> n dvd d_hwm (w_d s))) \<and>
     (\<forall>r a b. w_held s r = Some (a, b) \<longrightarrow> n dvd b)"

lemma fixed_unambiguous:
  assumes "fixed_ok n s"
  shows "unambiguous (w_d s) n"
proof -
  from assms have "d_committed (w_d s) \<noteq> d_max (w_d s)" "\<forall>(r, c) \<in> set (d_readers (w_d s)). c \<noteq> d_max (w_d s)"
    by (auto simp: fixed_ok_def)
  then show ?thesis by (auto simp: unambiguous_def)
qed

lemma fixed_publish:
  assumes inv: "d_inv (w_d s)" and f: "fixed_ok n s" and p: "publish (w_d s) bs = Some (Inr d')" and n: "length bs = n"
  shows "fixed_ok n (s\<lparr>w_d := d', w_sent := w\<rparr>)"
proof -
  note fr = publish_frame [OF inv p]
  from f have W: "n dvd d_committed (w_d s)" "\<not> n dvd d_max (w_d s)" and
    c: "\<And>r c. (r, c) \<in> set (d_readers (w_d s)) \<Longrightarrow> n dvd c \<and> (d_committed (w_d s) < c \<longrightarrow> n dvd d_hwm (w_d s))" and
    h: "\<forall>r a b. w_held s r = Some (a, b) \<longrightarrow> n dvd b"
    by (auto simp: fixed_ok_def)
  have "n dvd d_committed d' \<and> (\<forall>(r, c) \<in> set (d_readers (w_d s)). d_committed d' < c \<longrightarrow> n dvd d_hwm d')"
    using inv p
  proof (cases rule: publish_cases)
    case behind
    have "n dvd d_hwm d'" if r: "(r, x) \<in> set (d_readers (w_d s))" "d_committed d' < x" for r x
      using c [OF r(1)] r(2) behind(4) n W(1) by (auto simp: max_def)
    then show ?thesis using behind(4) W(1) n by auto
  next
    case exact
    with W show ?thesis by simp
  next
    case lap
    have "n dvd d_hwm d'" if r: "(r, x) \<in> set (d_readers (w_d s))" "d_committed d' < x" for r x
    proof -
      have x: "x \<le> d_max (w_d s)" "x \<noteq> d_max (w_d s)" using inv r(1) c [OF r(1)] W(2) by (auto simp: d_inv_def cursor_ok_def)
      then have "x mod d_max (w_d s) = x" by simp
      then have "x \<le> d_committed (w_d s)"
        using room_reader(1) [OF lap(4) r(1)] lap(3) x by auto
      then show ?thesis using r(2) lap(5) W(1) by simp
    qed
    then show ?thesis using lap(5) n by auto
  qed
  then show ?thesis using W fr(1,2) c h by (auto simp: fixed_ok_def)
qed

lemma fixed_poll:
  assumes inv: "d_inv (w_d s)" and f: "fixed_ok n s" and t: "try_next (w_d s) r = Some (x, d')"
  shows "fixed_ok n (s\<lparr>w_d := d', w_held := (w_held s)(r := x)\<rparr>)"
proof -
  let ?d = "w_d s"
  from t obtain c where c: "(r, c) \<in> set (d_readers ?d)" and p: "poll ?d r c = Some (x, d')"
    by (rule try_next_poll)
  note g = poll_frame [OF p]
  have mx: "d_max d' = d_max ?d" using g(3) by (simp add: d_max_def)
  from f c have nc: "n dvd c" "d_committed ?d < c \<longrightarrow> n dvd d_hwm ?d" "n dvd d_committed ?d"
    by (auto simp: fixed_ok_def)
  from p have d': "d' = ?d \<or> d' = set_cursor ?d r 0" and
    x: "\<And>a b. x = Some (a, b) \<Longrightarrow> b = d_committed ?d \<or> b = d_hwm ?d \<and> d_committed ?d < c"
    by (auto simp: poll_def Let_def split: if_splits)
  have "n dvd b" if "x = Some (a, b)" for a b using x [OF that] nc by auto
  moreover have "n dvd y \<and> (d_committed d' < y \<longrightarrow> n dvd d_hwm d')" if m: "(i, y) \<in> set (d_readers d')" for i y
  proof (cases "d' = ?d")
    case True
    with m f show ?thesis by (auto simp: fixed_ok_def)
  next
    case False
    with d' m have "i = r \<and> y = 0 \<or> (i, y) \<in> set (d_readers ?d)"
      by (auto simp: set_cursor_readers split: if_splits)
    with f show ?thesis by (auto simp: fixed_ok_def g(1,2))
  qed
  ultimately show ?thesis using f by (auto simp: fixed_ok_def g(1) mx)
qed

lemma fixed_step:
  assumes st: "wal_step (\<lambda>d bs. length bs = n) s t" and inv: "wal_inv s" and f: "fixed_ok n s"
  shows "fixed_ok n t"
proof -
  from inv have d: "d_inv (w_d s)" by (simp add: wal_inv_def)
  from st show ?thesis
  proof cases
    case (ws_publish bs d')
    then show ?thesis using fixed_publish [OF d f] by simp
  next
    case (ws_refused e bs)
    then show ?thesis using f by simp
  next
    case (ws_join r d')
    then show ?thesis using f by (auto simp: fixed_ok_def reader_new_def d_max_def)
  next
    case (ws_take r rng d')
    then show ?thesis using fixed_poll [OF d f] by simp
  next
    case (ws_idle r d')
    then have "(w_held s)(r := None) = w_held s" by auto
    then show ?thesis using ws_idle fixed_poll [OF d f ws_idle(3)] by simp
  next
    case (ws_release r rng bs)
    obtain a b where ab: "rng = (a, b)" by force
    have m: "d_max (read_drop (w_d s) r rng) = d_max (w_d s)" by (simp add: read_drop_def)
    from f ws_release ab have nb: "n dvd b" by (auto simp: fixed_ok_def)
    have hw: "n dvd d_hwm (w_d s)" if "d_committed (w_d s) < b"
    proof -
      from ws_release(2) inv have "r \<in> fst ` set (d_readers (w_d s))" unfolding wal_inv_def by blast
      then obtain c where c: "(r, c) \<in> set (d_readers (w_d s))" by force
      with inv have "reader_inv s r c" by (auto simp: wal_inv_def)
      with ws_release ab have "held_ok (w_d s) c b" by (auto simp: reader_inv_def)
      with that have "d_committed (w_d s) < c" by (auto simp: held_ok_def split: if_splits)
      with f c show ?thesis by (auto simp: fixed_ok_def)
    qed
    have "n dvd y \<and> (d_committed (w_d s) < y \<longrightarrow> n dvd d_hwm (w_d s))"
      if "(i, y) \<in> set (d_readers (read_drop (w_d s) r rng))" for i y
    proof (cases "i = r")
      case True
      with that ab have "y = b" by (simp add: read_drop_def set_cursor_readers)
      with nb hw show ?thesis by simp
    next
      case False
      with that have "(i, y) \<in> set (d_readers (w_d s))" by (simp add: read_drop_def set_cursor_readers)
      with f show ?thesis by (auto simp: fixed_ok_def)
    qed
    then show ?thesis using f ws_release(1) by (auto simp: fixed_ok_def m) (auto simp: read_drop_def)
  next
    case (ws_leave r d')
    note rd = reader_drop_inv [OF d ws_leave(3)]
    have "d_committed d' = d_committed (w_d s)" "d_hwm d' = d_hwm (w_d s)" "d_max d' = d_max (w_d s)"
      by (subst rd(3), simp add: d_max_def)+
    then show ?thesis using f rd(2) ws_leave(1) by (auto simp: fixed_ok_def)
  qed
qed

lemma fixed_reach:
  assumes "wal_reach (\<lambda>d bs. length bs = n) capacity s" "0 < capacity" "\<not> n dvd capacity"
  shows "wal_inv s \<and> fixed_ok n s"
  using assms
proof (induction rule: wal_reach.induct)
  case wr_init
  then show ?case by (simp add: wal_inv_init) (simp add: wal_init_def fixed_ok_def disruptor_new_def d_max_def)
next
  case (wr_step s t)
  then have i: "wal_inv s" "fixed_ok n s" by simp_all
  have "wal_inv t" by (rule wal_inv_step [OF wr_step.hyps(2) i(1)]) (simp add: fixed_unambiguous [OF i(2)])
  moreover have "fixed_ok n t" by (rule fixed_step [OF wr_step.hyps(2) i])
  ultimately show ?case by simp
qed

text \<open>If all messages have one size that does not divide the capacity, the ring loses and
  corrupts nothing, with no other condition on the run.\<close>

theorem wal_fixed_size_lossless:
  assumes "0 < capacity" "\<not> n dvd capacity" "wal_reach (\<lambda>d bs. length bs = n) capacity s"
    "(r, c) \<in> set (d_readers (w_d s))"
  shows "w_got s r @ pending (w_d s) c = w_sent s r"
  using fixed_reach [OF assms(3,1,2)] assms(4) by (simp add: wal_inv_delivers)

lemma reach_publish:
  assumes "wal_reach guard capacity s" "publish (w_d s) bs = Some (Inr d')" "guard (w_d s) bs"
  shows "wal_reach guard capacity (s\<lparr>w_d := d', w_sent := (\<lambda>r. w_sent s r @ bs)\<rparr>)"
  using assms(1) ws_publish [where guard = guard, OF assms(3,2)] by (rule wr_step)

definition wal_example :: wal_run where
  "wal_example = \<lparr>w_d = \<lparr>d_ring = [1, 2, 3, 0, 0], d_committed = 3, d_hwm = 3, d_readers = [(0, 0)], d_lock = False, d_fresh = 1\<rparr>,
     w_sent = (\<lambda>r. [1, 2, 3]), w_got = (\<lambda>_. []), w_held = (\<lambda>_. None)\<rparr>"

lemma wal_example_reach:
  assumes "\<And>d. d_readers d = [(0, 0)] \<Longrightarrow> d_committed d = 0 \<Longrightarrow> d_max d = 5 \<Longrightarrow> guard d [1, 2, 3]"
  shows "\<exists>s. wal_reach guard 5 s \<and> w_d s = w_d wal_example \<and> w_sent s 0 = [1, 2, 3] \<and> w_got s 0 = []"
proof -
  let ?d0 = "disruptor_new 5"
  let ?d1 = "snd (reader_new ?d0)"
  let ?s1 = "(wal_init 5)\<lparr>w_d := ?d1, w_sent := (w_sent (wal_init 5))(0 := []), w_got := (w_got (wal_init 5))(0 := []),
     w_held := (w_held (wal_init 5))(0 := None)\<rparr>"
  have "wal_step guard (wal_init 5) ?s1"
    by (rule ws_join) (simp add: wal_init_def reader_new_def disruptor_new_def)
  then have 1: "wal_reach guard 5 ?s1" by (rule wr_step [OF wr_init])
  have ring: "replicate 5 (0::byte) = [0, 0, 0, 0, 0]" by (simp add: eval_nat_numeral)
  have g: "guard (w_d ?s1) [1, 2, 3]"
    by (rule assms) (simp_all add: reader_new_def disruptor_new_def d_max_def)
  have p: "publish (w_d ?s1) [1, 2, 3] = Some (Inr (w_d wal_example))"
    by (simp add: ring publish_def try_grant_def load_write_def locked_grant_def can_write_def reader_new_def disruptor_new_def
        d_max_def grant_fill_def grant_drop_def Let_def wal_example_def splice_def)
  from reach_publish [where guard = guard, OF 1 p g] show ?thesis
    by (intro exI conjI, assumption) (simp_all add: wal_init_def)
qed



section \<open>A full buffer is overwritten\<close>

text \<open>A publish behind which there is room, and one that laps a ring filled to its end under a
  reader at its start.\<close>

lemma publish_fill:
  assumes "d_readers d = [(0, 0)]" "d_max d = k * n" "d_committed d = j * n" "d_hwm d = j * n" "j < k" "0 < n" "length m = n"
  shows "publish d m = Some (Inr (d\<lparr>d_ring := splice (j * n) m (d_ring d), d_hwm := j * n + n, d_committed := j * n + n, d_lock := False\<rparr>))"
proof -
  have lt: "j * n < k * n" using assms(5,6) by simp
  have "Suc j * n \<le> k * n" using assms(5) by (intro mult_le_mono1) simp
  then have "j * n + n \<le> k * n" by simp
  then show ?thesis using assms lt
    by (simp add: publish_def try_grant_def load_write_def locked_grant_def can_write_def Let_def grant_fill_def grant_drop_def)
qed

lemma publish_lap:
  assumes "d_readers d = [(0, 0)]" "d_max d = k * n" "d_committed d = k * n" "d_hwm d = k * n" "0 < k" "0 < n" "length m = n"
  shows "publish d m = Some (Inr (d\<lparr>d_ring := splice 0 m (d_ring d), d_hwm := k * n, d_committed := n, d_lock := False\<rparr>))"
proof -
  have le: "n \<le> k * n" using assms(5) by simp
  have "d_max (grant_fill (d\<lparr>d_lock := True\<rparr>) \<lparr>g_start = 0, g_end = n\<rparr> m) = k * n"
    using assms(2,7) le by (simp add: grant_fill_def d_max_def length_splice)
  then show ?thesis
    using assms le
    by (auto simp: publish_def try_grant_def load_write_def locked_grant_def can_write_def Let_def grant_drop_def)
       (auto simp: grant_fill_def)
qed

lemma fill_ring:
  assumes "0 < n" "0 < k" "length ms \<le> k" "\<forall>m \<in> set ms. length m = n"
  shows "\<exists>s. wal_reach (\<lambda>d bs. length bs = n) (k * n) s \<and> d_readers (w_d s) = [(0, 0)] \<and> d_max (w_d s) = k * n \<and>
    d_committed (w_d s) = length ms * n \<and> d_hwm (w_d s) = length ms * n \<and> w_got s 0 = [] \<and> w_sent s 0 = concat ms"
  using assms(3,4)
proof (induction ms rule: rev_induct)
  case Nil
  let ?i = "wal_init (k * n)"
  let ?s = "?i\<lparr>w_d := snd (reader_new (w_d ?i)), w_sent := (w_sent ?i)(0 := []), w_got := (w_got ?i)(0 := []),
     w_held := (w_held ?i)(0 := None)\<rparr>"
  have "wal_step (\<lambda>d bs. length bs = n) ?i ?s"
    by (rule ws_join) (simp add: wal_init_def reader_new_def disruptor_new_def)
  then have "wal_reach (\<lambda>d bs. length bs = n) (k * n) ?s" by (rule wr_step [OF wr_init])
  then show ?case
    by (intro exI conjI, assumption) (simp_all add: wal_init_def reader_new_def disruptor_new_def d_max_def)
next
  case (snoc m ms)
  then obtain s where s: "wal_reach (\<lambda>d bs. length bs = n) (k * n) s" "d_readers (w_d s) = [(0, 0)]"
    "d_max (w_d s) = k * n" "d_committed (w_d s) = length ms * n" "d_hwm (w_d s) = length ms * n"
    "w_got s 0 = []" "w_sent s 0 = concat ms" by auto
  have len: "length m = n" "length ms < k" using snoc.prems by simp_all
  have "Suc (length ms) * n \<le> k * n" using len(2) by (intro mult_le_mono1) simp
  then have le: "length ms * n + n \<le> k * n" by simp
  let ?d = "w_d s"
  let ?e = "?d\<lparr>d_ring := splice (length ms * n) m (d_ring ?d), d_hwm := length ms * n + n, d_committed := length ms * n + n, d_lock := False\<rparr>"
  have "publish ?d m = Some (Inr ?e)" by (rule publish_fill [OF s(2-5) len(2) assms(1) len(1)])
  then have "wal_reach (\<lambda>d bs. length bs = n) (k * n) (s\<lparr>w_d := ?e, w_sent := (\<lambda>r. w_sent s r @ m)\<rparr>)"
    using s(1) len(1) by (intro reach_publish)
  then show ?case
    by (intro exI conjI, assumption) (use s le len(1) in \<open>simp_all add: d_max_def length_splice algebra_simps\<close>)
qed

text \<open>C20. If the message size divides the capacity, a ring filled by unread messages accepts the
  next one although its reader has read nothing, and the reader is left with that last message
  only.  A component of eight-byte elements has such a ring (messages of 16 bytes, 8192 of
  capacity).\<close>

theorem wal_full_lap_loses_unread:
  assumes "0 < n" "0 < k" "length ms = Suc k" "\<forall>m \<in> set ms. length m = n"
  shows "\<exists>s. wal_reach (\<lambda>d bs. length bs = n) (k * n) s \<and> (0, 0) \<in> set (d_readers (w_d s)) \<and>
    w_sent s 0 = concat ms \<and> w_got s 0 = [] \<and> pending (w_d s) 0 = last ms"
proof -
  from assms(3) obtain ms' m where ms: "ms = ms' @ [m]" by (cases ms rule: rev_cases) auto
  with assms(3,4) have l: "length ms' = k" "length m = n" "\<forall>m \<in> set ms'. length m = n" by simp_all
  from fill_ring [OF assms(1,2) _ l(3)] l(1) obtain s where s: "wal_reach (\<lambda>d bs. length bs = n) (k * n) s"
    "d_readers (w_d s) = [(0, 0)]" "d_max (w_d s) = k * n" "d_committed (w_d s) = k * n"
    "d_hwm (w_d s) = k * n" "w_got s 0 = []" "w_sent s 0 = concat ms'" by auto
  let ?d = "w_d s"
  let ?e = "?d\<lparr>d_ring := splice 0 m (d_ring ?d), d_hwm := k * n, d_committed := n, d_lock := False\<rparr>"
  have "publish ?d m = Some (Inr ?e)" by (rule publish_lap [OF s(2-5) assms(2,1) l(2)])
  then have st: "wal_reach (\<lambda>d bs. length bs = n) (k * n) (s\<lparr>w_d := ?e, w_sent := (\<lambda>r. w_sent s r @ m)\<rparr>)"
    using s(1) l(2) by (intro reach_publish)
  have "slice 0 n (splice 0 m (d_ring ?d)) = m" using slice_splice_same [of 0 "d_ring ?d" m] l(2) by simp
  then have pend: "pending ?e 0 = m" by (simp add: pending_def)
  show ?thesis by (intro exI conjI, rule st) (use s ms pend in simp_all)
qed

lemma wal_full_lap_loses_unread_witness:
  "\<exists>s. wal_reach (\<lambda>d bs. length bs = 16) (512 * 16) s \<and> (0, 0) \<in> set (d_readers (w_d s)) \<and>
    w_sent s 0 = concat (replicate 513 (replicate 16 7)) \<and> w_got s 0 = [] \<and>
    pending (w_d s) 0 = last (replicate 513 (replicate 16 7))"
  by (rule wal_full_lap_loses_unread) simp_all

section \<open>Grants\<close>

text \<open>While a write grant is outstanding its bytes are invisible: what a reader has still to
  read is unchanged until the grant is dropped, even when the writer has lapped and reset the
  high-water mark.\<close>

theorem grant_invisible:
  assumes inv: "d_inv d" and w: "load_write d = Some w" and lg: "locked_grant d w (length bs) = Inr (g, e)"
    and un: "unambiguous d (length bs)" and r: "(i, c) \<in> set (d_readers d)"
  shows "pending (grant_fill e g bs) c = pending d c \<and> d_committed (grant_fill e g bs) = d_committed d"
proof -
  let ?W = "d_committed d" and ?M = "d_max d" and ?n = "length bs" and ?R = "d_ring d"
  have M: "?M = length ?R" by (simp add: d_max_def)
  from inv have b: "0 < ?M" "?W \<le> d_hwm d" "d_hwm d \<le> ?M" by (simp_all add: d_inv_def)
  from inv r have c: "c \<le> ?M" "?W < c \<longrightarrow> c \<le> d_hwm d" by (auto simp: d_inv_def cursor_ok_def)
  from un r have u: "\<not> (c = 0 \<and> ?W = ?M)" "\<not> (c = ?M \<and> ?W mod ?M + ?n = ?M)"
    by (auto simp: unambiguous_def)
  from w have wr: "w = ?W mod ?M" by (auto simp: load_write_def split: if_splits)
  from lg have n: "?n \<le> ?M" and cw: "check_room (d_readers d) ?M ?n w ?M"
    by (auto simp: locked_grant_def Let_def can_write_def split: if_splits)
  note room = room_reader [OF cw r]
  show ?thesis
  proof (cases "?M < w + ?n")
    case True
    with lg n cw have g: "g = \<lparr>g_start = 0, g_end = ?n\<rparr>" "e = d\<lparr>d_hwm := 0, d_lock := True\<rparr>"
      by (auto simp: locked_grant_def Let_def can_write_def)
    have "?W < ?M" using True n wr b by (cases "?W = ?M") auto
    then have wW: "w = ?W" using wr by simp
    have nc: "?n < c mod ?M" using room(2) True by simp
    then have "c \<noteq> ?M" by (intro notI) simp
    with c(1) have cm: "c mod ?M = c" by simp
    with nc room(1) wW True c(1) have le: "?n < c" "c \<le> ?W" by auto
    have "slice c ?W (splice 0 bs ?R) = slice c ?W ?R" using le n M by (intro slice_splice_after) simp_all
    with g le show ?thesis by (simp add: grant_fill_def pending_def)
  next
    case False
    with lg n cw have g: "g = \<lparr>g_start = w, g_end = w + ?n\<rparr>" "d_committed e = ?W" "d_ring e = ?R"
      "d_hwm e = max (d_hwm d) (w + ?n)"
      by (auto simp: locked_grant_def Let_def can_write_def max_def split: if_splits)
    show ?thesis
    proof (cases "?W < c")
      case True
      have wW: "w = ?W" using True c(1) wr by simp
      have lt: "?W + ?n < c"
      proof (cases "c = ?M")
        case True
        with u(2) wW wr False \<open>?W < c\<close> show ?thesis by simp
      next
        case ne: False
        with c(1) room(1) True wW show ?thesis by auto
      qed
      then have h: "max (d_hwm d) (w + ?n) = d_hwm d" using c(2) True wW by simp
      have "slice c (d_hwm d) (splice w bs ?R) = slice c (d_hwm d) ?R"
        using lt wW False M by (intro slice_splice_after) simp_all
      moreover have "slice 0 ?W (splice w bs ?R) = slice 0 ?W ?R"
        using wW False M by (intro slice_splice_before) simp_all
      ultimately show ?thesis using g h True by (simp add: grant_fill_def pending_def)
    next
      case notlapped: False
      have "slice c ?W (splice w bs ?R) = slice c ?W ?R"
      proof (cases "?W = ?M")
        case True
        then have w0: "w = 0" using wr by simp
        have "?n < c"
        proof (cases "c = ?M")
          case True
          with u(2) w0 wr False show ?thesis by simp
        next
          case False
          then have "c mod ?M = c" using c(1) by simp
          with room(1) u(1) w0 True show ?thesis by auto
        qed
        then show ?thesis using w0 n M by (intro slice_splice_after) simp_all
      next
        case False
        then have "w = ?W" using wr b by simp
        then show ?thesis using b M by (intro slice_splice_before) simp_all
      qed
      then show ?thesis using g notlapped by (simp add: grant_fill_def pending_def)
    qed
  qed
qed


text \<open>Two writers that load the committed position before either takes the lock are granted
  the same range: both publishes succeed and the first message is lost.\<close>

theorem stale_grant_overwrites:
  assumes inv: "d_inv d" and w: "load_write d = Some w" and first: "locked_grant d w n = Inr (g, e)"
    and len: "length bs1 = n" "length bs2 = n" and fits: "d_committed d + n < d_max d"
    and caught_up: "\<forall>(i, c) \<in> set (d_readers d). c = d_committed d"
  defines "d1 \<equiv> grant_drop (grant_fill e g bs1) g"
  shows "\<exists>g' e'. locked_grant d1 w n = Inr (g', e') \<and> g_start g' = g_start g \<and> g_end g' = g_end g \<and>
     pending d1 (d_committed d) = bs1 \<and> pending (grant_drop (grant_fill e' g' bs2) g') (d_committed d) = bs2"
proof -
  let ?W = "d_committed d" and ?M = "d_max d" and ?R = "d_ring d"
  have M: "?M = length ?R" by (simp add: d_max_def)
  from inv have b: "?W \<le> d_hwm d" "d_hwm d \<le> ?M" by (simp_all add: d_inv_def)
  from w fits have wW: "w = ?W" by (auto simp: load_write_def split: if_splits)
  from first wW fits have g: "g = \<lparr>g_start = ?W, g_end = ?W + n\<rparr>"
    and e: "e = d\<lparr>d_hwm := max (d_hwm d) (?W + n), d_lock := True\<rparr>"
    by (auto simp: locked_grant_def Let_def max_def split: if_splits)
  let ?d1 = "d\<lparr>d_ring := splice ?W bs1 ?R, d_hwm := max (d_hwm d) (?W + n), d_committed := ?W + n, d_lock := False\<rparr>"
  have d1: "d1 = ?d1" unfolding d1_def g e using fits by (simp add: grant_drop_def grant_fill_def Let_def)
  have m1: "d_max ?d1 = ?M" using len fits M by (simp add: d_max_def length_splice)
  have cw: "can_write ?d1 n w ?M"
    using caught_up wW fits m1 by (auto simp: can_write_def check_room_iff)
  let ?e = "?d1\<lparr>d_lock := True\<rparr>"
  have lg: "locked_grant d1 w n = Inr (\<lparr>g_start = ?W, g_end = ?W + n\<rparr>, ?e)"
    using cw fits wW unfolding d1 by (simp add: locked_grant_def m1)
  have p1: "pending d1 ?W = bs1" using d1 len fits M slice_splice_same [of ?W ?R bs1] by (simp add: pending_def)
  have l1: "length (splice ?W bs1 ?R) = length ?R" using len fits M by (simp add: length_splice)
  have "pending (grant_drop (grant_fill ?e \<lparr>g_start = ?W, g_end = ?W + n\<rparr> bs2) \<lparr>g_start = ?W, g_end = ?W + n\<rparr>) ?W = bs2"
    using slice_splice_same [of ?W "splice ?W bs1 ?R" bs2] l1 len fits M
    by (simp add: grant_drop_def grant_fill_def Let_def pending_def)
  with lg p1 g show ?thesis by auto
qed


end
