(* ===== verification/AtomicStack.thy ===== *)
theory AtomicStack
  imports Errors
begin

text \<open>
  The lock-free stack that holds the nodes of a time series (\<open>libs/db/src/arc_ring.rs\<close>)
  over the reference-counted pointer cell of \<open>libs/db/src/disruptor.rs\<close>.  The heap maps an
  address to a node with its value, its link and its strong count; a freed node has no
  entry.  A push is split at its atomic operations (allocate, load and store the link,
  compare-and-exchange), and any number of threads push at the same time.
\<close>

section \<open>Heap and pointer cells\<close>

record 'a stack_node =
  sn_value :: 'a
  sn_prev :: "nat option"
  sn_count :: nat

record 'a stack_heap =
  sh_nodes :: "nat \<Rightarrow> 'a stack_node option"
  sh_head :: "nat option"
  sh_fresh :: nat

definition stack_new :: "'a stack_heap" where
  "stack_new = \<lparr>sh_nodes = (\<lambda>_. None), sh_head = None, sh_fresh = 0\<rparr>"

text \<open>
  \<open>Arc::increment_strong_count\<close> and \<open>Arc::decrement_strong_count\<close>.  The decrement that
  reaches zero frees the node and drops its link in turn; the walk is bounded by the number
  of addresses handed out.
\<close>

definition incr_count :: "'a stack_heap \<Rightarrow> nat \<Rightarrow> 'a stack_heap" where
  "incr_count s p = s\<lparr>sh_nodes := (sh_nodes s)(p := map_option (\<lambda>n. n\<lparr>sn_count := sn_count n + 1\<rparr>) (sh_nodes s p))\<rparr>"

fun decr_count :: "nat \<Rightarrow> 'a stack_heap \<Rightarrow> nat option \<Rightarrow> 'a stack_heap" where
  "decr_count 0 s p = s"
| "decr_count (Suc fuel) s None = s"
| "decr_count (Suc fuel) s (Some p) =
     (case sh_nodes s p of
        None \<Rightarrow> s
      | Some n \<Rightarrow>
          if sn_count n \<le> 1 then decr_count fuel (s\<lparr>sh_nodes := (sh_nodes s)(p := None)\<rparr>) (sn_prev n)
          else s\<lparr>sh_nodes := (sh_nodes s)(p \<mapsto> n\<lparr>sn_count := sn_count n - 1\<rparr>)\<rparr>)"

definition drop_cell :: "'a stack_heap \<Rightarrow> nat option \<Rightarrow> 'a stack_heap" where
  "drop_cell s p = decr_count (sh_fresh s) s p"

text \<open>\<open>ArcAtomic::load_ref\<close> and \<open>ArcAtomic::clone\<close>: copy the pointer, take a reference.\<close>

definition load_ref :: "'a stack_heap \<Rightarrow> nat option \<Rightarrow> nat option \<times> 'a stack_heap" where
  "load_ref s p = (case p of None \<Rightarrow> (None, s) | Some a \<Rightarrow> (Some a, incr_count s a))"

definition stack_head :: "'a stack_heap \<Rightarrow> nat option \<times> 'a stack_heap" where
  "stack_head s = load_ref s (sh_head s)"

section \<open>Pushing\<close>

definition stack_alloc :: "'a stack_heap \<Rightarrow> 'a \<Rightarrow> nat \<times> 'a stack_heap" where
  "stack_alloc s v =
     (sh_fresh s, s\<lparr>sh_nodes := (sh_nodes s)(sh_fresh s \<mapsto> \<lparr>sn_value = v, sn_prev = None, sn_count = 1\<rparr>),
                    sh_fresh := Suc (sh_fresh s)\<rparr>)"

definition stack_link :: "'a stack_heap \<Rightarrow> nat \<Rightarrow> nat option \<Rightarrow> 'a stack_heap" where
  "stack_link s p h = s\<lparr>sh_nodes := (sh_nodes s)(p := map_option (\<lambda>n. n\<lparr>sn_prev := h\<rparr>) (sh_nodes s p))\<rparr>"

text \<open>
  The weak compare-and-exchange on the head: it succeeds only if the head is the expected
  pointer, and may fail (\<open>weak = False\<close>) even then.
\<close>

definition stack_cas :: "bool \<Rightarrow> 'a stack_heap \<Rightarrow> nat option \<Rightarrow> nat \<Rightarrow> bool \<times> 'a stack_heap" where
  "stack_cas weak s h p = (if weak \<and> sh_head s = h then (True, s\<lparr>sh_head := Some p\<rparr>) else (False, s))"

text \<open>
  \<open>try_push\<close> in one piece.  On failure the new node is taken apart: its value is returned
  and its link, a pointer cell, is dropped.
\<close>

definition stack_try_push :: "bool \<Rightarrow> 'a stack_heap \<Rightarrow> 'a \<Rightarrow> ('a + unit) \<times> 'a stack_heap" where
  "stack_try_push weak s v =
     (let (p, s1) = stack_alloc s v;
          h = sh_head s1;
          s2 = stack_link s1 p h
      in case stack_cas weak s2 h p of
           (True, s3) \<Rightarrow> (Inr (), s3)
         | (False, s3) \<Rightarrow> (Inl v, drop_cell (s3\<lparr>sh_nodes := (sh_nodes s3)(p := None)\<rparr>) h))"

text \<open>The values an iterator yields from a cursor (\<open>AtomicStackIter\<close>), bounded by fuel.\<close>

fun iter_from :: "nat \<Rightarrow> 'a stack_heap \<Rightarrow> nat option \<Rightarrow> 'a list" where
  "iter_from 0 s p = []"
| "iter_from (Suc fuel) s None = []"
| "iter_from (Suc fuel) s (Some p) =
     (case sh_nodes s p of None \<Rightarrow> [] | Some n \<Rightarrow> sn_value n # iter_from fuel s (sn_prev n))"

definition stack_iter :: "'a stack_heap \<Rightarrow> 'a list" where
  "stack_iter s = iter_from (Suc (sh_fresh s)) s (sh_head s)"

section \<open>Concurrent pushes\<close>

text \<open>
  A thread in \<open>push\<close> holds its node and the head it loaded; the ghost field records the
  values whose compare-and-exchange succeeded, latest first.
\<close>

record 'a push_run =
  pr_heap :: "'a stack_heap"
  pr_local :: "nat \<Rightarrow> (nat \<times> nat option option) option"
  pr_done :: "'a list"

inductive push_step :: "'a push_run \<Rightarrow> 'a push_run \<Rightarrow> bool" where
  ps_alloc: "pr_local s t = None \<Longrightarrow> stack_alloc (pr_heap s) v = (p, h') \<Longrightarrow>
     push_step s (s\<lparr>pr_heap := h', pr_local := (pr_local s)(t \<mapsto> (p, None))\<rparr>)"
| ps_load: "pr_local s t = Some (p, l) \<Longrightarrow> h = sh_head (pr_heap s) \<Longrightarrow>
     push_step s (s\<lparr>pr_heap := stack_link (pr_heap s) p h, pr_local := (pr_local s)(t \<mapsto> (p, Some h))\<rparr>)"
| ps_cas_ok: "pr_local s t = Some (p, Some h) \<Longrightarrow> stack_cas weak (pr_heap s) h p = (True, s') \<Longrightarrow>
     sh_nodes (pr_heap s) p = Some n \<Longrightarrow>
     push_step s (s\<lparr>pr_heap := s', pr_local := (pr_local s)(t := None), pr_done := sn_value n # pr_done s\<rparr>)"
| ps_cas_fail: "pr_local s t = Some (p, Some h) \<Longrightarrow> stack_cas weak (pr_heap s) h p = (False, s') \<Longrightarrow>
     push_step s (s\<lparr>pr_heap := s', pr_local := (pr_local s)(t \<mapsto> (p, None))\<rparr>)"

inductive push_reach :: "'a push_run \<Rightarrow> bool" where
  pr_init: "push_reach \<lparr>pr_heap = stack_new, pr_local = (\<lambda>_. None), pr_done = []\<rparr>"
| pr_step: "push_reach s \<Longrightarrow> push_step s t \<Longrightarrow> push_reach t"

text \<open>The published chain and the threads' private nodes.\<close>

inductive chain :: "'a stack_heap \<Rightarrow> nat option \<Rightarrow> nat list \<Rightarrow> bool" for s where
  chain_nil: "chain s None []"
| chain_cons: "sh_nodes s p = Some n \<Longrightarrow> chain s (sn_prev n) ps \<Longrightarrow> chain s (Some p) (p # ps)"

inductive_simps chain_None [simp]: "chain s None ps"
inductive_simps chain_Some: "chain s (Some p) ps"

definition value_at :: "'a stack_heap \<Rightarrow> nat \<Rightarrow> 'a" where
  "value_at s p = sn_value (the (sh_nodes s p))"

definition push_inv :: "'a push_run \<Rightarrow> bool" where
  "push_inv s \<longleftrightarrow>
     (\<exists>ps. chain (pr_heap s) (sh_head (pr_heap s)) ps \<and> distinct ps \<and> pr_done s = map (value_at (pr_heap s)) ps \<and>
        (\<forall>t p l. pr_local s t = Some (p, l) \<longrightarrow> p \<notin> set ps) \<and> (\<forall>p \<in> set ps. p < sh_fresh (pr_heap s))) \<and>
     (\<forall>t p l. pr_local s t = Some (p, l) \<longrightarrow> p < sh_fresh (pr_heap s) \<and>
        (\<exists>n. sh_nodes (pr_heap s) p = Some n \<and> (\<forall>h. l = Some h \<longrightarrow> sn_prev n = h))) \<and>
     (\<forall>t u p l m. pr_local s t = Some (p, l) \<longrightarrow> pr_local s u = Some (p, m) \<longrightarrow> t = u)"

lemma push_invI:
  assumes "\<exists>ps. chain (pr_heap s) (sh_head (pr_heap s)) ps \<and> distinct ps \<and> pr_done s = map (value_at (pr_heap s)) ps \<and>
        (\<forall>t p l. pr_local s t = Some (p, l) \<longrightarrow> p \<notin> set ps) \<and> (\<forall>p \<in> set ps. p < sh_fresh (pr_heap s))"
    "\<forall>t p l. pr_local s t = Some (p, l) \<longrightarrow> p < sh_fresh (pr_heap s) \<and>
        (\<exists>n. sh_nodes (pr_heap s) p = Some n \<and> (\<forall>h. l = Some h \<longrightarrow> sn_prev n = h))"
    "\<forall>t u p l m. pr_local s t = Some (p, l) \<longrightarrow> pr_local s u = Some (p, m) \<longrightarrow> t = u"
  shows "push_inv s"
  unfolding push_inv_def by (intro conjI) (rule assms)+

lemma chain_cong:
  assumes "chain s p ps" "\<forall>q \<in> set ps. sh_nodes s' q = sh_nodes s q"
  shows "chain s' p ps"
  using assms by (induction rule: chain.induct) (auto intro: chain.intros)

lemma chain_values:
  assumes "chain s p ps" "length ps < fuel"
  shows "iter_from fuel s p = map (value_at s) ps"
  using assms
proof (induction arbitrary: fuel rule: chain.induct)
  case chain_nil
  then show ?case by (cases fuel) auto
next
  case (chain_cons p n ps)
  then show ?case by (cases fuel) (auto simp: value_at_def)
qed

lemma push_inv_step:
  assumes st: "push_step s s1" and inv: "push_inv s"
  shows "push_inv s1"
proof -
  let ?h = "pr_heap s"
  from inv obtain ps where ps0: "chain ?h (sh_head ?h) ps" "distinct ps" "pr_done s = map (value_at ?h) ps"
    "\<forall>t p l. pr_local s t = Some (p, l) \<longrightarrow> p \<notin> set ps" "\<forall>p \<in> set ps. p < sh_fresh ?h"
    unfolding push_inv_def by blast
  have own: "p < sh_fresh ?h \<and> (\<exists>n. sh_nodes ?h p = Some n \<and> (\<forall>h. l = Some h \<longrightarrow> sn_prev n = h))"
    if "pr_local s t = Some (p, l)" for t p l
    using inv that unfolding push_inv_def by blast
  have uniq: "t = u" if "pr_local s t = Some (p, l)" "pr_local s u = Some (p, m)" for t u p l m
    using inv that unfolding push_inv_def by blast
  have ps4: "p \<notin> set ps" if "pr_local s t = Some (p, l)" for t p l using ps0(4) that by blast
  have ps5: "p < sh_fresh ?h" if "p \<in> set ps" for p using ps0(5) that by blast
  note ps = ps0(1-3) ps4 ps5
  from st show ?thesis
  proof cases
    case (ps_alloc t v p h')
    then have p: "p = sh_fresh ?h" and h': "sh_head h' = sh_head ?h" "sh_fresh h' = Suc (sh_fresh ?h)"
      "sh_nodes h' = (sh_nodes ?h)(p \<mapsto> \<lparr>sn_value = v, sn_prev = None, sn_count = 1\<rparr>)"
      by (auto simp: stack_alloc_def)
    have np: "p \<notin> set ps" using ps(5) p by blast
    then have same: "\<forall>q \<in> set ps. sh_nodes h' q = sh_nodes ?h q" using h'(3) by auto
    have c: "chain h' (sh_head h') ps" using chain_cong [OF ps(1) same] h'(1) by simp
    have v: "map (value_at h') ps = map (value_at ?h) ps" using same by (simp add: value_at_def)
    have lt: "\<And>t q l. pr_local s t = Some (q, l) \<Longrightarrow> q \<noteq> p" using own p by fastforce
    have 1: "\<exists>ps. chain h' (sh_head h') ps \<and> distinct ps \<and> pr_done s = map (value_at h') ps \<and>
        (\<forall>u q l. ((pr_local s)(t \<mapsto> (p, None))) u = Some (q, l) \<longrightarrow> q \<notin> set ps) \<and> (\<forall>p \<in> set ps. p < sh_fresh h')"
      using c ps(2,3) v ps(4) np ps(5) h'(2) by (intro exI [of _ ps]) (auto simp: less_Suc_eq)
    have 2: "\<forall>u q l. ((pr_local s)(t \<mapsto> (p, None))) u = Some (q, l) \<longrightarrow> q < sh_fresh h' \<and>
        (\<exists>n. sh_nodes h' q = Some n \<and> (\<forall>h. l = Some h \<longrightarrow> sn_prev n = h))"
      using own lt h' p by (auto simp: less_Suc_eq)
    have 3: "\<forall>u w q l m. ((pr_local s)(t \<mapsto> (p, None))) u = Some (q, l) \<longrightarrow> ((pr_local s)(t \<mapsto> (p, None))) w = Some (q, m) \<longrightarrow> u = w"
    proof (intro allI impI)
      fix u w q l m
      assume u: "((pr_local s)(t \<mapsto> (p, None))) u = Some (q, l)" and w: "((pr_local s)(t \<mapsto> (p, None))) w = Some (q, m)"
      show "u = w"
      proof (cases "q = p")
        case True
        have "x = t" if x: "((pr_local s)(t \<mapsto> (p, None))) x = Some (q, k)" for x k
        proof (rule ccontr)
          assume "x \<noteq> t"
          with x have "pr_local s x = Some (q, k)" by simp
          with lt True show False by blast
        qed
        from this [OF u] this [OF w] show ?thesis by simp
      next
        case False
        with u w have "pr_local s u = Some (q, l)" "pr_local s w = Some (q, m)" by (auto split: if_splits)
        then show ?thesis by (rule uniq)
      qed
    qed
    have f: "pr_heap s1 = h'" "pr_local s1 = (pr_local s)(t \<mapsto> (p, None))" "pr_done s1 = pr_done s"
      using ps_alloc(1) by simp_all
    show ?thesis by (rule push_invI; unfold f; rule 1 2 3)
  next
    case (ps_load t p l h)
    let ?h' = "stack_link ?h p h"
    have np: "p \<notin> set ps" using ps(4) ps_load(2) by blast
    then have same: "\<forall>q \<in> set ps. sh_nodes ?h' q = sh_nodes ?h q" by (auto simp: stack_link_def)
    have c: "chain ?h' (sh_head ?h') ps" using chain_cong [OF ps(1) same] by (simp add: stack_link_def)
    have v: "map (value_at ?h') ps = map (value_at ?h) ps" using same by (simp add: value_at_def)
    have 1: "\<exists>ps. chain ?h' (sh_head ?h') ps \<and> distinct ps \<and> pr_done s = map (value_at ?h') ps \<and>
        (\<forall>u q l. ((pr_local s)(t \<mapsto> (p, Some h))) u = Some (q, l) \<longrightarrow> q \<notin> set ps) \<and> (\<forall>p \<in> set ps. p < sh_fresh ?h')"
      using c ps(2,3) v ps(4) np ps(5) by (intro exI [of _ ps]) (auto simp: stack_link_def)
    have 2: "\<forall>u q l. ((pr_local s)(t \<mapsto> (p, Some h))) u = Some (q, l) \<longrightarrow> q < sh_fresh ?h' \<and>
        (\<exists>n. sh_nodes ?h' q = Some n \<and> (\<forall>h. l = Some h \<longrightarrow> sn_prev n = h))"
    proof (intro allI impI)
      fix u q k assume u: "((pr_local s)(t \<mapsto> (p, Some h))) u = Some (q, k)"
      show "q < sh_fresh ?h' \<and> (\<exists>n. sh_nodes ?h' q = Some n \<and> (\<forall>h. k = Some h \<longrightarrow> sn_prev n = h))"
      proof (cases "u = t")
        case True
        with u own [OF ps_load(2)] show ?thesis by (auto simp: stack_link_def)
      next
        case False
        with u have q: "pr_local s u = Some (q, k)" by simp
        with False uniq ps_load(2) have "q \<noteq> p" by blast
        with own [OF q] show ?thesis by (simp add: stack_link_def)
      qed
    qed
    have 3: "\<forall>u w q l m. ((pr_local s)(t \<mapsto> (p, Some h))) u = Some (q, l) \<longrightarrow> ((pr_local s)(t \<mapsto> (p, Some h))) w = Some (q, m) \<longrightarrow> u = w"
      using uniq ps_load(2) by (auto split: if_splits)
    have f: "pr_heap s1 = ?h'" "pr_local s1 = (pr_local s)(t \<mapsto> (p, Some h))" "pr_done s1 = pr_done s"
      using ps_load(1) by simp_all
    show ?thesis by (rule push_invI; unfold f; rule 1 2 3)
  next
    case (ps_cas_ok t p h weak s' n)
    then have h: "sh_head ?h = h" and s': "s' = ?h\<lparr>sh_head := Some p\<rparr>"
      by (auto simp: stack_cas_def split: if_splits)
    have np: "p \<notin> set ps" using ps(4) ps_cas_ok(2) by blast
    from own [OF ps_cas_ok(2)] ps_cas_ok(4) have pn: "p < sh_fresh ?h" "sn_prev n = h" by auto
    have nodes: "sh_nodes s' = sh_nodes ?h" "sh_fresh s' = sh_fresh ?h" using s' by simp_all
    have "chain s' h ps" using chain_cong [OF ps(1)] nodes h by simp
    then have c: "chain s' (sh_head s') (p # ps)" using ps_cas_ok(4) pn(2) nodes s' by (auto intro: chain_cons)
    have v: "sn_value n # pr_done s = map (value_at s') (p # ps)"
      using ps(3) ps_cas_ok(4) nodes by (simp add: value_at_def)
    have 1: "\<exists>ps. chain s' (sh_head s') ps \<and> distinct ps \<and> sn_value n # pr_done s = map (value_at s') ps \<and>
        (\<forall>u q l. ((pr_local s)(t := None)) u = Some (q, l) \<longrightarrow> q \<notin> set ps) \<and> (\<forall>p \<in> set ps. p < sh_fresh s')"
    proof (intro exI [of _ "p # ps"] conjI)
      show "chain s' (sh_head s') (p # ps)" by (fact c)
      show "distinct (p # ps)" using np ps(2) by simp
      show "sn_value n # pr_done s = map (value_at s') (p # ps)" by (fact v)
      show "\<forall>u q l. ((pr_local s)(t := None)) u = Some (q, l) \<longrightarrow> q \<notin> set (p # ps)"
        using uniq [OF ps_cas_ok(2)] ps(4) by (fastforce split: if_splits)
      show "\<forall>q \<in> set (p # ps). q < sh_fresh s'" using ps(5) pn(1) nodes by simp
    qed
    have 2: "\<forall>u q l. ((pr_local s)(t := None)) u = Some (q, l) \<longrightarrow> q < sh_fresh s' \<and>
        (\<exists>n. sh_nodes s' q = Some n \<and> (\<forall>h. l = Some h \<longrightarrow> sn_prev n = h))"
      using own nodes by (auto split: if_splits)
    have 3: "\<forall>u w q l m. ((pr_local s)(t := None)) u = Some (q, l) \<longrightarrow> ((pr_local s)(t := None)) w = Some (q, m) \<longrightarrow> u = w"
      using uniq by (auto split: if_splits)
    have f: "pr_heap s1 = s'" "pr_local s1 = (pr_local s)(t := None)" "pr_done s1 = sn_value n # pr_done s"
      using ps_cas_ok(1) by simp_all
    show ?thesis by (rule push_invI; unfold f; rule 1 2 3)
  next
    case (ps_cas_fail t p h weak s')
    then have s': "s' = ?h" by (auto simp: stack_cas_def split: if_splits)
    have 1: "\<forall>u q l. ((pr_local s)(t \<mapsto> (p, None))) u = Some (q, l) \<longrightarrow> q \<notin> set ps"
      using ps(4) ps_cas_fail(2) by (auto split: if_splits)
    have 2: "\<forall>u q l. ((pr_local s)(t \<mapsto> (p, None))) u = Some (q, l) \<longrightarrow> q < sh_fresh ?h \<and>
        (\<exists>n. sh_nodes ?h q = Some n \<and> (\<forall>h. l = Some h \<longrightarrow> sn_prev n = h))"
      using own own [OF ps_cas_fail(2)] by (auto split: if_splits)
    have 3: "\<forall>u w q l m. ((pr_local s)(t \<mapsto> (p, None))) u = Some (q, l) \<longrightarrow> ((pr_local s)(t \<mapsto> (p, None))) w = Some (q, m) \<longrightarrow> u = w"
      using uniq ps_cas_fail(2) by (auto split: if_splits)
    have "\<exists>ps. chain ?h (sh_head ?h) ps \<and> distinct ps \<and> pr_done s = map (value_at ?h) ps \<and>
        (\<forall>u q l. ((pr_local s)(t \<mapsto> (p, None))) u = Some (q, l) \<longrightarrow> q \<notin> set ps) \<and> (\<forall>p \<in> set ps. p < sh_fresh ?h)"
      using ps(1,2,3,5) 1 by blast
    then have 0: "\<exists>ps. chain ?h (sh_head ?h) ps \<and> distinct ps \<and> pr_done s = map (value_at ?h) ps \<and>
        (\<forall>u q l. ((pr_local s)(t \<mapsto> (p, None))) u = Some (q, l) \<longrightarrow> q \<notin> set ps) \<and> (\<forall>p \<in> set ps. p < sh_fresh ?h)" .
    have f: "pr_heap s1 = ?h" "pr_local s1 = (pr_local s)(t \<mapsto> (p, None))" "pr_done s1 = pr_done s"
      using ps_cas_fail(1) s' by simp_all
    show ?thesis by (rule push_invI; unfold f; rule 0 2 3)
  qed
qed

lemma push_reach_inv: "push_reach s \<Longrightarrow> push_inv s"
proof (induction rule: push_reach.induct)
  case pr_init
  show ?case by (simp add: push_inv_def stack_new_def)
next
  case (pr_step s t)
  then show ?case by (blast intro: push_inv_step)
qed

text \<open>C40. However pushes interleave, retry and fail spuriously, an iteration yields exactly the
  values whose compare-and-exchange has succeeded, the latest first: nothing is lost,
  duplicated or reordered.\<close>

theorem push_linearizable:
  assumes "push_reach s"
  shows "stack_iter (pr_heap s) = pr_done s"
proof -
  let ?h = "pr_heap s"
  from push_reach_inv [OF assms] obtain ps where ps: "chain ?h (sh_head ?h) ps" "distinct ps"
    "pr_done s = map (value_at ?h) ps" "\<forall>p \<in> set ps. p < sh_fresh ?h"
    unfolding push_inv_def by blast
  have "set ps \<subseteq> {..< sh_fresh ?h}" using ps(4) by auto
  then have "card (set ps) \<le> sh_fresh ?h" by (metis card_lessThan card_mono finite_lessThan)
  then have "length ps < Suc (sh_fresh ?h)" using ps(2) by (simp add: distinct_card)
  from chain_values [OF ps(1) this] ps(3) show ?thesis by (simp add: stack_iter_def)
qed

lemma push_linearizable_witness:
  "\<exists>s. push_reach s \<and> stack_iter (pr_heap s) = pr_done s \<and> pr_done s = [7 :: nat]"
proof -
  let ?s0 = "\<lparr>pr_heap = stack_new, pr_local = (\<lambda>_. None), pr_done = []\<rparr> :: nat push_run"
  let ?h1 = "snd (stack_alloc stack_new (7::nat))"
  let ?s1 = "?s0\<lparr>pr_heap := ?h1, pr_local := (pr_local ?s0)(0 \<mapsto> (0, None))\<rparr>"
  let ?h2 = "stack_link ?h1 0 None"
  let ?s2 = "?s1\<lparr>pr_heap := ?h2, pr_local := (pr_local ?s1)(0 \<mapsto> (0, Some None))\<rparr>"
  let ?s3 = "?s2\<lparr>pr_heap := ?h2\<lparr>sh_head := Some 0\<rparr>, pr_local := (pr_local ?s2)(0 := None), pr_done := [7]\<rparr>"
  have "push_step ?s0 ?s1" by (rule ps_alloc [where v = 7]) (simp_all add: stack_alloc_def stack_new_def)
  with pr_init have 1: "push_reach ?s1" by (rule pr_step)
  have "push_step ?s1 ?s2" using ps_load [of ?s1 0 0 None None] by (simp add: stack_alloc_def stack_new_def)
  with 1 have 2: "push_reach ?s2" by (rule pr_step)
  have "push_step ?s2 ?s3"
    using ps_cas_ok [of ?s2 0 0 None True "?h2\<lparr>sh_head := Some 0\<rparr>" "\<lparr>sn_value = 7, sn_prev = None, sn_count = 1\<rparr>"]
    by (simp add: stack_alloc_def stack_new_def stack_link_def stack_cas_def)
  with 2 have 3: "push_reach ?s3" by (rule pr_step)
  from push_linearizable [OF 3] 3 show ?thesis by (intro exI [of _ ?s3]) simp
qed

text \<open>A \<open>try_push\<close> whose compare-and-exchange fails drops a reference to the current head
  that it never took: the head's strong count falls by one, and a head that only the stack
  owns is freed while the stack still points to it.\<close>

theorem failed_try_push_drops_head:
  assumes "sh_head s = Some p" "sh_nodes s p = Some n" "p < sh_fresh s"
  shows "\<exists>s'. stack_try_push False s v = (Inl v, s') \<and> sh_head s' = Some p \<and>
    sh_nodes s' p = (if sn_count n \<le> 1 then None else Some (n\<lparr>sn_count := sn_count n - 1\<rparr>))"
proof -
  let ?f = "sh_fresh s"
  let ?s = "s\<lparr>sh_fresh := Suc ?f, sh_nodes := (sh_nodes s)(?f := None)\<rparr>"
  have pf: "p \<noteq> ?f" using assms(3) by simp
  have "stack_try_push False s v = (Inl v, drop_cell ?s (Some p))"
    using assms(1) by (simp add: stack_try_push_def stack_alloc_def stack_link_def stack_cas_def Let_def)
  moreover have "sh_nodes (decr_count k t q) p = None" if "sh_nodes t p = None" for k q and t :: "'a stack_heap"
    using that by (induction k t q rule: decr_count.induct) (auto split: option.splits)
  moreover have "sh_head (decr_count k t q) = sh_head t" for k q and t :: "'a stack_heap"
    by (induction k t q rule: decr_count.induct) (auto split: option.splits)
  ultimately show ?thesis using assms pf by (auto simp: drop_cell_def)
qed


end
