(* ===== verification/AppendLog.thy ===== *)
theory AppendLog
  imports Errors
begin

text \<open>
  The memory-mapped append-only log (\<open>libs/db/src/append_log.rs\<close>).  The file is a header
  followed by committed bytes; the header's atomics and the caller's extra value are fields
  of the record, \<open>al_map\<close> is the mapped region byte for byte (the header occupies its first
  \<open>al_hdr\<close> bytes) and lengths that the code keeps as \<open>u64\<close> are \<open>nat\<close>, since a mapped
  region is shorter than \<open>2^63\<close>.  The locale \<open>append_only\<close> is what the time series and
  the message logs rely on: fixed-width records written one after the other can be read
  back by index.
\<close>

record 'e append_log =
  al_map :: "byte list"
  al_committed :: nat
  al_head :: nat
  al_extra :: 'e
  al_hdr :: nat

text \<open>
  \<open>with_size\<close>: seeking to \<open>size\<close> and writing one byte makes a sparse file of
  \<open>size + 1\<close> zero bytes; \<open>os\<close> is the outcome of the operating-system calls.
\<close>

definition al_with_size :: "io_kind option \<Rightarrow> nat \<Rightarrow> nat \<Rightarrow> 'e \<Rightarrow> db_error + 'e append_log" where
  "al_with_size os sz hdr extra =
     (case os of
        Some e \<Rightarrow> Inl (Io e)
      | None \<Rightarrow> Inr \<lparr>al_map = replicate (sz + 1) 0, al_committed = hdr, al_head = 0,
                     al_extra = extra, al_hdr = hdr\<rparr>)"

definition al_file_size :: nat where
  "al_file_size = 1024 * 1024 * 1024 * 8"

definition al_create :: "io_kind option \<Rightarrow> nat \<Rightarrow> 'e \<Rightarrow> db_error + 'e append_log" where
  "al_create os hdr extra = al_with_size os al_file_size hdr extra"

text \<open>\<open>open\<close> maps an existing file; its header and bytes are whatever the file holds.\<close>

definition al_open :: "io_kind option \<Rightarrow> 'e append_log \<Rightarrow> db_error + 'e append_log" where
  "al_open os file = (case os of Some e \<Rightarrow> Inl (Io e) | None \<Rightarrow> Inr file)"

text \<open>
  \<open>data\<close> slices the map from the header to the committed length; the slice panics when the
  committed length is out of range, which \<open>None\<close> stands for.
\<close>

definition al_data_checked :: "'e append_log \<Rightarrow> byte list option" where
  "al_data_checked l = get_range (al_map l) (al_hdr l) (al_committed l)"

definition al_data :: "'e append_log \<Rightarrow> byte list" where
  "al_data l = slice (al_hdr l) (al_committed l) (al_map l)"

definition al_get :: "'e append_log \<Rightarrow> nat \<Rightarrow> nat \<Rightarrow> byte list option" where
  "al_get l a b = get_range (al_data l) a b"

definition al_len :: "'e append_log \<Rightarrow> nat" where
  "al_len l = al_committed l - al_hdr l"

definition al_is_empty :: "'e append_log \<Rightarrow> bool" where
  "al_is_empty l \<longleftrightarrow> al_len l = 0"

definition al_capacity :: "'e append_log \<Rightarrow> nat" where
  "al_capacity l = length (al_map l) - al_hdr l"

text \<open>
  \<open>write\<close> copies the buffer behind the committed bytes, publishes the new length and
  returns the offset of the write inside the data region.
\<close>

definition al_write :: "'e append_log \<Rightarrow> byte list \<Rightarrow> db_error + (nat \<times> 'e append_log)" where
  "al_write l buf =
     (let end0 = al_committed l;
          head_end = end0 + length buf
      in if 2 ^ 64 \<le> head_end then Inl MapOverflow
         else if length (al_map l) < head_end then Inl MapOverflow
         else Inr (end0 - al_hdr l,
                   l\<lparr>al_map := splice end0 buf (al_map l), al_committed := head_end\<rparr>))"

definition al_inv :: "'e append_log \<Rightarrow> bool" where
  "al_inv l \<longleftrightarrow> al_hdr l \<le> al_committed l \<and> al_committed l \<le> length (al_map l) \<and>
     length (al_map l) < 2 ^ 63"

section \<open>Lemmas\<close>

lemma al_with_size_inv [inv_intros]:
  "hdr \<le> sz \<Longrightarrow> sz + 1 < 2 ^ 63 \<Longrightarrow> al_with_size os sz hdr extra = Inr l \<Longrightarrow> al_inv l \<and> al_data l = []"
  by (auto simp: al_with_size_def al_inv_def al_data_def split: option.splits)

lemma al_data_checked_Some: "al_inv l \<Longrightarrow> al_data_checked l = Some (al_data l)"
  by (simp add: al_inv_def al_data_checked_def al_data_def get_range_def)

lemma length_al_data [simp]: "al_inv l \<Longrightarrow> length (al_data l) = al_len l"
  by (simp add: al_inv_def al_data_def al_len_def length_slice)

lemma al_write_error: "al_inv l \<Longrightarrow> al_write l buf = Inl e \<longleftrightarrow> e = MapOverflow \<and> al_capacity l < al_len l + length buf"
  by (auto simp: al_write_def Let_def al_inv_def al_capacity_def al_len_def split: if_splits)

lemma al_write_ok:
  assumes inv: "al_inv l" and w: "al_write l buf = Inr (off, l')"
  shows "al_inv l'" "al_data l' = al_data l @ buf" "off = al_len l"
    "al_extra l' = al_extra l" "al_capacity l' = al_capacity l" "al_hdr l' = al_hdr l"
proof -
  from w have fit: "al_committed l + length buf \<le> length (al_map l)"
    and off: "off = al_len l"
    and l': "l' = l\<lparr>al_map := splice (al_committed l) buf (al_map l),
                    al_committed := al_committed l + length buf\<rparr>"
    by (auto simp: al_write_def Let_def al_len_def split: if_splits)
  from inv have h: "al_hdr l \<le> al_committed l" and c: "al_committed l \<le> length (al_map l)"
    by (simp_all add: al_inv_def)
  show "al_inv l'" using inv fit l' by (simp add: al_inv_def length_splice)
  show "off = al_len l" by (fact off)
  show "al_extra l' = al_extra l" "al_hdr l' = al_hdr l" using l' by simp_all
  show "al_capacity l' = al_capacity l" using l' fit by (simp add: al_capacity_def length_splice)
  have "al_data l' = slice (al_hdr l) (al_committed l + length buf) (splice (al_committed l) buf (al_map l))"
    by (simp add: al_data_def l')
  also have "\<dots> = slice (al_hdr l) (al_committed l) (splice (al_committed l) buf (al_map l)) @
      slice (al_committed l) (al_committed l + length buf) (splice (al_committed l) buf (al_map l))"
    by (rule slice_append_split) (use h in simp_all)
  also have "\<dots> = al_data l @ buf"
    using h c by (simp add: slice_splice_before slice_splice_same al_data_def)
  finally show "al_data l' = al_data l @ buf" .
qed

text \<open>A small log with given contents and some room, on which statements about logs are tried.\<close>

definition sample_log :: "'e \<Rightarrow> byte list \<Rightarrow> 'e append_log" where
  "sample_log extra bs = \<lparr>al_map = replicate 24 0 @ bs @ replicate 64 0, al_committed = 24 + length bs,
     al_head = 0, al_extra = extra, al_hdr = 24\<rparr>"

lemma sample_log_simps [simp]:
  "al_data (sample_log x bs) = bs" "al_len (sample_log x bs) = length bs" "al_extra (sample_log x bs) = x"
  "al_capacity (sample_log x bs) = length bs + 64" "length bs < 2 ^ 62 \<Longrightarrow> al_inv (sample_log x bs)"
  by (simp_all add: sample_log_def al_data_def al_len_def al_capacity_def al_inv_def slice_append2 slice_append1)

section \<open>The contract of an append-only log\<close>

text \<open>
  The client sees a byte string that only grows, and a write that either appends the whole
  buffer and returns its offset or changes nothing.  \<open>room\<close> is the number of bytes that
  still fit.
\<close>

locale append_only =
  fixes inv :: "'l \<Rightarrow> bool"
    and data :: "'l \<Rightarrow> byte list"
    and room :: "'l \<Rightarrow> nat"
    and wr :: "'l \<Rightarrow> byte list \<Rightarrow> 'err + (nat \<times> 'l)"
  assumes write_ok: "inv l \<Longrightarrow> wr l buf = Inr (off, l') \<Longrightarrow>
      inv l' \<and> data l' = data l @ buf \<and> off = length (data l) \<and> room l = room l' + length buf"
    and write_err: "inv l \<Longrightarrow> (\<exists>e. wr l buf = Inl e) \<longleftrightarrow> room l < length buf"
begin

text \<open>Earlier reads are stable: what a reader has seen never changes.\<close>

lemma read_stable:
  "inv l \<Longrightarrow> wr l buf = Inr (off, l') \<Longrightarrow> get_range (data l) a b = Some bs \<Longrightarrow>
   get_range (data l') a b = Some bs"
  using write_ok [of l buf off l'] by (auto simp: get_range_Some slice_append1)

lemma read_back:
  "inv l \<Longrightarrow> wr l buf = Inr (off, l') \<Longrightarrow> get_range (data l') off (off + length buf) = Some buf"
  using write_ok [of l buf off l'] by (simp add: get_range_def slice_append2 slice_def)

text \<open>Writing a list of buffers one after the other, stopping at the first error.\<close>

fun write_all :: "'l \<Rightarrow> byte list list \<Rightarrow> 'err + 'l" where
  "write_all l [] = Inr l"
| "write_all l (b # bs) = (case wr l b of Inl e \<Rightarrow> Inl e | Inr (_, l') \<Rightarrow> write_all l' bs)"

lemma write_all_ok:
  "inv l \<Longrightarrow> write_all l bs = Inr l' \<Longrightarrow> inv l' \<and> data l' = data l @ concat bs"
proof (induction bs arbitrary: l)
  case Nil
  then show ?case by simp
next
  case (Cons b bs)
  from Cons.prems(2) obtain off m where w: "wr l b = Inr (off, m)" and r: "write_all m bs = Inr l'"
    by (auto split: sum.splits)
  from write_ok [OF Cons.prems(1) w] have m: "inv m" "data m = data l @ b" by simp_all
  from Cons.IH [OF m(1) r] m(2) show ?case by simp
qed

text \<open>
  Fixed-width records: the \<open>i\<close>-th record written to an empty log is the slice
  \<open>i * w .. (i + 1) * w\<close>.  This is how the index, the data and the offsets file are read.
\<close>

lemma fixed_width_read:
  assumes "inv l" "data l = []" "write_all l bs = Inr l'" "\<forall>b \<in> set bs. length b = w" "i < length bs"
  shows "get_range (data l') (i * w) (i * w + w) = Some (bs ! i)"
proof -
  have d: "data l' = concat bs" using write_all_ok [OF assms(1,3)] assms(2) by simp
  have split: "bs = take i bs @ bs ! i # drop (Suc i) bs" using assms(5) by (rule id_take_nth_drop)
  have len: "length (concat (take i bs)) = i * w" if "\<forall>b \<in> set bs. length b = w" "i \<le> length bs" for i bs
    using that by (induction bs arbitrary: i) (auto simp: take_Cons split: nat.splits)
  have w: "length (bs ! i) = w" using assms(4,5) by simp
  have c: "concat bs = concat (take i bs) @ bs ! i @ concat (drop (Suc i) bs)"
    by (subst (1) split) simp
  show ?thesis
    unfolding d c using len [of bs i] assms(4,5) w
    by (simp add: get_range_def slice_append2 slice_append1 slice_def)
qed

end

interpretation al: append_only al_inv al_data "\<lambda>l. al_capacity l - al_len l" al_write
proof
  fix l :: "'e append_log" and buf off l'
  assume inv: "al_inv l" and w: "al_write l buf = Inr (off, l')"
  note ok = al_write_ok [OF inv w]
  from w have fit: "al_committed l + length buf \<le> length (al_map l)"
    by (auto simp: al_write_def Let_def split: if_splits)
  have "al_len l' = al_len l + length buf" using ok length_al_data [OF ok(1)] length_al_data [OF inv] by simp
  then have "al_capacity l - al_len l = al_capacity l' - al_len l' + length buf"
    using ok(5) fit inv by (simp add: al_capacity_def al_len_def al_inv_def)
  with ok inv show "al_inv l' \<and> al_data l' = al_data l @ buf \<and> off = length (al_data l) \<and>
      al_capacity l - al_len l = al_capacity l' - al_len l' + length buf"
    by simp
next
  fix l :: "'e append_log" and buf
  assume inv: "al_inv l"
  have "al_len l \<le> al_capacity l" using inv
    by (simp add: al_inv_def al_capacity_def al_len_def diff_le_mono)
  moreover have "(\<exists>e. al_write l buf = Inl e) \<longleftrightarrow> al_capacity l < al_len l + length buf"
    by (simp only: al_write_error [OF inv] simp_thms)
  ultimately show "(\<exists>e. al_write l buf = Inl e) \<longleftrightarrow> al_capacity l - al_len l < length buf"
    by (simp add: less_diff_conv2 add.commute)
qed

end
