(* ===== verification/TimeSeries.thy ===== *)
theory TimeSeries
  imports AppendLog
begin

text \<open>
  The time series of one component (\<open>libs/db/src/time_series_2.rs\<close>): a stack of nodes,
  newest first, each a pair of append-only logs, timestamps and fixed-size elements.  A
  reference to a sample names its node by the number of nodes below it, which a push does
  not change.  A panic is an outer \<open>None\<close>.  The refinement: a time series is the list of
  its samples in the order they were pushed.
\<close>

section \<open>Nodes\<close>

record ts_node =
  ts_index :: "int append_log"
  ts_data :: "nat append_log"

definition node_size :: nat where
  "node_size = 1024 * 1024 * 32"

text \<open>Two \<open>AtomicU64\<close> and an eight-byte extra value.\<close>

definition node_hdr :: nat where
  "node_hdr = 24"

text \<open>
  \<open>taken\<close> says whether the node's directory already holds an index, which
  \<open>create_new\<close> refuses; \<open>os\<close> is any other outcome of the file system.
\<close>

definition node_create :: "io_kind option \<Rightarrow> bool \<Rightarrow> int \<Rightarrow> nat \<Rightarrow> db_error + ts_node" where
  "node_create os taken start element_size =
     bind_result (al_with_size (if taken then Some AlreadyExists else os) node_size node_hdr start) (\<lambda>index.
     bind_result (al_with_size os node_size node_hdr element_size) (\<lambda>data.
     Inr \<lparr>ts_index = index, ts_data = data\<rparr>))"

definition node_open :: "io_kind option \<Rightarrow> int append_log \<Rightarrow> nat append_log \<Rightarrow> db_error + ts_node" where
  "node_open os index data =
     bind_result (al_open os index) (\<lambda>index.
     bind_result (al_open os data) (\<lambda>data.
     Inr \<lparr>ts_index = index, ts_data = data\<rparr>))"

definition timestamps :: "ts_node \<Rightarrow> int list option" where
  "timestamps n = i64_view (al_data (ts_index n))"

definition element_size :: "ts_node \<Rightarrow> nat" where
  "element_size n = al_extra (ts_data n)"

section \<open>The series, its writer\<close>

record time_series =
  ts_nodes :: "ts_node list"
  ts_dirs :: "int list"
  ts_has_writer :: bool

definition ts_create :: time_series where
  "ts_create = \<lparr>ts_nodes = [], ts_dirs = [], ts_has_writer = False\<rparr>"

text \<open>\<open>open\<close> pushes the nodes that open, in the order the directory lists them.\<close>

fun ts_open_loop :: "(db_error + ts_node) list \<Rightarrow> ts_node list \<Rightarrow> ts_node list" where
  "ts_open_loop [] acc = acc"
| "ts_open_loop (Inr node # entries) acc = ts_open_loop entries (node # acc)"
| "ts_open_loop (Inl _ # entries) acc = ts_open_loop entries acc"

definition ts_open :: "io_kind option \<Rightarrow> (db_error + ts_node) list \<Rightarrow> int list \<Rightarrow> db_error + time_series" where
  "ts_open os entries dirs =
     (case os of Some e \<Rightarrow> Inl (Io e)
      | None \<Rightarrow> Inr \<lparr>ts_nodes = ts_open_loop entries [], ts_dirs = dirs, ts_has_writer = False\<rparr>)"

definition ts_writer :: "time_series \<Rightarrow> bool \<times> time_series" where
  "ts_writer s = (\<not> ts_has_writer s, s\<lparr>ts_has_writer := True\<rparr>)"

text \<open>
  \<open>try_push_buf\<close>: \<open>Inr False\<close> when there is no head or its data log is full.  The data is
  written before the timestamp, so the error of a full index leaves the data behind; the
  returned state is the one after the call, on every branch.
\<close>

definition try_push_buf :: "time_series \<Rightarrow> int \<Rightarrow> byte list \<Rightarrow> (db_error + bool) \<times> time_series" where
  "try_push_buf s timestamp buf =
     (case ts_nodes s of
        [] \<Rightarrow> (Inr False, s)
      | head # below \<Rightarrow>
          (case al_write (ts_data head) buf of
             Inl MapOverflow \<Rightarrow> (Inr False, s)
           | Inl err \<Rightarrow> (Inl err, s)
           | Inr (_, data) \<Rightarrow>
               (case al_write (ts_index head) (i64_to_le timestamp) of
                  Inl err \<Rightarrow> (Inl err, s\<lparr>ts_nodes := head\<lparr>ts_data := data\<rparr> # below\<rparr>)
                | Inr (_, index) \<Rightarrow>
                    (Inr True, s\<lparr>ts_nodes := \<lparr>ts_index = index, ts_data = data\<rparr> # below\<rparr>))))"

text \<open>
  The loop of \<open>push_buf\<close>, with fuel: when the head refuses, a node named by the timestamp
  is created and pushed.  \<open>cas\<close> is the outcome of the weak compare-and-exchange, which
  may fail spuriously; its result is dropped by the caller.
\<close>

fun push_buf_loop :: "nat \<Rightarrow> io_kind option \<Rightarrow> bool \<Rightarrow> time_series \<Rightarrow> int \<Rightarrow> byte list \<Rightarrow>
    ((db_error + unit) \<times> time_series) option" where
  "push_buf_loop 0 os cas s timestamp buf = None"
| "push_buf_loop (Suc fuel) os cas s timestamp buf =
     (case try_push_buf s timestamp buf of
        (Inl err, s') \<Rightarrow> Some (Inl err, s')
      | (Inr True, s') \<Rightarrow> Some (Inr (), s')
      | (Inr False, s') \<Rightarrow>
          (case node_create os (timestamp \<in> set (ts_dirs s')) timestamp (length buf) of
             Inl err \<Rightarrow> Some (Inl err, s')
           | Inr node \<Rightarrow>
               push_buf_loop fuel os cas
                 (s'\<lparr>ts_dirs := timestamp # ts_dirs s', ts_nodes := (if cas then node # ts_nodes s' else ts_nodes s')\<rparr>)
                 timestamp buf))"

text \<open>Three rounds are always enough (\<open>push_buf_returns\<close>).\<close>

definition push_buf :: "io_kind option \<Rightarrow> bool \<Rightarrow> time_series \<Rightarrow> int \<Rightarrow> byte list \<Rightarrow>
    ((db_error + unit) \<times> time_series) option" where
  "push_buf os cas s timestamp buf = push_buf_loop 3 os cas s timestamp buf"

section \<open>Readers\<close>

record ts_ref =
  tr_node :: nat
  tr_timestamp :: int
  tr_index :: nat

definition node_at :: "time_series \<Rightarrow> nat \<Rightarrow> ts_node" where
  "node_at s i = rev (ts_nodes s) ! i"

definition ref_data :: "time_series \<Rightarrow> ts_ref \<Rightarrow> byte list option" where
  "ref_data s r =
     (let n = node_at s (tr_node r)
      in al_get (ts_data n) (tr_index r * element_size n) ((tr_index r + 1) * element_size n))"

text \<open>
  The two scans below look at the nodes' timestamps only and are shared with the message
  logs, whose code is the same: they take the list of timestamp views, newest node first.
\<close>

fun start_timestamp_loop :: "int list option list \<Rightarrow> int option \<Rightarrow> int option option" where
  "start_timestamp_loop [] acc = Some acc"
| "start_timestamp_loop (None # ns) acc = None"
| "start_timestamp_loop (Some [] # ns) acc = start_timestamp_loop ns acc"
| "start_timestamp_loop (Some (t # _) # ns) acc =
     start_timestamp_loop ns (case acc of None \<Rightarrow> Some t | Some m \<Rightarrow> Some (min m t))"

definition start_timestamp :: "time_series \<Rightarrow> int option option" where
  "start_timestamp s = start_timestamp_loop (map timestamps (ts_nodes s)) None"

fun ts_get_loop :: "ts_node list \<Rightarrow> int \<Rightarrow> ts_ref option option" where
  "ts_get_loop [] timestamp = Some None"
| "ts_get_loop (n # ns) timestamp =
     (case timestamps n of
        None \<Rightarrow> None
      | Some tss \<Rightarrow>
          (case binary_search tss timestamp of
             Inr _ \<Rightarrow> ts_get_loop ns timestamp
           | Inl index \<Rightarrow>
               (let i = index * element_size n
                in if al_get (ts_data n) i (i + element_size n) = None then ts_get_loop ns timestamp
                   else Some (Some \<lparr>tr_node = length ns, tr_timestamp = timestamp, tr_index = index\<rparr>))))"

definition ts_get :: "time_series \<Rightarrow> int \<Rightarrow> ts_ref option option" where
  "ts_get s timestamp = ts_get_loop (ts_nodes s) timestamp"

text \<open>\<open>inclusive as usize\<close> is \<open>of_bool inclusive\<close>, and \<open>nat\<close> subtraction saturates.\<close>

fun nearest_loop :: "int list option list \<Rightarrow> int \<Rightarrow> bool \<Rightarrow> ts_ref option \<Rightarrow> ts_ref option option" where
  "nearest_loop [] timestamp inclusive prev = Some prev"
| "nearest_loop (None # ns) timestamp inclusive prev = None"
| "nearest_loop (Some tss # ns) timestamp inclusive prev =
     (if tss = [] then Some None
      else if last tss < timestamp then
        (case prev of
           Some p \<Rightarrow>
             if \<bar>tr_timestamp p - timestamp\<bar> < \<bar>hd tss - timestamp\<bar> then Some prev
             else Some (Some \<lparr>tr_node = length ns, tr_timestamp = hd tss, tr_index = length tss - of_bool inclusive\<rparr>)
         | None \<Rightarrow> Some (Some \<lparr>tr_node = length ns, tr_timestamp = hd tss, tr_index = length tss - of_bool inclusive\<rparr>))
      else if timestamp < hd tss then
        nearest_loop ns timestamp inclusive (Some \<lparr>tr_node = length ns, tr_timestamp = last tss, tr_index = 0\<rparr>)
      else
        (let index = (case binary_search tss timestamp of Inl i \<Rightarrow> i | Inr i \<Rightarrow> i - of_bool inclusive)
         in map_option (\<lambda>t. Some \<lparr>tr_node = length ns, tr_timestamp = t, tr_index = index\<rparr>)
              (get_index tss index)))"

definition binary_search_nearest :: "time_series \<Rightarrow> int \<Rightarrow> bool \<Rightarrow> ts_ref option option" where
  "binary_search_nearest s timestamp inclusive = nearest_loop (map timestamps (ts_nodes s)) timestamp inclusive None"

definition get_ts_range :: "time_series \<Rightarrow> int \<Rightarrow> int \<Rightarrow> (ts_ref \<times> ts_ref) option option" where
  "get_ts_range s a b =
     (case binary_search_nearest s a False of
        None \<Rightarrow> None
      | Some None \<Rightarrow> Some None
      | Some (Some start) \<Rightarrow>
          (case binary_search_nearest s b True of
             None \<Rightarrow> None
           | Some None \<Rightarrow> Some None
           | Some (Some end') \<Rightarrow> Some (Some (start, end'))))"

definition ts_latest :: "time_series \<Rightarrow> ts_ref option option" where
  "ts_latest s =
     (case ts_nodes s of
        [] \<Rightarrow> Some None
      | head # below \<Rightarrow>
          map_option (\<lambda>tss. if tss = [] then None
            else Some \<lparr>tr_node = length below, tr_timestamp = tss ! (length tss - 1), tr_index = length tss - 1\<rparr>)
            (timestamps head))"

definition ts_is_empty :: "time_series \<Rightarrow> bool" where
  "ts_is_empty s \<longleftrightarrow> ts_nodes s = []"

section \<open>Slices\<close>

record node_slice =
  ns_node :: ts_node
  ns_start :: nat
  ns_end :: nat

text \<open>The inclusive index \<open>xs[start..=end]\<close>.\<close>

definition get_inclusive :: "'a list \<Rightarrow> nat \<Rightarrow> nat \<Rightarrow> 'a list option" where
  "get_inclusive xs a b = get_range xs a (b + 1)"

definition slice_timestamps :: "node_slice \<Rightarrow> int list option" where
  "slice_timestamps sl =
     (case timestamps (ns_node sl) of
        None \<Rightarrow> None
      | Some tss \<Rightarrow>
          get_inclusive tss (ns_start sl) (if length tss \<le> ns_end sl then length tss - 1 else ns_end sl))"

definition slice_data :: "node_slice \<Rightarrow> byte list option" where
  "slice_data sl =
     (let n = ns_node sl; data_len = length (al_data (ts_data n))
      in get_range (al_data (ts_data n)) (min (ns_start sl * element_size n) data_len)
           (min ((ns_end sl + 1) * element_size n) data_len))"

text \<open>
  \<open>as_iter\<close>: the stack iterator starts at the start reference's node and follows the
  links to older nodes, to the bottom.
\<close>

fun as_iter_loop :: "ts_node list \<Rightarrow> ts_ref \<Rightarrow> ts_ref \<Rightarrow> node_slice list option" where
  "as_iter_loop [] start end' = Some []"
| "as_iter_loop (n # ns) start end' =
     (case timestamps n of
        None \<Rightarrow> None
      | Some tss \<Rightarrow>
          map_option ((#) \<lparr>ns_node = n,
            ns_start = (if length ns = tr_node start then tr_index start else 0),
            ns_end = (if length ns = tr_node end' then tr_index end' else length tss - 1)\<rparr>)
            (as_iter_loop ns start end'))"

definition as_iter :: "time_series \<Rightarrow> ts_ref \<Rightarrow> ts_ref \<Rightarrow> node_slice list option" where
  "as_iter s start end' = as_iter_loop (drop (length (ts_nodes s) - 1 - tr_node start) (ts_nodes s)) start end'"

fun slice_len_loop :: "node_slice list \<Rightarrow> nat option" where
  "slice_len_loop [] = Some 0"
| "slice_len_loop (sl # sls) =
     (case slice_timestamps sl of None \<Rightarrow> None | Some tss \<Rightarrow> map_option ((+) (length tss)) (slice_len_loop sls))"

definition slice_len :: "time_series \<Rightarrow> ts_ref \<Rightarrow> ts_ref \<Rightarrow> nat option" where
  "slice_len s start end' = Option.bind (as_iter s start end') slice_len_loop"

section \<open>The list of samples\<close>

definition node_ok :: "nat \<Rightarrow> ts_node \<Rightarrow> bool" where
  "node_ok e n \<longleftrightarrow> al_inv (ts_index n) \<and> al_inv (ts_data n) \<and> element_size n = e \<and>
     al_len (ts_index n) mod 8 = 0 \<and> al_len (ts_data n) = e * (al_len (ts_index n) div 8) \<and>
     al_capacity (ts_index n) = al_capacity (ts_data n)"

definition node_samples :: "nat \<Rightarrow> ts_node \<Rightarrow> (int \<times> byte list) list" where
  "node_samples e n =
     map (\<lambda>i. (i64_elems (al_data (ts_index n)) ! i, slice (i * e) ((i + 1) * e) (al_data (ts_data n))))
       [0..<al_len (ts_index n) div 8]"

definition ts_inv :: "nat \<Rightarrow> time_series \<Rightarrow> bool" where
  "ts_inv e s \<longleftrightarrow> (\<forall>n \<in> set (ts_nodes s). node_ok e n)"

definition ts_samples :: "nat \<Rightarrow> time_series \<Rightarrow> (int \<times> byte list) list" where
  "ts_samples e s = concat (map (node_samples e) (rev (ts_nodes s)))"

lemma node_timestamps:
  assumes "node_ok e n"
  shows "timestamps n = Some (i64_elems (al_data (ts_index n)))"
    "map fst (node_samples e n) = i64_elems (al_data (ts_index n))"
    "length (node_samples e n) = al_len (ts_index n) div 8"
proof -
  have len: "length (al_data (ts_index n)) = al_len (ts_index n)" using assms by (simp add: node_ok_def)
  then show "timestamps n = Some (i64_elems (al_data (ts_index n)))"
    using assms by (simp add: timestamps_def i64_view_def node_ok_def)
  show "map fst (node_samples e n) = i64_elems (al_data (ts_index n))"
    using len by (simp add: node_samples_def comp_def) (metis length_i64_elems map_nth)
  show "length (node_samples e n) = al_len (ts_index n) div 8" by (simp add: node_samples_def)
qed

lemma node_sample:
  assumes "node_ok e n" "i < al_len (ts_index n) div 8"
  shows "al_get (ts_data n) (i * e) (i * e + e) = Some (snd (node_samples e n ! i))"
    "i64_elems (al_data (ts_index n)) ! i = fst (node_samples e n ! i)"
proof -
  have "(i + 1) * e \<le> (al_len (ts_index n) div 8) * e" using assms(2) by (intro mult_le_mono1) simp
  then have "i * e + e \<le> length (al_data (ts_data n))"
    using assms(1) by (simp add: node_ok_def mult.commute)
  then show "al_get (ts_data n) (i * e) (i * e + e) = Some (snd (node_samples e n ! i))"
    using assms(2) by (simp add: al_get_def get_range_def node_samples_def algebra_simps)
  show "i64_elems (al_data (ts_index n)) ! i = fst (node_samples e n ! i)"
    using assms(2) by (simp add: node_samples_def)
qed

lemma node_push:
  assumes n: "node_ok e n" and b: "length buf = e" and t: "i64_range t"
    and d: "al_write (ts_data n) buf = Inr (o1, data)" and x: "al_write (ts_index n) (i64_to_le t) = Inr (o2, index)"
  shows "node_ok e \<lparr>ts_index = index, ts_data = data\<rparr>"
    "node_samples e \<lparr>ts_index = index, ts_data = data\<rparr> = node_samples e n @ [(t, buf)]"
    "al_capacity data = al_capacity (ts_data n)" "al_len index = al_len (ts_index n) + 8"
proof -
  have iv: "al_inv (ts_index n)" "al_inv (ts_data n)" using n by (simp_all add: node_ok_def)
  note dw = al_write_ok [OF iv(2) d] and xw = al_write_ok [OF iv(1) x]
  have lx: "al_len index = al_len (ts_index n) + 8"
    using xw(1,2) iv length_al_data [OF xw(1)] by simp
  have ld: "al_len data = al_len (ts_data n) + e"
    using dw(1,2) iv b length_al_data [OF dw(1)] by simp
  have dv: "(al_len (ts_index n) + 8) div 8 = al_len (ts_index n) div 8 + 1" by simp
  show ok: "node_ok e \<lparr>ts_index = index, ts_data = data\<rparr>"
    using n dw xw by (simp add: node_ok_def element_size_def lx ld dv)
  show "al_capacity data = al_capacity (ts_data n)" by (fact dw(5))
  show "al_len index = al_len (ts_index n) + 8" by (fact lx)
  have "8 dvd length (al_data (ts_index n))" using n iv by (simp add: node_ok_def dvd_eq_mod_eq_0)
  then have el: "i64_elems (al_data index) = i64_elems (al_data (ts_index n)) @ [t]"
    using xw(2) t by (simp add: i64_elems_append)
  let ?k = "al_len (ts_index n) div 8"
  have dl: "length (al_data (ts_data n)) = ?k * e" using n iv by (simp add: node_ok_def mult.commute)
  have old: "slice (i * e) (e + i * e) (al_data data) = slice (i * e) (e + i * e) (al_data (ts_data n))"
    "(i64_elems (al_data (ts_index n)) @ [t]) ! i = i64_elems (al_data (ts_index n)) ! i" if "i < ?k" for i
  proof -
    have "(i + 1) * e \<le> ?k * e" using that by (intro mult_le_mono1) simp
    then show "slice (i * e) (e + i * e) (al_data data) = slice (i * e) (e + i * e) (al_data (ts_data n))"
      unfolding dw(2) using dl by (intro slice_append1) simp
    show "(i64_elems (al_data (ts_index n)) @ [t]) ! i = i64_elems (al_data (ts_index n)) ! i"
      using that iv by (simp add: nth_append)
  qed
  have new: "slice (?k * e) (e + ?k * e) (al_data data) = buf"
    "(i64_elems (al_data (ts_index n)) @ [t]) ! ?k = t"
    using dw(2) dl b iv by (simp_all add: slice_append2 nth_append) (simp add: slice_def)
  show "node_samples e \<lparr>ts_index = index, ts_data = data\<rparr> = node_samples e n @ [(t, buf)]"
    using old new by (simp add: node_samples_def lx dv el)
qed

lemma node_create_ok:
  assumes "node_create os taken t e = Inr n"
  shows "node_ok e n" "node_samples e n = []" "al_len (ts_data n) = 0" "al_len (ts_index n) = 0"
    "al_capacity (ts_data n) = node_size + 1 - node_hdr" "\<not> taken" "os = None"
proof -
  from assms obtain x d where x: "al_with_size (if taken then Some AlreadyExists else os) node_size node_hdr t = Inr x"
    and d: "al_with_size os node_size node_hdr e = Inr d" and n: "n = \<lparr>ts_index = x, ts_data = d\<rparr>"
    by (auto simp: node_create_def bind_result_Inr_iff)
  from x d have f: "x = \<lparr>al_map = replicate (node_size + 1) 0, al_committed = node_hdr, al_head = 0, al_extra = t, al_hdr = node_hdr\<rparr>"
    "d = \<lparr>al_map = replicate (node_size + 1) 0, al_committed = node_hdr, al_head = 0, al_extra = e, al_hdr = node_hdr\<rparr>"
    by (auto simp: al_with_size_def split: option.splits if_splits)
  show "\<not> taken" "os = None" using x d by (auto simp: al_with_size_def split: option.splits if_splits)
  have c: "node_hdr \<le> node_size" "node_size + 1 < 2 ^ 63" by (simp_all add: node_hdr_def node_size_def)
  show "node_ok e n" "node_samples e n = []" "al_len (ts_data n) = 0" "al_len (ts_index n) = 0"
    "al_capacity (ts_data n) = node_size + 1 - node_hdr"
    using c by (simp_all add: n f node_ok_def al_inv_def al_len_def element_size_def al_capacity_def node_samples_def)
qed

lemma al_write_total:
  assumes "al_inv l"
  obtains (fits) off l' where "al_write l buf = Inr (off, l')" "al_len l + length buf \<le> al_capacity l"
  | (full) "al_write l buf = Inl MapOverflow" "al_capacity l < al_len l + length buf"
proof (cases "al_write l buf")
  case (Inl e)
  with al_write_error [OF assms] show ?thesis using full by blast
next
  case (Inr p)
  with al_write_error [OF assms, of buf MapOverflow] show ?thesis using fits by (cases p) (auto simp: not_less)
qed

text \<open>The outcomes of \<open>try_push_buf\<close> on a series with room, without room and with a full index.\<close>

lemma try_push_fits:
  assumes inv: "ts_inv e s" and ne: "ts_nodes s = h # ns" and b: "length buf = e" and t: "i64_range t"
    and rd: "al_len (ts_data h) + e \<le> al_capacity (ts_data h)" and ri: "al_len (ts_index h) + 8 \<le> al_capacity (ts_index h)"
  shows "\<exists>h'. try_push_buf s t buf = (Inr True, s\<lparr>ts_nodes := h' # ns\<rparr>) \<and> node_ok e h' \<and>
    node_samples e h' = node_samples e h @ [(t, buf)] \<and> al_capacity (ts_data h') = al_capacity (ts_data h) \<and>
    al_len (ts_index h') = al_len (ts_index h) + 8"
proof -
  have h: "node_ok e h" using inv ne by (simp add: ts_inv_def)
  then have iv: "al_inv (ts_index h)" "al_inv (ts_data h)" by (simp_all add: node_ok_def)
  from iv(2) rd b obtain o1 d where d: "al_write (ts_data h) buf = Inr (o1, d)" by (cases rule: al_write_total [of _ buf]) auto
  from iv(1) ri obtain o2 x where x: "al_write (ts_index h) (i64_to_le t) = Inr (o2, x)"
    by (cases rule: al_write_total [of _ "i64_to_le t"]) auto
  show ?thesis
    by (intro exI [of _ "\<lparr>ts_index = x, ts_data = d\<rparr>"]) (use node_push [OF h b t d x] in \<open>simp add: try_push_buf_def ne d x\<close>)
qed

lemma try_push_full:
  assumes inv: "ts_inv e s" and ne: "ts_nodes s = h # ns" and rd: "al_capacity (ts_data h) < al_len (ts_data h) + length buf"
  shows "try_push_buf s t buf = (Inr False, s)"
proof -
  have "al_inv (ts_data h)" using inv ne by (simp add: ts_inv_def node_ok_def)
  then have "al_write (ts_data h) buf = Inl MapOverflow" using rd by (cases rule: al_write_total [of _ buf]) auto
  then show ?thesis by (simp add: try_push_buf_def ne)
qed

lemma try_push_index_full:
  assumes inv: "ts_inv e s" and ne: "ts_nodes s = h # ns"
    and rd: "al_len (ts_data h) + length buf \<le> al_capacity (ts_data h)" and ri: "al_capacity (ts_index h) < al_len (ts_index h) + 8"
  shows "\<exists>data. try_push_buf s t buf = (Inl MapOverflow, s\<lparr>ts_nodes := h\<lparr>ts_data := data\<rparr> # ns\<rparr>) \<and>
    al_len data = al_len (ts_data h) + length buf \<and> node_samples e (h\<lparr>ts_data := data\<rparr>) = node_samples e h"
proof -
  have iv: "al_inv (ts_index h)" "al_inv (ts_data h)" using inv ne by (simp_all add: ts_inv_def node_ok_def)
  from iv(2) rd obtain o1 d where d: "al_write (ts_data h) buf = Inr (o1, d)" by (cases rule: al_write_total [of _ buf]) auto
  from iv(1) ri have x: "al_write (ts_index h) (i64_to_le t) = Inl MapOverflow"
    by (cases rule: al_write_total [of _ "i64_to_le t"]) auto
  note w = al_write_ok [OF iv(2) d]
  have l: "al_len d = al_len (ts_data h) + length buf" using w iv length_al_data [OF w(1)] by simp
  have dl: "length (al_data (ts_data h)) = al_len (ts_index h) div 8 * e"
    using inv ne iv by (simp add: ts_inv_def node_ok_def mult.commute)
  have "slice (i * e) ((i + 1) * e) (al_data d) = slice (i * e) ((i + 1) * e) (al_data (ts_data h))"
    if "i < al_len (ts_index h) div 8" for i
  proof -
    have "(i + 1) * e \<le> al_len (ts_index h) div 8 * e" using that by (intro mult_le_mono1) simp
    then show ?thesis unfolding w(2) using dl by (intro slice_append1) simp
  qed
  then have "node_samples e (h\<lparr>ts_data := d\<rparr>) = node_samples e h" by (simp add: node_samples_def)
  with l show ?thesis by (intro exI [of _ d]) (simp add: try_push_buf_def ne d x)
qed

section \<open>Pushing\<close>

lemma try_push_dirs: "try_push_buf s t buf = (r, s') \<Longrightarrow> ts_dirs s' = ts_dirs s"
  by (auto simp: try_push_buf_def split: list.splits sum.splits db_error.splits prod.splits)

text \<open>The loop of \<open>push_buf\<close> ends: at most one node is created per call, since a second
  one would have the same directory, which the file system refuses.\<close>

theorem push_buf_returns: "push_buf os cas s t buf \<noteq> None"
proof -
  have loop1: "push_buf_loop (Suc k) os cas s t buf \<noteq> None" if "t \<in> set (ts_dirs s)" for k s
    using that try_push_dirs [of s t buf]
    by (cases "try_push_buf s t buf")
       (auto simp: node_create_def al_with_size_def split: sum.splits bool.splits)
  have "push_buf_loop (Suc (Suc k)) os cas s t buf \<noteq> None" for k
  proof -
    obtain r s' where tp: "try_push_buf s t buf = (r, s')" by fastforce
    show ?thesis
    proof (cases "r = Inr False")
      case True
      show ?thesis
      proof (cases "node_create os (t \<in> set (ts_dirs s')) t (length buf)")
        case (Inl err)
        then show ?thesis using tp True by simp
      next
        case (Inr node)
        let ?n = "s'\<lparr>ts_dirs := t # ts_dirs s', ts_nodes := (if cas then node # ts_nodes s' else ts_nodes s')\<rparr>"
        have "push_buf_loop (Suc (Suc k)) os cas s t buf = push_buf_loop (Suc k) os cas ?n t buf"
          using tp True Inr by (simp only: push_buf_loop.simps(2) [of "Suc k"] prod.case sum.case bool.case)
        then show ?thesis using loop1 [of ?n k] by (simp only:) simp
      qed
    next
      case False
      then show ?thesis using tp by (cases r) (auto split: bool.splits)
    qed
  qed
  then show ?thesis by (simp add: push_buf_def numeral_3_eq_3 del: push_buf_loop.simps)
qed

lemma try_push_sound:
  assumes inv: "ts_inv e s" and b: "length buf = e" and t: "i64_range t" and p: "try_push_buf s t buf = (r, s')"
  shows "(r = Inr True \<longrightarrow> ts_inv e s' \<and> ts_samples e s' = ts_samples e s @ [(t, buf)]) \<and>
    (r = Inr False \<longrightarrow> s' = s) \<and> (r \<noteq> Inr True \<longrightarrow> ts_samples e s' = ts_samples e s)"
proof (cases "ts_nodes s")
  case Nil
  then have "r = Inr False" "s' = s" using p by (auto simp: try_push_buf_def)
  then show ?thesis by simp
next
  case (Cons h ns)
  show ?thesis
  proof (cases "al_capacity (ts_data h) < al_len (ts_data h) + length buf")
    case True
    then have "r = Inr False" "s' = s" using try_push_full [OF inv Cons True, of t] p by simp_all
    then show ?thesis by simp
  next
    case rd: False
    show ?thesis
    proof (cases "al_capacity (ts_index h) < al_len (ts_index h) + 8")
      case True
      with try_push_index_full [OF inv Cons _ True, of buf t] rd p obtain data where
        "r = Inl MapOverflow" "s' = s\<lparr>ts_nodes := h\<lparr>ts_data := data\<rparr> # ns\<rparr>"
        "node_samples e (h\<lparr>ts_data := data\<rparr>) = node_samples e h" by auto
      then show ?thesis using Cons by (simp add: ts_samples_def)
    next
      case False
      with try_push_fits [OF inv Cons b t] rd b p obtain h' where
        "r = Inr True" "s' = s\<lparr>ts_nodes := h' # ns\<rparr>" "node_ok e h'" "node_samples e h' = node_samples e h @ [(t, buf)]"
        by auto
      then show ?thesis using Cons inv by (simp add: ts_samples_def ts_inv_def)
    qed
  qed
qed

lemma push_loop_sound:
  assumes "ts_inv e s" "length buf = e" "i64_range t" "push_buf_loop fuel os cas s t buf = Some (r, s')"
  shows "(r = Inr () \<longrightarrow> ts_inv e s' \<and> ts_samples e s' = ts_samples e s @ [(t, buf)]) \<and>
    (r \<noteq> Inr () \<longrightarrow> ts_samples e s' = ts_samples e s)"
  using assms(1,4)
proof (induction fuel arbitrary: s)
  case 0
  then show ?case by simp
next
  case (Suc fuel)
  obtain q s1 where tp: "try_push_buf s t buf = (q, s1)" by fastforce
  note sound = try_push_sound [OF Suc.prems(1) assms(2,3) tp]
  show ?case
  proof (cases "q = Inr False")
    case True
    with sound have s1: "s1 = s" by simp
    show ?thesis
    proof (cases "node_create os (t \<in> set (ts_dirs s)) t (length buf)")
      case (Inl err)
      then show ?thesis using Suc.prems(2) tp True s1 by auto
    next
      case (Inr node)
      let ?n = "s\<lparr>ts_dirs := t # ts_dirs s, ts_nodes := (if cas then node # ts_nodes s else ts_nodes s)\<rparr>"
      note nc = node_create_ok [OF Inr]
      have n: "ts_inv e ?n" "ts_samples e ?n = ts_samples e s"
        using Suc.prems(1) nc(1,2) assms(2) by (simp_all add: ts_inv_def ts_samples_def)
      have "push_buf_loop fuel os cas ?n t buf = Some (r, s')"
        using Suc.prems(2) tp True Inr s1 by simp
      from Suc.IH [OF n(1) this] n(2) show ?thesis by simp
    qed
  next
    case False
    then show ?thesis using Suc.prems(2) tp sound by (cases q) (auto split: bool.splits)
  qed
qed

text \<open>C24. A push that returns \<open>Ok\<close> appends exactly its sample to the series, whichever node it
  goes to and whether or not nodes had to be created; one that returns \<open>Err\<close> leaves the
  readable samples as they were.\<close>

theorem push_buf_appends:
  assumes "ts_inv e s" "length buf = e" "i64_range t" "push_buf os cas s t buf = Some (r, s')"
  shows "(r = Inr () \<longrightarrow> ts_inv e s' \<and> ts_samples e s' = ts_samples e s @ [(t, buf)]) \<and>
    (r \<noteq> Inr () \<longrightarrow> ts_samples e s' = ts_samples e s)"
  using push_loop_sound [OF assms(1-3)] assms(4) by (simp add: push_buf_def)

lemma push_room:
  assumes inv: "ts_inv e s" and e: "8 \<le> e" "length buf = e" and t: "i64_range t" and ne: "ts_nodes s = h # ns"
    and rd: "al_len (ts_data h) + e \<le> al_capacity (ts_data h)"
  shows "\<exists>s'. try_push_buf s t buf = (Inr True, s')"
proof -
  have h: "node_ok e h" using inv ne by (simp add: ts_inv_def)
  define c where "c = al_len (ts_index h) div 8"
  have l: "al_len (ts_index h) = 8 * c" "al_len (ts_data h) = e * c"
    using h by (auto simp: node_ok_def c_def)
  have "8 * (c + 1) \<le> e * (c + 1)" using e(1) by (rule mult_le_mono1)
  then have "al_len (ts_index h) + 8 \<le> al_capacity (ts_index h)"
    using rd l h by (simp add: node_ok_def algebra_simps)
  from try_push_fits [OF inv ne e(2) t rd this] show ?thesis by blast
qed

lemma push_accepts:
  assumes inv: "ts_inv e s" and e: "8 \<le> e" "length buf = e" "e \<le> node_size + 1 - node_hdr"
    and t: "i64_range t" "t \<notin> set (ts_dirs s)"
  shows "\<exists>s'. push_buf None True s t buf = Some (Inr (), s')"
proof (cases "try_push_buf s t buf = (Inr False, s)")
  case True
  obtain node where nc: "node_create None False t e = Inr node"
    by (simp add: node_create_def al_with_size_def)
  note n = node_create_ok [OF nc]
  let ?n = "s\<lparr>ts_dirs := t # ts_dirs s, ts_nodes := node # ts_nodes s\<rparr>"
  have "ts_inv e ?n" using inv n(1) by (simp add: ts_inv_def)
  moreover have "al_len (ts_data node) + e \<le> al_capacity (ts_data node)" using n(3,5) e(3) by simp
  ultimately obtain s' where "try_push_buf ?n t buf = (Inr True, s')"
    using push_room [OF _ e(1,2) t(1), of ?n node "ts_nodes s"] by auto
  then show ?thesis using True nc t(2) e(2) by (simp add: push_buf_def numeral_3_eq_3)
next
  case False
  have "\<exists>s1. try_push_buf s t buf = (Inr True, s1)"
  proof (cases "ts_nodes s")
    case Nil
    then show ?thesis using False by (simp add: try_push_buf_def)
  next
    case (Cons h ns)
    have "al_len (ts_data h) + e \<le> al_capacity (ts_data h)"
      using False try_push_full [OF inv Cons, of buf t] e(2) by (meson not_le)
    from push_room [OF inv e(1,2) t(1) Cons this] show ?thesis .
  qed
  then obtain s1 where "try_push_buf s t buf = (Inr True, s1)" ..
  then have "push_buf None True s t buf = Some (Inr (), s1)" by (simp add: push_buf_def numeral_3_eq_3)
  then show ?thesis by blast
qed

text \<open>Elements of at least eight bytes are always accepted when the file system does its
  part: the head has room, or a new node is created and takes the sample.\<close>

theorem push_buf_accepts:
  assumes "ts_inv e s" "8 \<le> e" "length buf = e" "e \<le> node_size + 1 - node_hdr" "i64_range t" "t \<notin> set (ts_dirs s)"
  shows "\<exists>s'. push_buf None True s t buf = Some (Inr (), s')"
  using assms by (rule push_accepts)

section \<open>Small elements\<close>

text \<open>Pushing one sample after the other.\<close>

fun push_all :: "time_series \<Rightarrow> (int \<times> byte list) list \<Rightarrow> time_series option" where
  "push_all s [] = Some s"
| "push_all s (x # xs) =
     (case push_buf None True s (fst x) (snd x) of
        None \<Rightarrow> None
      | Some (r, s') \<Rightarrow> if isl r then None else push_all s' xs)"

lemma push_all_append: "push_all s (xs @ ys) = Option.bind (push_all s xs) (\<lambda>s'. push_all s' ys)"
  by (induction xs arbitrary: s) (simp_all split: option.split prod.split)

text \<open>The entries that fit the index of one node.\<close>

definition index_slots :: nat where
  "index_slots = (node_size + 1 - node_hdr) div 8"

lemma index_slots_value: "index_slots = 4194301" "node_size + 1 - node_hdr = 33554409"
  by (simp_all add: index_slots_def node_size_def node_hdr_def)

lemma push_all_one_node:
  assumes "0 < e" "e < 8" "xs \<noteq> []" "length xs \<le> index_slots" "\<forall>(t, b) \<in> set xs. i64_range t \<and> length b = e"
  shows "\<exists>s h. push_all ts_create xs = Some s \<and> ts_inv e s \<and> ts_nodes s = [h] \<and>
    al_len (ts_index h) = 8 * length xs \<and> al_capacity (ts_data h) = node_size + 1 - node_hdr \<and> ts_samples e s = xs"
  using assms(3-5)
proof (induction xs rule: rev_induct)
  case Nil
  then show ?case by simp
next
  case (snoc x xs)
  obtain t b where x: "x = (t, b)" by force
  with snoc.prems have tb: "i64_range t" "length b = e" by auto
  show ?case
  proof (cases "xs = []")
    case True
    obtain node where nc: "node_create None False t e = Inr node"
      by (simp add: node_create_def al_with_size_def)
    note n = node_create_ok [OF nc]
    let ?n = "ts_create\<lparr>ts_dirs := [t], ts_nodes := [node]\<rparr>"
    have i: "ts_inv e ?n" using n(1) by (simp add: ts_inv_def)
    have cap: "al_len (ts_data node) + e \<le> al_capacity (ts_data node)"
      "al_len (ts_index node) + 8 \<le> al_capacity (ts_index node)"
      using n(1,3,4,5) assms(2) index_slots_value(2) by (simp_all add: node_ok_def)
    from try_push_fits [OF i _ tb(2,1) cap, of "[]"] obtain h where
      h: "try_push_buf ?n t b = (Inr True, ?n\<lparr>ts_nodes := [h]\<rparr>)" "node_ok e h" "node_samples e h = node_samples e node @ [(t, b)]"
      "al_capacity (ts_data h) = al_capacity (ts_data node)" "al_len (ts_index h) = al_len (ts_index node) + 8"
      by auto
    have "try_push_buf ts_create t b = (Inr False, ts_create)" "ts_dirs ts_create = []" "ts_nodes ts_create = []"
      by (simp_all add: try_push_buf_def ts_create_def)
    then have "push_buf None True ts_create t b = Some (Inr (), ?n\<lparr>ts_nodes := [h]\<rparr>)"
      using h(1) nc tb(2) by (simp add: push_buf_def numeral_3_eq_3)
    then show ?thesis
      using True x h n by (simp add: ts_inv_def ts_samples_def)
  next
    case False
    with snoc obtain s h where s: "push_all ts_create xs = Some s" "ts_inv e s" "ts_nodes s = [h]"
      "al_len (ts_index h) = 8 * length xs" "al_capacity (ts_data h) = node_size + 1 - node_hdr" "ts_samples e s = xs"
      by auto
    have h: "node_ok e h" using s(2,3) by (simp add: ts_inv_def)
    have le: "length xs + 1 \<le> index_slots" using snoc.prems(2) by simp
    have ri: "al_len (ts_index h) + 8 \<le> al_capacity (ts_index h)"
      using le s(4,5) h index_slots_value by (simp add: node_ok_def)
    have "e * (length xs + 1) \<le> 8 * (length xs + 1)" using assms(2) by (intro mult_le_mono1) simp
    then have rd: "al_len (ts_data h) + e \<le> al_capacity (ts_data h)"
      using ri h s(4) by (simp add: node_ok_def algebra_simps)
    from try_push_fits [OF s(2,3) tb(2,1) rd ri] obtain h' where
      h': "try_push_buf s t b = (Inr True, s\<lparr>ts_nodes := [h']\<rparr>)" "node_ok e h'" "node_samples e h' = node_samples e h @ [(t, b)]"
      "al_capacity (ts_data h') = al_capacity (ts_data h)" "al_len (ts_index h') = al_len (ts_index h) + 8" by auto
    have "push_buf None True s t b = Some (Inr (), s\<lparr>ts_nodes := [h']\<rparr>)"
      using h'(1) by (simp add: push_buf_def numeral_3_eq_3)
    then show ?thesis
      using s h' x by (simp add: push_all_append ts_inv_def ts_samples_def)
  qed
qed

text \<open>Elements of less than eight bytes stop being recorded once the index of the node is
  full: the data log still has room, so no new node is created, and every further push fails
  with \<open>MapOverflow\<close> after its data has been written.\<close>

theorem small_elements_stall:
  assumes "0 < e" "e < 8" "length xs = index_slots" "\<forall>(t, b) \<in> set xs. i64_range t \<and> length b = e" "length buf = e"
  shows "\<exists>s s'. push_all ts_create xs = Some s \<and> push_buf None True s t buf = Some (Inl MapOverflow, s') \<and>
    al_len (ts_data (hd (ts_nodes s'))) = al_len (ts_data (hd (ts_nodes s))) + e \<and> ts_samples e s' = xs"
proof -
  have "xs \<noteq> []" using assms(3) index_slots_value by auto
  from push_all_one_node [OF assms(1,2) this _ assms(4)] assms(3) obtain s h where
    s: "push_all ts_create xs = Some s" "ts_inv e s" "ts_nodes s = [h]" "al_len (ts_index h) = 8 * length xs"
    "al_capacity (ts_data h) = node_size + 1 - node_hdr" "ts_samples e s = xs" by auto
  have h: "node_ok e h" using s(2,3) by (simp add: ts_inv_def)
  have ri: "al_capacity (ts_index h) < al_len (ts_index h) + 8"
    using h s(4,5) assms(3) index_slots_value by (simp add: node_ok_def)
  have "e * (length xs + 1) \<le> 7 * (length xs + 1)" using assms(2) by (intro mult_le_mono1) simp
  then have rd: "al_len (ts_data h) + length buf \<le> al_capacity (ts_data h)"
    using h s(4,5) assms(3,5) index_slots_value by (simp add: node_ok_def algebra_simps)
  from try_push_index_full [OF s(2,3) rd ri, of t] obtain data where
    p: "try_push_buf s t buf = (Inl MapOverflow, s\<lparr>ts_nodes := [h\<lparr>ts_data := data\<rparr>]\<rparr>)"
    "al_len data = al_len (ts_data h) + length buf" "node_samples e (h\<lparr>ts_data := data\<rparr>) = node_samples e h" by auto
  have "push_buf None True s t buf = Some (Inl MapOverflow, s\<lparr>ts_nodes := [h\<lparr>ts_data := data\<rparr>]\<rparr>)"
    using p(1) by (simp add: push_buf_def numeral_3_eq_3)
  then show ?thesis using s p assms(5) by (intro exI conjI) (assumption | simp add: ts_samples_def)+
qed

section \<open>Lookups\<close>

definition nodes_sorted :: "time_series \<Rightarrow> bool" where
  "nodes_sorted s \<longleftrightarrow> (\<forall>n \<in> set (ts_nodes s). sorted (i64_elems (al_data (ts_index n))))"

lemma node_at_suffix: "ts_nodes s = pre @ n # ns \<Longrightarrow> node_at s (length ns) = n"
  by (simp add: node_at_def nth_append)

lemma ts_get_loop_spec:
  assumes "ts_inv e s" "nodes_sorted s" "ts_nodes s = pre @ ns"
  shows "(\<exists>r b. ts_get_loop ns t = Some (Some r) \<and> (t, b) \<in> set (concat (map (node_samples e) ns)) \<and>
             tr_timestamp r = t \<and> ref_data s r = Some b) \<or>
         (ts_get_loop ns t = Some None \<and> (\<forall>b. (t, b) \<notin> set (concat (map (node_samples e) ns))))"
  using assms(3)
proof (induction ns arbitrary: pre)
  case Nil
  then show ?case by simp
next
  case (Cons n ns)
  have n: "node_ok e n" using assms(1) Cons.prems by (simp add: ts_inv_def)
  have srt: "sorted (i64_elems (al_data (ts_index n)))" using assms(2) Cons.prems by (simp add: nodes_sorted_def)
  note tsn = node_timestamps [OF n]
  have at: "node_at s (length ns) = n" using Cons.prems by (rule node_at_suffix)
  have es: "element_size n = e" using n by (simp add: node_ok_def)
  show ?case
  proof (cases "binary_search (i64_elems (al_data (ts_index n))) t")
    case (Inl i)
    from bs.search_ok [OF this] have i: "i < al_len (ts_index n) div 8" "i64_elems (al_data (ts_index n)) ! i = t"
      using n by (simp_all add: node_ok_def)
    note smp = node_sample [OF n i(1)]
    have "(t, snd (node_samples e n ! i)) = node_samples e n ! i" using smp(2) i(2) by (metis prod.collapse)
    also have "\<dots> \<in> set (node_samples e n)" using i(1) tsn(3) by (intro nth_mem) simp
    finally have mem: "(t, snd (node_samples e n ! i)) \<in> set (node_samples e n)" .
    have "ts_get_loop (n # ns) t = Some (Some \<lparr>tr_node = length ns, tr_timestamp = t, tr_index = i\<rparr>)"
      using Inl tsn(1) smp(1) es by (simp add: Let_def)
    moreover have "ref_data s \<lparr>tr_node = length ns, tr_timestamp = t, tr_index = i\<rparr> = Some (snd (node_samples e n ! i))"
      using at es smp(1) by (simp add: ref_data_def Let_def add.commute)
    ultimately show ?thesis using mem by (intro disjI1 exI) auto
  next
    case (Inr i)
    have nin: "t \<notin> set (i64_elems (al_data (ts_index n)))"
      using bs.search_found_iff [OF srt, of t] Inr by simp
    have here: "(t, b) \<notin> set (node_samples e n)" for b
    proof
      assume "(t, b) \<in> set (node_samples e n)"
      then have "t \<in> set (map fst (node_samples e n))" by force
      with nin tsn(2) show False by simp
    qed
    have "ts_get_loop (n # ns) t = ts_get_loop ns t" using Inr tsn(1) by simp
    with Cons.IH [of "pre @ [n]"] Cons.prems here show ?thesis by auto
  qed
qed

text \<open>C30. \<open>get\<close> finds a sample exactly when one with that timestamp was recorded, in any node,
  never panics, and the reference reads back that sample's bytes.\<close>

theorem ts_get_correct:
  assumes "ts_inv e s" "nodes_sorted s"
  shows "(\<exists>r b. ts_get s t = Some (Some r) \<and> (t, b) \<in> set (ts_samples e s) \<and> tr_timestamp r = t \<and> ref_data s r = Some b) \<or>
    (ts_get s t = Some None \<and> (\<forall>b. (t, b) \<notin> set (ts_samples e s)))"
proof -
  have "set (ts_samples e s) = set (concat (map (node_samples e) (ts_nodes s)))" by (simp add: ts_samples_def)
  with ts_get_loop_spec [OF assms, of "[]" "ts_nodes s" t] show ?thesis by (simp only: ts_get_def append_Nil simp_thms)
qed

text \<open>\<open>latest\<close> is the last sample pushed, provided the newest node has one.\<close>

theorem ts_latest_is_last:
  assumes "ts_inv e s" "ts_nodes s = h # ns" "node_samples e h \<noteq> []"
  shows "\<exists>r. ts_latest s = Some (Some r) \<and> tr_timestamp r = fst (last (ts_samples e s)) \<and>
    ref_data s r = Some (snd (last (ts_samples e s)))"
proof -
  have h: "node_ok e h" using assms(1,2) by (simp add: ts_inv_def)
  note tsn = node_timestamps [OF h]
  let ?k = "al_len (ts_index h) div 8"
  have k: "0 < ?k" using assms(3) tsn(3) by (metis length_greater_0_conv)
  have "last (ts_samples e s) = last (node_samples e h)" using assms(2,3) by (simp add: ts_samples_def)
  then have l: "last (ts_samples e s) = node_samples e h ! (?k - 1)"
    using assms(3) tsn(3) by (simp add: last_conv_nth)
  have ne: "length (i64_elems (al_data (ts_index h))) = ?k" using h by (simp add: node_ok_def)
  have i: "?k - 1 < ?k" using k by simp
  note smp = node_sample [OF h i]
  have at: "node_at s (length ns) = h" using assms(2) node_at_suffix [of s "[]"] by simp
  have es: "element_size h = e" using h by (simp add: node_ok_def)
  have "i64_elems (al_data (ts_index h)) \<noteq> []" using ne k by (metis less_numeral_extra(3) list.size(3))
  then have "ts_latest s = Some (Some \<lparr>tr_node = length ns, tr_timestamp = i64_elems (al_data (ts_index h)) ! (?k - 1), tr_index = ?k - 1\<rparr>)"
    using ne by (simp add: ts_latest_def assms(2) tsn(1))
  moreover have "ref_data s \<lparr>tr_node = length ns, tr_timestamp = x, tr_index = ?k - 1\<rparr> = Some (snd (node_samples e h ! (?k - 1)))" for x
    using at es smp(1) by (simp add: ref_data_def Let_def add.commute)
  ultimately show ?thesis using l smp(2) by simp
qed

section \<open>Ranges\<close>

text \<open>In a strictly increasing list, the positions of the elements in a closed interval.\<close>

lemma sorted_slice_filter:
  fixes f :: "'a \<Rightarrow> int"
  assumes "i \<le> length xs" "j \<le> length xs" "i \<le> j"
    and "\<forall>k < i. f (xs ! k) < a" "\<forall>k. i \<le> k \<longrightarrow> k < length xs \<longrightarrow> a \<le> f (xs ! k)"
    and "\<forall>k < j. f (xs ! k) \<le> b" "\<forall>k. j \<le> k \<longrightarrow> k < length xs \<longrightarrow> b < f (xs ! k)"
  shows "slice i j xs = filter (\<lambda>x. a \<le> f x \<and> f x \<le> b) xs"
proof -
  have split: "xs = take i xs @ slice i j xs @ drop j xs"
    using assms(3) by (simp add: slice_def) (metis append_take_drop_id drop_drop le_add_diff_inverse2)
  have 1: "filter (\<lambda>x. a \<le> f x \<and> f x \<le> b) (take i xs) = []"
    using assms(4) by (auto simp: filter_empty_conv in_set_conv_nth) (metis not_less)
  have 2: "filter (\<lambda>x. a \<le> f x \<and> f x \<le> b) (drop j xs) = []"
    using assms(7) by (auto simp: filter_empty_conv in_set_conv_nth) (metis add.commute le_add2 less_diff_conv not_less)
  have "\<forall>x \<in> set (slice i j xs). a \<le> f x \<and> f x \<le> b"
  proof
    fix x assume "x \<in> set (slice i j xs)"
    then obtain k where k: "k < j - i" "x = slice i j xs ! k" by (auto simp: in_set_conv_nth length_slice assms(2))
    then have "x = xs ! (i + k)" using assms(2) by (simp add: slice_nth)
    moreover have "i + k < j" "i + k < length xs" using k(1) assms(2) by simp_all
    ultimately show "a \<le> f x \<and> f x \<le> b" using assms(5,6) by simp
  qed
  then have 3: "filter (\<lambda>x. a \<le> f x \<and> f x \<le> b) (slice i j xs) = slice i j xs" by (simp add: filter_id_conv)
  have "filter (\<lambda>x. a \<le> f x \<and> f x \<le> b) xs = slice i j xs"
    by (subst split) (simp only: filter_append 1 2 3 append_Nil append_Nil2)
  then show ?thesis ..
qed

text \<open>The two searches of a range query in one node.\<close>

definition range_start :: "int list \<Rightarrow> int \<Rightarrow> nat" where
  "range_start xs a = (if last xs < a then length xs else if a < hd xs then 0
     else case binary_search xs a of Inl i \<Rightarrow> i | Inr i \<Rightarrow> i)"

definition range_end :: "int list \<Rightarrow> int \<Rightarrow> nat" where
  "range_end xs b = (if last xs < b then length xs - 1 else case binary_search xs b of Inl i \<Rightarrow> i | Inr i \<Rightarrow> i - 1)"

lemma range_start_spec:
  assumes s: "sorted_wrt (<) xs" and ne: "xs \<noteq> []"
  shows "range_start xs a \<le> length xs" "\<forall>k < range_start xs a. xs ! k < a"
    "\<forall>k. range_start xs a \<le> k \<longrightarrow> k < length xs \<longrightarrow> a \<le> xs ! k"
proof -
  have so: "sorted xs" using s by (simp add: strict_sorted_imp_sorted)
  have "range_start xs a \<le> length xs \<and> (\<forall>k < range_start xs a. xs ! k < a) \<and>
    (\<forall>k. range_start xs a \<le> k \<longrightarrow> k < length xs \<longrightarrow> a \<le> xs ! k)"
  proof (cases "last xs < a")
    case True
    have "xs ! k < a" if "k < length xs" for k
    proof -
      have "xs ! k \<le> xs ! (length xs - 1)" using so that by (intro sorted_nth_mono) auto
      with True ne show ?thesis by (simp add: last_conv_nth)
    qed
    with True show ?thesis by (simp add: range_start_def)
  next
    case nl: False
    show ?thesis
    proof (cases "a < hd xs")
      case True
      have "a \<le> xs ! k" if "k < length xs" for k
      proof -
        have "xs ! 0 \<le> xs ! k" using so that by (intro sorted_nth_mono) auto
        with True ne show ?thesis by (simp add: hd_conv_nth)
      qed
      with True nl show ?thesis by (simp add: range_start_def)
    next
      case False
      show ?thesis
      proof (cases "binary_search xs a")
        case (Inl i)
        from bs.search_ok [OF Inl] have i: "i < length xs" "xs ! i = a" by auto
        have "xs ! k < a" if "k < i" for k using sorted_wrt_nth_less [OF s that i(1)] i(2) by simp
        moreover have "a \<le> xs ! k" if "i \<le> k" "k < length xs" for k using sorted_nth_mono [OF so that] i(2) by simp
        ultimately show ?thesis using nl False Inl i(1) by (simp add: range_start_def)
      next
        case (Inr i)
        from bs.search_err [OF so Inr] show ?thesis using nl False Inr by (auto simp: range_start_def less_imp_le)
      qed
    qed
  qed
  then show "range_start xs a \<le> length xs" "\<forall>k < range_start xs a. xs ! k < a"
    "\<forall>k. range_start xs a \<le> k \<longrightarrow> k < length xs \<longrightarrow> a \<le> xs ! k" by blast+
qed

lemma range_end_spec:
  assumes s: "sorted_wrt (<) xs" and ne: "xs \<noteq> []" and b: "hd xs \<le> b"
  shows "range_end xs b < length xs" "\<forall>k < range_end xs b + 1. xs ! k \<le> b"
    "\<forall>k. range_end xs b + 1 \<le> k \<longrightarrow> k < length xs \<longrightarrow> b < xs ! k"
proof -
  have so: "sorted xs" using s by (simp add: strict_sorted_imp_sorted)
  have "range_end xs b < length xs \<and> (\<forall>k < range_end xs b + 1. xs ! k \<le> b) \<and>
    (\<forall>k. range_end xs b + 1 \<le> k \<longrightarrow> k < length xs \<longrightarrow> b < xs ! k)"
  proof (cases "last xs < b")
    case True
    have "xs ! k \<le> b" if "k < length xs" for k
    proof -
      have "xs ! k \<le> xs ! (length xs - 1)" using so that by (intro sorted_nth_mono) auto
      with True ne show ?thesis by (simp add: last_conv_nth)
    qed
    with True ne show ?thesis by (simp add: range_end_def)
  next
    case nl: False
    show ?thesis
    proof (cases "binary_search xs b")
      case (Inl i)
      from bs.search_ok [OF Inl] have i: "i < length xs" "xs ! i = b" by auto
      have "xs ! k \<le> b" if "k < i + 1" for k using sorted_nth_mono [OF so, of k i] that i by simp
      moreover have "b < xs ! k" if "i + 1 \<le> k" "k < length xs" for k
        using sorted_wrt_nth_less [OF s, of i k] that i(2) by simp
      ultimately show ?thesis using nl Inl i(1) by (simp add: range_end_def)
    next
      case (Inr i)
      note e = bs.search_err [OF so Inr]
      have "0 < i" using e b ne by (cases i) (auto simp: hd_conv_nth)
      then show ?thesis using nl Inr e by (auto simp: range_end_def less_imp_le)
    qed
  qed
  then show "range_end xs b < length xs" "\<forall>k < range_end xs b + 1. xs ! k \<le> b"
    "\<forall>k. range_end xs b + 1 \<le> k \<longrightarrow> k < length xs \<longrightarrow> b < xs ! k" by blast+
qed

lemma nearest_one_node:
  assumes "sorted_wrt (<) xs" "xs \<noteq> []"
  shows "\<exists>t. nearest_loop [Some xs] a False None = Some (Some \<lparr>tr_node = 0, tr_timestamp = t, tr_index = range_start xs a\<rparr>)"
    "hd xs \<le> b \<Longrightarrow> \<exists>t. nearest_loop [Some xs] b True None = Some (Some \<lparr>tr_node = 0, tr_timestamp = t, tr_index = range_end xs b\<rparr>)"
proof -
  note st = range_start_spec [OF assms, of a]
  have "range_start xs a < length xs \<or> last xs < a"
  proof (rule ccontr)
    assume c: "\<not> ?thesis"
    with st have "\<forall>k < length xs. xs ! k < a" by simp
    with c assms(2) show False by (simp add: last_conv_nth)
  qed
  then show "\<exists>t. nearest_loop [Some xs] a False None = Some (Some \<lparr>tr_node = 0, tr_timestamp = t, tr_index = range_start xs a\<rparr>)"
    using assms(2) by (cases "last xs < a"; cases "a < hd xs") (auto simp: range_start_def get_index_def Let_def split: sum.splits)
  assume b: "hd xs \<le> b"
  note en = range_end_spec [OF assms b]
  then show "\<exists>t. nearest_loop [Some xs] b True None = Some (Some \<lparr>tr_node = 0, tr_timestamp = t, tr_index = range_end xs b\<rparr>)"
    using assms(2) b by (cases "last xs < b") (auto simp: range_end_def get_index_def Let_def split: sum.splits)
qed

text \<open>The searches for both ends of a range, and what lies between them.\<close>

lemma range_search:
  fixes f :: "'a \<Rightarrow> int"
  assumes ts: "sorted_wrt (<) xs" and ne: "xs \<noteq> []" and ab: "a \<le> b" and hb: "hd xs \<le> b"
  shows "\<exists>t1 t2 i j. nearest_loop [Some xs] a False None = Some (Some \<lparr>tr_node = 0, tr_timestamp = t1, tr_index = i\<rparr>) \<and>
    nearest_loop [Some xs] b True None = Some (Some \<lparr>tr_node = 0, tr_timestamp = t2, tr_index = j\<rparr>) \<and>
    i \<le> j + 1 \<and> j < length xs \<and> (\<forall>ys. map f ys = xs \<longrightarrow> slice i (j + 1) ys = filter (\<lambda>y. a \<le> f y \<and> f y \<le> b) ys)"
proof -
  let ?i = "range_start xs a" and ?j = "range_end xs b"
  note sp = range_start_spec [OF ts ne, of a] and ep = range_end_spec [OF ts ne hb]
  have ij: "?i \<le> ?j + 1"
  proof (rule ccontr)
    assume "\<not> ?thesis"
    then have lt: "?j + 1 < ?i" by simp
    then have "xs ! (?j + 1) < a" using sp(2) by blast
    moreover have "b < xs ! (?j + 1)" using ep(3) lt sp(1) by simp
    ultimately show False using ab by simp
  qed
  have "slice ?i (?j + 1) ys = filter (\<lambda>y. a \<le> f y \<and> f y \<le> b) ys" if "map f ys = xs" for ys
    by (rule sorted_slice_filter) (use sp ep ij that in \<open>auto simp: nth_map\<close>)
  then show ?thesis using nearest_one_node [OF ts ne] hb ij ep(1) by blast
qed

lemma range_one_node:
  assumes inv: "ts_inv e s" and one: "ts_nodes s = [n]" and srt: "sorted_wrt (<) (map fst (node_samples e n))"
    and ne: "node_samples e n \<noteq> []" and ab: "a \<le> b" and b: "fst (hd (node_samples e n)) \<le> b"
  shows "\<exists>r1 r2 i j. get_ts_range s a b = Some (Some (r1, r2)) \<and> as_iter s r1 r2 = Some [\<lparr>ns_node = n, ns_start = i, ns_end = j\<rparr>] \<and>
    i \<le> j + 1 \<and> j < length (node_samples e n) \<and>
    slice i (j + 1) (node_samples e n) = filter (\<lambda>x. a \<le> fst x \<and> fst x \<le> b) (node_samples e n)"
proof -
  let ?xs = "i64_elems (al_data (ts_index n))"
  have n: "node_ok e n" using inv one by (simp add: ts_inv_def)
  note tn = node_timestamps [OF n]
  have xs: "sorted_wrt (<) ?xs" "?xs \<noteq> []" "hd ?xs \<le> b" using srt ne b tn(2) by (metis, metis map_is_Nil_conv, metis hd_map)
  obtain t1 t2 i j where s: "nearest_loop [Some ?xs] a False None = Some (Some \<lparr>tr_node = 0, tr_timestamp = t1, tr_index = i\<rparr>)"
    and e: "nearest_loop [Some ?xs] b True None = Some (Some \<lparr>tr_node = 0, tr_timestamp = t2, tr_index = j\<rparr>)"
    and ij: "i \<le> j + 1" "j < length ?xs"
    and f: "\<forall>ys. map fst ys = ?xs \<longrightarrow> slice i (j + 1) ys = filter (\<lambda>y. a \<le> fst y \<and> fst y \<le> b) (ys :: (int \<times> byte list) list)"
    using range_search [OF xs(1,2) ab xs(3), of "fst :: int \<times> byte list \<Rightarrow> int"] by blast
  let ?r1 = "\<lparr>tr_node = 0, tr_timestamp = t1, tr_index = i\<rparr>" and ?r2 = "\<lparr>tr_node = 0, tr_timestamp = t2, tr_index = j\<rparr>"
  have "get_ts_range s a b = Some (Some (?r1, ?r2))"
    using s e tn(1) by (simp add: get_ts_range_def binary_search_nearest_def one del: nearest_loop.simps)
  moreover have "as_iter s ?r1 ?r2 = Some [\<lparr>ns_node = n, ns_start = i, ns_end = j\<rparr>]" using tn(1) by (simp add: as_iter_def one)
  moreover have "slice i (j + 1) (node_samples e n) = filter (\<lambda>x. a \<le> fst x \<and> fst x \<le> b) (node_samples e n)" using f tn(2) by blast
  moreover have "j < length (node_samples e n)" using ij(2) tn(2) by (metis length_map)
  ultimately show ?thesis using ij(1) by blast
qed

lemma slice_map: "slice i j (map f xs) = map f (slice i j xs)"
  by (simp add: slice_def take_map drop_map)

text \<open>On a series of one node with strictly increasing timestamps a range query yields
  exactly the samples between the two bounds, both included, whatever the bounds, as long as
  the upper one is not before the first sample.\<close>

theorem get_range_one_node:
  assumes inv: "ts_inv e s" and one: "ts_nodes s = [n]" and srt: "sorted_wrt (<) (map fst (node_samples e n))"
    and ne: "node_samples e n \<noteq> []" and ab: "a \<le> b" and b: "fst (hd (node_samples e n)) \<le> b"
  shows "\<exists>r1 r2 sl. get_ts_range s a b = Some (Some (r1, r2)) \<and> as_iter s r1 r2 = Some [sl] \<and>
    slice_timestamps sl = Some (filter (\<lambda>t. a \<le> t \<and> t \<le> b) (map fst (ts_samples e s)))"
proof -
  from range_one_node [OF inv one srt ne ab b] obtain r1 r2 i j where
    r: "get_ts_range s a b = Some (Some (r1, r2))" "as_iter s r1 r2 = Some [\<lparr>ns_node = n, ns_start = i, ns_end = j\<rparr>]"
    and ij: "i \<le> j + 1" "j < length (node_samples e n)"
    and f: "slice i (j + 1) (node_samples e n) = filter (\<lambda>x. a \<le> fst x \<and> fst x \<le> b) (node_samples e n)" by blast
  have n: "node_ok e n" using inv one by (simp add: ts_inv_def)
  have "slice_timestamps \<lparr>ns_node = n, ns_start = i, ns_end = j\<rparr> = Some (slice i (j + 1) (map fst (node_samples e n)))"
    using node_timestamps(1) [OF n] ij node_timestamps(3) [OF n]
    by (simp add: slice_timestamps_def get_inclusive_def get_range_def flip: node_timestamps(2) [OF n])
  also have "\<dots> = Some (filter (\<lambda>t. a \<le> t \<and> t \<le> b) (map fst (ts_samples e s)))"
    unfolding slice_map f using one by (simp add: ts_samples_def filter_map comp_def)
  finally show ?thesis using r by blast
qed

lemma as_iter_older:
  assumes "\<forall>n \<in> set ns. node_ok e n" "length ns \<le> tr_node r1" "length ns \<le> tr_node r2"
  shows "as_iter_loop ns r1 r2 =
    Some (map (\<lambda>n. \<lparr>ns_node = n, ns_start = 0, ns_end = length (node_samples e n) - 1\<rparr>) ns)"
  using assms
proof (induction ns)
  case Nil
  then show ?case by simp
next
  case (Cons n ns)
  have n: "node_ok e n" using Cons.prems(1) by simp
  then have "length (i64_elems (al_data (ts_index n))) = length (node_samples e n)"
    using node_timestamps(2) [OF n] by (metis length_map)
  with Cons node_timestamps(1) [OF n] show ?case by simp
qed

text \<open>With more than one node, a range that lies inside the newest node is answered with
  its part of that node and then with every older node in full, although none of their samples
  is in the range: the iterator starts at the start node and walks to older nodes, past the
  end.\<close>

theorem get_range_returns_older_nodes:
  assumes inv: "ts_inv e s" and nodes: "ts_nodes s = n # older" and srt: "sorted_wrt (<) (map fst (node_samples e n))"
    and ne: "node_samples e n \<noteq> []" and range: "fst (hd (node_samples e n)) \<le> a" "a \<le> b" "b \<le> fst (last (node_samples e n))"
  shows "\<exists>r1 r2 i j. get_ts_range s a b = Some (Some (r1, r2)) \<and>
    as_iter s r1 r2 = Some (\<lparr>ns_node = n, ns_start = i, ns_end = j\<rparr> #
      map (\<lambda>m. \<lparr>ns_node = m, ns_start = 0, ns_end = length (node_samples e m) - 1\<rparr>) older)"
proof -
  let ?xs = "i64_elems (al_data (ts_index n))"
  have n: "node_ok e n" and old: "\<forall>m \<in> set older. node_ok e m" using inv nodes by (simp_all add: ts_inv_def)
  note tn = node_timestamps [OF n]
  have ts: "sorted_wrt (<) ?xs" using srt tn(2) by simp
  have xne: "?xs \<noteq> []" using ne tn(2) by (metis map_is_Nil_conv)
  have bounds: "hd ?xs \<le> a" "b \<le> last ?xs" using range ne tn(2) by (metis hd_map last_map)+
  have so: "sorted ?xs" using ts by (simp add: strict_sorted_imp_sorted)
  have near: "\<exists>i t'. nearest_loop (Some ?xs # map timestamps older) t inc None = Some (Some \<lparr>tr_node = length older, tr_timestamp = t', tr_index = i\<rparr>)"
    if t: "hd ?xs \<le> t" "t \<le> last ?xs" for t inc
  proof -
    let ?i = "case binary_search ?xs t of Inl i \<Rightarrow> i | Inr i \<Rightarrow> i - of_bool inc"
    have "?i < length ?xs"
    proof (cases "binary_search ?xs t")
      case (Inl i)
      then show ?thesis using bs.search_ok [OF Inl] by simp
    next
      case (Inr i)
      note e = bs.search_err [OF so Inr]
      have "i \<noteq> length ?xs"
      proof
        assume "i = length ?xs"
        with e have all: "\<forall>j < length ?xs. ?xs ! j < t" by blast
        have "length ?xs - 1 < length ?xs" using xne by (metis diff_less length_greater_0_conv zero_less_one)
        with all have "?xs ! (length ?xs - 1) < t" by blast
        with t(2) xne show False by (simp add: last_conv_nth del: length_i64_elems)
      qed
      with e have "i < length ?xs" by linarith
      then show ?thesis using Inr le_less_trans [OF diff_le_self] by (simp del: length_i64_elems)
    qed
    then show ?thesis using xne t by (auto simp: get_index_def Let_def)
  qed
  have "hd ?xs \<le> b" "a \<le> last ?xs" using bounds range(2) by simp_all
  with near [of a False] near [of b True] bounds obtain i t1 j t2 where
    st: "nearest_loop (Some ?xs # map timestamps older) a False None = Some (Some \<lparr>tr_node = length older, tr_timestamp = t1, tr_index = i\<rparr>)" and
    en: "nearest_loop (Some ?xs # map timestamps older) b True None = Some (Some \<lparr>tr_node = length older, tr_timestamp = t2, tr_index = j\<rparr>)"
    by blast
  let ?r1 = "\<lparr>tr_node = length older, tr_timestamp = t1, tr_index = i\<rparr>" and ?r2 = "\<lparr>tr_node = length older, tr_timestamp = t2, tr_index = j\<rparr>"
  have "get_ts_range s a b = Some (Some (?r1, ?r2))"
    using st en tn(1) by (simp add: get_ts_range_def binary_search_nearest_def nodes del: nearest_loop.simps)
  moreover have "as_iter s ?r1 ?r2 = Some (\<lparr>ns_node = n, ns_start = i, ns_end = j\<rparr> #
      map (\<lambda>m. \<lparr>ns_node = m, ns_start = 0, ns_end = length (node_samples e m) - 1\<rparr>) older)"
    using as_iter_older [OF old, of ?r1 ?r2] tn(1) by (simp add: as_iter_def nodes)
  ultimately show ?thesis by blast
qed

section \<open>Concrete series\<close>

definition sample_node :: "int list \<Rightarrow> byte list list \<Rightarrow> ts_node" where
  "sample_node ts bufs = \<lparr>ts_index = sample_log 0 (concat (map i64_to_le ts)), ts_data = sample_log 8 (concat bufs)\<rparr>"

definition sample_series :: "time_series" where
  "sample_series = \<lparr>ts_nodes = [sample_node [30, 40] [[1, 1, 1, 1, 1, 1, 1, 1], [2, 2, 2, 2, 2, 2, 2, 2]]],
     ts_dirs = [30], ts_has_writer = False\<rparr>"

definition sample_series2 :: "time_series" where
  "sample_series2 = \<lparr>ts_nodes = [sample_node [30, 40] [[1, 1, 1, 1, 1, 1, 1, 1], [2, 2, 2, 2, 2, 2, 2, 2]],
       sample_node [10, 20] [[3, 3, 3, 3, 3, 3, 3, 3], [4, 4, 4, 4, 4, 4, 4, 4]]],
     ts_dirs = [30, 10], ts_has_writer = False\<rparr>"

lemma sample_node_facts:
  assumes "length ts = length bufs" "\<forall>b \<in> set bufs. length b = 8" "\<forall>t \<in> set ts. i64_range t" "length ts < 2 ^ 58"
  shows "node_ok 8 (sample_node ts bufs)" "map fst (node_samples 8 (sample_node ts bufs)) = ts"
proof -
  have l: "length (concat (map i64_to_le ts)) = 8 * length ts" by (induction ts) auto
  have m: "length (concat bufs) = 8 * length bufs" using assms(2) by (induction bufs) auto
  show ok: "node_ok 8 (sample_node ts bufs)"
    using assms l m by (simp add: node_ok_def sample_node_def element_size_def)
  show "map fst (node_samples 8 (sample_node ts bufs)) = ts"
    using node_timestamps(2) [OF ok] assms(3) by (simp add: sample_node_def i64_elems_concat)
qed

lemma sample_series_facts:
  "ts_inv 8 sample_series" "ts_inv 8 sample_series2" "nodes_sorted sample_series2"
  "map fst (node_samples 8 (hd (ts_nodes sample_series2))) = [30, 40]"
  "ts_nodes sample_series = [hd (ts_nodes sample_series2)]"
  "ts_nodes sample_series2 = [hd (ts_nodes sample_series2), sample_node [10, 20] [[3, 3, 3, 3, 3, 3, 3, 3], [4, 4, 4, 4, 4, 4, 4, 4]]]"
proof -
  have r: "i64_range 10" "i64_range 20" "i64_range 30" "i64_range 40" by (simp_all add: i64_range_def)
  have n1: "node_ok 8 (sample_node [30, 40] [[1, 1, 1, 1, 1, 1, 1, 1], [2, 2, 2, 2, 2, 2, 2, 2]])"
    "map fst (node_samples 8 (sample_node [30, 40] [[1, 1, 1, 1, 1, 1, 1, 1], [2, 2, 2, 2, 2, 2, 2, 2]])) = [30, 40]"
    by (rule sample_node_facts; use r in simp)+
  have n2: "node_ok 8 (sample_node [10, 20] [[3, 3, 3, 3, 3, 3, 3, 3], [4, 4, 4, 4, 4, 4, 4, 4]])"
    "map fst (node_samples 8 (sample_node [10, 20] [[3, 3, 3, 3, 3, 3, 3, 3], [4, 4, 4, 4, 4, 4, 4, 4]])) = [10, 20]"
    by (rule sample_node_facts; use r in simp)+
  show "ts_inv 8 sample_series" "ts_inv 8 sample_series2" using n1(1) n2(1)
    by (simp_all add: ts_inv_def sample_series_def sample_series2_def)
  have s: "sorted (i64_elems (al_data (ts_index (sample_node [30, 40] [[1, 1, 1, 1, 1, 1, 1, 1], [2, 2, 2, 2, 2, 2, 2, 2]]))))"
    "sorted (i64_elems (al_data (ts_index (sample_node [10, 20] [[3, 3, 3, 3, 3, 3, 3, 3], [4, 4, 4, 4, 4, 4, 4, 4]]))))"
    unfolding node_timestamps(2) [OF n1(1), symmetric] node_timestamps(2) [OF n2(1), symmetric] n1(2) n2(2) by simp_all
  then show "nodes_sorted sample_series2" by (simp add: nodes_sorted_def sample_series2_def)
  show "map fst (node_samples 8 (hd (ts_nodes sample_series2))) = [30, 40]" using n1(2) by (simp add: sample_series2_def)
  show "ts_nodes sample_series = [hd (ts_nodes sample_series2)]"
    "ts_nodes sample_series2 = [hd (ts_nodes sample_series2), sample_node [10, 20] [[3, 3, 3, 3, 3, 3, 3, 3], [4, 4, 4, 4, 4, 4, 4, 4]]]"
    by (simp_all add: sample_series_def sample_series2_def)
qed

lemma sample_series_heads:
  "node_samples 8 (hd (ts_nodes sample_series2)) \<noteq> []"
  "fst (hd (node_samples 8 (hd (ts_nodes sample_series2)))) = 30"
  "fst (last (node_samples 8 (hd (ts_nodes sample_series2)))) = 40"
proof -
  note m = sample_series_facts(4)
  show ne: "node_samples 8 (hd (ts_nodes sample_series2)) \<noteq> []" using m by auto
  show "fst (hd (node_samples 8 (hd (ts_nodes sample_series2)))) = 30" using m ne by (metis hd_map list.sel(1))
  show "fst (last (node_samples 8 (hd (ts_nodes sample_series2)))) = 40" using m ne by (metis last_map last.simps list.distinct(1))
qed

lemma push_buf_appends_witness:
  "\<exists>s'. push_buf None True sample_series 50 [5, 5, 5, 5, 5, 5, 5, 5] = Some (Inr (), s') \<and>
     ts_samples 8 s' = ts_samples 8 sample_series @ [(50, [5, 5, 5, 5, 5, 5, 5, 5])]"
proof -
  have r: "i64_range 50" by (simp add: i64_range_def)
  have d: "50 \<notin> set (ts_dirs sample_series)" by (simp add: sample_series_def)
  have "8 \<le> node_size + 1 - node_hdr" by (simp add: node_size_def node_hdr_def)
  from push_accepts [OF sample_series_facts(1) _ _ this r d, of "[5, 5, 5, 5, 5, 5, 5, 5]"] obtain s' where
    p: "push_buf None True sample_series 50 [5, 5, 5, 5, 5, 5, 5, 5] = Some (Inr (), s')" by auto
  from push_buf_appends [OF sample_series_facts(1) _ r p] p show ?thesis by auto
qed


lemma ts_get_correct_witness:
  "(\<exists>r b. ts_get sample_series2 20 = Some (Some r) \<and> (20, b) \<in> set (ts_samples 8 sample_series2) \<and> tr_timestamp r = 20 \<and> ref_data sample_series2 r = Some b) \<or>
    (ts_get sample_series2 20 = Some None \<and> (\<forall>b. (20, b) \<notin> set (ts_samples 8 sample_series2)))"
  by (rule ts_get_correct [OF sample_series_facts(2,3)])




end
