(* ===== verification/MsgLog.thy ===== *)
theory MsgLog
  imports TimeSeries Disruptor
begin

text \<open>
  Message logs (\<open>libs/db/src/msg_log_2.rs\<close>) and the length-prefixed buffers they store
  (\<open>UmbraBuf\<close> in \<open>libs/metor-proto/src/buf.rs\<close>).  A message goes to the write-ahead
  ring as a frame of timestamp, length and bytes; the persist task parses the frames and
  appends each message to the newest node: short messages inline in the 16-byte entry, long
  ones in the data log with their offset in the entry.  A panic is \<open>None\<close>.
\<close>

section \<open>Umbra buffers\<close>

record umbra_buf =
  ub_len :: u32
  ub_data :: "byte list"

definition with_inline :: "u32 \<Rightarrow> byte list \<Rightarrow> umbra_buf" where
  "with_inline len data = \<lparr>ub_len = len, ub_data = data\<rparr>"

text \<open>The offset variant of the union: prefix, the unused index, offset.\<close>

definition with_offset :: "u32 \<Rightarrow> byte list \<Rightarrow> u32 \<Rightarrow> umbra_buf" where
  "with_offset len prefix offset = \<lparr>ub_len = len, ub_data = prefix @ u32_to_le 0 @ u32_to_le offset\<rparr>"

definition data_offset :: "umbra_buf \<Rightarrow> u32" where
  "data_offset u = u32_of_le (slice 8 12 (ub_data u))"

definition umbra_offset :: "umbra_buf \<Rightarrow> u32 option" where
  "umbra_offset u = (if 12 \<le> ub_len u then Some (data_offset u) else None)"

definition umbra_bytes :: "umbra_buf \<Rightarrow> byte list" where
  "umbra_bytes u = u32_to_le (ub_len u) @ ub_data u"

definition umbra_of_bytes :: "byte list \<Rightarrow> umbra_buf" where
  "umbra_of_bytes bs = \<lparr>ub_len = u32_of_le (take 4 bs), ub_data = drop 4 bs\<rparr>"

section \<open>Buffer logs\<close>

record buf_log =
  bl_offsets :: "unit append_log"
  bl_data_log :: "unit append_log"

text \<open>The entries as an array of 16-byte elements, a panic if the length is not a multiple.\<close>

definition bl_bufs :: "buf_log \<Rightarrow> umbra_buf list option" where
  "bl_bufs l =
     (let bs = al_data (bl_offsets l)
      in if length bs mod 16 = 0
         then Some (map (\<lambda>i. umbra_of_bytes (slice (16 * i) (16 * i + 16) bs)) [0..<length bs div 16])
         else None)"

definition get_msg :: "buf_log \<Rightarrow> nat \<Rightarrow> byte list option option" where
  "get_msg l index =
     (case bl_bufs l of
        None \<Rightarrow> None
      | Some bufs \<Rightarrow>
          (case get_index bufs index of
             None \<Rightarrow> Some None
           | Some buf \<Rightarrow>
               (let len = unat (ub_len buf)
                in if len \<le> 12 then map_option Some (get_range (ub_data buf) 0 len)
                   else (let offset = unat (data_offset buf)
                         in Some (al_get (bl_data_log l) offset (offset + len))))))"

definition insert_msg :: "buf_log \<Rightarrow> byte list \<Rightarrow> ((db_error + unit) \<times> buf_log) option" where
  "insert_msg l msg =
     (let len = of_nat (length msg) :: u32;
          finish = (\<lambda>l buf. case al_write (bl_offsets l) (umbra_bytes buf) of
              Inl e \<Rightarrow> (Inl e, l)
            | Inr (_, offsets) \<Rightarrow> (Inr (), l\<lparr>bl_offsets := offsets\<rparr>))
      in if 12 < len
         then (case get_range msg 0 4 of
                 None \<Rightarrow> None
               | Some prefix \<Rightarrow>
                   (case al_write (bl_data_log l) msg of
                      Inl e \<Rightarrow> Some (Inl e, l)
                    | Inr (offset, data_log) \<Rightarrow>
                        Some (finish (l\<lparr>bl_data_log := data_log\<rparr>) (with_offset len prefix (of_nat offset)))))
         else if 12 < length msg then None
         else Some (finish l (with_inline len (splice 0 msg (replicate 12 0)))))"

section \<open>Nodes\<close>

record msg_node =
  mn_timestamps :: "unit append_log"
  mn_bufs :: buf_log

definition msg_hdr :: nat where
  "msg_hdr = 16"

definition msg_node_create :: "io_kind option \<Rightarrow> bool \<Rightarrow> db_error + msg_node" where
  "msg_node_create os taken =
     bind_result (al_create (if taken then Some AlreadyExists else os) msg_hdr ()) (\<lambda>timestamps.
     bind_result (al_create os msg_hdr ()) (\<lambda>offsets.
     bind_result (al_create os msg_hdr ()) (\<lambda>data_log.
     Inr \<lparr>mn_timestamps = timestamps, mn_bufs = \<lparr>bl_offsets = offsets, bl_data_log = data_log\<rparr>\<rparr>)))"

definition msg_timestamps :: "msg_node \<Rightarrow> int list option" where
  "msg_timestamps n = i64_view (al_data (mn_timestamps n))"

definition msg_count :: "msg_node \<Rightarrow> nat" where
  "msg_count n = al_len (mn_timestamps n) div 8"

text \<open>\<open>MsgLogNode::push\<close>: the check against the last timestamp, the message, the timestamp.\<close>

definition msg_node_push :: "msg_node \<Rightarrow> int \<Rightarrow> byte list \<Rightarrow> ((db_error + unit) \<times> msg_node) option" where
  "msg_node_push n timestamp msg =
     (let len = al_len (mn_timestamps n);
          go = (case insert_msg (mn_bufs n) msg of
              None \<Rightarrow> None
            | Some (Inl e, bufs) \<Rightarrow> Some (Inl e, n\<lparr>mn_bufs := bufs\<rparr>)
            | Some (Inr _, bufs) \<Rightarrow>
                (case al_write (mn_timestamps n) (i64_to_le timestamp) of
                   Inl e \<Rightarrow> Some (Inl e, n\<lparr>mn_bufs := bufs\<rparr>)
                 | Inr (_, written) \<Rightarrow> Some (Inr (), \<lparr>mn_timestamps = written, mn_bufs = bufs\<rparr>)))
      in if 0 < len then
           (case al_get (mn_timestamps n) (len - 8) len of
              None \<Rightarrow> None
            | Some last_timestamp \<Rightarrow>
                if timestamp < i64_of_le last_timestamp then Some (Inl TimeTravel, n) else go)
         else go)"

section \<open>The log\<close>

record 'm msg_log =
  ml_nodes :: "msg_node list"
  ml_dirs :: "int list"
  ml_metadata :: "'m option"
  ml_wal :: disruptor

definition wal_capacity :: nat where
  "wal_capacity = 1024 * 1024"

text \<open>\<open>create\<close> starts the persist task, whose reader joins the ring at once.\<close>

definition ml_create :: "'m msg_log" where
  "ml_create = \<lparr>ml_nodes = [], ml_dirs = [], ml_metadata = None,
     ml_wal = snd (reader_new (disruptor_new wal_capacity))\<rparr>"

definition msg_frame :: "int \<Rightarrow> byte list \<Rightarrow> byte list" where
  "msg_frame timestamp msg = i64_to_le timestamp @ u32_to_le (of_nat (length msg)) @ msg"

text \<open>\<open>push\<close> publishes a frame; any refusal of the ring becomes \<open>MapOverflow\<close>.\<close>

definition ml_push :: "'m msg_log \<Rightarrow> int \<Rightarrow> byte list \<Rightarrow> ((db_error + unit) \<times> 'm msg_log) option" where
  "ml_push l timestamp msg =
     map_option (\<lambda>r. case r of
         Inl _ \<Rightarrow> (Inl MapOverflow, l)
       | Inr wal \<Rightarrow> (Inr (), l\<lparr>ml_wal := wal\<rparr>))
       (publish (ml_wal l) (msg_frame timestamp msg))"

definition ml_try_push :: "'m msg_log \<Rightarrow> int \<Rightarrow> byte list \<Rightarrow> ((db_error + bool) \<times> 'm msg_log) option" where
  "ml_try_push l timestamp msg =
     (case ml_nodes l of
        [] \<Rightarrow> Some (Inr False, l)
      | head # below \<Rightarrow>
          (case insert_msg (mn_bufs head) msg of
             None \<Rightarrow> None
           | Some (Inl MapOverflow, bufs) \<Rightarrow> Some (Inr False, l\<lparr>ml_nodes := head\<lparr>mn_bufs := bufs\<rparr> # below\<rparr>)
           | Some (Inl err, bufs) \<Rightarrow> Some (Inl err, l\<lparr>ml_nodes := head\<lparr>mn_bufs := bufs\<rparr> # below\<rparr>)
           | Some (Inr _, bufs) \<Rightarrow>
               (case al_write (mn_timestamps head) (i64_to_le timestamp) of
                  Inl err \<Rightarrow> Some (Inl err, l\<lparr>ml_nodes := head\<lparr>mn_bufs := bufs\<rparr> # below\<rparr>)
                | Inr (_, written) \<Rightarrow>
                    Some (Inr True, l\<lparr>ml_nodes := \<lparr>mn_timestamps = written, mn_bufs = bufs\<rparr> # below\<rparr>))))"

text \<open>The loop of \<open>persist_msg\<close>, with fuel and the outcome of the weak exchange as in the time series.\<close>

fun persist_msg_loop :: "nat \<Rightarrow> io_kind option \<Rightarrow> bool \<Rightarrow> 'm msg_log \<Rightarrow> int \<Rightarrow> byte list \<Rightarrow>
    ((db_error + unit) \<times> 'm msg_log) option" where
  "persist_msg_loop 0 os cas l timestamp msg = None"
| "persist_msg_loop (Suc fuel) os cas l timestamp msg =
     (case ml_try_push l timestamp msg of
        None \<Rightarrow> None
      | Some (Inl err, l') \<Rightarrow> Some (Inl err, l')
      | Some (Inr True, l') \<Rightarrow> Some (Inr (), l')
      | Some (Inr False, l') \<Rightarrow>
          (case msg_node_create os (timestamp \<in> set (ml_dirs l')) of
             Inl err \<Rightarrow> Some (Inl err, l')
           | Inr node \<Rightarrow>
               persist_msg_loop fuel os cas
                 (l'\<lparr>ml_dirs := timestamp # ml_dirs l', ml_nodes := (if cas then node # ml_nodes l' else ml_nodes l')\<rparr>)
                 timestamp msg))"

definition persist_msg :: "io_kind option \<Rightarrow> bool \<Rightarrow> 'm msg_log \<Rightarrow> int \<Rightarrow> byte list \<Rightarrow> ((db_error + unit) \<times> 'm msg_log) option" where
  "persist_msg os cas l timestamp msg = persist_msg_loop 3 os cas l timestamp msg"

text \<open>The parse loop of the persist task over one read grant.\<close>

function parse_frames :: "byte list \<Rightarrow> (int \<times> byte list) list" where
  "parse_frames buf =
     (if length buf < 8 + 4 then []
      else let timestamp = i64_of_le (take 8 buf);
               buf = drop 8 buf;
               msg_len = unat (u32_of_le (take 4 buf));
               buf = drop 4 buf
           in if length buf < msg_len then []
              else (timestamp, take msg_len buf) # parse_frames (drop msg_len buf))"
  by pat_completeness auto
termination
  by (relation "measure length") auto

declare parse_frames.simps [simp del]

text \<open>A message that fails to persist is logged and skipped.\<close>

fun persist_msgs :: "io_kind option \<Rightarrow> bool \<Rightarrow> 'm msg_log \<Rightarrow> (int \<times> byte list) list \<Rightarrow> 'm msg_log option" where
  "persist_msgs os cas l [] = Some l"
| "persist_msgs os cas l ((timestamp, msg) # rest) =
     (case persist_msg os cas l timestamp msg of
        None \<Rightarrow> None
      | Some (_, l') \<Rightarrow> persist_msgs os cas l' rest)"

definition persist_grant :: "io_kind option \<Rightarrow> bool \<Rightarrow> 'm msg_log \<Rightarrow> byte list \<Rightarrow> 'm msg_log option" where
  "persist_grant os cas l buf = persist_msgs os cas l (parse_frames buf)"

text \<open>\<open>read_msg\<close>: one frame off the front of a buffer.\<close>

definition read_msg :: "byte list \<Rightarrow> (byte list \<times> int \<times> byte list) option" where
  "read_msg buf =
     (if length buf < 8 + 4 then None
      else let timestamp = i64_of_le (take 8 buf);
               buf = drop 8 buf
           in if length buf < 4 then None
              else let msg_len = unat (u32_of_le (take 4 buf));
                       buf = drop 4 buf
                   in if length buf < msg_len then None
                      else Some (drop msg_len buf, timestamp, take msg_len buf))"

section \<open>Readers\<close>

definition msg_node_at :: "'m msg_log \<Rightarrow> nat \<Rightarrow> msg_node" where
  "msg_node_at l i = rev (ml_nodes l) ! i"

definition msg_ref_data :: "'m msg_log \<Rightarrow> ts_ref \<Rightarrow> byte list option option" where
  "msg_ref_data l r = get_msg (mn_bufs (msg_node_at l (tr_node r))) (tr_index r)"

fun ml_get_loop :: "msg_node list \<Rightarrow> int \<Rightarrow> ts_ref option option" where
  "ml_get_loop [] timestamp = Some None"
| "ml_get_loop (n # ns) timestamp =
     (case msg_timestamps n of
        None \<Rightarrow> None
      | Some tss \<Rightarrow>
          (case binary_search tss timestamp of
             Inr _ \<Rightarrow> ml_get_loop ns timestamp
           | Inl index \<Rightarrow>
               (case get_msg (mn_bufs n) index of
                  None \<Rightarrow> None
                | Some None \<Rightarrow> ml_get_loop ns timestamp
                | Some (Some _) \<Rightarrow> Some (Some \<lparr>tr_node = length ns, tr_timestamp = timestamp, tr_index = index\<rparr>))))"

definition ml_get :: "'m msg_log \<Rightarrow> int \<Rightarrow> ts_ref option option" where
  "ml_get l timestamp = ml_get_loop (ml_nodes l) timestamp"

definition ml_nearest :: "'m msg_log \<Rightarrow> int \<Rightarrow> bool \<Rightarrow> ts_ref option option" where
  "ml_nearest l timestamp inclusive = nearest_loop (map msg_timestamps (ml_nodes l)) timestamp inclusive None"

definition ml_get_nearest :: "'m msg_log \<Rightarrow> int \<Rightarrow> ts_ref option option" where
  "ml_get_nearest l timestamp = ml_nearest l timestamp True"

definition ml_get_range :: "'m msg_log \<Rightarrow> int \<Rightarrow> int \<Rightarrow> (ts_ref \<times> ts_ref) option option" where
  "ml_get_range l a b =
     (case ml_nearest l a False of
        None \<Rightarrow> None
      | Some None \<Rightarrow> Some None
      | Some (Some start) \<Rightarrow>
          (case ml_nearest l b True of
             None \<Rightarrow> None
           | Some None \<Rightarrow> Some None
           | Some (Some end') \<Rightarrow> Some (Some (start, end'))))"

definition ml_latest :: "'m msg_log \<Rightarrow> ts_ref option option" where
  "ml_latest l =
     (case ml_nodes l of
        [] \<Rightarrow> Some None
      | head # below \<Rightarrow>
          if msg_count head = 0 then Some None
          else map_option (\<lambda>tss. Some \<lparr>tr_node = length below, tr_timestamp = tss ! (msg_count head - 1), tr_index = msg_count head - 1\<rparr>)
                 (msg_timestamps head))"

definition ml_is_empty :: "'m msg_log \<Rightarrow> bool" where
  "ml_is_empty l \<longleftrightarrow> ml_nodes l = []"

definition ml_first_timestamp :: "'m msg_log \<Rightarrow> int option option" where
  "ml_first_timestamp l = start_timestamp_loop (map msg_timestamps (ml_nodes l)) None"

definition ml_set_metadata :: "io_kind option \<Rightarrow> 'm msg_log \<Rightarrow> 'm \<Rightarrow> (db_error + unit) \<times> 'm msg_log" where
  "ml_set_metadata os l metadata =
     ((case os of Some e \<Rightarrow> Inl (Io e) | None \<Rightarrow> Inr ()), l\<lparr>ml_metadata := Some metadata\<rparr>)"

section \<open>Slices of the log\<close>

record msg_slice =
  ms_node :: msg_node
  ms_start :: nat
  ms_end :: nat

definition msg_slice_timestamps :: "msg_slice \<Rightarrow> int list option" where
  "msg_slice_timestamps sl =
     (case msg_timestamps (ms_node sl) of
        None \<Rightarrow> None
      | Some tss \<Rightarrow>
          get_inclusive tss (ms_start sl) (if length tss \<le> ms_end sl then length tss - 1 else ms_end sl))"

text \<open>\<open>filter_map\<close> over the indices: a message that cannot be read is skipped.\<close>

fun slice_msgs_loop :: "msg_node \<Rightarrow> int list \<Rightarrow> nat list \<Rightarrow> (int \<times> byte list) list option" where
  "slice_msgs_loop n tss [] = Some []"
| "slice_msgs_loop n tss (i # is) =
     (case get_index tss i of
        None \<Rightarrow> slice_msgs_loop n tss is
      | Some timestamp \<Rightarrow>
          (case get_msg (mn_bufs n) i of
             None \<Rightarrow> None
           | Some None \<Rightarrow> slice_msgs_loop n tss is
           | Some (Some msg) \<Rightarrow> map_option ((#) (timestamp, msg)) (slice_msgs_loop n tss is)))"

definition slice_msgs :: "msg_slice \<Rightarrow> (int \<times> byte list) list option" where
  "slice_msgs sl =
     (case msg_timestamps (ms_node sl) of
        None \<Rightarrow> None
      | Some tss \<Rightarrow>
          slice_msgs_loop (ms_node sl) tss [ms_start sl..<Suc (min (ms_end sl) (length tss - 1))])"

fun msg_iter_loop :: "msg_node list \<Rightarrow> ts_ref \<Rightarrow> ts_ref \<Rightarrow> msg_slice list" where
  "msg_iter_loop [] start end' = []"
| "msg_iter_loop (n # ns) start end' =
     \<lparr>ms_node = n,
      ms_start = (if length ns = tr_node start then tr_index start else 0),
      ms_end = (if length ns = tr_node end' then tr_index end' else msg_count n - 1)\<rparr> # msg_iter_loop ns start end'"

definition msg_iter :: "'m msg_log \<Rightarrow> ts_ref \<Rightarrow> ts_ref \<Rightarrow> msg_slice list" where
  "msg_iter l start end' = msg_iter_loop (drop (length (ml_nodes l) - 1 - tr_node start) (ml_nodes l)) start end'"

section \<open>Frames\<close>

lemma length_msg_frame [simp]: "length (msg_frame t msg) = 12 + length msg"
  by (simp add: msg_frame_def)

lemma frame_len: "length msg < 2 ^ 32 \<Longrightarrow> unat (of_nat (length msg) :: u32) = length msg"
  by (simp add: unat_of_nat)

lemma parse_frame_cons:
  assumes "i64_range t" "length msg < 2 ^ 32"
  shows "parse_frames (msg_frame t msg @ rest) = (t, msg) # parse_frames rest"
proof -
  let ?b = "msg_frame t msg @ rest"
  have 1: "take 8 ?b = i64_to_le t" "drop 8 ?b = u32_to_le (of_nat (length msg)) @ msg @ rest"
    by (simp_all add: msg_frame_def)
  have 2: "take 4 (u32_to_le (of_nat (length msg)) @ msg @ rest) = u32_to_le (of_nat (length msg))"
    "drop 4 (u32_to_le (of_nat (length msg)) @ msg @ rest) = msg @ rest" by simp_all
  have 3: "take (length msg) (msg @ rest) = msg" "drop (length msg) (msg @ rest) = rest" by simp_all
  show ?thesis
    by (subst parse_frames.simps) (simp add: Let_def 1 2 3 le_simps assms(1) frame_len [OF assms(2)] del: drop_append drop_drop take_append)
qed

lemma parse_frames_append:
  assumes "\<forall>(t, m) \<in> set ms. i64_range t \<and> length m < 2 ^ 32"
  shows "parse_frames (concat (map (\<lambda>(t, m). msg_frame t m) ms) @ rest) = ms @ parse_frames rest"
  using assms
proof (induction ms)
  case Nil
  then show ?case by simp
next
  case (Cons p ms)
  then show ?case by (cases p) (simp add: parse_frame_cons)
qed

text \<open>C35. The persist task recovers exactly the pushed messages, in order, from any whole number
  of frames, and a trailing piece of a frame (cut anywhere) adds nothing.\<close>

theorem parse_frames_roundtrip:
  assumes "\<forall>(t, m) \<in> set ms. i64_range t \<and> length m < 2 ^ 32" "i64_range t" "length m < 2 ^ 32"
    "k < length (msg_frame t m)"
  shows "parse_frames (concat (map (\<lambda>(t, m). msg_frame t m) ms) @ take k (msg_frame t m)) = ms"
proof -
  have "parse_frames (take k (msg_frame t m)) = []"
  proof (cases "k < 12")
    case True
    then show ?thesis by (simp add: parse_frames.simps)
  next
    case False
    let ?b = "take k (msg_frame t m)"
    have l: "length ?b = k" using assms(4) by simp
    have 1: "take 8 ?b = i64_to_le t" "drop 8 ?b = u32_to_le (of_nat (length m)) @ take (k - 12) m"
      using False by (simp_all add: msg_frame_def)
    have 2: "take 4 (u32_to_le (of_nat (length m)) @ take (k - 12) m) = u32_to_le (of_nat (length m))"
      "drop 4 (u32_to_le (of_nat (length m)) @ take (k - 12) m) = take (k - 12) m" by simp_all
    have "length (take (k - 12) m) < length m" using assms(4) False by simp
    then show ?thesis
      using False l by (subst parse_frames.simps) (simp add: Let_def 1 2 le_simps frame_len [OF assms(3)] del: drop_append drop_drop take_append)
  qed
  with parse_frames_append [OF assms(1)] show ?thesis by simp
qed

lemma parse_frames_roundtrip_witness:
  "parse_frames (concat (map (\<lambda>(t, m). msg_frame t m) [(5, [1, 2]), (6, [])]) @ take 13 (msg_frame 7 [3, 4])) = [(5, [1, 2]), (6, [])]"
  by (rule parse_frames_roundtrip) (simp_all add: i64_range_def)

text \<open>Reading one frame agrees with the parse loop.\<close>

lemma read_msg_parse:
  "parse_frames buf = (case read_msg buf of None \<Rightarrow> [] | Some (rest, t, m) \<Rightarrow> (t, m) # parse_frames rest)"
  by (subst parse_frames.simps) (auto simp: read_msg_def Let_def)

section \<open>Storing a message\<close>

definition buf_inv :: "buf_log \<Rightarrow> bool" where
  "buf_inv l \<longleftrightarrow> al_inv (bl_offsets l) \<and> al_inv (bl_data_log l) \<and> al_len (bl_offsets l) mod 16 = 0"

definition buf_count :: "buf_log \<Rightarrow> nat" where
  "buf_count l = al_len (bl_offsets l) div 16"

lemma umbra_bytes_roundtrip: "length (umbra_bytes u) = 4 + length (ub_data u)" "umbra_of_bytes (umbra_bytes u) = u"
  by (simp_all add: umbra_bytes_def umbra_of_bytes_def le_simps)

definition entry :: "buf_log \<Rightarrow> nat \<Rightarrow> umbra_buf" where
  "entry l i = umbra_of_bytes (slice (16 * i) (16 * i + 16) (al_data (bl_offsets l)))"

lemma bl_bufs_entry: "buf_inv l \<Longrightarrow> bl_bufs l = Some (map (entry l) [0..<buf_count l])"
  by (simp add: bl_bufs_def buf_inv_def Let_def buf_count_def entry_def)

definition decode :: "byte list \<Rightarrow> umbra_buf \<Rightarrow> byte list option option" where
  "decode data u =
     (let len = unat (ub_len u)
      in if len \<le> 12 then map_option Some (get_range (ub_data u) 0 len)
         else (let offset = unat (data_offset u) in Some (get_range data offset (offset + len))))"

lemma get_msg_decode:
  "buf_inv l \<Longrightarrow> get_msg l i = (if i < buf_count l then decode (al_data (bl_data_log l)) (entry l i) else Some None)"
  by (simp add: get_msg_def bl_bufs_entry get_index_def decode_def Let_def al_get_def)

lemma entry_append:
  assumes "buf_inv l" "al_data o' = al_data (bl_offsets l) @ umbra_bytes u" "length (ub_data u) = 12"
  shows "i < buf_count l \<Longrightarrow> entry (l\<lparr>bl_data_log := d, bl_offsets := o'\<rparr>) i = entry l i"
    "entry (l\<lparr>bl_data_log := d, bl_offsets := o'\<rparr>) (buf_count l) = u"
proof -
  have len: "length (al_data (bl_offsets l)) = 16 * buf_count l" using assms(1) by (auto simp: buf_inv_def buf_count_def)
  show "i < buf_count l \<Longrightarrow> entry (l\<lparr>bl_data_log := d, bl_offsets := o'\<rparr>) i = entry l i"
    using len by (simp add: entry_def assms(2) slice_append1)
  show "entry (l\<lparr>bl_data_log := d, bl_offsets := o'\<rparr>) (buf_count l) = u"
    using len umbra_bytes_roundtrip [of u] assms(3) by (simp add: entry_def assms(2) slice_append2) (simp add: slice_def)
qed

lemma decode_stable: "decode data u = Some (Some m) \<Longrightarrow> decode (data @ xs) u = Some (Some m)"
  by (auto simp: decode_def Let_def get_range_Some slice_append1 split: if_splits)

text \<open>The outcome of \<open>insert_msg\<close>: the entry written, or an error that leaves the entries alone.\<close>

lemma insert_msg_cases:
  assumes inv: "buf_inv l" and len: "length msg < 2 ^ 32"
  obtains (short) o' where "length msg \<le> 12" "insert_msg l msg = Some (Inr (), l\<lparr>bl_offsets := o'\<rparr>)"
      "al_inv o'" "al_data o' = al_data (bl_offsets l) @ umbra_bytes (with_inline (of_nat (length msg)) (splice 0 msg (replicate 12 0)))"
      "al_capacity o' = al_capacity (bl_offsets l)"
  | (long) o' d' where "12 < length msg" "insert_msg l msg = Some (Inr (), l\<lparr>bl_data_log := d', bl_offsets := o'\<rparr>)"
      "al_inv o'" "al_inv d'" "al_data d' = al_data (bl_data_log l) @ msg"
      "al_data o' = al_data (bl_offsets l) @
         umbra_bytes (with_offset (of_nat (length msg)) (take 4 msg) (of_nat (al_len (bl_data_log l))))"
      "al_capacity o' = al_capacity (bl_offsets l)"
  | (refused) d' where "insert_msg l msg = Some (Inl MapOverflow, l\<lparr>bl_data_log := d'\<rparr>)" "al_inv d'"
      "\<exists>xs. al_data d' = al_data (bl_data_log l) @ xs" "al_capacity (bl_offsets l) < al_len (bl_offsets l) + 16 \<or>
        al_capacity (bl_data_log l) < al_len (bl_data_log l) + length msg"
proof -
  have io: "al_inv (bl_offsets l)" and id: "al_inv (bl_data_log l)" using inv by (simp_all add: buf_inv_def)
  have w12: "12 < (of_nat (length msg) :: u32) \<longleftrightarrow> 12 < length msg"
    using len by (simp add: word_less_nat_alt frame_len)
  show ?thesis
  proof (cases "12 < length msg")
    case True
    have p: "get_range msg 0 4 = Some (take 4 msg)" using True by (simp add: get_range_def slice_def)
    show ?thesis
    proof (cases rule: al_write_total [OF id, of msg])
      case (1 off d')
      note w = al_write_ok [OF id 1(1)]
      let ?u = "with_offset (of_nat (length msg)) (take 4 msg) (of_nat (al_len (bl_data_log l)))"
      have lu: "length (umbra_bytes ?u) = 16" using True by (simp add: umbra_bytes_def with_offset_def)
      show ?thesis
      proof (cases rule: al_write_total [OF io, of "umbra_bytes ?u"])
        case (1 off2 o')
        note x = al_write_ok [OF io 1(1)]
        have "insert_msg l msg = Some (Inr (), l\<lparr>bl_data_log := d', bl_offsets := o'\<rparr>)"
          using True w12 p \<open>al_write (bl_data_log l) msg = Inr (off, d')\<close> 1(1) w(3) by (simp add: insert_msg_def Let_def)
        then show ?thesis using True w x by (intro long)
      next
        case 2
        have "insert_msg l msg = Some (Inl MapOverflow, l\<lparr>bl_data_log := d'\<rparr>)"
          using True w12 p \<open>al_write (bl_data_log l) msg = Inr (off, d')\<close> 2(1) w(3) by (simp add: insert_msg_def Let_def)
        then show ?thesis using w 2(2) lu by (intro refused) auto
      qed
    next
      case 2
      have "insert_msg l msg = Some (Inl MapOverflow, l\<lparr>bl_data_log := bl_data_log l\<rparr>)"
        using True w12 p 2(1) by (simp add: insert_msg_def Let_def)
      then show ?thesis using 2(2) id by (intro refused) auto
    qed
  next
    case False
    let ?u = "with_inline (of_nat (length msg)) (splice 0 msg (replicate 12 0))"
    have lu: "length (umbra_bytes ?u) = 16" using False by (simp add: umbra_bytes_def with_inline_def length_splice)
    show ?thesis
    proof (cases rule: al_write_total [OF io, of "umbra_bytes ?u"])
      case (1 off2 o')
      note x = al_write_ok [OF io 1(1)]
      have "insert_msg l msg = Some (Inr (), l\<lparr>bl_offsets := o'\<rparr>)"
        using False w12 1(1) by (simp add: insert_msg_def Let_def)
      then show ?thesis by (rule short [rotated]) (use False x in simp_all)
    next
      case 2
      have "insert_msg l msg = Some (Inl MapOverflow, l\<lparr>bl_data_log := bl_data_log l\<rparr>)"
        using False w12 2(1) by (simp add: insert_msg_def Let_def)
      then show ?thesis using 2(2) lu id by (intro refused) auto
    qed
  qed
qed

lemma decode_short: "length msg \<le> 12 \<Longrightarrow>
    decode data (with_inline (of_nat (length msg)) (splice 0 msg (replicate 12 0))) = Some (Some msg)"
proof -
  assume l: "length msg \<le> 12"
  then have "unat (of_nat (length msg) :: u32) = length msg" by (intro frame_len) simp
  moreover have "slice 0 (length msg) (splice 0 msg (replicate 12 0)) = msg"
    using slice_splice_same [of 0 "replicate 12 0" msg] by simp
  ultimately show ?thesis using l by (simp add: decode_def with_inline_def get_range_def length_splice)
qed

lemma offset_field: "length prefix = 4 \<Longrightarrow> data_offset (with_offset n prefix off) = off"
  by (simp add: data_offset_def with_offset_def slice_def le_simps)

lemma decode_long: "12 < length msg \<Longrightarrow> length msg < 2 ^ 32 \<Longrightarrow>
    decode data (with_offset (of_nat (length msg)) (take 4 msg) (of_nat off)) =
      Some (get_range data (off mod 2 ^ 32) (off mod 2 ^ 32 + length msg))"
proof -
  assume l: "12 < length msg" "length msg < 2 ^ 32"
  have "data_offset (with_offset (of_nat (length msg)) (take 4 msg) (of_nat off)) = of_nat off"
    using l by (intro offset_field) simp
  moreover have "unat (of_nat off :: u32) = off mod 2 ^ 32" by (simp add: unat_of_nat)
  moreover have "ub_len (with_offset (of_nat (length msg)) (take 4 msg) (of_nat off)) = of_nat (length msg)"
    by (simp add: with_offset_def)
  ultimately show ?thesis using l by (simp add: decode_def Let_def frame_len)
qed

text \<open>A stored message reads back under the next index, inline or through the data log, and
  every message readable before stays readable, as long as the data log holds less than 4 GB.\<close>

theorem insert_msg_readable:
  assumes inv: "buf_inv l" and len: "length msg < 2 ^ 32" and small: "al_len (bl_data_log l) < 2 ^ 32"
    and ins: "insert_msg l msg = Some (Inr (), l')"
  shows "buf_inv l' \<and> buf_count l' = buf_count l + 1 \<and> get_msg l' (buf_count l) = Some (Some msg) \<and>
    (\<forall>i m. i < buf_count l \<longrightarrow> get_msg l i = Some (Some m) \<longrightarrow> get_msg l' i = Some (Some m))"
  using inv len
proof (cases rule: insert_msg_cases)
  case (short o')
  let ?u = "with_inline (of_nat (length msg)) (splice 0 msg (replicate 12 0))"
  have l': "l' = l\<lparr>bl_offsets := o'\<rparr>" using ins short(2) by simp
  have ul: "length (ub_data ?u) = 12" using short(1) by (simp add: with_inline_def length_splice)
  have "length (al_data o') = al_len (bl_offsets l) + 16" using short(4) inv umbra_bytes_roundtrip(1) [of ?u] ul by (simp add: buf_inv_def)
  then have ol: "al_len o' = al_len (bl_offsets l) + 16" using short(3) by simp
  then have iv: "buf_inv l'" and ct: "buf_count l' = buf_count l + 1" using inv short(3) l' by (simp_all add: buf_inv_def buf_count_def mod_add_left_eq)
  note e = entry_append [OF inv short(4) ul, where d = "bl_data_log l"]
  show ?thesis using iv ct e decode_short [OF short(1)] inv l' by (simp add: get_msg_decode)
next
  case (long o' d')
  let ?u = "with_offset (of_nat (length msg)) (take 4 msg) (of_nat (al_len (bl_data_log l)))"
  have l': "l' = l\<lparr>bl_data_log := d', bl_offsets := o'\<rparr>" using ins long(2) by simp
  have ul: "length (ub_data ?u) = 12" using long(1) by (simp add: with_offset_def)
  have "length (al_data o') = al_len (bl_offsets l) + 16" using long(6) inv umbra_bytes_roundtrip(1) [of ?u] ul by (simp add: buf_inv_def)
  then have ol: "al_len o' = al_len (bl_offsets l) + 16" using long(3) by simp
  then have iv: "buf_inv l'" and ct: "buf_count l' = buf_count l + 1"
    using inv long(3,4) l' by (simp_all add: buf_inv_def buf_count_def mod_add_left_eq)
  note e = entry_append [OF inv long(6) ul, where d = d']
  have dl: "length (al_data (bl_data_log l)) = al_len (bl_data_log l)" using inv by (simp add: buf_inv_def)
  have "decode (al_data d') ?u = Some (Some msg)"
    using decode_long [OF long(1) len, of "al_data d'" "al_len (bl_data_log l)"] small long(5) dl
    by (simp add: get_range_def slice_append2)
  with iv ct e inv show ?thesis
    by (simp add: get_msg_decode) (auto simp: l' long(5) intro: decode_stable)
next
  case (refused d')
  with ins show ?thesis by simp
qed


text \<open>Once the data log has passed 4 GB (the file is 8 GB) the stored offset is cut to 32
  bits: the new entry of a long message reads back old bytes from the start of the log.\<close>

theorem insert_msg_offset_truncated:
  assumes inv: "buf_inv l" and len: "12 < length msg" "length msg < 2 ^ 32"
    and big: "2 ^ 32 \<le> al_len (bl_data_log l)" "al_len (bl_data_log l) < 2 ^ 33"
    and old: "length msg \<le> 2 ^ 32"
    and ins: "insert_msg l msg = Some (Inr (), l')"
  shows "get_msg l' (buf_count l) =
    Some (Some (slice (al_len (bl_data_log l) - 2 ^ 32) (al_len (bl_data_log l) - 2 ^ 32 + length msg) (al_data (bl_data_log l))))"
  using inv len(2)
proof (cases rule: insert_msg_cases)
  case (long o' d')
  let ?u = "with_offset (of_nat (length msg)) (take 4 msg) (of_nat (al_len (bl_data_log l)))"
  have l': "l' = l\<lparr>bl_data_log := d', bl_offsets := o'\<rparr>" using ins long(2) by simp
  have ul: "length (ub_data ?u) = 12" using long(1) by (simp add: with_offset_def)
  have "length (al_data o') = al_len (bl_offsets l) + 16" using long(6) inv umbra_bytes_roundtrip(1) [of ?u] ul by (simp add: buf_inv_def)
  then have ol: "al_len o' = al_len (bl_offsets l) + 16" using long(3) by simp
  then have iv: "buf_inv l'" and ct: "buf_count l' = buf_count l + 1"
    using inv long(3,4) l' by (simp_all add: buf_inv_def buf_count_def mod_add_left_eq)
  note e = entry_append [OF inv long(6) ul, where d = d']
  have dl: "length (al_data (bl_data_log l)) = al_len (bl_data_log l)" using inv by (simp add: buf_inv_def)
  define n where "n = al_len (bl_data_log l) - 2 ^ 32"
  have n: "al_len (bl_data_log l) = 2 ^ 32 + n" "n < 2 ^ 32" using big by (simp_all add: n_def)
  then have m: "al_len (bl_data_log l) mod 2 ^ 32 = n" by simp
  have "n + length msg \<le> length (al_data (bl_data_log l))" using dl n(1) len by simp
  then have "get_range (al_data d') n (n + length msg) = Some (slice n (n + length msg) (al_data (bl_data_log l)))"
    by (simp add: long(5) get_range_def slice_append1)
  then have "decode (al_data d') ?u = Some (Some (slice n (n + length msg) (al_data (bl_data_log l))))"
    using decode_long [OF len, of "al_data d'" "al_len (bl_data_log l)"] by (simp only: m)
  with iv ct e(2) show ?thesis unfolding n_def [symmetric]
    by (simp add: get_msg_decode) (simp add: l')
qed (use len ins in simp_all)


section \<open>Persisting in order\<close>

definition msg_node_ok :: "msg_node \<Rightarrow> bool" where
  "msg_node_ok n \<longleftrightarrow> buf_inv (mn_bufs n) \<and> al_inv (mn_timestamps n) \<and>
     al_len (mn_timestamps n) = 8 * buf_count (mn_bufs n) \<and>
     al_capacity (mn_timestamps n) = al_capacity (bl_offsets (mn_bufs n)) \<and>
     (\<forall>i < buf_count (mn_bufs n). \<exists>m. get_msg (mn_bufs n) i = Some (Some m))"

definition node_msgs :: "msg_node \<Rightarrow> (int \<times> byte list) list" where
  "node_msgs n = map (\<lambda>i. (i64_elems (al_data (mn_timestamps n)) ! i, the (the (get_msg (mn_bufs n) i)))) [0..<buf_count (mn_bufs n)]"

definition ml_inv :: "'m msg_log \<Rightarrow> bool" where
  "ml_inv l \<longleftrightarrow> (\<forall>n \<in> set (ml_nodes l). msg_node_ok n)"

definition ml_msgs :: "'m msg_log \<Rightarrow> (int \<times> byte list) list" where
  "ml_msgs l = concat (map node_msgs (rev (ml_nodes l)))"

text \<open>The data log of the newest node is below the 4 GB that an entry's offset can address.\<close>

definition ml_small :: "'m msg_log \<Rightarrow> bool" where
  "ml_small l \<longleftrightarrow> (case ml_nodes l of [] \<Rightarrow> True | h # _ \<Rightarrow> al_len (bl_data_log (mn_bufs h)) < 2 ^ 32)"

lemma refused_bufs:
  assumes inv: "buf_inv l" and d: "al_inv d'" "al_data d' = al_data (bl_data_log l) @ xs"
  shows "buf_inv (l\<lparr>bl_data_log := d'\<rparr>)" "buf_count (l\<lparr>bl_data_log := d'\<rparr>) = buf_count l"
    "i < buf_count l \<Longrightarrow> get_msg l i = Some (Some m) \<Longrightarrow> get_msg (l\<lparr>bl_data_log := d'\<rparr>) i = Some (Some m)"
proof -
  show iv: "buf_inv (l\<lparr>bl_data_log := d'\<rparr>)" and ct: "buf_count (l\<lparr>bl_data_log := d'\<rparr>) = buf_count l"
    using inv d by (simp_all add: buf_inv_def buf_count_def)
  have "entry (l\<lparr>bl_data_log := d'\<rparr>) i = entry l i" by (simp add: entry_def)
  then show "i < buf_count l \<Longrightarrow> get_msg l i = Some (Some m) \<Longrightarrow> get_msg (l\<lparr>bl_data_log := d'\<rparr>) i = Some (Some m)"
    using iv ct inv d(2) by (simp add: get_msg_decode decode_stable)
qed

lemma node_msgs_cong:
  assumes "mn_timestamps n' = mn_timestamps n" "buf_count (mn_bufs n') = buf_count (mn_bufs n)"
    "\<And>i. i < buf_count (mn_bufs n) \<Longrightarrow> get_msg (mn_bufs n') i = get_msg (mn_bufs n) i"
  shows "node_msgs n' = node_msgs n"
  using assms by (simp add: node_msgs_def)

lemma try_push_msg_sound:
  assumes inv: "ml_inv l" and sm: "ml_small l" and t: "i64_range t" and len: "length msg < 2 ^ 32"
  obtains (pushed) l' where "ml_try_push l t msg = Some (Inr True, l')" "ml_inv l'" "ml_msgs l' = ml_msgs l @ [(t, msg)]"
  | (full) l' where "ml_try_push l t msg = Some (Inr False, l')" "ml_inv l'" "ml_msgs l' = ml_msgs l"
      "ml_dirs l' = ml_dirs l"
proof (cases "ml_nodes l")
  case Nil
  then have "ml_try_push l t msg = Some (Inr False, l)" by (simp add: ml_try_push_def)
  then show ?thesis using inv by (rule full) simp_all
next
  case (Cons h ns)
  have h: "msg_node_ok h" and sh: "al_len (bl_data_log (mn_bufs h)) < 2 ^ 32"
    using inv sm Cons by (simp_all add: ml_inv_def ml_small_def)
  let ?b = "mn_bufs h" and ?c = "buf_count (mn_bufs h)"
  have b: "buf_inv ?b" and ts: "al_inv (mn_timestamps h)" "al_len (mn_timestamps h) = 8 * ?c"
    and rd: "\<And>i. i < ?c \<Longrightarrow> \<exists>m. get_msg ?b i = Some (Some m)" using h by (auto simp: msg_node_ok_def)
  have done_ok: thesis if ins: "insert_msg ?b msg = Some (Inr (), bufs)" and oi: "al_inv (bl_offsets bufs)"
    and cap: "al_capacity (bl_offsets bufs) = al_capacity (bl_offsets ?b)" for bufs
  proof -
    note r = insert_msg_readable [OF b len sh ins]
    have lo: "al_len (bl_offsets bufs) = 16 * (?c + 1)" using r by (auto simp: buf_inv_def buf_count_def)
    have "al_len (bl_offsets bufs) \<le> al_capacity (bl_offsets bufs)"
      using oi by (simp add: al_inv_def al_len_def al_capacity_def diff_le_mono)
    then have fit: "al_len (mn_timestamps h) + length (i64_to_le t) \<le> al_capacity (mn_timestamps h)"
      using lo ts(2) h cap by (simp add: msg_node_ok_def)
    obtain o1 w where w: "al_write (mn_timestamps h) (i64_to_le t) = Inr (o1, w)"
      using ts(1) fit by (cases rule: al_write_total [of _ "i64_to_le t"]) auto
    note wk = al_write_ok [OF ts(1) w]
    let ?n = "\<lparr>mn_timestamps = w, mn_bufs = bufs\<rparr>"
    have lw: "al_len w = 8 * (?c + 1)" using wk(1,2) ts length_al_data [OF wk(1)] by simp
    have all: "\<exists>m. get_msg bufs i = Some (Some m)" if "i < ?c + 1" for i
    proof (cases "i = ?c")
      case True
      with r show ?thesis by blast
    next
      case False
      with that have "i < ?c" by simp
      with r rd show ?thesis by blast
    qed
    have ok: "msg_node_ok ?n"
      using r wk lw all h cap by (simp add: msg_node_ok_def)
    have el: "i64_elems (al_data w) = i64_elems (al_data (mn_timestamps h)) @ [t]"
      unfolding wk(2) by (rule i64_elems_append) (use ts t in simp_all)
    have le: "length (i64_elems (al_data (mn_timestamps h))) = ?c" using ts by simp
    have "node_msgs ?n = node_msgs h @ [(t, msg)]"
    proof -
      have "get_msg bufs i = get_msg ?b i" if "i < ?c" for i
      proof -
        from rd [OF that] obtain m where "get_msg ?b i = Some (Some m)" ..
        with r that show ?thesis by simp
      qed
      moreover have "(i64_elems (al_data (mn_timestamps h)) @ [t]) ! i = i64_elems (al_data (mn_timestamps h)) ! i" if "i < ?c" for i
        using that le by (simp add: nth_append)
      moreover have "(i64_elems (al_data (mn_timestamps h)) @ [t]) ! ?c = t" using le by (metis nth_append_length)
      ultimately show ?thesis using r by (simp add: node_msgs_def el)
    qed
    then have "ml_msgs (l\<lparr>ml_nodes := ?n # ns\<rparr>) = ml_msgs l @ [(t, msg)]" using Cons by (simp add: ml_msgs_def)
    moreover have "ml_inv (l\<lparr>ml_nodes := ?n # ns\<rparr>)" using ok inv Cons by (simp add: ml_inv_def)
    moreover have "ml_try_push l t msg = Some (Inr True, l\<lparr>ml_nodes := ?n # ns\<rparr>)"
      using ins w by (simp add: ml_try_push_def Cons)
    ultimately show ?thesis by (intro pushed)
  qed
  from b len show ?thesis
  proof (cases rule: insert_msg_cases)
    case (short o')
    show ?thesis by (rule done_ok [OF short(2)]) (use short in simp_all)
  next
    case (long o' d')
    show ?thesis by (rule done_ok [OF long(2)]) (use long in simp_all)
  next
    case (refused d')
    from refused(3) obtain xs where xs: "al_data d' = al_data (bl_data_log ?b) @ xs" ..
    note rb = refused_bufs [OF b refused(2) xs]
    let ?n = "h\<lparr>mn_bufs := ?b\<lparr>bl_data_log := d'\<rparr>\<rparr>"
    have same: "get_msg (mn_bufs ?n) i = get_msg ?b i" if "i < ?c" for i
    proof -
      from rd [OF that] obtain m where "get_msg ?b i = Some (Some m)" ..
      with rb(3) [OF that this] show ?thesis by simp
    qed
    have "\<forall>i < ?c. \<exists>m. get_msg (?b\<lparr>bl_data_log := d'\<rparr>) i = Some (Some m)" using rd rb(3) by blast
    then have "msg_node_ok ?n" using h rb(1,2) by (simp add: msg_node_ok_def)
    moreover have "node_msgs ?n = node_msgs h" using rb(2) same by (intro node_msgs_cong) simp_all
    ultimately have iv: "ml_inv (l\<lparr>ml_nodes := ?n # ns\<rparr>)" "ml_msgs (l\<lparr>ml_nodes := ?n # ns\<rparr>) = ml_msgs l"
      using inv Cons by (simp_all add: ml_inv_def ml_msgs_def)
    have "ml_try_push l t msg = Some (Inr False, l\<lparr>ml_nodes := ?n # ns\<rparr>)"
      using refused(1) by (simp add: ml_try_push_def Cons)
    then show ?thesis using iv by (rule full) simp
  qed
qed

lemma msg_node_create_ok:
  assumes "msg_node_create os taken = Inr n"
  shows "msg_node_ok n" "node_msgs n = []" "al_len (bl_data_log (mn_bufs n)) = 0" "\<not> taken"
proof -
  define l where "l = \<lparr>al_map = replicate (al_file_size + 1) (0 :: byte), al_committed = msg_hdr, al_head = 0, al_extra = (), al_hdr = msg_hdr\<rparr>"
  from assms have n: "n = \<lparr>mn_timestamps = l, mn_bufs = \<lparr>bl_offsets = l, bl_data_log = l\<rparr>\<rparr>" and t: "\<not> taken"
    by (auto simp: msg_node_create_def bind_result_Inr_iff al_create_def al_with_size_def l_def split: option.splits if_splits)
  show "\<not> taken" by (fact t)
  have "al_inv l" "al_len l = 0" "al_data l = []"
    by (simp_all add: l_def al_inv_def al_len_def al_data_def msg_hdr_def al_file_size_def)
  then show "msg_node_ok n" "node_msgs n = []" "al_len (bl_data_log (mn_bufs n)) = 0"
    by (simp_all add: n msg_node_ok_def node_msgs_def buf_inv_def buf_count_def)
qed


lemma persist_msg_returns_ok:
  assumes "ml_inv l" "ml_small l" "i64_range t" "length msg < 2 ^ 32" "t \<notin> set (ml_dirs l)"
    "length msg \<le> al_file_size + 1 - msg_hdr"
  shows "\<exists>l'. persist_msg None True l t msg = Some (Inr (), l')"
  using assms(1-4)
proof (cases rule: try_push_msg_sound)
  case (pushed l')
  then show ?thesis by (simp add: persist_msg_def numeral_3_eq_3)
next
  case (full l1)
  obtain node where nc: "msg_node_create None False = Inr node"
    by (simp add: msg_node_create_def al_create_def al_with_size_def)
  note n = msg_node_create_ok [OF nc]
  let ?n = "l1\<lparr>ml_dirs := t # ml_dirs l1, ml_nodes := node # ml_nodes l1\<rparr>"
  let ?b = "mn_bufs node"
  have bi: "buf_inv ?b" and tsi: "al_inv (mn_timestamps node)" using n(1) by (simp_all add: msg_node_ok_def)
  have cap: "al_capacity (bl_offsets ?b) = al_file_size + 1 - msg_hdr" "al_capacity (bl_data_log ?b) = al_file_size + 1 - msg_hdr"
    "al_capacity (mn_timestamps node) = al_file_size + 1 - msg_hdr" "al_len (bl_offsets ?b) = 0" "al_len (mn_timestamps node) = 0"
    using nc by (auto simp: msg_node_create_def bind_result_Inr_iff al_create_def al_with_size_def al_capacity_def al_len_def)
  have big: "16 \<le> al_file_size + 1 - msg_hdr" by (simp add: al_file_size_def msg_hdr_def)
  have "\<exists>bufs. insert_msg ?b msg = Some (Inr (), bufs)"
    using bi assms(4)
  proof (cases rule: insert_msg_cases)
    case (refused d')
    then show ?thesis using cap n(3) assms(6) big by auto
  qed auto
  then obtain bufs where ins: "insert_msg ?b msg = Some (Inr (), bufs)" ..
  obtain o1 w where "al_write (mn_timestamps node) (i64_to_le t) = Inr (o1, w)"
    using tsi cap big by (cases rule: al_write_total [of _ "i64_to_le t"]) auto
  then have "\<exists>l2. ml_try_push ?n t msg = Some (Inr True, l2)" using ins by (simp add: ml_try_push_def)
  then obtain l2 where "ml_try_push ?n t msg = Some (Inr True, l2)" ..
  then show ?thesis using full nc assms(5) by (simp add: persist_msg_def numeral_3_eq_3)
qed


end
