(* ===== verification/ProtoTypes.thy ===== *)
theory ProtoTypes
  imports Errors
begin

text \<open>
  The value and packet types of the wire protocol (\<open>libs/metor-proto/src/types.rs\<close>), the
  array views they carry (\<open>libs/nox/array/src/lib.rs\<close>) and component schemas
  (\<open>libs/metor-proto/src/schema.rs\<close>).  Floating-point values are their bit patterns, signed
  integers their two's complement words.  A borrowed byte slice carries its address, since
  the casts to typed slices check alignment.  The verdict of a zerocopy cast is a parameter
  \<open>zc\<close>; \<open>zc_spec\<close> is what its documentation promises.  A panic is \<open>None\<close>.
\<close>

section \<open>Primitive types\<close>

datatype prim_type = U8 | U16 | U32 | U64 | I8 | I16 | I32 | I64 | Bool | F32 | F64

text \<open>The discriminants of \<open>#[repr(u64)]\<close>, and their inverse.\<close>

fun prim_code :: "prim_type \<Rightarrow> nat" where
  "prim_code U8 = 0" | "prim_code U16 = 1" | "prim_code U32 = 2" | "prim_code U64 = 3"
| "prim_code I8 = 4" | "prim_code I16 = 5" | "prim_code I32 = 6" | "prim_code I64 = 7"
| "prim_code Bool = 8" | "prim_code F32 = 9" | "prim_code F64 = 10"

definition all_prims :: "prim_type list" where
  "all_prims = [U8, U16, U32, U64, I8, I16, I32, I64, Bool, F32, F64]"

definition prim_of_code :: "nat \<Rightarrow> prim_type option" where
  "prim_of_code n = get_index all_prims n"

fun alignment :: "prim_type \<Rightarrow> nat" where
  "alignment U8 = 1" | "alignment U16 = 2" | "alignment U32 = 4" | "alignment U64 = 8"
| "alignment I8 = 1" | "alignment I16 = 2" | "alignment I32 = 4" | "alignment I64 = 8"
| "alignment Bool = 1" | "alignment F32 = 4" | "alignment F64 = 8"

fun prim_size :: "prim_type \<Rightarrow> nat" where
  "prim_size U8 = 1" | "prim_size U16 = 2" | "prim_size U32 = 4" | "prim_size U64 = 8"
| "prim_size I8 = 1" | "prim_size I16 = 2" | "prim_size I32 = 4" | "prim_size I64 = 8"
| "prim_size Bool = 1" | "prim_size F32 = 4" | "prim_size F64 = 8"

fun as_str :: "prim_type \<Rightarrow> string" where
  "as_str U8 = ''u8''" | "as_str U16 = ''u16''" | "as_str U32 = ''u32''" | "as_str U64 = ''u64''"
| "as_str I8 = ''i8''" | "as_str I16 = ''i16''" | "as_str I32 = ''i32''" | "as_str I64 = ''i64''"
| "as_str Bool = ''bool''" | "as_str F32 = ''f32''" | "as_str F64 = ''f64''"

text \<open>\<open>padding\<close> on 64-bit \<open>usize\<close>, with the rounding mask of the code.\<close>

unbundle bit_operations_syntax

definition padding :: "prim_type \<Rightarrow> u64 \<Rightarrow> u64" where
  "padding ty offset =
     (let align = of_nat (alignment ty) :: u64;
          offset_rounded = (offset + align - 1) AND NOT (align - 1)
      in offset_rounded - offset)"

instantiation prim_type :: linorder
begin

definition less_eq_prim_type :: "prim_type \<Rightarrow> prim_type \<Rightarrow> bool" where
  "less_eq_prim_type p q \<longleftrightarrow> prim_code p \<le> prim_code q"

definition less_prim_type :: "prim_type \<Rightarrow> prim_type \<Rightarrow> bool" where
  "less_prim_type p q \<longleftrightarrow> prim_code p < prim_code q"

instance
proof
  fix x y z :: prim_type
  show "x < y \<longleftrightarrow> x \<le> y \<and> \<not> y \<le> x" by (auto simp: less_eq_prim_type_def less_prim_type_def)
  show "x \<le> x" by (simp add: less_eq_prim_type_def)
  show "x \<le> y \<Longrightarrow> y \<le> z \<Longrightarrow> x \<le> z" by (simp add: less_eq_prim_type_def)
  show "x \<le> y \<Longrightarrow> y \<le> x \<Longrightarrow> x = y" by (cases x; cases y; simp add: less_eq_prim_type_def)
  show "x \<le> y \<or> y \<le> x" by (auto simp: less_eq_prim_type_def)
qed

end

section \<open>Checked casts\<close>

text \<open>A borrowed slice: its address and its bytes.\<close>

type_synonym aslice = "nat \<times> byte list"

definition as_get :: "aslice \<Rightarrow> nat \<Rightarrow> nat \<Rightarrow> aslice option" where
  "as_get s a b = map_option (\<lambda>bs. (fst s + a, bs)) (get_range (snd s) a b)"

text \<open>
  What a cast asks for: a whole slice of elements of a size and alignment, exactly \<open>n\<close> of
  them, \<open>n\<close> of them at the front (with the validity check of \<open>bool\<close> where asked), one
  value, a primitive type's code, a packet (with a body of \<open>n\<close> bytes where asked) or a time
  series header.
\<close>

datatype cast_req =
    SliceOf nat nat
  | ElemsOf nat nat nat bool
  | PrefixOf nat nat nat bool
  | ReadOne nat
  | ReadPrim
  | PacketOf "nat option"
  | SeriesHeader

type_synonym caster = "cast_req \<Rightarrow> aslice \<Rightarrow> cast_error option"

definition bools_ok :: "byte list \<Rightarrow> bool" where
  "bools_ok bs \<longleftrightarrow> (\<forall>b \<in> set bs. b = 0 \<or> b = 1)"

fun cast_fits :: "cast_req \<Rightarrow> aslice \<Rightarrow> bool" where
  "cast_fits (SliceOf sz al) (p, bs) \<longleftrightarrow> p mod al = 0 \<and> length bs mod sz = 0"
| "cast_fits (ElemsOf sz al n b) (p, bs) \<longleftrightarrow> p mod al = 0 \<and> length bs = n * sz \<and> (b \<longrightarrow> bools_ok bs)"
| "cast_fits (PrefixOf sz al n b) (p, bs) \<longleftrightarrow> p mod al = 0 \<and> n * sz \<le> length bs \<and> (b \<longrightarrow> bools_ok (take (n * sz) bs))"
| "cast_fits (ReadOne sz) (p, bs) \<longleftrightarrow> length bs = sz"
| "cast_fits ReadPrim (p, bs) \<longleftrightarrow> length bs = 8 \<and> le_to_nat bs < 11"
| "cast_fits (PacketOf None) (p, bs) \<longleftrightarrow> 4 \<le> length bs \<and> unat (bs ! 0) < 4"
| "cast_fits (PacketOf (Some n)) (p, bs) \<longleftrightarrow> length bs = 4 + n \<and> unat (bs ! 0) < 4"
| "cast_fits SeriesHeader (p, bs) \<longleftrightarrow> 8 \<le> length bs"

text \<open>Only the casts with a validity check can fail on validity.\<close>

fun cast_fallible :: "cast_req \<Rightarrow> bool" where
  "cast_fallible (ElemsOf sz al n b) = b"
| "cast_fallible (PrefixOf sz al n b) = b"
| "cast_fallible ReadPrim = True"
| "cast_fallible (PacketOf n) = True"
| "cast_fallible _ = False"

definition zc_spec :: "caster \<Rightarrow> bool" where
  "zc_spec zc \<longleftrightarrow> (\<forall>r s. (zc r s = None \<longleftrightarrow> cast_fits r s) \<and> (zc r s = Some CastValidity \<longrightarrow> cast_fallible r))"

text \<open>A caster that meets the contract.\<close>

definition zc_ok :: caster where
  "zc_ok r s = (if cast_fits r s then None else Some CastSize)"

lemma zc_ok_spec: "zc_spec zc_ok"
  by (simp add: zc_spec_def zc_ok_def)

lemma zc_fits: "zc_spec zc \<Longrightarrow> zc r s = None \<longleftrightarrow> cast_fits r s"
  unfolding zc_spec_def by blast

section \<open>Views of component values\<close>

record 'a array_view =
  av_buf :: "'a list"
  av_shape :: "nat list"

definition elems_of_le :: "nat \<Rightarrow> nat \<Rightarrow> byte list \<Rightarrow> 'a::len word list" where
  "elems_of_le k n bs = map (\<lambda>i. of_nat (le_to_nat (slice (i * k) (i * k + k) bs))) [0..<n]"

definition elems_to_le :: "nat \<Rightarrow> 'a::len word list \<Rightarrow> byte list" where
  "elems_to_le k ws = concat (map (\<lambda>w. nat_to_le k (unat w)) ws)"

definition bools_of_bytes :: "nat \<Rightarrow> byte list \<Rightarrow> bool list" where
  "bools_of_bytes n bs = map (\<lambda>b. b = 1) (take n bs)"

definition bools_to_bytes :: "bool list \<Rightarrow> byte list" where
  "bools_to_bytes = map (\<lambda>b. if b then 1 else 0)"

datatype component_view =
    CvU8 "8 word array_view"
  | CvU16 "16 word array_view"
  | CvU32 "32 word array_view"
  | CvU64 "64 word array_view"
  | CvI8 "8 word array_view"
  | CvI16 "16 word array_view"
  | CvI32 "32 word array_view"
  | CvI64 "64 word array_view"
  | CvBool "bool array_view"
  | CvF32 "32 word array_view"
  | CvF64 "64 word array_view"

fun cv_shape :: "component_view \<Rightarrow> nat list" where
  "cv_shape (CvU8 v) = av_shape v" | "cv_shape (CvU16 v) = av_shape v"
| "cv_shape (CvU32 v) = av_shape v" | "cv_shape (CvU64 v) = av_shape v"
| "cv_shape (CvI8 v) = av_shape v" | "cv_shape (CvI16 v) = av_shape v"
| "cv_shape (CvI32 v) = av_shape v" | "cv_shape (CvI64 v) = av_shape v"
| "cv_shape (CvBool v) = av_shape v" | "cv_shape (CvF32 v) = av_shape v"
| "cv_shape (CvF64 v) = av_shape v"

fun cv_prim_type :: "component_view \<Rightarrow> prim_type" where
  "cv_prim_type (CvU8 _) = U8" | "cv_prim_type (CvU16 _) = U16"
| "cv_prim_type (CvU32 _) = U32" | "cv_prim_type (CvU64 _) = U64"
| "cv_prim_type (CvI8 _) = I8" | "cv_prim_type (CvI16 _) = I16"
| "cv_prim_type (CvI32 _) = I32" | "cv_prim_type (CvI64 _) = I64"
| "cv_prim_type (CvBool _) = Bool" | "cv_prim_type (CvF32 _) = F32"
| "cv_prim_type (CvF64 _) = F64"

fun cv_as_bytes :: "component_view \<Rightarrow> byte list" where
  "cv_as_bytes (CvU8 v) = elems_to_le 1 (av_buf v)" | "cv_as_bytes (CvU16 v) = elems_to_le 2 (av_buf v)"
| "cv_as_bytes (CvU32 v) = elems_to_le 4 (av_buf v)" | "cv_as_bytes (CvU64 v) = elems_to_le 8 (av_buf v)"
| "cv_as_bytes (CvI8 v) = elems_to_le 1 (av_buf v)" | "cv_as_bytes (CvI16 v) = elems_to_le 2 (av_buf v)"
| "cv_as_bytes (CvI32 v) = elems_to_le 4 (av_buf v)" | "cv_as_bytes (CvI64 v) = elems_to_le 8 (av_buf v)"
| "cv_as_bytes (CvBool v) = bools_to_bytes (av_buf v)" | "cv_as_bytes (CvF32 v) = elems_to_le 4 (av_buf v)"
| "cv_as_bytes (CvF64 v) = elems_to_le 8 (av_buf v)"

text \<open>The elements of a view read from the front of a buffer, by type.\<close>

fun view_of :: "prim_type \<Rightarrow> nat \<Rightarrow> byte list \<Rightarrow> nat list \<Rightarrow> component_view" where
  "view_of U8 n bs shape = CvU8 \<lparr>av_buf = elems_of_le 1 n bs, av_shape = shape\<rparr>"
| "view_of U16 n bs shape = CvU16 \<lparr>av_buf = elems_of_le 2 n bs, av_shape = shape\<rparr>"
| "view_of U32 n bs shape = CvU32 \<lparr>av_buf = elems_of_le 4 n bs, av_shape = shape\<rparr>"
| "view_of U64 n bs shape = CvU64 \<lparr>av_buf = elems_of_le 8 n bs, av_shape = shape\<rparr>"
| "view_of I8 n bs shape = CvI8 \<lparr>av_buf = elems_of_le 1 n bs, av_shape = shape\<rparr>"
| "view_of I16 n bs shape = CvI16 \<lparr>av_buf = elems_of_le 2 n bs, av_shape = shape\<rparr>"
| "view_of I32 n bs shape = CvI32 \<lparr>av_buf = elems_of_le 4 n bs, av_shape = shape\<rparr>"
| "view_of I64 n bs shape = CvI64 \<lparr>av_buf = elems_of_le 8 n bs, av_shape = shape\<rparr>"
| "view_of Bool n bs shape = CvBool \<lparr>av_buf = bools_of_bytes n bs, av_shape = shape\<rparr>"
| "view_of F32 n bs shape = CvF32 \<lparr>av_buf = elems_of_le 4 n bs, av_shape = shape\<rparr>"
| "view_of F64 n bs shape = CvF64 \<lparr>av_buf = elems_of_le 8 n bs, av_shape = shape\<rparr>"

text \<open>\<open>try_fold\<close> with \<open>checked_mul\<close>.\<close>

fun checked_product :: "nat list \<Rightarrow> nat \<Rightarrow> proto_error + nat" where
  "checked_product [] acc = Inr acc"
| "checked_product (x # xs) acc =
     (if 2 ^ 64 \<le> acc * x then Inl OffsetOverflow else checked_product xs (acc * x))"

definition try_from_bytes_shape :: "caster \<Rightarrow> aslice \<Rightarrow> nat list \<Rightarrow> prim_type \<Rightarrow> (proto_error + component_view) option" where
  "try_from_bytes_shape zc buf shape ty =
     (case checked_product shape 1 of
        Inl e \<Rightarrow> Some (Inl e)
      | Inr len \<Rightarrow>
          (case zc (PrefixOf (prim_size ty) (alignment ty) len (ty = Bool)) buf of
             None \<Rightarrow> Some (Inr (view_of ty len (snd buf) shape))
           | Some e \<Rightarrow>
               if ty = Bool then Some (Inl (from_try_cast e)) else map_option Inl (from_cast e)))"

text \<open>\<open>ArrayView::from_bytes_shape_unchecked\<close>: the product is unchecked, the length must be exact.\<close>

definition from_bytes_shape_unchecked :: "caster \<Rightarrow> aslice \<Rightarrow> nat list \<Rightarrow> prim_type \<Rightarrow> component_view option" where
  "from_bytes_shape_unchecked zc buf shape ty =
     (let count = prod_list shape mod 2 ^ 64
      in case zc (ElemsOf (prim_size ty) (alignment ty) count (ty = Bool)) buf of
           None \<Rightarrow> Some (view_of ty count (snd buf) shape)
         | Some _ \<Rightarrow> None)"

datatype element_value =
    EvU8 "8 word" | EvU16 "16 word" | EvU32 "32 word" | EvU64 "64 word"
  | EvI8 "8 word" | EvI16 "16 word" | EvI32 "32 word" | EvI64 "64 word"
  | EvF64 "64 word" | EvF32 "32 word" | EvBool bool

fun cv_iter :: "component_view \<Rightarrow> element_value list" where
  "cv_iter (CvU8 v) = map EvU8 (av_buf v)" | "cv_iter (CvU16 v) = map EvU16 (av_buf v)"
| "cv_iter (CvU32 v) = map EvU32 (av_buf v)" | "cv_iter (CvU64 v) = map EvU64 (av_buf v)"
| "cv_iter (CvI8 v) = map EvI8 (av_buf v)" | "cv_iter (CvI16 v) = map EvI16 (av_buf v)"
| "cv_iter (CvI32 v) = map EvI32 (av_buf v)" | "cv_iter (CvI64 v) = map EvI64 (av_buf v)"
| "cv_iter (CvBool v) = map EvBool (av_buf v)" | "cv_iter (CvF32 v) = map EvF32 (av_buf v)"
| "cv_iter (CvF64 v) = map EvF64 (av_buf v)"

fun cv_get :: "component_view \<Rightarrow> nat \<Rightarrow> element_value option" where
  "cv_get (CvU8 v) i = map_option EvU8 (get_index (av_buf v) i)"
| "cv_get (CvU16 v) i = map_option EvU16 (get_index (av_buf v) i)"
| "cv_get (CvU32 v) i = map_option EvU32 (get_index (av_buf v) i)"
| "cv_get (CvU64 v) i = map_option EvU64 (get_index (av_buf v) i)"
| "cv_get (CvI8 v) i = map_option EvI8 (get_index (av_buf v) i)"
| "cv_get (CvI16 v) i = map_option EvI16 (get_index (av_buf v) i)"
| "cv_get (CvI32 v) i = map_option EvI32 (get_index (av_buf v) i)"
| "cv_get (CvI64 v) i = map_option EvI64 (get_index (av_buf v) i)"
| "cv_get (CvBool v) i = map_option EvBool (get_index (av_buf v) i)"
| "cv_get (CvF32 v) i = map_option EvF32 (get_index (av_buf v) i)"
| "cv_get (CvF64 v) i = map_option EvF64 (get_index (av_buf v) i)"

section \<open>Component schemas\<close>

record schema =
  sc_prim_type :: prim_type
  sc_shape :: "nat list"

text \<open>\<open>Schema::new\<close> over a growable buffer; the product of \<open>size\<close> wraps at 64 bits.\<close>

definition schema_new :: "prim_type \<Rightarrow> nat list \<Rightarrow> proto_error + schema" where
  "schema_new ty shape = Inr \<lparr>sc_prim_type = ty, sc_shape = shape\<rparr>"

definition schema_size :: "schema \<Rightarrow> nat" where
  "schema_size s = (prod_list (sc_shape s) mod 2 ^ 64) * prim_size (sc_prim_type s)"

section \<open>Packets\<close>

datatype packet_ty = Msg | Table | TimeSeries | MsgWithTimestamp

fun packet_code :: "packet_ty \<Rightarrow> byte" where
  "packet_code Msg = 0" | "packet_code Table = 1" | "packet_code TimeSeries = 2"
| "packet_code MsgWithTimestamp = 3"

definition packet_of_code :: "byte \<Rightarrow> packet_ty" where
  "packet_of_code b = (if b = 0 then Msg else if b = 1 then Table else if b = 2 then TimeSeries else MsgWithTimestamp)"

type_synonym packet_id = "byte \<times> byte"

definition packet_header_len :: nat where
  "packet_header_len = 4"

text \<open>The identifier of a message type; \<open>hash\<close> is the 16-bit hash of its name.\<close>

definition msg_id :: "(string \<Rightarrow> u16) \<Rightarrow> string \<Rightarrow> packet_id" where
  "msg_id hash name =
     (let bytes = nat_to_le 2 (unat (hash name))
      in if bytes ! 0 = 224 then (223, bytes ! 1) else (bytes ! 0, bytes ! 1))"

text \<open>\<open>ComponentId::new\<close>: the 64-bit hash with its top bit masked.\<close>

definition component_id_new :: "(string \<Rightarrow> u64) \<Rightarrow> string \<Rightarrow> u64" where
  "component_id_new hash name = hash name AND NOT (push_bit 63 1)"

text \<open>A packet under construction: a 4-byte length, the header and the body.\<close>

type_synonym len_packet = "byte list"

definition lp_new :: "packet_ty \<Rightarrow> packet_id \<Rightarrow> len_packet" where
  "lp_new ty id' = u32_to_le (of_nat packet_header_len) @ [packet_code ty] @ [fst id', snd id'] @ [0]"

definition lp_pkt_len :: "len_packet \<Rightarrow> u32 option" where
  "lp_pkt_len p = map_option u32_of_le (get_range p 0 4)"

definition lp_set_len :: "len_packet \<Rightarrow> u32 \<Rightarrow> len_packet" where
  "lp_set_len p len = splice 0 (u32_to_le len) p"

definition lp_push :: "len_packet \<Rightarrow> byte \<Rightarrow> len_packet option" where
  "lp_push p elem = map_option (\<lambda>len. lp_set_len (p @ [elem]) (len + 1)) (lp_pkt_len p)"

definition lp_extend_from_slice :: "len_packet \<Rightarrow> byte list \<Rightarrow> len_packet option" where
  "lp_extend_from_slice p buf = map_option (\<lambda>len. lp_set_len (p @ buf) (len + of_nat (length buf))) (lp_pkt_len p)"

text \<open>\<open>push_aligned\<close> and \<open>extend_aligned\<close> pad to the alignment of the value's type first.\<close>

definition lp_push_aligned :: "len_packet \<Rightarrow> nat \<Rightarrow> byte list \<Rightarrow> len_packet option" where
  "lp_push_aligned p align val =
     (let inner = p @ replicate (pad_len align (length p)) 0 @ val
      in map_option (\<lambda>len. lp_set_len inner (len + of_nat (length inner - length p))) (lp_pkt_len p))"

fun lp_push_zeros :: "nat \<Rightarrow> len_packet \<Rightarrow> len_packet option" where
  "lp_push_zeros 0 p = Some p"
| "lp_push_zeros (Suc n) p = Option.bind (lp_push p 0) (lp_push_zeros n)"

definition lp_pad_for_type :: "len_packet \<Rightarrow> prim_type \<Rightarrow> len_packet option" where
  "lp_pad_for_type p ty = lp_push_zeros (unat (padding ty (of_nat (length p)))) p"

definition lp_msg :: "packet_id \<Rightarrow> len_packet" where
  "lp_msg id' = lp_new Msg id'"

definition lp_msg_with_timestamp :: "packet_id \<Rightarrow> int \<Rightarrow> len_packet option" where
  "lp_msg_with_timestamp id' timestamp = lp_extend_from_slice (lp_new MsgWithTimestamp id') (i64_to_le timestamp)"

definition lp_table :: "packet_id \<Rightarrow> len_packet" where
  "lp_table id' = lp_new Table id'"

definition lp_time_series :: "packet_id \<Rightarrow> len_packet" where
  "lp_time_series id' = lp_new TimeSeries id'"

text \<open>\<open>req_id\<close> is at offset 3 of the packet, 7 of the buffer.\<close>

definition lp_with_request_id :: "len_packet \<Rightarrow> byte \<Rightarrow> len_packet option" where
  "lp_with_request_id p request_id = (if 7 < length p then Some (p[7 := request_id]) else None)"

definition lp_clear :: "len_packet \<Rightarrow> len_packet" where
  "lp_clear p = take (packet_header_len + 4) (lp_set_len p (of_nat packet_header_len))"

section \<open>Parsing packets\<close>

record msg_buf =
  mb_id :: packet_id
  mb_req_id :: byte
  mb_timestamp :: "int option"
  mb_buf :: aslice

record owned_table =
  ot_id :: packet_id
  ot_req_id :: byte
  ot_buf :: aslice

record owned_time_series =
  os_id :: packet_id
  os_req_id :: byte
  os_len :: nat
  os_buf :: aslice

datatype owned_packet = PktMsg msg_buf | PktTable owned_table | PktTimeSeries owned_time_series

definition try_slice_from :: "aslice \<Rightarrow> nat \<Rightarrow> aslice option" where
  "try_slice_from s a = as_get s a (length (snd s))"

definition parse_with_offset :: "caster \<Rightarrow> aslice \<Rightarrow> nat \<Rightarrow> (proto_error + owned_packet) option" where
  "parse_with_offset zc packet_buf offset =
     (case as_get packet_buf offset (length (snd packet_buf)) of
        None \<Rightarrow> None
      | Some pkt \<Rightarrow> Some
          (case zc (PacketOf None) pkt of
             Some e \<Rightarrow> Inl (from_try_cast e)
           | None \<Rightarrow>
               (let bs = snd pkt; id' = (bs ! 1, bs ! 2); req_id = bs ! 3
                in case try_slice_from packet_buf (packet_header_len + offset) of
                     None \<Rightarrow> Inl InvalidPacket
                   | Some buf \<Rightarrow>
                       (case packet_of_code (bs ! 0) of
                          Msg \<Rightarrow> Inr (PktMsg \<lparr>mb_id = id', mb_req_id = req_id, mb_timestamp = None, mb_buf = buf\<rparr>)
                        | MsgWithTimestamp \<Rightarrow>
                            (case as_get buf 0 8 of
                               None \<Rightarrow> Inl InvalidPacket
                             | Some timestamp_buf \<Rightarrow>
                                 (case zc (ReadOne 8) timestamp_buf of
                                    Some e \<Rightarrow> Inl (from_size e)
                                  | None \<Rightarrow>
                                      (case try_slice_from packet_buf (packet_header_len + offset + 8) of
                                         None \<Rightarrow> Inl InvalidPacket
                                       | Some buf \<Rightarrow>
                                           Inr (PktMsg \<lparr>mb_id = id', mb_req_id = req_id,
                                             mb_timestamp = Some (i64_of_le (snd timestamp_buf)), mb_buf = buf\<rparr>))))
                        | Table \<Rightarrow> Inr (PktTable \<lparr>ot_id = id', ot_req_id = req_id, ot_buf = buf\<rparr>)
                        | TimeSeries \<Rightarrow>
                            (case zc SeriesHeader buf of
                               Some e \<Rightarrow> Inl (from_try_cast e)
                             | None \<Rightarrow>
                                 Inr (PktTimeSeries \<lparr>os_id = id', os_req_id = req_id,
                                   os_len = le_to_nat (take 8 (snd buf)), os_buf = buf\<rparr>))))))"

definition parse_packet :: "caster \<Rightarrow> aslice \<Rightarrow> (proto_error + owned_packet) option" where
  "parse_packet zc packet_buf = parse_with_offset zc packet_buf 0"

fun pkt_req_id :: "owned_packet \<Rightarrow> byte" where
  "pkt_req_id (PktMsg m) = mb_req_id m"
| "pkt_req_id (PktTable t) = ot_req_id t"
| "pkt_req_id (PktTimeSeries s) = os_req_id s"

text \<open>
  The arrays of a time series packet.  The end of the timestamps is computed in \<open>usize\<close>
  and wraps for a huge length (release profile).
\<close>

definition series_timestamps :: "caster \<Rightarrow> owned_time_series \<Rightarrow> (proto_error + int list) option" where
  "series_timestamps zc s =
     (let start = 8; end' = (start + os_len s * 8) mod 2 ^ 64
      in case as_get (os_buf s) start end' of
           None \<Rightarrow> Some (Inl BufferUnderflow)
         | Some ts \<Rightarrow>
             (case zc (SliceOf 8 8) ts of
                None \<Rightarrow> Some (Inr (i64_elems (snd ts)))
              | Some e \<Rightarrow> map_option Inl (from_cast e)))"

definition series_data :: "owned_time_series \<Rightarrow> proto_error + aslice" where
  "series_data s =
     (let start = 8; end' = (start + os_len s * 8) mod 2 ^ 64
      in case try_slice_from (os_buf s) end' of None \<Rightarrow> Inl BufferUnderflow | Some d \<Rightarrow> Inr d)"

text \<open>Deserialisation of a message body is a parameter, as is the type's identifier.\<close>

definition mb_parse :: "(byte list \<Rightarrow> nat + 'm) \<Rightarrow> msg_buf \<Rightarrow> proto_error + 'm" where
  "mb_parse from_bytes m = map_err Postcard (from_bytes (snd (mb_buf m)))"

definition mb_try_parse :: "packet_id \<Rightarrow> (byte list \<Rightarrow> nat + 'm) \<Rightarrow> msg_buf \<Rightarrow> (proto_error + 'm) option" where
  "mb_try_parse type_id from_bytes m = (if type_id = mb_id m then None else Some (mb_parse from_bytes m))"

fun msg_from_packet :: "packet_id \<Rightarrow> (byte list \<Rightarrow> nat + 'm) \<Rightarrow> owned_packet \<Rightarrow> proto_error + 'm" where
  "msg_from_packet type_id from_bytes (PktMsg m) =
     (if mb_id m = type_id then mb_parse from_bytes m else Inl InvalidPacket)"
| "msg_from_packet type_id from_bytes _ = Inl InvalidPacket"

fun msg_buf_from_packet :: "owned_packet \<Rightarrow> proto_error + msg_buf" where
  "msg_buf_from_packet (PktMsg m) = Inr m"
| "msg_buf_from_packet _ = Inl InvalidPacket"

fun series_from_packet :: "owned_packet \<Rightarrow> proto_error + owned_time_series" where
  "series_from_packet (PktTimeSeries s) = Inr s"
| "series_from_packet _ = Inl InvalidPacket"

fun table_from_packet :: "owned_packet \<Rightarrow> proto_error + owned_table" where
  "table_from_packet (PktTable t) = Inr t"
| "table_from_packet _ = Inl InvalidPacket"

section \<open>Timestamps\<close>

text \<open>Microseconds; a duration's microsecond count is cast to \<open>i64\<close>, sums wrap (release profile).\<close>

definition ts_add :: "int \<Rightarrow> nat \<Rightarrow> int" where
  "ts_add t micros = i64_wrap (t + i64_wrap (int micros))"

definition ts_sub :: "int \<Rightarrow> nat \<Rightarrow> int" where
  "ts_sub t micros = i64_wrap (t - i64_wrap (int micros))"

text \<open>The difference of two timestamps as an unsigned microsecond count.\<close>

definition ts_diff :: "int \<Rightarrow> int \<Rightarrow> nat" where
  "ts_diff a b = nat (i64_wrap (a - b) mod 2 ^ 64)"

section \<open>Alignment and views\<close>

fun align_log :: "prim_type \<Rightarrow> nat" where
  "align_log U8 = 0" | "align_log U16 = 1" | "align_log U32 = 2" | "align_log U64 = 3"
| "align_log I8 = 0" | "align_log I16 = 1" | "align_log I32 = 2" | "align_log I64 = 3"
| "align_log Bool = 0" | "align_log F32 = 2" | "align_log F64 = 3"

lemma alignment_log: "alignment ty = 2 ^ align_log ty" "align_log ty \<le> 3"
  by (cases ty; simp)+

lemma round_down: "(x :: u64) AND NOT (mask k) = x - take_bit k x"
proof -
  have "(x AND NOT (mask k)) AND (x AND mask k) = 0"
    by (rule bit_eqI) (auto simp: bit_simps)
  moreover have "(x AND NOT (mask k)) OR (x AND mask k) = x"
    by (rule bit_eqI) (auto simp: bit_simps)
  ultimately have "(x AND NOT (mask k)) + (x AND mask k) = x"
    using word_plus_and_or [of "x AND NOT (mask k)" "x AND mask k"] by simp
  then show ?thesis by (simp add: take_bit_eq_mask) (metis add_diff_cancel_right')
qed

lemma round_up_nat: "0 < (a :: nat) \<Longrightarrow> u + (a - 1) - (u + (a - 1)) mod a = u + pad_len a u"
proof -
  assume a: "0 < a"
  define q r where "q = u div a" and "r = u mod a"
  have u: "u = q * a + r" "r < a" using a by (simp_all add: q_def r_def)
  show ?thesis
  proof (cases "r = 0")
    case True
    then have "u + (a - 1) = q * a + (a - 1)" using u by simp
    moreover have "(q * a + (a - 1)) mod a = a - 1" by (simp only: mod_mult_self3) (use a in simp)
    moreover have "pad_len a u = 0" using True u by (simp add: pad_len_def)
    ultimately show ?thesis using True u by simp
  next
    case False
    then have e: "u + (a - 1) = (q + 1) * a + (r - 1)" using u by (simp add: algebra_simps)
    have "((q + 1) * a + (r - 1)) mod a = r - 1" using u(2) by (simp only: mod_mult_self3) simp
    moreover have "pad_len a u = a - r" using False u by (simp add: pad_len_def)
    ultimately show ?thesis unfolding e using u by (simp add: algebra_simps)
  qed
qed

text \<open>The bit trick of \<open>padding\<close> yields the smallest number of bytes that aligns the
  offset, for every offset that does not overflow.\<close>

lemma padding_aligns:
  assumes "unat offset + alignment ty \<le> 2 ^ 64"
  shows "unat (padding ty offset) = pad_len (alignment ty) (unat offset)"
proof -
  let ?k = "align_log ty" and ?a = "alignment ty"
  have k: "?a = 2 ^ ?k" "?k \<le> 3" by (rule alignment_log)+
  have a0: "0 < ?a" using k by simp
  have al: "(of_nat ?a :: u64) = 2 ^ ?k" using k(1) by simp
  have m: "(2 ^ ?k :: u64) - 1 = mask ?k" by (simp add: mask_eq_exp_minus_1)
  let ?r = "offset + mask ?k"
  have mu: "unat (mask ?k :: u64) = ?a - 1"
    by (cases ty) (simp_all add: mask_eq_exp_minus_1)
  have ur: "unat ?r = unat offset + (?a - 1)"
    using assms a0 by (subst unat_add_lem [THEN iffD1]) (simp_all add: mu)
  have "unat (take_bit ?k ?r) = take_bit ?k (unat ?r)" by (rule unsigned_take_bit_eq)
  also have "\<dots> = unat ?r mod ?a" unfolding k(1) by (rule take_bit_eq_mod)
  finally have tb: "unat (take_bit ?k ?r) = unat ?r mod ?a" .
  have "unat (?r - take_bit ?k ?r) = unat ?r - unat ?r mod ?a"
    by (subst unat_sub) (simp_all add: tb word_le_nat_alt)
  then have x: "unat (?r - take_bit ?k ?r) = unat offset + pad_len ?a (unat offset)"
    using ur round_up_nat [OF a0, of "unat offset"] by simp
  have "padding ty offset = (?r - take_bit ?k ?r) - offset"
    by (simp add: padding_def Let_def al m round_down add_diff_eq [symmetric])
  moreover have "unat ((?r - take_bit ?k ?r) - offset) = unat (?r - take_bit ?k ?r) - unat offset"
    by (rule unat_sub) (simp add: word_le_nat_alt x)
  ultimately show ?thesis using x by simp
qed

lemma elems_le_roundtrip:
  assumes "n * k \<le> length bs" "256 ^ k = (2 :: nat) ^ LENGTH('a::len)"
  shows "elems_to_le k (elems_of_le k n bs :: 'a word list) = take (n * k) bs"
  using assms(1)
proof (induction n)
  case 0
  then show ?case by (simp add: elems_to_le_def elems_of_le_def)
next
  case (Suc n)
  have len: "length (slice (n * k) (n * k + k) bs) = k" using Suc.prems by (simp add: length_slice)
  have "le_to_nat (slice (n * k) (n * k + k) bs) < 256 ^ k" using le_to_nat_bound [of "slice (n * k) (n * k + k) bs"] len by simp
  then have u: "unat (of_nat (le_to_nat (slice (n * k) (n * k + k) bs)) :: 'a word) = le_to_nat (slice (n * k) (n * k + k) bs)"
    using assms(2) by (simp add: unat_of_nat)
  have "elems_to_le k (elems_of_le k (Suc n) bs :: 'a word list) = take (n * k) bs @ slice (n * k) (n * k + k) bs"
    using Suc len u by (simp add: elems_to_le_def elems_of_le_def le_simps)
  also have "\<dots> = take (Suc n * k) bs"
    by (simp add: slice_def take_add [symmetric] add.commute)
  finally show ?case .
qed

lemma bools_roundtrip: "bools_ok (take n bs) \<Longrightarrow> bools_to_bytes (bools_of_bytes n bs) = take n bs"
  unfolding bools_to_bytes_def bools_of_bytes_def bools_ok_def map_map by (rule map_idI) auto

lemma view_of_bytes:
  assumes "n * prim_size ty \<le> length bs" "ty = Bool \<longrightarrow> bools_ok (take n bs)"
  shows "cv_as_bytes (view_of ty n bs shape) = take (n * prim_size ty) bs"
    "cv_prim_type (view_of ty n bs shape) = ty" "cv_shape (view_of ty n bs shape) = shape"
proof -
  show "cv_as_bytes (view_of ty n bs shape) = take (n * prim_size ty) bs"
    using assms by (cases ty) (simp_all add: elems_le_roundtrip bools_roundtrip)
qed (cases ty; simp)+

lemma checked_product_Inr: "checked_product xs acc = Inr n \<Longrightarrow> n = acc * prod_list xs"
  by (induction xs acc rule: checked_product.induct) (auto simp: mult.assoc split: if_splits)

lemma try_from_bytes_shape_spec:
  assumes zc: "zc_spec zc"
  shows "\<exists>r. try_from_bytes_shape zc buf shape ty = Some r \<and>
    ((\<exists>v. r = Inr v) \<longleftrightarrow> (\<exists>n. checked_product shape 1 = Inr n \<and> fst buf mod alignment ty = 0 \<and>
       n * prim_size ty \<le> length (snd buf) \<and> (ty = Bool \<longrightarrow> bools_ok (take n (snd buf))))) \<and>
    (\<forall>v. r = Inr v \<longrightarrow> cv_as_bytes v = take (prod_list shape * prim_size ty) (snd buf) \<and>
       cv_prim_type v = ty \<and> cv_shape v = shape)"
proof (cases "checked_product shape 1")
  case (Inl e)
  then show ?thesis by (simp add: try_from_bytes_shape_def)
next
  case (Inr n)
  let ?req = "PrefixOf (prim_size ty) (alignment ty) n (ty = Bool)"
  have np: "n = prod_list shape" using checked_product_Inr [OF Inr] by simp
  have fits: "zc ?req buf = None \<longleftrightarrow> fst buf mod alignment ty = 0 \<and> n * prim_size ty \<le> length (snd buf) \<and>
      (ty = Bool \<longrightarrow> bools_ok (take n (snd buf)))"
    using zc_fits [OF zc, of ?req buf] by (cases buf) auto
  show ?thesis
  proof (cases "zc ?req buf")
    case None
    with fits have f: "fst buf mod alignment ty = 0" "n * prim_size ty \<le> length (snd buf)" "ty = Bool \<longrightarrow> bools_ok (take n (snd buf))"
      by simp_all
    note v = view_of_bytes [OF f(2,3), of shape]
    show ?thesis using None Inr f v np by (simp add: try_from_bytes_shape_def)
  next
    case (Some e)
    then have nf: "zc ?req buf \<noteq> None" by simp
    have "ty \<noteq> Bool \<Longrightarrow> e \<noteq> CastValidity"
      using zc Some unfolding zc_spec_def by (metis cast_fallible.simps(2))
    then have "\<exists>x. try_from_bytes_shape zc buf shape ty = Some (Inl x)"
      using Inr Some by (cases e) (auto simp: try_from_bytes_shape_def)
    with nf fits Inr show ?thesis by auto
  qed
qed

lemma try_from_bytes_shape_total: "zc_spec zc \<Longrightarrow> \<exists>r. try_from_bytes_shape zc buf shape ty = Some r"
  using try_from_bytes_shape_spec by blast

section \<open>Packets on the wire\<close>

lemma lp_new_length [simp]: "length (lp_new ty id') = 8"
  by (simp add: lp_new_def)

text \<open>A packet under construction: the header with a request id, and a body.\<close>

definition lp_of :: "packet_ty \<Rightarrow> packet_id \<Rightarrow> byte \<Rightarrow> byte list \<Rightarrow> len_packet" where
  "lp_of ty id' rid body =
     u32_to_le (of_nat (4 + length body)) @ [packet_code ty, fst id', snd id', rid] @ body"

lemma lp_of_new: "lp_new ty id' = lp_of ty id' 0 []"
  by (simp add: lp_new_def lp_of_def packet_header_len_def)

lemma lp_of_length [simp]: "length (lp_of ty id' rid body) = 8 + length body"
  by (simp add: lp_of_def)

lemma lp_of_pkt_len: "lp_pkt_len (lp_of ty id' rid body) = Some (of_nat (4 + length body))"
  by (simp add: lp_pkt_len_def get_range_def lp_of_def slice_def le_simps)

lemma lp_of_grow:
  "lp_set_len (lp_of ty id' rid body @ xs) (of_nat (4 + length body) + of_nat (length xs)) = lp_of ty id' rid (body @ xs)"
  by (simp add: lp_set_len_def lp_of_def splice_def add.assoc)

text \<open>
  Every operation of the builder keeps the packet in this form, with the length field equal
  to the number of bytes that follow it.
\<close>

lemma lp_of_ops:
  "lp_push (lp_of ty id' rid body) b = Some (lp_of ty id' rid (body @ [b]))"
  "lp_extend_from_slice (lp_of ty id' rid body) bs = Some (lp_of ty id' rid (body @ bs))"
  "lp_push_aligned (lp_of ty id' rid body) align bs =
     Some (lp_of ty id' rid (body @ replicate (pad_len align (8 + length body)) 0 @ bs))"
  "lp_with_request_id (lp_of ty id' rid body) r = Some (lp_of ty id' r body)"
proof -
  show "lp_push (lp_of ty id' rid body) b = Some (lp_of ty id' rid (body @ [b]))"
    using lp_of_grow [of ty id' rid body "[b]"] by (simp add: lp_push_def lp_of_pkt_len)
  show "lp_extend_from_slice (lp_of ty id' rid body) bs = Some (lp_of ty id' rid (body @ bs))"
    using lp_of_grow [of ty id' rid body bs] by (simp add: lp_extend_from_slice_def lp_of_pkt_len)
  show "lp_push_aligned (lp_of ty id' rid body) align bs =
     Some (lp_of ty id' rid (body @ replicate (pad_len align (8 + length body)) 0 @ bs))"
    using lp_of_grow [of ty id' rid body "replicate (pad_len align (8 + length body)) 0 @ bs"]
    by (simp add: lp_push_aligned_def lp_of_pkt_len Let_def)
  have "length (u32_to_le w) = 4" for w by simp
  then show "lp_with_request_id (lp_of ty id' rid body) r = Some (lp_of ty id' r body)"
    by (simp add: lp_with_request_id_def lp_of_def list_update_append)
qed

lemma packet_of_code_inverse [simp]: "packet_of_code (packet_code ty) = ty"
  by (cases ty) (simp_all add: packet_of_code_def)

lemma packet_code_valid: "unat (packet_code ty) < 4"
  by (cases ty) simp_all

text \<open>A table packet assembled by the builder (any pushes of bytes, slices and aligned values,
  then a request id) carries its own length and parses back to its identifier, request id and
  body, at any address.\<close>

theorem table_packet_roundtrip:
  assumes zc: "zc_spec zc" and len: "4 + length body < 2 ^ 32"
    and p1: "lp_extend_from_slice (lp_table id') body = Some p1" and p2: "lp_with_request_id p1 rid = Some p2"
  shows "map_option unat (lp_pkt_len p2) = Some (length p2 - 4) \<and>
    parse_packet zc (addr, drop 4 p2) =
      Some (Inr (PktTable \<lparr>ot_id = id', ot_req_id = rid, ot_buf = (addr + 4, body)\<rparr>))"
proof -
  have "p1 = lp_of Table id' 0 body"
    using p1 lp_of_ops(2) [of Table id' 0 "[]" body] by (simp add: lp_table_def lp_of_new)
  then have p: "p2 = lp_of Table id' rid body" using p2 lp_of_ops(4) by simp
  have pl: "lp_pkt_len p2 = Some (of_nat (4 + length body))" unfolding p by (rule lp_of_pkt_len)
  have u: "unat (of_nat (4 + length body) :: u32) = 4 + length body"
    using len by (simp only: unat_of_nat) simp
  have d: "drop 4 p2 = [packet_code Table, fst id', snd id', rid] @ body" by (simp add: p lp_of_def)
  have "zc (PacketOf None) (addr, drop 4 p2) = None" by (simp add: zc_fits [OF zc] d)
  then have "parse_packet zc (addr, drop 4 p2) =
      Some (Inr (PktTable \<lparr>ot_id = id', ot_req_id = rid, ot_buf = (addr + 4, body)\<rparr>))"
    unfolding d
    by (simp add: parse_packet_def parse_with_offset_def as_get_def get_range_def slice_def try_slice_from_def
        packet_header_len_def packet_of_code_def Let_def)
  moreover have "length p2 - 4 = 4 + length body" by (simp add: p)
  ultimately show ?thesis by (simp only: pl option.map u simp_thms)
qed


text \<open>A message stamped with a time parses back to its timestamp and body.\<close>

lemma timestamped_parses:
  assumes zc: "zc_spec zc" and t: "i64_range t"
  shows "parse_packet zc (addr, drop 4 (lp_of MsgWithTimestamp id' rid (i64_to_le t @ body))) =
    Some (Inr (PktMsg \<lparr>mb_id = id', mb_req_id = rid, mb_timestamp = Some t, mb_buf = (addr + 12, body)\<rparr>))"
proof -
  let ?d = "[packet_code MsgWithTimestamp, fst id', snd id', rid] @ i64_to_le t @ body"
  have d: "drop 4 (lp_of MsgWithTimestamp id' rid (i64_to_le t @ body)) = ?d" by (simp add: lp_of_def)
  have c1: "zc (PacketOf None) (addr, ?d) = None" by (simp add: zc_fits [OF zc])
  have c2: "zc (ReadOne 8) (a, i64_to_le t) = None" for a by (simp add: zc_fits [OF zc])
  have s0: "as_get (addr, ?d) 0 (length ?d) = Some (addr, ?d)" by (simp add: as_get_def get_range_def slice_def)
  have s1: "try_slice_from (addr, ?d) 4 = Some (addr + 4, i64_to_le t @ body)"
    by (simp add: try_slice_from_def as_get_def get_range_def slice_def)
  have s2: "as_get (addr + 4, i64_to_le t @ body) 0 8 = Some (addr + 4, i64_to_le t)"
    by (simp add: as_get_def get_range_def slice_def)
  have s3: "try_slice_from (addr, ?d) 12 = Some (addr + 12, body)"
    by (simp add: try_slice_from_def as_get_def get_range_def slice_def)
  have code: "packet_of_code (?d ! 0) = MsgWithTimestamp" by (simp add: packet_of_code_def)
  have "parse_with_offset zc (addr, ?d) 0 =
    Some (Inr (PktMsg \<lparr>mb_id = (?d ! 1, ?d ! 2), mb_req_id = ?d ! 3, mb_timestamp = Some (i64_of_le (i64_to_le t)), mb_buf = (addr + 12, body)\<rparr>))"
    unfolding parse_with_offset_def Let_def packet_header_len_def
    by (simp only: s0 fst_conv snd_conv option.case c1 add_0_right s1 code packet_ty.case s2 c2 numeral_plus_numeral add_num_simps s3)
  then show ?thesis using t by (simp add: parse_packet_def d le_simps)
qed

text \<open>So does a plain message.\<close>

lemma msg_parses:
  assumes "zc_spec zc"
  shows "parse_packet zc (addr, drop 4 (lp_of Msg id' rid body)) =
    Some (Inr (PktMsg \<lparr>mb_id = id', mb_req_id = rid, mb_timestamp = None, mb_buf = (addr + 4, body)\<rparr>))"
proof -
  have d: "drop 4 (lp_of Msg id' rid body) = [packet_code Msg, fst id', snd id', rid] @ body" by (simp add: lp_of_def)
  have "zc (PacketOf None) (addr, drop 4 (lp_of Msg id' rid body)) = None" by (simp add: zc_fits [OF assms] d)
  then show ?thesis unfolding d
    by (simp add: parse_packet_def parse_with_offset_def as_get_def get_range_def slice_def try_slice_from_def
        packet_header_len_def packet_of_code_def Let_def)
qed

end
