(* ===== verification/VTable.thy ===== *)
theory VTable
  imports ProtoTypes
begin

text \<open>
  Virtual tables (\<open>libs/metor-proto/src/vtable.rs\<close>): a vector of operations that refer to
  each other by index, a vector of fields and a data section.  \<open>realize\<close> and the loop of
  \<open>realize_fields\<close> follow the references; on a vtable whose references form a cycle they do
  not return, so they are partial functions and \<open>None\<close> is not returning (or the
  unreachable panic of a cast conversion).  \<open>base\<close> is the address of the data section.
  The builder turns a graph of shared operation nodes into a vtable; a node's address is the
  number in its \<open>Arc\<close>.
\<close>

section \<open>Vtables\<close>

datatype op =
    OpData u32 u32
  | OpTable u32 u32
  | OpNone
  | OpComponent u32
  | OpSchema u32 u32 u32
  | OpTimestamp u32 u32
  | OpExt u32 packet_id u32

record vfield =
  vf_offset :: u32
  vf_len :: u32
  vf_arg :: u32

record vtable =
  vt_ops :: "op list"
  vt_fields :: "vfield list"
  vt_data :: "byte list"

datatype realized_op =
    RData aslice
  | RTable "aslice option" "nat \<times> nat"
  | RComponent u64
  | RSchema aslice prim_type u32
  | RTimestamp "int option" "(nat \<times> nat) option" u32
  | RExt packet_id aslice u32
  | RNone

fun as_slice :: "realized_op \<Rightarrow> aslice option" where
  "as_slice (RData data) = Some data"
| "as_slice (RTable s _) = s"
| "as_slice _ = None"

definition as_component_id :: "realized_op \<Rightarrow> u64 option" where
  "as_component_id r =
     (case as_slice r of
        None \<Rightarrow> None
      | Some data \<Rightarrow> if length (snd data) = 8 then Some (u64_of_le (snd data)) else None)"

definition as_prim_ty :: "caster \<Rightarrow> realized_op \<Rightarrow> prim_type option" where
  "as_prim_ty zc r =
     (case as_slice r of
        None \<Rightarrow> None
      | Some data \<Rightarrow> if zc ReadPrim data = None then prim_of_code (le_to_nat (snd data)) else None)"

fun as_timestamp :: "realized_op \<Rightarrow> (int option \<times> (nat \<times> nat) option \<times> u32) option" where
  "as_timestamp (RTimestamp t r a) = Some (t, r, a)"
| "as_timestamp _ = None"

fun as_table_range :: "realized_op \<Rightarrow> (nat \<times> nat) option" where
  "as_table_range (RTable _ rng) = Some rng"
| "as_table_range _ = None"

definition get_op :: "vtable \<Rightarrow> u32 \<Rightarrow> proto_error + op" where
  "get_op vt op_ref = ok_or OpRefNotFound (get_index (vt_ops vt) (unat op_ref))"

section \<open>Evaluation\<close>

text \<open>The branches of \<open>realize\<close> once the operands are realized.\<close>

definition realize_data :: "nat \<Rightarrow> vtable \<Rightarrow> u32 \<Rightarrow> u32 \<Rightarrow> proto_error + realized_op" where
  "realize_data base vt offset len =
     (case as_get (base, vt_data vt) (unat offset) (unat offset + unat len) of
        None \<Rightarrow> Inl BufferOverflow | Some d \<Rightarrow> Inr (RData d))"

definition realize_table :: "aslice option \<Rightarrow> u32 \<Rightarrow> u32 \<Rightarrow> proto_error + realized_op" where
  "realize_table table offset len =
     (let range = (unat offset, unat offset + unat len)
      in case table of
           None \<Rightarrow> Inr (RTable None range)
         | Some t \<Rightarrow>
             (case as_get t (fst range) (snd range) of
                None \<Rightarrow> Inl BufferUnderflow | Some s \<Rightarrow> Inr (RTable (Some s) range)))"

definition realize_timestamp :: "caster \<Rightarrow> realized_op \<Rightarrow> u32 \<Rightarrow> proto_error + realized_op" where
  "realize_timestamp zc source arg =
     (case as_slice source of
        None \<Rightarrow> Inr (RTimestamp None (as_table_range source) arg)
      | Some data \<Rightarrow>
          (case zc (ReadOne 8) data of
             None \<Rightarrow> Inr (RTimestamp (Some (i64_of_le (snd data))) (as_table_range source) arg)
           | Some e \<Rightarrow> Inl (from_size e)))"

definition realize_schema :: "caster \<Rightarrow> prim_type \<Rightarrow> realized_op \<Rightarrow> u32 \<Rightarrow> proto_error + realized_op" where
  "realize_schema zc ty dim arg =
     (case as_slice dim of
        None \<Rightarrow> Inl InvalidOp
      | Some d \<Rightarrow> (case zc (SliceOf 8 8) d of None \<Rightarrow> Inr (RSchema d ty arg) | Some e \<Rightarrow> Inl (from_try_cast e)))"

partial_function (option) realize ::
  "caster \<Rightarrow> nat \<Rightarrow> vtable \<Rightarrow> u32 \<Rightarrow> aslice option \<Rightarrow> (proto_error + realized_op) option" where
  "realize zc base vt op_ref table =
     (case get_op vt op_ref of
        Inl e \<Rightarrow> Some (Inl e)
      | Inr (OpData offset len) \<Rightarrow> Some (realize_data base vt offset len)
      | Inr (OpTable offset len) \<Rightarrow> Some (realize_table table offset len)
      | Inr OpNone \<Rightarrow> Some (Inr RNone)
      | Inr (OpComponent c) \<Rightarrow>
          Option.bind (realize zc base vt c table) (\<lambda>r. Some
            (bind_result r (\<lambda>r. map_sum id RComponent (ok_or InvalidOp (as_component_id r)))))
      | Inr (OpSchema ty dim arg) \<Rightarrow>
          Option.bind (realize zc base vt ty table) (\<lambda>r.
            (case bind_result r (\<lambda>r. ok_or InvalidOp (as_prim_ty zc r)) of
               Inl e \<Rightarrow> Some (Inl e)
             | Inr ty \<Rightarrow>
                 Option.bind (realize zc base vt dim table) (\<lambda>r. Some
                   (bind_result r (\<lambda>r. realize_schema zc ty r arg)))))
      | Inr (OpTimestamp source arg) \<Rightarrow>
          Option.bind (realize zc base vt source table) (\<lambda>r. Some
            (bind_result r (\<lambda>r. realize_timestamp zc r arg)))
      | Inr (OpExt arg id' data) \<Rightarrow>
          Option.bind (realize zc base vt data table) (\<lambda>r. Some
            (bind_result r (\<lambda>r. map_sum id (\<lambda>d. RExt id' d arg) (ok_or InvalidOp (as_slice r))))))"

record realized_field =
  rf_component_id :: u64
  rf_shape :: "nat list"
  rf_ty :: prim_type
  rf_offset :: nat
  rf_view :: "component_view option"
  rf_timestamp :: "int option"

definition dims_of :: "byte list \<Rightarrow> nat list" where
  "dims_of bs = map unat (elems_of_le 8 (length bs div 8) bs :: u64 list)"

text \<open>The \<open>Component\<close> branch of the loop, which ends it.\<close>

definition finish_field :: "caster \<Rightarrow> vfield \<Rightarrow> aslice option \<Rightarrow> u64 \<Rightarrow> int option option \<Rightarrow>
    (aslice \<times> prim_type) option \<Rightarrow> (proto_error + realized_field) option" where
  "finish_field zc fld table cid timestamp schema =
     (case schema of
        None \<Rightarrow> Some (Inl SchemaNotFound)
      | Some (dim, ty) \<Rightarrow>
          (case zc (SliceOf 8 8) dim of
             Some e \<Rightarrow> map_option Inl (from_cast e)
           | None \<Rightarrow>
               (let shape = dims_of (snd dim); offset = unat (vf_offset fld);
                    done' = (\<lambda>view. Inr \<lparr>rf_component_id = cid, rf_shape = shape, rf_ty = ty, rf_offset = offset,
                       rf_view = view, rf_timestamp = Option.bind timestamp id\<rparr>)
                in case table of
                     None \<Rightarrow> Some (done' None)
                   | Some t \<Rightarrow>
                       (case as_get t offset (offset + unat (vf_len fld)) of
                          None \<Rightarrow> Some (Inl BufferUnderflow)
                        | Some data \<Rightarrow>
                            map_option (\<lambda>r. bind_result r (\<lambda>view. done' (Some view)))
                              (try_from_bytes_shape zc data shape ty)))))"

partial_function (option) resolve ::
  "caster \<Rightarrow> nat \<Rightarrow> vtable \<Rightarrow> vfield \<Rightarrow> aslice option \<Rightarrow> realized_op \<Rightarrow> int option option \<Rightarrow>
   (aslice \<times> prim_type) option \<Rightarrow> (proto_error + realized_field) option" where
  "resolve zc base vt fld table rop timestamp schema =
     (case rop of
        RComponent cid \<Rightarrow> finish_field zc fld table cid timestamp schema
      | RSchema dim ty arg \<Rightarrow>
          Option.bind (realize zc base vt arg table) (\<lambda>r.
            (case r of Inl e \<Rightarrow> Some (Inl e) | Inr rop \<Rightarrow> resolve zc base vt fld table rop timestamp (Some (dim, ty))))
      | RTimestamp t rng arg \<Rightarrow>
          Option.bind (realize zc base vt arg table) (\<lambda>r.
            (case r of Inl e \<Rightarrow> Some (Inl e) | Inr rop \<Rightarrow> resolve zc base vt fld table rop (Some t) schema))
      | RExt id' data arg \<Rightarrow>
          Option.bind (realize zc base vt arg table) (\<lambda>r.
            (case r of Inl e \<Rightarrow> Some (Inl e) | Inr rop \<Rightarrow> resolve zc base vt fld table rop timestamp schema))
      | RData _ \<Rightarrow> Some (Inl InvalidOp)
      | RTable _ _ \<Rightarrow> Some (Inl InvalidOp)
      | RNone \<Rightarrow> Some (Inl InvalidOp))"

definition realize_field :: "caster \<Rightarrow> nat \<Rightarrow> vtable \<Rightarrow> aslice option \<Rightarrow> vfield \<Rightarrow> (proto_error + realized_field) option" where
  "realize_field zc base vt table fld =
     Option.bind (realize zc base vt (vf_arg fld) table) (\<lambda>r.
       (case r of Inl e \<Rightarrow> Some (Inl e) | Inr rop \<Rightarrow> resolve zc base vt fld table rop None None))"

text \<open>
  \<open>apply\<close>: fields are realized one at a time and handed to the sink, whose state is
  threaded; the first error of either kind stops.  A field without a view is a panic; a
  sink may panic too.
\<close>

fun apply_fields :: "caster \<Rightarrow> nat \<Rightarrow> vtable \<Rightarrow> aslice \<Rightarrow> vfield list \<Rightarrow>
    ('s \<Rightarrow> u64 \<Rightarrow> component_view \<Rightarrow> int option \<Rightarrow> (('e + unit) \<times> 's) option) \<Rightarrow> 's \<Rightarrow>
    ((proto_error + ('e + unit)) \<times> 's) option" where
  "apply_fields zc base vt table [] sink s = Some (Inr (Inr ()), s)"
| "apply_fields zc base vt table (f # fs) sink s =
     (case realize_field zc base vt (Some table) f of
        None \<Rightarrow> None
      | Some (Inl e) \<Rightarrow> Some (Inl e, s)
      | Some (Inr rf) \<Rightarrow>
          (case rf_view rf of
             None \<Rightarrow> None
           | Some view \<Rightarrow>
               (case sink s (rf_component_id rf) view (rf_timestamp rf) of
                  None \<Rightarrow> None
                | Some (Inl err, s') \<Rightarrow> Some (Inr (Inl err), s')
                | Some (Inr _, s') \<Rightarrow> apply_fields zc base vt table fs sink s')))"

definition apply_table :: "caster \<Rightarrow> nat \<Rightarrow> vtable \<Rightarrow> aslice \<Rightarrow>
    ('s \<Rightarrow> u64 \<Rightarrow> component_view \<Rightarrow> int option \<Rightarrow> (('e + unit) \<times> 's) option) \<Rightarrow> 's \<Rightarrow>
    ((proto_error + ('e + unit)) \<times> 's) option" where
  "apply_table zc base vt table sink s = apply_fields zc base vt table (vt_fields vt) sink s"

text \<open>\<open>OwnedTable::sink\<close>: the vtable registered under the packet's id is applied to its body.\<close>

definition table_sink :: "caster \<Rightarrow> nat \<Rightarrow> (packet_id \<Rightarrow> vtable option) \<Rightarrow> owned_table \<Rightarrow>
    ('s \<Rightarrow> u64 \<Rightarrow> component_view \<Rightarrow> int option \<Rightarrow> (('e + unit) \<times> 's) option) \<Rightarrow> 's \<Rightarrow>
    ((proto_error + ('e + unit)) \<times> 's) option" where
  "table_sink zc base registry t sink s =
     (case registry (ot_id t) of
        None \<Rightarrow> Some (Inl VTableNotFound, s)
      | Some vt \<Rightarrow> apply_table zc base vt (ot_buf t) sink s)"

section \<open>The builder\<close>

datatype op_builder =
    BData nat "byte list"
  | BTable u32 u32
  | BComponent arc
  | BSchema arc arc arc
  | BTimestamp arc arc
  | BExt packet_id arc arc
and arc = Arc nat op_builder

record field_builder =
  fb_offset :: u32
  fb_len :: u32
  fb_arg :: arc

definition offset_by :: "field_builder \<Rightarrow> u32 \<Rightarrow> field_builder" where
  "offset_by f offset = f\<lparr>fb_offset := fb_offset f + offset\<rparr>"

text \<open>The node constructors; each takes the addresses of the nodes it allocates.\<close>

definition b_raw_table :: "nat \<Rightarrow> u32 \<Rightarrow> u32 \<Rightarrow> arc" where
  "b_raw_table i offset len = Arc i (BTable offset len)"

definition b_component :: "nat \<Rightarrow> nat \<Rightarrow> u64 \<Rightarrow> arc" where
  "b_component i j cid = Arc i (BComponent (Arc j (BData 8 (u64_to_le cid))))"

definition b_schema :: "nat \<Rightarrow> nat \<Rightarrow> nat \<Rightarrow> prim_type \<Rightarrow> u64 list \<Rightarrow> arc \<Rightarrow> arc" where
  "b_schema i j k ty dim arg =
     Arc i (BSchema (Arc j (BData 8 (nat_to_le 8 (prim_code ty)))) (Arc k (BData 8 (elems_to_le 8 dim))) arg)"

definition b_timestamp :: "nat \<Rightarrow> arc \<Rightarrow> arc \<Rightarrow> arc" where
  "b_timestamp i source arg = Arc i (BTimestamp source arg)"

text \<open>\<open>encode\<close> is the serialiser of the extension's message.\<close>

definition b_ext :: "nat \<Rightarrow> nat \<Rightarrow> packet_id \<Rightarrow> ('d \<Rightarrow> byte list) \<Rightarrow> 'd \<Rightarrow> arc \<Rightarrow> arc" where
  "b_ext i j id' encode d arg = Arc i (BExt id' (Arc j (BData 1 (encode d))) arg)"

definition b_raw_field :: "u32 \<Rightarrow> u32 \<Rightarrow> arc \<Rightarrow> field_builder" where
  "b_raw_field offset len arg = \<lparr>fb_offset = offset, fb_len = len, fb_arg = arg\<rparr>"

record vtable_builder =
  vb_vtable :: vtable
  vb_visited :: "nat \<Rightarrow> u32 option"

definition vb_default :: vtable_builder where
  "vb_default = \<lparr>vb_vtable = \<lparr>vt_ops = [], vt_fields = [], vt_data = []\<rparr>, vb_visited = (\<lambda>_. None)\<rparr>"

text \<open>Appending an operation and recording the node's address, at the end of \<open>visit\<close>.\<close>

definition emit :: "vtable_builder \<Rightarrow> nat \<Rightarrow> op \<Rightarrow> u32 \<times> vtable_builder" where
  "emit b i op' =
     (let op_ref = of_nat (length (vt_ops (vb_vtable b)))
      in (op_ref, \<lparr>vb_vtable = (vb_vtable b)\<lparr>vt_ops := vt_ops (vb_vtable b) @ [op']\<rparr>,
                   vb_visited = (vb_visited b)(i \<mapsto> op_ref)\<rparr>))"

definition push_data :: "vtable_builder \<Rightarrow> nat \<Rightarrow> byte list \<Rightarrow> op \<times> vtable_builder" where
  "push_data b align data =
     (let d = vt_data (vb_vtable b);
          padded = d @ replicate (pad_len align (length d)) 0
      in (OpData (of_nat (length padded)) (of_nat (length data)),
          b\<lparr>vb_vtable := (vb_vtable b)\<lparr>vt_data := padded @ data\<rparr>\<rparr>))"

fun visit_node :: "vtable_builder \<Rightarrow> op_builder \<Rightarrow> op \<times> vtable_builder"
  and visit :: "vtable_builder \<Rightarrow> arc \<Rightarrow> u32 \<times> vtable_builder" where
  "visit_node b (BData align data) = push_data b align data"
| "visit_node b (BTable offset len) = (OpTable offset len, b)"
| "visit_node b (BComponent c) = (let (c', b1) = visit b c in (OpComponent c', b1))"
| "visit_node b (BSchema ty dim arg) =
     (let (ty', b1) = visit b ty; (dim', b2) = visit b1 dim; (arg', b3) = visit b2 arg
      in (OpSchema ty' dim' arg', b3))"
| "visit_node b (BTimestamp source arg) =
     (let (source', b1) = visit b source; (arg', b2) = visit b1 arg in (OpTimestamp source' arg', b2))"
| "visit_node b (BExt id' data arg) =
     (let (arg', b1) = visit b arg; (data', b2) = visit b1 data in (OpExt arg' id' data', b2))"
| "visit b (Arc i n) =
     (case vb_visited b i of
        Some r \<Rightarrow> (r, b)
      | None \<Rightarrow> (let (op', b1) = visit_node b n in emit b1 i op'))"

fun build_fields :: "vtable_builder \<Rightarrow> field_builder list \<Rightarrow> vtable_builder" where
  "build_fields b [] = b"
| "build_fields b (f # fs) =
     (let (arg, b1) = visit b (fb_arg f);
          fld = \<lparr>vf_offset = fb_offset f, vf_len = fb_len f, vf_arg = arg\<rparr>
      in build_fields (b1\<lparr>vb_vtable := (vb_vtable b1)\<lparr>vt_fields := vt_fields (vb_vtable b1) @ [fld]\<rparr>\<rparr>) fs)"

definition build_vtable :: "field_builder list \<Rightarrow> vtable" where
  "build_vtable fbs = vb_vtable (build_fields vb_default fbs)"

end
