(* ===== verification/VTableCorrect.thy ===== *)
theory VTableCorrect
  imports VTable
begin

text \<open>
  Correctness of virtual tables: the evaluator returns on every vtable whose operations only
  refer to earlier ones and does not return on a cyclic one; the builder produces such
  vtables, and evaluating a built field yields what the operation tree says.
\<close>

section \<open>Termination\<close>

fun op_refs :: "op \<Rightarrow> u32 list" where
  "op_refs (OpComponent c) = [c]"
| "op_refs (OpSchema ty dim arg) = [ty, dim, arg]"
| "op_refs (OpTimestamp source arg) = [source, arg]"
| "op_refs (OpExt arg _ data) = [arg, data]"
| "op_refs _ = []"

definition backward :: "vtable \<Rightarrow> bool" where
  "backward vt \<longleftrightarrow> (\<forall>i < length (vt_ops vt). \<forall>r \<in> set (op_refs (vt_ops vt ! i)). unat r < i)"

lemma get_op_Inr: "get_op vt r = Inr op' \<longleftrightarrow> unat r < length (vt_ops vt) \<and> vt_ops vt ! unat r = op'"
  by (auto simp: get_op_def get_index_def ok_or_def split: if_splits)

lemma backward_ref: "backward vt \<Longrightarrow> get_op vt r = Inr op' \<Longrightarrow> s \<in> set (op_refs op') \<Longrightarrow> unat s < unat r"
  by (auto simp: backward_def get_op_Inr)

lemma realize_total:
  assumes b: "backward vt"
  shows "\<exists>x. realize zc base vt r table = Some x"
proof (induction "unat r" arbitrary: r rule: less_induct)
  case less
  have IH: "\<exists>x. realize zc base vt s table = Some x" if "get_op vt r = Inr op'" "s \<in> set (op_refs op')" for s op'
    using less backward_ref [OF b that] by blast
  show ?case
  proof (cases "get_op vt r")
    case (Inl e)
    then show ?thesis by (simp add: realize.simps [of zc base vt r])
  next
    case (Inr op')
    show ?thesis
    proof (cases op')
      case (OpComponent c)
      with IH [OF Inr, of c] Inr show ?thesis by (auto simp: realize.simps [of zc base vt r])
    next
      case (OpSchema ty dim arg)
      with IH [OF Inr, of ty] IH [OF Inr, of dim] Inr show ?thesis
        by (auto simp: realize.simps [of zc base vt r] split: sum.splits)
    next
      case (OpTimestamp source arg)
      with IH [OF Inr, of source] Inr show ?thesis by (auto simp: realize.simps [of zc base vt r])
    next
      case (OpExt arg i data)
      with IH [OF Inr, of data] Inr show ?thesis by (auto simp: realize.simps [of zc base vt r])
    qed (use Inr in \<open>simp_all add: realize.simps [of zc base vt r]\<close>)
  qed
qed

text \<open>The continuation of a realized operation refers below the operation.\<close>

fun rop_arg :: "realized_op \<Rightarrow> u32 option" where
  "rop_arg (RSchema _ _ arg) = Some arg"
| "rop_arg (RTimestamp _ _ arg) = Some arg"
| "rop_arg (RExt _ _ arg) = Some arg"
| "rop_arg _ = None"

lemma realize_schema_arg: "realize_schema zc ty d arg = Inr rop \<Longrightarrow> rop_arg rop = Some arg"
  by (auto simp: realize_schema_def split: option.splits)

lemma realize_timestamp_arg: "realize_timestamp zc src arg = Inr rop \<Longrightarrow> rop_arg rop = Some arg"
  by (auto simp: realize_timestamp_def split: option.splits)

lemma realize_arg:
  assumes "backward vt" "realize zc base vt r table = Some (Inr rop)" "rop_arg rop = Some a"
  shows "unat a < unat r"
proof -
  from assms(2) obtain op' where op': "get_op vt r = Inr op'"
    by (cases "get_op vt r") (simp_all add: realize.simps [of zc base vt r])
  have "a \<in> set (op_refs op')"
  proof (cases op')
    case (OpComponent c)
    then show ?thesis using assms(2,3) op'
      by (auto simp: realize.simps [of zc base vt r] bind_eq_Some_conv bind_result_Inr_iff ok_or_def split: option.splits)
  next
    case (OpSchema ty dim arg)
    let ?f = "\<lambda>r. ok_or InvalidOp (as_prim_ty zc r)"
    from assms(2) op' OpSchema obtain y where "(case bind_result y ?f of Inl e \<Rightarrow> Some (Inl e)
        | Inr ty \<Rightarrow> Option.bind (realize zc base vt dim table) (\<lambda>r. Some (bind_result r (\<lambda>r. realize_schema zc ty r arg)))) = Some (Inr rop)"
      by (auto simp: realize.simps [of zc base vt r] bind_eq_Some_conv simp del: bind_result.simps split del: if_split)
    then obtain ty' d where "realize_schema zc ty' d arg = Inr rop"
      by (cases "bind_result y ?f") (auto simp: bind_eq_Some_conv bind_result_Inr_iff)
    then show ?thesis using realize_schema_arg assms(3) OpSchema by fastforce
  next
    case (OpTimestamp source arg)
    then obtain src where "realize_timestamp zc src arg = Inr rop" using assms(2) op'
      by (auto simp: realize.simps [of zc base vt r] bind_eq_Some_conv bind_result_Inr_iff)
    then show ?thesis using realize_timestamp_arg assms(3) OpTimestamp by fastforce
  next
    case (OpExt arg i data)
    then show ?thesis using assms(2,3) op'
      by (auto simp: realize.simps [of zc base vt r] bind_eq_Some_conv bind_result_Inr_iff ok_or_def split: option.splits)
  next
    case (OpData off len)
    then show ?thesis using assms(2,3) op' by (auto simp: realize.simps [of zc base vt r] realize_data_def split: option.splits)
  next
    case (OpTable off len)
    then show ?thesis using assms(2,3) op' by (auto simp: realize.simps [of zc base vt r] realize_table_def Let_def split: option.splits)
  next
    case OpNone
    then show ?thesis using assms(2,3) op' by (auto simp: realize.simps [of zc base vt r])
  qed
  with backward_ref [OF assms(1) op'] show ?thesis by blast
qed

lemma finish_total:
  assumes "zc_spec zc"
  shows "\<exists>x. finish_field zc fld table cid ts sc = Some x"
proof (cases sc)
  case None
  then show ?thesis by (simp add: finish_field_def)
next
  case (Some p)
  obtain dim ty where p: "p = (dim, ty)" by (rule prod.exhaust)
  show ?thesis
  proof (cases "zc (SliceOf 8 8) dim")
    case None
    have "\<exists>x. map_option f (try_from_bytes_shape zc data (dims_of (snd dim)) ty) = Some x" for f :: "proto_error + component_view \<Rightarrow> proto_error + realized_field" and data
      using try_from_bytes_shape_total [OF assms, of data "dims_of (snd dim)" ty] by auto
    then show ?thesis using Some p None by (simp add: finish_field_def Let_def split: option.splits)
  next
    case e: (Some e)
    have "e \<noteq> CastValidity" using assms e unfolding zc_spec_def by (metis cast_fallible.simps(5))
    then show ?thesis using Some p e by (cases e) (simp_all add: finish_field_def)
  qed
qed

lemma resolve_total:
  assumes zc: "zc_spec zc" and b: "backward vt" and rop: "\<And>a. rop_arg rop = Some a \<Longrightarrow> unat a < n"
  shows "\<exists>x. resolve zc base vt fld table rop ts sc = Some x"
  using rop
proof (induction n arbitrary: rop ts sc rule: less_induct)
  case (less n)
  have step: "\<exists>x. Option.bind (realize zc base vt a table) (\<lambda>r.
      case r of Inl e \<Rightarrow> Some (Inl e) | Inr rop \<Rightarrow> resolve zc base vt fld table rop ts' sc') = Some x"
    if a: "rop_arg rop = Some a" for a ts' sc'
  proof -
    obtain x where x: "realize zc base vt a table = Some x" using realize_total [OF b] by blast
    show ?thesis
    proof (cases x)
      case (Inl e)
      then show ?thesis using x by simp
    next
      case (Inr rop')
      have "unat c < unat a" if "rop_arg rop' = Some c" for c
        using realize_arg [OF b _ that] x Inr by blast
      then have "\<exists>x. resolve zc base vt fld table rop' ts' sc' = Some x" by (rule less.IH [OF less.prems [OF a]])
      then show ?thesis using x Inr by simp
    qed
  qed
  show ?case
    by (cases rop; subst resolve.simps; simp add: finish_total [OF zc] step)
qed

text \<open>C28. On a vtable whose operations refer only to earlier operations, realizing a field always
  returns, with a field or an error.\<close>

theorem realize_field_returns:
  assumes "zc_spec zc" "backward vt"
  shows "realize_field zc base vt table fld \<noteq> None"
proof -
  obtain x where x: "realize zc base vt (vf_arg fld) table = Some x" using realize_total [OF assms(2)] by blast
  show ?thesis
  proof (cases x)
    case (Inl e)
    then show ?thesis using x by (simp add: realize_field_def)
  next
    case (Inr rop)
    have "\<exists>y. resolve zc base vt fld table rop None None = Some y"
      by (rule resolve_total [OF assms, of _ "unat (vf_arg fld)"]) (use realize_arg [OF assms(2)] x Inr in blast)
    then show ?thesis using x Inr by (auto simp: realize_field_def)
  qed
qed

lemma realize_field_returns_witness:
  "realize_field zc_ok 0 \<lparr>vt_ops = [OpData 0 0, OpComponent 0], vt_fields = [], vt_data = []\<rparr> None \<lparr>vf_offset = 0, vf_len = 0, vf_arg = 1\<rparr> \<noteq> None"
  by (rule realize_field_returns [OF zc_ok_spec]) (auto simp: backward_def less_Suc_eq)

text \<open>A vtable accepted from the network may be cyclic, and then realizing does not return:
  an operation that names itself makes \<open>realize\<close> recurse without end, and an extension whose
  continuation is itself keeps the loop of \<open>realize_fields\<close> going.\<close>

theorem cyclic_vtable_diverges:
  "realize zc base \<lparr>vt_ops = [OpComponent 0], vt_fields = fs, vt_data = d\<rparr> 0 table = None \<and>
   realize_field zc base \<lparr>vt_ops = [OpExt 0 id' 1, OpData 0 0], vt_fields = fs, vt_data = d\<rparr> table
     \<lparr>vf_offset = off, vf_len = len, vf_arg = 0\<rparr> = None"
proof
  let ?vt = "\<lparr>vt_ops = [OpComponent 0], vt_fields = fs, vt_data = d\<rparr>"
  have g: "get_op ?vt 0 = Inr (OpComponent 0)" by (simp add: get_op_def get_index_def)
  have "?vt = ?vt \<longrightarrow> (0 :: u32) \<noteq> 0" if y: "realize zc base ?vt 0 table = Some y" for y
  proof (rule realize.raw_induct [where P = "\<lambda>zc base vt r table y. vt = ?vt \<longrightarrow> r \<noteq> 0", OF _ y], intro impI notI)
    fix rec zc base vt r table y
    assume ih: "\<And>zc base vt r table y. rec zc base vt r table = Some y \<Longrightarrow> vt = ?vt \<longrightarrow> r \<noteq> 0"
      and "vt = ?vt" "r = 0"
      and "(case get_op vt r of
        Inl e \<Rightarrow> Some (Inl e)
      | Inr (OpData offset len) \<Rightarrow> Some (realize_data base vt offset len)
      | Inr (OpTable offset len) \<Rightarrow> Some (realize_table table offset len)
      | Inr OpNone \<Rightarrow> Some (Inr RNone)
      | Inr (OpComponent c) \<Rightarrow>
          Option.bind (rec zc base vt c table) (\<lambda>r. Some
            (bind_result r (\<lambda>r. map_sum id RComponent (ok_or InvalidOp (as_component_id r)))))
      | Inr (OpSchema ty dim arg) \<Rightarrow>
          Option.bind (rec zc base vt ty table) (\<lambda>r.
            (case bind_result r (\<lambda>r. ok_or InvalidOp (as_prim_ty zc r)) of
               Inl e \<Rightarrow> Some (Inl e)
             | Inr ty \<Rightarrow>
                 Option.bind (rec zc base vt dim table) (\<lambda>r. Some
                   (bind_result r (\<lambda>r. realize_schema zc ty r arg)))))
      | Inr (OpTimestamp source arg) \<Rightarrow>
          Option.bind (rec zc base vt source table) (\<lambda>r. Some
            (bind_result r (\<lambda>r. realize_timestamp zc r arg)))
      | Inr (OpExt arg id' data) \<Rightarrow>
          Option.bind (rec zc base vt data table) (\<lambda>r. Some
            (bind_result r (\<lambda>r. map_sum id (\<lambda>d. RExt id' d arg) (ok_or InvalidOp (as_slice r)))))) = Some y"
    then obtain z where "rec zc base vt 0 table = Some z" by (auto simp: g bind_eq_Some_conv)
    with ih [OF this] \<open>vt = ?vt\<close> show False by simp
  qed
  then show "realize zc base ?vt 0 table = None" by (cases "realize zc base ?vt 0 table") auto
next
  let ?vt = "\<lparr>vt_ops = [OpExt 0 id' 1, OpData 0 0], vt_fields = fs, vt_data = d\<rparr>"
  let ?f = "\<lparr>vf_offset = off, vf_len = len, vf_arg = 0\<rparr>"
  have g: "get_op ?vt 0 = Inr (OpExt 0 id' 1)" "get_op ?vt 1 = Inr (OpData 0 0)"
    by (simp_all add: get_op_def get_index_def)
  have "realize zc base ?vt 1 table = Some (Inr (RData (base, [])))"
    by (subst realize.simps) (simp add: g realize_data_def as_get_def get_range_def)
  then have r: "realize zc base ?vt 0 table = Some (Inr (RExt id' (base, []) 0))"
    by (subst realize.simps) (simp add: g)
  let ?rop = "RExt id' (base, []) 0"
  have "?vt = ?vt \<longrightarrow> zc = zc \<longrightarrow> base = base \<longrightarrow> table = table \<longrightarrow> ?rop \<noteq> ?rop"
    if y: "resolve zc base ?vt ?f table ?rop ts sc = Some y" for ts sc y
  proof (rule resolve.raw_induct [where P = "\<lambda>z b vt f t rop ts sc y. vt = ?vt \<longrightarrow> z = zc \<longrightarrow> b = base \<longrightarrow> t = table \<longrightarrow> rop \<noteq> ?rop", OF _ y], goal_cases)
    case (1 rec z b vt f t rop ts sc y)
    show ?case
    proof (intro impI notI)
      assume e: "vt = ?vt" "z = zc" "b = base" "t = table" "rop = ?rop"
      with 1(2) r have "rec zc base ?vt f table ?rop ts sc = Some y" by simp
      with 1(1) [OF this] show False by simp
    qed
  qed
  then have "resolve zc base ?vt ?f table (RExt id' (base, []) 0) None None = None"
    by (cases "resolve zc base ?vt ?f table (RExt id' (base, []) 0) None None") auto
  then show "realize_field zc base ?vt table ?f = None" by (simp add: realize_field_def r)
qed

end
