(* ===== verification/VTableBuild.thy ===== *)
theory VTableBuild
  imports VTableCorrect
begin

text \<open>
  The vtable builder refines the operation graph it is given: every operation it emits
  mirrors its node, references point to earlier operations, shared nodes are emitted once,
  and a built field is realized to the component, type, shape and timestamp its nodes name.
\<close>

section \<open>What an emitted operation mirrors\<close>

fun models_node :: "vtable \<Rightarrow> op_builder \<Rightarrow> op \<Rightarrow> bool"
  and models :: "vtable \<Rightarrow> arc \<Rightarrow> u32 \<Rightarrow> bool" where
  "models_node vt (BData al d) op' =
     (\<exists>off len. op' = OpData off len \<and> unat off mod al = 0 \<and> unat len = length d \<and>
        get_range (vt_data vt) (unat off) (unat off + unat len) = Some d)"
| "models_node vt (BTable off len) op' = (op' = OpTable off len)"
| "models_node vt (BComponent c) op' = (\<exists>c'. op' = OpComponent c' \<and> models vt c c')"
| "models_node vt (BSchema ty dim arg) op' =
     (\<exists>t d a. op' = OpSchema t d a \<and> models vt ty t \<and> models vt dim d \<and> models vt arg a)"
| "models_node vt (BTimestamp src arg) op' = (\<exists>s a. op' = OpTimestamp s a \<and> models vt src s \<and> models vt arg a)"
| "models_node vt (BExt i data arg) op' = (\<exists>d a. op' = OpExt a i d \<and> models vt data d \<and> models vt arg a)"
| "models vt (Arc i n) r = (\<exists>op'. get_op vt r = Inr op' \<and> models_node vt n op')"

text \<open>The nodes of a graph of shared allocations: an address holds one node, data alignments
  are positive.\<close>

fun bnode_ok :: "(nat \<Rightarrow> op_builder option) \<Rightarrow> op_builder \<Rightarrow> bool"
  and arc_ok :: "(nat \<Rightarrow> op_builder option) \<Rightarrow> arc \<Rightarrow> bool" where
  "bnode_ok h (BData al d) = (0 < al)"
| "bnode_ok h (BTable off len) = True"
| "bnode_ok h (BComponent c) = arc_ok h c"
| "bnode_ok h (BSchema ty dim arg) = (arc_ok h ty \<and> arc_ok h dim \<and> arc_ok h arg)"
| "bnode_ok h (BTimestamp src arg) = (arc_ok h src \<and> arc_ok h arg)"
| "bnode_ok h (BExt i data arg) = (arc_ok h data \<and> arc_ok h arg)"
| "arc_ok h (Arc i n) = (h i = Some n \<and> bnode_ok h n)"

definition extends :: "vtable \<Rightarrow> vtable \<Rightarrow> bool" where
  "extends vt vt' \<longleftrightarrow> (\<exists>ops. vt_ops vt' = vt_ops vt @ ops) \<and> (\<exists>data. vt_data vt' = vt_data vt @ data)"

lemma extends_refl [intro, simp]: "extends vt vt"
  by (simp add: extends_def)

lemma extends_trans [trans]: "extends a b \<Longrightarrow> extends b c \<Longrightarrow> extends a c"
  by (auto simp: extends_def)

lemma extends_get_op: "extends vt vt' \<Longrightarrow> get_op vt r = Inr op' \<Longrightarrow> get_op vt' r = Inr op'"
  by (auto simp: extends_def get_op_Inr nth_append)

lemma extends_data: "extends vt vt' \<Longrightarrow> get_range (vt_data vt) a b = Some d \<Longrightarrow> get_range (vt_data vt') a b = Some d"
  by (auto simp: extends_def get_range_Some slice_append1)

lemma models_mono:
  "extends vt vt' \<Longrightarrow> models_node vt n op' \<Longrightarrow> models_node vt' n op'"
  "extends vt vt' \<Longrightarrow> models vt a r \<Longrightarrow> models vt' a r"
proof (induction n and a arbitrary: op' and r rule: op_builder.induct arc.induct)
  case (BData al d)
  then show ?case using extends_data by fastforce
next
  case (Arc i n)
  then show ?case using extends_get_op by fastforce
qed fastforce+

section \<open>The builder's invariant\<close>

definition fits32 :: "vtable \<Rightarrow> bool" where
  "fits32 vt \<longleftrightarrow> length (vt_ops vt) < 2 ^ 32 \<and> length (vt_data vt) < 2 ^ 32"

lemma extends_fits32: "extends vt vt' \<Longrightarrow> fits32 vt' \<Longrightarrow> fits32 vt"
  by (auto simp: extends_def fits32_def)

definition vb_inv :: "(nat \<Rightarrow> op_builder option) \<Rightarrow> vtable_builder \<Rightarrow> bool" where
  "vb_inv h b \<longleftrightarrow> backward (vb_vtable b) \<and>
     (\<forall>i r. vb_visited b i = Some r \<longrightarrow> (\<exists>n. h i = Some n \<and> models (vb_vtable b) (Arc i n) r))"

lemma vb_inv_default: "vb_inv h vb_default"
  by (simp add: vb_inv_def vb_default_def backward_def)

lemma visit_extends:
  "visit_node b n = (op', b') \<Longrightarrow> extends (vb_vtable b) (vb_vtable b') \<and> vt_fields (vb_vtable b') = vt_fields (vb_vtable b)"
  "visit b a = (r, b') \<Longrightarrow> extends (vb_vtable b) (vb_vtable b') \<and> vt_fields (vb_vtable b') = vt_fields (vb_vtable b)"
proof (induction n and a arbitrary: b op' b' and b r b' rule: op_builder.induct arc.induct)
  case (BData al d)
  then show ?case by (auto simp: push_data_def Let_def extends_def)
next
  case (BSchema ty dim arg)
  obtain t b1 where 1: "visit b ty = (t, b1)" by (rule prod.exhaust)
  obtain d b2 where 2: "visit b1 dim = (d, b2)" by (rule prod.exhaust)
  obtain a b3 where 3: "visit b2 arg = (a, b3)" by (rule prod.exhaust)
  from BSchema.prems 1 2 3 have "b' = b3" by simp
  with BSchema.IH(1) [OF 1] BSchema.IH(2) [OF 2] BSchema.IH(3) [OF 3] show ?case by (auto intro: extends_trans)
next
  case (BTimestamp src arg)
  obtain s b1 where 1: "visit b src = (s, b1)" by (rule prod.exhaust)
  obtain a b2 where 2: "visit b1 arg = (a, b2)" by (rule prod.exhaust)
  from BTimestamp.prems 1 2 have "b' = b2" by simp
  with BTimestamp.IH(1) [OF 1] BTimestamp.IH(2) [OF 2] show ?case by (auto intro: extends_trans)
next
  case (BExt i data arg)
  obtain a b1 where 1: "visit b arg = (a, b1)" by (rule prod.exhaust)
  obtain d b2 where 2: "visit b1 data = (d, b2)" by (rule prod.exhaust)
  from BExt.prems 1 2 have "b' = b2" by simp
  with BExt.IH(2) [OF 1] BExt.IH(1) [OF 2] show ?case by (auto intro: extends_trans)
next
  case (Arc i n)
  obtain op1 b1 where 1: "visit_node b n = (op1, b1)" by (rule prod.exhaust)
  have "extends (vb_vtable b1) (vb_vtable (snd (emit b1 i op1)))" by (simp add: emit_def Let_def extends_def)
  moreover have "vt_fields (vb_vtable (snd (emit b1 i op1))) = vt_fields (vb_vtable b1)" by (simp add: emit_def Let_def)
  ultimately show ?case using Arc.IH [OF 1] Arc.prems 1 by (auto split: option.splits intro: extends_trans)
qed (auto split: prod.splits)

lemma push_data_models:
  assumes "vb_inv h b" "0 < al" "push_data b al d = (op', b')" "fits32 (vb_vtable b')"
  shows "vb_inv h b' \<and> models_node (vb_vtable b') (BData al d) op' \<and> op_refs op' = []"
proof -
  define p where "p = vt_data (vb_vtable b) @ replicate (pad_len al (length (vt_data (vb_vtable b)))) 0"
  have e: "op' = OpData (of_nat (length p)) (of_nat (length d))" "vb_vtable b' = (vb_vtable b)\<lparr>vt_data := p @ d\<rparr>"
    "vb_visited b' = vb_visited b" using assms(3) by (auto simp: push_data_def Let_def p_def)
  have l: "length p + length d < 2 ^ 32" using assms(4) e(2) by (simp add: fits32_def)
  have "unat (of_nat n :: u32) = n" if "n < 2 ^ 32" for n using that by (simp add: unat_of_nat take_bit_nat_eq_self)
  then have u: "unat (of_nat (length p) :: u32) = length p" "unat (of_nat (length d) :: u32) = length d"
    using l by (metis add_lessD1, metis add_lessD1 add.commute)
  have x: "extends (vb_vtable b) (vb_vtable b')" by (simp add: e extends_def p_def)
  have "vb_inv h b'" using assms(1) models_mono(2) [OF x] unfolding vb_inv_def e(3)
    by (fastforce simp: e backward_def simp del: models.simps)
  moreover have "length p mod al = 0" using assms(2) by (simp add: p_def)
  then have "models_node (vb_vtable b') (BData al d) op'"
    using u by (simp add: e get_range_def slice_append2 slice_def)
  ultimately show ?thesis by (simp only: e op_refs.simps)
qed

lemma emit_models:
  assumes "vb_inv h b" "h i = Some n" "models_node (vb_vtable b) n op'"
    "\<And>s. s \<in> set (op_refs op') \<Longrightarrow> unat s < length (vt_ops (vb_vtable b))"
    "emit b i op' = (r, b')" "fits32 (vb_vtable b')"
  shows "vb_inv h b' \<and> models (vb_vtable b') (Arc i n) r"
proof -
  have e: "r = of_nat (length (vt_ops (vb_vtable b)))" "vb_vtable b' = (vb_vtable b)\<lparr>vt_ops := vt_ops (vb_vtable b) @ [op']\<rparr>"
    "vb_visited b' = (vb_visited b)(i \<mapsto> r)" using assms(5) by (auto simp: emit_def Let_def)
  have u: "unat r = length (vt_ops (vb_vtable b))" using assms(6) by (simp add: e fits32_def unat_of_nat take_bit_nat_eq_self)
  have x: "extends (vb_vtable b) (vb_vtable b')" by (simp add: e extends_def)
  have m: "models (vb_vtable b') (Arc i n) r" using models_mono(1) [OF x assms(3)] u by (simp add: get_op_Inr e)
  have "backward (vb_vtable b')" using assms(1,4) by (auto simp: vb_inv_def backward_def e nth_append less_Suc_eq)
  moreover have "\<exists>n. h j = Some n \<and> models (vb_vtable b') (Arc j n) s" if j: "vb_visited b' j = Some s" for j s
  proof (cases "j = i")
    case True
    then show ?thesis using j e m assms(2) by auto
  next
    case False
    then have "vb_visited b j = Some s" using j by (simp add: e)
    then show ?thesis using assms(1) models_mono(2) [OF x] unfolding vb_inv_def by blast
  qed
  ultimately show ?thesis using m by (simp add: vb_inv_def)
qed

lemma models_less: "models vt a r \<Longrightarrow> unat r < length (vt_ops vt)"
  by (cases a) (auto simp: get_op_Inr)

lemma visit_models:
  "vb_inv h b \<Longrightarrow> bnode_ok h n \<Longrightarrow> visit_node b n = (op', b') \<Longrightarrow> fits32 (vb_vtable b') \<Longrightarrow>
     vb_inv h b' \<and> models_node (vb_vtable b') n op' \<and> (\<forall>s \<in> set (op_refs op'). unat s < length (vt_ops (vb_vtable b')))"
  "vb_inv h b \<Longrightarrow> arc_ok h a \<Longrightarrow> visit b a = (r, b') \<Longrightarrow> fits32 (vb_vtable b') \<Longrightarrow>
     vb_inv h b' \<and> models (vb_vtable b') a r"
proof (induction n and a arbitrary: b op' b' and b r b' rule: op_builder.induct arc.induct)
  case (BData al d)
  then show ?case using push_data_models [of h b al d op' b'] by simp
next
  case (BTable off len)
  then show ?case by auto
next
  case (BComponent c)
  obtain c' b1 where 1: "visit b c = (c', b1)" by (rule prod.exhaust)
  with BComponent.prems have e: "op' = OpComponent c'" "b' = b1" by auto
  have "vb_inv h b1 \<and> models (vb_vtable b1) c c'" using BComponent.IH [OF _ _ 1] BComponent.prems e by simp
  then show ?case using models_less e by auto
next
  case (BSchema ty dim arg)
  obtain t b1 where 1: "visit b ty = (t, b1)" by (rule prod.exhaust)
  obtain d b2 where 2: "visit b1 dim = (d, b2)" by (rule prod.exhaust)
  obtain a b3 where 3: "visit b2 arg = (a, b3)" by (rule prod.exhaust)
  from BSchema.prems 1 2 3 have e: "op' = OpSchema t d a" "b' = b3" by auto
  have x: "extends (vb_vtable b1) (vb_vtable b2)" "extends (vb_vtable b2) (vb_vtable b3)"
    using visit_extends(2) [OF 2] visit_extends(2) [OF 3] by auto
  have f: "fits32 (vb_vtable b3)" "fits32 (vb_vtable b2)" "fits32 (vb_vtable b1)"
    using BSchema.prems e x extends_fits32 by blast+
  have i1: "vb_inv h b1 \<and> models (vb_vtable b1) ty t" using BSchema.IH(1) [OF _ _ 1 f(3)] BSchema.prems by simp
  have i2: "vb_inv h b2 \<and> models (vb_vtable b2) dim d" using BSchema.IH(2) [OF _ _ 2 f(2)] i1 BSchema.prems by simp
  have i3: "vb_inv h b3 \<and> models (vb_vtable b3) arg a" using BSchema.IH(3) [OF _ _ 3 f(1)] i2 BSchema.prems by simp
  have "models (vb_vtable b3) ty t" "models (vb_vtable b3) dim d"
    using i1 i2 models_mono(2) extends_trans [OF x] x(2) by blast+
  then show ?case using i3 models_less e by auto
next
  case (BTimestamp src arg)
  obtain s b1 where 1: "visit b src = (s, b1)" by (rule prod.exhaust)
  obtain a b2 where 2: "visit b1 arg = (a, b2)" by (rule prod.exhaust)
  from BTimestamp.prems 1 2 have e: "op' = OpTimestamp s a" "b' = b2" by auto
  have x: "extends (vb_vtable b1) (vb_vtable b2)" using visit_extends(2) [OF 2] by auto
  have f: "fits32 (vb_vtable b2)" "fits32 (vb_vtable b1)" using BTimestamp.prems e x extends_fits32 by blast+
  have i1: "vb_inv h b1 \<and> models (vb_vtable b1) src s" using BTimestamp.IH(1) [OF _ _ 1 f(2)] BTimestamp.prems by simp
  have i2: "vb_inv h b2 \<and> models (vb_vtable b2) arg a" using BTimestamp.IH(2) [OF _ _ 2 f(1)] i1 BTimestamp.prems by simp
  have "models (vb_vtable b2) src s" using i1 models_mono(2) x by blast
  then show ?case using i2 models_less e by auto
next
  case (BExt i data arg)
  obtain a b1 where 1: "visit b arg = (a, b1)" by (rule prod.exhaust)
  obtain d b2 where 2: "visit b1 data = (d, b2)" by (rule prod.exhaust)
  from BExt.prems 1 2 have e: "op' = OpExt a i d" "b' = b2" by auto
  have x: "extends (vb_vtable b1) (vb_vtable b2)" using visit_extends(2) [OF 2] by auto
  have f: "fits32 (vb_vtable b2)" "fits32 (vb_vtable b1)" using BExt.prems e x extends_fits32 by blast+
  have i1: "vb_inv h b1 \<and> models (vb_vtable b1) arg a" using BExt.IH(2) [OF _ _ 1 f(2)] BExt.prems by simp
  have i2: "vb_inv h b2 \<and> models (vb_vtable b2) data d" using BExt.IH(1) [OF _ _ 2 f(1)] i1 BExt.prems by simp
  have "models (vb_vtable b2) arg a" using i1 models_mono(2) x by blast
  then show ?case using i2 models_less e by auto
next
  case (Arc i n)
  show ?case
  proof (cases "vb_visited b i")
    case (Some s)
    then have e: "r = s" "b' = b" using Arc.prems by auto
    obtain m where "h i = Some m" "models (vb_vtable b) (Arc i m) s" using Some Arc.prems(1) unfolding vb_inv_def by blast
    then show ?thesis using Arc.prems e by simp
  next
    case None
    obtain op1 b1 where 1: "visit_node b n = (op1, b1)" by (rule prod.exhaust)
    have em: "emit b1 i op1 = (r, b')" using Arc.prems None 1 by simp
    have "extends (vb_vtable b1) (vb_vtable b')" using em by (auto simp: emit_def Let_def extends_def)
    then have f: "fits32 (vb_vtable b1)" using Arc.prems extends_fits32 by blast
    have i1: "vb_inv h b1 \<and> models_node (vb_vtable b1) n op1 \<and> (\<forall>s \<in> set (op_refs op1). unat s < length (vt_ops (vb_vtable b1)))"
      using Arc.IH [OF _ _ 1 f] Arc.prems by simp
    show ?thesis by (rule emit_models [OF _ _ _ _ em Arc.prems(4)]) (use i1 Arc.prems(2) in auto)
  qed
qed

lemma build_fields_extends: "extends (vb_vtable b) (vb_vtable (build_fields b fbs))"
proof (induction fbs arbitrary: b)
  case Nil
  then show ?case by simp
next
  case (Cons f fbs)
  obtain r b1 where 1: "visit b (fb_arg f) = (r, b1)" by (rule prod.exhaust)
  define b2 where "b2 = b1\<lparr>vb_vtable := (vb_vtable b1)\<lparr>vt_fields := vt_fields (vb_vtable b1) @
    [\<lparr>vf_offset = fb_offset f, vf_len = fb_len f, vf_arg = r\<rparr>]\<rparr>\<rparr>"
  have "extends (vb_vtable b) (vb_vtable b1)" using visit_extends(2) [OF 1] by simp
  also have "extends (vb_vtable b1) (vb_vtable b2)" by (simp add: b2_def extends_def)
  also have "extends (vb_vtable b2) (vb_vtable (build_fields b2 fbs))" by (rule Cons.IH)
  finally show ?case by (simp add: 1 b2_def)
qed

lemma build_fields_models:
  assumes "vb_inv h b" "\<And>f. f \<in> set fbs \<Longrightarrow> arc_ok h (fb_arg f)" "fits32 (vb_vtable (build_fields b fbs))"
  shows "vb_inv h (build_fields b fbs) \<and> extends (vb_vtable b) (vb_vtable (build_fields b fbs)) \<and>
    (\<exists>flds. vt_fields (vb_vtable (build_fields b fbs)) = vt_fields (vb_vtable b) @ flds \<and>
       list_all2 (\<lambda>f fld. vf_offset fld = fb_offset f \<and> vf_len fld = fb_len f \<and>
         models (vb_vtable (build_fields b fbs)) (fb_arg f) (vf_arg fld)) fbs flds)"
  using assms
proof (induction fbs arbitrary: b)
  case Nil
  then show ?case by simp
next
  case (Cons f fbs)
  obtain r b1 where 1: "visit b (fb_arg f) = (r, b1)" by (rule prod.exhaust)
  define fld where "fld = \<lparr>vf_offset = fb_offset f, vf_len = fb_len f, vf_arg = r\<rparr>"
  define b2 where "b2 = b1\<lparr>vb_vtable := (vb_vtable b1)\<lparr>vt_fields := vt_fields (vb_vtable b1) @ [fld]\<rparr>\<rparr>"
  let ?b' = "build_fields b2 fbs"
  have e: "build_fields b (f # fbs) = ?b'" by (simp add: 1 fld_def b2_def)
  have x1: "extends (vb_vtable b) (vb_vtable b1)" "vt_fields (vb_vtable b1) = vt_fields (vb_vtable b)"
    using visit_extends(2) [OF 1] by auto
  have x2: "extends (vb_vtable b1) (vb_vtable b2)" by (simp add: b2_def extends_def)
  have f': "fits32 (vb_vtable ?b')" using Cons.prems(3) e by simp
  have x3: "extends (vb_vtable b2) (vb_vtable ?b')" by (rule build_fields_extends)
  have "fits32 (vb_vtable b1)" using extends_fits32 [OF extends_trans [OF x2 x3] f'] .
  then have i1: "vb_inv h b1 \<and> models (vb_vtable b1) (fb_arg f) r"
    using visit_models(2) [OF Cons.prems(1) _ 1] Cons.prems(2) by simp
  have i2: "vb_inv h b2" using i1 models_mono(2) [OF x2] unfolding vb_inv_def
    by (fastforce simp: b2_def backward_def simp del: models.simps)
  from Cons.IH [OF i2 _ f'] Cons.prems(2) obtain flds where ih: "vb_inv h ?b'"
      "vt_fields (vb_vtable ?b') = vt_fields (vb_vtable b2) @ flds"
      "list_all2 (\<lambda>f fld. vf_offset fld = fb_offset f \<and> vf_len fld = fb_len f \<and>
         models (vb_vtable ?b') (fb_arg f) (vf_arg fld)) fbs flds" by auto
  have "models (vb_vtable ?b') (fb_arg f) r" using i1 models_mono(2) extends_trans [OF x2 x3] by blast
  then show ?case unfolding e using ih extends_trans [OF x1(1) extends_trans [OF x2 x3]] x1(2)
    by (intro conjI exI [of _ "fld # flds"]) (simp_all add: b2_def fld_def)
qed

lemma build_mirrors:
  assumes "\<And>f. f \<in> set fbs \<Longrightarrow> arc_ok h (fb_arg f)" "fits32 (build_vtable fbs)"
  shows "backward (build_vtable fbs) \<and>
    list_all2 (\<lambda>f fld. vf_offset fld = fb_offset f \<and> vf_len fld = fb_len f \<and>
      models (build_vtable fbs) (fb_arg f) (vf_arg fld)) fbs (vt_fields (build_vtable fbs))"
proof -
  have "vt_fields (vb_vtable vb_default) = []" by (simp add: vb_default_def)
  with build_fields_models [OF vb_inv_default, of fbs h] assms show ?thesis
    unfolding build_vtable_def vb_inv_def by auto
qed

section \<open>Evaluating what was built\<close>

text \<open>A field's description, as the constructors of the builder nest it.\<close>

datatype field_desc =
    DComponent u64
  | DSchema prim_type "u64 list" field_desc
  | DTimestamp u32 u32 field_desc
  | DExt packet_id "byte list" field_desc

inductive built :: "field_desc \<Rightarrow> arc \<Rightarrow> bool" where
  built_component: "built (DComponent c) (b_component i j c)"
| built_schema: "built s arg \<Longrightarrow> built (DSchema ty dim s) (b_schema i j k ty dim arg)"
| built_timestamp: "built s arg \<Longrightarrow> built (DTimestamp off len s) (b_timestamp i (b_raw_table j off len) arg)"
| built_ext: "built s arg \<Longrightarrow> built (DExt pid data s) (b_ext i j pid (\<lambda>d. d) data arg)"

fun desc_id :: "field_desc \<Rightarrow> u64" where
  "desc_id (DComponent c) = c"
| "desc_id (DSchema ty dim s) = desc_id s"
| "desc_id (DTimestamp off len s) = desc_id s"
| "desc_id (DExt pid data s) = desc_id s"

text \<open>The innermost schema counts; so does the innermost timestamp, which must be readable in
  the table when there is one.\<close>

fun desc_schema :: "(u64 list \<times> prim_type) option \<Rightarrow> field_desc \<Rightarrow> (u64 list \<times> prim_type) option" where
  "desc_schema sc (DComponent c) = sc"
| "desc_schema sc (DSchema ty dim s) = desc_schema (Some (dim, ty)) s"
| "desc_schema sc (DTimestamp off len s) = desc_schema sc s"
| "desc_schema sc (DExt pid data s) = desc_schema sc s"

fun desc_time :: "aslice option \<Rightarrow> int option option \<Rightarrow> field_desc \<Rightarrow> int option option option" where
  "desc_time t ts (DComponent c) = Some ts"
| "desc_time t ts (DSchema ty dim s) = desc_time t ts s"
| "desc_time t ts (DExt pid data s) = desc_time t ts s"
| "desc_time t ts (DTimestamp off len s) =
     (case t of
        None \<Rightarrow> desc_time t (Some None) s
      | Some tb \<Rightarrow>
          (case as_get tb (unat off) (unat off + unat len) of
             None \<Rightarrow> None
           | Some d \<Rightarrow> if length (snd d) = 8 then desc_time t (Some (Some (i64_of_le (snd d)))) s else None))"

text \<open>What an operation evaluates to when its operands are known.\<close>

lemma realize_eq:
  "get_op vt r = Inr (OpData off len) \<Longrightarrow> realize zc base vt r table = Some (realize_data base vt off len)"
  "get_op vt r = Inr (OpTable off len) \<Longrightarrow> realize zc base vt r table = Some (realize_table table off len)"
  "get_op vt r = Inr (OpComponent c) \<Longrightarrow> realize zc base vt c table = Some (Inr v) \<Longrightarrow>
     realize zc base vt r table = Some (map_sum id RComponent (ok_or InvalidOp (as_component_id v)))"
  "get_op vt r = Inr (OpSchema t d a) \<Longrightarrow> realize zc base vt t table = Some (Inr v) \<Longrightarrow> as_prim_ty zc v = Some ty \<Longrightarrow>
     realize zc base vt d table = Some (Inr w) \<Longrightarrow> realize zc base vt r table = Some (realize_schema zc ty w a)"
  "get_op vt r = Inr (OpTimestamp s a) \<Longrightarrow> realize zc base vt s table = Some (Inr v) \<Longrightarrow>
     realize zc base vt r table = Some (realize_timestamp zc v a)"
  "get_op vt r = Inr (OpExt a i d) \<Longrightarrow> realize zc base vt d table = Some (Inr v) \<Longrightarrow>
     realize zc base vt r table = Some (map_sum id (\<lambda>d. RExt i d a) (ok_or InvalidOp (as_slice v)))"
  by (subst realize.simps; simp add: ok_or_def)+

lemma realize_built_data:
  assumes "models vt (Arc i (BData al d)) r"
  shows "\<exists>off :: u32. unat off mod al = 0 \<and> realize zc base vt r table = Some (Inr (RData (base + unat off, d)))"
proof -
  from assms obtain off len where o: "get_op vt r = Inr (OpData off len)" "unat off mod al = 0"
    "get_range (vt_data vt) (unat off) (unat off + unat len) = Some d" by auto
  then have "realize zc base vt r table = Some (Inr (RData (base + unat off, d)))"
    by (simp add: realize_eq(1) realize_data_def as_get_def)
  with o(2) show ?thesis by (intro exI [of _ off] conjI)
qed

lemma prim_code_less: "prim_code ty < 11"
  by (cases ty) simp_all

lemma prim_of_code [simp]: "prim_of_code (prim_code ty) = Some ty"
  by (cases ty) (simp_all add: prim_of_code_def all_prims_def get_index_def)

lemma length_elems_to_le [simp]: "length (elems_to_le k ws) = k * length ws"
  by (induction ws) (simp_all add: elems_to_le_def)

lemma elems_of_to_le:
  assumes "256 ^ k = (2 :: nat) ^ LENGTH('a::len)"
  shows "elems_of_le k (length ws) (elems_to_le k ws @ zs) = (ws :: 'a word list)"
proof (induction ws arbitrary: zs rule: rev_induct)
  case Nil
  then show ?case by (simp add: elems_of_le_def)
next
  case (snoc w ws)
  let ?ys = "nat_to_le k (unat w) @ zs"
  have e: "elems_to_le k (ws @ [w]) @ zs = elems_to_le k ws @ ?ys" by (simp add: elems_to_le_def)
  have l: "length (elems_to_le k ws) = length ws * k" by simp
  have "slice (length ws * k) (length ws * k + k) (elems_to_le k ws @ ?ys) = nat_to_le k (unat w)"
    unfolding slice_def using l by simp
  moreover have "of_nat (le_to_nat (nat_to_le k (unat w))) = w"
    using assms unsigned_less [of w] by (simp add: le_to_nat_to_le)
  moreover have "(elems_of_le k (Suc (length ws)) :: byte list \<Rightarrow> 'a word list) (elems_to_le k ws @ ?ys) =
      elems_of_le k (length ws) (elems_to_le k ws @ ?ys) @
        [of_nat (le_to_nat (slice (length ws * k) (length ws * k + k) (elems_to_le k ws @ ?ys)))]"
    by (simp add: elems_of_le_def)
  ultimately show ?case using snoc.IH [of ?ys] unfolding e by simp
qed

lemma dims_of_elems: "dims_of (elems_to_le 8 (dim :: u64 list)) = map unat dim"
  using elems_of_to_le [of 8 dim "[]"] by (simp add: dims_of_def)

text \<open>Evaluating a built node under the loop of \<open>realize_fields\<close>.\<close>

lemma realize_built_component:
  assumes "models vt (b_component i j c) r"
  shows "realize zc base vt r table = Some (Inr (RComponent c))"
proof -
  from assms obtain c' where c': "get_op vt r = Inr (OpComponent c')" "models vt (Arc j (BData 8 (u64_to_le c))) c'"
    unfolding b_component_def by auto
  from realize_built_data [OF c'(2), of zc base table] obtain off :: u32 where
    "realize zc base vt c' table = Some (Inr (RData (base + unat off, u64_to_le c)))" by blast
  then show ?thesis by (simp add: realize_eq(3) [OF c'(1)] as_component_id_def ok_or_def le_simps)
qed

lemma realize_built_schema:
  assumes "zc_spec zc" "base mod 8 = 0" "models vt (b_schema i j k ty dim arg) r"
  shows "\<exists>a p. models vt arg a \<and> p mod 8 = 0 \<and>
    realize zc base vt r table = Some (Inr (RSchema (p, elems_to_le 8 dim) ty a))"
proof -
  from assms(3) obtain t d a where o: "get_op vt r = Inr (OpSchema t d a)" "models vt (Arc j (BData 8 (nat_to_le 8 (prim_code ty)))) t"
      "models vt (Arc k (BData 8 (elems_to_le 8 dim))) d" "models vt arg a"
    unfolding b_schema_def by auto
  from realize_built_data [OF o(2), of zc base table] obtain off1 :: u32 where
    t: "realize zc base vt t table = Some (Inr (RData (base + unat off1, nat_to_le 8 (prim_code ty))))" by blast
  from realize_built_data [OF o(3), of zc base table] obtain off2 :: u32 where
    d: "unat off2 mod 8 = 0" "realize zc base vt d table = Some (Inr (RData (base + unat off2, elems_to_le 8 dim)))" by metis
  have "prim_code ty mod 256 ^ 8 = prim_code ty" using prim_code_less [of ty] by simp
  then have "le_to_nat (nat_to_le 8 (prim_code ty)) = prim_code ty" by (simp add: le_to_nat_to_le)
  then have ty: "as_prim_ty zc (RData (base + unat off1, nat_to_le 8 (prim_code ty))) = Some ty"
    by (simp add: as_prim_ty_def zc_fits [OF assms(1)] prim_code_less)
  have p: "(base + unat off2) mod 8 = 0" using assms(2) d(1) by presburger
  have "realize_schema zc ty (RData (base + unat off2, elems_to_le 8 dim)) a = Inr (RSchema (base + unat off2, elems_to_le 8 dim) ty a)"
    using p by (simp add: realize_schema_def zc_fits [OF assms(1), THEN iffD2])
  then show ?thesis using realize_eq(4) [OF o(1) t ty d(2)] o(4) p by auto
qed

lemma realize_built_timestamp:
  assumes "zc_spec zc" "models vt (b_timestamp i (b_raw_table j off len) arg) r" "desc_time table ts (DTimestamp off len s) = Some ts'"
  shows "\<exists>a t rng. models vt arg a \<and> realize zc base vt r table = Some (Inr (RTimestamp t rng a)) \<and> desc_time table (Some t) s = Some ts'"
proof -
  from assms(2) obtain q a where o: "get_op vt r = Inr (OpTimestamp q a)" "get_op vt q = Inr (OpTable off len)" "models vt arg a"
    unfolding b_timestamp_def b_raw_table_def by auto
  show ?thesis
  proof (cases table)
    case None
    then show ?thesis using o assms(3) realize_eq(5) [OF o(1)] realize_eq(2) [OF o(2)]
      by (auto simp: realize_table_def realize_timestamp_def)
  next
    case (Some tb)
    from assms(3) Some obtain d where d: "as_get tb (unat off) (unat off + unat len) = Some d" "length (snd d) = 8"
      "desc_time table (Some (Some (i64_of_le (snd d)))) s = Some ts'" by (auto split: option.splits if_splits)
    have z: "zc (ReadOne 8) d = None" using d(2) by (cases d) (simp add: zc_fits [OF assms(1)])
    have "realize zc base vt q table = Some (Inr (RTable (Some d) (unat off, unat off + unat len)))"
      using d(1) Some by (simp add: realize_eq(2) [OF o(2)] realize_table_def)
    from realize_eq(5) [OF o(1) this] z o(3) d(3) show ?thesis by (auto simp: realize_timestamp_def)
  qed
qed

lemma realize_built_ext:
  assumes "models vt (b_ext i j pid enc data arg) r"
  shows "\<exists>a d. models vt arg a \<and> realize zc base vt r table = Some (Inr (RExt pid d a))"
proof -
  from assms obtain d a where o: "get_op vt r = Inr (OpExt a pid d)" "models vt (Arc j (BData 1 (enc data))) d" "models vt arg a"
    unfolding b_ext_def by auto
  from realize_built_data [OF o(2), of zc base table] realize_eq(6) [OF o(1)] o(3) show ?thesis by (fastforce simp: ok_or_def)
qed

definition schema_cell :: "(aslice \<times> prim_type) option \<Rightarrow> (u64 list \<times> prim_type) option \<Rightarrow> bool" where
  "schema_cell cell sc \<longleftrightarrow> (case (cell, sc) of
     (None, None) \<Rightarrow> True
   | (Some (d, ty), Some (dim, ty')) \<Rightarrow> ty = ty' \<and> fst d mod 8 = 0 \<and> snd d = elems_to_le 8 dim
   | _ \<Rightarrow> False)"

lemma resolve_built:
  assumes zc: "zc_spec zc" and base: "base mod 8 = 0"
  shows "built s arc \<Longrightarrow> models vt arc r \<Longrightarrow> schema_cell cell sc \<Longrightarrow> desc_time table ts s = Some ts' \<Longrightarrow>
    \<exists>rop cell'. realize zc base vt r table = Some (Inr rop) \<and>
      resolve zc base vt fld table rop ts cell = finish_field zc fld table (desc_id s) ts' cell' \<and>
      schema_cell cell' (desc_schema sc s)"
proof (induction arbitrary: r cell sc ts rule: built.induct)
  case (built_component c i j)
  then show ?case using realize_built_component [OF built_component(1), of zc base table]
    by (auto simp: resolve.simps [of zc base vt fld table "RComponent c"])
next
  case (built_schema s arg ty dim i j k)
  from realize_built_schema [OF zc base built_schema.prems(1), of table] obtain a p where
    ap: "models vt arg a" "p mod 8 = 0" "realize zc base vt r table = Some (Inr (RSchema (p, elems_to_le 8 dim) ty a))" by metis
  have "schema_cell (Some ((p, elems_to_le 8 dim), ty)) (Some (dim, ty))" using ap(2) by (simp add: schema_cell_def)
  from built_schema.IH [OF ap(1) this] built_schema.prems(3) ap(3) show ?case
    by (force simp: resolve.simps [of zc base vt fld table "RSchema _ _ _"])
next
  case (built_timestamp s arg off len i j)
  from realize_built_timestamp [OF zc built_timestamp.prems(1,3), of base] obtain a t rng where
    a: "models vt arg a" "realize zc base vt r table = Some (Inr (RTimestamp t rng a))" "desc_time table (Some t) s = Some ts'" by blast
  from built_timestamp.IH [OF a(1) built_timestamp.prems(2) a(3)] a(2) show ?case
    by (force simp: resolve.simps [of zc base vt fld table "RTimestamp _ _ _"])
next
  case (built_ext s arg pid data i j)
  from realize_built_ext [OF built_ext.prems(1), of zc base table] obtain a d where
    a: "models vt arg a" "realize zc base vt r table = Some (Inr (RExt pid d a))" by blast
  from built_ext.IH [OF a(1) built_ext.prems(2)] built_ext.prems(3) a(2) show ?case
    by (force simp: resolve.simps [of zc base vt fld table "RExt _ _ _"])
qed

text \<open>The fixture of the witnesses: a timestamped field and a field that shares its schema
  data.\<close>

definition demo_arc :: arc where
  "demo_arc = b_timestamp 0 (b_raw_table 1 0 8) (b_schema 2 3 4 U16 [2] (b_component 5 6 7))"

definition demo_heap :: "nat \<Rightarrow> op_builder option" where
  "demo_heap = map_of [(0, case demo_arc of Arc _ n \<Rightarrow> n), (1, BTable 0 8),
     (2, case b_schema 2 3 4 U16 [2] (b_component 5 6 7) of Arc _ n \<Rightarrow> n), (3, BData 8 (nat_to_le 8 1)),
     (4, BData 8 (elems_to_le 8 [2 :: u64])), (5, case b_component 5 6 7 of Arc _ n \<Rightarrow> n), (6, BData 8 (u64_to_le 7))]"

definition demo_fields :: "field_builder list" where
  "demo_fields = [b_raw_field 8 4 demo_arc, b_raw_field 12 4 demo_arc]"

definition demo_desc :: field_desc where
  "demo_desc = DTimestamp 0 8 (DSchema U16 [2] (DComponent 7))"

lemma demo_built: "built demo_desc demo_arc"
  unfolding demo_desc_def demo_arc_def by (intro built.intros)

lemma demo_ok: "f \<in> set demo_fields \<Longrightarrow> arc_ok demo_heap (fb_arg f)"
  by (auto simp: demo_fields_def b_raw_field_def demo_arc_def demo_heap_def b_timestamp_def b_raw_table_def b_schema_def b_component_def)

lemma demo_lengths: "length (vt_ops (build_vtable demo_fields)) = 7 \<and> length (vt_data (build_vtable demo_fields)) = 24"
  by code_simp

lemma demo_fits: "fits32 (build_vtable demo_fields)"
  using demo_lengths by (simp add: fits32_def)

section \<open>The builder is correct\<close>

text \<open>C15. Building a graph of shared nodes gives one field per field builder, with its offset and
  length, whose operation mirrors the node graph of its argument; every operation refers only
  to earlier ones, so the result is acyclic.\<close>

theorem build_vtable_mirrors:
  assumes "\<And>f. f \<in> set fbs \<Longrightarrow> arc_ok h (fb_arg f)" "fits32 (build_vtable fbs)"
  shows "backward (build_vtable fbs) \<and>
    list_all2 (\<lambda>f fld. vf_offset fld = fb_offset f \<and> vf_len fld = fb_len f \<and>
      models (build_vtable fbs) (fb_arg f) (vf_arg fld)) fbs (vt_fields (build_vtable fbs))"
  by (rule build_mirrors [OF assms])

lemma build_vtable_mirrors_witness:
  "backward (build_vtable demo_fields) \<and> length (vt_fields (build_vtable demo_fields)) = 2"
  using build_vtable_mirrors [OF demo_ok demo_fits] by (auto simp: demo_fields_def dest: list_all2_lengthD)

lemma realize_built:
  assumes zc: "zc_spec zc" and base: "base mod 8 = 0"
    and fbs: "\<And>f. f \<in> set fbs \<Longrightarrow> arc_ok h (fb_arg f)" "fits32 (build_vtable fbs)" "i < length fbs" "built s (fb_arg (fbs ! i))"
    and s: "desc_schema None s = Some (dim, ty)" "desc_time table None s = Some ts"
  shows "\<exists>fld p. vt_fields (build_vtable fbs) ! i = fld \<and> vf_offset fld = fb_offset (fbs ! i) \<and> vf_len fld = fb_len (fbs ! i) \<and>
    zc (SliceOf 8 8) (p, elems_to_le 8 dim) = None \<and>
    realize_field zc base (build_vtable fbs) table fld =
      finish_field zc fld table (desc_id s) ts (Some ((p, elems_to_le 8 dim), ty))"
proof -
  let ?vt = "build_vtable fbs"
  let ?fld = "vt_fields ?vt ! i"
  from build_mirrors [OF fbs(1,2)] fbs(3) have f: "vf_offset ?fld = fb_offset (fbs ! i)" "vf_len ?fld = fb_len (fbs ! i)"
    "models ?vt (fb_arg (fbs ! i)) (vf_arg ?fld)" by (auto simp: list_all2_conv_all_nth)
  from resolve_built [OF zc base fbs(4) f(3) _ s(2), of None None ?fld] s(1) obtain rop cell where
    r: "realize zc base ?vt (vf_arg ?fld) table = Some (Inr rop)" "schema_cell cell (Some (dim, ty))"
      "resolve zc base ?vt ?fld table rop None None = finish_field zc ?fld table (desc_id s) ts cell"
    by (auto simp: schema_cell_def)
  from r(2) obtain p where "cell = Some ((p, elems_to_le 8 dim), ty)" "p mod 8 = 0"
    by (auto simp: schema_cell_def split: option.splits prod.splits)
  then show ?thesis using f r by (intro exI [of _ ?fld] exI [of _ p]) (simp add: realize_field_def zc_fits [OF zc, THEN iffD2])
qed

text \<open>Without a table, a built field is realized to the component, the type and the shape of
  its innermost schema and its own offset, with no view and no timestamp.\<close>

theorem built_field_schema:
  assumes "zc_spec zc" "base mod 8 = 0"
    and "\<And>f. f \<in> set fbs \<Longrightarrow> arc_ok h (fb_arg f)" "fits32 (build_vtable fbs)" "i < length fbs" "built s (fb_arg (fbs ! i))"
    and "desc_schema None s = Some (dim, ty)"
  shows "realize_field zc base (build_vtable fbs) None (vt_fields (build_vtable fbs) ! i) =
    Some (Inr \<lparr>rf_component_id = desc_id s, rf_shape = map unat dim, rf_ty = ty, rf_offset = unat (fb_offset (fbs ! i)),
      rf_view = None, rf_timestamp = None\<rparr>)"
proof -
  have "Option.bind ts id = None \<Longrightarrow> \<exists>ts'. desc_time None ts s = Some ts' \<and> Option.bind ts' id = None" for ts
    by (induction s arbitrary: ts) auto
  from this [of None] obtain ts where ts: "desc_time None None s = Some ts" "Option.bind ts id = None" by auto
  from realize_built [OF assms ts(1)] show ?thesis using ts(2)
    by (auto simp: finish_field_def dims_of_elems)
qed


text \<open>C12. Against a table, a built field is realized to the view of the field's bytes in the
  table and to the timestamp its innermost timestamp operation reads there.\<close>

theorem built_field_value:
  assumes "zc_spec zc" "base mod 8 = 0"
    and "\<And>f. f \<in> set fbs \<Longrightarrow> arc_ok h (fb_arg f)" "fits32 (build_vtable fbs)" "i < length fbs" "built s (fb_arg (fbs ! i))"
    and "desc_schema None s = Some (dim, ty)" "desc_time (Some tb) None s = Some ts"
    and "fbs ! i = \<lparr>fb_offset = off, fb_len = len, fb_arg = arg\<rparr>" "as_get tb (unat off) (unat off + unat len) = Some data"
    and "try_from_bytes_shape zc data (map unat dim) ty = Some (Inr view)"
  shows "realize_field zc base (build_vtable fbs) (Some tb) (vt_fields (build_vtable fbs) ! i) =
    Some (Inr \<lparr>rf_component_id = desc_id s, rf_shape = map unat dim, rf_ty = ty, rf_offset = unat off,
      rf_view = Some view, rf_timestamp = Option.bind ts id\<rparr>)"
proof -
  from realize_built [OF assms(1-8)] obtain p fld where "vt_fields (build_vtable fbs) ! i = fld"
    "vf_offset fld = fb_offset (fbs ! i)" "vf_len fld = fb_len (fbs ! i)" "zc (SliceOf 8 8) (p, elems_to_le 8 dim) = None"
    "realize_field zc base (build_vtable fbs) (Some tb) fld =
      finish_field zc fld (Some tb) (desc_id s) ts (Some ((p, elems_to_le 8 dim), ty))" by blast
  then show ?thesis using assms(9-11) by (simp add: finish_field_def dims_of_elems)
qed

lemma built_field_value_witness:
  "\<exists>fld. realize_field zc_ok 0 (build_vtable demo_fields) (Some (0, i64_to_le 9 @ [1, 0, 2, 0, 3, 0, 4, 0])) fld =
    Some (Inr \<lparr>rf_component_id = 7, rf_shape = [2], rf_ty = U16, rf_offset = 12,
      rf_view = Some (CvU16 \<lparr>av_buf = [3, 4], av_shape = [2]\<rparr>), rf_timestamp = Some 9\<rparr>)"
proof -
  let ?tb = "(0 :: nat, i64_to_le 9 @ [1, 0, 2, 0, 3, 0, 4, 0])"
  let ?view = "CvU16 \<lparr>av_buf = [3, 4], av_shape = [2]\<rparr>"
  have t: "desc_time (Some ?tb) None demo_desc = Some (Some (Some 9))"
    by (simp add: demo_desc_def as_get_def get_range_def slice_def le_simps i64_range_def)
  have f: "demo_fields ! 1 = \<lparr>fb_offset = 12, fb_len = 4, fb_arg = demo_arc\<rparr>" by (simp add: demo_fields_def b_raw_field_def)
  have g: "as_get ?tb (unat (12 :: u32)) (unat (12 :: u32) + unat (4 :: u32)) = Some (12, [3, 0, 4, 0])"
    by (simp add: as_get_def get_range_def slice_def)
  have v: "try_from_bytes_shape zc_ok (12, [3, 0, 4, 0]) (map unat [2 :: u64]) U16 = Some (Inr ?view)"
    by (simp add: try_from_bytes_shape_def zc_ok_def elems_of_le_def slice_def upt_rec)
  have d: "desc_schema None demo_desc = Some ([2], U16)" "desc_id demo_desc = 7" by (simp_all add: demo_desc_def)
  have l: "1 < length demo_fields" "built demo_desc (fb_arg (demo_fields ! 1))"
    using demo_built f by (simp_all add: demo_fields_def)
  have "realize_field zc_ok 0 (build_vtable demo_fields) (Some ?tb) (vt_fields (build_vtable demo_fields) ! 1) =
    Some (Inr \<lparr>rf_component_id = desc_id demo_desc, rf_shape = map unat [2 :: u64], rf_ty = U16, rf_offset = unat (12 :: u32),
      rf_view = Some ?view, rf_timestamp = Option.bind (Some (Some 9)) id\<rparr>)"
    by (rule built_field_value [OF zc_ok_spec _ demo_ok demo_fits l d(1) t f g v]) simp_all
  then show ?thesis unfolding d by (intro exI) simp
qed

end
