(* ===== verification/Component.thy ===== *)
theory Component
  imports VTable DisruptorRun TimeSeries
begin

text \<open>
  One recorded component (\<open>libs/db/src/lib.rs\<close>): its schema, its write-ahead ring, its time
  series and the task that moves samples from the ring to the series.  Files are a map from
  paths to contents; \<open>os\<close> is the error the operating system answers a request with, if any.
  Serialisation is a parameter of the definitions that use it.
\<close>

section \<open>Files\<close>

datatype db_path =
    DbStateFile
  | SchemaFile u64
  | MetadataFile u64
  | MsgMetadataFile packet_id

datatype fs_op = MkDir u64 | ReadFile db_path | WriteFile db_path

type_synonym files = "db_path \<Rightarrow> byte list option"
type_synonym fs_env = "fs_op \<Rightarrow> io_kind option"

definition read_file :: "fs_env \<Rightarrow> files \<Rightarrow> db_path \<Rightarrow> db_error + byte list" where
  "read_file os fs p =
     (case os (ReadFile p) of Some e \<Rightarrow> Inl (Io e) | None \<Rightarrow> ok_or (Io NotFound) (fs p))"

definition write_file :: "fs_env \<Rightarrow> files \<Rightarrow> db_path \<Rightarrow> byte list \<Rightarrow> (db_error + unit) \<times> files" where
  "write_file os fs p data =
     (case os (WriteFile p) of Some e \<Rightarrow> (Inl (Io e), fs) | None \<Rightarrow> (Inr (), fs(p \<mapsto> data)))"

text \<open>\<open>MetadataExt\<close>: a value is read and written as its serialised bytes.\<close>

definition meta_read :: "(byte list \<Rightarrow> nat + 'a) \<Rightarrow> fs_env \<Rightarrow> files \<Rightarrow> db_path \<Rightarrow> db_error + 'a" where
  "meta_read dec os fs p = bind_result (read_file os fs p) (\<lambda>data. map_err DbPostcard (dec data))"

definition meta_write :: "('a \<Rightarrow> nat + byte list) \<Rightarrow> fs_env \<Rightarrow> files \<Rightarrow> db_path \<Rightarrow> 'a \<Rightarrow> (db_error + unit) \<times> files" where
  "meta_write enc os fs p x =
     (case enc x of Inl e \<Rightarrow> (Inl (DbPostcard e), fs) | Inr data \<Rightarrow> write_file os fs p data)"

section \<open>Component schemas\<close>

record cschema =
  cs_prim_type :: prim_type
  cs_dim :: "nat list"

definition cs_new :: "prim_type \<Rightarrow> nat list \<Rightarrow> cschema" where
  "cs_new ty shape = \<lparr>cs_prim_type = ty, cs_dim = shape\<rparr>"

text \<open>The product and the size wrap at 64 bits.\<close>

definition cs_size :: "cschema \<Rightarrow> nat" where
  "cs_size s = ((prod_list (cs_dim s) mod 2 ^ 64) * prim_size (cs_prim_type s)) mod 2 ^ 64"

definition cs_shape :: "cschema \<Rightarrow> u64 list" where
  "cs_shape s = map of_nat (cs_dim s)"

definition to_schema :: "cschema \<Rightarrow> schema option" where
  "to_schema s = (case schema_new (cs_prim_type s) (map unat (cs_shape s)) of Inl _ \<Rightarrow> None | Inr sc \<Rightarrow> Some sc)"

definition from_schema :: "schema \<Rightarrow> cschema" where
  "from_schema s = \<lparr>cs_prim_type = sc_prim_type s, cs_dim = sc_shape s\<rparr>"

text \<open>Each primitive type has a branch of its own in the source; they differ only in the type.\<close>

definition parse_value :: "caster \<Rightarrow> cschema \<Rightarrow> aslice \<Rightarrow> db_error + (nat \<times> component_view)" where
  "parse_value zc s buf =
     (case as_get buf 0 (cs_size s) of
        None \<Rightarrow> Inl (Impeller BufferOverflow)
      | Some buf \<Rightarrow>
          (case from_bytes_shape_unchecked zc buf (cs_dim s) (cs_prim_type s) of
             None \<Rightarrow> Inl (Impeller BufferOverflow)
           | Some view \<Rightarrow> Inr (cs_size s, view)))"

section \<open>Components\<close>

record component =
  co_id :: u64
  co_series :: time_series
  co_wal :: disruptor
  co_schema :: cschema
  co_last :: int

definition i64_min :: int where
  "i64_min = - (2 ^ 63)"

text \<open>
  Starting the persist task, in \<open>create\<close> and \<open>open\<close>: its reader joins the ring and it takes
  the writer of the series; a series that already has one is the panic of \<open>expect\<close>.
\<close>

definition persist_start :: "component \<Rightarrow> component option" where
  "persist_start c =
     (let wal = snd (reader_new (co_wal c))
      in case ts_writer (co_series c) of
           (False, _) \<Rightarrow> None
         | (True, s) \<Rightarrow> Some (c\<lparr>co_wal := wal, co_series := s\<rparr>))"

definition component_create :: "(cschema \<Rightarrow> nat + byte list) \<Rightarrow> fs_env \<Rightarrow> files \<Rightarrow> u64 \<Rightarrow> cschema \<Rightarrow>
    ((db_error + component) \<times> files) option" where
  "component_create enc os fs cid sch =
     (case os (MkDir cid) of
        Some e \<Rightarrow> Some (Inl (Io e), fs)
      | None \<Rightarrow>
          (case (if fs (SchemaFile cid) = None then meta_write enc os fs (SchemaFile cid) sch else (Inr (), fs)) of
             (Inl e, fs) \<Rightarrow> Some (Inl e, fs)
           | (Inr _, fs) \<Rightarrow>
               map_option (\<lambda>c. (Inr c, fs))
                 (persist_start \<lparr>co_id = cid, co_series = ts_create,
                    co_wal = disruptor_new ((cs_size sch * 1024) mod 2 ^ 64), co_schema = sch, co_last = i64_min\<rparr>)))"

text \<open>\<open>open\<close>, given what opening the series answered.\<close>

definition component_open :: "db_error + time_series \<Rightarrow> u64 \<Rightarrow> cschema \<Rightarrow> (db_error + component) option" where
  "component_open series cid sch =
     (case series of
        Inl e \<Rightarrow> Some (Inl e)
      | Inr s \<Rightarrow>
          (case ts_latest s of
             None \<Rightarrow> None
           | Some latest \<Rightarrow>
               map_option Inr
                 (persist_start \<lparr>co_id = cid, co_series = s,
                    co_wal = disruptor_new ((cs_size sch * 256) mod 2 ^ 64), co_schema = sch,
                    co_last = (case latest of None \<Rightarrow> i64_min | Some r \<Rightarrow> tr_timestamp r)\<rparr>)))"

definition sample_frame :: "int \<Rightarrow> byte list \<Rightarrow> byte list" where
  "sample_frame timestamp value_buf = i64_to_le timestamp @ value_buf"

text \<open>
  \<open>push_buf\<close>: a refused grant is logged and dropped, which the caller sees as success.
  \<open>None\<close> is the division by zero of an empty ring.
\<close>

definition co_push_buf :: "component \<Rightarrow> int \<Rightarrow> byte list \<Rightarrow> ((db_error + unit) \<times> component) option" where
  "co_push_buf c timestamp value_buf =
     (if timestamp < co_last c then Some (Inl TimeTravel, c)
      else map_option (\<lambda>r. case r of
          Inl _ \<Rightarrow> (Inr (), c)
        | Inr wal \<Rightarrow> (Inr (), c\<lparr>co_wal := wal, co_last := max (co_last c) timestamp\<rparr>))
        (publish (co_wal c) (sample_frame timestamp value_buf)))"

text \<open>The persist task's parse loop over one grant: samples of the schema's size.\<close>

function parse_samples :: "nat \<Rightarrow> byte list \<Rightarrow> (int \<times> byte list) list" where
  "parse_samples e buf =
     (let msg_size = e + 8
      in case get_range buf 0 msg_size of
           None \<Rightarrow> []
         | Some msg \<Rightarrow> (i64_of_le (take 8 msg), drop 8 msg) # parse_samples e (drop msg_size buf))"
  by pat_completeness auto
termination by (relation "measure (\<lambda>(_, buf). length buf)") (auto simp: get_range_def split: if_splits)

declare parse_samples.simps [simp del]

text \<open>Persisting the samples of a grant; errors are logged.  The result lists what was kept.\<close>

fun persist_samples :: "io_kind option \<Rightarrow> bool \<Rightarrow> time_series \<Rightarrow> (int \<times> byte list) list \<Rightarrow>
    ((int \<times> byte list) list \<times> time_series) option" where
  "persist_samples os cas s [] = Some ([], s)"
| "persist_samples os cas s (x # xs) =
     (case push_buf os cas s (fst x) (snd x) of
        None \<Rightarrow> None
      | Some (Inl _, s') \<Rightarrow> persist_samples os cas s' xs
      | Some (Inr _, s') \<Rightarrow> map_option (\<lambda>(kept, t). (x # kept, t)) (persist_samples os cas s' xs))"

text \<open>One turn of the persist task, on a grant the ring handed out to its reader.\<close>

definition persist_turn :: "io_kind option \<Rightarrow> bool \<Rightarrow> component \<Rightarrow> nat \<Rightarrow> nat \<times> nat \<Rightarrow>
    ((int \<times> byte list) list \<times> component) option" where
  "persist_turn os cas c r rng =
     (case read_grant (co_wal c) rng of
        None \<Rightarrow> None
      | Some buf \<Rightarrow>
          map_option (\<lambda>(kept, s). (kept, c\<lparr>co_series := s, co_wal := read_drop (co_wal c) r rng\<rparr>))
            (persist_samples os cas (co_series c) (parse_samples (cs_size (co_schema c)) buf)))"

definition as_vtable_op :: "component \<Rightarrow> nat \<Rightarrow> nat \<Rightarrow> nat \<Rightarrow> nat \<Rightarrow> nat \<Rightarrow> arc" where
  "as_vtable_op c i j k l m =
     b_schema i j k (cs_prim_type (co_schema c)) (cs_shape (co_schema c)) (b_component l m (co_id c))"

section \<open>Schemas and values\<close>

lemma schema_roundtrip:
  assumes "\<forall>d \<in> set (cs_dim s). d < 2 ^ 64"
  shows "map_option from_schema (to_schema s) = Some s"
proof -
  have "unat (of_nat d :: u64) = d" if "d < 2 ^ 64" for d using that by (simp add: unat_of_nat take_bit_nat_eq_self)
  then have "map unat (cs_shape s) = cs_dim s" using assms unfolding cs_shape_def map_map by (intro map_idI) auto
  then show ?thesis by (simp add: to_schema_def from_schema_def schema_new_def)
qed

text \<open>Parsing a value of a component reads exactly its size off the front of the buffer and
  yields the view of those bytes with the component's type and shape, whenever the buffer is
  long enough, suitably aligned and (for booleans) valid.\<close>

lemma parse_value_correct:
  assumes "zc_spec zc" "prod_list (cs_dim s) * prim_size (cs_prim_type s) < 2 ^ 64"
    and "cs_size s \<le> length buf" "addr mod alignment (cs_prim_type s) = 0"
    and "cs_prim_type s = Bool \<longrightarrow> bools_ok (take (cs_size s) buf)"
  shows "\<exists>view. parse_value zc s (addr, buf) = Inr (cs_size s, view) \<and> cv_as_bytes view = take (cs_size s) buf \<and>
    cv_prim_type view = cs_prim_type s \<and> cv_shape view = cs_dim s"
proof -
  let ?p = "prod_list (cs_dim s)" and ?ty = "cs_prim_type s"
  have sz: "0 < prim_size ?ty" by (cases ?ty) simp_all
  then have "?p \<le> ?p * prim_size ?ty" by (cases "prim_size ?ty") simp_all
  then have "?p < 2 ^ 64" using assms(2) by (rule le_less_trans)
  then have p: "?p mod 2 ^ 64 = ?p" by (rule mod_less)
  then have cs: "cs_size s = ?p * prim_size ?ty" using assms(2) by (simp add: cs_size_def)
  let ?b = "take (cs_size s) buf"
  have l: "length ?b = ?p * prim_size ?ty" using assms(3) cs by simp
  have b: "?ty = Bool \<longrightarrow> bools_ok (take ?p ?b)" using assms(5) set_take_subset [of ?p ?b] unfolding bools_ok_def by blast
  have "zc (ElemsOf (prim_size ?ty) (alignment ?ty) ?p (?ty = Bool)) (addr, ?b) = None"
    using assms(4,5) l by (simp add: zc_fits [OF assms(1)])
  then have "parse_value zc s (addr, buf) = Inr (cs_size s, view_of ?ty ?p ?b (cs_dim s))"
    using assms(3) p by (simp add: parse_value_def as_get_def get_range_def slice_def from_bytes_shape_unchecked_def)
  moreover have "?p * prim_size ?ty \<le> length ?b" using l by simp
  note v = view_of_bytes [OF this b, of "cs_dim s"]
  have "take (?p * prim_size ?ty) ?b = ?b" using l by (metis take_all order_refl)
  ultimately show ?thesis using v by metis
qed

lemma component_create_Inr:
  assumes "component_create enc os fs cid sch = Some (Inr c, fs')"
  shows "c = \<lparr>co_id = cid, co_series = ts_create\<lparr>ts_has_writer := True\<rparr>,
    co_wal = snd (reader_new (disruptor_new ((cs_size sch * 1024) mod 2 ^ 64))), co_schema = sch, co_last = i64_min\<rparr>"
  using assms
  by (auto simp: component_create_def persist_start_def ts_writer_def ts_create_def split: option.splits prod.splits sum.splits if_splits)

end
