(* ===== verification/ComponentRun.thy ===== *)
theory ComponentRun
  imports Component
begin

text \<open>
  A component at work: writers push samples into the ring, the persist task takes grants and
  moves their samples to the series, in any interleaving.  The run relation refines the runs
  of the ring, so that what the series holds and what the ring still holds is exactly what was
  accepted, unless the message size divides the capacity.
\<close>

section \<open>Frames and samples\<close>

lemma length_sample_frame [simp]: "length (sample_frame t v) = 8 + length v"
  by (simp add: sample_frame_def)

lemma parse_samples_short: "length buf < e + 8 \<Longrightarrow> parse_samples e buf = []"
  by (subst parse_samples.simps) (simp add: get_range_def)

lemma parse_samples_frame:
  "i64_range t \<Longrightarrow> length v = e \<Longrightarrow> parse_samples e (sample_frame t v @ rest) = (t, v) # parse_samples e rest"
  by (subst parse_samples.simps) (simp add: get_range_def slice_def sample_frame_def le_simps)

lemma parse_samples_append: "(e + 8) dvd length a \<Longrightarrow> parse_samples e (a @ b) = parse_samples e a @ parse_samples e b"
proof (induction "length a" arbitrary: a rule: less_induct)
  case less
  show ?case
  proof (cases "a = []")
    case True
    then show ?thesis by (simp add: parse_samples_short)
  next
    case False
    then have l: "e + 8 \<le> length a" using less.prems by (simp add: dvd_imp_le)
    have "parse_samples e (drop (e + 8) a @ b) = parse_samples e (drop (e + 8) a) @ parse_samples e b"
      by (rule less.hyps) (use l less.prems in \<open>auto simp: dvd_diff_nat\<close>)
    then show ?thesis using l
      by (subst (1 2) parse_samples.simps) (simp add: get_range_def slice_def Let_def)
  qed
qed

lemma parse_frames_concat:
  assumes "\<forall>(t, v) \<in> set xs. i64_range t \<and> length v = e"
  shows "parse_samples e (concat (map (\<lambda>(t, v). sample_frame t v) xs)) = xs"
  using assms by (induction xs) (auto simp: parse_samples_short parse_samples_frame)

lemma parse_samples_ok: "(t, v) \<in> set (parse_samples e buf) \<Longrightarrow> i64_range t \<and> length v = e"
proof (induction e buf rule: parse_samples.induct)
  case (1 e buf)
  show ?case
  proof (cases "e + 8 \<le> length buf")
    case True
    then have "parse_samples e buf = (i64_of_le (take 8 buf), drop 8 (take (e + 8) buf)) # parse_samples e (drop (e + 8) buf)"
      by (subst parse_samples.simps) (simp add: get_range_def slice_def Let_def)
    with 1 True show ?thesis by (auto simp: get_range_def slice_def)
  next
    case False
    with 1 show ?thesis by (simp add: parse_samples_short)
  qed
qed

lemma persist_samples_appends:
  assumes "ts_inv e s" "\<forall>(t, v) \<in> set xs. i64_range t \<and> length v = e" "persist_samples os cas s xs = Some (xs, s')"
  shows "ts_inv e s' \<and> ts_samples e s' = ts_samples e s @ xs"
  using assms
proof (induction xs arbitrary: s)
  case Nil
  then show ?case by simp
next
  case (Cons x xs)
  obtain r u where p: "push_buf os cas s (fst x) (snd x) = Some (r, u)" using Cons.prems(3) by (auto split: option.splits)
  have len: "length kept \<le> length ys" if "persist_samples os cas v ys = Some (kept, w)" for kept ys v w
    using that
  proof (induction ys arbitrary: kept v)
    case (Cons y ys)
    then show ?case by (fastforce split: option.splits sum.splits)
  qed simp
  show ?case
  proof (cases r)
    case (Inl e')
    then have "persist_samples os cas u xs = Some (x # xs, s')" using Cons.prems(3) p by simp
    from len [OF this] show ?thesis by simp
  next
    case (Inr y)
    then have y: "r = Inr ()" by simp
    then have q: "persist_samples os cas u xs = Some (xs, s')" using Cons.prems(3) p by auto
    have "i64_range (fst x)" "length (snd x) = e" using Cons.prems(2) by (auto split: prod.splits)
    from push_loop_sound [OF Cons.prems(1) this(2,1)] p y have "ts_inv e u" "ts_samples e u = ts_samples e s @ [x]"
      by (auto simp: push_buf_def)
    with Cons.IH [OF this(1) _ q] Cons.prems(2) show ?thesis by simp
  qed
qed

section \<open>The run relation\<close>

record comp_run =
  cr_c :: component
  cr_held :: "(nat \<times> nat) option"
  cr_sent :: "(int \<times> byte list) list"
  cr_saved :: "(int \<times> byte list) list"

text \<open>The pushes that reach the ring.\<close>

definition accepts :: "component \<Rightarrow> int \<Rightarrow> byte list \<Rightarrow> bool" where
  "accepts c t v \<longleftrightarrow> \<not> t < co_last c \<and>
     (case publish (co_wal c) (sample_frame t v) of Some (Inr _) \<Rightarrow> True | _ \<Rightarrow> False)"

text \<open>
  The steps: a push of a value of the schema's size, the persist task taking a grant or
  finding nothing, and the persist task working a grant off without a storage error.
\<close>

inductive comp_step :: "io_kind option \<Rightarrow> bool \<Rightarrow> comp_run \<Rightarrow> comp_run \<Rightarrow> bool" for os cas where
  cst_push: "i64_range t \<Longrightarrow> length v = cs_size (co_schema (cr_c s)) \<Longrightarrow> co_push_buf (cr_c s) t v = Some (r, c') \<Longrightarrow>
     comp_step os cas s (s\<lparr>cr_c := c', cr_sent := cr_sent s @ (if accepts (cr_c s) t v then [(t, v)] else [])\<rparr>)"
| cst_take: "cr_held s = None \<Longrightarrow> try_next (co_wal (cr_c s)) 0 = Some (Some rng, d') \<Longrightarrow>
     comp_step os cas s (s\<lparr>cr_c := (cr_c s)\<lparr>co_wal := d'\<rparr>, cr_held := Some rng\<rparr>)"
| cst_idle: "cr_held s = None \<Longrightarrow> try_next (co_wal (cr_c s)) 0 = Some (None, d') \<Longrightarrow>
     comp_step os cas s (s\<lparr>cr_c := (cr_c s)\<lparr>co_wal := d'\<rparr>\<rparr>)"
| cst_persist: "cr_held s = Some rng \<Longrightarrow> read_grant (co_wal (cr_c s)) rng = Some buf \<Longrightarrow>
     persist_turn os cas (cr_c s) 0 rng = Some (kept, c') \<Longrightarrow> kept = parse_samples (cs_size (co_schema (cr_c s))) buf \<Longrightarrow>
     comp_step os cas s (s\<lparr>cr_c := c', cr_held := None, cr_saved := cr_saved s @ kept\<rparr>)"

inductive comp_reach :: "io_kind option \<Rightarrow> bool \<Rightarrow> cschema \<Rightarrow> comp_run \<Rightarrow> bool" for os cas sch where
  crc_create: "component_create enc fos fs cid sch = Some (Inr c, fs') \<Longrightarrow>
     comp_reach os cas sch \<lparr>cr_c = c, cr_held = None, cr_sent = [], cr_saved = []\<rparr>"
| crc_step: "comp_reach os cas sch s \<Longrightarrow> comp_step os cas s t \<Longrightarrow> comp_reach os cas sch t"

section \<open>A component's run is a run of its ring\<close>

definition comp_sim :: "nat \<Rightarrow> comp_run \<Rightarrow> wal_run \<Rightarrow> bool" where
  "comp_sim e s w \<longleftrightarrow> w_d w = co_wal (cr_c s) \<and> w_held w 0 = cr_held s \<and> cs_size (co_schema (cr_c s)) = e \<and>
     w_sent w 0 = concat (map (\<lambda>(t, v). sample_frame t v) (cr_sent s)) \<and>
     (\<forall>(t, v) \<in> set (cr_sent s). i64_range t \<and> length v = e) \<and>
     (e + 8) dvd length (w_got w 0) \<and> parse_samples e (w_got w 0) = cr_saved s \<and>
     ts_inv e (co_series (cr_c s)) \<and> ts_samples e (co_series (cr_c s)) = cr_saved s \<and>
     (\<exists>x. (0, x) \<in> set (d_readers (w_d w)))"

lemma reader_stays:
  assumes "try_next d r = Some (x, d')" "(0, y) \<in> set (d_readers d)"
  shows "\<exists>z. (0, z) \<in> set (d_readers d')"
proof -
  from assms(1) obtain c where "poll d r c = Some (x, d')" by (rule try_next_poll)
  then have "fst ` set (d_readers d') = fst ` set (d_readers d)" by (rule poll_frame(7))
  moreover have "0 \<in> fst ` set (d_readers d)" using assms(2) by force
  ultimately show ?thesis by force
qed

lemma comp_sim_push:
  assumes sim: "comp_sim e s w" and reach: "wal_reach (\<lambda>d bs. length bs = e + 8) cap w" and inv: "d_inv (w_d w)"
    and t: "i64_range t" "length v = e" "co_push_buf (cr_c s) t v = Some (r, c')"
  shows "\<exists>w'. wal_reach (\<lambda>d bs. length bs = e + 8) cap w' \<and>
    comp_sim e (s\<lparr>cr_c := c', cr_sent := cr_sent s @ (if accepts (cr_c s) t v then [(t, v)] else [])\<rparr>) w'"
proof (cases "accepts (cr_c s) t v")
  case False
  then have "c' = cr_c s" using t(3)
    by (cases "publish (co_wal (cr_c s)) (sample_frame t v)") (auto simp: co_push_buf_def accepts_def split: if_splits sum.splits)
  then show ?thesis using False sim reach by (auto simp: comp_sim_def)
next
  case True
  then obtain d' where p: "publish (w_d w) (sample_frame t v) = Some (Inr d')" "\<not> t < co_last (cr_c s)"
    using sim by (auto simp: accepts_def comp_sim_def split: option.splits sum.splits)
  then have c': "c' = (cr_c s)\<lparr>co_wal := d', co_last := max (co_last (cr_c s)) t\<rparr>"
    using t(3) sim by (auto simp: co_push_buf_def comp_sim_def)
  let ?w = "w\<lparr>w_d := d', w_sent := (\<lambda>r. w_sent w r @ sample_frame t v)\<rparr>"
  have "wal_reach (\<lambda>d bs. length bs = e + 8) cap ?w" by (rule reach_publish [OF reach p(1)]) (simp add: t)
  moreover have "d_readers d' = d_readers (w_d w)" using publish_frame [OF inv p(1)] by simp
  then have "comp_sim e (s\<lparr>cr_c := c', cr_sent := cr_sent s @ [(t, v)]\<rparr>) ?w"
    using sim t(1,2) by (auto simp: comp_sim_def c')
  ultimately show ?thesis using True by auto
qed

lemma persist_turn_keeps:
  assumes "persist_turn os cas c r rng = Some (kept, c')"
  shows "\<exists>buf s. read_grant (co_wal c) rng = Some buf \<and>
    persist_samples os cas (co_series c) (parse_samples (cs_size (co_schema c)) buf) = Some (kept, s) \<and>
    c' = c\<lparr>co_series := s, co_wal := read_drop (co_wal c) r rng\<rparr>"
  using assms by (auto simp: persist_turn_def split: option.splits)

lemma comp_sim_step:
  assumes st: "comp_step os cas s t" and sim: "comp_sim e s w"
    and reach: "wal_reach (\<lambda>d bs. length bs = e + 8) cap w" and cap: "0 < cap" "\<not> (e + 8) dvd cap"
  shows "\<exists>w'. wal_reach (\<lambda>d bs. length bs = e + 8) cap w' \<and> comp_sim e t w'"
proof -
  have wi: "wal_inv w" "fixed_ok (e + 8) w" using fixed_reach [OF reach cap] by simp_all
  obtain y where y: "(0, y) \<in> set (d_readers (w_d w))" using sim by (auto simp: comp_sim_def)
  from st show ?thesis
  proof cases
    case (cst_push x v r c')
    then show ?thesis using comp_sim_push [OF sim reach] wi(1) sim by (simp add: wal_inv_def comp_sim_def)
  next
    case (cst_take rng d')
    let ?w = "w\<lparr>w_d := d', w_held := (w_held w)(0 := Some rng)\<rparr>"
    have e: "w_held w 0 = None" "try_next (w_d w) 0 = Some (Some rng, d')" using cst_take sim by (simp_all add: comp_sim_def)
    have "wal_reach (\<lambda>d bs. length bs = e + 8) cap ?w" by (rule wr_step [OF reach ws_take [OF e]])
    moreover have "comp_sim e t ?w" using sim reader_stays [OF e(2) y] cst_take(1) by (simp add: comp_sim_def)
    ultimately show ?thesis by blast
  next
    case (cst_idle d')
    let ?w = "w\<lparr>w_d := d'\<rparr>"
    have e: "w_held w 0 = None" "try_next (w_d w) 0 = Some (None, d')" using cst_idle sim by (simp_all add: comp_sim_def)
    have "wal_reach (\<lambda>d bs. length bs = e + 8) cap ?w" by (rule wr_step [OF reach ws_idle [OF e]])
    moreover have "comp_sim e t ?w" using sim reader_stays [OF e(2) y] cst_idle(1) by (simp add: comp_sim_def)
    ultimately show ?thesis by blast
  next
    case (cst_persist rng buf kept c')
    let ?w = "w\<lparr>w_d := read_drop (w_d w) 0 rng, w_got := (w_got w)(0 := w_got w 0 @ buf), w_held := (w_held w)(0 := None)\<rparr>"
    have e: "w_held w 0 = Some rng" "read_grant (w_d w) rng = Some buf" and sz: "cs_size (co_schema (cr_c s)) = e"
      using cst_persist sim by (simp_all add: comp_sim_def)
    have r: "wal_reach (\<lambda>d bs. length bs = e + 8) cap ?w" by (rule wr_step [OF reach ws_release [OF e]])
    obtain a b where ab: "rng = (a, b)" by (rule prod.exhaust)
    have "a = y" "held_ok (w_d w) a b" using wi(1) y e(1) ab by (auto simp: wal_inv_def reader_inv_def)
    moreover have "e + 8 dvd b" "e + 8 dvd y" using wi(2) e(1) ab y by (auto simp: fixed_ok_def)
    ultimately have "e + 8 dvd b - a" by (simp add: dvd_diff_nat)
    then have d: "e + 8 dvd length buf" using e(2) ab by (auto simp: read_grant_def get_range_Some length_slice)
    from persist_turn_keeps [OF cst_persist(4)] sz cst_persist(3,5) obtain u where
      u: "persist_samples os cas (co_series (cr_c s)) (parse_samples e buf) = Some (parse_samples e buf, u)"
        "c' = (cr_c s)\<lparr>co_series := u, co_wal := read_drop (co_wal (cr_c s)) 0 rng\<rparr>" by auto
    have "ts_inv e (co_series (cr_c s))" using sim by (simp add: comp_sim_def)
    from persist_samples_appends [OF this _ u(1)] parse_samples_ok
    have p: "ts_inv e u" "ts_samples e u = ts_samples e (co_series (cr_c s)) @ parse_samples e buf" by auto
    have "\<exists>z. (0, z) \<in> set (d_readers (read_drop (w_d w) 0 rng))" using y by (auto simp: read_drop_def set_cursor_readers)
    then have "comp_sim e t ?w"
      using sim p d sz cst_persist(1,5) u(2) by (auto simp: comp_sim_def parse_samples_append)
    with r show ?thesis by blast
  qed
qed

lemma comp_reach_sim:
  assumes "comp_reach os cas sch s" "cs_size sch = e" "cap = (e * 1024) mod 2 ^ 64" "0 < cap" "\<not> (e + 8) dvd cap"
  shows "\<exists>w. wal_reach (\<lambda>d bs. length bs = e + 8) cap w \<and> comp_sim e s w"
  using assms
proof (induction rule: comp_reach.induct)
  case (crc_create enc fos fs cid c fs')
  let ?d = "snd (reader_new (disruptor_new cap))"
  let ?w = "wal_init cap\<lparr>w_d := ?d, w_sent := (w_sent (wal_init cap))(0 := []), w_got := (w_got (wal_init cap))(0 := []),
                   w_held := (w_held (wal_init cap))(0 := None)\<rparr>"
  have j: "reader_new (w_d (wal_init cap)) = (0, ?d)" by (simp add: wal_init_def reader_new_def disruptor_new_def)
  have "wal_reach (\<lambda>d bs. length bs = e + 8) cap ?w" by (rule wr_step [OF wr_init ws_join [OF j]])
  moreover have "comp_sim e \<lparr>cr_c = c, cr_held = None, cr_sent = [], cr_saved = []\<rparr> ?w"
    using component_create_Inr [OF crc_create(1)] crc_create(2,3)
    by (auto simp: comp_sim_def wal_init_def ts_create_def ts_inv_def ts_samples_def parse_samples_short reader_new_def disruptor_new_def)
  ultimately show ?case by blast
next
  case (crc_step s t)
  then show ?case using comp_sim_step by blast
qed

lemma capacity_divides: "(e + 8) dvd e * 1024 \<longleftrightarrow> (e + 8) dvd (8192 :: nat)"
proof -
  have "e * 1024 + 8192 = (e + 8) * 1024" by simp
  then have "(e + 8) dvd e * 1024 + 8192" by (metis dvd_triv_left)
  then show ?thesis using dvd_add_right_iff dvd_add_left_iff by blast
qed


definition fresh_run :: "u64 \<Rightarrow> cschema \<Rightarrow> comp_run" where
  "fresh_run cid sch = \<lparr>cr_c = \<lparr>co_id = cid, co_series = ts_create\<lparr>ts_has_writer := True\<rparr>,
     co_wal = snd (reader_new (disruptor_new ((cs_size sch * 1024) mod 2 ^ 64))), co_schema = sch, co_last = i64_min\<rparr>,
     cr_held = None, cr_sent = [], cr_saved = []\<rparr>"

lemma fresh_reach: "comp_reach os cas sch (fresh_run cid sch)"
proof -
  have "component_create (\<lambda>_. Inr []) (\<lambda>_. None) (\<lambda>_. None) cid sch = Some (Inr (cr_c (fresh_run cid sch)), [SchemaFile cid \<mapsto> []])"
    by (simp add: component_create_def meta_write_def write_file_def persist_start_def ts_writer_def ts_create_def fresh_run_def)
  from crc_create [OF this] show ?thesis by (simp add: fresh_run_def)
qed

text \<open>Pushing into a ring nobody reads.\<close>

lemma fill_component:
  assumes "cs_size sch = e" "k * (e + 8) = (e * 1024) mod 2 ^ 64" "length xs \<le> k"
    and "\<forall>(t, v) \<in> set xs. i64_range t \<and> length v = e" "sorted (map fst xs)"
  shows "\<exists>s. comp_reach os cas sch s \<and> cr_sent s = xs \<and> cr_held s = None \<and> ts_samples e (co_series (cr_c s)) = [] \<and>
    co_schema (cr_c s) = sch \<and> (\<forall>t. (\<forall>x \<in> set xs. fst x \<le> t) \<and> i64_range t \<longrightarrow> co_last (cr_c s) \<le> t) \<and>
    d_readers (co_wal (cr_c s)) = [(0, 0)] \<and> d_max (co_wal (cr_c s)) = k * (e + 8) \<and>
    d_committed (co_wal (cr_c s)) = length xs * (e + 8) \<and> d_hwm (co_wal (cr_c s)) = length xs * (e + 8)"
  using assms(3-5)
proof (induction xs rule: rev_induct)
  case Nil
  show ?case
    by (rule exI [of _ "fresh_run 0 sch"])
      (simp add: fresh_reach, simp add: fresh_run_def reader_new_def disruptor_new_def d_max_def assms(1,2) i64_min_def
        i64_range_def ts_samples_def ts_create_def)
next
  case (snoc x xs)
  obtain t v where x: "x = (t, v)" by (rule prod.exhaust)
  from snoc.prems x have tv: "i64_range t" "length v = e" "\<forall>y \<in> set xs. fst y \<le> t" "sorted (map fst xs)" "length xs < k"
    by (auto simp: sorted_append)
  from snoc.IH snoc.prems tv obtain s where s: "comp_reach os cas sch s" "cr_sent s = xs" "cr_held s = None"
    "ts_samples e (co_series (cr_c s)) = []" "co_schema (cr_c s) = sch" "co_last (cr_c s) \<le> t"
    "d_readers (co_wal (cr_c s)) = [(0, 0)]" "d_max (co_wal (cr_c s)) = k * (e + 8)"
    "d_committed (co_wal (cr_c s)) = length xs * (e + 8)" "d_hwm (co_wal (cr_c s)) = length xs * (e + 8)" by auto
  let ?d = "co_wal (cr_c s)"
  let ?p = "length xs * (e + 8)"
  let ?d' = "?d\<lparr>d_ring := splice ?p (sample_frame t v) (d_ring ?d), d_hwm := ?p + (e + 8), d_committed := ?p + (e + 8), d_lock := False\<rparr>"
  let ?c = "(cr_c s)\<lparr>co_wal := ?d', co_last := max (co_last (cr_c s)) t\<rparr>"
  have p: "publish ?d (sample_frame t v) = Some (Inr ?d')" by (rule publish_fill [OF s(7-10) tv(5)]) (simp_all add: tv)
  have "co_push_buf (cr_c s) t v = Some (Inr (), ?c)" "accepts (cr_c s) t v"
    using s(6) p by (simp_all add: co_push_buf_def accepts_def)
  with cst_push [OF tv(1), of v s "Inr ()" ?c os cas] tv(2) s(5) assms(1)
  have "comp_step os cas s (s\<lparr>cr_c := ?c, cr_sent := xs @ [x]\<rparr>)" using s(2) x by simp
  then have r: "comp_reach os cas sch (s\<lparr>cr_c := ?c, cr_sent := xs @ [x]\<rparr>)" by (rule crc_step [OF s(1)])
  have "Suc (length xs) * (e + 8) \<le> k * (e + 8)" using tv(5) by (intro mult_le_mono1) simp
  then have "?p + length (sample_frame t v) \<le> length (d_ring ?d)" using s(8) tv(2) by (simp add: d_max_def)
  then have mx: "d_max ?d' = k * (e + 8)" using s(8) by (simp add: d_max_def length_splice)
  have l: "co_last ?c \<le> u" if "\<forall>x \<in> set (xs @ [x]). fst x \<le> u" for u using that x s(6) by auto
  show ?case by (rule exI [of _ "s\<lparr>cr_c := ?c, cr_sent := xs @ [x]\<rparr>"]) (use r s mx l in \<open>simp add: algebra_simps\<close>)
qed

text \<open>A component whose message size divides the capacity of its ring, such as one of
  eight-byte elements, can lose a whole ring of accepted samples: after one full lap of samples
  that the persist task has not read, all of them reported as accepted, the ring still holds
  only the last one and the series none.\<close>

theorem component_full_lap_loses:
  assumes "cs_size sch = e" "k * (e + 8) = (e * 1024) mod 2 ^ 64" "0 < k" "length xs = Suc k"
    and "\<forall>(t, v) \<in> set xs. i64_range t \<and> length v = e" "sorted (map fst xs)"
  shows "\<exists>s. comp_reach os cas sch s \<and> cr_sent s = xs \<and> ts_samples e (co_series (cr_c s)) = [] \<and>
    cursor_of (co_wal (cr_c s)) 0 = Some 0 \<and> parse_samples e (pending (co_wal (cr_c s)) 0) = [last xs]"
proof -
  from assms(4) obtain ys x where xs: "xs = ys @ [x]" by (cases xs rule: rev_cases) auto
  obtain t v where x: "x = (t, v)" by (rule prod.exhaust)
  from assms(4-6) xs x have ys: "length ys = k" "\<forall>(t, v) \<in> set ys. i64_range t \<and> length v = e" "sorted (map fst ys)"
    "i64_range t" "length v = e" "\<forall>y \<in> set ys. fst y \<le> t" by (auto simp: sorted_append)
  from fill_component [OF assms(1,2) _ ys(2,3), of os cas] ys obtain s where s: "comp_reach os cas sch s" "cr_sent s = ys"
    "ts_samples e (co_series (cr_c s)) = []" "co_schema (cr_c s) = sch" "co_last (cr_c s) \<le> t"
    "d_readers (co_wal (cr_c s)) = [(0, 0)]" "d_max (co_wal (cr_c s)) = k * (e + 8)"
    "d_committed (co_wal (cr_c s)) = k * (e + 8)" "d_hwm (co_wal (cr_c s)) = k * (e + 8)" by auto
  let ?d = "co_wal (cr_c s)"
  let ?d' = "?d\<lparr>d_ring := splice 0 (sample_frame t v) (d_ring ?d), d_hwm := k * (e + 8), d_committed := e + 8, d_lock := False\<rparr>"
  let ?c = "(cr_c s)\<lparr>co_wal := ?d', co_last := max (co_last (cr_c s)) t\<rparr>"
  have p: "publish ?d (sample_frame t v) = Some (Inr ?d')" by (rule publish_lap [OF s(6-9) assms(3)]) (simp_all add: ys)
  have "co_push_buf (cr_c s) t v = Some (Inr (), ?c)" "accepts (cr_c s) t v"
    using s(5) p by (simp_all add: co_push_buf_def accepts_def)
  with cst_push [OF ys(4), of v s "Inr ()" ?c os cas] ys(5) s(4) assms(1)
  have "comp_step os cas s (s\<lparr>cr_c := ?c, cr_sent := xs\<rparr>)" using s(2) x xs by simp
  then have r: "comp_reach os cas sch (s\<lparr>cr_c := ?c, cr_sent := xs\<rparr>)" by (rule crc_step [OF s(1)])
  have "slice 0 (e + 8) (splice 0 (sample_frame t v) (d_ring ?d)) = sample_frame t v"
    using slice_splice_same [of 0 "d_ring ?d" "sample_frame t v"] ys(5) by (simp add: add.commute)
  then have "parse_samples e (pending ?d' 0) = [x]"
    using parse_samples_frame [OF ys(4,5), of "[]"] x by (simp add: pending_def parse_samples_short)
  then show ?thesis using r s xs by (intro exI [of _ "s\<lparr>cr_c := ?c, cr_sent := xs\<rparr>"]) (simp add: cursor_of_def)
qed

text \<open>The two kinds of components: an \<open>f64\<close> scalar and an \<open>f32\<close> scalar.\<close>

lemma scalar_sizes: "cs_size (cs_new F64 []) = 8" "cs_size (cs_new U32 []) = 4"
  by (simp_all add: cs_size_def cs_new_def)



section \<open>Empty values and time travel\<close>

text \<open>A component whose schema has an empty dimension is created, and the first sample pushed to
  it is a division by zero in its ring of capacity zero.\<close>

theorem empty_component_panics:
  assumes "component_create enc os fs cid sch = Some (Inr c, fs')" "0 \<in> set (cs_dim sch)" "i64_range t"
  shows "co_push_buf c t v = None"
proof -
  have "prod_list (cs_dim sch) = 0" using assms(2) by (simp add: prod_list_zero_iff)
  then have "cs_size sch = 0" by (simp only: cs_size_def) simp
  then show ?thesis using component_create_Inr [OF assms(1)] assms(3)
    by (simp add: co_push_buf_def publish_def try_grant_def load_write_def reader_new_def disruptor_new_def d_max_def
        i64_min_def i64_range_def)
qed




end
