(* ===== verification/FixedRate.thy ===== *)
theory FixedRate
  imports ProtoTypes
begin

text \<open>
  The playback state of a fixed-rate stream (\<open>FixedRateStreamState\<close> and \<open>PlayingCell\<close> of
  \<open>libs/db/src/lib.rs\<close>): a tick that advances by a time step per frame, that a client may
  move (scrub), and a flag that pauses it.  \<open>pc_wakes\<close> counts the calls of \<open>wake_all\<close>.  A
  duration is a number of nanoseconds.
\<close>

section \<open>State and operations\<close>

record playing_cell =
  pc_is_playing :: bool
  pc_wakes :: nat

definition pc_new :: "bool \<Rightarrow> playing_cell" where
  "pc_new playing = \<lparr>pc_is_playing = playing, pc_wakes = 0\<rparr>"

definition pc_set_playing :: "playing_cell \<Rightarrow> bool \<Rightarrow> playing_cell" where
  "pc_set_playing c playing = c\<lparr>pc_is_playing := playing, pc_wakes := pc_wakes c + 1\<rparr>"

record stream_state =
  fr_id :: u64
  fr_time_step :: nat
  fr_frequency :: nat
  fr_scrubbed :: bool
  fr_tick :: int
  fr_cell :: playing_cell

definition fr_new :: "u64 \<Rightarrow> nat \<Rightarrow> int \<Rightarrow> nat \<Rightarrow> stream_state" where
  "fr_new sid time_step tick frequency =
     \<lparr>fr_id = sid, fr_time_step = time_step mod 2 ^ 64, fr_frequency = frequency, fr_scrubbed = False,
      fr_tick = tick, fr_cell = pc_new True\<rparr>"

text \<open>\<open>is_scrubbed\<close> reads the flag and clears it.\<close>

definition fr_is_scrubbed :: "stream_state \<Rightarrow> bool \<times> stream_state" where
  "fr_is_scrubbed s = (fr_scrubbed s, s\<lparr>fr_scrubbed := False\<rparr>)"

definition fr_set_timestamp :: "stream_state \<Rightarrow> int \<Rightarrow> stream_state" where
  "fr_set_timestamp s t =
     s\<lparr>fr_scrubbed := True, fr_tick := t, fr_cell := (fr_cell s)\<lparr>pc_wakes := pc_wakes (fr_cell s) + 1\<rparr>\<rparr>"

definition fr_set_frequency :: "stream_state \<Rightarrow> nat \<Rightarrow> stream_state" where
  "fr_set_frequency s frequency = s\<lparr>fr_frequency := frequency\<rparr>"

definition fr_set_playing :: "stream_state \<Rightarrow> bool \<Rightarrow> stream_state" where
  "fr_set_playing s playing = s\<lparr>fr_cell := pc_set_playing (fr_cell s) playing\<rparr>"

text \<open>Microseconds between frames; \<open>None\<close> is the division by zero.\<close>

definition fr_sleep_time :: "stream_state \<Rightarrow> nat option" where
  "fr_sleep_time s = (if fr_frequency s = 0 then None else Some (1000000 div fr_frequency s))"

text \<open>The compare-and-exchange of the tick; a duration counts in whole microseconds.\<close>

definition fr_try_increment_tick :: "stream_state \<Rightarrow> int \<Rightarrow> stream_state" where
  "fr_try_increment_tick s last_timestamp =
     (if fr_tick s = last_timestamp then s\<lparr>fr_tick := ts_add last_timestamp (fr_time_step s div 1000)\<rparr> else s)"

text \<open>The condition \<open>wait_for_playing\<close> waits for; the flag is only read when paused.\<close>

definition fr_poll_playing :: "stream_state \<Rightarrow> bool \<times> stream_state" where
  "fr_poll_playing s = (if pc_is_playing (fr_cell s) then (True, s) else fr_is_scrubbed s)"

text \<open>\<open>wait_for_tick\<close>: the time slept when no change of the playing flag ends it, and the
  increment; \<open>during\<close> is what other clients did to the state in the meantime.\<close>

definition fr_wait_for_tick :: "stream_state \<Rightarrow> nat \<Rightarrow> int \<Rightarrow> (stream_state \<Rightarrow> stream_state) \<Rightarrow> (nat \<times> stream_state) option" where
  "fr_wait_for_tick s elapsed last_timestamp during =
     map_option (\<lambda>sleep. (sleep - elapsed, fr_try_increment_tick (during s) last_timestamp)) (fr_sleep_time s)"

text \<open>
  One turn of a stream's loop: nothing while it is paused and not scrubbed, otherwise a frame
  for the current tick and the wait.  The outer \<open>None\<close> is the panic.
\<close>

definition fr_turn :: "stream_state \<Rightarrow> nat \<Rightarrow> (stream_state \<Rightarrow> stream_state) \<Rightarrow> (int option \<times> stream_state) option" where
  "fr_turn s elapsed during =
     (case fr_poll_playing s of
        (False, s) \<Rightarrow> Some (None, s)
      | (True, s) \<Rightarrow>
          map_option (\<lambda>(_, s'). (Some (fr_tick s), s')) (fr_wait_for_tick s elapsed (fr_tick s) during))"

text \<open>What clients may do to a stream.\<close>

datatype stream_cmd = SetPlaying bool | SetTimestamp int | SetFrequency nat

fun fr_cmd :: "stream_cmd \<Rightarrow> stream_state \<Rightarrow> stream_state" where
  "fr_cmd (SetPlaying b) s = fr_set_playing s b"
| "fr_cmd (SetTimestamp t) s = fr_set_timestamp s t"
| "fr_cmd (SetFrequency n) s = fr_set_frequency s n"

text \<open>The fields of \<open>SetStreamState\<close> that are present, in the handler's order.\<close>

definition set_stream_state :: "bool option \<Rightarrow> int option \<Rightarrow> nat option \<Rightarrow> stream_state \<Rightarrow> stream_state" where
  "set_stream_state playing timestamp frequency s =
     (let s = (case playing of None \<Rightarrow> s | Some b \<Rightarrow> fr_set_playing s b);
          s = (case timestamp of None \<Rightarrow> s | Some t \<Rightarrow> fr_set_timestamp s t)
      in case frequency of None \<Rightarrow> s | Some n \<Rightarrow> fr_set_frequency s n)"

section \<open>Playback\<close>

lemma cmd_time_step [simp]: "fr_time_step (fr_cmd c s) = fr_time_step s" "fr_time_step (fold fr_cmd cs s) = fr_time_step s"
proof -
  show one: "fr_time_step (fr_cmd c s) = fr_time_step s" for c s
    by (cases c) (simp_all add: fr_set_playing_def fr_set_timestamp_def fr_set_frequency_def)
  show "fr_time_step (fold fr_cmd cs s) = fr_time_step s" by (induction cs arbitrary: s) (simp_all add: one)
qed

lemma cmd_tick: "(\<forall>t. SetTimestamp t \<notin> set cs) \<Longrightarrow> fr_tick (fold fr_cmd cs s) = fr_tick s"
proof (induction cs arbitrary: s)
  case (Cons c cs)
  have "fr_tick (fr_cmd c s) = fr_tick s"
    using Cons.prems by (cases c) (auto simp: fr_set_playing_def fr_set_frequency_def)
  with Cons show ?case by simp
qed simp

lemma cmd_frequency: "SetFrequency 0 \<notin> set cs \<Longrightarrow> fr_frequency s \<noteq> 0 \<Longrightarrow> fr_frequency (fold fr_cmd cs s) \<noteq> 0"
proof (induction cs arbitrary: s)
  case (Cons c cs)
  have "fr_frequency (fr_cmd c s) \<noteq> 0"
    using Cons.prems by (cases c) (auto simp: fr_set_playing_def fr_set_timestamp_def fr_set_frequency_def)
  with Cons show ?case by simp
qed simp

text \<open>A turn of a playing stream sends the current tick; afterwards the tick has advanced by
  exactly one time step, unless a client moved it in the meantime, in which case the client's
  timestamp stands.\<close>

lemma turn_advances:
  assumes "pc_is_playing (fr_cell s)" "fr_frequency s \<noteq> 0"
  shows "\<exists>s'. fr_turn s elapsed (fold fr_cmd cs) = Some (Some (fr_tick s), s') \<and>
    fr_tick s' = (if fr_tick (fold fr_cmd cs s) = fr_tick s then ts_add (fr_tick s) (fr_time_step s div 1000)
                  else fr_tick (fold fr_cmd cs s))"
  using assms by (simp add: fr_turn_def fr_poll_playing_def fr_wait_for_tick_def fr_sleep_time_def fr_try_increment_tick_def)

text \<open>A client can stop the server's stream task: setting the frequency to zero makes the
  next turn of a playing stream divide by zero, and any commands without it leave every turn
  free of that panic.\<close>

theorem zero_frequency_panics:
  "(pc_is_playing (fr_cell s) \<longrightarrow> fr_turn (set_stream_state None None (Some 0) s) elapsed during = None) \<and>
   (fr_frequency s \<noteq> 0 \<and> SetFrequency 0 \<notin> set cs \<longrightarrow> fr_turn (fold fr_cmd cs s) elapsed during \<noteq> None)"
proof (intro conjI impI)
  assume "pc_is_playing (fr_cell s)"
  then show "fr_turn (set_stream_state None None (Some 0) s) elapsed during = None"
    by (simp add: set_stream_state_def fr_set_frequency_def fr_turn_def fr_poll_playing_def fr_wait_for_tick_def fr_sleep_time_def)
next
  assume "fr_frequency s \<noteq> 0 \<and> SetFrequency 0 \<notin> set cs"
  then show "fr_turn (fold fr_cmd cs s) elapsed during \<noteq> None"
    using cmd_frequency [of cs s]
    by (auto simp: fr_turn_def fr_poll_playing_def fr_is_scrubbed_def fr_wait_for_tick_def fr_sleep_time_def split: prod.splits bool.splits if_splits)
qed


text \<open>The scrub flag is only consumed by a paused stream: a timestamp set while the stream
  plays makes it send one more frame, and advance, after it was paused.\<close>

theorem stale_scrub_sends_frame:
  assumes "pc_is_playing (fr_cell s)" "fr_frequency s \<noteq> 0"
  shows "\<exists>s1 s2. fr_turn (fr_set_timestamp s t) e id = Some (Some t, s1) \<and>
    fr_turn (fr_set_playing s1 False) e id = Some (Some (fr_tick s1), s2) \<and>
    fr_tick s2 = ts_add (fr_tick s1) (fr_time_step s div 1000) \<and> fst (fr_poll_playing s2) = False"
  using assms
  by (auto simp: fr_turn_def fr_poll_playing_def fr_set_timestamp_def fr_set_playing_def pc_set_playing_def fr_is_scrubbed_def
      fr_wait_for_tick_def fr_sleep_time_def fr_try_increment_tick_def)


end
