(* ===== verification/Database.thy ===== *)
theory Database
  imports Component MsgLog FixedRate "HOL-Library.Finite_Map"
begin

text \<open>
  The database (\<open>DB\<close> and \<open>State\<close> of \<open>libs/db/src/lib.rs\<close>): components, their metadata, message
  logs, registered vtables, streams and the configuration, with creation, opening, the
  insertion of vtables, components and messages, and the sink that distributes a table's
  values.  A hash map is a map; where the code iterates one, the order is a parameter.  The
  state is locked by every operation, so an operation is one step.  A panic is \<open>None\<close>.
\<close>

section \<open>State\<close>

record db_config =
  cfg_recording :: bool
  cfg_time_step :: nat
  cfg_metadata :: "(string, string) fmap"

text \<open>\<open>DbConfig::default\<close>: ten milliseconds.\<close>

definition default_config :: db_config where
  "default_config = \<lparr>cfg_recording = True, cfg_time_step = 10000000, cfg_metadata = fmempty\<rparr>"

record cmeta =
  cm_id :: u64
  cm_name :: string
  cm_metadata :: "(string, string) fmap"

record 'm state =
  st_components :: "u64 \<Rightarrow> component option"
  st_metadata :: "u64 \<Rightarrow> cmeta option"
  st_msg_logs :: "packet_id \<Rightarrow> 'm msg_log option"
  st_registry :: "packet_id \<Rightarrow> vtable option"
  st_streams :: "u64 \<Rightarrow> stream_state option"
  st_config :: db_config
  st_udp :: "(nat \<times> packet_id) set"

record 'm db =
  db_st :: "'m state"
  db_vtable_gen :: u64
  db_recording :: playing_cell
  db_time_step :: nat
  db_last_updated :: int
  db_earliest :: int
  db_files :: files

definition empty_state :: "'m state" where
  "empty_state = \<lparr>st_components = (\<lambda>_. None), st_metadata = (\<lambda>_. None), st_msg_logs = (\<lambda>_. None),
     st_registry = (\<lambda>_. None), st_streams = (\<lambda>_. None), st_config = default_config, st_udp = {}\<rparr>"

text \<open>The serialisers of the files: schema, component metadata, configuration.\<close>

record codecs =
  enc_schema :: "cschema \<Rightarrow> nat + byte list"
  dec_schema :: "byte list \<Rightarrow> nat + cschema"
  enc_meta :: "cmeta \<Rightarrow> nat + byte list"
  dec_meta :: "byte list \<Rightarrow> nat + cmeta"
  enc_config :: "db_config \<Rightarrow> nat + byte list"
  dec_config :: "byte list \<Rightarrow> nat + db_config"

text \<open>\<open>to_string\<close> of a component id: its decimal digits.\<close>

fun decimal :: "nat \<Rightarrow> string" where
  "decimal n = (if n < 10 then [char_of (48 + n)] else decimal (n div 10) @ [char_of (48 + n mod 10)])"

declare decimal.simps [simp del]

text \<open>\<open>update_max\<close> on an atomic timestamp.\<close>

definition update_max :: "int \<Rightarrow> int \<Rightarrow> int" where
  "update_max cell val = max cell val"

section \<open>Creation and opening\<close>

definition save_db_state :: "codecs \<Rightarrow> fs_env \<Rightarrow> 'm db \<Rightarrow> (db_error + unit) \<times> 'm db" where
  "save_db_state cod os d =
     (case meta_write (enc_config cod) os (db_files d) DbStateFile (st_config (db_st d)) of
        (r, fs) \<Rightarrow> (r, d\<lparr>db_files := fs\<rparr>))"

text \<open>\<open>root\<close> is what creating the directory answers.\<close>

definition db_with_time_step :: "codecs \<Rightarrow> fs_env \<Rightarrow> io_kind option \<Rightarrow> files \<Rightarrow> int \<Rightarrow> nat \<Rightarrow> (db_error + 'm db)" where
  "db_with_time_step cod os root fs now time_step =
     (case root of
        Some e \<Rightarrow> Inl (Io e)
      | None \<Rightarrow>
          (case save_db_state cod os
                  \<lparr>db_st = empty_state\<lparr>st_config := default_config\<lparr>cfg_time_step := time_step\<rparr>\<rparr>, db_vtable_gen = 0,
                   db_recording = pc_new True, db_time_step = time_step mod 2 ^ 64, db_last_updated = i64_min,
                   db_earliest = now, db_files = fs\<rparr> of
             (Inl e, _) \<Rightarrow> Inl e
           | (Inr _, d) \<Rightarrow> Inr d))"

text \<open>120 frames a second: \<open>Duration::from_secs_f64\<close> rounds to nanoseconds.\<close>

definition db_create :: "codecs \<Rightarrow> fs_env \<Rightarrow> io_kind option \<Rightarrow> files \<Rightarrow> int \<Rightarrow> (db_error + 'm db)" where
  "db_create cod os root fs now = db_with_time_step cod os root fs now 8333333"

text \<open>
  A component directory as \<open>open\<close> meets it: its name as a component id, if it is one, and what
  opening its series answers; a message directory with its name as an id and its opened log.
\<close>

record comp_entry =
  ce_id :: "u64 option"
  ce_series :: "db_error + time_series"

definition i64_max :: int where
  "i64_max = 2 ^ 63 - 1"

text \<open>\<open>seen\<close> accumulates the latest and the earliest timestamp.\<close>

fun open_components :: "codecs \<Rightarrow> fs_env \<Rightarrow> files \<Rightarrow> comp_entry list \<Rightarrow> 'm state \<Rightarrow> int \<times> int \<Rightarrow>
    (db_error + ('m state \<times> int \<times> int)) option" where
  "open_components cod os fs [] st seen = Some (Inr (st, seen))"
| "open_components cod os fs (e # es) st seen =
     (case ce_id e of
        None \<Rightarrow> Some (Inl InvalidComponentId)
      | Some cid \<Rightarrow>
          (case meta_read (dec_schema cod) os fs (SchemaFile cid) of
             Inl err \<Rightarrow> Some (Inl err)
           | Inr sch \<Rightarrow>
               (case meta_read (dec_meta cod) os fs (MetadataFile cid) of
                  Inl err \<Rightarrow> Some (Inl err)
                | Inr meta \<Rightarrow>
                    (case component_open (ce_series e) cid sch of
                       None \<Rightarrow> None
                     | Some (Inl err) \<Rightarrow> Some (Inl err)
                     | Some (Inr c) \<Rightarrow>
                         (case (ts_latest (co_series c), start_timestamp (co_series c)) of
                            (Some latest, Some first) \<Rightarrow>
                              open_components cod os fs es
                                (st\<lparr>st_components := (st_components st)(cid \<mapsto> c), st_metadata := (st_metadata st)(cid \<mapsto> meta)\<rparr>)
                                (case latest of None \<Rightarrow> fst seen | Some r \<Rightarrow> max (tr_timestamp r) (fst seen),
                                 case first of None \<Rightarrow> snd seen | Some t \<Rightarrow> min (snd seen) t)
                          | _ \<Rightarrow> None)))))"

fun open_msg_logs :: "(packet_id option \<times> (db_error + 'm msg_log)) list \<Rightarrow> 'm state \<Rightarrow> int \<times> int \<Rightarrow>
    (db_error + ('m state \<times> int \<times> int)) option" where
  "open_msg_logs [] st seen = Some (Inr (st, seen))"
| "open_msg_logs ((None, _) # es) st seen = Some (Inl InvalidMsgId)"
| "open_msg_logs ((Some pid, Inl err) # es) st seen = Some (Inl err)"
| "open_msg_logs ((Some pid, Inr l) # es) st seen =
     (case (ml_first_timestamp l, ml_latest l) of
        (Some first, Some latest) \<Rightarrow>
          open_msg_logs es (st\<lparr>st_msg_logs := (st_msg_logs st)(pid \<mapsto> l)\<rparr>)
            (case latest of None \<Rightarrow> fst seen | Some r \<Rightarrow> max (tr_timestamp r) (fst seen),
             case first of None \<Rightarrow> snd seen | Some t \<Rightarrow> min (snd seen) t)
      | _ \<Rightarrow> None)"

text \<open>
  \<open>open\<close>: the entries of the two directories, in the order they are listed.  The
  configuration is read for the recording flag and the time step only; the state is given the
  default one.
\<close>

definition db_open :: "codecs \<Rightarrow> fs_env \<Rightarrow> files \<Rightarrow> comp_entry list \<Rightarrow>
    (packet_id option \<times> (db_error + 'm msg_log)) list \<Rightarrow> int \<Rightarrow> (db_error + 'm db) option" where
  "db_open cod os fs entries msgs now =
     (case open_components cod os fs entries empty_state (i64_min, i64_max) of
        None \<Rightarrow> None
      | Some (Inl e) \<Rightarrow> Some (Inl e)
      | Some (Inr (st, seen)) \<Rightarrow>
          (case open_msg_logs msgs st seen of
             None \<Rightarrow> None
           | Some (Inl e) \<Rightarrow> Some (Inl e)
           | Some (Inr (st, last_updated, start)) \<Rightarrow>
               Some (map_sum id (\<lambda>cfg.
                 \<lparr>db_st = st, db_vtable_gen = 0, db_recording = pc_new (cfg_recording cfg),
                  db_time_step = cfg_time_step cfg mod 2 ^ 64, db_last_updated = last_updated,
                  db_earliest = (if start = i64_max then now else start), db_files = fs\<rparr>)
                 (meta_read (dec_config cod) os fs DbStateFile))))"

section \<open>Components, vtables, messages\<close>

text \<open>The lookup of a metadata file that exists and holds the same value ends early.\<close>

definition set_component_metadata :: "codecs \<Rightarrow> fs_env \<Rightarrow> 'm state \<Rightarrow> files \<Rightarrow> cmeta \<Rightarrow> (db_error + unit) \<times> 'm state \<times> files" where
  "set_component_metadata cod os st fs meta =
     (let cid = cm_id meta;
          insert' = (case meta_write (enc_meta cod) os fs (MetadataFile cid) meta of
                      (Inl e, fs) \<Rightarrow> (Inl e, st, fs)
                    | (Inr _, fs) \<Rightarrow> (Inr (), st\<lparr>st_metadata := (st_metadata st)(cid \<mapsto> meta)\<rparr>, fs))
      in case os (MkDir cid) of
           Some e \<Rightarrow> (Inl (Io e), st, fs)
         | None \<Rightarrow>
             if fs (MetadataFile cid) = None then insert'
             else (case meta_read (dec_meta cod) os fs (MetadataFile cid) of
                     Inl e \<Rightarrow> (Inl e, st, fs)
                   | Inr old \<Rightarrow> if old = meta then (Inr (), st, fs) else insert'))"

definition insert_component :: "codecs \<Rightarrow> fs_env \<Rightarrow> 'm state \<Rightarrow> files \<Rightarrow> u64 \<Rightarrow> cschema \<Rightarrow>
    ((db_error + unit) \<times> 'm state \<times> files) option" where
  "insert_component cod os st fs cid sch =
     (case st_components st cid of
        Some c \<Rightarrow> Some (if co_schema c \<noteq> sch then Inl SchemaMismatch else Inr (), st, fs)
      | None \<Rightarrow>
          (case component_create (enc_schema cod) os fs cid sch of
             None \<Rightarrow> None
           | Some (Inl e, fs) \<Rightarrow> Some (Inl e, st, fs)
           | Some (Inr c, fs) \<Rightarrow> Some
               (case (if st_metadata st cid = None
                      then set_component_metadata cod os st fs \<lparr>cm_id = cid, cm_name = decimal (unat cid), cm_metadata = fmempty\<rparr>
                      else (Inr (), st, fs)) of
                  (Inl e, st, fs) \<Rightarrow> (Inl e, st, fs)
                | (Inr _, st, fs) \<Rightarrow> (Inr (), st\<lparr>st_components := (st_components st)(cid \<mapsto> c)\<rparr>, fs))))"

text \<open>The loop of \<open>insert_vtable\<close>: a field realized without a table names a component to insert.\<close>

fun insert_fields :: "codecs \<Rightarrow> fs_env \<Rightarrow> caster \<Rightarrow> nat \<Rightarrow> vtable \<Rightarrow> vfield list \<Rightarrow> 'm db \<Rightarrow> ((db_error + unit) \<times> 'm db) option" where
  "insert_fields cod os zc base vt [] d = Some (Inr (), d)"
| "insert_fields cod os zc base vt (f # fs) d =
     (case realize_field zc base vt None f of
        None \<Rightarrow> None
      | Some (Inl e) \<Rightarrow> Some (Inl (Impeller e), d)
      | Some (Inr rf) \<Rightarrow>
          (case insert_component cod os (db_st d) (db_files d) (rf_component_id rf) (cs_new (rf_ty rf) (rf_shape rf)) of
             None \<Rightarrow> None
           | Some (Inl e, st, files) \<Rightarrow> Some (Inl e, d\<lparr>db_st := st, db_files := files\<rparr>)
           | Some (Inr _, st, files) \<Rightarrow>
               insert_fields cod os zc base vt fs
                 (d\<lparr>db_st := st, db_files := files, db_vtable_gen := db_vtable_gen d + 1\<rparr>)))"

definition insert_vtable :: "codecs \<Rightarrow> fs_env \<Rightarrow> caster \<Rightarrow> nat \<Rightarrow> packet_id \<Rightarrow> vtable \<Rightarrow> 'm db \<Rightarrow> ((db_error + unit) \<times> 'm db) option" where
  "insert_vtable cod os zc base pid vt d =
     (case insert_fields cod os zc base vt (vt_fields vt) d of
        None \<Rightarrow> None
      | Some (Inl e, d) \<Rightarrow> Some (Inl e, d)
      | Some (Inr _, d) \<Rightarrow> Some (Inr (), d\<lparr>db_st := (db_st d)\<lparr>st_registry := (st_registry (db_st d))(pid \<mapsto> vt)\<rparr>\<rparr>))"

definition get_or_insert_msg_log :: "'m state \<Rightarrow> packet_id \<Rightarrow> 'm msg_log \<times> 'm state" where
  "get_or_insert_msg_log st pid =
     (case st_msg_logs st pid of
        Some l \<Rightarrow> (l, st)
      | None \<Rightarrow> (ml_create, st\<lparr>st_msg_logs := (st_msg_logs st)(pid \<mapsto> ml_create)\<rparr>))"

definition set_msg_metadata :: "io_kind option \<Rightarrow> 'm state \<Rightarrow> packet_id \<Rightarrow> 'm \<Rightarrow> (db_error + unit) \<times> 'm state" where
  "set_msg_metadata os st pid meta =
     (let (l, st) = get_or_insert_msg_log st pid; (r, l) = ml_set_metadata os l meta
      in (r, st\<lparr>st_msg_logs := (st_msg_logs st)(pid \<mapsto> l)\<rparr>))"

definition push_msg :: "'m db \<Rightarrow> int \<Rightarrow> packet_id \<Rightarrow> byte list \<Rightarrow> ((db_error + unit) \<times> 'm db) option" where
  "push_msg d timestamp pid msg =
     (let (l, st) = get_or_insert_msg_log (db_st d) pid
      in case ml_push l timestamp msg of
           None \<Rightarrow> None
         | Some (Inl e, l) \<Rightarrow> Some (Inl e, d\<lparr>db_st := st\<lparr>st_msg_logs := (st_msg_logs st)(pid \<mapsto> l)\<rparr>\<rparr>)
         | Some (Inr _, l) \<Rightarrow> Some (Inr (),
             d\<lparr>db_st := st\<lparr>st_msg_logs := (st_msg_logs st)(pid \<mapsto> l)\<rparr>,
               db_last_updated := update_max (db_last_updated d) timestamp\<rparr>))"

datatype initial_timestamp = Earliest | Latest | Manual int

definition initial_tick :: "'m db \<Rightarrow> initial_timestamp \<Rightarrow> int" where
  "initial_tick d i = (case i of Earliest \<Rightarrow> db_earliest d | Latest \<Rightarrow> db_last_updated d | Manual t \<Rightarrow> t)"

definition get_or_insert_fixed_rate :: "'m db \<Rightarrow> u64 \<Rightarrow> initial_timestamp \<Rightarrow> nat \<Rightarrow> nat \<Rightarrow> stream_state \<times> 'm db" where
  "get_or_insert_fixed_rate d sid initial time_step frequency =
     (case st_streams (db_st d) sid of
        Some s \<Rightarrow> (s, d)
      | None \<Rightarrow>
          let s = fr_new sid time_step (initial_tick d initial) frequency
          in (s, d\<lparr>db_st := (db_st d)\<lparr>st_streams := (st_streams (db_st d))(sid \<mapsto> s)\<rparr>\<rparr>))"

section \<open>Tables\<close>

record db_sink =
  sk_components :: "u64 \<Rightarrow> component option"
  sk_last_updated :: int
  sk_new_series :: bool
  sk_received :: int

definition sink_apply :: "db_sink \<Rightarrow> u64 \<Rightarrow> component_view \<Rightarrow> int option \<Rightarrow> ((db_error + unit) \<times> db_sink) option" where
  "sink_apply k cid value timestamp =
     (let timestamp = (case timestamp of None \<Rightarrow> sk_received k | Some t \<Rightarrow> t)
      in case sk_components k cid of
           None \<Rightarrow> Some (Inl (ComponentNotFound cid), k)
         | Some c \<Rightarrow>
             map_option (\<lambda>(r, c').
               let k' = k\<lparr>sk_components := (sk_components k)(cid \<mapsto> c')\<rparr>
               in case r of
                    Inl e \<Rightarrow> (Inl e, k')
                  | Inr _ \<Rightarrow> (Inr (),
                      k'\<lparr>sk_new_series := (ts_is_empty (co_series c) \<or> sk_new_series k),
                         sk_last_updated := update_max (sk_last_updated k) timestamp\<rparr>))
             (co_push_buf c timestamp (cv_as_bytes value)))"

text \<open>The \<open>Table\<close> branch of \<open>handle_packet\<close>; the generation is only bumped when the whole table
  was applied.\<close>

definition handle_table :: "caster \<Rightarrow> nat \<Rightarrow> int \<Rightarrow> owned_table \<Rightarrow> 'm db \<Rightarrow> ((db_error + unit) \<times> 'm db) option" where
  "handle_table zc base now t d =
     map_option (\<lambda>(r, k).
       let d' = d\<lparr>db_st := (db_st d)\<lparr>st_components := sk_components k\<rparr>, db_last_updated := sk_last_updated k\<rparr>
       in case r of
            Inl e \<Rightarrow> (Inl (Impeller e), d')
          | Inr (Inl e) \<Rightarrow> (Inl e, d')
          | Inr (Inr _) \<Rightarrow> (Inr (), if sk_new_series k then d'\<lparr>db_vtable_gen := db_vtable_gen d + 1\<rparr> else d'))
     (table_sink zc base (st_registry (db_st d)) t sink_apply
        \<lparr>sk_components = st_components (db_st d), sk_last_updated = db_last_updated d, sk_new_series = False, sk_received = now\<rparr>)"

text \<open>The \<open>SetDbConfig\<close> branch: the recording flag, the metadata, the file.\<close>

definition set_db_config :: "codecs \<Rightarrow> fs_env \<Rightarrow> bool option \<Rightarrow> (string, string) fmap \<Rightarrow> 'm db \<Rightarrow> (db_error + unit) \<times> 'm db" where
  "set_db_config cod os recording metadata d =
     (let d = (case recording of
                 None \<Rightarrow> d
               | Some r \<Rightarrow> d\<lparr>db_st := (db_st d)\<lparr>st_config := (st_config (db_st d))\<lparr>cfg_recording := r\<rparr>\<rparr>,
                             db_recording := pc_set_playing (db_recording d) r\<rparr>);
          cfg = st_config (db_st d)
      in save_db_state cod os (d\<lparr>db_st := (db_st d)\<lparr>st_config := cfg\<lparr>cfg_metadata := cfg_metadata cfg ++\<^sub>f metadata\<rparr>\<rparr>\<rparr>))"

end
