(* ===== verification/DatabaseCorrect.thy ===== *)
theory DatabaseCorrect
  imports Database VTableBuild
begin

text \<open>
  The database's invariant, that every registered vtable describes existing components with
  their schemas, its preservation, and what it gives: every sample a table sinks into a
  component has that component's size.  Then the behaviour of files across a restart.
\<close>

section \<open>Evaluation with and without a table\<close>

text \<open>The two evaluations of one operation agree on all but the bytes read from the table.\<close>

fun rop_sim :: "realized_op \<Rightarrow> realized_op \<Rightarrow> bool" where
  "rop_sim (RData d) (RData d') \<longleftrightarrow> snd d = snd d'"
| "rop_sim (RTable None rng) (RTable (Some s) rng') \<longleftrightarrow> rng = rng'"
| "rop_sim (RComponent c) (RComponent c') \<longleftrightarrow> c = c'"
| "rop_sim (RSchema d ty a) (RSchema d' ty' a') \<longleftrightarrow> snd d = snd d' \<and> ty = ty' \<and> a = a'"
| "rop_sim (RTimestamp t rng a) (RTimestamp t' rng' a') \<longleftrightarrow> a = a'"
| "rop_sim (RExt i d a) (RExt i' d' a') \<longleftrightarrow> i = i' \<and> snd d = snd d' \<and> a = a'"
| "rop_sim RNone RNone \<longleftrightarrow> True"
| "rop_sim _ _ \<longleftrightarrow> False"

lemma rop_sim_slice: "rop_sim x y \<Longrightarrow> as_slice x = Some d \<Longrightarrow> \<exists>d'. as_slice y = Some d' \<and> snd d' = snd d"
  by (induction x y rule: rop_sim.induct) auto

lemma rop_sim_component: "rop_sim x y \<Longrightarrow> as_component_id x = Some c \<Longrightarrow> as_component_id y = Some c' \<Longrightarrow> c' = c"
  using rop_sim_slice [of x y] by (force simp: as_component_id_def split: option.splits if_splits)

lemma rop_sim_prim: "rop_sim x y \<Longrightarrow> as_prim_ty zc x = Some c \<Longrightarrow> as_prim_ty zc y = Some c' \<Longrightarrow> c' = c"
  using rop_sim_slice [of x y] by (force simp: as_prim_ty_def split: option.splits if_splits)

lemma bind_case_Inr:
  "Option.bind m (\<lambda>r. case r of Inl e \<Rightarrow> Some (Inl e) | Inr a \<Rightarrow> f a) = Some (Inr b) \<longleftrightarrow>
     (\<exists>a. m = Some (Inr a) \<and> f a = Some (Inr b))"
proof (cases m)
  case (Some r)
  then show ?thesis by (cases r) auto
qed simp

text \<open>Inversion of a successful evaluation, for any function in the place of the recursive calls.\<close>

abbreviation realize_body where
  "realize_body rec zc base vt op_ref table \<equiv>
     (case get_op vt op_ref of
        Inl e \<Rightarrow> Some (Inl e)
      | Inr (OpData offset len) \<Rightarrow> Some (realize_data base vt offset len)
      | Inr (OpTable offset len) \<Rightarrow> Some (realize_table table offset len)
      | Inr OpNone \<Rightarrow> Some (Inr RNone)
      | Inr (OpComponent c) \<Rightarrow>
          Option.bind (rec zc base vt c table) (\<lambda>r. Some
            (bind_result r (\<lambda>r. map_sum id RComponent (ok_or InvalidOp (as_component_id r)))))
      | Inr (OpSchema ty dim arg) \<Rightarrow>
          Option.bind (rec zc base vt ty table) (\<lambda>r.
            (case bind_result r (\<lambda>r. ok_or InvalidOp (as_prim_ty zc r)) of
               Inl e \<Rightarrow> Some (Inl e)
             | Inr ty \<Rightarrow>
                 Option.bind (rec zc base vt dim table) (\<lambda>r. Some
                   (bind_result r (\<lambda>r. realize_schema zc ty r arg)))))
      | Inr (OpTimestamp source arg) \<Rightarrow>
          Option.bind (rec zc base vt source table) (\<lambda>r. Some
            (bind_result r (\<lambda>r. realize_timestamp zc r arg)))
      | Inr (OpExt arg id' data) \<Rightarrow>
          Option.bind (rec zc base vt data table) (\<lambda>r. Some
            (bind_result r (\<lambda>r. map_sum id (\<lambda>d. RExt id' d arg) (ok_or InvalidOp (as_slice r))))))"

definition realized_from :: "(u32 \<Rightarrow> (proto_error + realized_op) option) \<Rightarrow> caster \<Rightarrow> nat \<Rightarrow> vtable \<Rightarrow> aslice option \<Rightarrow>
    op \<Rightarrow> realized_op \<Rightarrow> bool" where
  "realized_from rec zc base vt table op' x \<longleftrightarrow> (case op' of
       OpData off len \<Rightarrow> realize_data base vt off len = Inr x
     | OpTable off len \<Rightarrow> realize_table table off len = Inr x
     | OpNone \<Rightarrow> x = RNone
     | OpComponent c \<Rightarrow> (\<exists>v cid. rec c = Some (Inr v) \<and> as_component_id v = Some cid \<and> x = RComponent cid)
     | OpSchema t d a \<Rightarrow> (\<exists>v ty w. rec t = Some (Inr v) \<and> as_prim_ty zc v = Some ty \<and>
         rec d = Some (Inr w) \<and> realize_schema zc ty w a = Inr x)
     | OpTimestamp s a \<Rightarrow> (\<exists>v. rec s = Some (Inr v) \<and> realize_timestamp zc v a = Inr x)
     | OpExt a i d \<Rightarrow> (\<exists>v s. rec d = Some (Inr v) \<and> as_slice v = Some s \<and> x = RExt i s a))"

lemma body_Inr:
  assumes "realize_body rec zc base vt r table = Some (Inr x)"
  shows "\<exists>op'. get_op vt r = Inr op' \<and> realized_from (\<lambda>s. rec zc base vt s table) zc base vt table op' x"
proof -
  obtain op' where o: "get_op vt r = Inr op'" using assms by (cases "get_op vt r") simp_all
  show ?thesis
  proof (cases op')
    case (OpComponent c)
    then show ?thesis using assms o by (auto simp: realized_from_def bind_eq_Some_conv bind_result_Inr_iff ok_or_def split: option.splits)
  next
    case (OpSchema t d a)
    from assms o OpSchema obtain v where v: "rec zc base vt t table = Some v"
      "(case bind_result v (\<lambda>r. ok_or InvalidOp (as_prim_ty zc r)) of Inl e \<Rightarrow> Some (Inl e)
        | Inr ty \<Rightarrow> Option.bind (rec zc base vt d table) (\<lambda>r. Some (bind_result r (\<lambda>r. realize_schema zc ty r a)))) = Some (Inr x)"
      by (auto simp: bind_eq_Some_conv simp del: bind_result.simps)
    then obtain ty where ty: "bind_result v (\<lambda>r. ok_or InvalidOp (as_prim_ty zc r)) = Inr ty"
      "Option.bind (rec zc base vt d table) (\<lambda>r. Some (bind_result r (\<lambda>r. realize_schema zc ty r a))) = Some (Inr x)"
      by (cases "bind_result v (\<lambda>r. ok_or InvalidOp (as_prim_ty zc r))") auto
    then show ?thesis using v(1) o OpSchema
      by (auto simp: realized_from_def bind_eq_Some_conv bind_result_Inr_iff ok_or_Inr_iff)
  next
    case (OpTimestamp s a)
    then show ?thesis using assms o by (auto simp: realized_from_def bind_eq_Some_conv bind_result_Inr_iff)
  next
    case (OpExt a i d)
    then show ?thesis using assms o by (auto simp: realized_from_def bind_eq_Some_conv bind_result_Inr_iff ok_or_def split: option.splits)
  qed (use assms o in \<open>simp_all add: realized_from_def\<close>)
qed

lemma realize_Inr:
  assumes "realize zc base vt r table = Some (Inr x)"
  shows "\<exists>op'. get_op vt r = Inr op' \<and> realized_from (\<lambda>s. realize zc base vt s table) zc base vt table op' x"
  using body_Inr [where rec = realize and zc = zc and base = base and vt = vt and r = r and table = table and x = x] assms unfolding realize.simps [of zc base vt r table] by simp

lemma realized_from_sim:
  assumes f: "realized_from rec zc b vt None op' x" and g: "realized_from rec' zc b' vt (Some t) op' y"
    and ih: "\<And>s v w. rec s = Some (Inr v) \<Longrightarrow> rec' s = Some (Inr w) \<Longrightarrow> rop_sim v w"
  shows "rop_sim x y"
proof (cases op')
  case (OpData off len)
  then show ?thesis using f g by (auto simp: realized_from_def realize_data_def as_get_def split: option.splits)
next
  case (OpTable off len)
  then show ?thesis using f g by (auto simp: realized_from_def realize_table_def split: option.splits)
next
  case (OpComponent c)
  then show ?thesis using f g ih rop_sim_component by (fastforce simp: realized_from_def)
next
  case (OpSchema ty d a)
  from f OpSchema obtain v tv w where 1: "rec ty = Some (Inr v)" "as_prim_ty zc v = Some tv" "rec d = Some (Inr w)" "realize_schema zc tv w a = Inr x"
    by (auto simp: realized_from_def)
  from g OpSchema obtain v' tv' w' where 2: "rec' ty = Some (Inr v')" "as_prim_ty zc v' = Some tv'" "rec' d = Some (Inr w')" "realize_schema zc tv' w' a = Inr y"
    by (auto simp: realized_from_def)
  have "tv' = tv" using rop_sim_prim [OF ih [OF 1(1) 2(1)] 1(2) 2(2)] .
  then show ?thesis using rop_sim_slice [OF ih [OF 1(3) 2(3)]] 1(4) 2(4)
    by (fastforce simp: realize_schema_def split: option.splits)
next
  case (OpTimestamp s a)
  have ts: "\<exists>t r. z = RTimestamp t r a" if "realize_timestamp zc v a = Inr z" for v z
    using that by (auto simp: realize_timestamp_def split: option.splits)
  from f OpTimestamp obtain v where "realize_timestamp zc v a = Inr x" by (auto simp: realized_from_def)
  moreover from g OpTimestamp obtain w where "realize_timestamp zc w a = Inr y" by (auto simp: realized_from_def)
  ultimately obtain u r u' r' where "x = RTimestamp u r a" "y = RTimestamp u' r' a" using ts by meson
  then show ?thesis by simp
next
  case (OpExt a i d)
  then show ?thesis using f g ih rop_sim_slice by (fastforce simp: realized_from_def)
qed (use f g in \<open>simp add: realized_from_def\<close>)

lemma realize_sim:
  assumes "realize zc b vt r None = Some (Inr x)" "realize zc b' vt r (Some t) = Some (Inr y)"
  shows "rop_sim x y"
proof -
  have "None = (None :: aslice option) \<longrightarrow> (\<forall>x' y. (Inr x :: proto_error + realized_op) = Inr x' \<longrightarrow> realize zc b' vt r (Some t) = Some (Inr y) \<longrightarrow> rop_sim x' y)"
  proof (rule realize.raw_induct [where P = "\<lambda>zc b vt r table x. table = None \<longrightarrow>
      (\<forall>x' y. x = Inr x' \<longrightarrow> realize zc b' vt r (Some t) = Some (Inr y) \<longrightarrow> rop_sim x' y)", OF _ assms(1)], goal_cases)
    case (1 rec zc b vt r table z)
    show ?case
    proof (intro impI allI)
      fix x y assume a: "table = None" "z = Inr x" "realize zc b' vt r (Some t) = Some (Inr y)"
      from body_Inr [where rec = rec and zc = zc and base = b and vt = vt and r = r and table = None and x = x] 1(2) a obtain op' where o: "get_op vt r = Inr op'"
        "realized_from (\<lambda>s. rec zc b vt s None) zc b vt None op' x" by auto
      from realize_Inr [OF a(3)] o(1) have "realized_from (\<lambda>s. realize zc b' vt s (Some t)) zc b' vt (Some t) op' y" by simp
      from realized_from_sim [OF o(2) this] 1(1) show "rop_sim x y" by blast
    qed
  qed
  then show ?thesis using assms(2) by simp
qed

text \<open>The loop of \<open>realize_fields\<close>, likewise.\<close>

abbreviation cell_sim :: "(aslice \<times> prim_type) option \<Rightarrow> (aslice \<times> prim_type) option \<Rightarrow> bool" where
  "cell_sim \<equiv> rel_option (\<lambda>p q. snd (fst p) = snd (fst q) \<and> snd p = snd q)"

definition rf_sim :: "realized_field \<Rightarrow> realized_field \<Rightarrow> bool" where
  "rf_sim x y \<longleftrightarrow> rf_component_id x = rf_component_id y \<and> rf_shape x = rf_shape y \<and> rf_ty x = rf_ty y"

lemma finish_sim:
  assumes "finish_field zc fld None cid ts cell = Some (Inr x)" "finish_field zc fld (Some t) cid ts' cell' = Some (Inr y)"
    "cell_sim cell cell'"
  shows "rf_sim x y \<and> (\<exists>data v. as_get t (unat (vf_offset fld)) (unat (vf_offset fld) + unat (vf_len fld)) = Some data \<and>
    try_from_bytes_shape zc data (rf_shape y) (rf_ty y) = Some (Inr v) \<and> rf_view y = Some v)"
proof -
  from assms(1,3) obtain d ty d' where c: "cell = Some (d, ty)" "cell' = Some (d', ty)" "snd d' = snd d"
    by (cases cell; cases cell') (auto simp: finish_field_def)
  from assms(1) c have x: "rf_component_id x = cid" "rf_shape x = dims_of (snd d)" "rf_ty x = ty"
    by (auto simp: finish_field_def Let_def split: option.splits)
  have z: "zc (SliceOf 8 8) d' = None" using assms(2) c by (auto simp: finish_field_def split: option.splits)
  obtain data where data: "as_get t (unat (vf_offset fld)) (unat (vf_offset fld) + unat (vf_len fld)) = Some data"
    using assms(2) c z by (auto simp: finish_field_def Let_def split: option.splits)
  obtain v where v: "try_from_bytes_shape zc data (dims_of (snd d)) ty = Some (Inr v)" "rf_view y = Some v"
      "rf_component_id y = cid" "rf_shape y = dims_of (snd d)" "rf_ty y = ty"
    using assms(2) c z data by (auto simp: finish_field_def Let_def bind_result_Inr_iff)
  then show ?thesis using x data by (simp add: rf_sim_def)
qed

abbreviation resolve_body where
  "resolve_body rec zc base vt fld table rop timestamp schema \<equiv>
     (case rop of
        RComponent cid \<Rightarrow> finish_field zc fld table cid timestamp schema
      | RSchema dim ty arg \<Rightarrow>
          Option.bind (realize zc base vt arg table) (\<lambda>r.
            (case r of Inl e \<Rightarrow> Some (Inl e) | Inr rop \<Rightarrow> rec zc base vt fld table rop timestamp (Some (dim, ty))))
      | RTimestamp t rng arg \<Rightarrow>
          Option.bind (realize zc base vt arg table) (\<lambda>r.
            (case r of Inl e \<Rightarrow> Some (Inl e) | Inr rop \<Rightarrow> rec zc base vt fld table rop (Some t) schema))
      | RExt id' data arg \<Rightarrow>
          Option.bind (realize zc base vt arg table) (\<lambda>r.
            (case r of Inl e \<Rightarrow> Some (Inl e) | Inr rop \<Rightarrow> rec zc base vt fld table rop timestamp schema))
      | RData _ \<Rightarrow> Some (Inl InvalidOp)
      | RTable _ _ \<Rightarrow> Some (Inl InvalidOp)
      | RNone \<Rightarrow> Some (Inl InvalidOp))"

definition field_ok :: "caster \<Rightarrow> vfield \<Rightarrow> aslice \<Rightarrow> realized_field \<Rightarrow> realized_field \<Rightarrow> bool" where
  "field_ok zc fld t x y \<longleftrightarrow> rf_sim x y \<and>
    (\<exists>data v. as_get t (unat (vf_offset fld)) (unat (vf_offset fld) + unat (vf_len fld)) = Some data \<and>
      try_from_bytes_shape zc data (rf_shape y) (rf_ty y) = Some (Inr v) \<and> rf_view y = Some v)"

text \<open>One turn of both loops: either both finish, or both go on with agreeing operations.\<close>

lemma resolve_step_sim:
  assumes x: "resolve_body rec zc b vt fld None rop ts cell = Some (Inr x)"
    and y: "resolve_body rec' zc b' vt fld (Some t) rop' ts' cell' = Some (Inr y)"
    and sim: "rop_sim rop rop'" "cell_sim cell cell'"
    and ih: "\<And>r r' u u' c c'. rec zc b vt fld None r u c = Some (Inr x) \<Longrightarrow> rec' zc b' vt fld (Some t) r' u' c' = Some (Inr y) \<Longrightarrow>
      rop_sim r r' \<Longrightarrow> cell_sim c c' \<Longrightarrow> field_ok zc fld t x y"
  shows "field_ok zc fld t x y"
proof -
  have go: "field_ok zc fld t x y"
    if x': "Option.bind (realize zc b vt a None) (\<lambda>r. case r of Inl e \<Rightarrow> Some (Inl e) | Inr rop \<Rightarrow> rec zc b vt fld None rop u c) = Some (Inr x)"
      and y': "Option.bind (realize zc b' vt a (Some t)) (\<lambda>r. case r of Inl e \<Rightarrow> Some (Inl e) | Inr rop \<Rightarrow> rec' zc b' vt fld (Some t) rop u' c') = Some (Inr y)"
      and c: "cell_sim c c'" for a u u' c c'
  proof -
    from x' obtain r where r: "realize zc b vt a None = Some (Inr r)" "rec zc b vt fld None r u c = Some (Inr x)"
      by (auto simp: bind_case_Inr)
    from y' obtain r' where r': "realize zc b' vt a (Some t) = Some (Inr r')" "rec' zc b' vt fld (Some t) r' u' c' = Some (Inr y)"
      by (auto simp: bind_case_Inr)
    show ?thesis by (rule ih [OF r(2) r'(2) realize_sim [OF r(1) r'(1)] c])
  qed
  show ?thesis
  proof (cases rop)
    case (RComponent cid)
    then show ?thesis using x y sim finish_sim [of zc fld cid ts cell x t ts' cell' y]
      by (cases rop') (auto simp: field_ok_def)
  next
    case (RSchema d ty a)
    with sim(1) obtain d' where d': "rop' = RSchema d' ty a" "snd d' = snd d" by (cases rop') auto
    show ?thesis by (rule go [of a ts "Some (d, ty)" ts' "Some (d', ty)"]) (use x y RSchema d' in auto)
  next
    case (RTimestamp u rng a)
    with sim(1) obtain u' rng' where d': "rop' = RTimestamp u' rng' a" by (cases rop') auto
    show ?thesis by (rule go [of a "Some u" cell "Some u'" cell']) (use x y RTimestamp d' sim(2) in auto)
  next
    case (RExt i d a)
    with sim(1) obtain d' where d': "rop' = RExt i d' a" by (cases rop') auto
    show ?thesis by (rule go [of a ts cell ts' cell']) (use x y RExt d' sim(2) in auto)
  qed (use x in auto)
qed

lemma resolve_sim:
  assumes "resolve zc b vt fld None rop ts cell = Some (Inr x)" "resolve zc b' vt fld (Some t) rop' ts' cell' = Some (Inr y)"
    "rop_sim rop rop'" "cell_sim cell cell'"
  shows "field_ok zc fld t x y"
proof -
  have "None = (None :: aslice option) \<longrightarrow> (\<forall>x' rop' ts' cell'. (Inr x :: proto_error + realized_field) = Inr x' \<longrightarrow>
      resolve zc b' vt fld (Some t) rop' ts' cell' = Some (Inr y) \<longrightarrow> rop_sim rop rop' \<longrightarrow> cell_sim cell cell' \<longrightarrow> field_ok zc fld t x' y)"
  proof (rule resolve.raw_induct [where P = "\<lambda>zc b vt fld table rop ts cell x. table = None \<longrightarrow>
      (\<forall>x' rop' ts' cell'. x = Inr x' \<longrightarrow> resolve zc b' vt fld (Some t) rop' ts' cell' = Some (Inr y) \<longrightarrow>
         rop_sim rop rop' \<longrightarrow> cell_sim cell cell' \<longrightarrow> field_ok zc fld t x' y)", OF _ assms(1)], goal_cases)
    case (1 rec zc b vt fld table rop ts cell z)
    show ?case
    proof (intro impI allI)
      fix x rop' ts' cell'
      assume a: "table = None" "z = Inr x" "resolve zc b' vt fld (Some t) rop' ts' cell' = Some (Inr y)"
        "rop_sim rop rop'" "cell_sim cell cell'"
      have x: "resolve_body rec zc b vt fld None rop ts cell = Some (Inr x)" using 1(2) unfolding a(1,2) .
      have y: "resolve_body resolve zc b' vt fld (Some t) rop' ts' cell' = Some (Inr y)"
        using a(3) unfolding resolve.simps [of zc b' vt fld "Some t" rop' ts' cell'] .
      show "field_ok zc fld t x y" by (rule resolve_step_sim [where rec = rec and rec' = resolve, OF x y a(4,5)]) (use 1(1) in blast)
    qed
  qed
  then show ?thesis using assms(2-4) by simp
qed

lemma realize_field_sim:
  assumes "realize_field zc b vt None fld = Some (Inr x)" "realize_field zc b' vt (Some t) fld = Some (Inr y)"
  shows "field_ok zc fld t x y"
proof -
  from assms(1) obtain r where r: "realize zc b vt (vf_arg fld) None = Some (Inr r)" "resolve zc b vt fld None r None None = Some (Inr x)"
    by (auto simp: realize_field_def bind_case_Inr)
  from assms(2) obtain r' where r': "realize zc b' vt (vf_arg fld) (Some t) = Some (Inr r')" "resolve zc b' vt fld (Some t) r' None None = Some (Inr y)"
    by (auto simp: realize_field_def bind_case_Inr)
  show ?thesis by (rule resolve_sim [OF r(2) r'(2) realize_sim [OF r(1) r'(1)]]) simp
qed

section \<open>The invariant\<close>

text \<open>A vtable described by the components: each field realizes, without a table, to an existing
  component with the field's type and shape as its schema.\<close>

definition vt_known :: "caster \<Rightarrow> (u64 \<Rightarrow> component option) \<Rightarrow> vtable \<Rightarrow> bool" where
  "vt_known zc comps vt \<longleftrightarrow> (\<forall>f \<in> set (vt_fields vt). \<exists>base rf c. realize_field zc base vt None f = Some (Inr rf) \<and>
     comps (rf_component_id rf) = Some c \<and> co_schema c = cs_new (rf_ty rf) (rf_shape rf))"

definition db_wf :: "caster \<Rightarrow> 'm db \<Rightarrow> bool" where
  "db_wf zc d \<longleftrightarrow> (\<forall>pid vt. st_registry (db_st d) pid = Some vt \<longrightarrow> vt_known zc (st_components (db_st d)) vt)"

text \<open>Components stay and keep their schemas.\<close>

definition comps_le :: "(u64 \<Rightarrow> component option) \<Rightarrow> (u64 \<Rightarrow> component option) \<Rightarrow> bool" where
  "comps_le m m' \<longleftrightarrow> (\<forall>cid c. m cid = Some c \<longrightarrow> (\<exists>c'. m' cid = Some c' \<and> co_schema c' = co_schema c))"

lemma comps_le_refl [simp]: "comps_le m m"
  by (simp add: comps_le_def)

lemma comps_le_trans: "comps_le a b \<Longrightarrow> comps_le b c \<Longrightarrow> comps_le a c"
  unfolding comps_le_def by metis

lemma comps_le_upd: "m cid = None \<Longrightarrow> comps_le m (m(cid \<mapsto> c))"
  by (auto simp: comps_le_def)

lemma comps_le_known: "comps_le m m' \<Longrightarrow> vt_known zc m vt \<Longrightarrow> vt_known zc m' vt"
  unfolding vt_known_def comps_le_def by metis

lemma set_component_metadata_frame:
  "set_component_metadata cod os st fs meta = (r, st', fs') \<Longrightarrow>
     st_components st' = st_components st \<and> st_registry st' = st_registry st"
  by (auto simp: set_component_metadata_def Let_def split: option.splits if_splits sum.splits prod.splits)

lemma insert_component_wf:
  assumes "insert_component cod os st fs cid sch = Some (r, st', fs')"
  shows "comps_le (st_components st) (st_components st') \<and> st_registry st' = st_registry st \<and>
    (r = Inr () \<longrightarrow> (\<exists>c. st_components st' cid = Some c \<and> co_schema c = sch))"
proof (cases "st_components st cid")
  case (Some c)
  then show ?thesis using assms by (auto simp: insert_component_def split: if_splits)
next
  case None
  obtain q fs1 where q: "component_create (enc_schema cod) os fs cid sch = Some (q, fs1)"
    using assms None by (auto simp: insert_component_def split: option.splits)
  show ?thesis
  proof (cases q)
    case (Inl e)
    then show ?thesis using assms None q by (auto simp: insert_component_def)
  next
    case (Inr c)
    define sm where "sm = (if st_metadata st cid = None
      then set_component_metadata cod os st fs1 \<lparr>cm_id = cid, cm_name = decimal (unat cid), cm_metadata = fmempty\<rparr>
      else (Inr (), st, fs1))"
    obtain r1 st1 fs2 where e: "sm = (r1, st1, fs2)" by (cases sm) auto
    have f: "st_components st1 = st_components st" "st_registry st1 = st_registry st"
      using e set_component_metadata_frame [of cod os st fs1 _ r1 st1 fs2] by (auto simp: sm_def split: if_splits)
    have c: "co_schema c = sch"
      using component_create_Inr [of "enc_schema cod" os fs cid sch c fs1] q Inr by simp
    have "(r, st', fs') = (case sm of (Inl e, st, fs) \<Rightarrow> (Inl e, st, fs)
        | (Inr _, st, fs) \<Rightarrow> (Inr (), st\<lparr>st_components := (st_components st)(cid \<mapsto> c)\<rparr>, fs))"
      using assms None q Inr by (simp add: insert_component_def sm_def)
    then show ?thesis using e f None c by (cases r1) (auto simp: comps_le_upd)
  qed
qed

lemma insert_fields_wf:
  assumes "insert_fields cod os zc base vt fs d = Some (r, d')"
  shows "comps_le (st_components (db_st d)) (st_components (db_st d')) \<and> st_registry (db_st d') = st_registry (db_st d) \<and>
    (r = Inr () \<longrightarrow> (\<forall>f \<in> set fs. \<exists>rf c. realize_field zc base vt None f = Some (Inr rf) \<and>
       st_components (db_st d') (rf_component_id rf) = Some c \<and> co_schema c = cs_new (rf_ty rf) (rf_shape rf)))"
  using assms
proof (induction fs arbitrary: d)
  case Nil
  then show ?case by simp
next
  case (Cons f fs)
  obtain q where q: "realize_field zc base vt None f = Some q" using Cons.prems by (auto split: option.splits)
  show ?case
  proof (cases q)
    case (Inl e)
    then show ?thesis using Cons.prems q by auto
  next
    case (Inr rf)
    let ?ic = "insert_component cod os (db_st d) (db_files d) (rf_component_id rf) (cs_new (rf_ty rf) (rf_shape rf))"
    obtain r1 st1 fs1 where ic: "?ic = Some (r1, st1, fs1)"
      using Cons.prems q Inr by (cases ?ic) auto
    note w = insert_component_wf [OF ic]
    show ?thesis
    proof (cases r1)
      case (Inl e)
      then show ?thesis using Cons.prems q Inr ic w by auto
    next
      case r1: (Inr u)
      define d1 where "d1 = d\<lparr>db_st := st1, db_files := fs1, db_vtable_gen := db_vtable_gen d + 1\<rparr>"
      have s1: "db_st d1 = st1" by (simp add: d1_def)
      have "insert_fields cod os zc base vt fs d1 = Some (r, d')"
        using Cons.prems by (simp add: q Inr ic r1 d1_def)
      note ih = Cons.IH [OF this, unfolded s1]
      have le: "comps_le (st_components (db_st d)) (st_components (db_st d'))" using w ih comps_le_trans by metis
      have reg: "st_registry (db_st d') = st_registry (db_st d)" using w ih by simp
      from r1 have "r1 = Inr ()" by simp
      with w obtain c where c: "st_components st1 (rf_component_id rf) = Some c" "co_schema c = cs_new (rf_ty rf) (rf_shape rf)" by metis
      have "comps_le (st_components st1) (st_components (db_st d'))" using ih by simp
      with c obtain c' where c': "st_components (db_st d') (rf_component_id rf) = Some c'" "co_schema c' = cs_new (rf_ty rf) (rf_shape rf)"
        unfolding comps_le_def by metis
      have "\<exists>rf c. realize_field zc base vt None f = Some (Inr rf) \<and> st_components (db_st d') (rf_component_id rf) = Some c \<and>
          co_schema c = cs_new (rf_ty rf) (rf_shape rf)"
        using q Inr c' by blast
      then show ?thesis using le reg ih by simp
    qed
  qed
qed

lemma insert_keeps_wf:
  assumes "db_wf zc d" "insert_vtable cod os zc base pid vt d = Some (r, d')"
  shows "db_wf zc d'"
proof -
  obtain r1 d1 where f: "insert_fields cod os zc base vt (vt_fields vt) d = Some (r1, d1)"
    using assms(2) by (auto simp: insert_vtable_def split: option.splits)
  note w = insert_fields_wf [OF f]
  have old: "db_wf zc d1" using assms(1) w comps_le_known unfolding db_wf_def by metis
  show ?thesis
  proof (cases r1)
    case (Inl e)
    then show ?thesis using assms(2) f old by (simp add: insert_vtable_def)
  next
    case (Inr u)
    then have "r1 = Inr ()" by simp
    then have "\<forall>f \<in> set (vt_fields vt). \<exists>rf c. realize_field zc base vt None f = Some (Inr rf) \<and>
       st_components (db_st d1) (rf_component_id rf) = Some c \<and> co_schema c = cs_new (rf_ty rf) (rf_shape rf)"
      using w by simp
    then have "vt_known zc (st_components (db_st d1)) vt" unfolding vt_known_def by meson
    then show ?thesis using assms(2) f Inr old by (auto simp: insert_vtable_def db_wf_def split: if_splits)
  qed
qed

text \<open>Inserting a vtable keeps the invariant, whether it succeeds or stops at an error half-way:
  every registered vtable describes existing components with their schemas.\<close>

theorem insert_vtable_wf:
  assumes "db_wf zc d" "insert_vtable cod os zc base pid vt d = Some (r, d')"
  shows "db_wf zc d'"
  using assms by (rule insert_keeps_wf)

text \<open>An empty database and the insertion of the vtable of \<open>demo_fields\<close>.\<close>

definition demo_codecs :: codecs where
  "demo_codecs = \<lparr>enc_schema = \<lambda>_. Inr [1], dec_schema = \<lambda>_. Inr (cs_new U16 [2]), enc_meta = \<lambda>m. Inr [2],
     dec_meta = \<lambda>_. Inr \<lparr>cm_id = 7, cm_name = decimal 7, cm_metadata = fmempty\<rparr>,
     enc_config = \<lambda>c. Inr [if cfg_recording c then 1 else 0],
     dec_config = \<lambda>bs. Inr \<lparr>cfg_recording = (bs = [1]), cfg_time_step = 10000000, cfg_metadata = fmempty\<rparr>\<rparr>"

definition demo_db :: "nat db" where
  "demo_db = \<lparr>db_st = empty_state, db_vtable_gen = 0, db_recording = pc_new True, db_time_step = 0,
     db_last_updated = 0, db_earliest = 0, db_files = (\<lambda>_. None)\<rparr>"

lemma demo_db_wf: "db_wf zc demo_db"
  by (simp add: demo_db_def db_wf_def empty_state_def)

lemma demo_vt_fields: "\<exists>f g. vt_fields (build_vtable demo_fields) = [f, g]"
proof -
  have "length (vt_fields (build_vtable demo_fields)) = 2"
    using build_mirrors [OF demo_ok demo_fits] by (auto simp: demo_fields_def dest: list_all2_lengthD)
  then show ?thesis by (auto simp: numeral_2_eq_2 length_Suc_conv)
qed

lemma demo_realize:
  assumes "f \<in> set (vt_fields (build_vtable demo_fields))"
  shows "\<exists>x. realize_field zc_ok 0 (build_vtable demo_fields) None f = Some (Inr x) \<and>
    rf_component_id x = 7 \<and> rf_shape x = [2] \<and> rf_ty x = U16"
proof -
  let ?vt = "build_vtable demo_fields"
  have len: "length (vt_fields ?vt) = 2" "length demo_fields = 2" using demo_vt_fields by (auto simp: demo_fields_def)
  from assms obtain i where i: "i < 2" "vt_fields ?vt ! i = f" using len by (auto simp: in_set_conv_nth)
  then have b: "built demo_desc (fb_arg (demo_fields ! i))"
    using demo_built by (auto simp: demo_fields_def b_raw_field_def less_2_cases_iff)
  have s: "desc_schema None demo_desc = Some ([2], U16)" "desc_time None None demo_desc = Some (Some None)" "desc_id demo_desc = 7"
    by (simp_all add: demo_desc_def)
  have l: "i < length demo_fields" using i len by simp
  from realize_built [OF zc_ok_spec _ demo_ok demo_fits l b s(1,2), of 0] obtain p where
    "realize_field zc_ok 0 ?vt None f = finish_field zc_ok f None 7 (Some None) (Some ((p, elems_to_le 8 [2 :: u64]), U16))"
    "zc_ok (SliceOf 8 8) (p, elems_to_le 8 [2 :: u64]) = None" using i s(3) by auto
  then show ?thesis by (auto simp: finish_field_def dims_of_elems)
qed

lemma demo_insert:
  "\<exists>d'. insert_vtable demo_codecs (\<lambda>_. None) zc_ok 0 (1, 2) (build_vtable demo_fields) demo_db = Some (Inr (), d') \<and>
     st_registry (db_st d') (1, 2) = Some (build_vtable demo_fields)"
proof -
  let ?vt = "build_vtable demo_fields"
  obtain f g where fg: "vt_fields ?vt = [f, g]" using demo_vt_fields by blast
  obtain x where x: "realize_field zc_ok 0 ?vt None f = Some (Inr x)" "rf_component_id x = 7" "rf_shape x = [2]" "rf_ty x = U16"
    using demo_realize [of f] fg by auto
  obtain y where y: "realize_field zc_ok 0 ?vt None g = Some (Inr y)" "rf_component_id y = 7" "rf_shape y = [2]" "rf_ty y = U16"
    using demo_realize [of g] fg by auto
  obtain st fs where c: "insert_component demo_codecs (\<lambda>_. None) empty_state (\<lambda>_. None) 7 (cs_new U16 [2]) = Some (Inr (), st :: nat state, fs)"
      "\<exists>c. st_components st 7 = Some c \<and> co_schema c = cs_new U16 [2]"
    by (simp add: insert_component_def demo_codecs_def empty_state_def component_create_def meta_write_def write_file_def
        persist_start_def ts_writer_def ts_create_def set_component_metadata_def Let_def)
  have c2: "insert_component demo_codecs (\<lambda>_. None) st fs 7 (cs_new U16 [2]) = Some (Inr (), st, fs)"
    using c(2) by (auto simp: insert_component_def)
  show ?thesis by (simp add: insert_vtable_def fg x y demo_db_def c(1) c2)
qed


section \<open>Tables\<close>

text \<open>
  What a sink promises to \<open>apply_fields\<close>: its invariant is kept by every value of a component
  it was promised, and it fails only in a known way.
\<close>

locale table_sink_contract =
  fixes sink :: "'s \<Rightarrow> u64 \<Rightarrow> component_view \<Rightarrow> int option \<Rightarrow> (('e + unit) \<times> 's) option"
    and I :: "'s \<Rightarrow> bool" and Q :: "u64 \<Rightarrow> component_view \<Rightarrow> bool" and E :: "'e \<Rightarrow> bool"
  assumes sink_step: "I s \<Longrightarrow> Q cid v \<Longrightarrow> sink s cid v ts = Some (r, s') \<Longrightarrow> I s' \<and> (\<forall>e. r = Inl e \<longrightarrow> E e)"
begin

lemma fields_keep:
  assumes "I s" "apply_fields zc base vt tb fs sink s = Some (r, s')"
    and "\<And>f rf. f \<in> set fs \<Longrightarrow> realize_field zc base vt (Some tb) f = Some (Inr rf) \<Longrightarrow>
      \<exists>v. rf_view rf = Some v \<and> Q (rf_component_id rf) v"
  shows "I s' \<and> (\<forall>e. r = Inr (Inl e) \<longrightarrow> E e)"
  using assms
proof (induction fs arbitrary: s)
  case Nil
  then show ?case by auto
next
  case (Cons f fs)
  obtain q where q: "realize_field zc base vt (Some tb) f = Some q" using Cons.prems(2) by (auto split: option.splits)
  show ?case
  proof (cases q)
    case (Inl e)
    then show ?thesis using Cons.prems(1,2) q by auto
  next
    case (Inr rf)
    from Cons.prems(3) [of f rf] q Inr obtain v where v: "rf_view rf = Some v" "Q (rf_component_id rf) v" by auto
    obtain r1 s1 where k: "sink s (rf_component_id rf) v (rf_timestamp rf) = Some (r1, s1)"
      using Cons.prems(2) q Inr v by (auto split: option.splits)
    note w = sink_step [OF Cons.prems(1) v(2) k]
    show ?thesis
    proof (cases r1)
      case (Inl e)
      then show ?thesis using Cons.prems(2) q Inr v k w \<open>q = Inr rf\<close> by auto
    next
      case (Inr u)
      have a: "apply_fields zc base vt tb fs sink s1 = Some (r, s')"
        using Cons.prems(2) by (simp add: q \<open>q = Inr rf\<close> v k Inr)
      show ?thesis by (rule Cons.IH [OF conjunct1 [OF w] a Cons.prems(3)]) simp_all
    qed
  qed
qed

end

lemma co_push_buf_schema:
  "co_push_buf c t bs = Some (r, c') \<Longrightarrow> co_schema c' = co_schema c \<and> (\<forall>e. r = Inl e \<longrightarrow> e = TimeTravel)"
  by (cases "publish (co_wal c) (sample_frame t bs)"; cases "t < co_last c") (auto simp: co_push_buf_def split: sum.splits)

lemma sink_apply_step:
  assumes "comps_le m (sk_components k)" "m cid \<noteq> None" "sink_apply k cid v ts = Some (r, k')"
  shows "comps_le m (sk_components k') \<and> (\<forall>e. r = Inl e \<longrightarrow> e = TimeTravel)"
proof -
  from assms(1,2) obtain c where c: "sk_components k cid = Some c" unfolding comps_le_def by blast
  obtain r1 c1 where p: "co_push_buf c (case ts of None \<Rightarrow> sk_received k | Some t \<Rightarrow> t) (cv_as_bytes v) = Some (r1, c1)"
    using assms(3) c by (auto simp: sink_apply_def Let_def)
  have "comps_le (sk_components k) ((sk_components k)(cid \<mapsto> c1))"
    using co_push_buf_schema [OF p] c by (auto simp: comps_le_def)
  moreover have "sk_components k' = (sk_components k)(cid \<mapsto> c1) \<and> (\<forall>e. r = Inl e \<longrightarrow> r1 = Inl e)"
    using assms(3) c p by (auto simp: sink_apply_def Let_def split: sum.splits)
  ultimately show ?thesis using assms(1) comps_le_trans co_push_buf_schema [OF p] by metis
qed

interpretation sk: table_sink_contract sink_apply "\<lambda>k. comps_le m (sk_components k)" "\<lambda>cid v. m cid \<noteq> None" "\<lambda>e. e = TimeTravel" for m
  by unfold_locales (rule sink_apply_step)

lemma known_field:
  assumes zc: "zc_spec zc" and d: "vt_known zc comps vt" "f \<in> set (vt_fields vt)"
    and rf: "realize_field zc base vt (Some tb) f = Some (Inr rf)"
  shows "\<exists>c v. comps (rf_component_id rf) = Some c \<and> rf_view rf = Some v \<and> cv_prim_type v = cs_prim_type (co_schema c) \<and>
    cv_shape v = cs_dim (co_schema c) \<and> length (cv_as_bytes v) = cs_size (co_schema c)"
proof -
  from d obtain b x c where x: "realize_field zc b vt None f = Some (Inr x)" "comps (rf_component_id x) = Some c"
    "co_schema c = cs_new (rf_ty x) (rf_shape x)" unfolding vt_known_def by blast
  from realize_field_sim [OF x(1) rf] obtain data v where o: "rf_sim x rf"
    "as_get tb (unat (vf_offset f)) (unat (vf_offset f) + unat (vf_len f)) = Some data"
    "try_from_bytes_shape zc data (rf_shape rf) (rf_ty rf) = Some (Inr v)" "rf_view rf = Some v"
    by (auto simp: field_ok_def)
  have len: "length (snd data) < 2 ^ 32"
    using o(2) unsigned_less [of "vf_len f"] by (auto simp: as_get_def get_range_def slice_def split: option.splits if_splits)
  from try_from_bytes_shape_spec [OF zc, of data "rf_shape rf" "rf_ty rf"] o(3) obtain n where
    n: "checked_product (rf_shape rf) 1 = Inr n" "n * prim_size (rf_ty rf) \<le> length (snd data)"
      "cv_as_bytes v = take (prod_list (rf_shape rf) * prim_size (rf_ty rf)) (snd data)" "cv_prim_type v = rf_ty rf" "cv_shape v = rf_shape rf"
    by auto
  have np: "n = prod_list (rf_shape rf)" using checked_product_Inr [OF n(1)] by simp
  have p: "1 \<le> prim_size (rf_ty rf)" by (cases "rf_ty rf") simp_all
  have "n \<le> n * prim_size (rf_ty rf)" using p by simp
  then have "n \<le> length (snd data)" using n(2) by (rule le_trans)
  then have s: "n < 2 ^ 64" "n * prim_size (rf_ty rf) < 2 ^ 64" using n(2) len by simp_all
  have "cs_size (co_schema c) = n * prim_size (rf_ty rf)"
    using x(3) o(1) np s by (simp add: cs_size_def cs_new_def rf_sim_def)
  then show ?thesis using x o n np by (auto simp: cs_new_def rf_sim_def)
qed

text \<open>C11. In a well-formed database every value that a table of a registered vtable carries
  belongs to an existing component and has that component's primitive type, shape and size:
  what the sink pushes into a component's ring is always one whole sample.\<close>

theorem table_sample_sized:
  assumes "zc_spec zc" "db_wf zc d" "st_registry (db_st d) pid = Some vt" "f \<in> set (vt_fields vt)"
    and "realize_field zc base vt (Some tb) f = Some (Inr rf)"
  shows "\<exists>c v. st_components (db_st d) (rf_component_id rf) = Some c \<and> rf_view rf = Some v \<and>
    cv_prim_type v = cs_prim_type (co_schema c) \<and> cv_shape v = cs_dim (co_schema c) \<and>
    length (cv_as_bytes v) = cs_size (co_schema c)"
  using assms known_field unfolding db_wf_def by blast

lemma handle_table_keeps:
  assumes "zc_spec zc" "db_wf zc d" "handle_table zc base now t d = Some (r, d')"
  shows "comps_le (st_components (db_st d)) (st_components (db_st d')) \<and> st_registry (db_st d') = st_registry (db_st d) \<and>
    (\<forall>e. r = Inl e \<longrightarrow> e = TimeTravel \<or> (\<exists>p. e = Impeller p))"
proof -
  let ?m = "st_components (db_st d)"
  let ?k = "\<lparr>sk_components = ?m, sk_last_updated = db_last_updated d, sk_new_series = False, sk_received = now\<rparr>"
  obtain q k where ts: "table_sink zc base (st_registry (db_st d)) t sink_apply ?k = Some (q, k)"
    using assms(3) by (auto simp: handle_table_def)
  have kept: "comps_le ?m (sk_components k) \<and> (\<forall>e. q = Inr (Inl e) \<longrightarrow> e = TimeTravel)"
  proof (cases "st_registry (db_st d) (ot_id t)")
    case None
    then show ?thesis using ts by (auto simp: table_sink_def)
  next
    case (Some vt)
    then have "vt_known zc ?m vt" using assms(2) unfolding db_wf_def by blast
    then have "\<exists>v. rf_view rf = Some v \<and> ?m (rf_component_id rf) \<noteq> None"
      if "f \<in> set (vt_fields vt)" "realize_field zc base vt (Some (ot_buf t)) f = Some (Inr rf)" for f rf
      using known_field [OF assms(1) _ that] by blast
    moreover have "apply_fields zc base vt (ot_buf t) (vt_fields vt) sink_apply ?k = Some (q, k)"
      using ts Some by (simp add: table_sink_def apply_table_def)
    ultimately show ?thesis using sk.fields_keep [of ?m ?k zc base vt "ot_buf t" "vt_fields vt" q k] by auto
  qed
  have "st_components (db_st d') = sk_components k \<and> st_registry (db_st d') = st_registry (db_st d) \<and>
      (\<forall>e. r = Inl e \<longrightarrow> q = Inr (Inl e) \<or> (\<exists>p. e = Impeller p))"
    using assms(3) ts by (auto simp: handle_table_def Let_def split: sum.splits)
  then show ?thesis using kept by metis
qed

text \<open>Handling a table keeps the database well formed, and the only ways it fails are a table
  that does not match its vtable and a timestamp before the component's latest: a registered
  vtable never leads to an unknown component.\<close>

theorem handle_table_wf:
  assumes "zc_spec zc" "db_wf zc d" "handle_table zc base now t d = Some (r, d')"
  shows "db_wf zc d' \<and> (\<forall>e. r = Inl e \<longrightarrow> e = TimeTravel \<or> (\<exists>p. e = Impeller p))"
  using handle_table_keeps [OF assms] assms(2) comps_le_known unfolding db_wf_def by metis

text \<open>A table of eight bytes for the vtable of \<open>demo_fields\<close>: a timestamp and two values.\<close>

definition demo_table :: aslice where
  "demo_table = (0, i64_to_le 9 @ [1, 0, 2, 0, 3, 0, 4, 0])"

lemma demo_table_field:
  "\<exists>f x. f \<in> set (vt_fields (build_vtable demo_fields)) \<and>
     realize_field zc_ok 0 (build_vtable demo_fields) (Some demo_table) f = Some (Inr x) \<and> rf_component_id x = 7"
proof -
  let ?vt = "build_vtable demo_fields"
  have len: "length (vt_fields ?vt) = 2" using demo_vt_fields by auto
  have t: "desc_time (Some demo_table) None demo_desc = Some (Some (Some 9))"
    by (simp add: demo_desc_def demo_table_def as_get_def get_range_def slice_def le_simps i64_range_def)
  have d: "desc_schema None demo_desc = Some ([2], U16)" "desc_id demo_desc = 7" by (simp_all add: demo_desc_def)
  have l: "1 < length demo_fields" "built demo_desc (fb_arg (demo_fields ! 1))"
    "fb_offset (demo_fields ! 1) = 12" "fb_len (demo_fields ! 1) = 4"
    using demo_built by (simp_all add: demo_fields_def b_raw_field_def)
  from realize_built [OF zc_ok_spec _ demo_ok demo_fits l(1,2) d(1) t, of 0] d(2) l(3,4) obtain f p where
    f: "vt_fields ?vt ! 1 = f" "vf_offset f = 12" "vf_len f = 4" "zc_ok (SliceOf 8 8) (p, elems_to_le 8 [2 :: u64]) = None"
      "realize_field zc_ok 0 ?vt (Some demo_table) f =
        finish_field zc_ok f (Some demo_table) 7 (Some (Some 9)) (Some ((p, elems_to_le 8 [2 :: u64]), U16))" by auto
  have "\<exists>x. finish_field zc_ok f (Some demo_table) 7 (Some (Some 9)) (Some ((p, elems_to_le 8 [2 :: u64]), U16)) = Some (Inr x) \<and>
      rf_component_id x = 7"
    using f(2-4) by (simp add: finish_field_def dims_of_elems demo_table_def as_get_def get_range_def slice_def
        try_from_bytes_shape_def zc_ok_def Let_def)
  moreover have "f \<in> set (vt_fields ?vt)" using f(1) len nth_mem [of 1 "vt_fields ?vt"] by simp
  ultimately show ?thesis using f(5) by metis
qed

lemma table_sample_sized_witness:
  "\<exists>d f x c v. insert_vtable demo_codecs (\<lambda>_. None) zc_ok 0 (1, 2) (build_vtable demo_fields) demo_db = Some (Inr (), d) \<and>
     realize_field zc_ok 0 (build_vtable demo_fields) (Some demo_table) f = Some (Inr x) \<and>
     st_components (db_st d) 7 = Some c \<and> rf_view x = Some v \<and> length (cv_as_bytes v) = cs_size (co_schema c)"
proof -
  obtain d where d: "insert_vtable demo_codecs (\<lambda>_. None) zc_ok 0 (1, 2) (build_vtable demo_fields) demo_db = Some (Inr (), d)"
    "st_registry (db_st d) (1, 2) = Some (build_vtable demo_fields)" using demo_insert by blast
  obtain f x where f: "f \<in> set (vt_fields (build_vtable demo_fields))"
    "realize_field zc_ok 0 (build_vtable demo_fields) (Some demo_table) f = Some (Inr x)" "rf_component_id x = 7"
    using demo_table_field by blast
  from table_sample_sized [OF zc_ok_spec insert_keeps_wf [OF demo_db_wf d(1)] d(2) f(1,2)] f(3) d(1) f(2)
  show ?thesis by metis
qed


section \<open>Restarts\<close>

lemma map_sum_Inr: "map_sum id f x = Inr y \<longleftrightarrow> (\<exists>a. x = Inr a \<and> y = f a)"
  by (cases x) auto

lemma open_components_config:
  "open_components cod os fs es st seen = Some (Inr (st', seen')) \<Longrightarrow> st_config st' = st_config st"
proof (induction es arbitrary: st seen)
  case (Cons e es)
  from Cons.prems obtain cid sch meta c latest first where s: "ce_id e = Some cid" "meta_read (dec_schema cod) os fs (SchemaFile cid) = Inr sch"
    "meta_read (dec_meta cod) os fs (MetadataFile cid) = Inr meta" "component_open (ce_series e) cid sch = Some (Inr c)"
    "ts_latest (co_series c) = Some latest" "start_timestamp (co_series c) = Some first"
    by (auto split: option.splits sum.splits)
  show ?case using Cons.IH Cons.prems s by fastforce
qed simp

lemma open_msg_logs_config:
  "open_msg_logs es st seen = Some (Inr (st', seen')) \<Longrightarrow> st_config st' = st_config st"
  by (induction es st seen rule: open_msg_logs.induct) (auto split: option.splits)

text \<open>Reopening a database forgets the recording flag and the time step it was stored with:
  the next \<open>SetDbConfig\<close> that leaves the flag alone writes the default configuration over
  the stored one, whatever that was.\<close>

theorem reopen_forgets_config:
  assumes "db_open cod os fs entries msgs now = Some (Inr d)" "set_db_config cod os None m d = (Inr (), d')"
    and "os (ReadFile DbStateFile) = None"
    and "bind_result (enc_config cod (default_config\<lparr>cfg_metadata := m\<rparr>)) (dec_config cod) = Inr (default_config\<lparr>cfg_metadata := m\<rparr>)"
  shows "meta_read (dec_config cod) os (db_files d') DbStateFile = Inr (default_config\<lparr>cfg_metadata := m\<rparr>)"
proof -
  from assms(1) obtain st seen st2 seen2 where o: "open_components cod os fs entries empty_state (i64_min, i64_max) = Some (Inr (st, seen))"
    "open_msg_logs msgs st seen = Some (Inr (st2, seen2))" "db_st d = st2"
    by (auto simp: db_open_def map_sum_Inr split: option.splits sum.splits)
  have c: "st_config (db_st d) = default_config"
    using open_components_config [OF o(1)] open_msg_logs_config [OF o(2)] o(3) by (simp add: empty_state_def)
  have m: "cfg_metadata default_config ++\<^sub>f m = m" by (simp add: default_config_def)
  let ?c = "default_config\<lparr>cfg_metadata := m\<rparr>"
  from assms(4) obtain data where e: "enc_config cod ?c = Inr data" "dec_config cod data = Inr ?c"
    by (cases "enc_config cod ?c") auto
  have "save_db_state cod os (d\<lparr>db_st := (db_st d)\<lparr>st_config := ?c\<rparr>\<rparr>) = (Inr (), d')"
    using assms(2) by (simp add: set_db_config_def Let_def c m)
  then have "db_files d' DbStateFile = Some data"
    by (auto simp: save_db_state_def meta_write_def write_file_def e(1) split: option.splits prod.splits)
  then show ?thesis by (simp add: meta_read_def read_file_def assms(3) e(2))
qed


lemma open_components_schema:
  "e \<in> set es \<Longrightarrow> ce_id e = Some cid \<Longrightarrow> fs (SchemaFile cid) = None \<Longrightarrow>
     open_components cod os fs es st seen \<noteq> Some (Inr r)"
proof (induction es arbitrary: st seen)
  case (Cons a es)
  show ?case
  proof (cases "a = e")
    case True
    have "\<exists>err. meta_read (dec_schema cod) os fs (SchemaFile cid) = Inl err"
      using Cons.prems(3) by (simp add: meta_read_def read_file_def split: option.splits)
    then show ?thesis using True Cons.prems(2) by auto
  next
    case False
    then have "e \<in> set es" using Cons.prems(1) by simp
    note ih = Cons.IH [OF this Cons.prems(2,3)]
    show ?thesis using ih by (auto split: option.splits sum.splits)
  qed
qed simp

lemma set_component_metadata_schema:
  "set_component_metadata cod os st fs meta = (r, st', fs') \<Longrightarrow> fs' (SchemaFile cid) = fs (SchemaFile cid)"
  by (auto simp: set_component_metadata_def meta_write_def write_file_def Let_def split: option.splits if_splits sum.splits prod.splits)

text \<open>Setting the metadata of a component that does not exist makes the database
  unopenable: the directory it creates has no schema.\<close>

theorem orphan_metadata_blocks_open:
  assumes "set_component_metadata cod os st fs meta = (Inr (), st', fs')" "fs (SchemaFile (cm_id meta)) = None"
    and "e \<in> set entries" "ce_id e = Some (cm_id meta)"
  shows "db_open cod os fs' entries msgs now \<noteq> Some (Inr d)"
proof -
  have "fs' (SchemaFile (cm_id meta)) = None" using set_component_metadata_schema [OF assms(1)] assms(2) by metis
  note no = open_components_schema [where cid = "cm_id meta" and fs = fs', OF assms(3,4) this]
  have "open_components cod os fs' entries empty_state (i64_min, i64_max) \<noteq> Some (Inr r)" for r by (rule no)
  then show ?thesis by (auto simp: db_open_def split: option.splits sum.splits)
qed


end
