(* ===== verification/Streams.thy ===== *)
theory Streams
  imports Database VTableBuild
begin

text \<open>
  The telemetry streams of the database (\<open>handle_real_time_stream\<close>, \<open>handle_real_time_component\<close>,
  \<open>handle_fixed_stream\<close> and \<open>DBVisitor\<close> of \<open>libs/db/src/lib.rs\<close>): the vtable a stream announces,
  the tables it then sends, and that a receiver reads every sample back.  The iteration order
  of a hash map is the order of the list it is given as; a panic is \<open>None\<close>.
\<close>

section \<open>The visitor\<close>

text \<open>
  The operation of a component's field, with the timestamp at \<open>off\<close> of the table; its seven
  nodes are allocated at the addresses from \<open>7 * k\<close>.
\<close>

definition field_op :: "nat \<Rightarrow> nat \<Rightarrow> component \<Rightarrow> arc" where
  "field_op k off c =
     b_timestamp (7 * k) (b_raw_table (7 * k + 1) (of_nat off) 8)
       (as_vtable_op c (7 * k + 2) (7 * k + 3) (7 * k + 4) (7 * k + 5) (7 * k + 6))"

fun visitor_fields :: "component list \<Rightarrow> nat \<Rightarrow> nat \<Rightarrow> field_builder list" where
  "visitor_fields [] k off = []"
| "visitor_fields (c # cs) k off =
     (if ts_is_empty (co_series c) then visitor_fields cs k off
      else
        (let off = off + unat (padding U64 (of_nat off));
             op' = field_op k off c;
             off = off + 8;
             off = off + unat (padding (cs_prim_type (co_schema c)) (of_nat off));
             len = cs_size (co_schema c)
         in b_raw_field (of_nat off) (of_nat len) op' # visitor_fields cs (k + 1) (off + len)))"

definition visitor_vtable :: "component list \<Rightarrow> vtable" where
  "visitor_vtable cs = build_vtable (visitor_fields cs 0 0)"

text \<open>The sample \<open>populate_table\<close> sends for a component, if it has one.\<close>

definition nearest_sample :: "component \<Rightarrow> int \<Rightarrow> (int \<times> byte list) option option" where
  "nearest_sample c timestamp =
     (case start_timestamp (co_series c) of
        None \<Rightarrow> None
      | Some None \<Rightarrow> Some None
      | Some (Some start) \<Rightarrow>
          (case binary_search_nearest (co_series c) (max start timestamp) True of
             None \<Rightarrow> None
           | Some None \<Rightarrow> Some None
           | Some (Some nearest) \<Rightarrow> map_option (\<lambda>d. Some (tr_timestamp nearest, d)) (ref_data (co_series c) nearest)))"

text \<open>A sample in a table: its timestamp aligned to eight bytes, its data to the primitive type.\<close>

definition push_sample :: "len_packet \<Rightarrow> prim_type \<Rightarrow> int \<Rightarrow> byte list \<Rightarrow> len_packet option" where
  "push_sample table ty t d =
     Option.bind (lp_push_aligned table 8 (i64_to_le t)) (\<lambda>table.
       Option.bind (lp_pad_for_type table ty) (\<lambda>table. lp_extend_from_slice table d))"

fun populate_table :: "component list \<Rightarrow> len_packet \<Rightarrow> int \<Rightarrow> nat \<Rightarrow> (nat \<times> len_packet) option" where
  "populate_table [] table timestamp n = Some (n, table)"
| "populate_table (c # cs) table timestamp n =
     (case nearest_sample c timestamp of
        None \<Rightarrow> None
      | Some None \<Rightarrow> populate_table cs table timestamp n
      | Some (Some (t, d)) \<Rightarrow>
          (case push_sample table (cs_prim_type (co_schema c)) t d of
             None \<Rightarrow> None
           | Some table \<Rightarrow> populate_table cs table timestamp (n + 1)))"

section \<open>Real-time streams\<close>

text \<open>One turn of \<open>handle_real_time_stream\<close>: the components not visited yet get a task.\<close>

fun spawn_unvisited :: "u64 list \<Rightarrow> u64 set \<Rightarrow> u64 list \<times> u64 set" where
  "spawn_unvisited [] visited = ([], visited)"
| "spawn_unvisited (c # cs) visited =
     (if c \<in> visited then spawn_unvisited cs visited
      else (let (spawned, visited) = spawn_unvisited cs (insert c visited) in (c # spawned, visited)))"

text \<open>A component's task announces one field and sends the latest sample at each wake-up.\<close>

definition real_time_vtable :: "component \<Rightarrow> vtable" where
  "real_time_vtable c =
     build_vtable [b_raw_field (of_nat (unat (padding (cs_prim_type (co_schema c)) 8) + 8)) (of_nat (cs_size (co_schema c)))
       (b_timestamp 0 (b_raw_table 1 0 8) (as_vtable_op c 2 3 4 5 6))]"

definition latest_sample :: "component \<Rightarrow> (int \<times> byte list) option option" where
  "latest_sample c =
     (case ts_latest (co_series c) of
        None \<Rightarrow> None
      | Some None \<Rightarrow> Some None
      | Some (Some r) \<Rightarrow> map_option (\<lambda>d. Some (tr_timestamp r, d)) (ref_data (co_series c) r))"

text \<open>One turn: the packet sent, if any, and the table cleared for the next one.\<close>

definition real_time_turn :: "component \<Rightarrow> len_packet \<Rightarrow> byte \<Rightarrow> (len_packet option \<times> len_packet) option" where
  "real_time_turn c table req_id =
     (case latest_sample c of
        None \<Rightarrow> None
      | Some None \<Rightarrow> Some (None, table)
      | Some (Some (t, d)) \<Rightarrow>
          Option.bind (push_sample table (cs_prim_type (co_schema c)) t d) (\<lambda>table.
            map_option (\<lambda>table. (Some table, lp_clear table)) (lp_with_request_id table req_id)))"

section \<open>Fixed-rate streams\<close>

datatype stream_out =
    SendVTable packet_id vtable
  | SendTimestamp int u64
  | SendTable len_packet

text \<open>
  The state of a fixed-rate stream's task.  The components it cloned share their series with
  the database, so they are kept as their ids.
\<close>

record fixed_stream =
  fx_id :: packet_id
  fx_gen :: u64
  fx_field_count :: "nat option"
  fx_table :: len_packet
  fx_components :: "u64 list"

definition fixed_open :: "u64 \<Rightarrow> u64 \<Rightarrow> u64 list \<Rightarrow> fixed_stream" where
  "fixed_open sid vtable_gen components =
     (let id' = (u64_to_le sid ! 0, u64_to_le sid ! 1)
      in \<lparr>fx_id = id', fx_gen = vtable_gen, fx_field_count = None, fx_table = lp_table id', fx_components = components\<rparr>)"

definition shared :: "(u64 \<Rightarrow> component option) \<Rightarrow> u64 list \<Rightarrow> component list" where
  "shared comps ids = List.map_filter comps ids"

text \<open>
  One turn of the loop, once the stream plays: \<open>comps\<close> and \<open>order\<close> are the database's
  components and the order they are cloned in, \<open>timestamp\<close> is the stream's current one.
\<close>

definition fixed_turn :: "u64 \<Rightarrow> byte \<Rightarrow> fixed_stream \<Rightarrow> u64 \<Rightarrow> (u64 \<Rightarrow> component option) \<Rightarrow> u64 list \<Rightarrow> int \<Rightarrow>
    (stream_out list \<times> fixed_stream) option" where
  "fixed_turn sid req_id fx vtable_gen comps order timestamp =
     (let (announced, fx) =
            (if vtable_gen \<noteq> fx_gen fx
             then ([SendVTable (fx_id fx) (visitor_vtable (shared comps order))],
                   fx\<lparr>fx_components := order, fx_gen := vtable_gen\<rparr>)
             else ([], fx));
          components = shared comps (fx_components fx)
      in case populate_table components (lp_clear (fx_table fx)) timestamp 0 of
           None \<Rightarrow> None
         | Some (count, table) \<Rightarrow>
             map_option (\<lambda>table.
               (announced @
                (if fx_field_count fx \<noteq> Some count then [SendVTable (fx_id fx) (visitor_vtable components)] else []) @
                [SendTimestamp timestamp sid, SendTable table],
                fx\<lparr>fx_field_count := Some count, fx_table := table\<rparr>))
             (lp_with_request_id table req_id))"

end
