(* ===== verification/StreamsCorrect.thy ===== *)
theory StreamsCorrect
  imports Streams
begin

text \<open>
  A receiver of a stream reads back what was sent: the fields of the announced vtable lie
  where the tables have the samples' bytes, and every table follows a vtable of its fields.
\<close>

section \<open>The layout of a table\<close>

text \<open>The body of a table that holds these samples, after \<open>b\<close>.\<close>

fun frame_body :: "byte list \<Rightarrow> (component \<times> int \<times> byte list) list \<Rightarrow> byte list" where
  "frame_body b [] = b"
| "frame_body b ((c, t, d) # xs) =
     (let b = b @ replicate (pad_len 8 (length b)) 0 @ i64_to_le t;
          b = b @ replicate (pad_len (alignment (cs_prim_type (co_schema c))) (length b)) 0 @ d
      in frame_body b xs)"

lemma frame_body_extends: "\<exists>ys. frame_body b xs = b @ ys"
proof (induction xs arbitrary: b)
  case (Cons x xs)
  obtain c t d where x: "x = (c, t, d)" by (rule prod_cases3)
  let ?b = "b @ replicate (pad_len 8 (length b)) 0 @ i64_to_le t"
  from Cons.IH obtain ys where "frame_body (?b @ replicate (pad_len (alignment (cs_prim_type (co_schema c))) (length ?b)) 0 @ d) xs =
      (?b @ replicate (pad_len (alignment (cs_prim_type (co_schema c))) (length ?b)) 0 @ d) @ ys" by blast
  then show ?case by (simp add: x Let_def)
qed simp

lemma alignment_dvd8: "alignment ty dvd 8" "0 < alignment ty" "alignment ty \<le> 8"
  by (cases ty; simp)+

lemma pad_len_add8: "a dvd 8 \<Longrightarrow> pad_len a (8 + n) = pad_len a n"
  by (auto simp: pad_len_def mod_add_left_eq [of 8 a n, symmetric])

lemma lp_push_zeros_of:
  "lp_push_zeros n (lp_of ty id' rid body) = Some (lp_of ty id' rid (body @ replicate n 0))"
proof (induction n arbitrary: body)
  case (Suc n)
  show ?case by (simp add: lp_of_ops(1) Suc.IH replicate_app_Cons_same)
qed simp

lemma unat_padding:
  assumes "n + 16 < 2 ^ 64"
  shows "unat (padding ty (of_nat n)) = pad_len (alignment ty) n"
proof -
  have u: "unat (of_nat n :: u64) = n" using assms by (simp add: unat_of_nat take_bit_nat_eq_self)
  show ?thesis using padding_aligns [of "of_nat n :: u64" ty] assms alignment_dvd8(3) [of ty] by (simp add: u)
qed

lemma push_sample_of:
  assumes "length body + 64 < 2 ^ 64"
  shows "push_sample (lp_of Table id' rid body) (cs_prim_type (co_schema c)) t d =
    Some (lp_of Table id' rid (frame_body body [(c, t, d)]))"
proof -
  let ?b = "body @ replicate (pad_len 8 (length body)) 0 @ i64_to_le t" and ?ty = "cs_prim_type (co_schema c)"
  have p8: "pad_len 8 (8 + length body) = pad_len 8 (length body)" by (rule pad_len_add8) simp
  have l: "length ?b + 16 < 2 ^ 64" using assms pad_len_less [of 8 "length body"] by simp
  have "8 + length ?b + 16 < 2 ^ 64" using assms pad_len_less [of 8 "length body"] by simp
  from unat_padding [OF this, of ?ty] have "unat (padding ?ty (of_nat (8 + length ?b))) = pad_len (alignment ?ty) (length ?b)"
    by (simp only: pad_len_add8 [OF alignment_dvd8(1)])
  then have "lp_pad_for_type (lp_of Table id' rid ?b) ?ty =
      Some (lp_of Table id' rid (?b @ replicate (pad_len (alignment ?ty) (length ?b)) 0))"
    unfolding lp_pad_for_type_def lp_of_length by (simp only: lp_push_zeros_of)
  then show ?thesis by (simp add: push_sample_def lp_of_ops(2,3) p8 Let_def)
qed

text \<open>Every sample lies, aligned, where the visitor puts its field.\<close>

lemma frame_layout:
  assumes "length (frame_body b xs) + 64 < 2 ^ 64" "i < length xs" "xs ! i = (c, t, d)"
    and "\<And>c t d. (c, t, d) \<in> set xs \<Longrightarrow> \<not> ts_is_empty (co_series c) \<and> length d = cs_size (co_schema c)"
  shows "\<exists>p q. visitor_fields (map fst xs) k (length b) ! i = b_raw_field (of_nat q) (of_nat (cs_size (co_schema c))) (field_op (k + i) p c) \<and>
    p + 8 \<le> q \<and> q + cs_size (co_schema c) \<le> length (frame_body b xs) \<and>
    q mod alignment (cs_prim_type (co_schema c)) = 0 \<and>
    get_range (frame_body b xs) p (p + 8) = Some (i64_to_le t) \<and>
    get_range (frame_body b xs) q (q + cs_size (co_schema c)) = Some d"
  using assms
proof (induction xs arbitrary: b k i)
  case (Cons x xs)
  obtain c0 t0 d0 where x: "x = (c0, t0, d0)" by (rule prod_cases3)
  let ?ty = "cs_prim_type (co_schema c0)"
  let ?p = "length b + pad_len 8 (length b)"
  let ?b1 = "b @ replicate (pad_len 8 (length b)) 0 @ i64_to_le t0"
  let ?q = "?p + 8 + pad_len (alignment ?ty) (length b + (pad_len 8 (length b) + 8))"
  let ?b2 = "?b1 @ replicate (pad_len (alignment ?ty) (length ?b1)) 0 @ d0"
  have ne: "\<not> ts_is_empty (co_series c0)" "length d0 = cs_size (co_schema c0)" using Cons.prems(4) [of c0 t0 d0] by (simp_all add: x)
  have fb: "frame_body b (x # xs) = frame_body ?b2 xs" by (simp add: x Let_def)
  obtain ys where ys: "frame_body ?b2 xs = ?b2 @ ys" using frame_body_extends by blast
  have lb1: "length ?b1 = ?p + 8" by simp
  have lb2: "length ?b2 = ?q + cs_size (co_schema c0)" using ne(2) by (simp add: add.assoc)
  have small: "?q + cs_size (co_schema c0) + 64 < 2 ^ 64" using Cons.prems(1) ys lb2 unfolding fb by simp
  have u1: "unat (padding U64 (of_nat (length b))) = pad_len 8 (length b)"
    using unat_padding [of "length b" U64] small by simp
  have u2: "unat (padding ?ty (of_nat (?p + 8))) = pad_len (alignment ?ty) (length b + (pad_len 8 (length b) + 8))"
    using unat_padding [of "?p + 8" ?ty] small by (simp add: add.assoc)
  have vf: "visitor_fields (map fst (x # xs)) k (length b) =
      b_raw_field (of_nat ?q) (of_nat (cs_size (co_schema c0))) (field_op k ?p c0) # visitor_fields (map fst xs) (k + 1) (length ?b2)"
    unfolding list.map(2) x fst_conv visitor_fields.simps(2) Let_def u1 u2 lb2 using ne(1) by simp
  show ?case
  proof (cases i)
    case 0
    then have c: "c = c0" "t = t0" "d = d0" using Cons.prems(3) x by simp_all
    have "get_range (?b2 @ ys) ?p (?p + 8) = Some (i64_to_le t0)" by (simp add: get_range_def slice_def)
    moreover have "get_range (?b2 @ ys) ?q (?q + cs_size (co_schema c0)) = Some d0"
      using ne(2) by (simp add: get_range_def slice_def)
    moreover have "?q mod alignment ?ty = 0"
      using pad_len_aligned [OF alignment_dvd8(2), of "?p + 8" ?ty] by (simp add: add.assoc)
    ultimately show ?thesis unfolding fb ys vf c using 0 lb2 by (intro exI [of _ ?p] exI [of _ ?q]) simp
  next
    case (Suc j)
    have "\<exists>p q. visitor_fields (map fst xs) (k + 1) (length ?b2) ! j =
        b_raw_field (of_nat q) (of_nat (cs_size (co_schema c))) (field_op (k + 1 + j) p c) \<and>
      p + 8 \<le> q \<and> q + cs_size (co_schema c) \<le> length (frame_body ?b2 xs) \<and>
      q mod alignment (cs_prim_type (co_schema c)) = 0 \<and>
      get_range (frame_body ?b2 xs) p (p + 8) = Some (i64_to_le t) \<and>
      get_range (frame_body ?b2 xs) q (q + cs_size (co_schema c)) = Some d"
      by (rule Cons.IH) (use Cons.prems Suc fb in auto)
    then show ?thesis unfolding fb vf using Suc by simp
  qed
qed simp

section \<open>The nodes of a stream's vtable\<close>

text \<open>The seven nodes of a field are at addresses of its own.\<close>

definition field_nodes :: "nat \<Rightarrow> nat \<Rightarrow> component \<Rightarrow> (nat \<times> op_builder) list" where
  "field_nodes k off c =
     (let node = (\<lambda>a. case a of Arc _ n \<Rightarrow> n);
          ty = cs_prim_type (co_schema c); dim = cs_shape (co_schema c)
      in [(7 * k, node (field_op k off c)), (7 * k + 1, BTable (of_nat off) 8),
          (7 * k + 2, node (as_vtable_op c (7 * k + 2) (7 * k + 3) (7 * k + 4) (7 * k + 5) (7 * k + 6))),
          (7 * k + 3, BData 8 (nat_to_le 8 (prim_code ty))), (7 * k + 4, BData 8 (elems_to_le 8 dim)),
          (7 * k + 5, node (b_component (7 * k + 5) (7 * k + 6) (co_id c))), (7 * k + 6, BData 8 (u64_to_le (co_id c)))])"

lemma arc_ok_mono:
  "bnode_ok h n \<Longrightarrow> h \<subseteq>\<^sub>m h' \<Longrightarrow> bnode_ok h' n" "arc_ok h a \<Longrightarrow> h \<subseteq>\<^sub>m h' \<Longrightarrow> arc_ok h' a"
  by (induction n and a rule: op_builder.induct arc.induct) (auto simp: map_le_def dom_def)

lemma field_nodes_ok: "map_of (field_nodes k off c) \<subseteq>\<^sub>m h \<Longrightarrow> arc_ok h (field_op k off c)"
proof -
  assume le: "map_of (field_nodes k off c) \<subseteq>\<^sub>m h"
  have "arc_ok (map_of (field_nodes k off c)) (field_op k off c)"
    by (simp add: field_nodes_def field_op_def as_vtable_op_def b_timestamp_def b_raw_table_def b_schema_def b_component_def)
  then show ?thesis using arc_ok_mono(2) le by blast
qed

lemma visitor_nodes:
  "\<exists>h. (\<forall>f \<in> set (visitor_fields cs k off). arc_ok h (fb_arg f)) \<and> (\<forall>n < 7 * k. h n = None)"
proof (induction cs arbitrary: k off)
  case Nil
  then show ?case by (intro exI [of _ "\<lambda>_. None"]) simp
next
  case (Cons c cs)
  show ?case
  proof (cases "ts_is_empty (co_series c)")
    case True
    then show ?thesis using Cons.IH by simp
  next
    case False
    define p where "p = off + unat (padding U64 (of_nat off))"
    obtain q l where vf: "visitor_fields (c # cs) k off = b_raw_field q l (field_op k p c) # visitor_fields cs (k + 1) (unat q + unat l)
        \<or> (\<exists>o'. visitor_fields (c # cs) k off = b_raw_field q l (field_op k p c) # visitor_fields cs (k + 1) o')"
      using False by (auto simp: Let_def p_def)
    then obtain o' where vf: "visitor_fields (c # cs) k off = b_raw_field q l (field_op k p c) # visitor_fields cs (k + 1) o'" by blast
    from Cons.IH obtain h where h: "\<forall>f \<in> set (visitor_fields cs (k + 1) o'). arc_ok h (fb_arg f)" "\<forall>n < 7 * (k + 1). h n = None"
      by blast
    let ?g = "map_of (field_nodes k p c)"
    have keys: "n \<in> dom ?g \<Longrightarrow> 7 * k \<le> n \<and> n < 7 * (k + 1)" for n
      by (auto simp: field_nodes_def Let_def split: if_splits)
    have disj: "dom ?g \<inter> dom h = {}" using keys h(2) by fastforce
    have "h \<subseteq>\<^sub>m ?g ++ h" by simp
    moreover have "?g \<subseteq>\<^sub>m ?g ++ h" using disj by (auto simp: map_le_def map_add_def split: option.splits)
    ultimately have "\<forall>f \<in> set (visitor_fields (c # cs) k off). arc_ok (?g ++ h) (fb_arg f)"
      unfolding vf using h(1) arc_ok_mono(2) field_nodes_ok by (auto simp: b_raw_field_def)
    moreover have "(?g ++ h) n = None" if "n < 7 * k" for n
      using that h(2) keys [of n] by (cases "?g n") (auto simp: map_add_def domIff)
    ultimately show ?thesis by blast
  qed
qed

section \<open>Reading a sample back\<close>

definition schema_ok :: "cschema \<Rightarrow> bool" where
  "schema_ok s \<longleftrightarrow> (\<forall>d \<in> set (cs_dim s). d < 2 ^ 64) \<and>
     (\<exists>n. checked_product (cs_dim s) 1 = Inr n \<and> n * prim_size (cs_prim_type s) < 2 ^ 64)"

definition sample_ok :: "cschema \<Rightarrow> int \<Rightarrow> byte list \<Rightarrow> bool" where
  "sample_ok s t d \<longleftrightarrow> i64_range t \<and> length d = cs_size s \<and> (cs_prim_type s = Bool \<longrightarrow> bools_ok d)"

lemma schema_ok_view:
  assumes zc: "zc_spec zc" and s: "schema_ok s" "sample_ok s t d" "addr mod alignment (cs_prim_type s) = 0"
  shows "\<exists>v. try_from_bytes_shape zc (addr, d) (cs_dim s) (cs_prim_type s) = Some (Inr v) \<and> cv_as_bytes v = d"
proof -
  from s(1) obtain n where n: "checked_product (cs_dim s) 1 = Inr n" "n * prim_size (cs_prim_type s) < 2 ^ 64"
    by (auto simp: schema_ok_def)
  have np: "n = prod_list (cs_dim s)" using checked_product_Inr [OF n(1)] by simp
  have sz: "0 < prim_size (cs_prim_type s)" by (cases "cs_prim_type s") simp_all
  then have "n \<le> n * prim_size (cs_prim_type s)" by simp
  then have "n < 2 ^ 64" using n(2) by (rule le_less_trans)
  then have len: "length d = n * prim_size (cs_prim_type s)" using s(2) n(2) np by (simp add: sample_ok_def cs_size_def)
  have "cs_prim_type s = Bool \<longrightarrow> bools_ok (take n d)" using s(2) set_take_subset [of n d] unfolding sample_ok_def bools_ok_def by blast
  then show ?thesis using try_from_bytes_shape_spec [OF zc, of "(addr, d)" "cs_dim s" "cs_prim_type s"] n(1) s(3) len np by auto
qed

lemma shape_words: "\<forall>d \<in> set (cs_dim s). d < 2 ^ 64 \<Longrightarrow> map unat (cs_shape s) = cs_dim s"
proof -
  assume a: "\<forall>d \<in> set (cs_dim s). d < 2 ^ 64"
  have "unat (of_nat d :: u64) = d" if "d < 2 ^ 64" for d using that by (simp add: unat_of_nat take_bit_nat_eq_self)
  then show ?thesis using a unfolding cs_shape_def map_map by (intro map_idI) auto
qed

lemma field_op_built:
  "built (DTimestamp (of_nat p) 8 (DSchema (cs_prim_type (co_schema c)) (cs_shape (co_schema c)) (DComponent (co_id c)))) (field_op k p c)"
  unfolding field_op_def as_vtable_op_def by (intro built.intros)

lemma table_field:
  assumes zc: "zc_spec zc" and base: "base mod 8 = 0" and addr: "addr mod 8 = 0"
    and fits: "fits32 (visitor_vtable (map fst xs))" "length (frame_body [] xs) < 2 ^ 32"
    and xs: "\<And>c t d. (c, t, d) \<in> set xs \<Longrightarrow> \<not> ts_is_empty (co_series c) \<and> schema_ok (co_schema c) \<and> sample_ok (co_schema c) t d"
    and i: "i < length (visitor_fields (map fst xs) 0 0)" "i < length xs" "xs ! i = (c, t, d)"
  shows "\<exists>rf v. realize_field zc base (visitor_vtable (map fst xs)) (Some (addr, frame_body [] xs)) (vt_fields (visitor_vtable (map fst xs)) ! i) =
      Some (Inr rf) \<and> rf_component_id rf = co_id c \<and> rf_shape rf = cs_dim (co_schema c) \<and> rf_ty rf = cs_prim_type (co_schema c) \<and>
      rf_timestamp rf = Some t \<and> rf_view rf = Some v \<and> cv_as_bytes v = d"
proof -
  let ?fs = "visitor_fields (map fst xs) 0 0" and ?body = "frame_body [] xs" and ?s = "co_schema c"
  have cx: "(c, t, d) \<in> set xs" using i(2,3) nth_mem by metis
  note ok = xs [OF cx]
  from frame_layout [of "[]" xs i c t d 0] fits(2) i(2,3) xs obtain p q where
    l: "?fs ! i = b_raw_field (of_nat q) (of_nat (cs_size ?s)) (field_op i p c)"
      "p + 8 \<le> q" "q + cs_size ?s \<le> length ?body" "q mod alignment (cs_prim_type ?s) = 0"
      "get_range ?body p (p + 8) = Some (i64_to_le t)" "get_range ?body q (q + cs_size ?s) = Some d"
    unfolding sample_ok_def by auto
  have w: "unat (of_nat n :: u32) = n" if "n \<le> length ?body" for n
    using that fits(2) by (simp add: unat_of_nat take_bit_nat_eq_self)
  have up: "unat (of_nat p :: u32) = p" "unat (of_nat q :: u32) = q" "unat (of_nat (cs_size ?s) :: u32) = cs_size ?s"
    using l(2,3) by (auto intro!: w)
  obtain h where h: "\<forall>f \<in> set ?fs. arc_ok h (fb_arg f)" using visitor_nodes by blast
  let ?desc = "DTimestamp (of_nat p) 8 (DSchema (cs_prim_type ?s) (cs_shape ?s) (DComponent (co_id c)))"
  have b: "built ?desc (fb_arg (?fs ! i))" using field_op_built l(1) by (simp add: b_raw_field_def)
  have t: "desc_time (Some (addr, ?body)) None ?desc = Some (Some (Some t))"
    using l(5) up(1) ok i64_le_roundtrip [of t] by (simp add: as_get_def sample_ok_def)
  have s: "desc_schema None ?desc = Some (cs_shape ?s, cs_prim_type ?s)" "desc_id ?desc = co_id c" by simp_all
  from realize_built [OF zc base _ fits(1) [unfolded visitor_vtable_def] i(1) b s(1) t] h obtain fld a where
    r: "vt_fields (build_vtable ?fs) ! i = fld" "vf_offset fld = of_nat q" "vf_len fld = of_nat (cs_size ?s)"
      "zc (SliceOf 8 8) (a, elems_to_le 8 (cs_shape ?s)) = None"
      "realize_field zc base (build_vtable ?fs) (Some (addr, ?body)) fld = finish_field zc fld (Some (addr, ?body)) (co_id c)
        (Some (Some t)) (Some ((a, elems_to_le 8 (cs_shape ?s)), cs_prim_type ?s))"
    unfolding s(2) l(1) b_raw_field_def by (metis field_builder.select_convs(1,2))
  have al: "(addr + q) mod alignment (cs_prim_type ?s) = 0"
    using addr l(4) alignment_dvd8(1) by (metis dvd_add dvd_eq_mod_eq_0 dvd_trans)
  obtain v where v: "try_from_bytes_shape zc (addr + q, d) (cs_dim ?s) (cs_prim_type ?s) = Some (Inr v)" "cv_as_bytes v = d"
    using schema_ok_view [OF zc _ _ al] ok by blast
  have sh: "map unat (cs_shape ?s) = cs_dim ?s" using ok by (intro shape_words) (simp add: schema_ok_def)
  have g: "as_get (addr, ?body) q (q + cs_size ?s) = Some (addr + q, d)" using l(6) by (simp add: as_get_def)
  show ?thesis unfolding visitor_vtable_def r(1) r(5)
    using r(2-4) up g v sh by (simp add: finish_field_def dims_of_elems Let_def)
qed

text \<open>One field of a table read against the announced vtable: the component's sample.\<close>

definition reads_back :: "caster \<Rightarrow> nat \<Rightarrow> vtable \<Rightarrow> aslice \<Rightarrow> vfield \<Rightarrow> component \<times> int \<times> byte list \<Rightarrow> bool" where
  "reads_back zc base vt tb fld = (\<lambda>(c, t, d). \<exists>rf v. realize_field zc base vt (Some tb) fld = Some (Inr rf) \<and>
     rf_component_id rf = co_id c \<and> rf_shape rf = cs_dim (co_schema c) \<and> rf_ty rf = cs_prim_type (co_schema c) \<and>
     rf_timestamp rf = Some t \<and> rf_view rf = Some v \<and> cv_as_bytes v = d)"

lemma visitor_fields_length:
  "length (visitor_fields cs k off) = length (filter (\<lambda>c. \<not> ts_is_empty (co_series c)) cs)"
  by (induction cs k off rule: visitor_fields.induct) (simp_all add: Let_def)

lemma visitor_fields_filter:
  "visitor_fields (filter (\<lambda>c. \<not> ts_is_empty (co_series c)) cs) k off = visitor_fields cs k off"
  by (induction cs arbitrary: k off) (simp_all add: Let_def)

lemma visitor_vtable_length:
  assumes "fits32 (visitor_vtable cs)"
  shows "length (vt_fields (visitor_vtable cs)) = length (visitor_fields cs 0 0)"
proof -
  obtain h where "\<forall>f \<in> set (visitor_fields cs 0 0). arc_ok h (fb_arg f)" using visitor_nodes by blast
  then show ?thesis using build_mirrors [of "visitor_fields cs 0 0" h] assms
    by (auto simp: visitor_vtable_def dest: list_all2_lengthD)
qed

lemma table_reads_back:
  assumes "zc_spec zc" "base mod 8 = 0" "addr mod 8 = 0" "fits32 (visitor_vtable (map fst xs))" "length (frame_body [] xs) < 2 ^ 32"
    and xs: "\<And>c t d. (c, t, d) \<in> set xs \<Longrightarrow> \<not> ts_is_empty (co_series c) \<and> schema_ok (co_schema c) \<and> sample_ok (co_schema c) t d"
  shows "list_all2 (reads_back zc base (visitor_vtable (map fst xs)) (addr, frame_body [] xs)) (vt_fields (visitor_vtable (map fst xs))) xs"
proof -
  have "filter (\<lambda>c. \<not> ts_is_empty (co_series c)) (map fst xs) = map fst xs" using xs by (auto simp: filter_id_conv)
  then have l: "length (visitor_fields (map fst xs) 0 0) = length xs" by (simp add: visitor_fields_length)
  show ?thesis unfolding list_all2_conv_all_nth visitor_vtable_length [OF assms(4)] l
  proof (intro conjI refl allI impI)
    fix i assume i: "i < length xs"
    obtain c t d where x: "xs ! i = (c, t, d)" by (rule prod_cases3)
    show "reads_back zc base (visitor_vtable (map fst xs)) (addr, frame_body [] xs) (vt_fields (visitor_vtable (map fst xs)) ! i) (xs ! i)"
      using table_field [OF assms(1-5) xs _ i x] i l unfolding x reads_back_def by simp
  qed
qed

lemma table_parses:
  assumes "zc_spec zc" "4 + length body < 2 ^ 32"
  shows "parse_packet zc (addr, drop 4 (lp_of Table id' rid body)) =
    Some (Inr (PktTable \<lparr>ot_id = id', ot_req_id = rid, ot_buf = (addr + 4, body)\<rparr>))"
proof -
  have d: "drop 4 (lp_of Table id' rid body) = [packet_code Table, fst id', snd id', rid] @ body" by (simp add: lp_of_def)
  have "zc (PacketOf None) (addr, drop 4 (lp_of Table id' rid body)) = None" by (simp add: zc_fits [OF assms(1)] d)
  then show ?thesis unfolding d
    by (simp add: parse_packet_def parse_with_offset_def as_get_def get_range_def slice_def try_slice_from_def
        packet_header_len_def packet_of_code_def Let_def)
qed

lemma lp_clear_of: "lp_clear (lp_of ty id' rid body) = lp_of ty id' rid []"
  by (simp add: lp_clear_def lp_set_len_def lp_of_def splice_def packet_header_len_def)

section \<open>Real-time streams\<close>

lemma real_time_vtable_visitor:
  assumes "\<not> ts_is_empty (co_series c)"
  shows "real_time_vtable c = visitor_vtable [c]"
proof -
  have p: "padding U64 (of_nat 0) = 0" by (simp add: padding_def)
  have f: "field_op 0 0 c = b_timestamp 0 (b_raw_table 1 0 8) (as_vtable_op c 2 3 4 5 6)" by (simp add: field_op_def numeral_2_eq_2)
  show ?thesis using assms
    unfolding visitor_vtable_def real_time_vtable_def visitor_fields.simps Let_def p by (simp add: f add.commute)
qed

text \<open>C21. What a component's task sends is read back by the receiver: the packet parses as a table
  of the announced identifier, and its only field is the latest sample of the component, with
  its identifier, type, shape, timestamp and bytes; the table is left ready for the next turn.\<close>

theorem real_time_roundtrip:
  assumes "zc_spec zc" "base mod 8 = 0" "addr mod 8 = 4"
    and "latest_sample c = Some (Some (t, d))" "schema_ok (co_schema c)" "sample_ok (co_schema c) t d"
    and "fits32 (real_time_vtable c)" "length d + 64 < 2 ^ 32"
  shows "\<exists>packet body. real_time_turn c (lp_of Table id' rid []) req_id = Some (Some packet, lp_of Table id' req_id []) \<and>
    parse_packet zc (addr, drop 4 packet) = Some (Inr (PktTable \<lparr>ot_id = id', ot_req_id = req_id, ot_buf = body\<rparr>)) \<and>
    list_all2 (reads_back zc base (real_time_vtable c) body) (vt_fields (real_time_vtable c)) [(c, t, d)]"
proof -
  let ?xs = "[(c, t, d)]"
  have ne: "\<not> ts_is_empty (co_series c)"
    using assms(4) by (auto simp: latest_sample_def ts_latest_def ts_is_empty_def)
  let ?ty = "cs_prim_type (co_schema c)"
  have "pad_len (alignment ?ty) 8 < 8" using pad_len_less [OF alignment_dvd8(2), of ?ty 8] alignment_dvd8(3) [of ?ty] by linarith
  then have len: "length (frame_body [] ?xs) + 40 < 2 ^ 32" using assms(8) by simp
  let ?body = "frame_body [] ?xs"
  have "push_sample (lp_of Table id' rid []) ?ty t d = Some (lp_of Table id' rid ?body)" by (rule push_sample_of) simp
  then have turn: "real_time_turn c (lp_of Table id' rid []) req_id = Some (Some (lp_of Table id' req_id ?body), lp_of Table id' req_id [])"
    using assms(4) by (simp add: real_time_turn_def lp_of_ops(4) lp_clear_of del: frame_body.simps)
  have "parse_packet zc (addr, drop 4 (lp_of Table id' req_id ?body)) =
      Some (Inr (PktTable \<lparr>ot_id = id', ot_req_id = req_id, ot_buf = (addr + 4, ?body)\<rparr>))"
    using len by (intro table_parses [OF assms(1)]) simp
  moreover have "(addr + 4) mod 8 = 0" using assms(3) by presburger
  then have "list_all2 (reads_back zc base (visitor_vtable (map fst ?xs)) (addr + 4, ?body)) (vt_fields (visitor_vtable (map fst ?xs))) ?xs"
    using assms(5-7) ne len real_time_vtable_visitor [OF ne]
    by (intro table_reads_back [OF assms(1,2)]) simp_all
  then have "list_all2 (reads_back zc base (real_time_vtable c) (addr + 4, ?body)) (vt_fields (real_time_vtable c)) ?xs"
    unfolding real_time_vtable_visitor [OF ne] by simp
  ultimately show ?thesis using turn by blast
qed

section \<open>Fixed-rate streams\<close>

text \<open>The samples a table is filled with.\<close>

definition sampled :: "component list \<Rightarrow> int \<Rightarrow> (component \<times> int \<times> byte list) list" where
  "sampled cs ts = List.map_filter (\<lambda>c. case nearest_sample c ts of Some (Some (t, d)) \<Rightarrow> Some (c, t, d) | _ \<Rightarrow> None) cs"

lemma sampled_simps [simp]:
  "sampled [] ts = []"
  "sampled (c # cs) ts = (case nearest_sample c ts of Some (Some (t, d)) \<Rightarrow> (c, t, d) # sampled cs ts | _ \<Rightarrow> sampled cs ts)"
  by (auto simp: sampled_def List.map_filter_simps split: option.splits)

lemma populate_frame:
  assumes "length (frame_body b (sampled cs ts)) + 64 < 2 ^ 64" "populate_table cs (lp_of Table id' rid b) ts n = Some (m, p)"
  shows "m = n + length (sampled cs ts) \<and> p = lp_of Table id' rid (frame_body b (sampled cs ts)) \<and> (\<forall>c \<in> set cs. nearest_sample c ts \<noteq> None)"
  using assms
proof (induction cs arbitrary: b n)
  case (Cons c cs)
  obtain q where q: "nearest_sample c ts = Some q" using Cons.prems(2) by (auto split: option.splits)
  show ?case
  proof (cases q)
    case None
    then show ?thesis using Cons.IH [of b n] Cons.prems q by simp
  next
    case (Some x)
    obtain t d where x: "x = (t, d)" by (cases x)
    let ?b1 = "frame_body b [(c, t, d)]"
    have f: "frame_body b ((c, t, d) # xs) = frame_body ?b1 xs" for xs by (simp add: Let_def)
    obtain ys where "frame_body ?b1 (sampled cs ts) = ?b1 @ ys" using frame_body_extends by blast
    moreover obtain zs where "?b1 = b @ zs" using frame_body_extends by blast
    ultimately have "length b \<le> length (frame_body ?b1 (sampled cs ts))" by simp
    moreover have l: "length (frame_body ?b1 (sampled cs ts)) + 64 < 2 ^ 64" using Cons.prems(1) q Some x f by simp
    ultimately have "length b + 64 < 2 ^ 64" by linarith
    from push_sample_of [OF this, of id' rid c t d] have
      "populate_table cs (lp_of Table id' rid ?b1) ts (n + 1) = Some (m, p)" using Cons.prems(2) q Some x by simp
    from Cons.IH [OF l this] show ?thesis using q Some x f by simp
  qed
qed simp

text \<open>Every component with a series has a sample to send, fit for its schema.\<close>

definition sendable :: "component list \<Rightarrow> int \<Rightarrow> bool" where
  "sendable cs ts \<longleftrightarrow> (\<forall>c \<in> set cs. (nearest_sample c ts = Some None \<longleftrightarrow> ts_is_empty (co_series c)) \<and>
     (\<forall>t d. nearest_sample c ts = Some (Some (t, d)) \<longrightarrow> schema_ok (co_schema c) \<and> sample_ok (co_schema c) t d))"

lemma sampled_components:
  assumes "sendable cs ts" "\<forall>c \<in> set cs. nearest_sample c ts \<noteq> None"
  shows "map fst (sampled cs ts) = filter (\<lambda>c. \<not> ts_is_empty (co_series c)) cs \<and>
    (\<forall>(c, t, d) \<in> set (sampled cs ts). \<not> ts_is_empty (co_series c) \<and> schema_ok (co_schema c) \<and> sample_ok (co_schema c) t d)"
  using assms
proof (induction cs)
  case (Cons c cs)
  then have ih: "map fst (sampled cs ts) = filter (\<lambda>c. \<not> ts_is_empty (co_series c)) cs \<and>
    (\<forall>(c, t, d) \<in> set (sampled cs ts). \<not> ts_is_empty (co_series c) \<and> schema_ok (co_schema c) \<and> sample_ok (co_schema c) t d)"
    by (simp add: sendable_def)
  obtain q where q: "nearest_sample c ts = Some q" using Cons.prems(2) by auto
  have e: "q = None \<longleftrightarrow> ts_is_empty (co_series c)" using Cons.prems(1) q by (simp add: sendable_def)
  show ?case
  proof (cases q)
    case None
    then show ?thesis using ih q e by simp
  next
    case (Some x)
    obtain t d where x: "x = (t, d)" by (cases x)
    have "schema_ok (co_schema c) \<and> sample_ok (co_schema c) t d" using Cons.prems(1) q Some x by (simp add: sendable_def)
    then show ?thesis using ih q e Some x by simp
  qed
qed simp

lemma visitor_vtable_filter: "visitor_vtable (filter (\<lambda>c. \<not> ts_is_empty (co_series c)) cs) = visitor_vtable cs"
  by (simp add: visitor_vtable_def visitor_fields_filter)

text \<open>A fixed-rate table is read back against the vtable of the same components: the packet
  parses as a table of the stream's identifier with one field per component that has data, and
  each field is that component's nearest sample, with its identifier, type, shape, timestamp
  and bytes.\<close>

theorem fixed_table_roundtrip:
  assumes "zc_spec zc" "base mod 8 = 0" "addr mod 8 = 4"
    and "populate_table cs (lp_table id') ts 0 = Some (n, table)" "lp_with_request_id table req_id = Some packet"
    and "sendable cs ts" "fits32 (visitor_vtable cs)" "length (frame_body [] (sampled cs ts)) + 4 < 2 ^ 32"
  shows "n = length (vt_fields (visitor_vtable cs)) \<and>
    (\<exists>body. parse_packet zc (addr, drop 4 packet) = Some (Inr (PktTable \<lparr>ot_id = id', ot_req_id = req_id, ot_buf = body\<rparr>)) \<and>
      list_all2 (reads_back zc base (visitor_vtable cs) body) (vt_fields (visitor_vtable cs)) (sampled cs ts))"
proof -
  let ?xs = "sampled cs ts"
  have p: "n = length ?xs" "table = lp_of Table id' 0 (frame_body [] ?xs)" "\<forall>c \<in> set cs. nearest_sample c ts \<noteq> None"
    using populate_frame [of "[]" cs ts id' 0 0 n table] assms(4,8) by (simp_all add: lp_table_def lp_of_new)
  have c: "map fst ?xs = filter (\<lambda>c. \<not> ts_is_empty (co_series c)) cs"
    "\<And>c t d. (c, t, d) \<in> set ?xs \<Longrightarrow> \<not> ts_is_empty (co_series c) \<and> schema_ok (co_schema c) \<and> sample_ok (co_schema c) t d"
    using sampled_components [OF assms(6) p(3)] by auto
  have vt: "visitor_vtable (map fst ?xs) = visitor_vtable cs" unfolding c(1) by (rule visitor_vtable_filter)
  have "length (visitor_fields cs 0 0) = length (map fst ?xs)" unfolding c(1) by (rule visitor_fields_length)
  then have n: "n = length (vt_fields (visitor_vtable cs))" using visitor_vtable_length [OF assms(7)] p(1) by simp
  have "packet = lp_of Table id' req_id (frame_body [] ?xs)" using assms(5) p(2) lp_of_ops(4) by simp
  then have "parse_packet zc (addr, drop 4 packet) =
      Some (Inr (PktTable \<lparr>ot_id = id', ot_req_id = req_id, ot_buf = (addr + 4, frame_body [] ?xs)\<rparr>))"
    using assms(8) table_parses [OF assms(1), of "frame_body [] ?xs"] by simp
  moreover have "(addr + 4) mod 8 = 0" using assms(3) by presburger
  then have "list_all2 (reads_back zc base (visitor_vtable cs) (addr + 4, frame_body [] ?xs)) (vt_fields (visitor_vtable cs)) ?xs"
    using table_reads_back [OF assms(1,2), of "addr + 4" ?xs] assms(7,8) c(2) unfolding vt by auto
  ultimately show ?thesis using n by blast
qed

text \<open>The vtable depends on the components' identifiers, schemas and on which of them have data.\<close>

definition same_field :: "component \<Rightarrow> component \<Rightarrow> bool" where
  "same_field c c' \<longleftrightarrow> co_id c' = co_id c \<and> co_schema c' = co_schema c \<and> ts_is_empty (co_series c') = ts_is_empty (co_series c)"

lemma visitor_fields_cong: "list_all2 same_field cs cs' \<Longrightarrow> visitor_fields cs' k off = visitor_fields cs k off"
proof (induction cs cs' arbitrary: k off rule: list_all2_induct)
  case (Cons c cs c' cs')
  have "field_op k n c' = field_op k n c" for n using Cons.hyps(1) by (simp add: same_field_def field_op_def as_vtable_op_def)
  then show ?case using Cons by (simp add: same_field_def Let_def)
qed simp

text \<open>Components stay, keep identifier and schema, and keep their data.\<close>

definition grows :: "(u64 \<Rightarrow> component option) \<Rightarrow> (u64 \<Rightarrow> component option) \<Rightarrow> bool" where
  "grows m m' \<longleftrightarrow> (\<forall>i c. m i = Some c \<longrightarrow> (\<exists>c'. m' i = Some c' \<and> co_id c' = co_id c \<and> co_schema c' = co_schema c \<and>
     (ts_is_empty (co_series c') \<longrightarrow> ts_is_empty (co_series c))))"

lemma shared_simps [simp]:
  "shared m [] = []" "shared m (i # is) = (case m i of None \<Rightarrow> shared m is | Some c \<Rightarrow> c # shared m is)"
  by (simp_all add: shared_def List.map_filter_simps split: option.splits)

abbreviation live :: "component list \<Rightarrow> nat" where
  "live cs \<equiv> length (filter (\<lambda>c. \<not> ts_is_empty (co_series c)) cs)"

lemma grows_live:
  assumes "grows m m'" "set is \<subseteq> dom m"
  shows "live (shared m is) \<le> live (shared m' is) \<and>
    (live (shared m is) = live (shared m' is) \<longrightarrow> list_all2 same_field (shared m is) (shared m' is))"
  using assms(2)
proof (induction "is")
  case (Cons i "is")
  then obtain c where c: "m i = Some c" by auto
  then obtain c' where c': "m' i = Some c'" "co_id c' = co_id c" "co_schema c' = co_schema c"
    "ts_is_empty (co_series c') \<longrightarrow> ts_is_empty (co_series c)"
    using assms(1) unfolding grows_def by blast
  show ?case using Cons c c' by (auto simp: same_field_def)
qed simp

lemma visitor_vtable_stable:
  assumes "grows m m'" "set is \<subseteq> dom m" "live (shared m' is) = live (shared m is)"
  shows "visitor_vtable (shared m' is) = visitor_vtable (shared m is)"
  using grows_live [OF assms(1,2)] assms(3) visitor_fields_cong unfolding visitor_vtable_def by metis

text \<open>The vtable a receiver holds after these messages.\<close>

fun announced :: "stream_out list \<Rightarrow> (packet_id \<times> vtable) option \<Rightarrow> (packet_id \<times> vtable) option" where
  "announced [] held = held"
| "announced (SendVTable i vt # outs) held = announced outs (Some (i, vt))"
| "announced (_ # outs) held = announced outs held"

lemma announced_append: "announced (xs @ ys) held = announced ys (announced xs held)"
  by (induction xs held rule: announced.induct) simp_all

text \<open>A run of a fixed-rate stream while the database grows.\<close>

inductive fixed_run :: "u64 \<Rightarrow> byte \<Rightarrow> fixed_stream \<Rightarrow> (u64 \<Rightarrow> component option) \<Rightarrow> stream_out list \<Rightarrow> bool"
  for sid :: u64 and req_id :: byte where
  fixed_start: "set order \<subseteq> dom comps \<Longrightarrow> fixed_run sid req_id (fixed_open sid gen order) comps []"
| fixed_step: "fixed_run sid req_id fx comps outs \<Longrightarrow> grows comps comps' \<Longrightarrow> set order \<subseteq> dom comps' \<Longrightarrow>
    sendable (shared comps' order) ts \<Longrightarrow> sendable (shared comps' (fx_components fx)) ts \<Longrightarrow>
    length (frame_body [] (sampled (shared comps' order) ts)) + 4 < 2 ^ 32 \<Longrightarrow>
    length (frame_body [] (sampled (shared comps' (fx_components fx)) ts)) + 4 < 2 ^ 32 \<Longrightarrow>
    fixed_turn sid req_id fx gen comps' order ts = Some (out, fx') \<Longrightarrow>
    fixed_run sid req_id fx' comps' (outs @ out)"

definition fixed_inv :: "byte \<Rightarrow> fixed_stream \<Rightarrow> (u64 \<Rightarrow> component option) \<Rightarrow> stream_out list \<Rightarrow> bool" where
  "fixed_inv req_id fx comps outs \<longleftrightarrow>
     (let cs = shared comps (fx_components fx)
      in set (fx_components fx) \<subseteq> dom comps \<and> (\<exists>rid body. fx_table fx = lp_of Table (fx_id fx) rid body) \<and>
         (if outs = [] then fx_field_count fx = None
          else fx_field_count fx = Some (live cs) \<and> announced outs None = Some (fx_id fx, visitor_vtable cs) \<and>
            (\<exists>ts. last outs = SendTable (lp_of Table (fx_id fx) req_id (frame_body [] (sampled cs ts))) \<and> sendable cs ts \<and>
               length (frame_body [] (sampled cs ts)) + 4 < 2 ^ 32 \<and> (\<forall>c \<in> set cs. nearest_sample c ts \<noteq> None))))"

lemma fixed_inv_start: "set order \<subseteq> dom comps \<Longrightarrow> fixed_inv req_id (fixed_open sid gen order) comps []"
  by (auto simp: fixed_inv_def fixed_open_def Let_def lp_table_def lp_of_new)

text \<open>One turn, with the components it uses and what it announced before.\<close>

lemma fixed_turn_inv:
  assumes inv: "fixed_inv req_id fx comps outs" and g: "grows comps comps'" "set order \<subseteq> dom comps'"
    and ok: "sendable (shared comps' order) ts" "sendable (shared comps' (fx_components fx)) ts"
      "length (frame_body [] (sampled (shared comps' order) ts)) + 4 < 2 ^ 32"
      "length (frame_body [] (sampled (shared comps' (fx_components fx)) ts)) + 4 < 2 ^ 32"
    and turn: "fixed_turn sid req_id fx gen comps' order ts = Some (out, fx')"
  shows "fixed_inv req_id fx' comps' (outs @ out) \<and> fx_id fx' = fx_id fx"
proof -
  define changed where "changed \<longleftrightarrow> gen \<noteq> fx_gen fx"
  define ids where "ids = (if changed then order else fx_components fx)"
  define cs where "cs = shared comps' ids"
  define ann where "ann = (if changed then [SendVTable (fx_id fx) (visitor_vtable cs)] else [])"
  obtain rid body where tb: "fx_table fx = lp_of Table (fx_id fx) rid body" using inv by (auto simp: fixed_inv_def Let_def)
  obtain n table where p: "populate_table cs (lp_of Table (fx_id fx) rid []) ts 0 = Some (n, table)"
    using turn by (auto simp: fixed_turn_def Let_def tb lp_clear_of cs_def ids_def changed_def split: if_splits option.splits)
  have c: "sendable cs ts" "length (frame_body [] (sampled cs ts)) + 4 < 2 ^ 32" "set ids \<subseteq> dom comps'"
  proof -
    show "sendable cs ts" "length (frame_body [] (sampled cs ts)) + 4 < 2 ^ 32" using ok by (simp_all add: cs_def ids_def)
    have "set (fx_components fx) \<subseteq> dom comps'" using inv g(1) unfolding fixed_inv_def Let_def grows_def by blast
    then show "set ids \<subseteq> dom comps'" using g(2) by (simp add: ids_def)
  qed
  have f: "n = length (sampled cs ts)" "table = lp_of Table (fx_id fx) rid (frame_body [] (sampled cs ts))"
    "\<forall>c \<in> set cs. nearest_sample c ts \<noteq> None"
    using populate_frame [OF _ p] c(2) by simp_all
  have "map fst (sampled cs ts) = filter (\<lambda>c. \<not> ts_is_empty (co_series c)) cs" using sampled_components [OF c(1) f(3)] by simp
  then have n: "n = live cs" using f(1) by (metis length_map)
  define vts where "vts = (if fx_field_count fx \<noteq> Some n then [SendVTable (fx_id fx) (visitor_vtable cs)] else [])"
  let ?packet = "lp_of Table (fx_id fx) req_id (frame_body [] (sampled cs ts))"
  have r: "lp_with_request_id table req_id = Some ?packet" unfolding f(2) by (rule lp_of_ops(4))
  have o: "out = ann @ vts @ [SendTimestamp ts sid, SendTable ?packet]" "fx_components fx' = ids" "fx_table fx' = ?packet"
    "fx_id fx' = fx_id fx" "fx_field_count fx' = Some n"
    using turn p r
    by (auto simp: fixed_turn_def Let_def tb lp_clear_of ann_def vts_def cs_def ids_def changed_def split: if_splits)
  have "announced (outs @ ann @ vts) None = Some (fx_id fx, visitor_vtable cs)"
  proof (cases "changed \<or> fx_field_count fx \<noteq> Some n")
    case True
    then show ?thesis by (auto simp: announced_append ann_def vts_def)
  next
    case False
    then have ne: "outs \<noteq> []" "ids = fx_components fx" "fx_field_count fx = Some n"
      using inv by (auto simp: fixed_inv_def Let_def ids_def)
    then have i: "live (shared comps ids) = n" "announced outs None = Some (fx_id fx, visitor_vtable (shared comps ids))" "set ids \<subseteq> dom comps"
      using inv by (auto simp: fixed_inv_def Let_def)
    have "visitor_vtable cs = visitor_vtable (shared comps ids)"
      using visitor_vtable_stable [OF g(1) i(3)] i(1) n unfolding cs_def by simp
    then show ?thesis using False i(2) by (simp add: ann_def vts_def announced_append)
  qed
  then have a: "announced (outs @ out) None = Some (fx_id fx', visitor_vtable (shared comps' (fx_components fx')))"
    unfolding o(1,2,4) append_assoc [symmetric] by (simp add: announced_append cs_def)
  have "last (outs @ out) = SendTable ?packet" by (simp add: o(1))
  then show ?thesis
    unfolding fixed_inv_def Let_def o(2) cs_def [symmetric]
    using a c f(3) n o by (auto simp: cs_def)
qed

lemma fixed_run_inv: "fixed_run sid req_id fx comps outs \<Longrightarrow> fixed_inv req_id fx comps outs"
proof (induction rule: fixed_run.induct)
  case (fixed_start order comps gen)
  then show ?case by (rule fixed_inv_start)
next
  case (fixed_step fx comps outs comps' order ts gen out fx')
  then show ?case using fixed_turn_inv by blast
qed


section \<open>A concrete stream\<close>

definition demo_comp :: component where
  "demo_comp = \<lparr>co_id = 7, co_series = sample_series, co_wal = disruptor_new 1, co_schema = cs_new F64 [], co_last = 40\<rparr>"

lemma demo_comp_samples:
  "latest_sample demo_comp = Some (Some (40, [2, 2, 2, 2, 2, 2, 2, 2]))"
  "nearest_sample demo_comp 35 = Some (Some (30, [1, 1, 1, 1, 1, 1, 1, 1]))"
proof -
  have "ts_latest sample_series = Some (Some \<lparr>tr_node = 0, tr_timestamp = 40, tr_index = 1\<rparr>)"
    "ref_data sample_series \<lparr>tr_node = 0, tr_timestamp = 40, tr_index = 1\<rparr> = Some [2, 2, 2, 2, 2, 2, 2, 2]" by code_simp+
  then show "latest_sample demo_comp = Some (Some (40, [2, 2, 2, 2, 2, 2, 2, 2]))" by (simp add: latest_sample_def demo_comp_def)
  have "start_timestamp sample_series = Some (Some 30)"
    "binary_search_nearest sample_series 35 True = Some (Some \<lparr>tr_node = 0, tr_timestamp = 30, tr_index = 0\<rparr>)"
    "ref_data sample_series \<lparr>tr_node = 0, tr_timestamp = 30, tr_index = 0\<rparr> = Some [1, 1, 1, 1, 1, 1, 1, 1]" by code_simp+
  then show "nearest_sample demo_comp 35 = Some (Some (30, [1, 1, 1, 1, 1, 1, 1, 1]))" by (simp add: nearest_sample_def demo_comp_def)
qed

lemma demo_comp_ok:
  "\<not> ts_is_empty (co_series demo_comp)" "schema_ok (co_schema demo_comp)"
  "i64_range t \<Longrightarrow> length d = 8 \<Longrightarrow> sample_ok (co_schema demo_comp) t d"
  by (simp_all add: demo_comp_def ts_is_empty_def sample_series_def schema_ok_def sample_ok_def cs_new_def cs_size_def)

lemma demo_comp_fields: "visitor_fields [demo_comp] 0 0 = [b_raw_field 8 8 (b_timestamp 0 (b_raw_table 1 0 8)
    (b_schema 2 3 4 F64 [] (b_component 5 6 7)))]"
proof -
  have p: "padding U64 0 = 0" "padding F64 8 = 0" by (simp_all add: padding_def)
  have z: "cs_size (cs_new F64 []) = 8" by (simp add: cs_new_def cs_size_def)
  show ?thesis
    by (simp add: Let_def demo_comp_def ts_is_empty_def sample_series_def p z field_op_def as_vtable_op_def numeral_2_eq_2)
      (simp add: cs_new_def cs_shape_def p)
qed

lemma demo_comp_fits: "fits32 (visitor_vtable [demo_comp])"
proof -
  have "length (vt_ops (build_vtable [b_raw_field 8 8 (b_timestamp 0 (b_raw_table 1 0 8) (b_schema 2 3 4 F64 [] (b_component 5 6 7)))])) = 7 \<and>
    length (vt_data (build_vtable [b_raw_field 8 8 (b_timestamp 0 (b_raw_table 1 0 8) (b_schema 2 3 4 F64 [] (b_component 5 6 7)))])) = 16"
    by code_simp
  then show ?thesis unfolding visitor_vtable_def demo_comp_fields fits32_def by simp
qed

lemma real_time_roundtrip_witness:
  "\<exists>packet body. real_time_turn demo_comp (lp_of Table (1, 2) 0 []) 5 = Some (Some packet, lp_of Table (1, 2) 5 []) \<and>
    parse_packet zc_ok (12, drop 4 packet) = Some (Inr (PktTable \<lparr>ot_id = (1, 2), ot_req_id = 5, ot_buf = body\<rparr>)) \<and>
    list_all2 (reads_back zc_ok 0 (real_time_vtable demo_comp) body) (vt_fields (real_time_vtable demo_comp))
      [(demo_comp, 40, [2, 2, 2, 2, 2, 2, 2, 2])]"
proof -
  have "sample_ok (co_schema demo_comp) 40 [2, 2, 2, 2, 2, 2, 2, 2]" by (rule demo_comp_ok(3)) (simp_all add: i64_range_def)
  moreover have "fits32 (real_time_vtable demo_comp)" using demo_comp_fits real_time_vtable_visitor [OF demo_comp_ok(1)] by simp
  ultimately show ?thesis
    by (intro real_time_roundtrip [OF zc_ok_spec _ _ demo_comp_samples(1) demo_comp_ok(2)]) simp_all
qed

lemma demo_comp_sendable:
  "sendable [demo_comp] 35" "sampled [demo_comp] 35 = [(demo_comp, 30, [1, 1, 1, 1, 1, 1, 1, 1])]"
  "length (frame_body [] (sampled [demo_comp] 35)) + 4 < 2 ^ 32"
proof -
  have "sample_ok (co_schema demo_comp) 30 [1, 1, 1, 1, 1, 1, 1, 1]" by (rule demo_comp_ok(3)) (simp_all add: i64_range_def)
  then show "sendable [demo_comp] 35" using demo_comp_ok(1,2) demo_comp_samples(2) by (simp add: sendable_def)
  show s: "sampled [demo_comp] 35 = [(demo_comp, 30, [1, 1, 1, 1, 1, 1, 1, 1])]" by (simp add: demo_comp_samples(2))
  have "pad_len (alignment (cs_prim_type (co_schema demo_comp))) 8 < 8"
    using pad_len_less [OF alignment_dvd8(2), of "cs_prim_type (co_schema demo_comp)" 8] alignment_dvd8(3) [of "cs_prim_type (co_schema demo_comp)"]
    by linarith
  then show "length (frame_body [] (sampled [demo_comp] 35)) + 4 < 2 ^ 32" unfolding s by simp
qed

lemma demo_populate: "\<exists>p. populate_table [demo_comp] (lp_of Table (1, 2) rid []) 35 0 = Some (1, p) \<and> (\<exists>b. p = lp_of Table (1, 2) rid b)"
proof -
  have "push_sample (lp_of Table (1, 2) rid []) (cs_prim_type (co_schema demo_comp)) 30 [1, 1, 1, 1, 1, 1, 1, 1] =
      Some (lp_of Table (1, 2) rid (frame_body [] [(demo_comp, 30, [1, 1, 1, 1, 1, 1, 1, 1])]))" by (rule push_sample_of) simp
  then have "populate_table [demo_comp] (lp_of Table (1, 2) rid []) 35 0 =
      Some (1, lp_of Table (1, 2) rid (frame_body [] [(demo_comp, 30, [1, 1, 1, 1, 1, 1, 1, 1])]))"
    by (simp add: demo_comp_samples(2) del: frame_body.simps)
  then show ?thesis by blast
qed



end
