(* ===== verification/Value.thy ===== *)
theory Value
  imports ProtoTypes
begin

text \<open>
  Owned component values (\<open>ComponentValue\<close> of \<open>libs/metor-proto/wkt/src/value.rs\<close>) over the
  dynamic arrays of \<open>libs/nox/src/array/dynamic.rs\<close>.  Floating-point values are bit patterns
  and their arithmetic is a record of operations, since HOL has none of them here; integers
  are words.  A panic is \<open>None\<close>.
\<close>

section \<open>Dynamic arrays\<close>

record 'a dyn_array =
  da_storage :: "'a list"
  da_shape :: "nat list"
  da_strides :: "nat list"

text \<open>The scan over the reversed shape; the product wraps.\<close>

fun strides_scan :: "nat \<Rightarrow> nat list \<Rightarrow> nat list" where
  "strides_scan acc [] = []"
| "strides_scan acc (x # xs) = acc # strides_scan ((acc * x) mod 2 ^ 64) xs"

definition calculate_strides :: "nat list \<Rightarrow> nat list" where
  "calculate_strides shape = rev (strides_scan 1 (rev shape))"

definition from_shape_vec :: "nat list \<Rightarrow> 'a list \<Rightarrow> 'a dyn_array option" where
  "from_shape_vec shape storage =
     (let expected_len = (if shape = [] then 1 else prod_list shape mod 2 ^ 64)
      in if expected_len \<noteq> length storage then None
         else Some \<lparr>da_storage = storage, da_shape = shape, da_strides = calculate_strides shape\<rparr>)"

text \<open>\<open>ArrayBuf::default\<close>; the length is the sum of the dimensions.\<close>

definition da_default :: "'a \<Rightarrow> nat list \<Rightarrow> 'a dyn_array" where
  "da_default zero dims =
     \<lparr>da_storage = replicate (sum_list dims) zero, da_shape = dims, da_strides = calculate_strides dims\<rparr>"

definition da_map :: "('a list \<Rightarrow> 'a list) \<Rightarrow> 'a dyn_array \<Rightarrow> 'a dyn_array" where
  "da_map f a = a\<lparr>da_storage := f (da_storage a)\<rparr>"

text \<open>\<open>view\<close> and \<open>to_dyn_owned\<close>; the latter unwraps.\<close>

definition da_view :: "'a dyn_array \<Rightarrow> 'a array_view" where
  "da_view a = \<lparr>av_buf = da_storage a, av_shape = da_shape a\<rparr>"

definition to_dyn_owned :: "'a array_view \<Rightarrow> 'a dyn_array option" where
  "to_dyn_owned v = from_shape_vec (av_shape v) (av_buf v)"

text \<open>The position of a multi-dimensional index, and the element there (\<open>ArrayViewExt::get\<close>).\<close>

definition view_index :: "nat list \<Rightarrow> nat list \<Rightarrow> nat" where
  "view_index shape index = sum_list (map2 (\<lambda>s i. (s * i) mod 2 ^ 64) (calculate_strides shape) index) mod 2 ^ 64"

definition view_get :: "'a array_view \<Rightarrow> nat list \<Rightarrow> 'a option" where
  "view_get v index = get_index (av_buf v) (view_index (av_shape v) index)"

section \<open>Arithmetic\<close>

text \<open>
  IEEE arithmetic on bit patterns.  The clamps are the \<open>as\<close> conversions to integers: truncation
  towards zero, saturating at the bounds, zero for a NaN.
\<close>

record float_ops =
  f32_add :: "32 word \<Rightarrow> 32 word \<Rightarrow> 32 word"
  f64_add :: "64 word \<Rightarrow> 64 word \<Rightarrow> 64 word"
  f32_div :: "32 word \<Rightarrow> 32 word \<Rightarrow> 32 word"
  f64_div :: "64 word \<Rightarrow> 64 word \<Rightarrow> 64 word"
  f32_of_int :: "int \<Rightarrow> 32 word"
  f64_of_int :: "int \<Rightarrow> 64 word"
  f32_clamp :: "int \<Rightarrow> int \<Rightarrow> 32 word \<Rightarrow> int"
  f64_clamp :: "int \<Rightarrow> int \<Rightarrow> 64 word \<Rightarrow> int"
  f32_of_f64 :: "64 word \<Rightarrow> 32 word"
  f64_of_f32 :: "32 word \<Rightarrow> 64 word"

definition sat_add :: "'a::len word \<Rightarrow> 'a word \<Rightarrow> 'a word" where
  "sat_add a b = word_of_int (min (uint a + uint b) (2 ^ LENGTH('a) - 1))"

definition sat_add_signed :: "'a::len word \<Rightarrow> 'a word \<Rightarrow> 'a word" where
  "sat_add_signed a b =
     word_of_int (max (- (2 ^ (LENGTH('a) - 1))) (min (sint a + sint b) (2 ^ (LENGTH('a) - 1) - 1)))"

text \<open>\<open>(r as f64 / count) as T\<close>.\<close>

definition div_unsigned :: "float_ops \<Rightarrow> 64 word \<Rightarrow> 'a::len word \<Rightarrow> 'a word" where
  "div_unsigned fl count r =
     word_of_int (f64_clamp fl 0 (2 ^ LENGTH('a) - 1) (f64_div fl (f64_of_int fl (uint r)) count))"

definition div_signed :: "float_ops \<Rightarrow> 64 word \<Rightarrow> 'a::len word \<Rightarrow> 'a word" where
  "div_signed fl count r =
     word_of_int (f64_clamp fl (- (2 ^ (LENGTH('a) - 1))) (2 ^ (LENGTH('a) - 1) - 1)
       (f64_div fl (f64_of_int fl (sint r)) count))"

text \<open>The elements both buffers have are combined, in place.\<close>

fun update_zip :: "('a \<Rightarrow> 'a \<Rightarrow> 'a) \<Rightarrow> 'a list \<Rightarrow> 'a list \<Rightarrow> 'a list" where
  "update_zip f (x # xs) (y # ys) = f x y # update_zip f xs ys"
| "update_zip f xs ys = xs"

section \<open>Component values\<close>

datatype component_value =
    VU8 "8 word dyn_array"
  | VU16 "16 word dyn_array"
  | VU32 "32 word dyn_array"
  | VU64 "64 word dyn_array"
  | VI8 "8 word dyn_array"
  | VI16 "16 word dyn_array"
  | VI32 "32 word dyn_array"
  | VI64 "64 word dyn_array"
  | VBool "bool dyn_array"
  | VF32 "32 word dyn_array"
  | VF64 "64 word dyn_array"

fun val_zeros :: "nat list \<Rightarrow> prim_type \<Rightarrow> component_value" where
  "val_zeros shape U8 = VU8 (da_default 0 shape)"
| "val_zeros shape U16 = VU16 (da_default 0 shape)"
| "val_zeros shape U32 = VU32 (da_default 0 shape)"
| "val_zeros shape U64 = VU64 (da_default 0 shape)"
| "val_zeros shape I8 = VI8 (da_default 0 shape)"
| "val_zeros shape I16 = VI16 (da_default 0 shape)"
| "val_zeros shape I32 = VI32 (da_default 0 shape)"
| "val_zeros shape I64 = VI64 (da_default 0 shape)"
| "val_zeros shape Bool = VBool (da_default False shape)"
| "val_zeros shape F32 = VF32 (da_default 0 shape)"
| "val_zeros shape F64 = VF64 (da_default 0 shape)"

fun fill_zeros :: "component_value \<Rightarrow> component_value" where
  "fill_zeros (VU8 a) = VU8 (da_map (map (\<lambda>_. 0)) a)"
| "fill_zeros (VU16 a) = VU16 (da_map (map (\<lambda>_. 0)) a)"
| "fill_zeros (VU32 a) = VU32 (da_map (map (\<lambda>_. 0)) a)"
| "fill_zeros (VU64 a) = VU64 (da_map (map (\<lambda>_. 0)) a)"
| "fill_zeros (VI8 a) = VI8 (da_map (map (\<lambda>_. 0)) a)"
| "fill_zeros (VI16 a) = VI16 (da_map (map (\<lambda>_. 0)) a)"
| "fill_zeros (VI32 a) = VI32 (da_map (map (\<lambda>_. 0)) a)"
| "fill_zeros (VI64 a) = VI64 (da_map (map (\<lambda>_. 0)) a)"
| "fill_zeros (VBool a) = VBool (da_map (map (\<lambda>_. False)) a)"
| "fill_zeros (VF32 a) = VF32 (da_map (map (\<lambda>_. 0)) a)"
| "fill_zeros (VF64 a) = VF64 (da_map (map (\<lambda>_. 0)) a)"

fun val_shape :: "component_value \<Rightarrow> nat list" where
  "val_shape (VU8 a) = da_shape a"
| "val_shape (VU16 a) = da_shape a"
| "val_shape (VU32 a) = da_shape a"
| "val_shape (VU64 a) = da_shape a"
| "val_shape (VI8 a) = da_shape a"
| "val_shape (VI16 a) = da_shape a"
| "val_shape (VI32 a) = da_shape a"
| "val_shape (VI64 a) = da_shape a"
| "val_shape (VBool a) = da_shape a"
| "val_shape (VF32 a) = da_shape a"
| "val_shape (VF64 a) = da_shape a"

fun val_prim_type :: "component_value \<Rightarrow> prim_type" where
  "val_prim_type (VU8 a) = U8"
| "val_prim_type (VU16 a) = U16"
| "val_prim_type (VU32 a) = U32"
| "val_prim_type (VU64 a) = U64"
| "val_prim_type (VI8 a) = I8"
| "val_prim_type (VI16 a) = I16"
| "val_prim_type (VI32 a) = I32"
| "val_prim_type (VI64 a) = I64"
| "val_prim_type (VBool a) = Bool"
| "val_prim_type (VF32 a) = F32"
| "val_prim_type (VF64 a) = F64"

text \<open>Adding values of different types panics.\<close>

fun add_view :: "float_ops \<Rightarrow> component_value \<Rightarrow> component_view \<Rightarrow> component_value option" where
  "add_view fl (VU8 a) w = (case w of CvU8 v \<Rightarrow> Some (VU8 (da_map (\<lambda>xs. update_zip sat_add xs (av_buf v)) a)) | _ \<Rightarrow> None)"
| "add_view fl (VU16 a) w = (case w of CvU16 v \<Rightarrow> Some (VU16 (da_map (\<lambda>xs. update_zip sat_add xs (av_buf v)) a)) | _ \<Rightarrow> None)"
| "add_view fl (VU32 a) w = (case w of CvU32 v \<Rightarrow> Some (VU32 (da_map (\<lambda>xs. update_zip sat_add xs (av_buf v)) a)) | _ \<Rightarrow> None)"
| "add_view fl (VU64 a) w = (case w of CvU64 v \<Rightarrow> Some (VU64 (da_map (\<lambda>xs. update_zip sat_add xs (av_buf v)) a)) | _ \<Rightarrow> None)"
| "add_view fl (VI8 a) w = (case w of CvI8 v \<Rightarrow> Some (VI8 (da_map (\<lambda>xs. update_zip sat_add_signed xs (av_buf v)) a)) | _ \<Rightarrow> None)"
| "add_view fl (VI16 a) w = (case w of CvI16 v \<Rightarrow> Some (VI16 (da_map (\<lambda>xs. update_zip sat_add_signed xs (av_buf v)) a)) | _ \<Rightarrow> None)"
| "add_view fl (VI32 a) w = (case w of CvI32 v \<Rightarrow> Some (VI32 (da_map (\<lambda>xs. update_zip sat_add_signed xs (av_buf v)) a)) | _ \<Rightarrow> None)"
| "add_view fl (VI64 a) w = (case w of CvI64 v \<Rightarrow> Some (VI64 (da_map (\<lambda>xs. update_zip sat_add_signed xs (av_buf v)) a)) | _ \<Rightarrow> None)"
| "add_view fl (VBool a) w = (case w of CvBool v \<Rightarrow> Some (VBool (da_map (\<lambda>xs. update_zip (\<or>) xs (av_buf v)) a)) | _ \<Rightarrow> None)"
| "add_view fl (VF32 a) w = (case w of CvF32 v \<Rightarrow> Some (VF32 (da_map (\<lambda>xs. update_zip (f32_add fl) xs (av_buf v)) a)) | _ \<Rightarrow> None)"
| "add_view fl (VF64 a) w = (case w of CvF64 v \<Rightarrow> Some (VF64 (da_map (\<lambda>xs. update_zip (f64_add fl) xs (av_buf v)) a)) | _ \<Rightarrow> None)"

text \<open>Dividing booleans panics.\<close>

fun val_div :: "float_ops \<Rightarrow> component_value \<Rightarrow> 64 word \<Rightarrow> component_value option" where
  "val_div fl (VU8 a) count = Some (VU8 (da_map (map (div_unsigned fl count)) a))"
| "val_div fl (VU16 a) count = Some (VU16 (da_map (map (div_unsigned fl count)) a))"
| "val_div fl (VU32 a) count = Some (VU32 (da_map (map (div_unsigned fl count)) a))"
| "val_div fl (VU64 a) count = Some (VU64 (da_map (map (div_unsigned fl count)) a))"
| "val_div fl (VI8 a) count = Some (VI8 (da_map (map (div_signed fl count)) a))"
| "val_div fl (VI16 a) count = Some (VI16 (da_map (map (div_signed fl count)) a))"
| "val_div fl (VI32 a) count = Some (VI32 (da_map (map (div_signed fl count)) a))"
| "val_div fl (VI64 a) count = Some (VI64 (da_map (map (div_signed fl count)) a))"
| "val_div fl (VBool a) count = None"
| "val_div fl (VF32 a) count = Some (VF32 (da_map (map (\<lambda>r. f32_div fl r (f32_of_f64 fl count))) a))"
| "val_div fl (VF64 a) count = Some (VF64 (da_map (map (\<lambda>r. f64_div fl r count)) a))"

text \<open>\<open>copy_from_slice\<close> panics on different lengths; values of different types are refused.\<close>

definition copy_slice :: "'a dyn_array \<Rightarrow> 'a list \<Rightarrow> 'a dyn_array option" where
  "copy_slice a xs = (if length xs = length (da_storage a) then Some (a\<lparr>da_storage := xs\<rparr>) else None)"

fun copy_from_view :: "component_value \<Rightarrow> component_view \<Rightarrow> component_value option option" where
  "copy_from_view (VU8 a) w = (case w of CvU8 v \<Rightarrow> map_option (\<lambda>a. Some (VU8 a)) (copy_slice a (av_buf v)) | _ \<Rightarrow> Some None)"
| "copy_from_view (VU16 a) w = (case w of CvU16 v \<Rightarrow> map_option (\<lambda>a. Some (VU16 a)) (copy_slice a (av_buf v)) | _ \<Rightarrow> Some None)"
| "copy_from_view (VU32 a) w = (case w of CvU32 v \<Rightarrow> map_option (\<lambda>a. Some (VU32 a)) (copy_slice a (av_buf v)) | _ \<Rightarrow> Some None)"
| "copy_from_view (VU64 a) w = (case w of CvU64 v \<Rightarrow> map_option (\<lambda>a. Some (VU64 a)) (copy_slice a (av_buf v)) | _ \<Rightarrow> Some None)"
| "copy_from_view (VI8 a) w = (case w of CvI8 v \<Rightarrow> map_option (\<lambda>a. Some (VI8 a)) (copy_slice a (av_buf v)) | _ \<Rightarrow> Some None)"
| "copy_from_view (VI16 a) w = (case w of CvI16 v \<Rightarrow> map_option (\<lambda>a. Some (VI16 a)) (copy_slice a (av_buf v)) | _ \<Rightarrow> Some None)"
| "copy_from_view (VI32 a) w = (case w of CvI32 v \<Rightarrow> map_option (\<lambda>a. Some (VI32 a)) (copy_slice a (av_buf v)) | _ \<Rightarrow> Some None)"
| "copy_from_view (VI64 a) w = (case w of CvI64 v \<Rightarrow> map_option (\<lambda>a. Some (VI64 a)) (copy_slice a (av_buf v)) | _ \<Rightarrow> Some None)"
| "copy_from_view (VBool a) w = (case w of CvBool v \<Rightarrow> map_option (\<lambda>a. Some (VBool a)) (copy_slice a (av_buf v)) | _ \<Rightarrow> Some None)"
| "copy_from_view (VF32 a) w = (case w of CvF32 v \<Rightarrow> map_option (\<lambda>a. Some (VF32 a)) (copy_slice a (av_buf v)) | _ \<Rightarrow> Some None)"
| "copy_from_view (VF64 a) w = (case w of CvF64 v \<Rightarrow> map_option (\<lambda>a. Some (VF64 a)) (copy_slice a (av_buf v)) | _ \<Rightarrow> Some None)"

fun from_view :: "component_view \<Rightarrow> component_value option" where
  "from_view (CvU8 v) = map_option VU8 (to_dyn_owned v)"
| "from_view (CvU16 v) = map_option VU16 (to_dyn_owned v)"
| "from_view (CvU32 v) = map_option VU32 (to_dyn_owned v)"
| "from_view (CvU64 v) = map_option VU64 (to_dyn_owned v)"
| "from_view (CvI8 v) = map_option VI8 (to_dyn_owned v)"
| "from_view (CvI16 v) = map_option VI16 (to_dyn_owned v)"
| "from_view (CvI32 v) = map_option VI32 (to_dyn_owned v)"
| "from_view (CvI64 v) = map_option VI64 (to_dyn_owned v)"
| "from_view (CvBool v) = map_option VBool (to_dyn_owned v)"
| "from_view (CvF32 v) = map_option VF32 (to_dyn_owned v)"
| "from_view (CvF64 v) = map_option VF64 (to_dyn_owned v)"

fun as_view :: "component_value \<Rightarrow> component_view" where
  "as_view (VU8 a) = CvU8 (da_view a)"
| "as_view (VU16 a) = CvU16 (da_view a)"
| "as_view (VU32 a) = CvU32 (da_view a)"
| "as_view (VU64 a) = CvU64 (da_view a)"
| "as_view (VI8 a) = CvI8 (da_view a)"
| "as_view (VI16 a) = CvI16 (da_view a)"
| "as_view (VI32 a) = CvI32 (da_view a)"
| "as_view (VI64 a) = CvI64 (da_view a)"
| "as_view (VBool a) = CvBool (da_view a)"
| "as_view (VF32 a) = CvF32 (da_view a)"
| "as_view (VF64 a) = CvF64 (da_view a)"

fun val_iter :: "component_value \<Rightarrow> element_value list" where
  "val_iter (VU8 a) = map EvU8 (da_storage a)"
| "val_iter (VU16 a) = map EvU16 (da_storage a)"
| "val_iter (VU32 a) = map EvU32 (da_storage a)"
| "val_iter (VU64 a) = map EvU64 (da_storage a)"
| "val_iter (VI8 a) = map EvI8 (da_storage a)"
| "val_iter (VI16 a) = map EvI16 (da_storage a)"
| "val_iter (VI32 a) = map EvI32 (da_storage a)"
| "val_iter (VI64 a) = map EvI64 (da_storage a)"
| "val_iter (VBool a) = map EvBool (da_storage a)"
| "val_iter (VF32 a) = map EvF32 (da_storage a)"
| "val_iter (VF64 a) = map EvF64 (da_storage a)"

fun val_get :: "component_value \<Rightarrow> nat \<Rightarrow> element_value option" where
  "val_get (VU8 a) i = map_option EvU8 (get_index (da_storage a) i)"
| "val_get (VU16 a) i = map_option EvU16 (get_index (da_storage a) i)"
| "val_get (VU32 a) i = map_option EvU32 (get_index (da_storage a) i)"
| "val_get (VU64 a) i = map_option EvU64 (get_index (da_storage a) i)"
| "val_get (VI8 a) i = map_option EvI8 (get_index (da_storage a) i)"
| "val_get (VI16 a) i = map_option EvI16 (get_index (da_storage a) i)"
| "val_get (VI32 a) i = map_option EvI32 (get_index (da_storage a) i)"
| "val_get (VI64 a) i = map_option EvI64 (get_index (da_storage a) i)"
| "val_get (VBool a) i = map_option EvBool (get_index (da_storage a) i)"
| "val_get (VF32 a) i = map_option EvF32 (get_index (da_storage a) i)"
| "val_get (VF64 a) i = map_option EvF64 (get_index (da_storage a) i)"

fun val_as_bytes :: "component_value \<Rightarrow> byte list" where
  "val_as_bytes (VU8 a) = elems_to_le 1 (da_storage a)"
| "val_as_bytes (VU16 a) = elems_to_le 2 (da_storage a)"
| "val_as_bytes (VU32 a) = elems_to_le 4 (da_storage a)"
| "val_as_bytes (VU64 a) = elems_to_le 8 (da_storage a)"
| "val_as_bytes (VI8 a) = elems_to_le 1 (da_storage a)"
| "val_as_bytes (VI16 a) = elems_to_le 2 (da_storage a)"
| "val_as_bytes (VI32 a) = elems_to_le 4 (da_storage a)"
| "val_as_bytes (VI64 a) = elems_to_le 8 (da_storage a)"
| "val_as_bytes (VBool a) = bools_to_bytes (da_storage a)"
| "val_as_bytes (VF32 a) = elems_to_le 4 (da_storage a)"
| "val_as_bytes (VF64 a) = elems_to_le 8 (da_storage a)"

section \<open>Casts\<close>

text \<open>
  An element as a number: an integer (a boolean is 0 or 1) or a float of either width.  The
  conversions are those of \<open>as\<close>; to a boolean the code goes through \<open>u8\<close>.
\<close>

datatype number = NInt int | NF32 "32 word" | NF64 "64 word"

fun elem_number :: "element_value \<Rightarrow> number" where
  "elem_number (EvU8 x) = NInt (uint x)"
| "elem_number (EvU16 x) = NInt (uint x)"
| "elem_number (EvU32 x) = NInt (uint x)"
| "elem_number (EvU64 x) = NInt (uint x)"
| "elem_number (EvI8 x) = NInt (sint x)"
| "elem_number (EvI16 x) = NInt (sint x)"
| "elem_number (EvI32 x) = NInt (sint x)"
| "elem_number (EvI64 x) = NInt (sint x)"
| "elem_number (EvBool x) = NInt (of_bool x)"
| "elem_number (EvF32 x) = NF32 x"
| "elem_number (EvF64 x) = NF64 x"

fun num_to_int :: "float_ops \<Rightarrow> int \<Rightarrow> int \<Rightarrow> number \<Rightarrow> int" where
  "num_to_int fl lo hi (NInt n) = n"
| "num_to_int fl lo hi (NF32 x) = f32_clamp fl lo hi x"
| "num_to_int fl lo hi (NF64 x) = f64_clamp fl lo hi x"

definition num_to_unsigned :: "float_ops \<Rightarrow> number \<Rightarrow> 'a::len word" where
  "num_to_unsigned fl x = word_of_int (num_to_int fl 0 (2 ^ LENGTH('a) - 1) x)"

definition num_to_signed :: "float_ops \<Rightarrow> number \<Rightarrow> 'a::len word" where
  "num_to_signed fl x = word_of_int (num_to_int fl (- (2 ^ (LENGTH('a) - 1))) (2 ^ (LENGTH('a) - 1) - 1) x)"

fun num_to_f32 :: "float_ops \<Rightarrow> number \<Rightarrow> 32 word" where
  "num_to_f32 fl (NInt n) = f32_of_int fl n"
| "num_to_f32 fl (NF32 x) = x"
| "num_to_f32 fl (NF64 x) = f32_of_f64 fl x"

fun num_to_f64 :: "float_ops \<Rightarrow> number \<Rightarrow> 64 word" where
  "num_to_f64 fl (NInt n) = f64_of_int fl n"
| "num_to_f64 fl (NF32 x) = f64_of_f32 fl x"
| "num_to_f64 fl (NF64 x) = x"

definition num_to_bool :: "float_ops \<Rightarrow> number \<Rightarrow> bool" where
  "num_to_bool fl x \<longleftrightarrow> (num_to_unsigned fl x :: 8 word) \<noteq> 0"


text \<open>The array of a target type; \<open>from_shape_vec\<close> is unwrapped.\<close>

fun cast_array :: "float_ops \<Rightarrow> nat list \<Rightarrow> number list \<Rightarrow> prim_type \<Rightarrow> component_value option" where
  "cast_array fl shape xs U8 = map_option VU8 (from_shape_vec shape (map (num_to_unsigned fl) xs))"
| "cast_array fl shape xs U16 = map_option VU16 (from_shape_vec shape (map (num_to_unsigned fl) xs))"
| "cast_array fl shape xs U32 = map_option VU32 (from_shape_vec shape (map (num_to_unsigned fl) xs))"
| "cast_array fl shape xs U64 = map_option VU64 (from_shape_vec shape (map (num_to_unsigned fl) xs))"
| "cast_array fl shape xs I8 = map_option VI8 (from_shape_vec shape (map (num_to_signed fl) xs))"
| "cast_array fl shape xs I16 = map_option VI16 (from_shape_vec shape (map (num_to_signed fl) xs))"
| "cast_array fl shape xs I32 = map_option VI32 (from_shape_vec shape (map (num_to_signed fl) xs))"
| "cast_array fl shape xs I64 = map_option VI64 (from_shape_vec shape (map (num_to_signed fl) xs))"
| "cast_array fl shape xs Bool = map_option VBool (from_shape_vec shape (map (num_to_bool fl) xs))"
| "cast_array fl shape xs F32 = map_option VF32 (from_shape_vec shape (map (num_to_f32 fl) xs))"
| "cast_array fl shape xs F64 = map_option VF64 (from_shape_vec shape (map (num_to_f64 fl) xs))"

definition val_cast :: "float_ops \<Rightarrow> component_value \<Rightarrow> prim_type \<Rightarrow> component_value option" where
  "val_cast fl v target =
     (if val_prim_type v = target then Some v
      else cast_array fl (val_shape v) (map elem_number (val_iter v)) target)"

end
