(* ===== verification/ValueCorrect.thy ===== *)
theory ValueCorrect
  imports Value
begin

text \<open>
  Strides are row-major, owned values keep what a view had, casts between integer types keep
  the numbers that fit, and zeros of a shape of several dimensions have the wrong length.
\<close>

text \<open>The float operations on integers, for concrete inputs.\<close>

definition int_floats :: float_ops where
  "int_floats = \<lparr>f32_add = (+), f64_add = (+), f32_div = (div), f64_div = (div), f32_of_int = word_of_int, f64_of_int = word_of_int,
     f32_clamp = \<lambda>lo hi x. max lo (min hi (sint x)), f64_clamp = \<lambda>lo hi x. max lo (min hi (uint x)),
     f32_of_f64 = ucast, f64_of_f32 = ucast\<rparr>"

section \<open>Strides\<close>

lemma strides_scan_append:
  "strides_scan acc (xs @ [y]) = strides_scan acc xs @ [if xs = [] then acc else (acc * prod_list xs) mod 2 ^ 64]"
proof (induction xs arbitrary: acc)
  case (Cons x xs)
  have "((acc * x) mod 2 ^ 64 * prod_list xs) mod 2 ^ 64 = (acc * (x * prod_list xs)) mod 2 ^ 64"
    by (simp add: mod_mult_left_eq mult.assoc)
  then show ?case using Cons.IH [of "(acc * x) mod 2 ^ 64"] by simp
qed simp

lemma calculate_strides_Cons: "calculate_strides (x # xs) = (prod_list xs mod 2 ^ 64) # calculate_strides xs"
  by (simp add: calculate_strides_def strides_scan_append)

lemma calculate_strides_Nil [simp]: "calculate_strides [] = []"
  by (simp add: calculate_strides_def)

text \<open>The row-major position: one digit per dimension.\<close>

fun row_major :: "nat list \<Rightarrow> nat list \<Rightarrow> nat" where
  "row_major (d # ds) (i # is) = i * prod_list ds + row_major ds is"
| "row_major _ _ = 0"

lemma row_major_less: "list_all2 (<) index shape \<Longrightarrow> row_major shape index < prod_list shape"
proof (induction index shape rule: list_all2_induct)
  case (Cons i "is" d ds)
  have "i * prod_list ds + row_major ds is < (i + 1) * prod_list ds" using Cons.IH by simp
  also have "\<dots> \<le> d * prod_list ds" using Cons.hyps(1) by (intro mult_le_mono1) simp
  finally show ?case by simp
qed simp

lemma strides_sum:
  "list_all2 (<) index shape \<Longrightarrow> prod_list shape < 2 ^ 64 \<Longrightarrow>
     sum_list (map2 (\<lambda>s i. (s * i) mod 2 ^ 64) (calculate_strides shape) index) = row_major shape index"
proof (induction index shape rule: list_all2_induct)
  case (Cons i "is" d ds)
  have lt: "i * prod_list ds + row_major ds is < d * prod_list ds" using row_major_less [of "i # is" "d # ds"] Cons.hyps by simp
  have le: "prod_list ds \<le> d * prod_list ds" using Cons.hyps(1) by (cases d) simp_all
  have dp: "d * prod_list ds < 2 ^ 64" using Cons.prems by simp
  have p: "prod_list ds < 2 ^ 64" "i * prod_list ds < 2 ^ 64"
    using le_less_trans [OF le dp] lt dp by simp_all
  then show ?case using Cons.IH by (simp add: calculate_strides_Cons mult.commute [of "prod_list ds" i])
qed simp



section \<open>Owned values\<close>

lemma to_dyn_owned_view: "to_dyn_owned v = Some a \<Longrightarrow> da_view a = v \<and> da_storage a = av_buf v \<and> da_shape a = av_shape v"
  by (auto simp: to_dyn_owned_def from_shape_vec_def da_view_def Let_def split: if_splits)

text \<open>Owning a view and viewing it again gives the view back, and type, shape, elements and
  bytes of the owned value are those of the view.\<close>

theorem from_view_roundtrip:
  assumes "from_view v = Some w"
  shows "as_view w = v \<and> val_prim_type w = cv_prim_type v \<and> val_shape w = cv_shape v \<and> val_as_bytes w = cv_as_bytes v \<and>
    val_iter w = cv_iter v \<and> val_get w i = cv_get v i"
  using assms by (cases v) (auto dest!: to_dyn_owned_view)


lemma da_default_length: "length (da_storage (da_default z dims)) = sum_list dims" "da_shape (da_default z dims) = dims"
  by (simp_all add: da_default_def)

lemma zeros_facts:
  "length (val_iter (val_zeros shape ty)) = sum_list shape" "val_shape (val_zeros shape ty) = shape"
  "val_prim_type (val_zeros shape ty) = ty"
  by (cases ty; simp add: da_default_length)+

lemma cast_array_None:
  "length xs \<noteq> (if shape = [] then 1 else prod_list shape mod 2 ^ 64) \<Longrightarrow> cast_array fl shape xs ty = None"
  by (cases ty) (auto simp: from_shape_vec_def Let_def)

text \<open>A zero value has as many elements as its dimensions add up to, not as they multiply:
  a scalar has none and a 2-by-3 array five, so that casting such a value panics.\<close>

theorem zeros_length_is_sum:
  assumes "sum_list shape \<noteq> (if shape = [] then 1 else prod_list shape mod 2 ^ 64)" "ty \<noteq> target"
  shows "length (val_iter (val_zeros shape ty)) = sum_list shape \<and> val_cast fl (val_zeros shape ty) target = None"
  using assms cast_array_None [of "map elem_number (val_iter (val_zeros shape ty))" shape fl target]
  by (simp add: val_cast_def zeros_facts)


section \<open>Casts\<close>

text \<open>The numbers an integer type holds.\<close>

fun int_fits :: "prim_type \<Rightarrow> int \<Rightarrow> bool" where
  "int_fits U8 n \<longleftrightarrow> 0 \<le> n \<and> n < 2 ^ 8" | "int_fits U16 n \<longleftrightarrow> 0 \<le> n \<and> n < 2 ^ 16"
| "int_fits U32 n \<longleftrightarrow> 0 \<le> n \<and> n < 2 ^ 32" | "int_fits U64 n \<longleftrightarrow> 0 \<le> n \<and> n < 2 ^ 64"
| "int_fits I8 n \<longleftrightarrow> - (2 ^ 7) \<le> n \<and> n < 2 ^ 7" | "int_fits I16 n \<longleftrightarrow> - (2 ^ 15) \<le> n \<and> n < 2 ^ 15"
| "int_fits I32 n \<longleftrightarrow> - (2 ^ 31) \<le> n \<and> n < 2 ^ 31" | "int_fits I64 n \<longleftrightarrow> - (2 ^ 63) \<le> n \<and> n < 2 ^ 63"
| "int_fits _ n \<longleftrightarrow> False"

lemma unsigned_fits: "0 \<le> n \<Longrightarrow> n < 2 ^ LENGTH('a) \<Longrightarrow> uint (num_to_unsigned fl (NInt n) :: 'a::len word) = n"
  by (simp add: num_to_unsigned_def uint_word_of_int)

lemma signed_fits:
  assumes "- (2 ^ (LENGTH('a) - 1)) \<le> n" "n < 2 ^ (LENGTH('a) - 1)"
  shows "sint (num_to_signed fl (NInt n) :: 'a::len word) = n"
proof -
  have "signed_take_bit (LENGTH('a) - Suc 0) n = n"
    using assms by (intro signed_take_bit_int_eq_self) simp_all
  then show ?thesis by (simp add: num_to_signed_def signed_of_int)
qed

lemma unsigned_numbers:
  "\<forall>x \<in> set xs. \<exists>n. x = NInt n \<and> 0 \<le> n \<and> n < 2 ^ LENGTH('a) \<Longrightarrow>
     map (\<lambda>x. elem_number (ev (num_to_unsigned fl x :: 'a::len word))) xs = xs"
  if "\<And>w. elem_number (ev w) = NInt (uint w)"
  by (auto simp: that unsigned_fits intro!: map_idI)

lemma signed_numbers:
  "\<forall>x \<in> set xs. \<exists>n. x = NInt n \<and> - (2 ^ (LENGTH('a) - 1)) \<le> n \<and> n < 2 ^ (LENGTH('a) - 1) \<Longrightarrow>
     map (\<lambda>x. elem_number (ev (num_to_signed fl x :: 'a::len word))) xs = xs"
  if "\<And>w. elem_number (ev w) = NInt (sint w)"
  using signed_fits by (fastforce simp: that intro!: map_idI)

lemma from_shape_vec_Some: "from_shape_vec s ys = Some a \<Longrightarrow> da_storage a = ys \<and> da_shape a = s"
  by (auto simp: from_shape_vec_def Let_def split: if_splits)

text \<open>Casting a value between types keeps its shape and, where the target is an integer type,
  every number that fits it.\<close>

theorem cast_keeps_fitting:
  assumes "val_cast fl v target = Some w" "\<forall>x \<in> set (val_iter v). \<exists>n. elem_number x = NInt n \<and> int_fits target n"
  shows "val_prim_type w = target \<and> val_shape w = val_shape v \<and> map elem_number (val_iter w) = map elem_number (val_iter v)"
proof (cases "val_prim_type v = target")
  case True
  then show ?thesis using assms(1) by (simp add: val_cast_def)
next
  case False
  define xs where "xs = map elem_number (val_iter v)"
  have xs: "\<forall>x \<in> set xs. \<exists>n. x = NInt n \<and> int_fits target n" using assms(2) by (auto simp: xs_def)
  have c: "cast_array fl (val_shape v) xs target = Some w" using assms(1) False by (simp add: val_cast_def xs_def)
  have "val_prim_type w = target \<and> val_shape w = val_shape v \<and> map elem_number (val_iter w) = xs"
  proof (cases target)
    case U8
    then show ?thesis using c xs unsigned_numbers [of EvU8 xs fl] by (auto dest!: from_shape_vec_Some simp: comp_def)
  next
    case U16
    then show ?thesis using c xs unsigned_numbers [of EvU16 xs fl] by (auto dest!: from_shape_vec_Some simp: comp_def)
  next
    case U32
    then show ?thesis using c xs unsigned_numbers [of EvU32 xs fl] by (auto dest!: from_shape_vec_Some simp: comp_def)
  next
    case U64
    then show ?thesis using c xs unsigned_numbers [of EvU64 xs fl] by (auto dest!: from_shape_vec_Some simp: comp_def)
  next
    case I8
    then show ?thesis using c xs signed_numbers [of EvI8 xs fl] by (auto dest!: from_shape_vec_Some simp: comp_def)
  next
    case I16
    then show ?thesis using c xs signed_numbers [of EvI16 xs fl] by (auto dest!: from_shape_vec_Some simp: comp_def)
  next
    case I32
    then show ?thesis using c xs signed_numbers [of EvI32 xs fl] by (auto dest!: from_shape_vec_Some simp: comp_def)
  next
    case I64
    then show ?thesis using c xs signed_numbers [of EvI64 xs fl] by (auto dest!: from_shape_vec_Some simp: comp_def)
  next
    case Bool
    then show ?thesis using c xs by (cases xs) (auto dest!: from_shape_vec_Some)
  next
    case F32
    then show ?thesis using c xs by (cases xs) (auto dest!: from_shape_vec_Some)
  next
    case F64
    then show ?thesis using c xs by (cases xs) (auto dest!: from_shape_vec_Some)
  qed
  then show ?thesis by (simp add: xs_def)
qed


text \<open>Through \<open>u8\<close> a number becomes true unless its low byte is zero.\<close>

lemma cast_bool_low_byte: "num_to_bool fl (NInt n) \<longleftrightarrow> n mod 256 \<noteq> 0"
proof -
  have "(word_of_int n :: 8 word) = 0 \<longleftrightarrow> uint (word_of_int n :: 8 word) = 0" by (simp add: uint_0_iff)
  also have "\<dots> \<longleftrightarrow> n mod 256 = 0" by (simp add: uint_word_of_int)
  finally show ?thesis by (simp add: num_to_bool_def num_to_unsigned_def)
qed

end
