(* ===== verification/VTableStream.thy ===== *)
theory VTableStream
  imports Database Value
begin

text \<open>
  Streaming a client's vtable (\<open>libs/db/src/vtable_stream.rs\<close>): each field becomes a plan of
  stages, a task fills the field's bytes of a shared packet and sets its bit; when all bits
  are set the packet is taken, sent, put back and the bits are cleared.  Atomic words are
  read and stored one at a time.  The identifiers of the two operator messages, the
  deserialisers and float arithmetic are parameters.  A panic is \<open>None\<close>.
\<close>

section \<open>The bit vector\<close>

record bit_vec =
  bv_store :: "64 word list"
  bv_size :: nat

definition bv_new :: "nat \<Rightarrow> bit_vec" where
  "bv_new n = \<lparr>bv_store = replicate ((n + 63) div 64) 0, bv_size = n\<rparr>"

text \<open>\<open>fetch_or\<close> with the shifted value.\<close>

definition bv_set :: "bit_vec \<Rightarrow> nat \<Rightarrow> bool \<Rightarrow> unit option \<times> bit_vec" where
  "bv_set v index val =
     (if bv_size v \<le> index then (None, v)
      else (let bt = index mod 64; wd = index div 64
            in case get_index (bv_store v) wd of
                 None \<Rightarrow> (None, v)
               | Some w \<Rightarrow> (Some (), v\<lparr>bv_store := (bv_store v)[wd := w OR push_bit bt (of_bool val)]\<rparr>)))"

definition bv_get :: "bit_vec \<Rightarrow> nat \<Rightarrow> bool option" where
  "bv_get v index =
     (if bv_size v \<le> index then None
      else map_option (\<lambda>w. w AND push_bit (index mod 64) 1 \<noteq> 0) (get_index (bv_store v) (index div 64)))"

definition count_ones :: "64 word \<Rightarrow> nat" where
  "count_ones w = length (filter (bit w) [0..<64])"

definition bv_all_set :: "bit_vec \<Rightarrow> bool" where
  "bv_all_set v \<longleftrightarrow> bv_size v \<le> sum_list (map count_ones (bv_store v))"

definition bv_set_all :: "bit_vec \<Rightarrow> bool \<Rightarrow> bit_vec" where
  "bv_set_all v val = v\<lparr>bv_store := map (\<lambda>_. if val then - 1 else 0) (bv_store v)\<rparr>"

section \<open>The shared packet\<close>

text \<open>The bytes a stream's table needs: the ends of its fields and of its table operations.\<close>

fun op_end :: "op \<Rightarrow> nat" where
  "op_end (OpTable off len) = unat off + unat len"
| "op_end _ = 0"

definition table_len :: "vtable \<Rightarrow> nat" where
  "table_len vt = fold max (map (\<lambda>f. unat (vf_offset f) + unat (vf_len f)) (vt_fields vt) @ map op_end (vt_ops vt)) 0"

text \<open>\<open>FieldTable::new\<close>: a table packet of zeros.\<close>

definition field_table_new :: "nat \<Rightarrow> packet_id \<Rightarrow> len_packet option" where
  "field_table_new len id' = lp_push_zeros len (lp_table id')"

text \<open>The range of a field in the packet, behind the header.\<close>

definition field_range :: "nat \<times> nat \<Rightarrow> nat \<times> nat" where
  "field_range rng = (fst rng + (packet_header_len + 4), snd rng + (packet_header_len + 4))"

text \<open>
  \<open>with_buf\<close> with \<open>copy_from_slice\<close>: panics when the packet was taken, when the range is out of
  bounds and when the lengths differ.
\<close>

definition with_buf :: "len_packet option \<Rightarrow> nat \<times> nat \<Rightarrow> byte list option" where
  "with_buf table rng = Option.bind table (\<lambda>p. get_range p (fst rng) (snd rng))"

definition copy_into :: "len_packet option \<Rightarrow> nat \<times> nat \<Rightarrow> byte list \<Rightarrow> len_packet option" where
  "copy_into table rng bs =
     (case with_buf table rng of
        None \<Rightarrow> None
      | Some old \<Rightarrow> if length bs = length old then map_option (splice (fst rng) bs) table else None)"

section \<open>Stages\<close>

record mean_stage =
  mn_window :: "16 word"
  mn_acc :: "component_value option"
  mn_count :: "16 word"

definition mean_new :: "16 word \<Rightarrow> mean_stage" where
  "mean_new window = \<lparr>mn_window = window, mn_acc = None, mn_count = 0\<rparr>"

text \<open>
  One value of the field goes into the mean; when the window is full the mean replaces the
  field's bytes.  \<open>f\<close> is the field's slice of the packet.  The count overflows in the code's
  debug build only.
\<close>

definition mean_next :: "float_ops \<Rightarrow> caster \<Rightarrow> mean_stage \<Rightarrow> prim_type \<Rightarrow> aslice \<Rightarrow> (bool \<times> mean_stage \<times> byte list) option" where
  "mean_next fl zc m ty f =
     (let len = length (snd f) div prim_size ty
      in case try_from_bytes_shape zc f [len] ty of
           Some (Inr view) \<Rightarrow>
             Option.bind (add_view fl (case mn_acc m of None \<Rightarrow> val_zeros [len] ty | Some a \<Rightarrow> a) view) (\<lambda>acc.
               (let count = mn_count m + 1
                in if mn_window m \<le> count
                   then Option.bind (val_div fl acc (f64_of_int fl (uint count))) (\<lambda>acc.
                     if length (val_as_bytes acc) = length (snd f)
                     then Some (True, m\<lparr>mn_acc := Some (fill_zeros acc), mn_count := 0\<rparr>, val_as_bytes acc)
                     else None)
                   else Some (count = 0, m\<lparr>mn_acc := Some acc, mn_count := count\<rparr>, snd f)))
         | _ \<Rightarrow> None)"

text \<open>A field of the stream: where its bytes and those of its timestamp are.\<close>

definition write_sample :: "len_packet option \<Rightarrow> nat \<times> nat \<Rightarrow> (nat \<times> nat) option \<Rightarrow> int \<Rightarrow> byte list \<Rightarrow> len_packet option" where
  "write_sample table shard ts_shard t d =
     Option.bind (copy_into table shard d) (\<lambda>p.
       (case ts_shard of None \<Rightarrow> Some p | Some rng \<Rightarrow> copy_into (Some p) rng (i64_to_le t)))"

text \<open>
  The real-time stage reads one message from the front of a grant of the component's ring,
  and drops the grant.
\<close>

definition real_time_next :: "cschema \<Rightarrow> byte list \<Rightarrow> len_packet option \<Rightarrow> nat \<times> nat \<Rightarrow> (nat \<times> nat) option \<Rightarrow>
    ((db_error + bool) \<times> len_packet option) option" where
  "real_time_next sch buf table shard ts_shard =
     (case get_range buf 0 (cs_size sch + 8) of
        None \<Rightarrow> Some (Inr False, table)
      | Some msg \<Rightarrow>
          (case get_range msg 0 8 of
             None \<Rightarrow> Some (Inl BadMessage, table)
           | Some t \<Rightarrow> map_option (\<lambda>p. (Inr True, Some p)) (write_sample table shard ts_shard (i64_of_le t) (drop 8 msg))))"

text \<open>The fixed-rate stage, once the stream plays: the sample nearest to the current tick.\<close>

definition fixed_rate_next :: "time_series \<Rightarrow> stream_state \<Rightarrow> len_packet option \<Rightarrow> nat \<times> nat \<Rightarrow> (nat \<times> nat) option \<Rightarrow>
    (bool \<times> len_packet option \<times> stream_state) option" where
  "fixed_rate_next series s table shard ts_shard =
     (case binary_search_nearest series (fr_tick s) True of
        None \<Rightarrow> None
      | Some None \<Rightarrow> Some (True, table, s)
      | Some (Some r) \<Rightarrow>
          Option.bind (ref_data series r) (\<lambda>d.
            map_option (\<lambda>p. (True, Some p, fr_try_increment_tick s (fr_tick s)))
              (write_sample table shard ts_shard (tr_timestamp r) d)))"

section \<open>Plans\<close>

datatype stage =
    RealTime nat component
  | FixedRate component u64
  | Mean mean_stage

fun as_component :: "stage \<Rightarrow> component option" where
  "as_component (RealTime _ c) = Some c"
| "as_component (FixedRate c _) = Some c"
| "as_component (Mean _) = None"

text \<open>What a plan needs besides the database: message identifiers and deserialisers.\<close>

record fixed_rate_op =
  fo_stream :: u64
  fo_initial :: initial_timestamp
  fo_timestep :: nat
  fo_frequency :: nat

record plan_env =
  mean_op_id :: packet_id
  fixed_rate_id :: packet_id
  dec_mean :: "byte list \<Rightarrow> nat + 16 word"
  dec_fixed :: "byte list \<Rightarrow> nat + fixed_rate_op"

definition db_put_component :: "'m db \<Rightarrow> u64 \<Rightarrow> component \<Rightarrow> 'm db" where
  "db_put_component d cid c = d\<lparr>db_st := (db_st d)\<lparr>st_components := (st_components (db_st d))(cid \<mapsto> c)\<rparr>\<rparr>"

text \<open>
  The loop that walks a field's operations, at most \<open>n\<close> times: the outermost stage is added
  last.  A real-time stage registers a reader with the component's ring.
\<close>

fun find_plan :: "nat \<Rightarrow> plan_env \<Rightarrow> caster \<Rightarrow> nat \<Rightarrow> vtable \<Rightarrow> realized_op \<Rightarrow> stage list \<Rightarrow> (nat \<times> nat) option \<Rightarrow>
    (nat list \<times> prim_type) option \<Rightarrow> 'm db \<Rightarrow>
    ((db_error + (stage list \<times> (nat \<times> nat) option \<times> (nat list \<times> prim_type) option)) \<times> 'm db) option" where
  "find_plan 0 env zc base vt rop plan ts sch d = Some (Inr (plan, ts, sch), d)"
| "find_plan (Suc n) env zc base vt rop plan ts sch d =
     (let go = (\<lambda>arg plan ts sch. (case realize zc base vt arg None of
                  None \<Rightarrow> None
                | Some (Inl e) \<Rightarrow> Some (Inl (Impeller e), d)
                | Some (Inr rop) \<Rightarrow> find_plan n env zc base vt rop plan ts sch d))
      in case rop of
           RComponent cid \<Rightarrow>
             (case st_components (db_st d) cid of
                None \<Rightarrow> Some (Inl (ComponentNotFound cid), d)
              | Some c \<Rightarrow>
                  (let (r, wal) = reader_new (co_wal c); c' = c\<lparr>co_wal := wal\<rparr>
                   in Some (Inr (RealTime r c' # plan, ts, sch), db_put_component d cid c')))
         | RSchema dim ty arg \<Rightarrow> go arg plan ts (Some (dims_of (snd dim), ty))
         | RTimestamp _ rng arg \<Rightarrow> go arg plan (case rng of None \<Rightarrow> ts | Some r \<Rightarrow> Some r) sch
         | RExt i data arg \<Rightarrow>
             if i = mean_op_id env
             then (case dec_mean env (snd data) of
                     Inl e \<Rightarrow> Some (Inl (DbPostcard e), d)
                   | Inr window \<Rightarrow> go arg (plan @ [Mean (mean_new window)]) ts sch)
             else if i = fixed_rate_id env
             then (case dec_fixed env (snd data) of
                     Inl e \<Rightarrow> Some (Inl (DbPostcard e), d)
                   | Inr f \<Rightarrow>
                       (case realize zc base vt arg None of
                          None \<Rightarrow> None
                        | Some (Inl e) \<Rightarrow> Some (Inl (Impeller e), d)
                        | Some (Inr (RComponent cid)) \<Rightarrow>
                            (case st_components (db_st d) cid of
                               None \<Rightarrow> Some (Inl (ComponentNotFound cid), d)
                             | Some c \<Rightarrow>
                                 (let (s, d') = get_or_insert_fixed_rate d (fo_stream f) (fo_initial f) (fo_timestep f) (fo_frequency f)
                                  in Some (Inr (FixedRate c (fr_id s) # plan, ts, sch), d')))
                        | Some (Inr _) \<Rightarrow> Some (Inl (Impeller InvalidOp), d)))
             else Some (Inl (Impeller InvalidOp), d)
         | _ \<Rightarrow> Some (Inl (Impeller InvalidOp), d))"

record plan =
  pl_index :: nat
  pl_stages :: "stage list"
  pl_shard :: "nat \<times> nat"
  pl_ts_shard :: "(nat \<times> nat) option"
  pl_prim_type :: prim_type

text \<open>The checks of a field once its stages are known.\<close>

definition check_plan :: "nat \<Rightarrow> vfield \<Rightarrow> stage list \<Rightarrow> (nat \<times> nat) option \<Rightarrow> (nat list \<times> prim_type) option \<Rightarrow> db_error + plan" where
  "check_plan i f stages ts sch =
     (case (case stages of [] \<Rightarrow> None | s # _ \<Rightarrow> as_component s) of
        None \<Rightarrow> Inl (Impeller InvalidOp)
      | Some c \<Rightarrow>
          if (case sch of None \<Rightarrow> False
              | Some (shape, ty) \<Rightarrow> map unat (cs_shape (co_schema c)) \<noteq> shape \<or> cs_prim_type (co_schema c) \<noteq> ty)
          then Inl (Impeller InvalidOp)
          else if cs_size (co_schema c) \<noteq> unat (vf_len f) then Inl (Impeller InvalidOp)
          else Inr \<lparr>pl_index = i, pl_stages = stages,
                    pl_shard = field_range (unat (vf_offset f), unat (vf_offset f) + unat (vf_len f)),
                    pl_ts_shard = map_option field_range ts, pl_prim_type = cs_prim_type (co_schema c)\<rparr>)"

text \<open>
  The loop over the fields: every plan is spawned as soon as it is made, so the plans made
  before an error keep running.
\<close>

fun spawn_plans :: "plan_env \<Rightarrow> caster \<Rightarrow> nat \<Rightarrow> vtable \<Rightarrow> vfield list \<Rightarrow> nat \<Rightarrow> plan list \<Rightarrow> 'm db \<Rightarrow>
    ((db_error + unit) \<times> plan list \<times> 'm db) option" where
  "spawn_plans env zc base vt [] i plans d = Some (Inr (), plans, d)"
| "spawn_plans env zc base vt (f # fs) i plans d =
     (case realize zc base vt (vf_arg f) None of
        None \<Rightarrow> None
      | Some (Inl e) \<Rightarrow> Some (Inl (Impeller e), plans, d)
      | Some (Inr rop) \<Rightarrow>
          (case find_plan 65535 env zc base vt rop [] None None d of
             None \<Rightarrow> None
           | Some (Inl e, d) \<Rightarrow> Some (Inl e, plans, d)
           | Some (Inr (stages, ts, sch), d) \<Rightarrow>
               (case check_plan i f stages ts sch of
                  Inl e \<Rightarrow> Some (Inl e, plans, d)
                | Inr p \<Rightarrow> spawn_plans env zc base vt fs (i + 1) (plans @ [p]) d)))"

definition vtable_stream_open :: "plan_env \<Rightarrow> caster \<Rightarrow> nat \<Rightarrow> packet_id \<Rightarrow> vtable \<Rightarrow> 'm db \<Rightarrow>
    ((db_error + unit) \<times> plan list \<times> len_packet option \<times> bit_vec \<times> 'm db) option" where
  "vtable_stream_open env zc base id' vt d =
     map_option (\<lambda>(r, plans, d). (r, plans, field_table_new (table_len vt) id', bv_new (length (vt_fields vt)), d))
       (spawn_plans env zc base vt (vt_fields vt) 0 [] d)"

section \<open>The tasks\<close>

text \<open>
  The sending task: it scans the words of the bit vector, adding up their set bits, until
  they reach the size; it takes the packet, sends it, puts it back and clears the words.  A
  plan waits for its bit to be clear, runs its stages, sets its bit if they all finished, and
  ends at an error.  A failed send ends the sending task, not the plans.
\<close>

datatype sender = Scan nat nat | Take | Sending len_packet | Clear nat | Closed

datatype runner = Wait | Run | Ended

record vstream =
  vs_table :: "len_packet option"
  vs_bits :: bit_vec
  vs_sender :: sender
  vs_runner :: "nat \<Rightarrow> runner"
  vs_sent :: "len_packet list"

definition vs_init :: "len_packet \<Rightarrow> nat \<Rightarrow> vstream" where
  "vs_init p n = \<lparr>vs_table = Some p, vs_bits = bv_new n, vs_sender = Scan 0 0, vs_runner = (\<lambda>_. Wait), vs_sent = []\<rparr>"

inductive vs_step :: "vstream \<Rightarrow> vstream \<Rightarrow> bool" where
  plan_start: "vs_runner s i = Wait \<Longrightarrow> bv_get (vs_bits s) i = Some False \<Longrightarrow>
     vs_step s (s\<lparr>vs_runner := (vs_runner s)(i := Run)\<rparr>)"
| plan_write: "vs_runner s i = Run \<Longrightarrow> copy_into (vs_table s) rng bs = Some p \<Longrightarrow> vs_step s (s\<lparr>vs_table := Some p\<rparr>)"
| plan_written: "vs_runner s i = Run \<Longrightarrow>
     vs_step s (s\<lparr>vs_bits := snd (bv_set (vs_bits s) i True), vs_runner := (vs_runner s)(i := Wait)\<rparr>)"
| plan_unfinished: "vs_runner s i = Run \<Longrightarrow> vs_step s (s\<lparr>vs_runner := (vs_runner s)(i := Wait)\<rparr>)"
| plan_error: "vs_runner s i = Run \<Longrightarrow> vs_step s (s\<lparr>vs_runner := (vs_runner s)(i := Ended)\<rparr>)"
| scan_word: "vs_sender s = Scan j acc \<Longrightarrow> get_index (bv_store (vs_bits s)) j = Some w \<Longrightarrow>
     vs_step s (s\<lparr>vs_sender := Scan (j + 1) (acc + count_ones w)\<rparr>)"
| scan_done: "vs_sender s = Scan (length (bv_store (vs_bits s))) acc \<Longrightarrow>
     vs_step s (s\<lparr>vs_sender := (if bv_size (vs_bits s) \<le> acc then Take else Scan 0 0)\<rparr>)"
| take_table: "vs_sender s = Take \<Longrightarrow> vs_table s = Some p \<Longrightarrow> vs_step s (s\<lparr>vs_table := None, vs_sender := Sending p\<rparr>)"
| replace_table: "vs_sender s = Sending p \<Longrightarrow>
     vs_step s (s\<lparr>vs_table := Some p, vs_sender := Clear 0, vs_sent := vs_sent s @ [p]\<rparr>)"
| send_error: "vs_sender s = Sending p \<Longrightarrow> vs_step s (s\<lparr>vs_sender := Closed\<rparr>)"
| clear_word: "vs_sender s = Clear j \<Longrightarrow> j < length (bv_store (vs_bits s)) \<Longrightarrow>
     vs_step s (s\<lparr>vs_bits := (vs_bits s)\<lparr>bv_store := (bv_store (vs_bits s))[j := 0]\<rparr>, vs_sender := Clear (j + 1)\<rparr>)"
| clear_done: "vs_sender s = Clear (length (bv_store (vs_bits s))) \<Longrightarrow> vs_step s (s\<lparr>vs_sender := Scan 0 0\<rparr>)"

text \<open>The panics: a plan that finds no packet, a sender that finds none.\<close>

definition vs_panics :: "vstream \<Rightarrow> bool" where
  "vs_panics s \<longleftrightarrow> ((\<exists>i. vs_runner s i = Run) \<or> vs_sender s = Take) \<and> vs_table s = None"

definition vs_reach :: "len_packet \<Rightarrow> nat \<Rightarrow> vstream \<Rightarrow> bool" where
  "vs_reach p n s \<longleftrightarrow> vs_step\<^sup>*\<^sup>* (vs_init p n) s"

end
