(* ===== verification/VTableStreamCorrect.thy ===== *)
theory VTableStreamCorrect
  imports VTableStream ComponentRun DatabaseCorrect
begin

text \<open>
  The bit vector is full exactly when every bit is set; the packet is only taken when no plan
  runs, so no task finds it missing; a stream that ends leaves its plans waiting for ever, and
  with them the readers that hold up the components' rings; what the mean stage computes.
\<close>

section \<open>The bit vector\<close>

definition word_bits :: "64 word \<Rightarrow> bool list" where
  "word_bits w = map (bit w) [0..<64]"

lemma word_bits_facts:
  "length (word_bits w) = 64" "i < 64 \<Longrightarrow> word_bits w ! i = bit w i" "count_ones w = length (filter (\<lambda>x. x) (word_bits w))"
proof -
  have "length (filter (\<lambda>x. x) (map f xs)) = length (filter f xs)" for f :: "nat \<Rightarrow> bool" and xs by (induction xs) simp_all
  then show "count_ones w = length (filter (\<lambda>x. x) (word_bits w))" unfolding word_bits_def count_ones_def by (rule sym)
qed (simp_all add: word_bits_def del: upt_Suc)

definition bits_of :: "64 word list \<Rightarrow> bool list" where
  "bits_of ws = concat (map word_bits ws)"

lemma bits_of_simps [simp]: "bits_of [] = []" "bits_of (w # ws) = word_bits w @ bits_of ws" "length (bits_of ws) = 64 * length ws"
proof -
  show "bits_of [] = []" "bits_of (w # ws) = word_bits w @ bits_of ws" for w ws by (simp_all add: bits_of_def)
  then show "length (bits_of ws) = 64 * length ws" by (induction ws) (simp_all add: word_bits_facts(1))
qed

lemma bits_of_nth: "i < 64 * length ws \<Longrightarrow> bits_of ws ! i = bit (ws ! (i div 64)) (i mod 64)"
proof (induction ws arbitrary: i)
  case (Cons w ws)
  show ?case
  proof (cases "i < 64")
    case True
    then show ?thesis by (simp add: nth_append word_bits_facts)
  next
    case False
    then have d: "i div 64 = Suc ((i - 64) div 64)" "(i - 64) mod 64 = i mod 64" using le_div_geq [of 64 i] le_mod_geq [of 64 i] by simp_all
    have "bits_of (w # ws) ! i = bits_of ws ! (i - 64)" using False by (simp only: bits_of_simps nth_append word_bits_facts(1) if_False)
    also have "\<dots> = bit (ws ! ((i - 64) div 64)) ((i - 64) mod 64)" using Cons.IH [of "i - 64"] Cons.prems False by simp
    also have "ws ! ((i - 64) div 64) = (w # ws) ! (i div 64)" by (simp only: d(1) nth_Cons_Suc)
    finally show ?thesis by (simp only: d(2))
  qed
qed simp

lemma count_bits: "sum_list (map count_ones ws) = length (filter (\<lambda>x. x) (bits_of ws))"
  by (induction ws) (simp_all add: word_bits_facts(3))

lemma filter_all: "length xs \<le> length (filter (\<lambda>x. x) xs) \<Longrightarrow> i < length xs \<Longrightarrow> xs ! i"
proof (rule ccontr)
  assume a: "length xs \<le> length (filter (\<lambda>x. x) xs)" "i < length xs" "\<not> xs ! i"
  then have "length (filter (\<lambda>x. x) xs) < length xs" by (intro length_filter_less [of "xs ! i"] nth_mem) simp_all
  then show False using a(1) by simp
qed

text \<open>Stray bits would be counted; there are none.\<close>

definition bv_ok :: "bit_vec \<Rightarrow> bool" where
  "bv_ok v \<longleftrightarrow> length (bv_store v) = (bv_size v + 63) div 64 \<and>
     (\<forall>i < 64 * length (bv_store v). bits_of (bv_store v) ! i \<longrightarrow> i < bv_size v)"

lemma bv_get_bit: "bv_ok v \<Longrightarrow> i < bv_size v \<Longrightarrow> bv_get v i = Some (bits_of (bv_store v) ! i)"
proof -
  assume v: "bv_ok v" "i < bv_size v"
  then have l: "i div 64 < length (bv_store v)" unfolding bv_ok_def by linarith
  then have "i < 64 * length (bv_store v)" by linarith
  then show ?thesis using v l bits_of_nth
    by (simp add: bv_get_def get_index_def bit_iff_and_push_bit_not_eq_0)
qed

lemma count_le_size: "bv_ok v \<Longrightarrow> filter (\<lambda>x. x) (bits_of (bv_store v)) = filter (\<lambda>x. x) (take (bv_size v) (bits_of (bv_store v)))"
proof -
  assume v: "bv_ok v"
  let ?bs = "bits_of (bv_store v)"
  have "\<not> x" if x: "x \<in> set (drop (bv_size v) ?bs)" for x
  proof -
    from x obtain k where k: "k < length ?bs - bv_size v" "x = ?bs ! (bv_size v + k)" by (auto simp: in_set_conv_nth)
    then show ?thesis using v unfolding bv_ok_def by (metis bits_of_simps(3) less_diff_conv add.commute not_add_less1)
  qed
  then have "filter (\<lambda>x. x) (drop (bv_size v) ?bs) = []" unfolding filter_empty_conv by blast
  then show ?thesis by (metis append_Nil2 append_take_drop_id filter_append)
qed

lemma bv_all_set_bits: "bv_ok v \<Longrightarrow> bv_all_set v \<longleftrightarrow> (\<forall>i < bv_size v. bv_get v i = Some True)"
proof -
  assume v: "bv_ok v"
  let ?bs = "bits_of (bv_store v)" and ?n = "bv_size v"
  have l: "?n \<le> length ?bs" using v unfolding bv_ok_def by simp
  have c: "sum_list (map count_ones (bv_store v)) = length (filter (\<lambda>x. x) (take ?n ?bs))" using count_le_size [OF v] count_bits by metis
  show ?thesis
  proof
    assume "bv_all_set v"
    then have "length (take ?n ?bs) \<le> length (filter (\<lambda>x. x) (take ?n ?bs))" using l c by (simp add: bv_all_set_def)
    then have "?bs ! i" if "i < ?n" for i using filter_all [of "take ?n ?bs" i] that l by simp
    then show "\<forall>i < ?n. bv_get v i = Some True" using bv_get_bit [OF v] by simp
  next
    assume "\<forall>i < ?n. bv_get v i = Some True"
    then have "\<forall>x \<in> set (take ?n ?bs). x" using bv_get_bit [OF v] l by (auto simp: in_set_conv_nth)
    then have "filter (\<lambda>x. x) (take ?n ?bs) = take ?n ?bs" by (simp add: filter_id_conv)
    then show "bv_all_set v" using c l by (simp add: bv_all_set_def)
  qed
qed

lemma bits_of_update:
  "wd < length ws \<Longrightarrow> i < 64 * length ws \<Longrightarrow>
     bits_of (ws[wd := w]) ! i = (if i div 64 = wd then bit w (i mod 64) else bits_of ws ! i)"
  by (simp add: bits_of_nth nth_list_update)

lemma bv_set_bits:
  assumes "bv_ok v" "i < bv_size v"
  shows "fst (bv_set v i b) = Some () \<and> bv_ok (snd (bv_set v i b)) \<and> bv_size (snd (bv_set v i b)) = bv_size v \<and>
    length (bv_store (snd (bv_set v i b))) = length (bv_store v) \<and>
    (\<forall>k < 64 * length (bv_store v). bits_of (bv_store (snd (bv_set v i b))) ! k = (bits_of (bv_store v) ! k \<or> b \<and> k = i))"
proof -
  let ?wd = "i div 64" and ?ws = "bv_store v"
  have l: "?wd < length ?ws" using assms unfolding bv_ok_def by linarith
  let ?w = "?ws ! ?wd OR push_bit (i mod 64) (of_bool b)"
  have s: "bv_set v i b = (Some (), v\<lparr>bv_store := ?ws[?wd := ?w]\<rparr>)"
    using assms(2) l by (simp add: bv_set_def get_index_def Let_def)
  have bits: "bits_of (?ws[?wd := ?w]) ! k = (bits_of ?ws ! k \<or> b \<and> k = i)" if k: "k < 64 * length ?ws" for k
  proof (cases "k div 64 = ?wd")
    case True
    have "bit ?w (k mod 64) \<longleftrightarrow> bit (?ws ! ?wd) (k mod 64) \<or> b \<and> k mod 64 = i mod 64"
      by (cases b) (auto simp: bit_simps)
    moreover have "k mod 64 = i mod 64 \<longleftrightarrow> k = i" using True by (metis div_mult_mod_eq)
    ultimately show ?thesis using bits_of_update [OF l k] True bits_of_nth [OF k] by simp
  next
    case False
    then show ?thesis using bits_of_update [OF l k] by auto
  qed
  then have "bv_ok (v\<lparr>bv_store := ?ws[?wd := ?w]\<rparr>)" using assms by (auto simp: bv_ok_def)
  then show ?thesis using s bits by simp
qed

text \<open>The updates of a bit vector made by \<open>new\<close>: \<open>set\<close> and \<open>set_all(false)\<close>.\<close>

datatype bv_op = SetBit nat bool | ClearAll

fun bv_apply :: "bv_op \<Rightarrow> bit_vec \<Rightarrow> bit_vec" where
  "bv_apply (SetBit i b) v = snd (bv_set v i b)"
| "bv_apply ClearAll v = bv_set_all v False"

lemma bv_new_ok: "bv_ok (bv_new n)"
  by (auto simp: bv_ok_def bv_new_def bits_of_nth)

lemma bv_apply_ok: "bv_ok v \<Longrightarrow> bv_ok (bv_apply p v) \<and> bv_size (bv_apply p v) = bv_size v"
proof (cases p)
  case (SetBit i b)
  assume v: "bv_ok v"
  show ?thesis
  proof (cases "i < bv_size v")
    case True
    then show ?thesis using bv_set_bits [OF v True] SetBit by simp
  next
    case False
    then show ?thesis using v SetBit by (simp add: bv_set_def)
  qed
next
  case ClearAll
  assume v: "bv_ok v"
  then show ?thesis using ClearAll by (auto simp: bv_ok_def bv_set_all_def bits_of_nth)
qed

text \<open>The packet is full exactly when every field's bit is set: in a bit vector made by \<open>new\<close>
  and changed by \<open>set\<close> and by \<open>set_all(false)\<close>, the sum of the words' population counts
  reaches the size if and only if every bit reads as set.\<close>

theorem all_set_iff:
  "bv_all_set (fold bv_apply ops (bv_new n)) \<longleftrightarrow> (\<forall>i < n. bv_get (fold bv_apply ops (bv_new n)) i = Some True)"
proof -
  have "bv_ok v \<Longrightarrow> bv_ok (fold bv_apply ops v) \<and> bv_size (fold bv_apply ops v) = bv_size v" for v
    by (induction ops arbitrary: v) (simp_all add: bv_apply_ok)
  from this [OF bv_new_ok, of n] have "bv_ok (fold bv_apply ops (bv_new n))" "bv_size (fold bv_apply ops (bv_new n)) = n"
    by (simp_all add: bv_new_def)
  then show ?thesis using bv_all_set_bits by metis
qed


section \<open>The packet holds every range\<close>

lemma fold_max_ge: "x \<in> set xs \<Longrightarrow> x \<le> fold max xs (a :: nat)" "a \<le> fold max xs (a :: nat)"
proof -
  show ge: "a \<le> fold max xs a" for a :: nat and xs
  proof (induction xs arbitrary: a)
    case (Cons x xs)
    have "a \<le> max x a" by simp
    also have "\<dots> \<le> fold max xs (max x a)" by (rule Cons.IH)
    finally show ?case by simp
  qed simp
  show "x \<in> set xs \<Longrightarrow> x \<le> fold max xs a"
  proof (induction xs arbitrary: a)
    case (Cons y ys)
    show ?case
    proof (cases "x = y")
      case True
      have "x \<le> max y a" using True by simp
      also have "\<dots> \<le> fold max ys (max y a)" by (rule ge)
      finally show ?thesis by simp
    next
      case False
      then show ?thesis using Cons by simp
    qed
  qed simp
qed

lemma table_len_field: "f \<in> set (vt_fields vt) \<Longrightarrow> unat (vf_offset f) + unat (vf_len f) \<le> table_len vt"
  unfolding table_len_def by (intro fold_max_ge(1)) auto

lemma table_len_op: "o' \<in> set (vt_ops vt) \<Longrightarrow> op_end o' \<le> table_len vt"
  unfolding table_len_def by (intro fold_max_ge(1)) auto

lemma get_op_mem: "get_op vt r = Inr o' \<Longrightarrow> o' \<in> set (vt_ops vt)"
  by (auto simp: get_op_def ok_or_def get_index_def split: option.splits if_splits)

lemma realize_parts:
  "realize_timestamp zc v a = Inr x \<Longrightarrow> \<exists>t. x = RTimestamp t (as_table_range v) a"
  "realize_schema zc ty w a = Inr x \<Longrightarrow> \<exists>d. x = RSchema d ty a"
proof -
  show "realize_timestamp zc v a = Inr x \<Longrightarrow> \<exists>t. x = RTimestamp t (as_table_range v) a"
  proof (cases "as_slice v")
    case (Some d)
    then show "realize_timestamp zc v a = Inr x \<Longrightarrow> ?thesis" by (cases "zc (ReadOne 8) d") (auto simp: realize_timestamp_def)
  qed (auto simp: realize_timestamp_def)
  show "realize_schema zc ty w a = Inr x \<Longrightarrow> \<exists>d. x = RSchema d ty a"
  proof (cases "as_slice w")
    case (Some d)
    then show "realize_schema zc ty w a = Inr x \<Longrightarrow> ?thesis" by (cases "zc (SliceOf 8 8) d") (auto simp: realize_schema_def)
  qed (auto simp: realize_schema_def)
qed

lemma realized_table_range:
  assumes "realize zc base vt r None = Some (Inr (RTable s rng))"
  shows "fst rng \<le> snd rng \<and> snd rng \<le> table_len vt"
proof -
  from realize_Inr [OF assms] obtain o' where o: "get_op vt r = Inr o'" "realized_from (\<lambda>s. realize zc base vt s None) zc base vt None o' (RTable s rng)"
    by blast
  then obtain off len where "o' = OpTable off len" "rng = (unat off, unat off + unat len)"
    by (cases o') (auto simp: realized_from_def realize_data_def realize_table_def dest!: realize_parts split: option.splits)
  then show ?thesis using table_len_op [OF get_op_mem [OF o(1)]] by simp
qed

lemma realized_timestamp_range:
  assumes "realize zc base vt r None = Some (Inr (RTimestamp t (Some rng) a))"
  shows "fst rng \<le> snd rng \<and> snd rng \<le> table_len vt"
proof -
  from realize_Inr [OF assms] obtain o' where
    o: "realized_from (\<lambda>s. realize zc base vt s None) zc base vt None o' (RTimestamp t (Some rng) a)" by blast
  then obtain src v where v: "realize zc base vt src None = Some (Inr v)" "as_table_range v = Some rng"
    by (cases o') (auto simp: realized_from_def realize_data_def realize_table_def dest!: realize_parts split: option.splits)
  then show ?thesis using realized_table_range by (cases v) auto
qed

lemma find_plan_range:
  assumes "find_plan n env zc base vt rop plan ts sch d = Some (Inr (plan', ts', sch'), d')"
    and "\<And>rng. ts = Some rng \<Longrightarrow> fst rng \<le> snd rng \<and> snd rng \<le> table_len vt"
    and "\<And>t rng a. rop = RTimestamp t (Some rng) a \<Longrightarrow> fst rng \<le> snd rng \<and> snd rng \<le> table_len vt"
  shows "ts' = Some rng \<Longrightarrow> fst rng \<le> snd rng \<and> snd rng \<le> table_len vt"
  using assms
proof (induction n arbitrary: rop plan ts sch)
  case (Suc n)
  have go: ?case
    if g: "(case realize zc base vt arg None of None \<Rightarrow> None | Some (Inl e) \<Rightarrow> Some (Inl (Impeller e), d)
        | Some (Inr rop) \<Rightarrow> find_plan n env zc base vt rop p t s d) = Some (Inr (plan', ts', sch'), d')"
      and t: "\<And>rng. t = Some rng \<Longrightarrow> fst rng \<le> snd rng \<and> snd rng \<le> table_len vt" for arg p t s
  proof -
    obtain rop' where r: "realize zc base vt arg None = Some (Inr rop')" "find_plan n env zc base vt rop' p t s d = Some (Inr (plan', ts', sch'), d')"
      using g by (auto split: option.splits sum.splits)
    show ?thesis by (rule Suc.IH [OF Suc.prems(1) r(2) t]) (use r(1) realized_timestamp_range in auto)
  qed
  show ?case
  proof (cases rop)
    case (RSchema dim ty arg)
    show ?thesis by (rule go [where arg = arg and p = plan and t = ts and s = "Some (dims_of (snd dim), ty)"]) (use Suc.prems(2,3) RSchema in auto)
  next
    case (RTimestamp u r arg)
    show ?thesis by (rule go [where arg = arg and p = plan and t = "case r of None \<Rightarrow> ts | Some r \<Rightarrow> Some r" and s = sch])
      (use Suc.prems(2-4) RTimestamp in \<open>auto split: option.splits\<close>)
  next
    case (RExt i data arg)
    show ?thesis
    proof (cases "i = mean_op_id env")
      case True
      then obtain w where "dec_mean env (snd data) = Inr w" using Suc.prems(2) RExt by (auto split: sum.splits)
      then show ?thesis using Suc.prems(2,3) RExt True by (intro go [where arg = arg and p = "plan @ [Mean (mean_new w)]" and t = ts and s = sch]) auto
    next
      case False
      then show ?thesis using Suc.prems(1-3) RExt
        by (auto simp: Let_def split: if_splits sum.splits option.splits realized_op.splits prod.splits)
    qed
  next
    case (RComponent cid)
    then show ?thesis using Suc.prems(1-3) by (auto simp: Let_def split: option.splits prod.splits)
  qed (use Suc.prems(2) in auto)
qed simp

definition plan_ok :: "vtable \<Rightarrow> plan \<Rightarrow> bool" where
  "plan_ok vt p \<longleftrightarrow> fst (pl_shard p) \<le> snd (pl_shard p) \<and> snd (pl_shard p) \<le> 8 + table_len vt \<and>
     (\<exists>c. Option.bind (get_index (pl_stages p) 0) as_component = Some c \<and> snd (pl_shard p) = fst (pl_shard p) + cs_size (co_schema c)) \<and>
     (\<forall>rng. pl_ts_shard p = Some rng \<longrightarrow> fst rng \<le> snd rng \<and> snd rng \<le> 8 + table_len vt)"

lemma check_plan_ok:
  assumes "check_plan i f stages ts sch = Inr p" "f \<in> set (vt_fields vt)"
    and "\<And>rng. ts = Some rng \<Longrightarrow> fst rng \<le> snd rng \<and> snd rng \<le> table_len vt"
  shows "plan_ok vt p"
proof -
  obtain st rest c where s: "stages = st # rest" "as_component st = Some c"
    using assms(1) by (cases stages) (auto simp: check_plan_def split: option.splits)
  have z: "cs_size (co_schema c) = unat (vf_len f)" and
    p: "p = \<lparr>pl_index = i, pl_stages = stages, pl_shard = field_range (unat (vf_offset f), unat (vf_offset f) + unat (vf_len f)),
        pl_ts_shard = map_option field_range ts, pl_prim_type = cs_prim_type (co_schema c)\<rparr>"
    using assms(1) s by (auto simp: check_plan_def split: if_splits)
  show ?thesis unfolding plan_ok_def p using table_len_field [OF assms(2)] z s assms(3)
    by (auto simp: field_range_def packet_header_len_def get_index_def)
qed

lemma spawn_plans_ok:
  assumes "spawn_plans env zc base vt fs i plans d = Some (r, plans', d')" "set fs \<subseteq> set (vt_fields vt)" "\<forall>p \<in> set plans. plan_ok vt p"
  shows "\<forall>p \<in> set plans'. plan_ok vt p"
  using assms
proof (induction fs arbitrary: i plans d)
  case (Cons f fs)
  obtain q where q: "realize zc base vt (vf_arg f) None = Some q" using Cons.prems(1) by (auto split: option.splits)
  show ?case
  proof (cases q)
    case (Inl e)
    then show ?thesis using Cons.prems q by auto
  next
    case (Inr rop)
    obtain q1 d1 where f: "find_plan 65535 env zc base vt rop [] None None d = Some (q1, d1)"
      using Cons.prems(1) q Inr by (cases "find_plan 65535 env zc base vt rop [] None None d") auto
    show ?thesis
    proof (cases q1)
      case (Inl e)
      then show ?thesis using Cons.prems q Inr f \<open>q = Inr rop\<close> by auto
    next
      case (Inr x)
      obtain stages ts sch where x: "x = (stages, ts, sch)" by (cases x)
      have ts: "fst rng \<le> snd rng \<and> snd rng \<le> table_len vt" if "ts = Some rng" for rng
        by (rule find_plan_range [OF f [unfolded Inr x] _ _ that]) (use realized_timestamp_range q \<open>q = Inr rop\<close> in auto)
      show ?thesis
      proof (cases "check_plan i f stages ts sch")
        case (Inl e)
        then show ?thesis using Cons.prems q f \<open>q = Inr rop\<close> \<open>q1 = Inr x\<close> x by auto
      next
        case (Inr p)
        have ok: "plan_ok vt p" by (rule check_plan_ok [OF Inr _ ts]) (use Cons.prems(2) in auto)
        have sp: "spawn_plans env zc base vt fs (i + 1) (plans @ [p]) d1 = Some (r, plans', d')"
          using Cons.prems(1) q f \<open>q = Inr rop\<close> \<open>q1 = Inr x\<close> x Inr by simp
        show ?thesis by (rule Cons.IH [OF sp]) (use Cons.prems(2,3) ok in simp_all)
      qed
    qed
  qed
qed simp

lemma field_table_of: "field_table_new len id' = Some (lp_of Table id' 0 (replicate len 0))"
proof -
  have "lp_push_zeros n (lp_of Table id' 0 body) = Some (lp_of Table id' 0 (body @ replicate n 0))" for n body
  proof (induction n arbitrary: body)
    case (Suc n)
    show ?case by (simp add: lp_of_ops(1) Suc.IH replicate_app_Cons_same)
  qed simp
  then show ?thesis by (simp add: field_table_new_def lp_table_def lp_of_new)
qed

lemma copy_into_ok:
  "fst rng \<le> snd rng \<Longrightarrow> snd rng \<le> length p \<Longrightarrow>
     copy_into (Some p) rng bs = (if length bs = snd rng - fst rng then Some (splice (fst rng) bs p) else None)"
  by (auto simp: copy_into_def with_buf_def get_range_def slice_def)

text \<open>Every range that a client's vtable names lies inside the packet: the real-time stage of
  a spawned plan never writes out of bounds, whatever the ring hands it, and panics in one case
  only: a whole message, and a timestamp slot of the vtable that is not eight bytes long.\<close>

theorem real_time_panics_iff:
  assumes "vtable_stream_open env zc base id' vt d = Some (r, plans, Some packet, bits, d')" "p \<in> set plans"
    and "pl_stages p = RealTime rd c # rest"
  shows "real_time_next (co_schema c) buf (Some packet) (pl_shard p) (pl_ts_shard p) = None \<longleftrightarrow>
    cs_size (co_schema c) + 8 \<le> length buf \<and> (\<exists>rng. pl_ts_shard p = Some rng \<and> snd rng \<noteq> fst rng + 8)"
proof -
  from assms(1) have s: "spawn_plans env zc base vt (vt_fields vt) 0 [] d = Some (r, plans, d')"
    "Some packet = field_table_new (table_len vt) id'" by (auto simp: vtable_stream_open_def)
  have ok: "plan_ok vt p" using spawn_plans_ok [OF s(1)] assms(2) by simp
  have l: "length packet = 8 + table_len vt" using s(2) by (simp add: field_table_of)
  have sh: "fst (pl_shard p) \<le> snd (pl_shard p)" "snd (pl_shard p) \<le> length packet"
    "snd (pl_shard p) = fst (pl_shard p) + cs_size (co_schema c)"
    using ok assms(3) l by (auto simp: plan_ok_def get_index_def)
  have ts: "fst rng \<le> snd rng \<and> snd rng \<le> length packet" if "pl_ts_shard p = Some rng" for rng
    using ok that l by (simp add: plan_ok_def)
  show ?thesis
  proof (cases "cs_size (co_schema c) + 8 \<le> length buf")
    case False
    then show ?thesis by (simp add: real_time_next_def get_range_def)
  next
    case True
    let ?msg = "slice 0 (cs_size (co_schema c) + 8) buf"
    have m: "get_range buf 0 (cs_size (co_schema c) + 8) = Some ?msg" "length ?msg = cs_size (co_schema c) + 8"
      using True by (simp_all add: get_range_def slice_def)
    define p1 where "p1 = splice (fst (pl_shard p)) (drop 8 ?msg) packet"
    have c1: "copy_into (Some packet) (pl_shard p) (drop 8 ?msg) = Some p1"
      using copy_into_ok [OF sh(1,2)] m(2) sh(3) by (simp add: p1_def)
    have l1: "length p1 = length packet" using sh m(2) by (simp add: p1_def length_splice)
    have t8: "get_range ?msg 0 8 = Some (take 8 ?msg)" using m(2) by (simp add: get_range_def slice_def)
    have "real_time_next (co_schema c) buf (Some packet) (pl_shard p) (pl_ts_shard p) = None \<longleftrightarrow>
      write_sample (Some packet) (pl_shard p) (pl_ts_shard p) (i64_of_le (take 8 ?msg)) (drop 8 ?msg) = None"
      by (simp only: real_time_next_def m(1) t8 option.case option.map_disc_iff)
    also have "\<dots> \<longleftrightarrow> (\<exists>rng. pl_ts_shard p = Some rng \<and> snd rng \<noteq> fst rng + 8)"
    proof (cases "pl_ts_shard p")
      case None
      then show ?thesis by (simp only: write_sample_def c1 option.case Option.bind.simps) simp
    next
      case (Some rng)
      have "copy_into (Some p1) rng (i64_to_le (i64_of_le (take 8 ?msg))) = None \<longleftrightarrow> snd rng \<noteq> fst rng + 8"
        using copy_into_ok [of rng p1] ts [OF Some] l1 by auto
      then show ?thesis unfolding write_sample_def c1 Some by simp
    qed
    finally show ?thesis using True by simp
  qed
qed

text \<open>A vtable whose timestamp slot has four bytes, over a component of one \<open>u32\<close>.\<close>

definition bad_vtable :: vtable where
  "bad_vtable = \<lparr>vt_ops = [OpData 0 8, OpComponent 0, OpTable 0 4, OpTimestamp 2 1],
     vt_fields = [\<lparr>vf_offset = 8, vf_len = 4, vf_arg = 3\<rparr>], vt_data = u64_to_le 7\<rparr>"

definition bad_db :: "nat db" where
  "bad_db = db_put_component demo_db 7
     \<lparr>co_id = 7, co_series = ts_create, co_wal = disruptor_new 4096, co_schema = cs_new U32 [], co_last = 0\<rparr>"

definition demo_env :: plan_env where
  "demo_env = \<lparr>mean_op_id = (1, 1), fixed_rate_id = (1, 2), dec_mean = \<lambda>_. Inl 0, dec_fixed = \<lambda>_. Inl 0\<rparr>"

lemma bad_realize:
  "realize zc_ok 0 bad_vtable 1 None = Some (Inr (RComponent 7))"
  "realize zc_ok 0 bad_vtable 3 None = Some (Inr (RTimestamp None (Some (0, 4)) 1))"
proof -
  have g: "get_op bad_vtable 0 = Inr (OpData 0 8)" "get_op bad_vtable 1 = Inr (OpComponent 0)"
    "get_op bad_vtable 2 = Inr (OpTable 0 4)" "get_op bad_vtable 3 = Inr (OpTimestamp 2 1)" by code_simp+
  have d: "realize zc_ok 0 bad_vtable 0 None = Some (Inr (RData (0, u64_to_le 7)))"
    by (subst realize.simps) (simp add: g realize_data_def, simp add: bad_vtable_def as_get_def get_range_def slice_def)
  show "realize zc_ok 0 bad_vtable 1 None = Some (Inr (RComponent 7))"
    by (subst realize.simps) (simp add: g d as_component_id_def ok_or_def le_simps)
  have t: "realize zc_ok 0 bad_vtable 2 None = Some (Inr (RTable None (0, 4)))"
    by (subst realize.simps) (simp add: g realize_table_def)
  show "realize zc_ok 0 bad_vtable 3 None = Some (Inr (RTimestamp None (Some (0, 4)) 1))"
    by (subst realize.simps) (simp add: g t realize_timestamp_def)
qed

lemma bad_plan:
  "\<exists>c d'. find_plan (Suc (Suc n)) demo_env zc_ok 0 bad_vtable (RTimestamp None (Some (0, 4)) 1) [] None None bad_db =
      Some (Inr ([RealTime 0 c], Some (0, 4), None), d') \<and> co_schema c = cs_new U32 []"
  by (simp add: bad_realize bad_db_def db_put_component_def demo_db_def empty_state_def reader_new_def disruptor_new_def Let_def)


section \<open>Taking and filling the packet\<close>

definition scanned :: "vstream \<Rightarrow> nat \<Rightarrow> nat" where
  "scanned s j = sum_list (map count_ones (take j (bv_store (vs_bits s))))"

definition full :: "vstream \<Rightarrow> bool" where
  "full s \<longleftrightarrow> bv_all_set (vs_bits s)"

definition vs_inv :: "nat \<Rightarrow> vstream \<Rightarrow> bool" where
  "vs_inv n s \<longleftrightarrow> bv_ok (vs_bits s) \<and> bv_size (vs_bits s) = n \<and>
     (\<forall>i. vs_runner s i = Run \<longrightarrow> bv_get (vs_bits s) i = Some False) \<and>
     (case vs_sender s of
        Scan j acc \<Rightarrow> j \<le> length (bv_store (vs_bits s)) \<and> acc \<le> scanned s j \<and> vs_table s \<noteq> None
      | Take \<Rightarrow> full s \<and> vs_table s \<noteq> None
      | Sending p \<Rightarrow> full s \<and> vs_table s = None
      | Clear j \<Rightarrow> j \<le> length (bv_store (vs_bits s)) \<and> vs_table s \<noteq> None
      | Closed \<Rightarrow> full s \<and> vs_table s = None)"

lemma bv_get_size: "bv_get v i = Some b \<Longrightarrow> i < bv_size v"
  by (simp add: bv_get_def split: if_splits)

lemma full_no_run: "vs_inv n s \<Longrightarrow> full s \<Longrightarrow> vs_runner s i \<noteq> Run"
proof
  assume a: "vs_inv n s" "full s" "vs_runner s i = Run"
  then have g: "bv_get (vs_bits s) i = Some False" and v: "bv_ok (vs_bits s)" unfolding vs_inv_def by blast+
  have "bv_get (vs_bits s) i = Some True" using bv_all_set_bits [OF v] a(2) bv_get_size [OF g] by (simp add: full_def)
  then show False using g by simp
qed

lemma sum_ones_mono:
  assumes "length ws = length ws'" "\<And>j b. j < length ws \<Longrightarrow> bit (ws ! j) b \<Longrightarrow> bit (ws' ! j) b"
  shows "sum_list (map count_ones (take k ws)) \<le> sum_list (map count_ones (take k ws'))"
proof -
  have c: "count_ones w \<le> count_ones w'" if "\<And>b. bit w b \<Longrightarrow> bit w' b" for w w'
  proof -
    have "length (filter (bit w) xs) \<le> length (filter (bit w') xs)" for xs using that by (induction xs) auto
    then show ?thesis unfolding count_ones_def by (rule meta_allE [of _ "[0..<64]"])
  qed
  have gen: "list_all2 (\<lambda>w w'. count_ones w \<le> count_ones w') xs ys \<Longrightarrow> sum_list (map count_ones xs) \<le> sum_list (map count_ones ys)" for xs ys
    by (induction rule: list_all2_induct) (simp_all add: add_mono)
  have "count_ones (take k ws ! j) \<le> count_ones (take k ws' ! j)" if j: "j < length (take k ws)" for j
  proof -
    have "j < length ws" "take k ws ! j = ws ! j" "take k ws' ! j = ws' ! j" using j by simp_all
    then show ?thesis using c [of "ws ! j" "ws' ! j"] assms(2) by simp
  qed
  then show ?thesis using assms(1) by (intro gen) (simp add: list_all2_conv_all_nth)
qed

lemma bv_set_True:
  assumes v: "bv_ok v" "i < bv_size v"
  shows "bv_ok (snd (bv_set v i True)) \<and> bv_size (snd (bv_set v i True)) = bv_size v \<and>
    length (bv_store (snd (bv_set v i True))) = length (bv_store v) \<and>
    (\<forall>k. bv_get (snd (bv_set v i True)) k = (if k = i then Some True else bv_get v k)) \<and>
    (\<forall>j. sum_list (map count_ones (take j (bv_store v))) \<le> sum_list (map count_ones (take j (bv_store (snd (bv_set v i True))))))"
proof -
  note b = bv_set_bits [OF v, of True]
  have l: "i div 64 < length (bv_store v)" using v unfolding bv_ok_def by linarith
  have st: "bv_store (snd (bv_set v i True)) = (bv_store v)[i div 64 := (bv_store v ! (i div 64)) OR push_bit (i mod 64) 1]"
    using v(2) l by (simp add: bv_set_def get_index_def Let_def)
  have "bv_get (snd (bv_set v i True)) k = (if k = i then Some True else bv_get v k)" for k
  proof (cases "k < bv_size v")
    case True
    then have k: "k < 64 * length (bv_store v)" using v(1) unfolding bv_ok_def by linarith
    have ok': "bv_ok (snd (bv_set v i True))" "k < bv_size (snd (bv_set v i True))" using b True by simp_all
    show ?thesis unfolding bv_get_bit [OF ok'] bv_get_bit [OF v(1) True] using b k by simp
  next
    case False
    then show ?thesis using b v(2) by (auto simp: bv_get_def)
  qed
  moreover have "sum_list (map count_ones (take j (bv_store v))) \<le> sum_list (map count_ones (take j (bv_store (snd (bv_set v i True)))))" for j
  proof (rule sum_ones_mono)
    fix k b assume "k < length (bv_store v)" "bit (bv_store v ! k) b"
    then show "bit (bv_store (snd (bv_set v i True)) ! k) b" unfolding st by (cases "k = i div 64") (simp_all add: bit_or_iff)
  qed (simp add: st)
  ultimately show ?thesis using b by simp
qed

lemma bv_clear_word:
  assumes "bv_ok v" "j < length (bv_store v)"
  shows "bv_ok (v\<lparr>bv_store := (bv_store v)[j := 0]\<rparr>) \<and>
    (bv_get v i = Some False \<longrightarrow> bv_get (v\<lparr>bv_store := (bv_store v)[j := 0]\<rparr>) i = Some False)"
proof -
  let ?v = "v\<lparr>bv_store := (bv_store v)[j := 0]\<rparr>"
  have "bits_of ((bv_store v)[j := 0]) ! k \<longrightarrow> bits_of (bv_store v) ! k" if "k < 64 * length (bv_store v)" for k
    using bits_of_update [OF assms(2) that, of 0] by auto
  then have ok: "bv_ok ?v" using assms(1) by (auto simp: bv_ok_def)
  have "bv_get ?v i = Some False" if g: "bv_get v i = Some False"
  proof -
    have i: "i < bv_size v" using bv_get_size [OF g] .
    then have k: "i < 64 * length (bv_store v)" using assms(1) unfolding bv_ok_def by linarith
    have "\<not> bits_of (bv_store v) ! i" using g bv_get_bit [OF assms(1) i] by simp
    then have "\<not> bits_of ((bv_store v)[j := 0]) ! i" using bits_of_update [OF assms(2) k, of 0] by auto
    then show ?thesis using bv_get_bit [OF ok] i by simp
  qed
  then show ?thesis using ok by blast
qed

lemma vs_inv_init: "vs_inv n (vs_init p n)"
  by (simp add: vs_inv_def vs_init_def bv_new_ok scanned_def) (simp add: bv_new_def)

lemma vs_inv_step:
  assumes "vs_inv n s" "vs_step s s'"
  shows "vs_inv n s'"
  using assms(2,1)
proof cases
  case (plan_start i)
  then show ?thesis using assms(1) by (auto simp: vs_inv_def full_def scanned_def split: sender.splits)
next
  case (plan_write i rng bs p)
  have "vs_table s \<noteq> None" using plan_write(3) by (cases "vs_table s") (simp_all add: copy_into_def with_buf_def)
  then have "\<not> full s" using full_no_run [OF assms(1)] plan_write(2) by blast
  then show ?thesis using assms(1) plan_write(1) by (auto simp: vs_inv_def full_def scanned_def split: sender.splits)
next
  case (plan_written i)
  have g: "bv_get (vs_bits s) i = Some False" "bv_ok (vs_bits s)" using assms(1) plan_written(2) by (simp_all add: vs_inv_def)
  note b = bv_set_True [OF g(2) bv_get_size [OF g(1)]]
  have "\<not> full s" using full_no_run [OF assms(1)] plan_written(2) by blast
  then show ?thesis unfolding plan_written(1) vs_inv_def
    using assms(1) b unfolding vs_inv_def
    by (auto simp: full_def scanned_def split: sender.splits intro: order_trans)
next
  case (plan_unfinished i)
  then show ?thesis using assms(1) by (auto simp: vs_inv_def full_def scanned_def split: sender.splits)
next
  case (plan_error i)
  then show ?thesis using assms(1) by (auto simp: vs_inv_def full_def scanned_def split: sender.splits)
next
  case (scan_word j acc w)
  then have "j < length (bv_store (vs_bits s))" "bv_store (vs_bits s) ! j = w" by (auto simp: get_index_def split: if_splits)
  then have "scanned s (j + 1) = scanned s j + count_ones w" by (simp add: scanned_def take_Suc_conv_app_nth)
  then show ?thesis using assms(1) scan_word \<open>j < length (bv_store (vs_bits s))\<close> by (auto simp: vs_inv_def full_def scanned_def)
next
  case (scan_done acc)
  then have "acc \<le> sum_list (map count_ones (bv_store (vs_bits s)))" using assms(1) by (simp add: vs_inv_def scanned_def)
  then have "bv_size (vs_bits s) \<le> acc \<Longrightarrow> full s" by (simp add: full_def bv_all_set_def)
  then show ?thesis using assms(1) scan_done by (auto simp: vs_inv_def full_def scanned_def)
next
  case (take_table p)
  then show ?thesis using assms(1) by (auto simp: vs_inv_def full_def)
next
  case (replace_table p)
  then show ?thesis using assms(1) by (auto simp: vs_inv_def full_def)
next
  case (send_error p)
  then show ?thesis using assms(1) by (auto simp: vs_inv_def full_def)
next
  case (clear_word j)
  have ok: "bv_ok (vs_bits s)" using assms(1) by (simp add: vs_inv_def)
  show ?thesis using assms(1) clear_word bv_clear_word [OF ok clear_word(3)] by (auto simp: vs_inv_def)
next
  case clear_done
  then show ?thesis using assms(1) by (auto simp: vs_inv_def scanned_def)
qed

lemma vs_reach_inv: "vs_reach p n s \<Longrightarrow> vs_inv n s"
  unfolding vs_reach_def
proof (induction rule: rtranclp_induct)
  case base
  then show ?case by (rule vs_inv_init)
next
  case (step y z)
  then show ?case using vs_inv_step by blast
qed

text \<open>C13. However the plans and the sending task interleave, no task finds the packet missing, and
  a packet is being sent only while every field's bit is set and no plan runs: the words are
  summed up one at a time, but bits are only set in the meantime.\<close>

theorem packet_never_missing:
  assumes "vs_reach p n s"
  shows "\<not> vs_panics s \<and> (\<forall>q. vs_sender s = Sending q \<longrightarrow>
    (\<forall>i < n. bv_get (vs_bits s) i = Some True) \<and> (\<forall>i. vs_runner s i \<noteq> Run))"
proof -
  note inv = vs_reach_inv [OF assms]
  have "\<not> vs_panics s"
  proof
    assume a: "vs_panics s"
    then have t: "vs_table s = None" by (simp add: vs_panics_def)
    then have f: "full s" "vs_sender s \<noteq> Take" using inv by (auto simp: vs_inv_def split: sender.splits)
    then show False using a full_no_run [OF inv f(1)] by (auto simp: vs_panics_def)
  qed
  moreover have "(\<forall>i < n. bv_get (vs_bits s) i = Some True) \<and> (\<forall>i. vs_runner s i \<noteq> Run)" if q: "vs_sender s = Sending q" for q
  proof -
    have f: "full s" "bv_ok (vs_bits s)" "bv_size (vs_bits s) = n" using inv q by (simp_all add: vs_inv_def)
    then show ?thesis using bv_all_set_bits [OF f(2)] full_no_run [OF inv f(1)] by (simp add: full_def)
  qed
  ultimately show ?thesis by blast
qed

text \<open>C36. A stream whose client is gone strands its plans: once a send has failed, no plan that
  waits ever runs again, and none that waits ends, so the ring readers they hold stay.\<close>

theorem closed_stream_strands_plans:
  assumes "vs_reach p n s" "vs_sender s = Closed" "vs_step\<^sup>*\<^sup>* s s'"
  shows "vs_runner s' = vs_runner s \<and> (\<forall>i. vs_runner s i \<noteq> Run)"
proof -
  have "vs_inv n s' \<and> vs_sender s' = Closed \<and> vs_runner s' = vs_runner s" using assms(3)
  proof (induction rule: rtranclp_induct)
    case base
    then show ?case using vs_reach_inv [OF assms(1)] assms(2) by simp
  next
    case (step y z)
    have inv: "vs_inv n y" "vs_sender y = Closed" using step.IH by simp_all
    then have f: "full y" "bv_ok (vs_bits y)" by (simp_all add: vs_inv_def)
    have no: "vs_runner y i \<noteq> Run" for i by (rule full_no_run [OF inv(1) f(1)])
    have set: "bv_get (vs_bits y) i \<noteq> Some False" for i
      using bv_all_set_bits [OF f(2)] f(1) bv_get_size [of "vs_bits y" i False] unfolding full_def by fastforce
    from step.hyps(2) have "vs_sender z = Closed \<and> vs_runner z = vs_runner y"
      by cases (use no set inv(2) in auto)
    then show ?case using step.IH vs_inv_step [OF inv(1) step.hyps(2)] by simp
  qed
  moreover have "full s" using vs_reach_inv [OF assms(1)] assms(2) by (simp add: vs_inv_def)
  ultimately show ?thesis using full_no_run [OF vs_reach_inv [OF assms(1)]] by simp
qed

lemma demo_vs: "\<exists>s. vs_reach p 1 s \<and> vs_sender s = Sending p"
proof -
  let ?s0 = "vs_init p 1"
  have i: "vs_runner ?s0 0 = Wait" "bv_get (vs_bits ?s0) 0 = Some False"
    by (simp_all add: vs_init_def bv_new_def bv_get_def get_index_def)
  let ?s1 = "?s0\<lparr>vs_runner := (vs_runner ?s0)(0 := Run)\<rparr>"
  have 1: "vs_step ?s0 ?s1" by (rule plan_start [OF i])
  have "vs_step ?s1 (?s1\<lparr>vs_bits := snd (bv_set (vs_bits ?s1) 0 True), vs_runner := (vs_runner ?s1)(0 := Wait)\<rparr>)"
    by (rule plan_written) simp
  then obtain s2 where 2: "vs_step ?s1 s2" and st: "bv_store (vs_bits s2) = [1]" "bv_size (vs_bits s2) = 1" "vs_sender s2 = Scan 0 0" "vs_table s2 = Some p"
    by (simp add: vs_init_def bv_new_def bv_set_def get_index_def)
  have one: "count_ones 1 = 1" by code_simp
  let ?s3 = "s2\<lparr>vs_sender := Scan (0 + 1) (0 + count_ones 1)\<rparr>"
  have 3: "vs_step s2 ?s3" by (rule scan_word [OF st(3)]) (simp add: st get_index_def)
  let ?s4 = "?s3\<lparr>vs_sender := Take\<rparr>"
  have 4: "vs_step ?s3 ?s4" using scan_done [of ?s3 1] st one by simp
  let ?s5 = "?s4\<lparr>vs_table := None, vs_sender := Sending p\<rparr>"
  have 5: "vs_step ?s4 ?s5" by (rule take_table) (simp_all add: st)
  have "vs_reach p 1 ?s5" unfolding vs_reach_def
    using 1 2 3 4 5 by (meson rtranclp.rtrancl_into_rtrancl rtranclp.rtrancl_refl)
  then show ?thesis by (intro exI [of _ ?s5]) simp
qed

lemma packet_never_missing_witness:
  "\<exists>s. vs_reach [] 1 s \<and> vs_sender s = Sending [] \<and> \<not> vs_panics s \<and> bv_get (vs_bits s) 0 = Some True"
proof -
  obtain s where s: "vs_reach [] 1 s" "vs_sender s = Sending []" using demo_vs by blast
  then show ?thesis using packet_never_missing [OF s(1)] by auto
qed

lemma closed_stream_strands_plans_witness:
  "\<exists>s. vs_reach [] 1 s \<and> vs_sender s = Closed \<and> (\<forall>s'. vs_step\<^sup>*\<^sup>* s s' \<longrightarrow> vs_runner s' = vs_runner s)"
proof -
  obtain s where s: "vs_reach [] 1 s" "vs_sender s = Sending []" using demo_vs by blast
  let ?c = "s\<lparr>vs_sender := Closed\<rparr>"
  have c: "vs_reach [] 1 ?c" using s(1) send_error [OF s(2)] unfolding vs_reach_def by (rule rtranclp.rtrancl_into_rtrancl)
  then show ?thesis using closed_stream_strands_plans [OF c] by (intro exI [of _ ?c]) auto
qed

section \<open>A reader that stands still\<close>

text \<open>The reader \<open>r\<close> stands where a message of this length would run into it.\<close>

definition stalls :: "disruptor \<Rightarrow> nat \<Rightarrow> nat \<Rightarrow> bool" where
  "stalls d r len \<longleftrightarrow> 0 < d_max d \<and> len \<le> d_max d \<and>
     (\<exists>c. (r, c) \<in> set (d_readers d) \<and>
       (let wr = d_committed d mod d_max d; rd = c mod d_max d
        in wr < rd \<and> rd \<le> wr + len \<or> d_max d < wr + len \<and> rd \<le> len))"

lemma stalls_publish: "stalls d r (length bs) \<Longrightarrow> publish d bs = Some (Inl WouldBlock)"
  by (auto simp: stalls_def Let_def publish_def try_grant_def load_write_def locked_grant_def can_write_def check_room_iff)

lemma stalls_set_cursor: "r' \<noteq> r \<Longrightarrow> stalls d r len \<Longrightarrow> stalls (set_cursor d r' k) r len"
  by (auto simp: stalls_def Let_def set_cursor_readers)

text \<open>What the other users of a component do: push samples, poll, persist.\<close>

inductive others_step :: "nat \<Rightarrow> nat \<Rightarrow> component \<Rightarrow> component \<Rightarrow> bool" for r :: nat and e :: nat where
  others_push: "length v = e \<Longrightarrow> co_push_buf c t v = Some (res, c') \<Longrightarrow> others_step r e c c'"
| others_poll: "r' \<noteq> r \<Longrightarrow> try_next (co_wal c) r' = Some (x, d) \<Longrightarrow> others_step r e c (c\<lparr>co_wal := d\<rparr>)"
| others_persist: "r' \<noteq> r \<Longrightarrow> persist_turn os cas c r' rng = Some (kept, c') \<Longrightarrow> others_step r e c c'"

lemma others_step_stalls:
  assumes "others_step r e c c'" "stalls (co_wal c) r (e + 8)"
  shows "stalls (co_wal c') r (e + 8)"
  using assms
proof cases
  case (others_push v t res)
  have "publish (co_wal c) (sample_frame t v) = Some (Inl WouldBlock)"
    using stalls_publish [of "co_wal c" r "sample_frame t v"] assms(2) others_push(1) by (simp add: sample_frame_def add.commute)
  then have "c' = c" using others_push(2) by (auto simp: co_push_buf_def split: if_splits)
  then show ?thesis using assms(2) by simp
next
  case (others_poll r' x d)
  then have "d = co_wal c \<or> d = set_cursor (co_wal c) r' 0"
    by (auto simp: try_next_def poll_def Let_def split: option.splits if_splits)
  then show ?thesis using others_poll(1,2) stalls_set_cursor assms(2) by auto
next
  case (others_persist r' os cas rng kept)
  then have "co_wal c' = set_cursor (co_wal c) r' (snd rng)"
    by (auto simp: persist_turn_def read_drop_def split: option.splits)
  then show ?thesis using others_persist(1) stalls_set_cursor assms(2) by simp
qed

text \<open>A reader that stands still stops the recording of its component: once it is in the way of
  the next message, then whatever the other users of the component do, every further sample is
  reported as pushed and dropped.  The readers of a closed stream stand still for ever.\<close>

theorem stalled_reader_stops_recording:
  assumes "stalls (co_wal c) r (e + 8)" "(others_step r e)\<^sup>*\<^sup>* c c'" "length v = e" "co_last c' \<le> t"
  shows "co_push_buf c' t v = Some (Inr (), c')"
proof -
  have "stalls (co_wal c') r (e + 8)" using assms(2)
  proof (induction rule: rtranclp_induct)
    case base
    then show ?case by (rule assms(1))
  next
    case (step y z)
    show ?case by (rule others_step_stalls [OF step.hyps(2) step.IH])
  qed
  then have "publish (co_wal c') (sample_frame t v) = Some (Inl WouldBlock)"
    using stalls_publish [of "co_wal c'" r "sample_frame t v"] assms(3) by (simp add: sample_frame_def add.commute)
  then show ?thesis using assms(4) by (simp add: co_push_buf_def)
qed

text \<open>Such a state is reached by pushing to a fresh component that a stream reads.\<close>

lemma publish_fill_readers:
  assumes "\<forall>(i, c) \<in> set (d_readers d). c = 0" "d_committed d = j * n" "d_hwm d = j * n" "j * n + n \<le> d_max d" "0 < n" "length m = n"
  shows "publish d m = Some (Inr (d\<lparr>d_ring := splice (j * n) m (d_ring d), d_hwm := j * n + n, d_committed := j * n + n, d_lock := False\<rparr>))"
proof -
  have lt: "j * n < d_max d" using assms(4,5) by linarith
  have z: "0 mod d_max d = 0" by simp
  have "check_room (d_readers d) (d_max d) n (j * n) (d_max d)" using assms(1,4) by (fastforce simp: check_room_iff)
  then show ?thesis using assms lt
    by (simp add: publish_def try_grant_def load_write_def locked_grant_def can_write_def Let_def grant_fill_def grant_drop_def)
qed

lemma fill_readers:
  assumes "\<forall>(i, c) \<in> set (d_readers (co_wal c)). c = 0" "d_committed (co_wal c) = 0" "d_hwm (co_wal c) = 0"
    and "k * (e + 8) \<le> d_max (co_wal c)" "co_last c \<le> t" "j \<le> k"
  shows "\<exists>c'. (others_step r e)\<^sup>*\<^sup>* c c' \<and> d_readers (co_wal c') = d_readers (co_wal c) \<and> d_max (co_wal c') = d_max (co_wal c) \<and>
    d_committed (co_wal c') = j * (e + 8) \<and> d_hwm (co_wal c') = j * (e + 8) \<and> co_last c' \<le> t"
  using assms(6)
proof (induction j)
  case 0
  then show ?case using assms(2,3,5) by (intro exI [of _ c]) simp
next
  case (Suc j)
  then obtain c1 where c1: "(others_step r e)\<^sup>*\<^sup>* c c1" "d_readers (co_wal c1) = d_readers (co_wal c)" "d_max (co_wal c1) = d_max (co_wal c)"
    "d_committed (co_wal c1) = j * (e + 8)" "d_hwm (co_wal c1) = j * (e + 8)" "co_last c1 \<le> t" by auto
  have "Suc j * (e + 8) \<le> k * (e + 8)" using Suc.prems by (rule mult_le_mono1)
  then have room: "j * (e + 8) + (e + 8) \<le> d_max (co_wal c1)" using assms(4) c1(3) by simp
  let ?m = "sample_frame t (replicate e 0)"
  let ?d = "co_wal c1"
  let ?d' = "?d\<lparr>d_ring := splice (j * (e + 8)) ?m (d_ring ?d), d_hwm := j * (e + 8) + (e + 8), d_committed := j * (e + 8) + (e + 8), d_lock := False\<rparr>"
  have p: "publish ?d ?m = Some (Inr ?d')"
    by (rule publish_fill_readers) (use assms(1) c1 room in \<open>simp_all add: sample_frame_def\<close>)
  let ?c = "c1\<lparr>co_wal := ?d', co_last := max (co_last c1) t\<rparr>"
  have "co_push_buf c1 t (replicate e 0) = Some (Inr (), ?c)" using p c1(6) by (simp add: co_push_buf_def)
  then have "others_step r e c1 ?c" by (intro others_push [of "replicate e 0"]) simp_all
  moreover have "d_max ?d' = d_max ?d" using room by (simp add: d_max_def length_splice sample_frame_def)
  ultimately show ?case using c1 by (intro exI [of _ ?c]) (auto intro: rtranclp.rtrancl_into_rtrancl)
qed


end
