(* ===== verification/MeanCorrect.thy ===== *)
theory MeanCorrect
  imports VTableStream ValueCorrect
begin

text \<open>
  What the mean stage of a client's stream computes over a window: the saturated sum of the
  values, divided; shown for the 16-bit unsigned type.
\<close>

section \<open>Runs\<close>

text \<open>The stage applied to the successive contents of its field.\<close>

fun mean_run :: "float_ops \<Rightarrow> caster \<Rightarrow> prim_type \<Rightarrow> nat \<Rightarrow> mean_stage \<Rightarrow> byte list list \<Rightarrow> ((bool \<times> byte list) list \<times> mean_stage) option" where
  "mean_run fl zc ty addr m [] = Some ([], m)"
| "mean_run fl zc ty addr m (f # fs) =
     (case mean_next fl zc m ty (addr, f) of
        None \<Rightarrow> None
      | Some (b, m', f') \<Rightarrow> map_option (\<lambda>(rs, m). ((b, f') # rs, m)) (mean_run fl zc ty addr m' fs))"

text \<open>
  What is relied on of float arithmetic: dividing integers of at most 32 bits by a window and
  truncating gives the integer quotient.
\<close>

definition div_exact :: "float_ops \<Rightarrow> bool" where
  "div_exact fl \<longleftrightarrow> (\<forall>a n hi. 0 \<le> a \<longrightarrow> a < 2 ^ 32 \<longrightarrow> 1 \<le> n \<longrightarrow> n < 2 ^ 16 \<longrightarrow> a \<le> hi \<longrightarrow>
     f64_clamp fl 0 hi (f64_div fl (f64_of_int fl a) (f64_of_int fl n)) = a div n)"

definition vals :: "nat \<Rightarrow> byte list \<Rightarrow> 16 word list" where
  "vals k f = elems_of_le 2 k f"

text \<open>The saturated sum of a column.\<close>

definition column :: "nat \<Rightarrow> byte list list \<Rightarrow> nat \<Rightarrow> nat" where
  "column k fs j = min 65535 (sum_list (map (\<lambda>f. unat (vals k f ! j)) fs))"

lemma vals_length [simp]: "length (vals k f) = k"
  by (simp add: vals_def elems_of_le_def)

lemma update_zip_map2: "length xs = length ys \<Longrightarrow> update_zip f xs ys = map2 f xs ys"
  by (induction f xs ys rule: update_zip.induct) simp_all

lemma unat_sat_add: "unat (sat_add a b :: 16 word) = min 65535 (unat a + unat b)"
proof -
  have "uint (sat_add a b) = min (uint a + uint b) 65535"
  proof -
    have "0 \<le> uint a + uint b" by (simp add: uint_nonnegative)
    then show ?thesis by (simp add: sat_add_def uint_word_of_int min_def)
  qed
  then have "int (unat (sat_add a b)) = min (int (unat a) + int (unat b)) 65535" by (simp only: uint_nat)
  also have "\<dots> = int (min 65535 (unat a + unat b))" by linarith
  finally show ?thesis by (simp only: of_nat_eq_iff)
qed

text \<open>The accumulator after the values of \<open>fs\<close>.\<close>

definition acc_ok :: "nat \<Rightarrow> byte list list \<Rightarrow> mean_stage \<Rightarrow> bool" where
  "acc_ok k fs m \<longleftrightarrow> mn_count m = of_nat (length fs) \<and>
     (mn_acc m = None \<and> fs = [] \<or>
      (\<exists>a. mn_acc m = Some (VU16 a) \<and> length (da_storage a) = k \<and> (\<forall>j < k. unat (da_storage a ! j) = column k fs j)))"

lemma column_snoc: "column k (fs @ [f]) j = min 65535 (column k fs j + unat (vals k f ! j))"
  by (simp add: column_def)

lemma mean_next_step:
  assumes zc: "zc_spec zc" "addr mod 2 = 0" and f: "length f = 2 * k" "k < 2 ^ 63" and m: "acc_ok k fs m"
    and n: "length fs + 1 < 2 ^ 16"
  shows "\<exists>a. length (da_storage a) = k \<and> (\<forall>j < k. unat (da_storage a ! j) = column k (fs @ [f]) j) \<and>
    mean_next fl zc m U16 (addr, f) =
      (if mn_window m \<le> of_nat (length fs + 1)
       then Option.bind (val_div fl (VU16 a) (f64_of_int fl (int (length fs + 1)))) (\<lambda>acc.
         if length (val_as_bytes acc) = length f
         then Some (True, m\<lparr>mn_acc := Some (fill_zeros acc), mn_count := 0\<rparr>, val_as_bytes acc) else None)
       else Some (False, m\<lparr>mn_acc := Some (VU16 a), mn_count := of_nat (length fs + 1)\<rparr>, f))"
proof -
  have c: "checked_product [k] 1 = Inr k" using f(2) by simp
  have z: "zc (PrefixOf 2 2 k False) (addr, f) = None" using zc(2) f(1) by (simp add: zc_fits [OF zc(1)])
  have v: "try_from_bytes_shape zc (addr, f) [k] U16 = Some (Inr (CvU16 \<lparr>av_buf = vals k f, av_shape = [k]\<rparr>))"
    using c z by (simp add: try_from_bytes_shape_def vals_def)
  define a0 where "a0 = (case mn_acc m of Some (VU16 a) \<Rightarrow> a | _ \<Rightarrow> da_default 0 [k])"
  have a0: "(case mn_acc m of None \<Rightarrow> val_zeros [k] U16 | Some a \<Rightarrow> a) = VU16 a0" "length (da_storage a0) = k"
    "\<forall>j < k. unat (da_storage a0 ! j) = column k fs j"
    using m by (auto simp: acc_ok_def a0_def da_default_def column_def)
  let ?a = "da_map (\<lambda>xs. update_zip sat_add xs (vals k f)) a0"
  have st: "da_storage ?a = map2 sat_add (da_storage a0) (vals k f)" using a0(2) by (simp add: da_map_def update_zip_map2)
  have ok: "length (da_storage ?a) = k" "\<forall>j < k. unat (da_storage ?a ! j) = column k (fs @ [f]) j"
    using a0(2,3) unfolding st by (simp_all add: unat_sat_add column_snoc)
  have cnt: "mn_count m + 1 = of_nat (length fs + 1)" using m by (simp add: acc_ok_def)
  have u: "uint (of_nat (length fs + 1) :: 16 word) = int (length fs + 1)"
    using n by (simp add: uint_nat unat_of_nat take_bit_nat_eq_self del: of_nat_Suc)
  have nz: "(of_nat (length fs + 1) :: 16 word) \<noteq> 0" using u by auto
  have "length f div prim_size U16 = k" using f(1) by simp
  then have "mean_next fl zc m U16 (addr, f) =
      (if mn_window m \<le> of_nat (length fs + 1)
       then Option.bind (val_div fl (VU16 ?a) (f64_of_int fl (int (length fs + 1)))) (\<lambda>acc.
         if length (val_as_bytes acc) = length f
         then Some (True, m\<lparr>mn_acc := Some (fill_zeros acc), mn_count := 0\<rparr>, val_as_bytes acc) else None)
       else Some (False, m\<lparr>mn_acc := Some (VU16 ?a), mn_count := of_nat (length fs + 1)\<rparr>, f))"
    unfolding mean_next_def snd_conv using v a0(1) nz by (simp only: Let_def cnt u option.case sum.case add_view.simps component_view.case Option.bind.simps array_view.simps)
  then show ?thesis using ok by blast
qed

lemma elems_to_le_length: "length (elems_to_le n ws) = n * length ws"
  by (induction ws) (simp_all add: elems_to_le_def)

text \<open>Over a window of \<open>n\<close> values the mean stage is unfinished until the last, and then leaves in
  each column the sum of the values divided by \<open>n\<close> and rounded down, but with the sum cut off at
  the largest value of the type: the mean of large values is too small.\<close>

theorem mean_window:
  assumes "zc_spec zc" "div_exact fl" "addr mod 2 = 0" "\<forall>f \<in> set fs. length f = 2 * k" "k < 2 ^ 63"
    and "0 < length fs" "length fs < 2 ^ 16" "mn_window m = of_nat (length fs)" "mn_acc m = None" "mn_count m = 0"
  shows "\<exists>rs m'. mean_run fl zc U16 addr m fs = Some (rs, m') \<and> map fst rs = replicate (length fs - 1) False @ [True] \<and>
    snd (last rs) = elems_to_le 2 (map (\<lambda>j. of_nat (column k fs j div length fs) :: 16 word) [0..<k]) \<and> mn_count m' = 0"
proof -
  have run: "\<exists>rs m'. mean_run fl zc U16 addr m ys = Some (rs, m') \<and> map fst rs = replicate (length ys - 1) False @ [True] \<and>
      snd (last rs) = elems_to_le 2 (map (\<lambda>j. of_nat (column k (xs @ ys) j div length (xs @ ys)) :: 16 word) [0..<k]) \<and> mn_count m' = 0"
    if "acc_ok k xs m" "ys \<noteq> []" "\<forall>f \<in> set ys. length f = 2 * k" "length (xs @ ys) < 2 ^ 16" "mn_window m = of_nat (length (xs @ ys))" for xs ys m
    using that
  proof (induction ys arbitrary: xs m)
    case (Cons f ys)
    have f: "length f = 2 * k" using Cons.prems(3) by simp
    have n: "length xs + 1 < 2 ^ 16" using Cons.prems(4) by simp
    obtain a where a: "length (da_storage a) = k" "\<forall>j < k. unat (da_storage a ! j) = column k (xs @ [f]) j"
      "mean_next fl zc m U16 (addr, f) =
      (if mn_window m \<le> of_nat (length xs + 1)
       then Option.bind (val_div fl (VU16 a) (f64_of_int fl (int (length xs + 1)))) (\<lambda>acc.
         if length (val_as_bytes acc) = length f
         then Some (True, m\<lparr>mn_acc := Some (fill_zeros acc), mn_count := 0\<rparr>, val_as_bytes acc) else None)
       else Some (False, m\<lparr>mn_acc := Some (VU16 a), mn_count := of_nat (length xs + 1)\<rparr>, f))"
      using mean_next_step [OF assms(1,3) f assms(5) Cons.prems(1) n, of fl] by blast
    have w: "unat (of_nat j :: 16 word) = j" if "j \<le> length (xs @ f # ys)" for j
      using that Cons.prems(4) by (simp add: unat_of_nat take_bit_nat_eq_self)
    show ?case
    proof (cases "ys = []")
      case True
      let ?n = "length xs + 1"
      let ?q = "map (div_unsigned fl (f64_of_int fl (int ?n))) (da_storage a)"
      have q: "?q ! j = of_nat (column k (xs @ [f]) j div ?n)" if j: "j < k" for j
      proof -
        let ?c = "column k (xs @ [f]) j"
        have c: "int ?c < 2 ^ 32" "int ?c \<le> 65535" by (simp_all add: column_def)
        have "uint (da_storage a ! j) = int ?c" using a(2) j by (simp add: uint_nat)
        then have "div_unsigned fl (f64_of_int fl (int ?n)) (da_storage a ! j) = word_of_int (int ?c div int ?n)"
          using assms(2) c n unfolding div_exact_def div_unsigned_def by simp
        then show ?thesis using a(1) j by (simp add: zdiv_int [symmetric] del: of_nat_Suc)
      qed
      then have qs: "?q = map (\<lambda>j. of_nat (column k (xs @ [f]) j div ?n) :: 16 word) [0..<k]"
        using a(1) by (intro nth_equalityI) simp_all
      have "mn_window m \<le> of_nat ?n" using Cons.prems(5) True by simp
      moreover have "length (elems_to_le 2 ?q) = length f" using a(1) f by (simp add: elems_to_le_length)
      ultimately have "mean_next fl zc m U16 (addr, f) =
          Some (True, m\<lparr>mn_acc := Some (fill_zeros (VU16 (a\<lparr>da_storage := ?q\<rparr>))), mn_count := 0\<rparr>, elems_to_le 2 ?q)"
        using a(3) by (simp add: da_map_def)
      then show ?thesis using True qs by simp
    next
      case False
      then have "\<not> mn_window m \<le> of_nat (length xs + 1)"
        using Cons.prems(5) w [of "length (xs @ f # ys)"] w [of "length xs + 1"] by (cases ys) (simp_all add: word_le_nat_alt)
      then have s: "mean_next fl zc m U16 (addr, f) = Some (False, m\<lparr>mn_acc := Some (VU16 a), mn_count := of_nat (length xs + 1)\<rparr>, f)"
        using a(3) by simp
      have "acc_ok k (xs @ [f]) (m\<lparr>mn_acc := Some (VU16 a), mn_count := of_nat (length xs + 1)\<rparr>)"
        using a(1,2) by (simp add: acc_ok_def)
      from Cons.IH [OF this False] Cons.prems(3-5) obtain rs m' where
        "mean_run fl zc U16 addr (m\<lparr>mn_acc := Some (VU16 a), mn_count := of_nat (length xs + 1)\<rparr>) ys = Some (rs, m')"
        "map fst rs = replicate (length ys - 1) False @ [True]" "mn_count m' = 0"
        "snd (last rs) = elems_to_le 2 (map (\<lambda>j. of_nat (column k (xs @ f # ys) j div length (xs @ f # ys)) :: 16 word) [0..<k])" by auto
      moreover have "rs \<noteq> []" using calculation(2) by auto
      moreover have "False # replicate (length ys - 1) False = replicate (length ys) False" using False by (cases ys) simp_all
      ultimately show ?thesis using s by (auto simp del: of_nat_Suc)
    qed
  qed simp
  have "acc_ok k [] m" using assms(9,10) by (simp add: acc_ok_def)
  from run [OF this, of fs] assms(4,6-8) show ?thesis by simp
qed

text \<open>Integer arithmetic meets the contract.\<close>

lemma int_floats_exact: "div_exact int_floats"
proof -
  have "max 0 (min hi (uint (word_of_int a div word_of_int n :: 64 word))) = a div n"
    if h: "0 \<le> a" "a < 2 ^ 32" "1 \<le> n" "n < 2 ^ 16" "a \<le> hi" for a n hi :: int
  proof -
    have "uint (word_of_int a :: 64 word) = a" "uint (word_of_int n :: 64 word) = n" using h by (simp_all add: uint_word_of_int)
    then have "uint (word_of_int a div word_of_int n :: 64 word) = a div n" by (simp add: uint_div)
    moreover have "a div n \<le> a" using zdiv_mono2 [of a 1 n] h by simp
    moreover have "0 \<le> a div n" using h by (simp add: pos_imp_zdiv_nonneg_iff)
    ultimately show ?thesis using h(5) by simp
  qed
  then show ?thesis by (simp add: div_exact_def int_floats_def)
qed


end
