(* ===== verification/Handlers.thy ===== *)
theory Handlers
  imports VTableStream Streams
begin

text \<open>
  Serving a connection (\<open>handle_conn_inner\<close>, \<open>PacketTx\<close>, \<open>handle_packet\<close> and \<open>handle_stream\<close> of
  \<open>libs/db/src/lib.rs\<close>).  A turn takes one received packet, changes the database, sends
  replies and starts tasks.  Message identifiers, (de)serialisers, the clock, the answers of
  the transport, the SQL engine and the archive writer are parameters; the tasks a request
  starts are values, their behaviour is in the theories of the streams.  A panic is \<open>None\<close>.
\<close>

section \<open>Sending\<close>

text \<open>
  \<open>as_packet\<close> expects the bytes behind the length to be a valid packet of exactly that length;
  \<open>base\<close> is the address of the buffer.
\<close>

definition lp_valid :: "caster \<Rightarrow> nat \<Rightarrow> len_packet \<Rightarrow> bool" where
  "lp_valid zc base p \<longleftrightarrow>
     (case lp_pkt_len p of
        None \<Rightarrow> False
      | Some len \<Rightarrow> 4 \<le> length p \<and> zc (PacketOf (Some (unat len - packet_header_len))) (base + 4, drop 4 p) = None)"

definition lp_set_header :: "caster \<Rightarrow> nat \<Rightarrow> packet_ty \<Rightarrow> packet_id \<Rightarrow> byte \<Rightarrow> len_packet \<Rightarrow> len_packet option" where
  "lp_set_header zc base ty id' req_id p =
     (if lp_valid zc base p then Some (splice 4 [packet_code ty, fst id', snd id', req_id] p) else None)"

record pkt_tx =
  tx_req_id :: byte
  tx_pkt :: "len_packet option"
  tx_sent :: "len_packet list"

text \<open>
  \<open>send_with_builder\<close>: the packet is taken, cleared, built, sent and given back.  \<open>send\<close> is the
  transport's answer.
\<close>

definition send_with_builder :: "caster \<Rightarrow> nat \<Rightarrow> (len_packet \<Rightarrow> impeller_stellar_error option) \<Rightarrow>
    (len_packet \<Rightarrow> ((db_error + unit) \<times> len_packet) option) \<Rightarrow> pkt_tx \<Rightarrow> ((db_error + unit) \<times> pkt_tx) option" where
  "send_with_builder zc base send builder tx =
     (case tx_pkt tx of
        None \<Rightarrow> None
      | Some pkt \<Rightarrow>
          (case builder (lp_clear pkt) of
             None \<Rightarrow> None
           | Some (Inl err, pkt) \<Rightarrow> Some (Inl err, tx\<lparr>tx_pkt := Some pkt\<rparr>)
           | Some (Inr _, pkt) \<Rightarrow>
               if \<not> lp_valid zc base pkt then None
               else (let pkt = pkt[7 := tx_req_id tx]
                     in Some (case send pkt of
                          Some e \<Rightarrow> (Inl (from_impeller_stellar e), tx\<lparr>tx_pkt := Some pkt\<rparr>)
                        | None \<Rightarrow> (Inr (), tx\<lparr>tx_pkt := Some pkt, tx_sent := tx_sent tx @ [pkt]\<rparr>)))))"

text \<open>A message is serialised behind its header.\<close>

definition msg_builder :: "caster \<Rightarrow> nat \<Rightarrow> packet_id \<Rightarrow> byte \<Rightarrow> nat + byte list \<Rightarrow> len_packet \<Rightarrow> ((db_error + unit) \<times> len_packet) option" where
  "msg_builder zc base mid req_id encoded p =
     (case lp_set_header zc base Msg mid req_id p of
        None \<Rightarrow> None
      | Some p \<Rightarrow>
          (case encoded of
             Inl e \<Rightarrow> Some (Inl (DbPostcard e), lp_clear p)
           | Inr bs \<Rightarrow> map_option (Pair (Inr ())) (lp_extend_from_slice (lp_clear p) bs)))"

definition time_series_builder :: "caster \<Rightarrow> nat \<Rightarrow> packet_id \<Rightarrow> byte \<Rightarrow> int list \<Rightarrow> byte list \<Rightarrow> len_packet \<Rightarrow>
    ((db_error + unit) \<times> len_packet) option" where
  "time_series_builder zc base id' req_id tss d p =
     Option.bind (lp_set_header zc base TimeSeries id' req_id p) (\<lambda>p.
       Option.bind (lp_extend_from_slice (lp_clear p) (u64_to_le (of_nat (length tss)))) (\<lambda>p.
         Option.bind (lp_extend_from_slice p (concat (map i64_to_le tss))) (\<lambda>p.
           map_option (Pair (Inr ())) (lp_extend_from_slice p d))))"

section \<open>Time series\<close>

text \<open>
  The loop of \<open>GetTimeSeries\<close>: the slices come newest first, so they are copied to the ends of
  the two destinations, which then shrink to what is in front.  The destinations as they are
  when the loop ends.
\<close>

fun copy_slices :: "nat \<Rightarrow> node_slice list \<Rightarrow> nat \<Rightarrow> int list \<Rightarrow> byte list \<Rightarrow> (int list \<times> byte list) option" where
  "copy_slices sz [] to_skip timestamps_dest data_dest = Some (timestamps_dest, data_dest)"
| "copy_slices sz (sl # sls) to_skip timestamps_dest data_dest =
     (case (slice_timestamps sl, slice_data sl) of
        (Some tss, Some data) \<Rightarrow>
          (let n = length tss - to_skip; to_skip = to_skip - n;
               end' = length timestamps_dest; start = end' - n
           in if length data < n * sz then None
              else if n = 0 then copy_slices sz sls to_skip timestamps_dest data_dest
              else if end' < n \<or> length data_dest < end' * sz then None
              else map_option (\<lambda>(ts, ds). (ts @ take n tss, ds @ take (n * sz) data @ drop (end' * sz) data_dest))
                     (copy_slices sz sls to_skip (take start timestamps_dest) (take (start * sz) data_dest)))
      | _ \<Rightarrow> None)"

text \<open>
  The body of the reply: its space is reserved and its length written first; the slice of
  timestamps must be aligned.
\<close>

definition fill_series :: "caster \<Rightarrow> nat \<Rightarrow> nat \<Rightarrow> nat \<Rightarrow> nat \<Rightarrow> node_slice list option \<Rightarrow> len_packet \<Rightarrow> ((db_error + unit) \<times> len_packet) option" where
  "fill_series zc base sz len to_skip slices p =
     Option.bind (lp_extend_from_slice p (u64_to_le (of_nat len))) (\<lambda>p.
       (let ts_len = len * 8;
            p = lp_set_len (p @ replicate (ts_len + len * sz) 0) (of_nat (8 + ts_len + len * sz + packet_header_len));
            ts_buf = slice 16 (16 + ts_len) p; data_buf = drop (16 + ts_len) p
        in if \<not> lp_valid zc base p \<or> zc (SliceOf 8 8) (base + 16, ts_buf) \<noteq> None then None
           else Option.bind slices (\<lambda>slices.
             map_option (\<lambda>(tss, ds). (Inr (), take 16 p @ concat (map i64_to_le tss) @ ds))
               (copy_slices sz slices to_skip (i64_elems ts_buf) data_buf))))"

definition get_time_series :: "caster \<Rightarrow> nat \<Rightarrow> component \<Rightarrow> int \<Rightarrow> int \<Rightarrow> nat option \<Rightarrow> packet_id \<Rightarrow> byte \<Rightarrow> len_packet \<Rightarrow>
    ((db_error + unit) \<times> len_packet) option" where
  "get_time_series zc base c a b limit id' req_id p =
     (case lp_set_header zc base TimeSeries id' req_id p of
        None \<Rightarrow> None
      | Some p \<Rightarrow>
          (case get_ts_range (co_series c) a b of
             None \<Rightarrow> None
           | Some None \<Rightarrow> Some (Inl TimeRangeOutOfBounds, lp_clear p)
           | Some (Some (start, end')) \<Rightarrow>
               Option.bind (slice_len (co_series c) start end') (\<lambda>range_len.
                 (let len = (case limit of None \<Rightarrow> range_len | Some l \<Rightarrow> min range_len l)
                  in fill_series zc base (cs_size (co_schema c)) len (range_len - len) (as_iter (co_series c) start end') (lp_clear p)))))"

section \<open>Messages\<close>

text \<open>The two loops of \<open>GetMsgs\<close>: the limit is looked at after a message was collected.\<close>

definition limit_reached :: "nat option \<Rightarrow> 'a list \<Rightarrow> bool" where
  "limit_reached limit collected \<longleftrightarrow> (case limit of None \<Rightarrow> False | Some l \<Rightarrow> l \<le> length collected)"

fun collect_node :: "nat option \<Rightarrow> msg_node \<Rightarrow> int list \<Rightarrow> nat list \<Rightarrow> (int \<times> byte list) list \<Rightarrow> (int \<times> byte list) list option" where
  "collect_node limit n tss [] collected = Some collected"
| "collect_node limit n tss (i # is) collected =
     (case get_index tss i of
        None \<Rightarrow> collect_node limit n tss is collected
      | Some timestamp \<Rightarrow>
          (case get_msg (mn_bufs n) i of
             None \<Rightarrow> None
           | Some None \<Rightarrow> collect_node limit n tss is collected
           | Some (Some msg) \<Rightarrow>
               (let collected = collected @ [(timestamp, msg)]
                in if limit_reached limit collected then Some collected else collect_node limit n tss is collected)))"

fun collect_msgs :: "nat option \<Rightarrow> msg_slice list \<Rightarrow> (int \<times> byte list) list \<Rightarrow> (int \<times> byte list) list option" where
  "collect_msgs limit [] collected = Some collected"
| "collect_msgs limit (sl # sls) collected =
     (case msg_timestamps (ms_node sl) of
        None \<Rightarrow> None
      | Some tss \<Rightarrow>
          Option.bind (collect_node limit (ms_node sl) tss [ms_start sl..<Suc (min (ms_end sl) (length tss - 1))] collected) (\<lambda>collected.
            if limit_reached limit collected then Some collected else collect_msgs limit sls collected))"

definition get_msgs :: "'m msg_log \<Rightarrow> int \<Rightarrow> int \<Rightarrow> nat option \<Rightarrow> (int \<times> byte list) list option" where
  "get_msgs l a b limit =
     (case ml_get_range l a b of
        None \<Rightarrow> None
      | Some None \<Rightarrow> Some []
      | Some (Some (start, end')) \<Rightarrow> collect_msgs limit (msg_iter l start end') [])"

section \<open>Requests\<close>

datatype stream_behavior = StreamRealTime | StreamFixedRate initial_timestamp nat nat

datatype 'm request =
    VTableMsg packet_id vtable
  | UdpUnicast string u64 stream_behavior
  | StreamMsg u64 stream_behavior
  | SetStreamState u64 "bool option" "int option" "nat option" "nat option"
  | GetSchema u64
  | GetTimeSeries u64 int int "nat option" packet_id
  | SetComponentMetadata cmeta
  | GetComponentMetadata u64
  | DumpMetadata
  | DumpSchema
  | SubscribeLastUpdated
  | SetDbConfig "bool option" "(string, string) fmap"
  | GetEarliestTimestamp
  | GetDbSettings
  | SQLQuery string
  | SetMsgMetadata packet_id 'm
  | MsgStream packet_id
  | FixedRateMsgStream packet_id fixed_rate_op
  | GetMsgMetadata packet_id
  | GetMsgs packet_id int int "nat option"
  | SaveArchive string nat
  | VTableStreamMsg packet_id
  | UdpVTableStream packet_id string

datatype 'm reply =
    SchemaMsg schema
  | ComponentMetadataMsg cmeta
  | DumpMetadataResp "cmeta list" "'m list" db_config
  | DumpSchemaResp "(u64 \<times> schema) list"
  | DbConfigMsg db_config
  | EarliestTimestamp int
  | ArrowIPC "byte list option"
  | MsgMetadataMsg 'm
  | MsgBatch "(int \<times> byte list) list"
  | ArchiveSaved string
  | ErrorResponse string

text \<open>
  The tasks a request starts.  A task of a connection holds its transport; a UDP one opens its
  own to an address.
\<close>

datatype task =
    RealTimeTask byte
  | FixedRateTask u64 byte
  | UdpTask nat u64 stream_behavior
  | LastUpdatedTask byte
  | MsgStreamTask packet_id byte
  | FixedRateMsgTask packet_id byte u64
  | VTableTask packet_id vtable byte
  | UdpVTableTask nat packet_id vtable byte

record 'm handler_env =
  he_decode :: "packet_id \<Rightarrow> (byte list \<Rightarrow> nat + 'm request) option"
  he_reply_id :: "'m reply \<Rightarrow> packet_id"
  he_encode :: "'m reply \<Rightarrow> nat + byte list"
  he_send :: "len_packet \<Rightarrow> impeller_stellar_error option"
  he_zc :: caster
  he_base :: nat
  he_codecs :: codecs
  he_os :: fs_env
  he_meta_os :: "io_kind option"
  he_now :: int
  he_components :: "u64 list"
  he_logs :: "packet_id list"
  he_resolve :: "string \<Rightarrow> db_error + nat"
  he_sql :: "string \<Rightarrow> byte list list \<times> (db_error + unit)"
  he_archive :: "string \<Rightarrow> nat \<Rightarrow> db_error + unit"
  he_describe :: "db_error \<Rightarrow> string"

definition send_msg :: "'m handler_env \<Rightarrow> 'm reply \<Rightarrow> pkt_tx \<Rightarrow> ((db_error + unit) \<times> pkt_tx) option" where
  "send_msg env r tx =
     send_with_builder (he_zc env) (he_base env) (he_send env)
       (msg_builder (he_zc env) (he_base env) (he_reply_id env r) (tx_req_id tx) (he_encode env r)) tx"

text \<open>The batches of a query are sent as they come; then the query's own result counts.\<close>

fun send_batches :: "'m handler_env \<Rightarrow> byte list list \<Rightarrow> pkt_tx \<Rightarrow> ((db_error + unit) \<times> pkt_tx) option" where
  "send_batches env [] tx = Some (Inr (), tx)"
| "send_batches env (b # bs) tx =
     (case send_msg env (ArrowIPC (Some b)) tx of
        None \<Rightarrow> None
      | Some (Inl e, tx) \<Rightarrow> Some (Inl e, tx)
      | Some (Inr _, tx) \<Rightarrow> send_batches env bs tx)"

definition sql_query :: "'m handler_env \<Rightarrow> string \<Rightarrow> pkt_tx \<Rightarrow> ((db_error + unit) \<times> pkt_tx) option" where
  "sql_query env query tx =
     (case send_batches env (fst (he_sql env query)) tx of
        None \<Rightarrow> None
      | Some (Inl e, tx) \<Rightarrow> Some (Inl e, tx)
      | Some (Inr _, tx) \<Rightarrow>
          (case snd (he_sql env query) of
             Inl e \<Rightarrow> Some (Inl e, tx)
           | Inr _ \<Rightarrow> send_msg env (ArrowIPC None) tx))"

text \<open>A fixed-rate stream replaces the state of a stream with its id.\<close>

definition handle_stream :: "u64 \<Rightarrow> stream_behavior \<Rightarrow> byte \<Rightarrow> 'm db \<Rightarrow> task \<times> 'm db" where
  "handle_stream sid behavior req_id d =
     (case behavior of
        StreamRealTime \<Rightarrow> (RealTimeTask req_id, d)
      | StreamFixedRate initial time_step frequency \<Rightarrow>
          (FixedRateTask sid req_id,
           d\<lparr>db_st := (db_st d)\<lparr>st_streams := (st_streams (db_st d))(sid \<mapsto> fr_new sid time_step (initial_tick d initial) frequency)\<rparr>\<rparr>))"

definition set_stream :: "u64 \<Rightarrow> bool option \<Rightarrow> int option \<Rightarrow> nat option \<Rightarrow> 'm db \<Rightarrow> (db_error + unit) \<times> 'm db" where
  "set_stream sid playing timestamp frequency d =
     (case st_streams (db_st d) sid of
        None \<Rightarrow> (Inl (StreamNotFound sid), d)
      | Some s \<Rightarrow> (Inr (), d\<lparr>db_st := (db_st d)\<lparr>st_streams := (st_streams (db_st d))(sid \<mapsto> set_stream_state playing timestamp frequency s)\<rparr>\<rparr>))"

definition dump_metadata :: "'m handler_env \<Rightarrow> 'm db \<Rightarrow> 'm reply" where
  "dump_metadata env d =
     DumpMetadataResp (List.map_filter (st_metadata (db_st d)) (he_components env))
       (List.map_filter (\<lambda>pid. Option.bind (st_msg_logs (db_st d) pid) ml_metadata) (he_logs env)) (st_config (db_st d))"

fun dump_schema :: "(u64 \<Rightarrow> component option) \<Rightarrow> u64 list \<Rightarrow> (u64 \<times> schema) list option" where
  "dump_schema comps [] = Some []"
| "dump_schema comps (cid # cids) =
     (case comps cid of
        None \<Rightarrow> dump_schema comps cids
      | Some c \<Rightarrow> Option.bind (to_schema (co_schema c)) (\<lambda>s. map_option ((#) (co_id c, s)) (dump_schema comps cids)))"

definition metadata_builder :: "'m handler_env \<Rightarrow> byte \<Rightarrow> u64 \<Rightarrow> 'm db \<Rightarrow> packet_id \<Rightarrow> len_packet \<Rightarrow> ((db_error + unit) \<times> len_packet) option" where
  "metadata_builder env req_id cid d mid p =
     (case st_metadata (db_st d) cid of
        None \<Rightarrow> map_option (\<lambda>p. (Inl (ComponentNotFound cid), lp_clear p)) (lp_set_header (he_zc env) (he_base env) Msg mid req_id p)
      | Some meta \<Rightarrow> msg_builder (he_zc env) (he_base env) mid req_id (he_encode env (ComponentMetadataMsg meta)) p)"

text \<open>The log of a message stream is made when it does not exist.\<close>

definition db_ensure_log :: "packet_id \<Rightarrow> 'm db \<Rightarrow> 'm db" where
  "db_ensure_log pid d = d\<lparr>db_st := snd (get_or_insert_msg_log (db_st d) pid)\<rparr>"

definition udp_vtable_stream :: "nat \<Rightarrow> packet_id \<Rightarrow> byte \<Rightarrow> 'm db \<Rightarrow> (db_error + unit) \<times> 'm db \<times> task list" where
  "udp_vtable_stream addr pid req_id d =
     (if (addr, pid) \<in> st_udp (db_st d) then (Inr (), d, [])
      else (case st_registry (db_st d) pid of
              None \<Rightarrow> (Inl InvalidMsgId, d, [])
            | Some vt \<Rightarrow> (Inr (), d\<lparr>db_st := (db_st d)\<lparr>st_udp := insert (addr, pid) (st_udp (db_st d))\<rparr>\<rparr>, [UdpVTableTask addr pid vt req_id])))"

section \<open>The handler\<close>

type_synonym 'm outcome = "((db_error + unit) \<times> 'm db \<times> pkt_tx \<times> task list) option"

definition replied :: "'m db \<Rightarrow> ((db_error + unit) \<times> pkt_tx) option \<Rightarrow> 'm outcome" where
  "replied d = map_option (\<lambda>(r, tx). (r, d, tx, []))"

definition updated :: "pkt_tx \<Rightarrow> ((db_error + unit) \<times> 'm db) option \<Rightarrow> 'm outcome" where
  "updated tx = map_option (\<lambda>(r, d). (r, d, tx, []))"

text \<open>A parsed message; \<open>base\<close> is the address of the packet's bytes.\<close>

fun handle_request :: "'m handler_env \<Rightarrow> nat \<Rightarrow> 'm db \<Rightarrow> pkt_tx \<Rightarrow> 'm request \<Rightarrow> 'm outcome" where
  "handle_request env base d tx (VTableMsg pid vt) =
     updated tx (insert_vtable (he_codecs env) (he_os env) (he_zc env) base pid vt d)"
| "handle_request env base d tx (UdpUnicast addr sid behavior) =
     (case he_resolve env addr of
        Inl e \<Rightarrow> Some (Inl e, d, tx, [])
      | Inr a \<Rightarrow> Some (Inr (), d, tx, [UdpTask a sid behavior]))"
| "handle_request env base d tx (StreamMsg sid behavior) =
     (let (t, d) = handle_stream sid behavior (tx_req_id tx) d in Some (Inr (), d, tx, [t]))"
| "handle_request env base d tx (SetStreamState sid playing timestamp time_step frequency) =
     updated tx (Some (set_stream sid playing timestamp frequency d))"
| "handle_request env base d tx (GetSchema cid) =
     (case st_components (db_st d) cid of
        None \<Rightarrow> Some (Inl (ComponentNotFound cid), d, tx, [])
      | Some c \<Rightarrow> Option.bind (to_schema (co_schema c)) (\<lambda>sch. replied d (send_msg env (SchemaMsg sch) tx)))"
| "handle_request env base d tx (GetTimeSeries cid a b limit pid) =
     (case st_components (db_st d) cid of
        None \<Rightarrow> Some (Inl (ComponentNotFound cid), d, tx, [])
      | Some c \<Rightarrow> replied d (send_with_builder (he_zc env) (he_base env) (he_send env)
          (get_time_series (he_zc env) (he_base env) c a b limit pid (tx_req_id tx)) tx))"
| "handle_request env base d tx (SetComponentMetadata meta) =
     (case set_component_metadata (he_codecs env) (he_os env) (db_st d) (db_files d) meta of
        (r, st, fs) \<Rightarrow> updated tx (Some (r, d\<lparr>db_st := st, db_files := fs\<rparr>)))"
| "handle_request env base d tx (GetComponentMetadata cid) =
     replied d (send_with_builder (he_zc env) (he_base env) (he_send env)
       (metadata_builder env (tx_req_id tx) cid d (he_reply_id env (ComponentMetadataMsg \<lparr>cm_id = cid, cm_name = [], cm_metadata = fmempty\<rparr>))) tx)"
| "handle_request env base d tx DumpMetadata = replied d (send_msg env (dump_metadata env d) tx)"
| "handle_request env base d tx DumpSchema =
     Option.bind (dump_schema (st_components (db_st d)) (he_components env)) (\<lambda>schemas.
       replied d (send_msg env (DumpSchemaResp schemas) tx))"
| "handle_request env base d tx SubscribeLastUpdated = Some (Inr (), d, tx, [LastUpdatedTask (tx_req_id tx)])"
| "handle_request env base d tx (SetDbConfig recording metadata) =
     (case set_db_config (he_codecs env) (he_os env) recording metadata d of
        (Inl e, d) \<Rightarrow> Some (Inl e, d, tx, [])
      | (Inr _, d) \<Rightarrow> replied d (send_msg env (DbConfigMsg (st_config (db_st d))) tx))"
| "handle_request env base d tx GetEarliestTimestamp = replied d (send_msg env (EarliestTimestamp (db_earliest d)) tx)"
| "handle_request env base d tx GetDbSettings = replied d (send_msg env (DbConfigMsg (st_config (db_st d))) tx)"
| "handle_request env base d tx (SQLQuery query) = replied d (sql_query env query tx)"
| "handle_request env base d tx (SetMsgMetadata pid meta) =
     (case set_msg_metadata (he_meta_os env) (db_st d) pid meta of (r, st) \<Rightarrow> updated tx (Some (r, d\<lparr>db_st := st\<rparr>)))"
| "handle_request env base d tx (MsgStream pid) = Some (Inr (), db_ensure_log pid d, tx, [MsgStreamTask pid (tx_req_id tx)])"
| "handle_request env base d tx (FixedRateMsgStream pid f) =
     (let (s, d) = get_or_insert_fixed_rate (db_ensure_log pid d) (fo_stream f) (fo_initial f) (fo_timestep f) (fo_frequency f)
      in Some (Inr (), d, tx, [FixedRateMsgTask pid (tx_req_id tx) (fr_id s)]))"
| "handle_request env base d tx (GetMsgMetadata pid) =
     (case Option.bind (st_msg_logs (db_st d) pid) ml_metadata of
        None \<Rightarrow> Some (Inl (MsgNotFound [fst pid, snd pid]), d, tx, [])
      | Some meta \<Rightarrow> replied d (send_msg env (MsgMetadataMsg meta) tx))"
| "handle_request env base d tx (GetMsgs pid a b limit) =
     (case st_msg_logs (db_st d) pid of
        None \<Rightarrow> Some (Inl (MsgNotFound [fst pid, snd pid]), d, tx, [])
      | Some l \<Rightarrow> Option.bind (get_msgs l a b limit) (\<lambda>ms. replied d (send_msg env (MsgBatch ms) tx)))"
| "handle_request env base d tx (SaveArchive path format) =
     (case he_archive env path format of
        Inl e \<Rightarrow> Some (Inl e, d, tx, [])
      | Inr _ \<Rightarrow> replied d (send_msg env (ArchiveSaved path) tx))"
| "handle_request env base d tx (VTableStreamMsg pid) =
     (case st_registry (db_st d) pid of
        None \<Rightarrow> Some (Inl InvalidMsgId, d, tx, [])
      | Some vt \<Rightarrow> Some (Inr (), d, tx, [VTableTask pid vt (tx_req_id tx)]))"
| "handle_request env base d tx (UdpVTableStream pid addr) =
     (case he_resolve env addr of
        Inl e \<Rightarrow> Some (Inl e, d, tx, [])
      | Inr a \<Rightarrow> (case udp_vtable_stream a pid (tx_req_id tx) d of (r, d, ts) \<Rightarrow> Some (r, d, tx, ts)))"

text \<open>\<open>handle_packet\<close>: a message of no request type is stored in its log.\<close>

definition handle_packet :: "'m handler_env \<Rightarrow> owned_packet \<Rightarrow> 'm db \<Rightarrow> pkt_tx \<Rightarrow> 'm outcome" where
  "handle_packet env pkt d tx =
     (case pkt of
        PktMsg m \<Rightarrow>
          (case he_decode env (mb_id m) of
             Some dec \<Rightarrow>
               (case mb_parse dec m of
                  Inl e \<Rightarrow> Some (Inl (Impeller e), d, tx, [])
                | Inr r \<Rightarrow> handle_request env (fst (mb_buf m)) d tx r)
           | None \<Rightarrow> updated tx (push_msg d (case mb_timestamp m of None \<Rightarrow> he_now env | Some t \<Rightarrow> t) (mb_id m) (snd (mb_buf m))))
      | PktTable t \<Rightarrow> updated tx (handle_table (he_zc env) (fst (ot_buf t)) (he_now env) t d)
      | PktTimeSeries _ \<Rightarrow> Some (Inr (), d, tx, []))"

text \<open>
  One turn of the connection's loop: a failed request is answered with an error, unless the
  connection is closed; the packet must have been given back.
\<close>

definition conn_turn :: "'m handler_env \<Rightarrow> owned_packet \<Rightarrow> 'm db \<Rightarrow> len_packet \<Rightarrow> ('m db \<times> len_packet \<times> len_packet list \<times> task list) option" where
  "conn_turn env pkt d resp_pkt =
     (case handle_packet env pkt d \<lparr>tx_req_id = pkt_req_id pkt, tx_pkt = Some resp_pkt, tx_sent = []\<rparr> of
        None \<Rightarrow> None
      | Some (r, d, tx, ts) \<Rightarrow>
          Option.bind (case r of
             Inr _ \<Rightarrow> Some tx
           | Inl e \<Rightarrow> if is_stream_closed e then Some tx else map_option snd (send_msg env (ErrorResponse (he_describe env e)) tx))
          (\<lambda>tx. map_option (\<lambda>p. (d, p, tx_sent tx, ts)) (tx_pkt tx)))"

end
