(* ===== verification/MessageServe.thy ===== *)
theory MessageServe
  imports Handlers
begin

text \<open>
  Serving messages (\<open>GetMsgs\<close>, \<open>handle_msg_stream\<close> and \<open>handle_fixed_rate_msg_stream\<close> of
  \<open>libs/db/src/lib.rs\<close>): the turns of the two tasks, what a batch holds, what a receiver reads
  of a streamed message, and that a fixed-rate stream of an empty log spins.
\<close>

section \<open>The tasks\<close>

text \<open>One turn, when the log was written to: the packet sent, if any, and the packet kept.\<close>

definition msg_stream_open :: "packet_id \<Rightarrow> byte \<Rightarrow> len_packet option" where
  "msg_stream_open pid req_id = lp_with_request_id (lp_msg pid) req_id"

definition msg_stream_turn :: "'m msg_log \<Rightarrow> len_packet \<Rightarrow> (len_packet option \<times> len_packet) option" where
  "msg_stream_turn l pkt =
     (case ml_latest l of
        None \<Rightarrow> None
      | Some None \<Rightarrow> Some (None, pkt)
      | Some (Some r) \<Rightarrow>
          (let pkt = lp_clear pkt
           in case msg_ref_data l r of
                None \<Rightarrow> None
              | Some None \<Rightarrow> Some (None, pkt)
              | Some (Some msg) \<Rightarrow> map_option (\<lambda>pkt. (Some pkt, pkt)) (lp_extend_from_slice pkt msg)))"

record fixed_msg_stream =
  fm_pkt :: len_packet
  fm_last_sent :: "int option"

definition fixed_msg_open :: "packet_id \<Rightarrow> byte \<Rightarrow> fixed_msg_stream option" where
  "fixed_msg_open pid req_id =
     Option.bind (lp_msg_with_timestamp pid 0) (\<lambda>pkt.
       map_option (\<lambda>pkt. \<lparr>fm_pkt = pkt, fm_last_sent = None\<rparr>) (lp_with_request_id pkt req_id))"

text \<open>
  One turn of the fixed-rate task, with the stream's state: nothing while it is paused; no
  wait when there is no message; a message that was just sent is not sent again.
\<close>

definition fixed_msg_turn :: "'m msg_log \<Rightarrow> fixed_msg_stream \<Rightarrow> stream_state \<Rightarrow> nat \<Rightarrow> (stream_state \<Rightarrow> stream_state) \<Rightarrow>
    (len_packet option \<times> fixed_msg_stream \<times> stream_state) option" where
  "fixed_msg_turn l fm s elapsed during =
     (case fr_poll_playing s of
        (False, s) \<Rightarrow> Some (None, fm, s)
      | (True, s) \<Rightarrow>
          (let current = fr_tick s;
               tick = (\<lambda>sent fm. map_option (\<lambda>(_, s). (sent, fm, s)) (fr_wait_for_tick s elapsed current during))
           in case ml_get_nearest l current of
                None \<Rightarrow> None
              | Some None \<Rightarrow> Some (None, fm, s)
              | Some (Some r) \<Rightarrow>
                  (case msg_ref_data l r of
                     None \<Rightarrow> None
                   | Some None \<Rightarrow> Some (None, fm, s)
                   | Some (Some msg) \<Rightarrow>
                       if fm_last_sent fm = Some (tr_timestamp r) then tick None fm
                       else Option.bind (lp_extend_from_slice (lp_clear (fm_pkt fm)) (i64_to_le (tr_timestamp r))) (\<lambda>pkt.
                         Option.bind (lp_extend_from_slice pkt msg) (\<lambda>pkt.
                           tick (Some pkt) \<lparr>fm_pkt = pkt, fm_last_sent = Some (tr_timestamp r)\<rparr>)))))"

section \<open>Batches\<close>

lemma node_msgs_facts:
  assumes "msg_node_ok n"
  shows "msg_timestamps n = Some (i64_elems (al_data (mn_timestamps n)))"
    "map fst (node_msgs n) = i64_elems (al_data (mn_timestamps n))" "length (node_msgs n) = buf_count (mn_bufs n)"
    "i < buf_count (mn_bufs n) \<Longrightarrow> get_msg (mn_bufs n) i = Some (Some (snd (node_msgs n ! i)))"
proof -
  have l: "length (al_data (mn_timestamps n)) = 8 * buf_count (mn_bufs n)" using assms by (simp add: msg_node_ok_def)
  then show "msg_timestamps n = Some (i64_elems (al_data (mn_timestamps n)))" by (simp add: msg_timestamps_def i64_view_def)
  show "map fst (node_msgs n) = i64_elems (al_data (mn_timestamps n))"
    using l by (simp add: node_msgs_def comp_def) (metis length_i64_elems map_nth nonzero_mult_div_cancel_left zero_neq_numeral)
  show "length (node_msgs n) = buf_count (mn_bufs n)" by (simp add: node_msgs_def)
  assume "i < buf_count (mn_bufs n)"
  then show "get_msg (mn_bufs n) i = Some (Some (snd (node_msgs n ! i)))" using assms by (auto simp: msg_node_ok_def node_msgs_def)
qed

text \<open>The limit as the loops apply it: at least one message is collected.\<close>

definition cut_off :: "nat option \<Rightarrow> 'a list \<Rightarrow> 'a list" where
  "cut_off limit xs = (case limit of None \<Rightarrow> xs | Some l \<Rightarrow> take (max 1 l) xs)"

lemma collect_node_all:
  assumes "msg_node_ok n" "\<forall>i \<in> set is. i < buf_count (mn_bufs n)" "\<not> limit_reached limit acc \<or> acc = []"
  shows "collect_node limit n (map fst (node_msgs n)) is acc = Some (cut_off limit (acc @ map ((!) (node_msgs n)) is))"
  using assms(2,3)
proof (induction "is" arbitrary: acc)
  case Nil
  then show ?case by (auto simp: cut_off_def limit_reached_def split: option.splits)
next
  case (Cons i "is")
  note f = node_msgs_facts [OF assms(1)]
  have i: "i < buf_count (mn_bufs n)" "i < length (node_msgs n)" using Cons.prems(1) f(3) by simp_all
  have e: "(map fst (node_msgs n) ! i, snd (node_msgs n ! i)) = node_msgs n ! i" using i(2) by simp
  have s: "collect_node limit n (map fst (node_msgs n)) (i # is) acc =
      (if limit_reached limit (acc @ [node_msgs n ! i]) then Some (acc @ [node_msgs n ! i])
       else collect_node limit n (map fst (node_msgs n)) is (acc @ [node_msgs n ! i]))"
    using f(4) [OF i(1)] i(2) e by (simp add: get_index_def Let_def)
  show ?case
  proof (cases "limit_reached limit (acc @ [node_msgs n ! i])")
    case True
    then obtain l where l: "limit = Some l" "l \<le> length acc + 1" by (auto simp: limit_reached_def split: option.splits)
    then have "max 1 l = length acc + 1" using Cons.prems(2) by (auto simp: limit_reached_def)
    then show ?thesis using s True l by (simp add: cut_off_def)
  next
    case False
    then show ?thesis using s Cons.IH [of "acc @ [node_msgs n ! i]"] Cons.prems(1) by simp
  qed
qed

lemma map_nth_slice: "j \<le> length xs \<Longrightarrow> map ((!) xs) [i..<j] = slice i j xs"
  by (rule nth_equalityI) (auto simp: length_slice slice_nth)

text \<open>On a log of one node with increasing timestamps a request for a range of messages is answered
  with the messages of the range, both bounds included, in order, up to the limit; a limit of
  zero still yields one message.\<close>

theorem get_msgs_one_node:
  assumes inv: "ml_inv l" "ml_nodes l = [n]" and srt: "sorted_wrt (<) (map fst (node_msgs n))" and ne: "node_msgs n \<noteq> []"
    and ab: "a \<le> b" "fst (hd (node_msgs n)) \<le> b"
  shows "get_msgs l a b limit = Some (cut_off limit (filter (\<lambda>x. a \<le> fst x \<and> fst x \<le> b) (ml_msgs l)))"
proof -
  have n: "msg_node_ok n" using inv by (simp add: ml_inv_def)
  note f = node_msgs_facts [OF n]
  let ?xs = "map fst (node_msgs n)"
  have x: "msg_timestamps n = Some ?xs" using f(1,2) by simp
  have xs: "?xs \<noteq> []" "hd ?xs \<le> b" using ne ab(2) by (simp_all add: hd_map)
  obtain t1 t2 i j where
    s: "nearest_loop [Some ?xs] a False None = Some (Some \<lparr>tr_node = 0, tr_timestamp = t1, tr_index = i\<rparr>)"
      "nearest_loop [Some ?xs] b True None = Some (Some \<lparr>tr_node = 0, tr_timestamp = t2, tr_index = j\<rparr>)"
    and ij: "i \<le> j + 1" "j < length ?xs"
    and h: "slice i (j + 1) (node_msgs n) = filter (\<lambda>x. a \<le> fst x \<and> fst x \<le> b) (node_msgs n)"
    using range_search [OF srt xs(1) ab(1) xs(2), of "fst :: int \<times> byte list \<Rightarrow> int"] by blast
  let ?r1 = "\<lparr>tr_node = 0, tr_timestamp = t1, tr_index = i\<rparr>" and ?r2 = "\<lparr>tr_node = 0, tr_timestamp = t2, tr_index = j\<rparr>"
  have r: "ml_get_range l a b = Some (Some (?r1, ?r2))"
    using s by (simp add: ml_get_range_def ml_nearest_def inv(2) x del: nearest_loop.simps)
  have it: "msg_iter l ?r1 ?r2 = [\<lparr>ms_node = n, ms_start = i, ms_end = j\<rparr>]" by (simp add: msg_iter_def inv(2))
  have j: "Suc (min j (length ?xs - 1)) = j + 1" "j + 1 \<le> length (node_msgs n)" using ij(2) by simp_all
  have "collect_node limit n ?xs [i..<j + 1] [] = Some (cut_off limit ([] @ map ((!) (node_msgs n)) [i..<j + 1]))"
    by (rule collect_node_all [OF n]) (use j(2) f(3) in auto)
  then have "collect_node limit n ?xs [i..<j + 1] [] = Some (cut_off limit (filter (\<lambda>x. a \<le> fst x \<and> fst x \<le> b) (ml_msgs l)))"
    using map_nth_slice [OF j(2)] h inv(2) by (simp add: ml_msgs_def)
  then show ?thesis using r it x j(1) by (simp add: get_msgs_def)
qed

text \<open>A log of two inline messages.\<close>

definition demo_node :: msg_node where
  "demo_node = \<lparr>mn_timestamps = \<lparr>al_map = replicate 24 0 @ (i64_to_le 5 @ i64_to_le 6) @ replicate 80 0, al_committed = 40, al_head = 0, al_extra = (), al_hdr = 24\<rparr>,
     mn_bufs = \<lparr>bl_offsets = sample_log () (umbra_bytes (with_inline 1 (9 # replicate 11 0)) @ umbra_bytes (with_inline 0 (replicate 12 0))),
       bl_data_log = sample_log () []\<rparr>\<rparr>"

definition demo_log :: "nat msg_log" where
  "demo_log = ml_create\<lparr>ml_nodes := [demo_node]\<rparr>"

lemma demo_node_facts: "msg_node_ok demo_node" "node_msgs demo_node = [(5, [9]), (6, [])]"
proof -
  have bufs: "bl_bufs (mn_bufs demo_node) = Some [with_inline 1 (9 # replicate 11 0), with_inline 0 (replicate 12 0)]"
    by (simp add: demo_node_def bl_bufs_def umbra_bytes_def with_inline_def umbra_of_bytes_def slice_def le_simps numeral_2_eq_2 upt_rec)
  then have g: "get_msg (mn_bufs demo_node) 0 = Some (Some [9])" "get_msg (mn_bufs demo_node) 1 = Some (Some [])"
    by (simp_all add: get_msg_def with_inline_def get_index_def get_range_def slice_def)
  have c: "buf_count (mn_bufs demo_node) = 2" by (simp add: demo_node_def buf_count_def umbra_bytes_roundtrip(1) with_inline_def)
  have e: "i64_elems (al_data (mn_timestamps demo_node)) = [5, 6]"
    using i64_elems_concat [of "[5, 6]"]
    by (simp add: demo_node_def i64_range_def al_data_def slice_append2) (simp add: slice_def)
  show "node_msgs demo_node = [(5, [9]), (6, [])]" unfolding node_msgs_def c e using g by (simp add: numeral_2_eq_2)
  have b: "buf_inv (mn_bufs demo_node)" by (simp add: demo_node_def buf_inv_def umbra_bytes_roundtrip(1) with_inline_def)
  have t: "al_inv (mn_timestamps demo_node)" "al_len (mn_timestamps demo_node) = 16" "al_capacity (mn_timestamps demo_node) = 96"
    by (simp_all add: demo_node_def al_inv_def al_len_def al_capacity_def)
  have k: "al_capacity (bl_offsets (mn_bufs demo_node)) = 96" by (simp add: demo_node_def umbra_bytes_roundtrip(1) with_inline_def)
  have "\<exists>m. get_msg (mn_bufs demo_node) i = Some (Some m)" if "i < 2" for i
    using that g unfolding less_2_cases_iff by auto
  then show "msg_node_ok demo_node" using b t k c by (simp add: msg_node_ok_def)
qed


section \<open>Streams of messages\<close>

lemma clear_extend: "lp_extend_from_slice (lp_clear (lp_of ty pid req body)) bs = Some (lp_of ty pid req bs)"
proof -
  have "lp_clear (lp_of ty pid req body) = lp_of ty pid req []"
    by (simp add: lp_clear_def lp_set_len_def lp_of_def splice_def packet_header_len_def)
  then show ?thesis using lp_of_ops(2) [of ty pid req "[]" bs] by simp
qed

text \<open>What the message stream sends is the latest message of the log, under the stream's id.\<close>

lemma msg_stream_readable:
  assumes "zc_spec zc" "msg_stream_turn l (lp_of Msg pid req body) = Some (Some p, pkt)"
  shows "\<exists>r msg. ml_latest l = Some (Some r) \<and> msg_ref_data l r = Some (Some msg) \<and> pkt = lp_of Msg pid req msg \<and>
    parse_packet zc (addr, drop 4 p) = Some (Inr (PktMsg \<lparr>mb_id = pid, mb_req_id = req, mb_timestamp = None, mb_buf = (addr + 4, msg)\<rparr>))"
  using assms(2) msg_parses [OF assms(1), of addr pid req] by (auto simp: msg_stream_turn_def clear_extend Let_def split: option.splits)

text \<open>What the fixed-rate stream sends is the message nearest to the stream's tick, with its
  timestamp, and the message sent before is never sent twice in a row.\<close>

lemma fixed_msg_readable:
  assumes "zc_spec zc" "fm_pkt fm = lp_of MsgWithTimestamp pid req body" "fixed_msg_turn l fm s elapsed during = Some (Some p, fm', s')"
  shows "\<exists>r msg. ml_get_nearest l (fr_tick s) = Some (Some r) \<and> msg_ref_data l r = Some (Some msg) \<and>
    fm_last_sent fm \<noteq> Some (tr_timestamp r) \<and> fm_last_sent fm' = Some (tr_timestamp r) \<and>
    fm_pkt fm' = lp_of MsgWithTimestamp pid req (i64_to_le (tr_timestamp r) @ msg) \<and> p = fm_pkt fm'"
proof -
  have t: "fr_tick (snd (fr_poll_playing s)) = fr_tick s" by (simp add: fr_poll_playing_def fr_is_scrubbed_def)
  obtain s1 where s1: "fr_poll_playing s = (True, s1)" "fr_tick s1 = fr_tick s"
    using assms(3) t by (cases "fr_poll_playing s") (auto simp: fixed_msg_turn_def split: bool.splits)
  show ?thesis using assms(2,3) lp_of_ops(2)
    by (auto simp: fixed_msg_turn_def s1 clear_extend Let_def bind_eq_Some_conv split: option.splits if_splits)
qed

text \<open>With an empty log a playing fixed-rate stream turns without waiting and without sending.\<close>

lemma fixed_msg_spins:
  "pc_is_playing (fr_cell s) \<Longrightarrow> ml_nodes l = [] \<Longrightarrow> fixed_msg_turn l fm s elapsed during = Some (None, fm, s)"
  by (simp add: fixed_msg_turn_def fr_poll_playing_def ml_get_nearest_def ml_nearest_def)

end
