(* ===== verification/Framing.thy ===== *)
theory Framing
  imports ProtoTypes
begin

text \<open>
  Length-delimited framing over a byte stream: \<open>AsyncRead\<close>, \<open>AsyncWrite\<close> and
  \<open>LengthDelReader\<close> of \<open>libs/stellarator/src/io.rs\<close>.  What the operating system delivers is
  the list of chunks still to arrive: the bytes of one segment, or a failure; after the last
  chunk the peer has closed its end.  A read takes at most one chunk and leaves what its
  buffer cannot hold.  A buffer is its initialised bytes, and waiting does not show.
\<close>

section \<open>The socket\<close>

datatype chunk = Data "byte list" | Fail stellar_error

fun sock_read :: "nat \<Rightarrow> chunk list \<Rightarrow> (stellar_error + byte list) \<times> chunk list" where
  "sock_read n [] = (Inr [], [])"
| "sock_read n (Data bs # cs) = (if length bs \<le> n then (Inr bs, cs) else (Inr (take n bs), Data (drop n bs) # cs))"
| "sock_read n (Fail e # cs) = (Inl e, cs)"

text \<open>The number of bytes still to arrive, failures included.\<close>

definition left :: "chunk list \<Rightarrow> nat" where
  "left cs = sum_list (map (\<lambda>c. case c of Data bs \<Rightarrow> length bs | Fail _ \<Rightarrow> 0) cs)"

lemma left_simps [simp]:
  "left [] = 0" "left (Data bs # cs) = length bs + left cs" "left (Fail e # cs) = left cs"
  by (simp_all add: left_def)

lemma sock_read_left: "sock_read n cs = (Inr bs, cs') \<Longrightarrow> left cs = length bs + left cs' \<and> length bs \<le> n"
  by (induction n cs rule: sock_read.induct) (auto split: if_splits)

text \<open>\<open>read_exact\<close> of \<open>buf[got..]\<close>, with the buffer that is handed back.\<close>

function read_exact :: "byte list \<Rightarrow> nat \<Rightarrow> chunk list \<Rightarrow> (stellar_error + unit) \<times> byte list \<times> chunk list" where
  "read_exact buf got cs =
     (if got < length buf then
        (case sock_read (length buf - got) cs of
           (Inl e, cs) \<Rightarrow> (Inl e, buf, cs)
         | (Inr bs, cs) \<Rightarrow>
             if bs = [] then (Inl EOF, buf, cs) else read_exact (splice got bs buf) (got + length bs) cs)
      else (Inr (), buf, cs))"
  by pat_completeness auto
termination
proof (relation "measure (\<lambda>(buf, got, cs). length buf - got)", goal_cases)
  case (2 buf got cs r cs' bs)
  then have "length bs \<le> length buf - got" "bs \<noteq> []" using sock_read_left [of "length buf - got" cs bs cs'] by simp_all
  moreover from this have "length (splice got bs buf) = length buf" using 2(1) by (simp add: length_splice)
  ultimately show ?case using 2(1) by (cases bs) auto
qed simp

text \<open>
  \<open>write_all\<close> of \<open>buf[got..]\<close>.  The socket's answers are a list: a failure, or the
  number of bytes it has room for.  When the list is used up the writer still waits.
  Returned are the verdict, the bytes that went out and the answers left.
\<close>

fun write_all :: "byte list \<Rightarrow> nat \<Rightarrow> (stellar_error + nat) list \<Rightarrow>
    ((stellar_error + unit) \<times> byte list \<times> (stellar_error + nat) list) option" where
  "write_all buf got rs =
     (if got < length buf then
        (case rs of
           [] \<Rightarrow> None
         | Inl e # rs \<Rightarrow> Some (Inl e, [], rs)
         | Inr room # rs \<Rightarrow>
             (let n = min room (length buf - got)
              in if n = 0 then Some (Inl EOF, [], rs)
                 else map_option (\<lambda>(r, out, rs). (r, slice got (got + n) buf @ out, rs)) (write_all buf (got + n) rs)))
      else Some (Inr (), [], rs))"

declare write_all.simps [simp del] read_exact.simps [simp del]

section \<open>The length-delimited reader\<close>

record del_reader =
  ld_scratch :: "byte list"
  ld_input :: "chunk list"

definition ld_new :: "chunk list \<Rightarrow> del_reader" where
  "ld_new cs = \<lparr>ld_scratch = [], ld_input = cs\<rparr>"

text \<open>What is left over from an earlier read comes first.\<close>

definition ld_read :: "nat \<Rightarrow> del_reader \<Rightarrow> (stellar_error + byte list) \<times> del_reader" where
  "ld_read n rd =
     (if ld_scratch rd \<noteq> [] then
        (let take_len = min (length (ld_scratch rd)) n
         in (Inr (take take_len (ld_scratch rd)), rd\<lparr>ld_scratch := drop take_len (ld_scratch rd)\<rparr>))
      else
        (let (r, cs) = sock_read n (ld_input rd) in (r, rd\<lparr>ld_input := cs\<rparr>)))"

definition ld_left :: "del_reader \<Rightarrow> nat" where
  "ld_left rd = length (ld_scratch rd) + left (ld_input rd)"

lemma ld_read_left: "ld_read n rd = (Inr bs, rd') \<Longrightarrow> ld_left rd = length bs + ld_left rd' \<and> length bs \<le> n"
  by (auto simp: ld_read_def ld_left_def Let_def dest!: sock_read_left split: if_splits prod.splits)

text \<open>
  The two reading loops of \<open>recv_growable\<close>: read into \<open>buf[got..]\<close> until \<open>target\<close> bytes
  are there.  \<open>None\<close> when \<open>try_slice\<close> finds no room, the buffer and the got otherwise.
\<close>

function ld_fill :: "nat \<Rightarrow> byte list \<Rightarrow> nat \<Rightarrow> del_reader \<Rightarrow> (stellar_error + byte list \<times> nat) option \<times> del_reader" where
  "ld_fill target buf got rd =
     (if got < target then
        if length buf \<le> got then (None, rd)
        else
          (case ld_read (length buf - got) rd of
             (Inl e, rd) \<Rightarrow> (Some (Inl e), rd)
           | (Inr bs, rd) \<Rightarrow>
               if bs = [] then (Some (Inl EOF), rd) else ld_fill target (splice got bs buf) (got + length bs) rd)
      else (Some (Inr (buf, got)), rd))"
  by pat_completeness auto
termination
proof (relation "measure (\<lambda>(target, buf, got, rd). target - got)", goal_cases)
  case (2 target buf got rd r rd' bs)
  then show ?case by (cases bs) auto
qed simp

declare ld_fill.simps [simp del]

text \<open>\<open>GrowableBuf\<close>: a \<open>Vec\<close> is filled up with zeros, the wrapper of \<open>recv\<close> does not grow.\<close>

definition grow :: "bool \<Rightarrow> nat \<Rightarrow> byte list \<Rightarrow> byte list" where
  "grow growable new_len buf = (if growable \<and> length buf < new_len then buf @ replicate (new_len - length buf) 0 else buf)"

text \<open>
  \<open>recv\<close> and \<open>recv_growable\<close> for a length field of \<open>sz\<close> bytes: the buffer and the end of
  the frame in it, which begins at \<open>sz\<close>.  The first loop unwraps its slice: \<open>None\<close> is its
  panic.
\<close>

definition ld_recv :: "nat \<Rightarrow> bool \<Rightarrow> byte list \<Rightarrow> del_reader \<Rightarrow> ((stellar_error + byte list \<times> nat) \<times> del_reader) option" where
  "ld_recv sz growable buf rd =
     (case ld_fill sz buf 0 rd of
        (None, rd) \<Rightarrow> None
      | (Some (Inl e), rd) \<Rightarrow> Some (Inl e, rd)
      | (Some (Inr (buf, got)), rd) \<Rightarrow>
          (let required_len = le_to_nat (take sz buf) + sz
           in if 2 ^ 64 \<le> required_len then Some (Inl IntegerOverflow, rd)
              else
                (case ld_fill required_len (grow growable required_len buf) got rd of
                   (None, rd) \<Rightarrow> Some (Inl StellarBufferOverflow, rd)
                 | (Some (Inl e), rd) \<Rightarrow> Some (Inl e, rd)
                 | (Some (Inr (buf, got)), rd) \<Rightarrow>
                     (let rd = rd\<lparr>ld_scratch := ld_scratch rd @ slice required_len got buf\<rparr>
                      in if sz < length buf then Some (Inr (buf, required_len), rd)
                         else Some (Inl StellarBufferOverflow, rd)))))"

section \<open>What a reader will still deliver\<close>

definition chunk_bytes :: "chunk \<Rightarrow> byte list" where
  "chunk_bytes c = (case c of Data bs \<Rightarrow> bs | Fail _ \<Rightarrow> [])"

definition unread :: "del_reader \<Rightarrow> byte list" where
  "unread rd = ld_scratch rd @ concat (map chunk_bytes (ld_input rd))"

definition flowing :: "chunk list \<Rightarrow> bool" where
  "flowing cs \<longleftrightarrow> (\<forall>c \<in> set cs. chunk_bytes c \<noteq> [])"

lemma flowing_simps [simp]:
  "flowing []" "flowing (Data bs # cs) \<longleftrightarrow> bs \<noteq> [] \<and> flowing cs" "\<not> flowing (Fail e # cs)"
  by (auto simp: flowing_def chunk_bytes_def)

lemma chunk_bytes_simps [simp]: "chunk_bytes (Data bs) = bs" "chunk_bytes (Fail e) = []"
  by (simp_all add: chunk_bytes_def)

lemma length_unread: "length (unread rd) = ld_left rd"
proof -
  have "length (concat (map chunk_bytes cs)) = left cs" for cs
    by (induction cs) (auto simp: left_def chunk_bytes_def split: chunk.split)
  then show ?thesis by (simp add: unread_def ld_left_def)
qed

lemma sock_read_flowing:
  assumes "flowing cs" "cs \<noteq> []" "0 < n"
  shows "\<exists>bs cs'. sock_read n cs = (Inr bs, cs') \<and> bs \<noteq> [] \<and> length bs \<le> n \<and> flowing cs' \<and>
    concat (map chunk_bytes cs) = bs @ concat (map chunk_bytes cs')"
proof (cases cs)
  case (Cons c cs'')
  then obtain bs where "c = Data bs" "bs \<noteq> []" "flowing cs''" using assms(1) by (cases c) auto
  then show ?thesis using Cons assms(3) by (simp add: append_assoc [symmetric] del: append_assoc)
qed (use assms in simp)

text \<open>
  A read hands out the next bytes of the pending stream; it drains the scratch when its
  buffer holds all of it.
\<close>

lemma ld_read_unread:
  assumes "flowing (ld_input rd)" "unread rd \<noteq> []" "0 < n"
  shows "\<exists>bs rd'. ld_read n rd = (Inr bs, rd') \<and> bs \<noteq> [] \<and> length bs \<le> n \<and> flowing (ld_input rd') \<and>
    unread rd = bs @ unread rd' \<and> (length (ld_scratch rd) \<le> n \<longrightarrow> ld_scratch rd' = [])"
proof (cases "ld_scratch rd = []")
  case True
  then have "ld_input rd \<noteq> []" using assms(2) by (auto simp: unread_def)
  from sock_read_flowing [OF assms(1) this assms(3)] show ?thesis
    using True by (auto simp: ld_read_def unread_def)
next
  case False
  then show ?thesis using assms(1,3)
    by (auto simp: ld_read_def unread_def Let_def min_def append_assoc [symmetric] simp del: append_assoc)
qed

text \<open>
  The reading loop moves the pending stream into the buffer: what is in the buffer, followed
  by what is pending, stays the same.
\<close>

lemma ld_fill_unread:
  assumes "flowing (ld_input rd)" "target \<le> length buf" "got \<le> length buf"
    "target \<le> got + length (unread rd)" "length (ld_scratch rd) \<le> length buf - got"
  shows "\<exists>buf' got' rd'. ld_fill target buf got rd = (Some (Inr (buf', got')), rd') \<and>
    length buf' = length buf \<and> target \<le> got' \<and> got \<le> got' \<and> got' \<le> length buf \<and> flowing (ld_input rd') \<and>
    take got' buf' @ unread rd' = take got buf @ unread rd \<and> (if target \<le> got then rd' = rd else ld_scratch rd' = [])"
  using assms
proof (induction target buf got rd rule: ld_fill.induct)
  case (1 target buf got rd)
  show ?case
  proof (cases "got < target")
    case True
    then have n: "0 < length buf - got" "unread rd \<noteq> []" using "1.prems" by auto
    from ld_read_unread [OF "1.prems"(1) n(2,1)] obtain bs rd1 where
      r: "ld_read (length buf - got) rd = (Inr bs, rd1)" "bs \<noteq> []" "length bs \<le> length buf - got"
        "flowing (ld_input rd1)" "unread rd = bs @ unread rd1" "ld_scratch rd1 = []"
      using "1.prems"(5) by blast
    let ?buf = "splice got bs buf"
    have l: "length ?buf = length buf" using r(3) n(1) by (simp add: length_splice)
    have t: "take (got + length bs) ?buf = take got buf @ bs"
      using r(3) n(1) by (simp add: splice_def)
    have "\<exists>buf' got' rd'. ld_fill target ?buf (got + length bs) rd1 = (Some (Inr (buf', got')), rd') \<and>
      length buf' = length ?buf \<and> target \<le> got' \<and> got + length bs \<le> got' \<and> got' \<le> length ?buf \<and> flowing (ld_input rd') \<and>
      take got' buf' @ unread rd' = take (got + length bs) ?buf @ unread rd1 \<and>
      (if target \<le> got + length bs then rd' = rd1 else ld_scratch rd' = [])"
      by (rule "1.IH" [OF True _ r(1) [symmetric] refl]) (use True n r l "1.prems" in auto)
    then show ?thesis using True n r(1,2,5,6) l
      by (subst ld_fill.simps) (auto simp: t split: if_splits)
  next
    case False
    then show ?thesis using "1.prems" by (subst ld_fill.simps) simp
  qed
qed

lemma length_grow: "length (grow g n buf) = (if g then max n (length buf) else length buf)"
  by (simp add: grow_def max_def)

lemma take_grow: "k \<le> length buf \<Longrightarrow> take k (grow g n buf) = take k buf"
  by (simp add: grow_def)

text \<open>A frame: the payload behind its length.\<close>

definition frame :: "nat \<Rightarrow> byte list \<Rightarrow> byte list" where
  "frame sz body = nat_to_le sz (length body) @ body"

lemma length_frame [simp]: "length (frame sz body) = sz + length body"
  by (simp add: frame_def)

text \<open>
  Receiving one frame: its payload is in the buffer, exactly the frame is gone from the
  pending stream, and the scratch still fits the buffer, which never shrinks.
\<close>

lemma ld_recv_frame:
  assumes fl: "flowing (ld_input rd)" and scr: "length (ld_scratch rd) \<le> length buf"
    and pend: "unread rd = frame sz body @ rest"
    and sz: "0 < sz" "sz < length buf" "length body < 256 ^ sz" "length body + sz < 2 ^ 64"
    and fits: "g \<or> sz + length body \<le> length buf"
  shows "\<exists>buf' rd'. ld_recv sz g buf rd = Some (Inr (buf', sz + length body), rd') \<and>
    slice sz (sz + length body) buf' = body \<and> unread rd' = rest \<and> flowing (ld_input rd') \<and>
    length (ld_scratch rd') \<le> length buf' \<and> length buf \<le> length buf' \<and> sz + length body \<le> length buf' \<and>
    (\<not> g \<longrightarrow> length buf' = length buf)"
proof -
  let ?req = "sz + length body"
  obtain b1 g1 rd1 where f1: "ld_fill sz buf 0 rd = (Some (Inr (b1, g1)), rd1)"
    "length b1 = length buf" "sz \<le> g1" "g1 \<le> length buf" "flowing (ld_input rd1)"
    "take g1 b1 @ unread rd1 = unread rd" "ld_scratch rd1 = []"
    using ld_fill_unread [OF fl, of sz buf 0] scr sz(1,2) pend by auto
  have "take sz (take g1 b1 @ unread rd1) = nat_to_le sz (length body)"
    unfolding f1(6) pend frame_def by simp
  then have "take sz b1 = nat_to_le sz (length body)" using f1(2,3,4) by simp
  then have req: "le_to_nat (take sz b1) + sz = ?req" using sz(3) by (simp add: le_simps)
  let ?b = "grow g ?req b1"
  have lb: "?req \<le> length ?b" "length buf \<le> length ?b" "g1 \<le> length ?b" "\<not> g \<longrightarrow> length ?b = length buf"
    using fits f1(2,4) by (auto simp: length_grow)
  have tot: "g1 + length (unread rd1) = length (unread rd)"
    using arg_cong [OF f1(6), of length] f1(2,4) by simp
  obtain b2 g2 rd2 where f2: "ld_fill ?req ?b g1 rd1 = (Some (Inr (b2, g2)), rd2)"
    "length b2 = length ?b" "?req \<le> g2" "g2 \<le> length ?b" "flowing (ld_input rd2)"
    "take g2 b2 @ unread rd2 = take g1 ?b @ unread rd1" "ld_scratch rd2 = []"
    using ld_fill_unread [OF f1(5) lb(1,3)] tot pend f1(7) by (auto split: if_splits)
  have stream: "take g2 b2 @ unread rd2 = frame sz body @ rest"
    using f2(6) f1(2,4,6) pend by (simp add: take_grow)
  have "take ?req b2 = frame sz body"
    using arg_cong [OF stream, of "take ?req"] f2(2,3,4) by simp
  then have body: "slice sz ?req b2 = body" by (simp add: slice_def take_drop frame_def add.commute)
  have "take g2 b2 = take ?req b2 @ slice ?req g2 b2"
    using f2(3) by (simp add: slice_def take_add [symmetric])
  then have rest: "slice ?req g2 b2 @ unread rd2 = rest" using stream \<open>take ?req b2 = frame sz body\<close> by simp
  let ?rd = "rd2\<lparr>ld_scratch := slice ?req g2 b2\<rparr>"
  have "ld_recv sz g buf rd = Some (Inr (b2, ?req), ?rd)"
    using f1(1) f2(1,2,7) lb(2) sz(2,4) by (simp add: ld_recv_def req Let_def)
  moreover have "unread ?rd = rest" using rest f2(7) by (simp add: unread_def)
  moreover have "length (slice ?req g2 b2) \<le> length b2" using f2(2,4) by (simp add: slice_def)
  ultimately show ?thesis using body f2(2,5) lb by fastforce
qed

section \<open>Progress and writing\<close>

lemma ld_fill_left:
  "ld_fill target buf got rd = (Some (Inr (buf', got')), rd') \<Longrightarrow> target \<le> got' \<and> ld_left rd + got = ld_left rd' + got'"
proof (induction target buf got rd rule: ld_fill.induct)
  case (1 target buf got rd)
  show ?case
  proof (cases "got < target")
    case True
    with "1.prems" obtain bs rd1 where r: "ld_read (length buf - got) rd = (Inr bs, rd1)" "bs \<noteq> []" "\<not> length buf \<le> got"
      "ld_fill target (splice got bs buf) (got + length bs) rd1 = (Some (Inr (buf', got')), rd')"
      by (subst (asm) ld_fill.simps) (auto split: if_splits sum.splits prod.splits)
    from "1.IH" [OF True r(3) r(1) [symmetric] refl r(2,4)] ld_read_left [OF r(1)] show ?thesis by simp
  next
    case False
    then show ?thesis using "1.prems" by (subst (asm) ld_fill.simps) simp
  qed
qed

text \<open>A frame that is received takes its bytes from the connection.\<close>

lemma ld_recv_left: "ld_recv sz g buf rd = Some (Inr (buf', e), rd') \<Longrightarrow> sz \<le> e \<and> ld_left rd' + e \<le> ld_left rd"
  by (auto simp: ld_recv_def Let_def ld_left_def slice_def split: prod.splits option.splits sum.splits if_splits
      dest!: ld_fill_left)

text \<open>A write that succeeds has put out exactly the rest of its buffer, a failed one a prefix of it.\<close>

lemma write_all_out:
  "write_all buf got rs = Some (r, out, rs') \<Longrightarrow> out = take (length out) (drop got buf) \<and> (r = Inr () \<longrightarrow> out = drop got buf)"
proof (induction buf got rs arbitrary: r out rs' rule: write_all.induct)
  case (1 buf got rs)
  show ?case
  proof (cases "got < length buf \<and> (\<exists>room rs1. rs = Inr room # rs1 \<and> 0 < room)")
    case True
    then obtain room rs1 where rs: "rs = Inr room # rs1" "0 < room" "got < length buf" by blast
    let ?n = "min room (length buf - got)"
    have n: "?n \<noteq> 0" using rs by simp
    obtain out1 where w: "write_all buf (got + ?n) rs1 = Some (r, out1, rs')" "out = slice got (got + ?n) buf @ out1"
      using "1.prems" rs n by (subst (asm) write_all.simps) (auto simp: Let_def)
    from "1.IH" [OF rs(3,1) refl refl n w(1)]
    have "out1 = take (length out1) (drop (got + ?n) buf)" "r = Inr () \<longrightarrow> out1 = drop (got + ?n) buf" by simp_all
    moreover have "drop got buf = slice got (got + ?n) buf @ drop (got + ?n) buf"
      by (simp add: slice_def) (metis append_take_drop_id drop_drop add.commute)
    moreover have "length (slice got (got + ?n) buf) = ?n" using rs by (simp add: slice_def)
    ultimately show ?thesis unfolding w(2) by (simp add: take_append)
  next
    case False
    then show ?thesis using "1.prems"
      by (subst (asm) write_all.simps) (auto simp: Let_def split: if_splits list.splits sum.splits)
  qed
qed

section \<open>Frames that arrive in one read\<close>

lemma ld_recv_one_read:
  assumes r: "ld_read (length buf) rd = (Inr (frame sz body @ extra), rd1)"
    and l: "0 < sz" "sz < length buf" "length (frame sz body @ extra) \<le> length buf" "length body < 256 ^ sz" "length body + sz < 2 ^ 64"
  shows "ld_recv sz g buf rd =
    Some (Inr (splice 0 (frame sz body @ extra) buf, sz + length body), rd1\<lparr>ld_scratch := ld_scratch rd1 @ extra\<rparr>)"
proof -
  define bs b where "bs = frame sz body @ extra" and "b = splice 0 bs buf"
  define req where "req = sz + length body"
  have lb: "length b = length buf" "length bs \<le> length buf" using l(3) by (simp_all add: b_def bs_def length_splice)
  have rb: "req \<le> length bs" "sz \<le> length bs" by (simp_all add: bs_def req_def)
  have ne: "bs \<noteq> []" using l(1) rb(2) by auto
  have f1: "ld_fill sz buf 0 rd = (Some (Inr (b, length bs)), rd1)"
    using l(1,2) ne rb(2) r by (subst ld_fill.simps) (auto simp: ld_fill.simps b_def simp flip: bs_def)
  have "take sz b = nat_to_le sz (length body)" by (simp add: b_def bs_def splice_def frame_def)
  then have n: "le_to_nat (take sz b) + sz = req" using l(4) by (simp add: le_simps req_def)
  have g: "grow g req b = b" using lb rb by (simp add: grow_def)
  have f2: "ld_fill req b (length bs) rd1 = (Some (Inr (b, length bs)), rd1)"
    using rb by (simp add: ld_fill.simps)
  have e: "slice req (length bs) b = extra" by (simp add: slice_def splice_def b_def bs_def req_def)
  have "ld_recv sz g buf rd = Some (Inr (b, req), rd1\<lparr>ld_scratch := ld_scratch rd1 @ extra\<rparr>)"
    unfolding ld_recv_def f1 by (simp add: Let_def n g f2 e lb l(2)) (use l(5) in \<open>simp add: req_def add.commute\<close>)
  then show ?thesis by (simp only: b_def bs_def req_def)
qed

text \<open>
  The scratch is put behind what is left of it: with extra scratch than the buffer holds, the
  bytes behind the frame change places.
\<close>

lemma ld_recv_long_scratch:
  assumes "ld_scratch rd = frame sz body @ xs @ ys" "length (frame sz body @ xs) = length buf"
    "0 < sz" "sz < length buf" "length body < 256 ^ sz" "length body + sz < 2 ^ 64"
  shows "ld_recv sz g buf rd =
    Some (Inr (splice 0 (frame sz body @ xs) buf, sz + length body), rd\<lparr>ld_scratch := ys @ xs\<rparr>)"
proof -
  have ne: "ld_scratch rd \<noteq> []" using assms(1,3) by (metis append_is_Nil_conv length_frame list.size(3) add_is_0 less_not_refl)
  have t: "take (length buf) (ld_scratch rd) = frame sz body @ xs" "drop (length buf) (ld_scratch rd) = ys"
    unfolding assms(1) append_assoc [symmetric] assms(2) [symmetric] by simp_all
  have m: "min (length (ld_scratch rd)) (length buf) = length buf" unfolding assms(1) using assms(2) by simp
  have "ld_read (length buf) rd = (Inr (frame sz body @ xs), rd\<lparr>ld_scratch := ys\<rparr>)"
    using ne by (simp add: ld_read_def Let_def m t)
  from ld_recv_one_read [OF this assms(3,4) _ assms(5,6)] show ?thesis using assms(2) by simp
qed

lemma ld_recv_one_chunk:
  assumes "rd = \<lparr>ld_scratch = [], ld_input = Data (frame sz body @ extra) # cs\<rparr>" "length (frame sz body @ extra) \<le> length buf"
    "0 < sz" "sz < length buf" "length body < 256 ^ sz" "length body + sz < 2 ^ 64"
  shows "ld_recv sz g buf rd =
    Some (Inr (splice 0 (frame sz body @ extra) buf, sz + length body), \<lparr>ld_scratch = extra, ld_input = cs\<rparr>)"
proof -
  have "ld_read (length buf) rd = (Inr (frame sz body @ extra), \<lparr>ld_scratch = [], ld_input = cs\<rparr>)"
    using assms(1,2) by (simp add: ld_read_def)
  from ld_recv_one_read [OF this assms(3,4,2,5,6)] show ?thesis by simp
qed

section \<open>Receiving many frames\<close>

text \<open>A reader that receives \<open>n\<close> frames one after the other, giving the buffer back each time.\<close>

fun recv_many :: "nat \<Rightarrow> bool \<Rightarrow> nat \<Rightarrow> byte list \<Rightarrow> del_reader \<Rightarrow> ((stellar_error + byte list list) \<times> byte list \<times> del_reader) option" where
  "recv_many sz g 0 buf rd = Some (Inr [], buf, rd)"
| "recv_many sz g (Suc n) buf rd =
     Option.bind (ld_recv sz g buf rd) (\<lambda>(r, rd). case r of
       Inl e \<Rightarrow> Some (Inl e, buf, rd)
     | Inr (buf, e) \<Rightarrow> map_option (\<lambda>(r, s). (map_sum id ((#) (slice sz e buf)) r, s)) (recv_many sz g n buf rd))"

lemma recv_many_frames:
  assumes "flowing (ld_input rd)" "length (ld_scratch rd) \<le> length buf" "0 < sz" "sz < length buf"
    "unread rd = concat (map (frame sz) bodies) @ rest"
    "\<forall>body \<in> set bodies. length body < 256 ^ sz \<and> length body + sz < 2 ^ 64 \<and> (g \<or> sz + length body \<le> length buf)"
  shows "\<exists>buf' rd'. recv_many sz g (length bodies) buf rd = Some (Inr bodies, buf', rd') \<and> unread rd' = rest"
  using assms
proof (induction bodies arbitrary: buf rd)
  case (Cons body bodies)
  obtain buf1 rd1 where r: "ld_recv sz g buf rd = Some (Inr (buf1, sz + length body), rd1)"
    "slice sz (sz + length body) buf1 = body" "unread rd1 = concat (map (frame sz) bodies) @ rest"
    "flowing (ld_input rd1)" "length (ld_scratch rd1) \<le> length buf1" "length buf \<le> length buf1"
    using ld_recv_frame [OF Cons.prems(1,2), of sz body _ g] Cons.prems(3-6) by auto
  have "\<exists>buf' rd'. recv_many sz g (length bodies) buf1 rd1 = Some (Inr bodies, buf', rd') \<and> unread rd' = rest"
    by (rule Cons.IH) (use r Cons.prems(3,4,6) in fastforce)+
  then show ?case using r(1,2) by auto
qed simp

text \<open>\<open>read_exact\<close> fills the rest of its buffer with the next bytes, when there are enough.\<close>

lemma read_exact_fills:
  "\<lbrakk>flowing cs; got \<le> length buf; length buf - got \<le> length (concat (map chunk_bytes cs))\<rbrakk> \<Longrightarrow>
    \<exists>buf' cs'. read_exact buf got cs = (Inr (), buf', cs') \<and> length buf' = length buf \<and>
      take got buf @ concat (map chunk_bytes cs) = buf' @ concat (map chunk_bytes cs')"
proof (induction buf got cs rule: read_exact.induct)
  case (1 buf got cs)
  show ?case
  proof (cases "got < length buf")
    case True
    then have n: "cs \<noteq> []" "0 < length buf - got" using "1.prems"(3) by auto
    from sock_read_flowing [OF "1.prems"(1) n] obtain bs cs1 where
      r: "sock_read (length buf - got) cs = (Inr bs, cs1)" "bs \<noteq> []" "length bs \<le> length buf - got" "flowing cs1"
        "concat (map chunk_bytes cs) = bs @ concat (map chunk_bytes cs1)" by blast
    let ?buf = "splice got bs buf"
    have l: "length ?buf = length buf" using r(3) True by (simp add: length_splice)
    have t: "take (got + length bs) ?buf = take got buf @ bs" using r(3) True by (simp add: splice_def)
    have "\<exists>buf' cs'. read_exact ?buf (got + length bs) cs1 = (Inr (), buf', cs') \<and> length buf' = length ?buf \<and>
      take (got + length bs) ?buf @ concat (map chunk_bytes cs1) = buf' @ concat (map chunk_bytes cs')"
      by (rule "1.IH" [OF True r(1) [symmetric] refl r(2)]) (use r "1.prems"(3) True l in auto)
    then show ?thesis using True r(1,2,5) l by (subst read_exact.simps) (auto simp: t)
  next
    case False
    then show ?thesis using "1.prems" by (subst read_exact.simps) simp
  qed
qed

end
