(* ===== verification/Client.thy ===== *)
theory Client
  imports Framing
begin

text \<open>
  The packet transport and the client of \<open>libs/metor-proto/stellar/src/lib.rs\<close>.  The
  deserialiser of error responses, the conversion of a reply and the connection's outcomes
  are parameters; \<open>base\<close> is the address of the receive buffer.
\<close>

section \<open>Packets over a connection\<close>

definition next_packet :: "caster \<Rightarrow> nat \<Rightarrow> bool \<Rightarrow> byte list \<Rightarrow> del_reader \<Rightarrow>
    ((impeller_stellar_error + owned_packet \<times> byte list) \<times> del_reader) option" where
  "next_packet zc base growable buf rd =
     (case ld_recv 4 growable buf rd of
        None \<Rightarrow> None
      | Some (Inl e, rd) \<Rightarrow> Some (Inl (ISStellar e), rd)
      | Some (Inr (buf, e), rd) \<Rightarrow>
          (case parse_packet zc (base + 4, slice 4 e buf) of
             None \<Rightarrow> None
           | Some (Inl e) \<Rightarrow> Some (Inl (ISImpeller e), rd)
           | Some (Inr pkt) \<Rightarrow> Some (Inr (pkt, buf), rd)))"

definition sink_send :: "len_packet \<Rightarrow> (stellar_error + nat) list \<Rightarrow>
    ((stellar_error + unit) \<times> byte list \<times> (stellar_error + nat) list) option" where
  "sink_send packet rs = write_all packet 0 rs"

lemma next_packet_left: "next_packet zc base g buf rd = Some (Inr (pkt, buf'), rd') \<Longrightarrow> ld_left rd' < ld_left rd"
  by (auto simp: next_packet_def dest!: ld_recv_left split: option.splits sum.splits)

section \<open>The client\<close>

record client_env =
  ce_zc :: caster
  ce_base :: nat
  ce_err_id :: packet_id
  ce_err_decode :: "byte list \<Rightarrow> nat + string"

record client =
  cl_resp_buf :: "byte list option"
  cl_room :: "(stellar_error + nat) list"
  cl_sent :: "byte list"
  cl_rx :: del_reader
  cl_next_req_id :: byte

text \<open>\<open>connect\<close>, with the outcome of the system call and what the connection will bring.\<close>

definition client_connect :: "stellar_error + (stellar_error + nat) list \<times> chunk list \<Rightarrow> impeller_stellar_error + client" where
  "client_connect r =
     (case r of
        Inl e \<Rightarrow> Inl (ISStellar e)
      | Inr (room, chunks) \<Rightarrow>
          Inr \<lparr>cl_resp_buf = Some (replicate 256 0), cl_room = room, cl_sent = [], cl_rx = ld_new chunks, cl_next_req_id = 0\<rparr>)"

definition client_send :: "len_packet \<Rightarrow> client \<Rightarrow> ((impeller_stellar_error + unit) \<times> client) option" where
  "client_send packet cl =
     map_option (\<lambda>(r, out, room). (map_err ISStellar r, cl\<lparr>cl_room := room, cl_sent := cl_sent cl @ out\<rparr>))
       (sink_send packet (cl_room cl))"

text \<open>What a packet with the expected request id means: an error response, or the reply.\<close>

definition client_reply :: "client_env \<Rightarrow> (owned_packet \<Rightarrow> proto_error + 'a) \<Rightarrow> owned_packet \<Rightarrow> impeller_stellar_error + 'a" where
  "client_reply env try_from_packet pkt =
     (case pkt of
        PktMsg m \<Rightarrow>
          if mb_id m = ce_err_id env then
            (case ce_err_decode env (snd (mb_buf m)) of Inr e \<Rightarrow> Inl (ISResponse e) | Inl e \<Rightarrow> Inl (ISPostcard e))
          else map_err ISImpeller (try_from_packet pkt)
      | _ \<Rightarrow> map_err ISImpeller (try_from_packet pkt))"

text \<open>\<open>recv\<close> takes the buffer out of the client and puts it back only when a packet was received.\<close>

definition client_buf :: "client \<Rightarrow> byte list" where
  "client_buf cl = (case cl_resp_buf cl of Some buf \<Rightarrow> buf | None \<Rightarrow> replicate 256 0)"

function client_recv :: "client_env \<Rightarrow> (owned_packet \<Rightarrow> proto_error + 'a) \<Rightarrow> byte \<Rightarrow> client \<Rightarrow>
    ((impeller_stellar_error + 'a) \<times> client) option" where
  "client_recv env try_from_packet req_id cl =
     (case next_packet (ce_zc env) (ce_base env) True (client_buf cl) (cl_rx cl) of
        None \<Rightarrow> None
      | Some (Inl e, rd) \<Rightarrow> Some (Inl e, cl\<lparr>cl_resp_buf := None, cl_rx := rd\<rparr>)
      | Some (Inr (pkt, buf), rd) \<Rightarrow>
          (let cl = cl\<lparr>cl_resp_buf := Some buf, cl_rx := rd\<rparr>
           in if pkt_req_id pkt \<noteq> req_id then client_recv env try_from_packet req_id cl
              else Some (client_reply env try_from_packet pkt, cl)))"
  by pat_completeness auto
termination
  by (relation "measure (\<lambda>(env, t, r, cl). ld_left (cl_rx cl))") (auto dest!: next_packet_left)

declare client_recv.simps [simp del]

text \<open>\<open>request\<close> and \<open>stream\<close>; a substream then receives with its request id.\<close>

definition client_start :: "len_packet \<Rightarrow> client \<Rightarrow> ((impeller_stellar_error + byte) \<times> client) option" where
  "client_start req cl =
     (let req_id = cl_next_req_id cl + 1
      in Option.bind (lp_with_request_id req req_id) (\<lambda>packet.
         map_option (\<lambda>(r, cl). (map_sum id (\<lambda>_. req_id) r, cl)) (client_send packet cl)))"

definition client_request :: "client_env \<Rightarrow> (owned_packet \<Rightarrow> proto_error + 'a) \<Rightarrow> len_packet \<Rightarrow> client \<Rightarrow>
    ((impeller_stellar_error + 'a) \<times> client) option" where
  "client_request env try_from_packet req cl =
     Option.bind (client_start req cl) (\<lambda>(r, cl).
       case r of Inl e \<Rightarrow> Some (Inl e, cl) | Inr req_id \<Rightarrow> client_recv env try_from_packet req_id cl)"

section \<open>The receive queue\<close>

text \<open>
  A turn of the task behind \<open>spawn_recv\<close> and \<open>tcp_connect\<close>: with a grant of the queue for the
  buffer, the task of \<open>spawn_recv\<close> ignores a failed receive and turns again.  Returned is
  what is committed to the queue.
\<close>

definition spawn_recv_turn :: "byte list \<Rightarrow> del_reader \<Rightarrow> (byte list option \<times> del_reader) option" where
  "spawn_recv_turn grant rd =
     (case ld_recv 4 False grant rd of
        None \<Rightarrow> None
      | Some (Inl e, rd) \<Rightarrow> Some (None, rd)
      | Some (Inr (buf, e), rd) \<Rightarrow> Some (Some (take e buf), rd))"

end
