(* ===== verification/ClientCorrect.thy ===== *)
theory ClientCorrect
  imports Client
begin

text \<open>
  What the client and the transport promise: requests are answered by the first packet with
  their request id, however the bytes are cut into chunks, and every packet sent arrives.
\<close>

section \<open>Packets out of the stream\<close>

text \<open>\<open>body\<close> is a packet as it stands in a receive buffer at address \<open>base\<close>.\<close>

definition carries :: "caster \<Rightarrow> nat \<Rightarrow> byte list \<Rightarrow> owned_packet \<Rightarrow> bool" where
  "carries zc base body pkt \<longleftrightarrow> parse_packet zc (base + 4, body) = Some (Inr pkt) \<and> length body < 2 ^ 32"

definition wire :: "byte list list \<Rightarrow> byte list" where
  "wire bodies = concat (map (frame 4) bodies)"

lemma wire_simps [simp]: "wire [] = []" "wire (b # bs) = frame 4 b @ wire bs" "wire (bs @ cs) = wire bs @ wire cs"
  by (simp_all add: wire_def)

lemma next_packet_frame:
  assumes fl: "flowing (ld_input rd)" and scr: "length (ld_scratch rd) \<le> length buf" and l: "4 < length buf"
    and pend: "unread rd = frame 4 body @ rest" and len: "length body < 2 ^ 32"
    and fits: "g \<or> 4 + length body \<le> length buf"
  shows "\<exists>buf' rd'. next_packet zc base g buf rd =
      (case parse_packet zc (base + 4, body) of
         None \<Rightarrow> None
       | Some (Inl e) \<Rightarrow> Some (Inl (ISImpeller e), rd')
       | Some (Inr pkt) \<Rightarrow> Some (Inr (pkt, buf'), rd')) \<and>
    unread rd' = rest \<and> flowing (ld_input rd') \<and> length (ld_scratch rd') \<le> length buf' \<and> length buf \<le> length buf' \<and>
    (\<not> g \<longrightarrow> length buf' = length buf)"
proof -
  have "length body < 256 ^ 4" "length body + 4 < 2 ^ 64" using len by simp_all
  from ld_recv_frame [OF fl scr pend _ l this fits] obtain buf' rd' where
    "ld_recv 4 g buf rd = Some (Inr (buf', 4 + length body), rd')" "slice 4 (4 + length body) buf' = body"
    "unread rd' = rest" "flowing (ld_input rd')" "length (ld_scratch rd') \<le> length buf'" "length buf \<le> length buf'"
    "\<not> g \<longrightarrow> length buf' = length buf" by auto
  then show ?thesis by (intro exI [of _ buf'] exI [of _ rd']) (simp add: next_packet_def)
qed

section \<open>The client\<close>

definition client_ok :: "client \<Rightarrow> bool" where
  "client_ok cl \<longleftrightarrow> flowing (ld_input (cl_rx cl)) \<and> 4 < length (client_buf cl) \<and>
     length (ld_scratch (cl_rx cl)) \<le> length (client_buf cl)"

lemma client_connect_ok: "client_connect (Inr (room, cs)) = Inr cl \<Longrightarrow> flowing cs \<Longrightarrow>
    client_ok cl \<and> unread (cl_rx cl) = concat (map chunk_bytes cs)"
  by (auto simp: client_connect_def client_ok_def client_buf_def ld_new_def unread_def)

definition same_side :: "client \<Rightarrow> client \<Rightarrow> bool" where
  "same_side cl cl' \<longleftrightarrow> cl_next_req_id cl' = cl_next_req_id cl \<and> cl_sent cl' = cl_sent cl \<and> cl_room cl' = cl_room cl"

text \<open>Packets with other request ids are skipped, the first one with the expected id is the reply.\<close>

lemma client_recv_first:
  assumes "client_ok cl" "unread (cl_rx cl) = wire skipped @ frame 4 body @ rest"
    "\<forall>b \<in> set skipped. \<exists>p. carries (ce_zc env) (ce_base env) b p \<and> pkt_req_id p \<noteq> rid"
    "carries (ce_zc env) (ce_base env) body pkt" "pkt_req_id pkt = rid"
  shows "\<exists>cl'. client_recv env f rid cl = Some (client_reply env f pkt, cl') \<and> client_ok cl' \<and>
    unread (cl_rx cl') = rest \<and> same_side cl cl'"
  using assms(1-3)
proof (induction skipped arbitrary: cl)
  case Nil
  let ?n = "next_packet (ce_zc env) (ce_base env) True (client_buf cl) (cl_rx cl)"
  from Nil have c: "flowing (ld_input (cl_rx cl))" "length (ld_scratch (cl_rx cl)) \<le> length (client_buf cl)"
    "4 < length (client_buf cl)" "unread (cl_rx cl) = frame 4 body @ rest" by (simp_all add: client_ok_def)
  obtain buf' rd' where n: "?n = Some (Inr (pkt, buf'), rd')" "unread rd' = rest" "flowing (ld_input rd')"
    "length (ld_scratch rd') \<le> length buf'" "length (client_buf cl) \<le> length buf'"
    using next_packet_frame [OF c, of True "ce_zc env" "ce_base env"] assms(4) by (auto simp: carries_def)
  then show ?case using assms(5) c(3)
    by (subst client_recv.simps) (simp add: client_ok_def client_buf_def same_side_def)
next
  case (Cons b bs)
  let ?n = "next_packet (ce_zc env) (ce_base env) True (client_buf cl) (cl_rx cl)"
  obtain p where p: "carries (ce_zc env) (ce_base env) b p" "pkt_req_id p \<noteq> rid" using Cons.prems(3) by auto
  from Cons have c: "flowing (ld_input (cl_rx cl))" "length (ld_scratch (cl_rx cl)) \<le> length (client_buf cl)"
    "4 < length (client_buf cl)" "unread (cl_rx cl) = frame 4 b @ wire bs @ frame 4 body @ rest" by (simp_all add: client_ok_def)
  obtain buf' rd' where n: "?n = Some (Inr (p, buf'), rd')" "unread rd' = wire bs @ frame 4 body @ rest" "flowing (ld_input rd')"
    "length (ld_scratch rd') \<le> length buf'" "length (client_buf cl) \<le> length buf'"
    using next_packet_frame [OF c, of True "ce_zc env" "ce_base env"] p(1) by (auto simp: carries_def)
  let ?cl = "cl\<lparr>cl_resp_buf := Some buf', cl_rx := rd'\<rparr>"
  have "client_ok ?cl" using n c(3) by (simp add: client_ok_def client_buf_def)
  then have "\<exists>cl'. client_recv env f rid ?cl = Some (client_reply env f pkt, cl') \<and> client_ok cl' \<and>
    unread (cl_rx cl') = rest \<and> same_side ?cl cl'"
    using n(2) Cons.prems(3) by (intro Cons.IH) auto
  then show ?case using n(1) p(2)
    by (subst client_recv.simps) (auto simp: same_side_def)
qed

text \<open>Sending a request puts the packet on the wire under the next request id.\<close>

lemma client_start_sends:
  assumes "write_all (lp_of ty id' (cl_next_req_id cl + 1) body) 0 (cl_room cl) = Some (Inr (), out, room)"
  shows "client_start (lp_of ty id' r0 body) cl =
    Some (Inr (cl_next_req_id cl + 1),
      cl\<lparr>cl_room := room, cl_sent := cl_sent cl @ lp_of ty id' (cl_next_req_id cl + 1) body\<rparr>)"
proof -
  have "out = lp_of ty id' (cl_next_req_id cl + 1) body" using write_all_out [OF assms] by simp
  then show ?thesis using assms
    by (simp add: client_start_def lp_of_ops(4) client_send_def sink_send_def Let_def)
qed

lemma client_ok_update [simp]:
  "client_ok (cl\<lparr>cl_room := room, cl_sent := s\<rparr>) = client_ok cl"
  by (simp add: client_ok_def client_buf_def)

text \<open>A request goes out under the client's next request id and is answered by the first packet with
  that id among those that arrive, whatever the chunks they are cut into: packets with other
  ids are skipped, the packets behind the reply stay pending, and the client can go on.\<close>

theorem client_request_answered:
  assumes "client_ok cl"
    and "write_all (lp_of ty id' (cl_next_req_id cl + 1) b) 0 (cl_room cl) = Some (Inr (), out, room)"
    and "unread (cl_rx cl) = wire skipped @ frame 4 body @ rest"
    and "\<forall>b \<in> set skipped. \<exists>p. carries (ce_zc env) (ce_base env) b p \<and> pkt_req_id p \<noteq> cl_next_req_id cl + 1"
    and "carries (ce_zc env) (ce_base env) body pkt" "pkt_req_id pkt = cl_next_req_id cl + 1"
  shows "\<exists>cl'. client_request env f (lp_of ty id' r0 b) cl = Some (client_reply env f pkt, cl') \<and> client_ok cl' \<and>
    unread (cl_rx cl') = rest \<and> cl_sent cl' = cl_sent cl @ lp_of ty id' (cl_next_req_id cl + 1) b"
proof -
  let ?cl = "cl\<lparr>cl_room := room, cl_sent := cl_sent cl @ lp_of ty id' (cl_next_req_id cl + 1) b\<rparr>"
  have "client_request env f (lp_of ty id' r0 b) cl = client_recv env f (cl_next_req_id cl + 1) ?cl"
    by (simp add: client_request_def client_start_sends [OF assms(2)])
  then show ?thesis
    using client_recv_first [of ?cl skipped body rest env "cl_next_req_id cl + 1" pkt f] assms
    by (auto simp: same_side_def)
qed

lemma frame_of_packet:
  assumes "4 + length body < 2 ^ 32"
  shows "frame 4 (drop 4 (lp_of ty id' rid body)) = lp_of ty id' rid body"
proof -
  have "unat (of_nat (4 + length body) :: u32) = 4 + length body"
    using assms by (simp only: unat_of_nat) simp
  then have l: "lp_of ty id' rid body = nat_to_le 4 (4 + length body) @ [packet_code ty, fst id', snd id', rid] @ body"
    by (simp only: lp_of_def u32_to_le_def)
  have d: "drop 4 (lp_of ty id' rid body) = [packet_code ty, fst id', snd id', rid] @ body" unfolding l by simp
  have n: "length ([packet_code ty, fst id', snd id', rid] @ body) = 4 + length body" by simp
  show ?thesis by (simp only: frame_def d n) (simp only: l)
qed

text \<open>The chunks of a stream that arrives byte by byte.\<close>

definition byte_by_byte :: "byte list \<Rightarrow> chunk list" where
  "byte_by_byte bs = map (\<lambda>b. Data [b]) bs"

lemma byte_by_byte [simp]: "flowing (byte_by_byte bs)" "concat (map chunk_bytes (byte_by_byte bs)) = bs"
  by (induction bs) (auto simp: byte_by_byte_def)

definition quiet_env :: client_env where
  "quiet_env = \<lparr>ce_zc = zc_ok, ce_base = 0, ce_err_id = (1, 1), ce_err_decode = (\<lambda>_. Inl 0)\<rparr>"

definition plain_msg :: "byte \<Rightarrow> byte list \<Rightarrow> owned_packet" where
  "plain_msg rid body = PktMsg \<lparr>mb_id = (7, 7), mb_req_id = rid, mb_timestamp = None, mb_buf = (8, body)\<rparr>"

lemma carries_plain:
  "length body < 100 \<Longrightarrow> carries (ce_zc quiet_env) (ce_base quiet_env) (drop 4 (lp_of Msg (7, 7) rid body)) (plain_msg rid body)"
  using msg_parses [OF zc_ok_spec, of 4 "(7, 7)" rid body] by (simp add: carries_def quiet_env_def plain_msg_def)

definition demo_client :: "chunk list \<Rightarrow> client" where
  "demo_client cs = \<lparr>cl_resp_buf = Some (replicate 256 0), cl_room = [Inr 1000, Inr 1000], cl_sent = [], cl_rx = ld_new cs, cl_next_req_id = 0\<rparr>"

lemma demo_client_ok: "flowing cs \<Longrightarrow> client_ok (demo_client cs) \<and> unread (cl_rx (demo_client cs)) = concat (map chunk_bytes cs)"
  by (simp add: demo_client_def client_ok_def client_buf_def ld_new_def unread_def)

lemma demo_write: "write_all (lp_of Msg (5, 5) 1 [9]) 0 (Inr 1000 # rs) = Some (Inr (), lp_of Msg (5, 5) 1 [9], rs)"
  by (simp add: write_all.simps Let_def slice_def)


text \<open>C25. The client never moves on to another request id: when a stream is started and abandoned, the
  next request is answered by a packet of that stream, and its own reply stays pending.\<close>

theorem abandoned_stream_answers:
  assumes "client_ok cl"
    and w1: "write_all (lp_of ty1 id1 (cl_next_req_id cl + 1) b1) 0 (cl_room cl) = Some (Inr (), out1, room1)"
    and w2: "write_all (lp_of ty2 id2 (cl_next_req_id cl + 1) b2) 0 room1 = Some (Inr (), out2, room2)"
    and "unread (cl_rx cl) = frame 4 streamed @ frame 4 reply @ rest"
    and "carries (ce_zc env) (ce_base env) streamed pkt" "pkt_req_id pkt = cl_next_req_id cl + 1"
  shows "\<exists>cl1 cl2. client_start (lp_of ty1 id1 r1 b1) cl = Some (Inr (cl_next_req_id cl + 1), cl1) \<and>
    client_request env f (lp_of ty2 id2 r2 b2) cl1 = Some (client_reply env f pkt, cl2) \<and>
    unread (cl_rx cl2) = frame 4 reply @ rest"
proof -
  let ?cl1 = "cl\<lparr>cl_room := room1, cl_sent := cl_sent cl @ lp_of ty1 id1 (cl_next_req_id cl + 1) b1\<rparr>"
  have w: "write_all (lp_of ty2 id2 (cl_next_req_id ?cl1 + 1) b2) 0 (cl_room ?cl1) = Some (Inr (), out2, room2)" using w2 by simp
  note s = client_start_sends [OF w1, of r1] and s2 = client_start_sends [OF w, of r2]
  let ?cl2 = "?cl1\<lparr>cl_room := room2, cl_sent := cl_sent ?cl1 @ lp_of ty2 id2 (cl_next_req_id ?cl1 + 1) b2\<rparr>"
  have "client_request env f (lp_of ty2 id2 r2 b2) ?cl1 = client_recv env f (cl_next_req_id cl + 1) ?cl2"
    by (simp add: client_request_def s2)
  moreover have "\<exists>cl'. client_recv env f (cl_next_req_id cl + 1) ?cl2 = Some (client_reply env f pkt, cl') \<and> client_ok cl' \<and>
    unread (cl_rx cl') = frame 4 reply @ rest \<and> same_side ?cl2 cl'"
    using assms by (intro client_recv_first [where skipped = "[]"]) (auto simp: client_ok_def client_buf_def)
  ultimately show ?thesis using s by auto
qed

lemma abandoned_stream_answers_witness:
  "\<exists>cl1 cl2. client_start (lp_of Msg (5, 5) 0 [9]) (demo_client (byte_by_byte (lp_of Msg (7, 7) 1 [2] @ lp_of Msg (7, 7) 1 [3]))) =
      Some (Inr 1, cl1) \<and>
    client_request quiet_env (\<lambda>p. Inr p) (lp_of Msg (5, 5) 0 [9]) cl1 =
      Some (client_reply quiet_env (\<lambda>p. Inr p) (plain_msg 1 [2]), cl2) \<and>
    unread (cl_rx cl2) = lp_of Msg (7, 7) 1 [3]"
proof -
  let ?cl = "demo_client (byte_by_byte (lp_of Msg (7, 7) 1 [2] @ lp_of Msg (7, 7) 1 [3]))"
  have id: "cl_next_req_id ?cl + 1 = 1" by (simp add: demo_client_def)
  have w1: "write_all (lp_of Msg (5, 5) (cl_next_req_id ?cl + 1) [9]) 0 (cl_room ?cl) = Some (Inr (), lp_of Msg (5, 5) 1 [9], [Inr 1000])"
    unfolding id by (simp add: demo_client_def demo_write)
  have w2: "write_all (lp_of Msg (5, 5) (cl_next_req_id ?cl + 1) [9]) 0 [Inr 1000] = Some (Inr (), lp_of Msg (5, 5) 1 [9], [])"
    unfolding id by (rule demo_write)
  have p: "unread (cl_rx ?cl) = frame 4 (drop 4 (lp_of Msg (7, 7) 1 [2])) @ frame 4 (drop 4 (lp_of Msg (7, 7) 1 [3])) @ []"
    using demo_client_ok [of "byte_by_byte (lp_of Msg (7, 7) 1 [2] @ lp_of Msg (7, 7) 1 [3])"] by (simp add: frame_of_packet)
  have r: "pkt_req_id (plain_msg 1 [2]) = cl_next_req_id ?cl + 1" unfolding id by (simp add: plain_msg_def)
  show ?thesis
    using abandoned_stream_answers [OF _ w1 w2 p carries_plain r, where f = "\<lambda>p. Inr p" and ?r1.0 = 0 and ?r2.0 = 0] demo_client_ok id
    by (auto simp: frame_of_packet)
qed

section \<open>A rejected packet\<close>

text \<open>A packet that does not parse costs the client its buffer; with more than 256 bytes already read
  ahead, the packet behind it is still received from the small new buffer, but then the bytes
  that were read ahead change places: the packets that follow are lost.\<close>

theorem rejected_packet_scrambles:
  assumes rx: "cl_rx cl = \<lparr>ld_scratch = [], ld_input = Data (frame 4 bad @ frame 4 body @ xs @ ys) # cs\<rparr>"
    and big: "length (frame 4 bad @ frame 4 body @ xs @ ys) \<le> length (client_buf cl)"
    and small: "length (frame 4 body @ xs) = 256" "length bad < 2 ^ 32"
    and bad: "parse_packet (ce_zc env) (ce_base env + 4, bad) = Some (Inl e)"
    and good: "carries (ce_zc env) (ce_base env) body pkt" "pkt_req_id pkt = rid"
  shows "\<exists>cl1 cl2. client_recv env f rid cl = Some (Inl (ISImpeller e), cl1) \<and>
    client_recv env f rid cl1 = Some (client_reply env f pkt, cl2) \<and>
    unread (cl_rx cl1) = frame 4 body @ xs @ ys @ concat (map chunk_bytes cs) \<and>
    unread (cl_rx cl2) = ys @ xs @ concat (map chunk_bytes cs)"
proof -
  let ?scr = "frame 4 body @ xs @ ys"
  let ?cl1 = "cl\<lparr>cl_resp_buf := None, cl_rx := \<lparr>ld_scratch = ?scr, ld_input = cs\<rparr>\<rparr>"
  have l4: "4 < length (client_buf cl)" using big small(1) by simp
  have n1: "length bad < 256 ^ 4" "length bad + 4 < 2 ^ 64" using small(2) by simp_all
  have n2: "length body < 256 ^ 4" "length body + 4 < 2 ^ 64" using small(1) by simp_all
  have r1: "ld_recv 4 True (client_buf cl) (cl_rx cl) =
      Some (Inr (splice 0 (frame 4 bad @ ?scr) (client_buf cl), 4 + length bad), \<lparr>ld_scratch = ?scr, ld_input = cs\<rparr>)"
    by (rule ld_recv_one_chunk [OF rx big _ l4 n1]) simp
  have s1: "slice 4 (4 + length bad) (splice 0 (frame 4 bad @ ?scr) (client_buf cl)) = bad"
    by (simp add: slice_def splice_def frame_def)
  have one: "client_recv env f rid cl = Some (Inl (ISImpeller e), ?cl1)"
    by (subst client_recv.simps) (simp add: next_packet_def r1 s1 bad)
  have buf: "client_buf ?cl1 = replicate 256 0" by (simp add: client_buf_def)
  let ?rd = "cl_rx ?cl1"
  have "ld_scratch ?rd = frame 4 body @ xs @ ys" by simp
  moreover have "length (frame 4 body @ xs) = length (client_buf ?cl1)" using small(1) by (simp add: buf)
  ultimately have r2: "ld_recv 4 True (client_buf ?cl1) ?rd =
      Some (Inr (splice 0 (frame 4 body @ xs) (client_buf ?cl1), 4 + length body), ?rd\<lparr>ld_scratch := ys @ xs\<rparr>)"
    by (rule ld_recv_long_scratch) (use n2 in \<open>simp_all add: buf\<close>)
  have s2: "slice 4 (4 + length body) (splice 0 (frame 4 body @ xs) (client_buf ?cl1)) = body"
    by (simp add: slice_def splice_def frame_def)
  have "next_packet (ce_zc env) (ce_base env) True (client_buf ?cl1) ?rd =
      Some (Inr (pkt, splice 0 (frame 4 body @ xs) (client_buf ?cl1)), ?rd\<lparr>ld_scratch := ys @ xs\<rparr>)"
    unfolding next_packet_def r2 using good(1) by (simp add: s2 carries_def)
  then have "\<exists>cl2. client_recv env f rid ?cl1 = Some (client_reply env f pkt, cl2) \<and> cl_rx cl2 = ?rd\<lparr>ld_scratch := ys @ xs\<rparr>"
    using good(2) by (subst client_recv.simps) simp
  then show ?thesis using one by (fastforce simp: unread_def)
qed

text \<open>A packet of an unknown type is rejected.\<close>

lemma unknown_type_rejected: "parse_packet zc_ok (a, [9, 0, 0, 0]) = Some (Inl BufferUnderflow)"
  by (simp add: parse_packet_def parse_with_offset_def as_get_def get_range_def slice_def zc_ok_def)


section \<open>The transport\<close>

text \<open>Sending packets one after the other, as long as no write fails.\<close>

fun send_many :: "len_packet list \<Rightarrow> (stellar_error + nat) list \<Rightarrow>
    ((stellar_error + unit) \<times> byte list \<times> (stellar_error + nat) list) option" where
  "send_many [] rs = Some (Inr (), [], rs)"
| "send_many (p # ps) rs =
     Option.bind (sink_send p rs) (\<lambda>(r, out, rs). case r of
       Inl e \<Rightarrow> Some (Inl e, out, rs)
     | Inr _ \<Rightarrow> map_option (\<lambda>(r, out', rs). (r, out @ out', rs)) (send_many ps rs))"

lemma send_many_out: "send_many ps rs = Some (Inr (), out, rs') \<Longrightarrow> out = concat ps"
proof (induction ps arbitrary: rs out)
  case (Cons p ps)
  then obtain r1 out1 rs1 where w: "write_all p 0 rs = Some (r1, out1, rs1)"
    by (auto simp: bind_eq_Some_conv sink_send_def)
  with Cons.prems obtain out2 where "r1 = Inr ()" "send_many ps rs1 = Some (Inr (), out2, rs')" "out = out1 @ out2"
    by (cases r1) (auto simp: sink_send_def)
  note w = w [unfolded this(1)] and this
  then show ?case using Cons.IH write_all_out [of p 0 rs "Inr ()" out1 rs1] by simp
qed simp

text \<open>C4. Packets sent through a sink, in pieces of whatever size the socket takes, and read back over any
  chunks of the same bytes, arrive complete and in order, with nothing left over: in a growable
  buffer always, in one of fixed size when each packet fits.\<close>

theorem transport_lossless:
  assumes "send_many (map (frame 4) bodies) rs = Some (Inr (), out, rs')"
    and "flowing cs" "concat (map chunk_bytes cs) = out" "4 < length buf"
    and "\<forall>body \<in> set bodies. length body < 2 ^ 32 \<and> (g \<or> 4 + length body \<le> length buf)"
  shows "\<exists>buf' rd'. recv_many 4 g (length bodies) buf (ld_new cs) = Some (Inr bodies, buf', rd') \<and> unread rd' = []"
proof (rule recv_many_frames)
  show "unread (ld_new cs) = concat (map (frame 4) bodies) @ []"
    using send_many_out [OF assms(1)] assms(3) by (simp add: unread_def ld_new_def)
  have "length body + 4 < 2 ^ 64 \<and> length body < 256 ^ 4" if "length body < 2 ^ 32" for body :: "byte list" using that by simp
  then show "\<forall>body \<in> set bodies. length body < 256 ^ 4 \<and> length body + 4 < 2 ^ 64 \<and> (g \<or> 4 + length body \<le> length buf)"
    using assms(5) by blast
qed (use assms in \<open>simp_all add: ld_new_def\<close>)

lemma transport_lossless_witness:
  "\<exists>buf' rd'. recv_many 4 False (length [[1, 2, 3, 4 :: byte], [5]]) (replicate 8 0) (ld_new (byte_by_byte (frame 4 [1, 2, 3, 4] @ frame 4 [5]))) =
    Some (Inr [[1, 2, 3, 4], [5]], buf', rd') \<and> unread rd' = []"
proof -
  have s: "send_many (map (frame 4) [[1, 2, 3, 4], [5]]) [Inr 3, Inr 9, Inr 4, Inr 4] =
      Some (Inr (), frame 4 [1, 2, 3, 4] @ frame 4 [5], [])"
    by (simp add: sink_send_def write_all.simps slice_def frame_def)
  show ?thesis by (rule transport_lossless [OF s]) (auto simp: frame_def)
qed

section \<open>The receive task on a closed connection\<close>

text \<open>
  The task of \<open>spawn_recv\<close> goes on after any failure: once the peer has closed, every turn
  takes a grant, receives the end of the file without waiting and turns again.
\<close>

lemma spawn_recv_spins:
  assumes "ld_scratch rd = []" "ld_input rd = []" "grant \<noteq> []"
  shows "spawn_recv_turn grant rd = Some (None, rd)"
proof -
  have "ld_read (length grant) rd = (Inr [], rd)" using assms by (simp add: ld_read_def)
  then have "ld_fill 4 grant 0 rd = (Some (Inl EOF), rd)"
    using assms(3) by (subst ld_fill.simps) simp
  then show ?thesis by (simp add: spawn_recv_turn_def ld_recv_def)
qed

end
