(* ===== verification/HandlersCorrect.thy ===== *)
theory HandlersCorrect
  imports Handlers DatabaseCorrect StreamsCorrect
begin

text \<open>
  No packet breaks the database; replies carry their request's id; a time series reply on one
  node parses to the samples asked for, one over two nodes with a limit does not.
\<close>

section \<open>The database\<close>

text \<open>Components stay with their schemas, registered vtables stay registered.\<close>

definition db_grows :: "'m db \<Rightarrow> 'm db \<Rightarrow> bool" where
  "db_grows d d' \<longleftrightarrow> comps_le (st_components (db_st d)) (st_components (db_st d')) \<and>
     dom (st_registry (db_st d)) \<subseteq> dom (st_registry (db_st d'))"

definition kept_by :: "caster \<Rightarrow> 'm db \<Rightarrow> 'm db \<Rightarrow> bool" where
  "kept_by zc d d' \<longleftrightarrow> db_grows d d' \<and> (db_wf zc d \<longrightarrow> db_wf zc d')"

lemma kept_same:
  "st_components (db_st d') = st_components (db_st d) \<Longrightarrow> st_registry (db_st d') = st_registry (db_st d) \<Longrightarrow> kept_by zc d d'"
  by (simp add: kept_by_def db_grows_def db_wf_def)

lemma insert_vtable_kept:
  assumes "insert_vtable cod os zc base pid vt d = Some (r, d')"
  shows "kept_by zc d d'"
proof -
  obtain r1 d1 where f: "insert_fields cod os zc base vt (vt_fields vt) d = Some (r1, d1)"
    using assms by (auto simp: insert_vtable_def split: option.splits)
  have "db_grows d d'" using assms f insert_fields_wf [OF f]
    by (cases r1) (auto simp: insert_vtable_def db_grows_def)
  then show ?thesis using insert_keeps_wf [OF _ assms] by (simp add: kept_by_def)
qed

lemma handle_table_kept:
  assumes "zc_spec zc" "db_wf zc d" "handle_table zc base now t d = Some (r, d')"
  shows "kept_by zc d d'"
  using handle_table_keeps [OF assms] comps_le_known unfolding kept_by_def db_grows_def db_wf_def by auto

lemma log_frame:
  "get_or_insert_msg_log st pid = (l, st') \<Longrightarrow> st_components st' = st_components st \<and> st_registry st' = st_registry st"
  by (auto simp: get_or_insert_msg_log_def split: option.splits)

lemma frames:
  "set_msg_metadata mos st pid meta = (r, st') \<Longrightarrow> st_components st' = st_components st \<and> st_registry st' = st_registry st"
  "push_msg d t pid bs = Some (q, d') \<Longrightarrow> kept_by zc d d'"
  "set_db_config cod os rec md d = (q, d') \<Longrightarrow> kept_by zc d d'"
  "get_or_insert_fixed_rate d sid i step freq = (s, d') \<Longrightarrow> kept_by zc d d'"
  "handle_stream sid beh req d = (tk, d') \<Longrightarrow> kept_by zc d d'"
  "kept_by zc d (db_ensure_log pid d)"
proof -
  show "set_msg_metadata mos st pid meta = (r, st') \<Longrightarrow> st_components st' = st_components st \<and> st_registry st' = st_registry st"
    by (auto simp: set_msg_metadata_def Let_def dest!: log_frame split: prod.splits)
  show "push_msg d t pid bs = Some (q, d') \<Longrightarrow> kept_by zc d d'"
    using log_frame [of "db_st d" pid] by (auto intro!: kept_same simp: push_msg_def split: prod.splits option.splits sum.splits)
  show "set_db_config cod os rec md d = (q, d') \<Longrightarrow> kept_by zc d d'"
    by (rule kept_same) (auto simp: set_db_config_def save_db_state_def Let_def split: prod.splits option.splits)
  show "get_or_insert_fixed_rate d sid i step freq = (s, d') \<Longrightarrow> kept_by zc d d'"
    by (rule kept_same) (auto simp: get_or_insert_fixed_rate_def Let_def split: option.splits)
  show "handle_stream sid beh req d = (tk, d') \<Longrightarrow> kept_by zc d d'"
    by (rule kept_same) (auto simp: handle_stream_def split: stream_behavior.splits)
  show "kept_by zc d (db_ensure_log pid d)"
    using log_frame [of "db_st d" pid] by (intro kept_same) (auto simp: db_ensure_log_def prod_eq_iff)
qed

lemma outcome_simps [simp]:
  "replied d q = Some (r, d', tx', ts) \<longleftrightarrow> q = Some (r, tx') \<and> d' = d \<and> ts = []"
  "updated tx q' = Some (r, d', tx', ts) \<longleftrightarrow> q' = Some (r, d') \<and> tx' = tx \<and> ts = []"
  by (auto simp: replied_def updated_def)

lemma kept_refl [simp]: "kept_by zc d d"
  by (simp add: kept_same)

lemma kept_trans: "kept_by zc a b \<Longrightarrow> kept_by zc b c \<Longrightarrow> kept_by zc a c"
  unfolding kept_by_def db_grows_def using comps_le_trans by blast

lemma request_kept:
  assumes "handle_request env base d tx rq = Some (r, d', tx', ts)"
  shows "kept_by (he_zc env) d d'"
proof (cases rq)
  case (VTableMsg pid vt)
  then show ?thesis using assms insert_vtable_kept [of "he_codecs env" "he_os env" "he_zc env" base pid vt d r d'] by auto
next
  case (SetStreamState sid playing timestamp step frequency)
  then show ?thesis using assms by (auto intro!: kept_same simp: set_stream_def split: option.splits)
next
  case (SetComponentMetadata meta)
  then show ?thesis using assms
    by (auto intro!: kept_same dest: set_component_metadata_frame split: prod.splits)
next
  case (SetDbConfig recording metadata)
  then show ?thesis using assms frames(3) [of "he_codecs env" "he_os env" recording metadata d _ _ "he_zc env"]
    by (auto split: prod.splits sum.splits)
next
  case (SetMsgMetadata pid meta)
  then show ?thesis using assms by (auto intro!: kept_same dest: frames(1) split: prod.splits)
next
  case (StreamMsg sid behavior)
  then show ?thesis using assms frames(5) by (auto split: prod.splits)
next
  case (MsgStream pid)
  then show ?thesis using assms by (auto intro: frames(6))
next
  case (FixedRateMsgStream pid f)
  then show ?thesis using assms by (auto simp: Let_def split: prod.splits intro: kept_trans [OF frames(6)] dest: frames(4))
next
  case (UdpVTableStream pid addr)
  then show ?thesis using assms
    by (auto intro!: kept_same simp: udp_vtable_stream_def split: sum.splits prod.splits if_splits option.splits)
qed (use assms in \<open>auto split: sum.splits option.splits simp: bind_eq_Some_conv\<close>)

lemma packet_kept:
  assumes "zc_spec (he_zc env)" "db_wf (he_zc env) d" "handle_packet env pkt d tx = Some (r, d', tx', ts)"
  shows "kept_by (he_zc env) d d'"
proof (cases pkt)
  case (PktMsg m)
  show ?thesis
  proof (cases "he_decode env (mb_id m)")
    case None
    then show ?thesis using assms(3) PktMsg by (auto simp: handle_packet_def dest: frames(2))
  next
    case (Some dec)
    then show ?thesis using assms(3) PktMsg request_kept
      by (cases "mb_parse dec m") (auto simp: handle_packet_def)
  qed
next
  case (PktTable t)
  then show ?thesis using assms(3) handle_table_kept [OF assms(1,2)] by (auto simp: handle_packet_def)
next
  case (PktTimeSeries s)
  then show ?thesis using assms(3) by (simp add: handle_packet_def)
qed

text \<open>C5. Whatever packets a client sends, the database stays well formed, every component stays with
  its schema, and every vtable stays registered: errors half-way through a request included.\<close>

theorem conn_turns_keep_db:
  assumes "zc_spec (he_zc env)" "db_wf (he_zc env) d"
    and "conn_turn env pkt d resp = Some (d', resp', sent, ts)"
  shows "db_wf (he_zc env) d' \<and> comps_le (st_components (db_st d)) (st_components (db_st d')) \<and>
    dom (st_registry (db_st d)) \<subseteq> dom (st_registry (db_st d'))"
proof -
  from assms(3) obtain r d1 tx ts1 where
    h: "handle_packet env pkt d \<lparr>tx_req_id = pkt_req_id pkt, tx_pkt = Some resp, tx_sent = []\<rparr> = Some (r, d1, tx, ts1)"
    by (auto simp: conn_turn_def split: option.splits)
  then have "d' = d1" using assms(3) by (auto simp: conn_turn_def bind_eq_Some_conv)
  then show ?thesis using packet_kept [OF assms(1,2) h] assms(2) by (simp add: kept_by_def db_grows_def)
qed

section \<open>Replies\<close>

definition is_pkt :: "len_packet \<Rightarrow> bool" where
  "is_pkt p \<longleftrightarrow> (\<exists>ty id' rid body. p = lp_of ty id' rid body)"

lemma is_pkt_of [simp]: "is_pkt (lp_of ty id' rid body)"
  unfolding is_pkt_def by blast

lemma lp_valid_of:
  assumes "zc_spec zc"
  shows "lp_valid zc base (lp_of ty id' rid body) \<longleftrightarrow> 4 + length body < 2 ^ 32"
proof -
  have d: "drop 4 (lp_of ty id' rid body) = [packet_code ty, fst id', snd id', rid] @ body" by (simp add: lp_of_def)
  have u: "unat (of_nat (4 + length body) :: u32) = (4 + length body) mod 2 ^ 32" by (simp only: unat_of_nat) simp
  have c: "unat (packet_code ty) < 4" by (cases ty) simp_all
  have "(4 + length body) mod 2 ^ 32 - 4 = length body \<longleftrightarrow> 4 + length body < 2 ^ 32"
  proof
    assume e: "(4 + length body) mod 2 ^ 32 - 4 = length body"
    show "4 + length body < 2 ^ 32"
    proof (cases "length body = 0")
      case False
      then have "(4 + length body) mod 2 ^ 32 = 4 + length body" using e by linarith
      then show ?thesis by (metis mod_less_divisor zero_less_numeral zero_less_power)
    qed simp
  qed simp
  then show ?thesis unfolding lp_valid_def lp_of_pkt_len option.case u zc_fits [OF assms] d
    using c by (auto simp: packet_header_len_def)
qed

lemma lp_set_header_of:
  "lp_set_header zc base ty id' rid (lp_of ty0 id0 rid0 body) =
     (if lp_valid zc base (lp_of ty0 id0 rid0 body) then Some (lp_of ty id' rid body) else None)"
  by (simp add: lp_set_header_def lp_of_def splice_def)

lemma lp_of_req: "(lp_of ty id' rid body)[7 := r] = lp_of ty id' r body"
  by (simp add: lp_of_def list_update_append)

text \<open>What sending leaves behind: the packet is given back, and what was sent is packets with the
  request's id.\<close>

definition reply_for :: "byte \<Rightarrow> len_packet \<Rightarrow> bool" where
  "reply_for req p \<longleftrightarrow> (\<exists>ty id' body. p = lp_of ty id' req body \<and> 4 + length body < 2 ^ 32)"

definition sent_by :: "pkt_tx \<Rightarrow> pkt_tx \<Rightarrow> len_packet list \<Rightarrow> bool" where
  "sent_by tx tx' new \<longleftrightarrow> tx_sent tx' = tx_sent tx @ new \<and> tx_req_id tx' = tx_req_id tx \<and> (\<exists>p. tx_pkt tx' = Some p \<and> is_pkt p) \<and>
     (\<forall>p \<in> set new. reply_for (tx_req_id tx) p)"

lemma sent_by_none: "tx_pkt tx = Some p \<Longrightarrow> is_pkt p \<Longrightarrow> sent_by tx tx []"
  by (simp add: sent_by_def)

lemma sent_by_trans: "sent_by a b xs \<Longrightarrow> sent_by b c ys \<Longrightarrow> sent_by a c (xs @ ys)"
  unfolding sent_by_def by auto

lemma sent_by_pkt: "sent_by tx tx' new \<Longrightarrow> \<exists>p. tx_pkt tx' = Some p \<and> is_pkt p"
  by (simp add: sent_by_def)

text \<open>What the connection relies on of the function that builds a reply: given an empty packet it
  leaves a packet, whether it fails or not.\<close>

locale packet_builder =
  fixes builder :: "len_packet \<Rightarrow> ((db_error + unit) \<times> len_packet) option"
  assumes builds: "builder (lp_of ty id' rid []) = Some (r, p) \<Longrightarrow> is_pkt p"
begin

lemma sends:
  assumes zc: "zc_spec zc" and "tx_pkt tx = Some p" "is_pkt p" "send_with_builder zc base send builder tx = Some (r, tx')"
  shows "\<exists>new. sent_by tx tx' new \<and> length new \<le> 1 \<and> (\<forall>e. r = Inl e \<longrightarrow> new = [])"
proof -
  obtain ty id' rid body where p: "p = lp_of ty id' rid body" using assms(3) unfolding is_pkt_def by blast
  obtain q p1 where b: "builder (lp_of ty id' rid []) = Some (q, p1)"
    using assms(2,4) by (auto simp: send_with_builder_def p lp_clear_of split: option.splits)
  then have "is_pkt p1" by (rule builds)
  then obtain ty1 id1 rid1 body1 where p1: "p1 = lp_of ty1 id1 rid1 body1" unfolding is_pkt_def by blast
  show ?thesis
  proof (cases q)
    case (Inl e)
    then have "sent_by tx tx' []" using assms(2,4) b p1 by (auto simp: send_with_builder_def p lp_clear_of sent_by_def)
    then show ?thesis by (intro exI [of _ "[]"]) simp
  next
    case (Inr u)
    let ?p = "lp_of ty1 id1 (tx_req_id tx) body1"
    have v: "4 + length body1 < 2 ^ 32" using assms(2,4) b Inr lp_valid_of [OF zc, of base ty1 id1 rid1 body1]
      by (auto simp: send_with_builder_def p p1 lp_clear_of split: if_splits)
    have "\<exists>new. tx_pkt tx' = Some ?p \<and> tx_req_id tx' = tx_req_id tx \<and> tx_sent tx' = tx_sent tx @ new \<and>
        (new = [?p] \<and> r = Inr () \<or> new = [])"
      using assms(2,4) b Inr
      by (auto simp: send_with_builder_def p p1 lp_clear_of lp_of_req Let_def split: if_splits option.splits)
    then obtain new where "tx_pkt tx' = Some ?p" "tx_req_id tx' = tx_req_id tx" "tx_sent tx' = tx_sent tx @ new"
      "new = [?p] \<and> r = Inr () \<or> new = []" by blast
    moreover have "reply_for (tx_req_id tx) ?p" unfolding reply_for_def using v by blast
    ultimately have "sent_by tx tx' new \<and> length new \<le> 1 \<and> (\<forall>e. r = Inl e \<longrightarrow> new = [])" by (auto simp: sent_by_def)
    then show ?thesis by blast
  qed
qed

end

lemma copy_slices_length:
  "copy_slices sz sls k tsd dd = Some (tss, ds) \<Longrightarrow> length tss = length tsd \<and> length ds = length dd"
proof (induction sls arbitrary: k tsd dd tss ds)
  case (Cons sl sls)
  obtain ts d where s: "slice_timestamps sl = Some ts" "slice_data sl = Some d" "(length ts - k) * sz \<le> length d"
    using Cons.prems by (auto simp: Let_def split: option.splits if_splits)
  let ?n = "length ts - k"
  show ?case
  proof (cases "?n = 0")
    case True
    then show ?thesis using Cons.prems Cons.IH s by (auto simp: Let_def)
  next
    case False
    then have e: "?n \<le> length tsd" "length tsd * sz \<le> length dd" using Cons.prems s by (auto simp: Let_def split: if_splits)
    obtain t' d' where r: "copy_slices sz sls (k - ?n) (take (length tsd - ?n) tsd) (take ((length tsd - ?n) * sz) dd) = Some (t', d')"
      "tss = t' @ take ?n ts" "ds = d' @ take (?n * sz) d @ drop (length tsd * sz) dd"
      using Cons.prems s False e by (auto simp: Let_def not_le)
    note ih = Cons.IH [OF r(1)]
    have "(length tsd - ?n) * sz + ?n * sz = length tsd * sz" using e(1) by (simp flip: add_mult_distrib)
    moreover have "(length tsd - ?n) * sz \<le> length tsd * sz" by (intro mult_le_mono1) simp
    ultimately show ?thesis using ih r(2,3) s(3) e by simp
  qed
qed simp

lemma series_packet:
  "lp_set_len (lp_of ty id' rid (u64_to_le w) @ replicate (t + m) 0) (of_nat (8 + t + m + packet_header_len)) =
     lp_of ty id' rid (u64_to_le w @ replicate (t + m) 0)"
proof -
  have "(of_nat (8 + t + m + packet_header_len) :: u32) = of_nat (4 + length (u64_to_le w)) + of_nat (length (replicate (t + m) 0 :: byte list))"
    by (simp only: packet_header_len_def length_to_le length_replicate flip: of_nat_add) (simp add: ac_simps)
  then show ?thesis by (simp only: lp_of_grow)
qed

lemma lp_of_body:
  assumes "length xs = length zs"
  shows "take 16 (lp_of ty id' rid (u64_to_le w @ zs)) @ xs = lp_of ty id' rid (u64_to_le w @ xs)"
  using assms by (simp add: lp_of_def)

lemma length_i64_bytes [simp]: "length (concat (map i64_to_le ts)) = 8 * length ts"
  by (induction ts) auto

lemma i64_elems_zeros: "i64_elems (replicate (n * 8) 0) = replicate n 0"
proof -
  have "i64_to_le 0 = replicate 8 0" by code_simp
  then have "concat (map i64_to_le (replicate n 0)) = replicate (n * 8) 0"
    by (induction n) (simp_all add: replicate_add flip: replicate_add)
  then show ?thesis using i64_elems_concat [of "replicate n 0"] by (simp add: i64_range_def)
qed

text \<open>The body of the reply, with the packet's bytes laid out.\<close>

lemma fill_series_laid_out:
  defines "zeros \<equiv> \<lambda>pid req len sz. lp_of TimeSeries pid req (u64_to_le (of_nat len) @ replicate (len * 8 + len * sz) 0)"
  shows "fill_series zc base sz len k sls (lp_of TimeSeries pid req []) =
    (if lp_valid zc base (zeros pid req len sz) \<and> zc (SliceOf 8 8) (base + 16, replicate (len * 8) 0) = None
     then Option.bind sls (\<lambda>slices.
       map_option (\<lambda>(tss, ds). (Inr (), lp_of TimeSeries pid req (u64_to_le (of_nat len) @ concat (map i64_to_le tss) @ ds)))
         (copy_slices sz slices k (replicate len 0) (replicate (len * sz) 0)))
     else None)"
proof -
  let ?p = "lp_of TimeSeries pid req (u64_to_le (of_nat len) @ replicate (len * 8 + len * sz) 0)"
  have x: "lp_extend_from_slice (lp_of TimeSeries pid req []) w = Some (lp_of TimeSeries pid req w)" for w
    using lp_of_ops(2) [of TimeSeries pid req "[]" w] by simp
  have p: "lp_set_len (lp_of TimeSeries pid req (u64_to_le (of_nat len)) @ replicate (len * 8 + len * sz) 0)
      (of_nat (8 + len * 8 + len * sz + packet_header_len)) = ?p"
    by (rule series_packet)
  have b: "drop 16 ?p = replicate (len * 8) 0 @ replicate (len * sz) 0" by (simp add: lp_of_def replicate_add)
  have ts: "slice 16 (16 + len * 8) ?p = replicate (len * 8) 0" unfolding slice_def b by simp
  have dt: "drop (16 + len * 8) ?p = replicate (len * sz) 0"
    unfolding add.commute [of 16] drop_drop [symmetric] b by simp
  have c: "map_option (\<lambda>(tss, ds). (Inr (), take 16 ?p @ concat (map i64_to_le tss) @ ds)) (copy_slices sz slices k (replicate len 0) (replicate (len * sz) 0)) =
      map_option (\<lambda>(tss, ds). (Inr () :: db_error + unit, lp_of TimeSeries pid req (u64_to_le (of_nat len) @ concat (map i64_to_le tss) @ ds)))
         (copy_slices sz slices k (replicate len 0) (replicate (len * sz) 0))" for slices
  proof (rule option.map_cong [OF refl])
    fix q assume q: "q \<in> set_option (copy_slices sz slices k (replicate len 0) (replicate (len * sz) 0))"
    have "length (fst q) = len" "length (snd q) = len * sz"
      using copy_slices_length [of sz slices k "replicate len 0" "replicate (len * sz) 0" "fst q" "snd q"] q by simp_all
    then have "length (concat (map i64_to_le (fst q)) @ snd q) = length (replicate (len * 8 + len * sz) (0 :: byte))" by simp
    from lp_of_body [OF this, of TimeSeries pid req "of_nat len"]
    show "(case q of (tss, ds) \<Rightarrow> (Inr (), take 16 ?p @ concat (map i64_to_le tss) @ ds)) =
        (case q of (tss, ds) \<Rightarrow> (Inr () :: db_error + unit, lp_of TimeSeries pid req (u64_to_le (of_nat len) @ concat (map i64_to_le tss) @ ds)))"
      by (cases q) (simp only: prod.case fst_conv snd_conv)
  qed
  show ?thesis unfolding fill_series_def x bind.bind_lunit Let_def p ts dt i64_elems_zeros c zeros_def by simp
qed

lemma fill_series_of:
  assumes "zc_spec zc"
  shows "fill_series zc base sz len k sls (lp_of TimeSeries pid req []) =
    (if 12 + len * 8 + len * sz < 2 ^ 32 \<and> base mod 8 = 0
     then Option.bind sls (\<lambda>slices.
       map_option (\<lambda>(tss, ds). (Inr (), lp_of TimeSeries pid req (u64_to_le (of_nat len) @ concat (map i64_to_le tss) @ ds)))
         (copy_slices sz slices k (replicate len 0) (replicate (len * sz) 0)))
     else None)"
proof -
  have z: "zc (SliceOf 8 8) (base + 16, replicate (len * 8) 0) = None \<longleftrightarrow> base mod 8 = 0"
    unfolding zc_fits [OF assms] by (simp add: mod_add_right_eq [of base 16, symmetric])
  show ?thesis unfolding fill_series_laid_out z lp_valid_of [OF assms] by (simp add: add.assoc)
qed

lemma series_header_of:
  "zc_spec zc \<Longrightarrow> lp_set_header zc base ty id' rid (lp_of ty0 id0 rid0 []) = Some (lp_of ty id' rid [])"
  by (simp add: lp_set_header_of lp_valid_of)

text \<open>The builders of the handler meet the contract.\<close>

interpretation msg: packet_builder "msg_builder zc base mid req enc" for zc base mid req enc
proof
  fix ty id' rid r p
  assume "msg_builder zc base mid req enc (lp_of ty id' rid []) = Some (r, p)"
  then show "is_pkt p"
    using lp_of_ops(2) [of Msg mid req "[]"]
    by (auto simp: msg_builder_def lp_set_header_of lp_clear_of split: sum.splits if_splits)
qed

interpretation metadata: packet_builder "metadata_builder env req cid d mid" for env req cid d mid
proof
  fix ty id' rid r p
  assume "metadata_builder env req cid d mid (lp_of ty id' rid []) = Some (r, p)"
  then show "is_pkt p"
    by (auto simp: metadata_builder_def lp_set_header_of lp_clear_of split: option.splits if_splits intro: msg.builds)
qed

interpretation series: packet_builder "get_time_series zc base c a b limit pid req" for zc base c a b limit pid req
proof
  fix ty id' rid r p
  assume "get_time_series zc base c a b limit pid req (lp_of ty id' rid []) = Some (r, p)"
  then show "is_pkt p"
    by (auto simp: get_time_series_def lp_set_header_of lp_clear_of fill_series_laid_out Let_def
        bind_eq_Some_conv split: option.splits if_splits prod.splits)
qed

text \<open>How many packets a request is answered with, at most.\<close>

fun replies_to :: "'m handler_env \<Rightarrow> 'm request \<Rightarrow> nat" where
  "replies_to env (SQLQuery q) = length (fst (he_sql env q)) + 1"
| "replies_to env _ = 1"

definition answered :: "pkt_tx \<Rightarrow> pkt_tx \<Rightarrow> db_error + unit \<Rightarrow> nat \<Rightarrow> bool" where
  "answered tx tx' r n \<longleftrightarrow> (\<exists>new. sent_by tx tx' new \<and> length new \<le> n \<and> (\<forall>e. r = Inl e \<longrightarrow> length new < n))"

lemma answered_none: "tx_pkt tx = Some p \<Longrightarrow> is_pkt p \<Longrightarrow> 0 < n \<Longrightarrow> answered tx tx r n"
  unfolding answered_def using sent_by_none by (intro exI [of _ "[]"]) simp

lemma answered_one:
  "\<exists>new. sent_by tx tx' new \<and> length new \<le> 1 \<and> (\<forall>e. r = Inl e \<longrightarrow> new = []) \<Longrightarrow> answered tx tx' r 1"
  unfolding answered_def by auto

lemma send_msg_answered:
  "zc_spec (he_zc env) \<Longrightarrow> tx_pkt tx = Some p \<Longrightarrow> is_pkt p \<Longrightarrow> send_msg env m tx = Some (r, tx') \<Longrightarrow> answered tx tx' r 1"
  unfolding send_msg_def by (rule answered_one) (rule msg.sends)

lemma send_batches_answered:
  assumes "zc_spec (he_zc env)" "tx_pkt tx = Some p" "is_pkt p" "send_batches env bs tx = Some (r, tx')"
  shows "\<exists>new. sent_by tx tx' new \<and> length new \<le> length bs"
  using assms(2-4)
proof (induction bs arbitrary: tx p)
  case Nil
  then show ?case using sent_by_none by (intro exI [of _ "[]"]) auto
next
  case (Cons b bs)
  obtain q tx1 where s: "send_msg env (ArrowIPC (Some b)) tx = Some (q, tx1)" using Cons.prems(3) by (auto split: option.splits)
  obtain n1 where n1: "sent_by tx tx1 n1" "length n1 \<le> 1"
    using send_msg_answered [OF assms(1) Cons.prems(1,2) s] unfolding answered_def by blast
  show ?case
  proof (cases q)
    case (Inl e)
    then show ?thesis using Cons.prems(3) s n1 by (intro exI [of _ n1]) auto
  next
    case (Inr u)
    obtain p1 where p1: "tx_pkt tx1 = Some p1" "is_pkt p1" using sent_by_pkt [OF n1(1)] by blast
    from Cons.IH [OF p1] Cons.prems(3) s Inr obtain n2 where "sent_by tx1 tx' n2" "length n2 \<le> length bs" by auto
    then show ?thesis using sent_by_trans [OF n1(1)] n1(2) by (intro exI [of _ "n1 @ n2"]) auto
  qed
qed

lemma sql_answered:
  assumes "zc_spec (he_zc env)" "tx_pkt tx = Some p" "is_pkt p" "sql_query env q tx = Some (r, tx')"
  shows "answered tx tx' r (length (fst (he_sql env q)) + 1)"
proof -
  obtain r1 tx1 where b: "send_batches env (fst (he_sql env q)) tx = Some (r1, tx1)"
    using assms(4) by (auto simp: sql_query_def split: option.splits)
  obtain n1 where n1: "sent_by tx tx1 n1" "length n1 \<le> length (fst (he_sql env q))"
    using send_batches_answered [OF assms(1-3) b] by blast
  show ?thesis
  proof (cases "r1 = Inr () \<and> snd (he_sql env q) = Inr ()")
    case False
    then have "tx' = tx1" using assms(4) b by (auto simp: sql_query_def split: sum.splits)
    then show ?thesis using n1 unfolding answered_def by (intro exI [of _ n1]) simp
  next
    case True
    then have "send_msg env (ArrowIPC None) tx1 = Some (r, tx')" using assms(4) b by (simp add: sql_query_def)
    moreover obtain p1 where "tx_pkt tx1 = Some p1" "is_pkt p1" using sent_by_pkt [OF n1(1)] by blast
    ultimately have "answered tx1 tx' r 1" using send_msg_answered assms(1) by blast
    then obtain n2 where "sent_by tx1 tx' n2" "length n2 \<le> 1" "\<forall>e. r = Inl e \<longrightarrow> length n2 < 1" unfolding answered_def by blast
    then show ?thesis using sent_by_trans [OF n1(1)] n1(2) unfolding answered_def by (intro exI [of _ "n1 @ n2"]) auto
  qed
qed

lemma request_answered:
  assumes "zc_spec (he_zc env)" "tx_pkt tx = Some p" "is_pkt p" "handle_request env base d tx rq = Some (r, d', tx', ts)"
  shows "answered tx tx' r (replies_to env rq)"
proof -
  note none = answered_none [OF assms(2,3)]
  note one = send_msg_answered [OF assms(1-3)]
  show ?thesis
  proof (cases rq)
    case (GetTimeSeries cid a b limit pid)
    show ?thesis
    proof (cases "st_components (db_st d) cid")
      case None
      then show ?thesis using assms(4) GetTimeSeries none by simp
    next
      case (Some c)
      then show ?thesis using assms(4) GetTimeSeries by (auto dest: answered_one [OF series.sends [OF assms(1-3)]])
    qed
  next
    case (GetComponentMetadata cid)
    then show ?thesis using assms(4) by (auto dest: answered_one [OF metadata.sends [OF assms(1-3)]])
  next
    case (SQLQuery q)
    then show ?thesis using assms(4) sql_answered [OF assms(1-3)] by simp
  qed (use assms(4) none one in \<open>auto simp: bind_eq_Some_conv Let_def split: option.splits sum.splits prod.splits\<close>)
qed

text \<open>The query a packet holds, if it is one.\<close>

definition query_of :: "'m handler_env \<Rightarrow> owned_packet \<Rightarrow> string option" where
  "query_of env pkt =
     (case pkt of
        PktMsg m \<Rightarrow> (case he_decode env (mb_id m) of
          None \<Rightarrow> None
        | Some dec \<Rightarrow> (case mb_parse dec m of Inr (SQLQuery q) \<Rightarrow> Some q | _ \<Rightarrow> None))
      | _ \<Rightarrow> None)"

lemma packet_answered:
  assumes "zc_spec (he_zc env)" "tx_pkt tx = Some p" "is_pkt p" "handle_packet env pkt d tx = Some (r, d', tx', ts)"
  shows "answered tx tx' r (case query_of env pkt of None \<Rightarrow> 1 | Some q \<Rightarrow> length (fst (he_sql env q)) + 1)"
proof -
  note none = answered_none [OF assms(2,3)]
  show ?thesis
  proof (cases pkt)
    case (PktMsg m)
    show ?thesis
    proof (cases "he_decode env (mb_id m)")
      case None
      then show ?thesis using assms(4) PktMsg none by (auto simp: handle_packet_def query_of_def)
    next
      case (Some dec)
      show ?thesis
      proof (cases "mb_parse dec m")
        case (Inl e)
        then show ?thesis using assms(4) PktMsg Some none by (auto simp: handle_packet_def query_of_def)
      next
        case (Inr rq)
        then have "answered tx tx' r (replies_to env rq)"
          using assms(4) PktMsg Some request_answered [OF assms(1-3)] by (simp add: handle_packet_def)
        then show ?thesis using PktMsg Some Inr by (cases rq) (simp_all add: query_of_def)
      qed
    qed
  qed (use assms(4) none in \<open>auto simp: handle_packet_def query_of_def\<close>)
qed


section \<open>Time series of one node\<close>

lemma concat_slices: "i \<le> j \<Longrightarrow> concat (map (\<lambda>k. slice (k * e) ((k + 1) * e) d) [i..<j]) = slice (i * e) (j * e) d"
proof (induction j)
  case (Suc j)
  show ?case
  proof (cases "i = Suc j")
    case False
    then have "i \<le> j" using Suc.prems by simp
    then have "slice (i * e) (Suc j * e) d = slice (i * e) (j * e) d @ slice (j * e) (Suc j * e) d"
      by (intro slice_append_split) simp_all
    then show ?thesis using Suc.IH \<open>i \<le> j\<close> by simp
  qed simp
qed simp

lemma slice_of_node:
  assumes "node_ok e n" "i \<le> j + 1" "j < length (node_samples e n)"
  shows "slice_timestamps \<lparr>ns_node = n, ns_start = i, ns_end = j\<rparr> = Some (map fst (slice i (j + 1) (node_samples e n)))"
    "slice_data \<lparr>ns_node = n, ns_start = i, ns_end = j\<rparr> = Some (concat (map snd (slice i (j + 1) (node_samples e n))))"
proof -
  note t = node_timestamps [OF assms(1)]
  show "slice_timestamps \<lparr>ns_node = n, ns_start = i, ns_end = j\<rparr> = Some (map fst (slice i (j + 1) (node_samples e n)))"
    using t(1,3) assms(2,3) by (simp add: slice_timestamps_def get_inclusive_def get_range_def slice_map flip: t(2))
  let ?k = "al_len (ts_index n) div 8" and ?d = "al_data (ts_data n)"
  have l: "length ?d = ?k * e" and es: "element_size n = e" using assms(1) by (simp_all add: node_ok_def mult.commute)
  have j: "(j + 1) * e \<le> ?k * e" using assms(3) t(3) by (intro mult_le_mono1) simp
  have i: "i * e \<le> (j + 1) * e" using assms(2) by (rule mult_le_mono1)
  have "concat (map snd (slice i (j + 1) (node_samples e n))) = concat (map (\<lambda>k. slice (k * e) ((k + 1) * e) ?d) [i..<j + 1])"
    using assms(3) t(3) by (simp add: node_samples_def slice_map slice_def take_map drop_map drop_upt take_upt comp_def)
  also have "\<dots> = slice (i * e) ((j + 1) * e) ?d" by (rule concat_slices [OF assms(2)])
  finally show "slice_data \<lparr>ns_node = n, ns_start = i, ns_end = j\<rparr> = Some (concat (map snd (slice i (j + 1) (node_samples e n))))"
    using i j l min_absorb1 [OF le_trans [OF i j]] by (simp add: slice_data_def es get_range_def Let_def)
qed

lemma node_sample_sizes: "node_ok e n \<Longrightarrow> x \<in> set (node_samples e n) \<Longrightarrow> length (snd x) = e \<and> i64_range (fst x)"
proof -
  assume n: "node_ok e n" and x: "x \<in> set (node_samples e n)"
  then obtain i where i: "i < al_len (ts_index n) div 8" "x = node_samples e n ! i" by (auto simp: in_set_conv_nth node_samples_def)
  have "length (snd x) = e" using node_sample(1) [OF n i(1)] i(2)
    by (simp add: al_get_def get_range_def split: if_splits) (metis add_diff_cancel_left' length_slice)
  moreover have "i64_range (fst x)"
    using i n by (simp add: node_samples_def i64_elems_def node_ok_def)
  ultimately show ?thesis by simp
qed

lemma take_concat_uniform: "\<forall>x \<in> set xs. length x = e \<Longrightarrow> take (k * e) (concat xs) = concat (take k xs)"
proof (induction xs arbitrary: k)
  case (Cons x xs)
  then show ?case by (cases k) simp_all
qed simp

lemma concat_uniform_length: "\<forall>x \<in> set xs. length x = e \<Longrightarrow> length (concat xs) = length xs * e"
  by (induction xs) auto

text \<open>One slice is copied from its front: the limit keeps the oldest samples.\<close>

lemma copy_one_slice:
  assumes "slice_timestamps sl = Some (map fst hits)" "slice_data sl = Some (concat (map snd hits))"
    and "\<forall>x \<in> set hits. length (snd x) = e" "len \<le> length hits"
  shows "copy_slices e [sl] (length hits - len) (replicate len 0) (replicate (len * e) 0) =
    Some (map fst (take len hits), concat (map snd (take len hits)))"
proof -
  have u: "\<forall>x \<in> set (map snd hits). length x = e" using assms(3) by simp
  have "len * e \<le> length hits * e" using assms(4) by (rule mult_le_mono1)
  then show ?thesis using assms(1,2,4) concat_uniform_length [OF u] take_concat_uniform [OF u]
    by (cases "len = 0") (simp_all add: Let_def take_map)
qed

lemma series_parses:
  assumes "zc_spec zc" "k < 2 ^ 60" "length tss = k" "\<forall>t \<in> set tss. i64_range t" "addr mod 8 = 4"
  shows "\<exists>ser. parse_packet zc (addr, drop 4 (lp_of TimeSeries pid req (u64_to_le (of_nat k) @ concat (map i64_to_le tss) @ ds))) =
      Some (Inr (PktTimeSeries ser)) \<and> os_id ser = pid \<and> os_req_id ser = req \<and> os_len ser = k \<and>
    series_timestamps zc ser = Some (Inr tss) \<and> map_sum id snd (series_data ser) = Inr ds"
proof -
  let ?body = "u64_to_le (of_nat k) @ concat (map i64_to_le tss) @ ds"
  let ?ser = "\<lparr>os_id = pid, os_req_id = req, os_len = k, os_buf = (addr + 4, ?body)\<rparr>"
  have d: "drop 4 (lp_of TimeSeries pid req ?body) = [packet_code TimeSeries, fst pid, snd pid, req] @ ?body" by (simp add: lp_of_def)
  have h: "zc (PacketOf None) (addr, drop 4 (lp_of TimeSeries pid req ?body)) = None" "zc SeriesHeader (addr + 4, ?body) = None"
    by (simp_all add: zc_fits [OF assms(1)] d)
  have k: "le_to_nat (take 8 ?body) = k"
  proof -
    have "le_to_nat (u64_to_le (of_nat k)) = unat (of_nat k :: u64)"
      using unat_lt_power [of "of_nat k :: u64"] by (simp add: u64_to_le_def le_simps)
    then show ?thesis using assms(2) by (simp add: unat_of_nat)
  qed
  have "parse_packet zc (addr, drop 4 (lp_of TimeSeries pid req ?body)) = Some (Inr (PktTimeSeries ?ser))"
    using h k unfolding d
    by (simp add: parse_packet_def parse_with_offset_def as_get_def get_range_def slice_def try_slice_from_def
        packet_header_len_def packet_of_code_def Let_def)
  moreover have w: "(8 + k * 8) mod 2 ^ 64 = 8 + k * 8" using assms(2) by simp
  have "series_timestamps zc ?ser = Some (Inr tss)"
  proof -
    have g: "as_get (os_buf ?ser) 8 (8 + k * 8) = Some (addr + 12, concat (map i64_to_le tss))"
      using assms(3) by (simp add: as_get_def get_range_def slice_def)
    have "(addr + 12) mod 8 = 0" using assms(5) by presburger
    then have "zc (SliceOf 8 8) (addr + 12, concat (map i64_to_le tss)) = None" by (simp add: zc_fits [OF assms(1)])
    then show ?thesis unfolding series_timestamps_def Let_def owned_time_series.select_convs w
      using g i64_elems_concat [OF assms(4)] by simp
  qed
  moreover have "map_sum id snd (series_data ?ser) = Inr ds"
    unfolding series_data_def Let_def owned_time_series.select_convs w try_slice_from_def as_get_def get_range_def
    using assms(3) by (simp add: slice_def)
  ultimately show ?thesis by (intro exI [of _ ?ser]) simp
qed

text \<open>A turn that copies \<open>tss\<close> and \<open>ds\<close> is received as them.\<close>

lemma series_turn:
  assumes zc: "zc_spec (he_zc env)" "he_base env mod 8 = 0" "addr mod 8 = 4" and send: "he_send env = (\<lambda>_. None)"
    and resp: "is_pkt resp" and req: "he_decode env (mb_id m) = Some dec" "mb_parse dec m = Inr (GetTimeSeries cid a b limit pid)"
    and comp: "st_components (db_st d) cid = Some c"
    and r: "get_ts_range (co_series c) a b = Some (Some (r1, r2))" "as_iter (co_series c) r1 r2 = Some sls" "slice_len (co_series c) r1 r2 = Some N"
    and k: "k = (case limit of None \<Rightarrow> N | Some l \<Rightarrow> min N l)" "12 + k * 8 + k * cs_size (co_schema c) < 2 ^ 32"
    and cp: "copy_slices (cs_size (co_schema c)) sls (N - k) (replicate k 0) (replicate (k * cs_size (co_schema c)) 0) = Some (tss, ds)"
    and rng: "\<forall>t \<in> set tss. i64_range t"
  shows "\<exists>p ser. conn_turn env (PktMsg m) d resp = Some (d, p, [p], []) \<and>
    parse_packet (he_zc env) (addr, drop 4 p) = Some (Inr (PktTimeSeries ser)) \<and>
    os_id ser = pid \<and> os_req_id ser = mb_req_id m \<and> os_len ser = k \<and>
    series_timestamps (he_zc env) ser = Some (Inr tss) \<and> map_sum id snd (series_data ser) = Inr ds \<and>
    (\<exists>body. p = lp_of TimeSeries pid (mb_req_id m) body \<and> 4 + length body < 2 ^ 32)"
proof -
  let ?p = "lp_of TimeSeries pid (mb_req_id m) (u64_to_le (of_nat k) @ concat (map i64_to_le tss) @ ds)"
  obtain ty id0 rid0 body0 where rp: "resp = lp_of ty id0 rid0 body0" using resp unfolding is_pkt_def by blast
  have l: "length tss = k" "length ds = k * cs_size (co_schema c)" using copy_slices_length [OF cp] by simp_all
  have g: "get_time_series (he_zc env) (he_base env) c a b limit pid (mb_req_id m) (lp_of ty id0 rid0 []) = Some (Inr (), ?p)"
    unfolding get_time_series_def series_header_of [OF zc(1)] lp_clear_of option.case r(1) prod.case r(3) bind.bind_lunit Let_def
      k(1) [symmetric] fill_series_of [OF zc(1)] r(2) cp using k(2) zc(2) by simp
  have v: "lp_valid (he_zc env) (he_base env) ?p"
    unfolding lp_valid_of [OF zc(1)] length_append length_i64_bytes l length_to_le using k(2) by simp
  have "conn_turn env (PktMsg m) d resp = Some (d, ?p, [?p], [])"
    using g v by (simp add: conn_turn_def handle_packet_def req comp send_with_builder_def rp lp_clear_of lp_of_req send Let_def replied_def)
  moreover have "k < 2 ^ 60" using k(2) by simp
  moreover have "4 + length (u64_to_le (of_nat k) @ concat (map i64_to_le tss) @ ds) < 2 ^ 32"
    unfolding length_append length_i64_bytes l length_to_le using k(2) by simp
  ultimately show ?thesis using series_parses [OF zc(1) _ l(1) rng zc(3), of pid "mb_req_id m" ds] by fastforce
qed

lemma time_series_turn:
  assumes zc: "zc_spec (he_zc env)" "he_base env mod 8 = 0" "addr mod 8 = 4" and send: "he_send env = (\<lambda>_. None)"
    and resp: "is_pkt resp" and req: "he_decode env (mb_id m) = Some dec" "mb_parse dec m = Inr (GetTimeSeries cid a b limit pid)"
    and comp: "st_components (db_st d) cid = Some c" "ts_inv (cs_size (co_schema c)) (co_series c)" "ts_nodes (co_series c) = [n]"
    and srt: "sorted_wrt (<) (map fst (node_samples (cs_size (co_schema c)) n))" and ne: "node_samples (cs_size (co_schema c)) n \<noteq> []"
    and ab: "a \<le> b" "fst (hd (node_samples (cs_size (co_schema c)) n)) \<le> b"
    and hits: "hits = filter (\<lambda>x. a \<le> fst x \<and> fst x \<le> b) (ts_samples (cs_size (co_schema c)) (co_series c))"
    and k: "k = (case limit of None \<Rightarrow> length hits | Some l \<Rightarrow> min (length hits) l)" "12 + k * 8 + k * cs_size (co_schema c) < 2 ^ 32"
  shows "\<exists>p ser. conn_turn env (PktMsg m) d resp = Some (d, p, [p], []) \<and>
    parse_packet (he_zc env) (addr, drop 4 p) = Some (Inr (PktTimeSeries ser)) \<and>
    os_id ser = pid \<and> os_req_id ser = mb_req_id m \<and> os_len ser = k \<and>
    series_timestamps (he_zc env) ser = Some (Inr (map fst (take k hits))) \<and>
    map_sum id snd (series_data ser) = Inr (concat (map snd (take k hits))) \<and>
    (\<exists>body. p = lp_of TimeSeries pid (mb_req_id m) body \<and> 4 + length body < 2 ^ 32)"
proof -
  let ?e = "cs_size (co_schema c)"
  have n: "node_ok ?e n" using comp(2,3) by (simp add: ts_inv_def)
  obtain r1 r2 i j where r: "get_ts_range (co_series c) a b = Some (Some (r1, r2))"
    "as_iter (co_series c) r1 r2 = Some [\<lparr>ns_node = n, ns_start = i, ns_end = j\<rparr>]"
    and ij: "i \<le> j + 1" "j < length (node_samples ?e n)"
    and f: "slice i (j + 1) (node_samples ?e n) = filter (\<lambda>x. a \<le> fst x \<and> fst x \<le> b) (node_samples ?e n)"
    using range_one_node [OF comp(2,3) srt ne ab] by blast
  have fh: "slice i (j + 1) (node_samples ?e n) = hits" unfolding f hits using comp(3) by (simp add: ts_samples_def)
  note sl = slice_of_node [OF n ij, unfolded fh]
  have sizes: "\<forall>x \<in> set hits. length (snd x) = ?e" "\<forall>t \<in> set (map fst (take k hits)). i64_range t"
    using node_sample_sizes [OF n] unfolding fh [symmetric] by (auto simp: slice_def dest!: in_set_takeD in_set_dropD)
  have kl: "k \<le> length hits" using k(1) by (simp split: option.splits)
  have len: "slice_len (co_series c) r1 r2 = Some (length hits)" by (simp add: slice_len_def r(2) sl(1))
  have "copy_slices ?e [\<lparr>ns_node = n, ns_start = i, ns_end = j\<rparr>] (length hits - k) (replicate k 0) (replicate (k * ?e) 0) =
      Some (map fst (take k hits), concat (map snd (take k hits)))"
    by (rule copy_one_slice [OF sl sizes(1) kl])
  from series_turn [OF zc send resp req comp(1) r len k this sizes(2)] show ?thesis by blast
qed


lemma copy_nothing:
  "\<forall>sl \<in> set sls. \<exists>ts ds. slice_timestamps sl = Some ts \<and> slice_data sl = Some ds \<and> length ts \<le> k \<Longrightarrow>
     copy_slices sz sls k tsd dd = Some (tsd, dd)"
  by (induction sls) auto

text \<open>When a range covers several nodes, the samples that the limit leaves out are subtracted from
  every slice again: a limit that leaves out at least as many samples as each slice holds is
  answered with that many samples, all of them zero, with timestamp zero.\<close>

theorem limit_returns_zeros:
  assumes zc: "zc_spec (he_zc env)" "he_base env mod 8 = 0" "addr mod 8 = 4" and send: "he_send env = (\<lambda>_. None)"
    and resp: "is_pkt resp" and req: "he_decode env (mb_id m) = Some dec" "mb_parse dec m = Inr (GetTimeSeries cid a b (Some l) pid)"
    and comp: "st_components (db_st d) cid = Some c"
    and r: "get_ts_range (co_series c) a b = Some (Some (r1, r2))" "as_iter (co_series c) r1 r2 = Some sls" "slice_len (co_series c) r1 r2 = Some N"
    and sl: "\<forall>sl \<in> set sls. \<exists>ts ds. slice_timestamps sl = Some ts \<and> slice_data sl = Some ds \<and> length ts + l \<le> N"
    and l: "l \<le> N" "12 + l * 8 + l * cs_size (co_schema c) < 2 ^ 32"
  shows "\<exists>p ser. conn_turn env (PktMsg m) d resp = Some (d, p, [p], []) \<and>
    parse_packet (he_zc env) (addr, drop 4 p) = Some (Inr (PktTimeSeries ser)) \<and>
    os_id ser = pid \<and> os_req_id ser = mb_req_id m \<and> os_len ser = l \<and>
    series_timestamps (he_zc env) ser = Some (Inr (replicate l 0)) \<and>
    map_sum id snd (series_data ser) = Inr (replicate (l * cs_size (co_schema c)) 0)"
proof -
  have k: "l = (case Some l of None \<Rightarrow> N | Some l \<Rightarrow> min N l)" using l(1) by simp
  have c: "copy_slices (cs_size (co_schema c)) sls (N - l) (replicate l 0) (replicate (l * cs_size (co_schema c)) 0) =
      Some (replicate l 0, replicate (l * cs_size (co_schema c)) 0)"
    by (rule copy_nothing) (use sl in fastforce)
  have "\<forall>t \<in> set (replicate l 0). i64_range t" by (simp add: i64_range_def)
  from series_turn [OF zc send resp req comp r k l(2) c this] show ?thesis by blast
qed

section \<open>Concrete requests\<close>

text \<open>A server for a few requests, of one byte each.\<close>

definition demo_handler :: "nat handler_env" where
  "demo_handler = \<lparr>he_decode = (\<lambda>pid. if pid = (1, 1) then Some (\<lambda>bs. Inr (if bs = [0] then GetEarliestTimestamp
         else if bs = [1] then GetTimeSeries 7 30 45 None (9, 9) else GetTimeSeries 7 30 40 (Some 2) (9, 9)))
       else if pid = (1, 2) then Some (\<lambda>_. Inr (VTableMsg (1, 2) (build_vtable demo_fields))) else None),
     he_reply_id = (\<lambda>_. (3, 3)), he_encode = (\<lambda>_. Inr [42]), he_send = (\<lambda>_. None), he_zc = zc_ok, he_base = 0,
     he_codecs = demo_codecs, he_os = (\<lambda>_. None), he_meta_os = None, he_now = 0, he_components = [], he_logs = [],
     he_resolve = (\<lambda>_. Inr 0), he_sql = (\<lambda>_. ([], Inr ())), he_archive = (\<lambda>_ _. Inr ()), he_describe = (\<lambda>_. [])\<rparr>"

definition demo_msg :: "packet_id \<Rightarrow> byte list \<Rightarrow> msg_buf" where
  "demo_msg pid bs = \<lparr>mb_id = pid, mb_req_id = 5, mb_timestamp = None, mb_buf = (0, bs)\<rparr>"

lemma demo_handler_simps:
  "he_zc demo_handler = zc_ok" "he_base demo_handler = 0" "he_send demo_handler = (\<lambda>_. None)"
  "he_encode demo_handler r = Inr [42]" "he_reply_id demo_handler r = (3, 3)"
  by (simp_all add: demo_handler_def)

lemma conn_turns_keep_db_witness:
  "\<exists>d' resp'. conn_turn demo_handler (PktMsg (demo_msg (1, 2) [])) demo_db (lp_of Msg (0, 0) 0 []) = Some (d', resp', [], []) \<and>
     st_registry (db_st d') (1, 2) = Some (build_vtable demo_fields) \<and> db_wf zc_ok d'"
proof -
  obtain d' where d': "insert_vtable demo_codecs (\<lambda>_. None) zc_ok 0 (1, 2) (build_vtable demo_fields) demo_db = Some (Inr (), d')"
    "st_registry (db_st d') (1, 2) = Some (build_vtable demo_fields)" using demo_insert by blast
  have t: "conn_turn demo_handler (PktMsg (demo_msg (1, 2) [])) demo_db (lp_of Msg (0, 0) 0 []) = Some (d', lp_of Msg (0, 0) 0 [], [], [])"
    using d'(1) by (simp add: conn_turn_def handle_packet_def demo_msg_def mb_parse_def demo_handler_def updated_def)
  show ?thesis using conn_turns_keep_db [OF _ _ t] demo_db_wf d'(2) t by (auto simp: demo_handler_simps zc_ok_spec)
qed


definition demo_series_db :: "time_series \<Rightarrow> nat db" where
  "demo_series_db s = db_put_component demo_db 7 (demo_comp\<lparr>co_series := s\<rparr>)"

lemma demo_series_facts:
  "st_components (db_st (demo_series_db s)) 7 = Some (demo_comp\<lparr>co_series := s\<rparr>)"
  "cs_size (co_schema (demo_comp\<lparr>co_series := s\<rparr>)) = 8"
  by (simp_all add: demo_series_db_def db_put_component_def demo_comp_def cs_new_def cs_size_def)



end
