(* ===== verification/Server.thy ===== *)
theory Server
  imports ClientCorrect HandlersCorrect
begin

text \<open>
  The connection loop of the server (\<open>handle_conn\<close>, \<open>handle_conn_inner\<close> and \<open>handle_udp\<close> of
  \<open>libs/db/src/lib.rs\<close>) over the byte stream of the client, and the composition of client,
  transport and server.
\<close>

section \<open>The loop\<close>

text \<open>
  What a turn finds: its environment, and what the other tasks have done to the database
  while it waited.  \<open>base\<close> is the address of the receive buffer.  The loop ends with the
  error of the first receive that fails; returned are the error, the database, the packets
  sent and the tasks started.
\<close>

record 'm world =
  wo_env :: "nat \<Rightarrow> 'm handler_env"
  wo_others :: "nat \<Rightarrow> 'm db \<Rightarrow> 'm db"
  wo_zc :: caster
  wo_base :: nat

function serve :: "'m world \<Rightarrow> nat \<Rightarrow> byte list \<Rightarrow> len_packet \<Rightarrow> del_reader \<Rightarrow> 'm db \<Rightarrow>
    (impeller_stellar_error \<times> 'm db \<times> len_packet list \<times> task list) option" where
  "serve w n buf resp_pkt rx d =
     (case next_packet (wo_zc w) (wo_base w) False buf rx of
        None \<Rightarrow> None
      | Some (Inl e, rx) \<Rightarrow> Some (e, wo_others w n d, [], [])
      | Some (Inr (pkt, buf), rx) \<Rightarrow>
          (case conn_turn (wo_env w n) pkt (wo_others w n d) resp_pkt of
             None \<Rightarrow> None
           | Some (d, resp_pkt, sent, ts) \<Rightarrow>
               map_option (\<lambda>(e, d, sent', ts'). (e, d, sent @ sent', ts @ ts')) (serve w (n + 1) buf resp_pkt rx d)))"
  by pat_completeness auto
termination
  by (relation "measure (\<lambda>(w, n, buf, resp, rx, d). ld_left rx)") (auto dest!: next_packet_left)

declare serve.simps [simp del]

text \<open>\<open>handle_conn\<close>: a closed connection is not reported.\<close>

definition handle_conn :: "'m world \<Rightarrow> byte list \<Rightarrow> chunk list \<Rightarrow> 'm db \<Rightarrow>
    (db_error option \<times> 'm db \<times> len_packet list \<times> task list) option" where
  "handle_conn w buf chunks d =
     map_option (\<lambda>(e, r). (if is_stream_closed (from_impeller_stellar e) then None else Some (from_impeller_stellar e), r))
       (serve w 0 buf (lp_new Msg (0, 0)) (ld_new chunks) d)"

section \<open>The loop over packets\<close>

text \<open>The loop without its byte stream: one turn for each packet.\<close>

fun turns :: "'m world \<Rightarrow> nat \<Rightarrow> owned_packet list \<Rightarrow> len_packet \<Rightarrow> 'm db \<Rightarrow>
    ('m db \<times> len_packet list \<times> task list) option" where
  "turns w n [] resp_pkt d = Some (wo_others w n d, [], [])"
| "turns w n (pkt # pkts) resp_pkt d =
     (case conn_turn (wo_env w n) pkt (wo_others w n d) resp_pkt of
        None \<Rightarrow> None
      | Some (d, resp_pkt, sent, ts) \<Rightarrow>
          map_option (\<lambda>(d, sent', ts'). (d, sent @ sent', ts @ ts')) (turns w (n + 1) pkts resp_pkt d))"

lemma serve_wire:
  assumes "flowing (ld_input rx)" "length (ld_scratch rx) \<le> length buf" "4 < length buf" "unread rx = wire bodies @ rest" "length buf = cap"
    and "list_all2 (\<lambda>b p. carries (wo_zc w) (wo_base w) b p \<and> 4 + length b \<le> cap) bodies pkts"
    and stop: "\<And>(buf' :: byte list) rx'. \<lbrakk>flowing (ld_input rx'); length (ld_scratch rx') \<le> length buf'; length buf' = cap; unread rx' = rest\<rbrakk> \<Longrightarrow>
      \<exists>rx''. next_packet (wo_zc w) (wo_base w) False buf' rx' = Some (Inl e, rx'')"
  shows "serve w n buf resp rx d = map_option (\<lambda>r. (e, r)) (turns w n pkts resp d)"
  using assms(6,1-5) stop
proof (induction bodies pkts arbitrary: n buf resp rx d rule: list_all2_induct)
  case Nil
  from Nil.prems(6) [OF Nil.prems(1,2,5)] Nil.prems(4) obtain rx'' where
    "next_packet (wo_zc w) (wo_base w) False buf rx = Some (Inl e, rx'')" by auto
  then show ?case by (subst serve.simps) simp
next
  case (Cons b bodies p pkts)
  have c: "carries (wo_zc w) (wo_base w) b p" "4 + length b \<le> length buf" using Cons.hyps(1) Cons.prems(5) by simp_all
  have "unread rx = frame 4 b @ wire bodies @ rest" using Cons.prems(4) by simp
  from next_packet_frame [OF Cons.prems(1-3) this, of False "wo_zc w" "wo_base w"] c obtain buf' rx' where
    n: "next_packet (wo_zc w) (wo_base w) False buf rx = Some (Inr (p, buf'), rx')" "unread rx' = wire bodies @ rest"
      "flowing (ld_input rx')" "length (ld_scratch rx') \<le> length buf'" "length buf' = length buf"
    by (auto simp: carries_def)
  show ?case
  proof (cases "conn_turn (wo_env w n) p (wo_others w n d) resp")
    case None
    then show ?thesis using n(1) by (subst serve.simps) simp
  next
    case (Some r)
    obtain d1 resp1 sent ts where r: "r = (d1, resp1, sent, ts)" by (cases r)
    have "serve w (n + 1) buf' resp1 rx' d1 = map_option (\<lambda>r. (e, r)) (turns w (n + 1) pkts resp1 d1)"
      by (rule Cons.IH) (use n Cons.prems in auto)
    then show ?thesis using n(1) Some r
      by (subst serve.simps) (simp add: option.map_comp comp_def case_prod_unfold)
  qed
qed

lemma closed_stops:
  assumes "flowing (ld_input rx)" "unread rx = []" "4 < length buf"
  shows "\<exists>rx'. next_packet zc base False buf rx = Some (Inl (ISStellar EOF), rx')"
proof -
  have "ld_input rx = [] \<and> ld_scratch rx = []"
    using assms(1,2) by (cases "ld_input rx") (auto simp: unread_def flowing_def)
  then have "ld_read (length buf) rx = (Inr [], rx)" by (simp add: ld_read_def)
  then have "ld_fill 4 buf 0 rx = (Some (Inl EOF), rx)"
    using assms(3) by (subst ld_fill.simps) auto
  then show ?thesis by (simp add: next_packet_def ld_recv_def)
qed

lemma rejected_stops:
  assumes "flowing (ld_input rx)" "length (ld_scratch rx) \<le> length buf" "4 < length buf" "unread rx = frame 4 bad @ rest"
    and "length bad < 2 ^ 32" "4 + length bad \<le> length buf" "parse_packet zc (base + 4, bad) = Some (Inl e)"
  shows "\<exists>rx'. next_packet zc base False buf rx = Some (Inl (ISImpeller e), rx')"
  using next_packet_frame [OF assms(1-5), of False zc base] assms(6,7) by auto

text \<open>Over a connection that delivers the packets of a client and is then closed, in whatever
  chunks, the server takes exactly one turn for each packet, in order, and ends without an
  error.\<close>

theorem server_takes_turns:
  assumes "flowing cs" "concat (map chunk_bytes cs) = wire bodies" "4 < length buf"
    and "list_all2 (\<lambda>b p. carries (wo_zc w) (wo_base w) b p \<and> 4 + length b \<le> length buf) bodies pkts"
  shows "handle_conn w buf cs d = map_option (\<lambda>r. (None, r)) (turns w 0 pkts (lp_new Msg (0, 0)) d)"
proof -
  have "serve w 0 buf (lp_new Msg (0, 0)) (ld_new cs) d =
      map_option (\<lambda>r. (ISStellar EOF, r)) (turns w 0 pkts (lp_new Msg (0, 0)) d)"
    by (rule serve_wire [where rest = "[]"])
      (use assms closed_stops [where zc = "wo_zc w" and base = "wo_base w"] in \<open>auto simp: ld_new_def unread_def\<close>)
  then show ?thesis by (simp add: handle_conn_def option.map_comp comp_def case_prod_unfold)
qed

text \<open>C26. One packet that does not parse ends the connection's loop: what came before it has been
  handled, whatever comes after it is never read.  Over UDP, where one loop serves every
  sender, this ends the reception for all of them.\<close>

theorem rejected_packet_ends_loop:
  assumes "flowing cs" "concat (map chunk_bytes cs) = wire bodies @ frame 4 bad @ rest" "4 < length buf"
    and "list_all2 (\<lambda>b p. carries (wo_zc w) (wo_base w) b p \<and> 4 + length b \<le> length buf) bodies pkts"
    and "parse_packet (wo_zc w) (wo_base w + 4, bad) = Some (Inl e)" "length bad < 2 ^ 32" "4 + length bad \<le> length buf"
  shows "handle_conn w buf cs d =
    map_option (\<lambda>r. (Some (ImpellerStella (ISImpeller e)), r)) (turns w 0 pkts (lp_new Msg (0, 0)) d)"
proof -
  have "serve w 0 buf (lp_new Msg (0, 0)) (ld_new cs) d =
      map_option (\<lambda>r. (ISImpeller e, r)) (turns w 0 pkts (lp_new Msg (0, 0)) d)"
  proof (rule serve_wire [where rest = "frame 4 bad @ rest"])
    fix buf' :: "byte list" and rx'
    assume "flowing (ld_input rx')" "length (ld_scratch rx') \<le> length buf'" "length buf' = length buf"
      "unread rx' = frame 4 bad @ rest"
    then show "\<exists>rx''. next_packet (wo_zc w) (wo_base w) False buf' rx' = Some (Inl (ISImpeller e), rx'')"
      using assms(3,5-7) by (intro rejected_stops) auto
  qed (use assms in \<open>auto simp: ld_new_def unread_def\<close>)
  then show ?thesis by (simp add: handle_conn_def option.map_comp comp_def case_prod_unfold)
qed

section \<open>Client, transport and server together\<close>

text \<open>What the server answers to a connection.\<close>

definition answers :: "'m world \<Rightarrow> byte list \<Rightarrow> chunk list \<Rightarrow> 'm db \<Rightarrow> len_packet list" where
  "answers w buf cs d = (case handle_conn w buf cs d of None \<Rightarrow> [] | Some (_, _, sent, _) \<Rightarrow> sent)"

lemma one_request_turn:
  assumes "flowing cs" "concat (map chunk_bytes cs) = lp_of Msg mid rid payload" "zc_spec (wo_zc w)"
    and "length payload + 8 < 2 ^ 32" "length payload + 8 \<le> length buf"
    and "conn_turn (wo_env w 0) (PktMsg \<lparr>mb_id = mid, mb_req_id = rid, mb_timestamp = None, mb_buf = (wo_base w + 8, payload)\<rparr>)
      (wo_others w 0 d) (lp_new Msg (0, 0)) = Some (d', p, sent, ts)"
  shows "handle_conn w buf cs d = Some (None, wo_others w 1 d', sent, ts)"
proof -
  let ?b = "drop 4 (lp_of Msg mid rid payload)"
  let ?m = "PktMsg \<lparr>mb_id = mid, mb_req_id = rid, mb_timestamp = None, mb_buf = (wo_base w + 8, payload)\<rparr>"
  have wire: "concat (map chunk_bytes cs) = wire [?b]" using assms(2,4) by (simp add: frame_of_packet)
  have c: "carries (wo_zc w) (wo_base w) ?b ?m"
    using msg_parses [OF assms(3), of "wo_base w + 4" mid rid payload] assms(4) by (simp add: carries_def add.assoc)
  have "4 < length buf" using assms(5) by simp
  then have "serve w 0 buf (lp_new Msg (0, 0)) (ld_new cs) d =
      map_option (\<lambda>r. (ISStellar EOF, r)) (turns w 0 [?m] (lp_new Msg (0, 0)) d)"
    by (intro serve_wire [where rest = "[]" and bodies = "[?b]"])
      (use assms(1,5) wire c closed_stops [where zc = "wo_zc w" and base = "wo_base w"] in \<open>auto simp: ld_new_def unread_def\<close>)
  then show ?thesis using assms(6) by (simp add: handle_conn_def)
qed


section \<open>Concrete connections\<close>

definition demo_world :: "nat world" where
  "demo_world = \<lparr>wo_env = (\<lambda>_. demo_handler), wo_others = (\<lambda>_ d. d), wo_zc = zc_ok, wo_base = 0\<rparr>"

lemma demo_world_simps [simp]:
  "wo_env demo_world n = demo_handler" "wo_others demo_world n d = d" "wo_zc demo_world = zc_ok" "wo_base demo_world = 0"
  by (simp_all add: demo_world_def)

lemma demo_carries: "length body < 100 \<Longrightarrow>
    carries zc_ok 0 (drop 4 (lp_of Msg (7, 7) rid body)) (plain_msg rid body)"
  using carries_plain [of body rid] by (simp add: quiet_env_def)


lemma rejected_packet_ends_loop_witness:
  "handle_conn demo_world (replicate 64 0) (byte_by_byte (lp_of Msg (7, 7) 4 [] @ frame 4 [9, 0, 0, 0] @ lp_of Msg (7, 7) 1 [3])) demo_db =
    map_option (\<lambda>r. (Some (ImpellerStella (ISImpeller BufferUnderflow)), r))
      (turns demo_world 0 [plain_msg 4 []] (lp_new Msg (0, 0)) demo_db)"
  by (rule rejected_packet_ends_loop [where bodies = "[drop 4 (lp_of Msg (7, 7) 4 [])]" and bad = "[9, 0, 0, 0]"
        and rest = "lp_of Msg (7, 7) 1 [3]"])
    (simp_all add: frame_of_packet demo_carries unknown_type_rejected)


end
