(* ===== verification/Eql.thy ===== *)
theory Eql
  imports ProtoTypes "HOL-Library.Char_ord" "HOL-Library.List_Lexorder"
begin

text \<open>
  The query language (\<open>libs/db/eql/src/lib.rs\<close>): names resolved against the tree of
  components, and the translation to SQL; with the component paths of
  \<open>libs/metor-proto/wkt/src/path.rs\<close>.  The grammar is compiled by an external parser
  generator, so the syntax tree is the input.  Parameters are the printing of floating-point
  numbers, the debug printing in error texts, the hash behind an identifier and the external
  parser of durations, whose conversion to nanoseconds is unwrapped.  Strings are lists of
  bytes; a \<open>BTreeMap\<close> is a list in the order of its keys.
\<close>

section \<open>Strings\<close>

fun dec_nat :: "nat \<Rightarrow> string" where
  "dec_nat n = (if n < 10 then [char_of (48 + n)] else dec_nat (n div 10) @ [char_of (48 + n mod 10)])"

declare dec_nat.simps [simp del]

definition undot :: "string \<Rightarrow> string" where
  "undot s = map (\<lambda>c. if c = CHR ''.'' then CHR ''_'' else c) s"

fun split_dot :: "string \<Rightarrow> string list" where
  "split_dot [] = [[]]"
| "split_dot (c # cs) =
     (if c = CHR ''.'' then [] # split_dot cs
      else (case split_dot cs of [] \<Rightarrow> [[c]] | s # ss \<Rightarrow> (c # s) # ss))"

fun join :: "string \<Rightarrow> string list \<Rightarrow> string" where
  "join sep [] = []"
| "join sep [s] = s"
| "join sep (s # ss) = s @ sep @ join sep ss"

fun bt_insert :: "'k::linorder \<Rightarrow> 'v \<Rightarrow> ('k \<times> 'v) list \<Rightarrow> ('k \<times> 'v) list" where
  "bt_insert k v [] = [(k, v)]"
| "bt_insert k v ((k', v') # m) =
     (if k < k' then (k, v) # (k', v') # m else if k = k' then (k, v) # m else (k', v') # bt_insert k v m)"

lemma map_of_bt_insert [simp]: "map_of (bt_insert k v m) = (map_of m)(k \<mapsto> v)"
  by (induction m) (auto simp: fun_eq_iff)

text \<open>A loop over elements that stops at the first error.\<close>

fun try_map :: "('a \<Rightarrow> 'e + 'b) \<Rightarrow> 'a list \<Rightarrow> 'e + 'b list" where
  "try_map f [] = Inr []"
| "try_map f (x # xs) = bind_result (f x) (\<lambda>y. map_sum id ((#) y) (try_map f xs))"

section \<open>Components and paths\<close>

record eql_component =
  ec_name :: string
  ec_id :: u64
  ec_schema :: schema
  ec_element_names :: "string list"

text \<open>A node of the tree; the last argument holds its children by name.\<close>

datatype component_part = Part (cp_name: string) (cp_id: u64) (cp_component: "eql_component option")
  (cp_children: "(string \<times> component_part) list")

record eql_context =
  cx_parts :: "(string \<times> component_part) list"
  cx_earliest :: int
  cx_last :: int

definition cx_default :: eql_context where
  "cx_default = \<lparr>cx_parts = [], cx_earliest = - (2 ^ 63), cx_last = 2 ^ 63 - 1\<rparr>"

text \<open>\<open>ComponentPath::from_name\<close>: every prefix of the name that ends before a dot, and the name.\<close>

fun dot_prefixes :: "string \<Rightarrow> string \<Rightarrow> string list" where
  "dot_prefixes before [] = [before]"
| "dot_prefixes before (c # cs) =
     (if c = CHR ''.'' then before # dot_prefixes (before @ [c]) cs else dot_prefixes (before @ [c]) cs)"

definition path_from_name :: "(string \<Rightarrow> u64) \<Rightarrow> string \<Rightarrow> (u64 \<times> string) list" where
  "path_from_name hash name = map (\<lambda>p. (component_id_new hash p, p)) (dot_prefixes [] name)"

definition path_tail :: "(string \<Rightarrow> u64) \<Rightarrow> string \<Rightarrow> u64 \<times> string" where
  "path_tail hash name = (let part = last (split_dot (snd (last (path_from_name hash name)))) in (component_id_new hash part, part))"

definition is_top_level :: "(string \<Rightarrow> u64) \<Rightarrow> string \<Rightarrow> bool" where
  "is_top_level hash name \<longleftrightarrow> length (path_from_name hash name) = 1"

text \<open>The names of a component's elements: one letter per dimension, or the index.\<close>

definition elem_name :: "nat \<Rightarrow> string" where
  "elem_name x = (if x < 8 then [''xyzwuvst'' ! x] else dec_nat x)"

fun append_elements :: "nat list \<Rightarrow> string \<Rightarrow> string list" where
  "append_elements [] parent = [parent]"
| "append_elements (n # shape) parent = concat (map (\<lambda>x. append_elements shape (parent @ elem_name x)) [0..<n])"

definition default_element_names :: "nat list \<Rightarrow> string list" where
  "default_element_names shape = append_elements shape []"

definition eql_component_new :: "string \<Rightarrow> u64 \<Rightarrow> schema \<Rightarrow> eql_component" where
  "eql_component_new name id' sc =
     \<lparr>ec_name = name, ec_id = id', ec_schema = sc, ec_element_names = default_element_names (sc_shape sc)\<rparr>"

text \<open>
  \<open>Context::from_leaves\<close>: along all but the last part of a component's path, existing nodes
  are kept and missing ones created; the last one is inserted anew.
\<close>

fun insert_leaf :: "eql_component \<Rightarrow> ((u64 \<times> string) \<times> string) list \<Rightarrow> string \<Rightarrow> (string \<times> component_part) list \<Rightarrow>
    (string \<times> component_part) list" where
  "insert_leaf c [] leaf m = bt_insert leaf (Part (ec_name c) (ec_id c) (Some c) []) m"
| "insert_leaf c (((id', name), node) # path) leaf m =
     (let part = (case map_of m node of Some part \<Rightarrow> part | None \<Rightarrow> Part name id' None [])
      in bt_insert node (Part (cp_name part) (cp_id part) (cp_component part) (insert_leaf c path leaf (cp_children part))) m)"

definition from_leaves :: "(string \<Rightarrow> u64) \<Rightarrow> eql_component list \<Rightarrow> int \<Rightarrow> int \<Rightarrow> eql_context" where
  "from_leaves hash components earliest latest =
     \<lparr>cx_parts = fold (\<lambda>c m.
         (let path = path_from_name hash (ec_name c); nodes = split_dot (ec_name c)
          in insert_leaf c (take (length path - 1) (zip path nodes)) (last nodes) m)) components [],
      cx_earliest = earliest, cx_last = latest\<rparr>"

section \<open>Syntax trees and expressions\<close>

datatype binary_op = Add | Sub | Mul | Div

fun op_to_str :: "binary_op \<Rightarrow> string" where
  "op_to_str Add = ''+''" | "op_to_str Sub = ''-''" | "op_to_str Mul = ''*''" | "op_to_str Div = ''/''"

datatype ast_node =
    AstIdent string
  | AstField ast_node string
  | AstArrayIndex ast_node nat
  | AstMethodCall ast_node string "ast_node list"
  | AstBinaryOp ast_node ast_node binary_op
  | AstTuple "ast_node list"
  | AstStringLiteral string
  | AstFloatLiteral u64
  | AstBoolLiteral bool

datatype expr =
    ComponentPart component_part
  | Time eql_component
  | ArrayAccess expr nat
  | Tuple "expr list"
  | FloatLiteral u64
  | StringLiteral string
  | BoolLiteral bool
  | Fft expr
  | FftFreq expr
  | Last expr int
  | First expr int
  | BinaryOp expr expr binary_op

datatype eql_error =
    EqlComponentNotFound string
  | InvalidFieldAccess string
  | InvalidSwizzle string
  | InvalidMethodCall string
  | EqlParse string

text \<open>
  The parameters.  \<open>ee_span\<close> parses a duration and returns its nanoseconds, or nothing when
  it has no fixed length.
\<close>

record eql_env =
  ee_float :: "u64 \<Rightarrow> string"
  ee_seconds :: "int \<Rightarrow> string"
  ee_debug :: "expr \<Rightarrow> string"
  ee_span :: "string \<Rightarrow> string + int option"

section \<open>Translation to SQL\<close>

fun to_field :: "eql_env \<Rightarrow> expr \<Rightarrow> eql_error + string" where
  "to_field env (ComponentPart part) = Inr (undot (cp_name part))"
| "to_field env (Time _) = Inr ''time''"
| "to_field env (Fft e) = map_sum id (\<lambda>f. ''fft('' @ f @ '')'') (to_field env e)"
| "to_field env (FftFreq e) = map_sum id (\<lambda>f. ''fftfreq('' @ f @ '')'') (to_field env e)"
| "to_field env (BinaryOp l r op) =
     bind_result (to_field env l) (\<lambda>l. map_sum id (\<lambda>r. ''('' @ l @ '' '' @ op_to_str op @ '' '' @ r @ '')'') (to_field env r))"
| "to_field env (ArrayAccess inner index) =
     (case inner of
        ComponentPart part \<Rightarrow>
          if cp_component part \<noteq> None then Inr (undot (cp_name part) @ ''['' @ dec_nat (index + 1) @ '']'')
          else Inl (InvalidFieldAccess ''array access on non-component'')
      | _ \<Rightarrow> Inl (InvalidFieldAccess ''array access on non-component''))"
| "to_field env (FloatLiteral f) = Inr (ee_float env f)"
| "to_field env e = Inl (InvalidFieldAccess (''unsupported expression type for field '' @ ee_debug env e))"

fun to_table :: "eql_env \<Rightarrow> expr \<Rightarrow> eql_error + string" where
  "to_table env (ComponentPart part) = Inr (undot (cp_name part))"
| "to_table env (Time c) = Inr (undot (ec_name c))"
| "to_table env (FftFreq e) = to_table env e"
| "to_table env (Fft e) = to_table env e"
| "to_table env (BinaryOp l _ _) = to_table env l"
| "to_table env (ArrayAccess inner _) =
     (case inner of
        ComponentPart _ \<Rightarrow> to_table env inner
      | _ \<Rightarrow> Inl (InvalidFieldAccess ''array access on non-component''))"
| "to_table env e = Inl (InvalidFieldAccess (''unsupported expression type for table '' @ ee_debug env e))"

fun to_qualified_field :: "eql_env \<Rightarrow> expr \<Rightarrow> eql_error + string" where
  "to_qualified_field env (Fft e) = map_sum id (\<lambda>f. ''fft('' @ f @ '')'') (to_qualified_field env e)"
| "to_qualified_field env (FftFreq e) = map_sum id (\<lambda>f. ''fftfreq('' @ f @ '')'') (to_qualified_field env e)"
| "to_qualified_field env (BinaryOp l r op) =
     bind_result (to_qualified_field env l) (\<lambda>l.
       map_sum id (\<lambda>r. ''('' @ l @ '' '' @ op_to_str op @ '' '' @ r @ '')'') (to_qualified_field env r))"
| "to_qualified_field env (FloatLiteral f) = Inr (ee_float env f)"
| "to_qualified_field env e =
     bind_result (to_table env e) (\<lambda>table. map_sum id (\<lambda>field. table @ ''.'' @ field) (to_field env e))"

fun to_column_name :: "expr \<Rightarrow> string option" where
  "to_column_name (Fft e) = map_option (\<lambda>n. ''fft('' @ n @ '')'') (to_column_name e)"
| "to_column_name (FftFreq e) = map_option (\<lambda>n. ''fftfreq('' @ n @ '')'') (to_column_name e)"
| "to_column_name (ComponentPart part) = Some (cp_name part)"
| "to_column_name (ArrayAccess (ComponentPart part) index) =
     (case cp_component part of
        Some c \<Rightarrow> map_option (\<lambda>name. ec_name c @ ''.'' @ name) (get_index (ec_element_names c) index)
      | None \<Rightarrow> None)"
| "to_column_name (ArrayAccess e index) = map_option (\<lambda>n. n @ ''['' @ dec_nat index @ '']'') (to_column_name e)"
| "to_column_name _ = None"

definition to_select_part :: "eql_env \<Rightarrow> expr \<Rightarrow> eql_error + string" where
  "to_select_part env e =
     (case to_column_name e of
        Some column_name \<Rightarrow> map_sum id (\<lambda>f. f @ '' as '' @ [CHR 0x27] @ column_name @ [CHR 0x27]) (to_qualified_field env e)
      | None \<Rightarrow> to_qualified_field env e)"

fun to_sql_time_field :: "eql_env \<Rightarrow> expr \<Rightarrow> eql_error + string" where
  "to_sql_time_field env (Tuple []) = Inl (InvalidFieldAccess ''empty tuple'')"
| "to_sql_time_field env (Tuple (first # _)) = to_sql_time_field env first"
| "to_sql_time_field env e = map_sum id (\<lambda>table. table @ ''.time'') (to_table env e)"

text \<open>A duration in whole microseconds, cast to an \<open>i64\<close>.\<close>

definition duration_micros :: "int \<Rightarrow> int" where
  "duration_micros nanos = i64_wrap (if 0 \<le> nanos then nanos div 1000 else - (- nanos div 1000))"

definition tuple_sql :: "eql_env \<Rightarrow> expr list \<Rightarrow> eql_error + string" where
  "tuple_sql env elements =
     (if elements = [] then Inl (InvalidFieldAccess ''empty tuple'')
      else
        bind_result (try_map (to_table env) elements) (\<lambda>tables.
          let table_names = sort (remdups tables);
              first_table = hd table_names
          in bind_result (try_map (to_select_part env) elements) (\<lambda>select_parts.
            if length table_names = 1 then Inr (''select '' @ join '', '' select_parts @ '' from '' @ first_table)
            else
              (let from_clause = fold (\<lambda>table f. f @ '' JOIN '' @ table @ '' ON '' @ first_table @ ''.time = '' @ table @ ''.time'')
                 (tl table_names) first_table
               in Inr (''select '' @ join '', '' select_parts @ '' from '' @ from_clause)))))"

definition binary_sql :: "eql_env \<Rightarrow> expr \<Rightarrow> expr \<Rightarrow> binary_op \<Rightarrow> eql_error + string" where
  "binary_sql env l r op =
     bind_result (to_table env l) (\<lambda>left_table.
     bind_result (to_table env r) (\<lambda>right_table.
     bind_result (to_qualified_field env l) (\<lambda>left_part.
     bind_result (to_qualified_field env r) (\<lambda>right_part.
       let select = ''select '' @ left_part @ '' '' @ op_to_str op @ '' '' @ right_part @ '' from '' @ left_table
       in if left_table = right_table then Inr select
          else Inr (select @ '' join '' @ right_table @ '' on '' @ left_table @ ''.time = '' @ right_table @ ''.time'')))))"

fun to_sql :: "eql_env \<Rightarrow> eql_context \<Rightarrow> expr \<Rightarrow> eql_error + string" where
  "to_sql env cx (Tuple elements) = tuple_sql env elements"
| "to_sql env cx (BinaryOp l r op) = binary_sql env l r op"
| "to_sql env cx (Last e duration) =
     bind_result (to_sql env cx e) (\<lambda>sql.
       let lower_bound = i64_wrap (cx_last cx - duration_micros duration)
       in map_sum id (\<lambda>time_field. sql @ '' where '' @ time_field @ '' >= to_timestamp('' @ ee_seconds env lower_bound @ '')'')
            (to_sql_time_field env e))"
| "to_sql env cx (First e duration) =
     bind_result (to_sql env cx e) (\<lambda>sql.
       let upper_bound = i64_wrap (cx_earliest cx + duration_micros duration)
       in map_sum id (\<lambda>time_field. sql @ '' where '' @ time_field @ '' <= to_timestamp('' @ ee_seconds env upper_bound @ '')'')
            (to_sql_time_field env e))"
| "to_sql env cx (StringLiteral _) = Inl (InvalidFieldAccess ''cannot convert string literal to SQL'')"
| "to_sql env cx e =
     bind_result (to_select_part env e) (\<lambda>part. map_sum id (\<lambda>table. ''select '' @ part @ '' from '' @ table) (to_table env e))"

section \<open>Resolving names\<close>

text \<open>\<open>parse_duration\<close>; \<open>None\<close> is the panic of the unwrapped conversion.\<close>

definition parse_duration :: "eql_env \<Rightarrow> string \<Rightarrow> (eql_error + int) option" where
  "parse_duration env d =
     (case ee_span env d of
        Inl e \<Rightarrow> Some (Inl (InvalidMethodCall e))
      | Inr None \<Rightarrow> None
      | Inr (Some nanos) \<Rightarrow> Some (Inr nanos))"

definition bind_fallible :: "('e + 'a) option \<Rightarrow> ('a \<Rightarrow> ('e + 'b) option) \<Rightarrow> ('e + 'b) option" where
  "bind_fallible r f = (case r of None \<Rightarrow> None | Some (Inl e) \<Rightarrow> Some (Inl e) | Some (Inr a) \<Rightarrow> f a)"

fun position :: "'a \<Rightarrow> 'a list \<Rightarrow> nat option" where
  "position x [] = None"
| "position x (y # ys) = (if y = x then Some 0 else map_option Suc (position x ys))"

definition get_child :: "(string \<times> component_part) list \<Rightarrow> string \<Rightarrow> eql_error + expr" where
  "get_child m name = map_sum id ComponentPart (ok_or (EqlComponentNotFound name) (map_of m name))"

definition parse_field :: "expr \<Rightarrow> string \<Rightarrow> eql_error + expr" where
  "parse_field e name =
     (case e of
        ComponentPart part \<Rightarrow>
          (case cp_component part of
             None \<Rightarrow> get_child (cp_children part) name
           | Some c \<Rightarrow>
               if name = ''time'' then Inr (Time c)
               else (case position name (ec_element_names c) of
                       Some offset \<Rightarrow> Inr (ArrayAccess e offset)
                     | None \<Rightarrow> get_child (cp_children part) name))
      | _ \<Rightarrow> Inl (InvalidFieldAccess name))"

definition parse_method :: "eql_env \<Rightarrow> expr \<Rightarrow> string \<Rightarrow> expr list \<Rightarrow> (eql_error + expr) option" where
  "parse_method env recv name args =
     (if name = ''fft'' \<and> (case recv of ArrayAccess _ _ \<Rightarrow> True | _ \<Rightarrow> False) \<and> args = [] then Some (Inr (Fft recv))
      else if name = ''fftfreq'' \<and> (case recv of Time _ \<Rightarrow> True | _ \<Rightarrow> False) \<and> args = [] then Some (Inr (FftFreq recv))
      else
        (case args of
           [StringLiteral d] \<Rightarrow>
             if name = ''last'' then map_option (map_sum id (Last recv)) (parse_duration env d)
             else if name = ''first'' then map_option (map_sum id (First recv)) (parse_duration env d)
             else Some (Inl (InvalidMethodCall name))
         | _ \<Rightarrow> Some (Inl (InvalidMethodCall name))))"

fun parse :: "eql_env \<Rightarrow> eql_context \<Rightarrow> ast_node \<Rightarrow> (eql_error + expr) option"
  and parse_all :: "eql_env \<Rightarrow> eql_context \<Rightarrow> ast_node list \<Rightarrow> (eql_error + expr list) option" where
  "parse env cx (AstIdent name) = Some (get_child (cx_parts cx) name)"
| "parse env cx (AstField ast name) = bind_fallible (parse env cx ast) (\<lambda>e. Some (parse_field e name))"
| "parse env cx (AstMethodCall recv name asts) =
     bind_fallible (parse env cx recv) (\<lambda>recv. bind_fallible (parse_all env cx asts) (parse_method env recv name))"
| "parse env cx (AstTuple asts) = map_option (map_sum id Tuple) (parse_all env cx asts)"
| "parse env cx (AstStringLiteral s) = Some (Inr (StringLiteral s))"
| "parse env cx (AstBinaryOp l r op) =
     bind_fallible (parse env cx l) (\<lambda>l. bind_fallible (parse env cx r) (\<lambda>r. Some (Inr (BinaryOp l r op))))"
| "parse env cx (AstFloatLiteral f) = Some (Inr (FloatLiteral f))"
| "parse env cx (AstBoolLiteral b) = Some (Inr (BoolLiteral b))"
| "parse env cx (AstArrayIndex ast index) =
     bind_fallible (parse env cx ast) (\<lambda>e. case e of
       ComponentPart _ \<Rightarrow> Some (Inr (ArrayAccess e index))
     | _ \<Rightarrow> Some (Inl (InvalidFieldAccess ''array access is only valid on a component'')))"
| "parse_all env cx [] = Some (Inr [])"
| "parse_all env cx (ast # asts) =
     bind_fallible (parse env cx ast) (\<lambda>e. map_option (map_sum id ((#) e)) (parse_all env cx asts))"

text \<open>\<open>Context::sql\<close> from the syntax tree on.\<close>

definition sql :: "eql_env \<Rightarrow> eql_context \<Rightarrow> ast_node \<Rightarrow> (eql_error + string) option" where
  "sql env cx ast = bind_fallible (parse env cx ast) (\<lambda>e. Some (to_sql env cx e))"

text \<open>\<open>parse_fmt_string\<close>, from the parsed pieces of the string on.\<close>

datatype fmt_node = FmtText string | FmtAst ast_node

datatype fmt_expr = FmtString string | FmtExpr expr

fun parse_fmt :: "eql_env \<Rightarrow> eql_context \<Rightarrow> fmt_node list \<Rightarrow> (eql_error + fmt_expr list) option" where
  "parse_fmt env cx [] = Some (Inr [])"
| "parse_fmt env cx (FmtText s # ns) = map_option (map_sum id ((#) (FmtString s))) (parse_fmt env cx ns)"
| "parse_fmt env cx (FmtAst ast # ns) =
     bind_fallible (parse env cx ast) (\<lambda>e. map_option (map_sum id ((#) (FmtExpr e))) (parse_fmt env cx ns))"

fun get_suggestions :: "expr \<Rightarrow> string list" where
  "get_suggestions (ComponentPart part) =
     sort (map fst (cp_children part) @
       (case cp_component part of None \<Rightarrow> [] | Some c \<Rightarrow> ec_element_names c @ [''last('', ''first('']) @ [''time''])"
| "get_suggestions (Time _) = [''fftfreq()'']"
| "get_suggestions (ArrayAccess _ _) = [''fft()'', ''last('', ''first('']"
| "get_suggestions (Tuple _) = [''last'', ''first'']"
| "get_suggestions (StringLiteral _) = []"
| "get_suggestions (Fft _) = [''last'', ''first'']"
| "get_suggestions (FftFreq _) = [''last'', ''first'']"
| "get_suggestions _ = []"

end
