(* ===== verification/EqlCorrect.thy ===== *)
theory EqlCorrect
  imports Eql ValueCorrect "HOL-Library.Sublist"
begin

text \<open>
  What the query language promises: which component a name resolves to, which element a
  field of a component is, and which tables a query names.
\<close>

section \<open>The tree of components\<close>

fun lookup_path :: "(string \<times> component_part) list \<Rightarrow> string list \<Rightarrow> component_part option" where
  "lookup_path m [] = None"
| "lookup_path m [n] = map_of m n"
| "lookup_path m (n # ns) = Option.bind (map_of m n) (\<lambda>p. lookup_path (cp_children p) ns)"

lemma lookup_Cons: "ns \<noteq> [] \<Longrightarrow> lookup_path m (n # ns) = Option.bind (map_of m n) (\<lambda>p. lookup_path (cp_children p) ns)"
  by (cases ns) simp_all

lemma lookup_snoc:
  "ns \<noteq> [] \<Longrightarrow> lookup_path m (ns @ [n]) = Option.bind (lookup_path m ns) (\<lambda>p. map_of (cp_children p) n)"
proof (induction ns arbitrary: m)
  case (Cons k ns)
  then show ?case by (cases "ns = []") (auto simp: lookup_Cons Option.bind_assoc)
qed simp

lemma lookup_empty [simp]: "lookup_path [] ns = None"
  by (induction ns rule: induct_list012) simp_all

definition comp_at :: "(string \<times> component_part) list \<Rightarrow> string list \<Rightarrow> eql_component option" where
  "comp_at m ns = Option.bind (lookup_path m ns) cp_component"

text \<open>
  Inserting a leaf puts its component at its path, drops everything below it and leaves the
  component of every other node alone.
\<close>

lemma lookup_insert_leaf:
  "q \<noteq> [] \<Longrightarrow> comp_at (insert_leaf c ps leaf m) q =
     (if q = map snd ps @ [leaf] then Some c
      else if strict_prefix (map snd ps @ [leaf]) q then None else comp_at m q)"
proof (induction c ps leaf m arbitrary: q rule: insert_leaf.induct)
  case (1 c leaf m)
  then obtain n ns where q: "q = n # ns" by (cases q) auto
  then show ?case by (cases "ns = []") (auto simp: comp_at_def lookup_Cons strict_prefix_def)
next
  case (2 c id' name node path leaf m)
  obtain n ns where q: "q = n # ns" using 2(2) by (cases q) auto
  define part where "part = (case map_of m node of Some part \<Rightarrow> part | None \<Rightarrow> Part name id' None [])"
  show ?case
  proof (cases "n = node \<and> ns \<noteq> []")
    case True
    have "comp_at (insert_leaf c path leaf (cp_children part)) ns =
        (if ns = map snd path @ [leaf] then Some c
         else if strict_prefix (map snd path @ [leaf]) ns then None else comp_at (cp_children part) ns)"
      using 2(1) [OF part_def, of ns] True by simp
    moreover have "comp_at (cp_children part) ns = comp_at m (n # ns)"
      using True by (simp add: comp_at_def lookup_Cons part_def split: option.split)
    ultimately show ?thesis using True q
      by (simp add: comp_at_def lookup_Cons Let_def flip: part_def)
  next
    case False
    then show ?thesis using q by (cases "ns = []") (auto simp: comp_at_def lookup_Cons Let_def split: option.split)
  qed
qed

lemma lookup_below_leaf:
  "strict_prefix (map snd ps @ [leaf]) q \<Longrightarrow> lookup_path (insert_leaf c ps leaf m) q = None"
proof (induction c ps leaf m arbitrary: q rule: insert_leaf.induct)
  case (1 c leaf m)
  then obtain ns where "q = leaf # ns" "ns \<noteq> []" by (auto simp: strict_prefix_def prefix_def)
  then show ?case by (simp add: lookup_Cons)
next
  case (2 c id' name node path leaf m)
  then obtain ns where q: "q = node # ns" "strict_prefix (map snd path @ [leaf]) ns" by (cases q) auto
  then have "ns \<noteq> []" by auto
  then show ?case using 2(1) [OF refl q(2)] q(1) by (simp add: lookup_Cons Let_def)
qed

definition nodes :: "eql_component \<Rightarrow> string list" where
  "nodes c = split_dot (ec_name c)"

lemma split_dot_not_Nil [simp]: "split_dot s \<noteq> []"
  by (induction s) (auto split: list.split)

lemma length_dot_prefixes: "length (dot_prefixes before s) = length (split_dot s)"
  by (induction before s rule: dot_prefixes.induct) (auto split: list.split)

lemma leaf_path:
  "map snd (take (length (path_from_name hash (ec_name c)) - 1) (zip (path_from_name hash (ec_name c)) (split_dot (ec_name c)))) @
     [last (split_dot (ec_name c))] = nodes c"
proof -
  have "length (path_from_name hash (ec_name c)) = length (nodes c)"
    by (simp add: path_from_name_def length_dot_prefixes nodes_def)
  moreover have "map snd (take (length (nodes c) - 1) (zip (path_from_name hash (ec_name c)) (nodes c))) = butlast (nodes c)"
    using calculation by (simp add: take_zip take_map [symmetric] butlast_conv_take map_snd_zip_take)
  ultimately show ?thesis by (simp add: nodes_def)
qed

lemma from_leaves_snoc:
  "\<exists>ps leaf. map snd ps @ [leaf] = nodes c \<and>
     cx_parts (from_leaves hash (cs @ [c]) a b) = insert_leaf c ps leaf (cx_parts (from_leaves hash cs a b))"
  by (intro exI conjI, rule leaf_path [of hash]) (simp add: from_leaves_def Let_def)

lemma comp_at_snoc:
  assumes "q \<noteq> []"
  shows "comp_at (cx_parts (from_leaves hash (cs @ [c]) a b)) q =
    (if q = nodes c then Some c else if strict_prefix (nodes c) q then None else comp_at (cx_parts (from_leaves hash cs a b)) q)"
proof -
  obtain ps leaf where "map snd ps @ [leaf] = nodes c"
    "cx_parts (from_leaves hash (cs @ [c]) a b) = insert_leaf c ps leaf (cx_parts (from_leaves hash cs a b))"
    using from_leaves_snoc by blast
  then show ?thesis using lookup_insert_leaf [OF assms, of c ps leaf] by simp
qed

text \<open>
  Which component a node of the tree holds: the component inserted last among those whose
  path begins the node's path decides; it is there, or it has cut the node off.
\<close>

lemma comp_at_from_leaves:
  "q \<noteq> [] \<Longrightarrow> comp_at (cx_parts (from_leaves hash cs a b)) q =
     (case List.find (\<lambda>c. prefix (nodes c) q) (rev cs) of
        Some c \<Rightarrow> if nodes c = q then Some c else None
      | None \<Rightarrow> None)"
proof (induction cs rule: rev_induct)
  case Nil
  then show ?case by (simp add: from_leaves_def comp_at_def)
next
  case (snoc c cs)
  then show ?case by (cases "q = nodes c") (auto simp: comp_at_snoc strict_prefix_def split: option.splits)
qed

section \<open>Resolving names\<close>

text \<open>The syntax tree of a dotted name.\<close>

definition path_ast :: "string list \<Rightarrow> ast_node" where
  "path_ast q = fold (\<lambda>n e. AstField e n) (tl q) (AstIdent (hd q))"

lemma path_ast_simps: "path_ast [n] = AstIdent n" "q \<noteq> [] \<Longrightarrow> path_ast (q @ [n]) = AstField (path_ast q) n"
  by (simp_all add: path_ast_def)

lemma get_child_Inr: "get_child m n = Inr e \<longleftrightarrow> (\<exists>p. map_of m n = Some p \<and> e = ComponentPart p)"
  by (cases "map_of m n") (auto simp: get_child_def)

lemma parse_path:
  assumes "lookup_path (cx_parts cx) q = Some p" "\<forall>q'. q' \<noteq> [] \<and> strict_prefix q' q \<longrightarrow> comp_at (cx_parts cx) q' = None"
  shows "parse env cx (path_ast q) = Some (Inr (ComponentPart p))"
  using assms
proof (induction q arbitrary: p rule: rev_induct)
  case (snoc n q)
  show ?case
  proof (cases "q = []")
    case True
    then show ?thesis using snoc.prems by (simp add: path_ast_simps get_child_def)
  next
    case False
    then obtain p' where p': "lookup_path (cx_parts cx) q = Some p'" "map_of (cp_children p') n = Some p"
      using snoc.prems(1) by (auto simp: lookup_snoc bind_eq_Some_conv)
    have "strict_prefix q (q @ [n])" by (simp add: strict_prefix_def)
    then have "comp_at (cx_parts cx) q = None" using snoc.prems(2) False by blast
    then have "cp_component p' = None" using p'(1) by (simp add: comp_at_def)
    moreover have "parse env cx (path_ast q) = Some (Inr (ComponentPart p'))"
      using snoc.prems(2) by (intro snoc.IH [OF p'(1)]) (auto simp: strict_prefix_def prefix_def)
    ultimately show ?thesis using p'(2) False
      by (simp add: path_ast_simps bind_fallible_def parse_field_def get_child_def)
  qed
qed simp

lemma parse_path_lookup:
  "q \<noteq> [] \<Longrightarrow> parse env cx (path_ast q) = Some (Inr (ComponentPart p)) \<Longrightarrow> lookup_path (cx_parts cx) q = Some p"
proof (induction q arbitrary: p rule: rev_induct)
  case (snoc n q)
  show ?case
  proof (cases "q = []")
    case True
    then show ?thesis using snoc.prems by (simp add: path_ast_simps get_child_Inr)
  next
    case False
    then obtain p' where p': "parse env cx (path_ast q) = Some (Inr (ComponentPart p'))" "parse_field (ComponentPart p') n = Inr (ComponentPart p)"
      using snoc.prems(2)
      by (auto simp: path_ast_simps bind_fallible_def parse_field_def split: option.splits sum.splits expr.splits if_splits)
    have "map_of (cp_children p') n = Some p"
      using p'(2) by (auto simp: parse_field_def get_child_Inr split: option.splits if_splits)
    then show ?thesis using snoc.IH [OF False p'(1)] False by (simp add: lookup_snoc)
  qed
qed simp

text \<open>C33. When no component's name is the beginning of another's, the dotted name of every component
  resolves to it, whatever the order the components are given in.\<close>

theorem names_resolve:
  assumes "c \<in> set cs" "\<forall>c1 \<in> set cs. \<forall>c2 \<in> set cs. prefix (nodes c1) (nodes c2) \<longrightarrow> c1 = c2"
  shows "\<exists>part. parse env (from_leaves hash cs a b) (path_ast (nodes c)) = Some (Inr (ComponentPart part)) \<and>
    cp_component part = Some c"
proof -
  let ?m = "cx_parts (from_leaves hash cs a b)"
  have f: "List.find (\<lambda>c'. prefix (nodes c') q) (rev cs) = None" if "strict_prefix q (nodes c)" for q
  proof -
    have "\<not> prefix (nodes c') q" if "c' \<in> set cs" for c'
      using assms that \<open>strict_prefix q (nodes c)\<close> by (metis prefix_order.less_le_not_le prefix_order.order_trans)
    then show ?thesis by (simp add: find_None_iff)
  qed
  have "List.find (\<lambda>c'. prefix (nodes c') (nodes c)) (rev cs) = Some c"
  proof (cases "List.find (\<lambda>c'. prefix (nodes c') (nodes c)) (rev cs)")
    case None
    then show ?thesis using assms(1) by (auto simp: find_None_iff)
  next
    case (Some c')
    then have "c' \<in> set cs" "prefix (nodes c') (nodes c)" 
      by (auto simp: find_Some_iff) (metis length_rev nth_mem set_rev)
    then show ?thesis using Some assms by blast
  qed
  moreover have ne: "nodes c \<noteq> []" by (simp add: nodes_def)
  ultimately have "comp_at ?m (nodes c) = Some c" by (simp add: comp_at_from_leaves)
  then obtain part where part: "lookup_path ?m (nodes c) = Some part" "cp_component part = Some c"
    by (auto simp: comp_at_def bind_eq_Some_conv)
  have "comp_at ?m q = None" if "q \<noteq> []" "strict_prefix q (nodes c)" for q
    using comp_at_from_leaves [OF that(1)] f [OF that(2)] by simp
  then show ?thesis using parse_path [OF part(1)] part(2) by blast
qed

text \<open>A component inserted after one whose name continues its own cuts that one off: its dotted name
  no longer resolves to any node of the tree.\<close>

theorem late_parent_hides:
  assumes "strict_prefix (nodes parent) (nodes c)"
  shows "parse env (from_leaves hash (cs @ [parent]) a b) (path_ast (nodes c)) \<noteq> Some (Inr (ComponentPart part))"
proof
  assume p: "parse env (from_leaves hash (cs @ [parent]) a b) (path_ast (nodes c)) = Some (Inr (ComponentPart part))"
  have ne: "nodes c \<noteq> []" by (simp add: nodes_def)
  have "lookup_path (cx_parts (from_leaves hash (cs @ [parent]) a b)) (nodes c) = None"
    using from_leaves_snoc [of parent hash cs a b] assms lookup_below_leaf by fastforce
  then show False using parse_path_lookup [OF ne p] by simp
qed

definition demo_eql :: "string \<Rightarrow> eql_component" where
  "demo_eql name = eql_component_new name 0 \<lparr>sc_prim_type = F64, sc_shape = [3]\<rparr>"

definition demo_eql_env :: eql_env where
  "demo_eql_env = \<lparr>ee_float = (\<lambda>_. ''1''), ee_seconds = (\<lambda>_. ''0''), ee_debug = (\<lambda>_. []), ee_span = (\<lambda>_. Inr (Some 0))\<rparr>"

lemma nodes_demo: "nodes (demo_eql ''a'') = [''a'']" "nodes (demo_eql ''a.b'') = [''a'', ''b'']" "nodes (demo_eql ''a.c'') = [''a'', ''c'']"
  by (simp_all add: nodes_def demo_eql_def eql_component_new_def)

lemma names_resolve_witness:
  "\<exists>part. parse demo_eql_env (from_leaves (\<lambda>_. 0) [demo_eql ''a.b'', demo_eql ''a.c''] 0 0) (AstField (AstIdent ''a'') ''b'') =
     Some (Inr (ComponentPart part)) \<and> cp_component part = Some (demo_eql ''a.b'')"
proof -
  have "path_ast (nodes (demo_eql ''a.b'')) = AstField (AstIdent ''a'') ''b''" by (simp add: nodes_demo path_ast_def)
  moreover have "\<exists>part. parse demo_eql_env (from_leaves (\<lambda>_. 0) [demo_eql ''a.b'', demo_eql ''a.c''] 0 0) (path_ast (nodes (demo_eql ''a.b''))) =
     Some (Inr (ComponentPart part)) \<and> cp_component part = Some (demo_eql ''a.b'')"
  proof (rule names_resolve)
    show "\<forall>c1 \<in> set [demo_eql ''a.b'', demo_eql ''a.c'']. \<forall>c2 \<in> set [demo_eql ''a.b'', demo_eql ''a.c''].
        prefix (nodes c1) (nodes c2) \<longrightarrow> c1 = c2"
      by (simp only: list.set ball_simps nodes_demo) simp
  qed simp
  ultimately show ?thesis by (simp only:)
qed


section \<open>Elements\<close>

definition elem_path :: "nat list \<Rightarrow> string" where
  "elem_path index = concat (map elem_name index)"

lemma length_concat_uniform: "(\<And>x. x < n \<Longrightarrow> length (f x) = k) \<Longrightarrow> length (concat (map f [0..<n])) = n * k"
  by (induction n) auto

lemma nth_concat_uniform:
  "(\<And>x. x < n \<Longrightarrow> length (f x) = k) \<Longrightarrow> i < n \<Longrightarrow> j < k \<Longrightarrow> concat (map f [0..<n]) ! (i * k + j) = f i ! j"
proof (induction n)
  case (Suc n)
  note l = length_concat_uniform [of n f k, OF Suc.prems(1) [OF less_SucI]]
  show ?case
  proof (cases "i = n")
    case True
    then show ?thesis using l Suc.prems by (simp add: nth_append)
  next
    case False
    then have "i < n" using Suc.prems(2) by simp
    then have "i * k + j < n * k" using Suc.prems(3)
      by (metis add.commute less_le_trans mult_Suc mult_le_mono1 nat_add_left_cancel_less Suc_leI)
    then show ?thesis using l Suc \<open>i < n\<close> by (simp add: nth_append)
  qed
qed simp

lemma length_append_elements: "length (append_elements shape p) = prod_list shape"
  by (induction shape arbitrary: p) (simp_all add: length_concat_uniform)

lemma append_elements_nth:
  "list_all2 (<) index shape \<Longrightarrow> append_elements shape p ! row_major shape index = p @ elem_path index"
proof (induction index shape arbitrary: p rule: list_all2_induct)
  case (Cons i "is" d ds)
  then show ?case
    by (simp add: nth_concat_uniform length_append_elements row_major_less elem_path_def)
qed (simp add: elem_path_def)

lemma append_elements_prefix: "x \<in> set (append_elements shape p) \<Longrightarrow> prefix p x"
  by (induction shape arbitrary: p) (auto intro: append_prefixD)

lemma elem_name_letter: "x < 8 \<Longrightarrow> elem_name x = [''xyzwuvst'' ! x]"
  by (simp add: elem_name_def)

lemma letters_distinct: "x < 8 \<Longrightarrow> y < 8 \<Longrightarrow> ''xyzwuvst'' ! x = ''xyzwuvst'' ! y \<Longrightarrow> x = y"
  using nth_eq_iff_index_eq [of "''xyzwuvst''" x y] by simp

lemma prod_list_pos: "\<forall>d \<in> set ds. 0 < d \<Longrightarrow> 0 < prod_list (ds :: nat list)"
  by (induction ds) simp_all

lemma distinct_append_elements:
  "\<forall>d \<in> set shape. 0 < d \<and> d \<le> 8 \<Longrightarrow> distinct (append_elements shape p)"
proof (induction shape arbitrary: p)
  case (Cons n shape)
  let ?f = "\<lambda>x. append_elements shape (p @ elem_name x)"
  have dj: "set (?f x) \<inter> set (?f y) = {}" if "x < n" "y < n" "x \<noteq> y" for x y
  proof (rule ccontr)
    assume "set (?f x) \<inter> set (?f y) \<noteq> {}"
    then obtain z where "prefix (p @ elem_name x) z" "prefix (p @ elem_name y) z" using append_elements_prefix by blast
    then have "''xyzwuvst'' ! x = ''xyzwuvst'' ! y"
      using that(1,2) Cons.prems by (auto simp: elem_name_letter prefix_def)
    then show False using letters_distinct that Cons.prems by force
  qed
  have "0 < prod_list shape" using Cons.prems by (intro prod_list_pos) simp
  then have ne: "?f x \<noteq> []" for x using length_append_elements [of shape "p @ elem_name x"] by (metis length_greater_0_conv)
  have "inj_on ?f (set [0..<n])"
    using dj ne by (intro inj_onI) (metis atLeastLessThan_iff inf.idem set_empty set_upt)
  then have "distinct (map ?f [0..<n])" by (simp add: distinct_map)
  then have "distinct (concat (map ?f [0..<n]))"
  proof (rule distinct_concat)
    fix ys zs assume "ys \<in> set (map ?f [0..<n])" "zs \<in> set (map ?f [0..<n])" "ys \<noteq> zs"
    then obtain x y where xy: "x < n" "y < n" "ys = ?f x" "zs = ?f y" by auto
    with \<open>ys \<noteq> zs\<close> have "x \<noteq> y" by auto
    with xy show "set ys \<inter> set zs = {}" using dj [of x y] by simp
  qed (use Cons in auto)
  then show ?case by simp
qed simp

lemma list_all2_pos: "list_all2 (<) index shape \<Longrightarrow> \<forall>d \<in> set shape. 0 < (d :: nat)"
  by (induction index shape rule: list_all2_induct) auto

lemma list_all2_bound: "list_all2 (<) index shape \<Longrightarrow> \<forall>d \<in> set shape. d \<le> 8 \<Longrightarrow> \<forall>i \<in> set index. i < (8 :: nat)"
  by (induction index shape rule: list_all2_induct) auto

lemma position_distinct: "distinct xs \<Longrightarrow> i < length xs \<Longrightarrow> position (xs ! i) xs = Some i"
proof (induction xs arbitrary: i)
  case (Cons x xs)
  then show ?case by (cases i) auto
qed simp

lemma elem_path_not_time:
  assumes "\<forall>i \<in> set index. i < 8"
  shows "elem_path index \<noteq> ''time''"
proof
  assume "elem_path index = ''time''"
  then have "CHR ''i'' \<in> set (elem_path index)" by simp
  then obtain i where "i \<in> set index" "CHR ''i'' \<in> set (elem_name i)" by (auto simp: elem_path_def)
  then have "CHR ''i'' \<in> set ''xyzwuvst''" using assms nth_mem [of i "''xyzwuvst''"] by (auto simp: elem_name_letter)
  then show False by simp
qed

text \<open>C34. Of a component with dimensions of at most eight, the letters of an index name exactly the
  element at that index in row-major order: the field resolves to its position, the query
  reads it counting from one, and the column is labelled with the name.\<close>

theorem element_field_row_major:
  assumes "parse env cx ast = Some (Inr (ComponentPart part))" "cp_component part = Some (eql_component_new name id' sc)"
    and "list_all2 (<) index (sc_shape sc)" "\<forall>d \<in> set (sc_shape sc). d \<le> 8"
  shows "parse env cx (AstField ast (elem_path index)) =
      Some (Inr (ArrayAccess (ComponentPart part) (row_major (sc_shape sc) index))) \<and>
    to_sql env cx (ArrayAccess (ComponentPart part) (row_major (sc_shape sc) index)) =
      Inr (''select '' @ undot (cp_name part) @ ''.'' @ undot (cp_name part) @ ''['' @ dec_nat (row_major (sc_shape sc) index + 1) @ '']'' @
        '' as '' @ [CHR 0x27] @ name @ ''.'' @ elem_path index @ [CHR 0x27] @ '' from '' @ undot (cp_name part))"
proof -
  let ?names = "append_elements (sc_shape sc) []" and ?k = "row_major (sc_shape sc) index"
  have pos: "\<forall>d \<in> set (sc_shape sc). 0 < d \<and> d \<le> 8"
    using assms(4) list_all2_pos [OF assms(3)] by blast
  have k: "?k < length ?names" using row_major_less [OF assms(3)] by (simp add: length_append_elements)
  have n: "?names ! ?k = elem_path index" using append_elements_nth [OF assms(3), of "[]"] by simp
  have p: "position (elem_path index) ?names = Some ?k"
    using position_distinct [OF distinct_append_elements [OF pos] k] n by simp
  have "\<forall>i \<in> set index. i < 8"
    using list_all2_bound [OF assms(3)] assms(4) by blast
  then have nt: "elem_path index \<noteq> ''time''" by (rule elem_path_not_time)
  have "parse env cx (AstField ast (elem_path index)) = Some (Inr (ArrayAccess (ComponentPart part) ?k))"
    using assms(1,2) p nt by (simp add: bind_fallible_def parse_field_def eql_component_new_def default_element_names_def)
  moreover have col: "to_column_name (ArrayAccess (ComponentPart part) ?k) = Some (name @ ''.'' @ elem_path index)"
    using assms(2) k n by (simp add: eql_component_new_def default_element_names_def get_index_def)
  have "to_select_part env (ArrayAccess (ComponentPart part) ?k) =
      Inr (undot (cp_name part) @ ''.'' @ undot (cp_name part) @ ''['' @ dec_nat (?k + 1) @ '']'' @
        '' as '' @ [CHR 0x27] @ name @ ''.'' @ elem_path index @ [CHR 0x27])"
    unfolding to_select_part_def col using assms(2) by simp
  then have "to_sql env cx (ArrayAccess (ComponentPart part) ?k) =
      Inr (''select '' @ undot (cp_name part) @ ''.'' @ undot (cp_name part) @ ''['' @ dec_nat (?k + 1) @ '']'' @
        '' as '' @ [CHR 0x27] @ name @ ''.'' @ elem_path index @ [CHR 0x27] @ '' from '' @ undot (cp_name part))"
    by (simp only: to_sql.simps to_table.simps bind_result.simps map_sum.simps expr.case append_assoc)
  ultimately show ?thesis by (simp only:)
qed

lemma element_field_row_major_witness:
  "parse demo_eql_env \<lparr>cx_parts = [(''a'', Part ''a'' 0 (Some (eql_component_new ''a'' 0 \<lparr>sc_prim_type = F64, sc_shape = [2, 3]\<rparr>)) [])],
      cx_earliest = 0, cx_last = 0\<rparr> (AstField (AstIdent ''a'') ''yz'') =
    Some (Inr (ArrayAccess (ComponentPart (Part ''a'' 0 (Some (eql_component_new ''a'' 0 \<lparr>sc_prim_type = F64, sc_shape = [2, 3]\<rparr>)) [])) 5))"
proof -
  let ?c = "eql_component_new ''a'' 0 \<lparr>sc_prim_type = F64, sc_shape = [2, 3]\<rparr>"
  let ?cx = "\<lparr>cx_parts = [(''a'', Part ''a'' 0 (Some ?c) [])], cx_earliest = 0, cx_last = 0\<rparr>"
  have "parse demo_eql_env ?cx (AstIdent ''a'') = Some (Inr (ComponentPart (Part ''a'' 0 (Some ?c) [])))"
    by (simp add: get_child_def)
  moreover have "elem_path [1, 2] = ''yz''" by (simp add: elem_path_def elem_name_def)
  ultimately show ?thesis
    using element_field_row_major [of demo_eql_env ?cx "AstIdent ''a''" "Part ''a'' 0 (Some ?c) []" "''a''" 0
        "\<lparr>sc_prim_type = F64, sc_shape = [2, 3]\<rparr>" "[1, 2]"] by simp
qed

section \<open>Queries\<close>

text \<open>The tables of the components in an expression.\<close>

fun expr_tables :: "expr \<Rightarrow> string set" where
  "expr_tables (ComponentPart part) = {undot (cp_name part)}"
| "expr_tables (Time c) = {undot (ec_name c)}"
| "expr_tables (ArrayAccess e _) = expr_tables e"
| "expr_tables (Tuple es) = (\<Union>e \<in> set es. expr_tables e)"
| "expr_tables (Fft e) = expr_tables e"
| "expr_tables (FftFreq e) = expr_tables e"
| "expr_tables (Last e _) = expr_tables e"
| "expr_tables (First e _) = expr_tables e"
| "expr_tables (BinaryOp l r _) = expr_tables l \<union> expr_tables r"
| "expr_tables _ = {}"

lemma to_table_in: "to_table env e = Inr t \<Longrightarrow> t \<in> expr_tables e"
  by (induction env e rule: to_table.induct) (auto split: expr.splits)

definition one_table :: "expr \<Rightarrow> bool" where
  "one_table e \<longleftrightarrow> (\<exists>t. expr_tables e \<subseteq> {t})"

text \<open>A \<open>from\<close> clause that joins all tables to the first one, on their times.\<close>

definition join_tables :: "string list \<Rightarrow> string" where
  "join_tables ts = hd ts @ concat (map (\<lambda>t. '' JOIN '' @ t @ '' ON '' @ hd ts @ ''.time = '' @ t @ ''.time'') (tl ts))"

lemma fold_append: "fold (\<lambda>t f. f @ g t) ts acc = acc @ concat (map g ts)"
  by (induction ts arbitrary: acc) simp_all

lemma try_map_Inr: "try_map f xs = Inr ys \<longleftrightarrow> list_all2 (\<lambda>x y. f x = Inr y) xs ys"
proof (induction xs arbitrary: ys)
  case (Cons x xs)
  show ?case
  proof
    assume "try_map f (x # xs) = Inr ys"
    then obtain y zs where "f x = Inr y" "try_map f xs = Inr zs" "ys = y # zs"
      by (cases "f x"; cases "try_map f xs") auto
    then show "list_all2 (\<lambda>x y. f x = Inr y) (x # xs) ys" using Cons.IH by simp
  next
    assume "list_all2 (\<lambda>x y. f x = Inr y) (x # xs) ys"
    then obtain z zs where "ys = z # zs" "f x = Inr z" "try_map f xs = Inr zs"
      unfolding list_all2_Cons1 using Cons.IH by blast
    then show "try_map f (x # xs) = Inr ys" by simp
  qed
qed auto

lemma tables_of_elements:
  "list_all2 (\<lambda>e t. to_table env e = Inr t) es ts \<Longrightarrow> \<forall>e \<in> set es. one_table e \<Longrightarrow> set ts = (\<Union>e \<in> set es. expr_tables e)"
proof (induction es ts rule: list_all2_induct)
  case (Cons e es t ts)
  have "expr_tables e = {t}" using to_table_in [OF Cons.hyps(1)] Cons.prems by (auto simp: one_table_def)
  then show ?case using Cons by simp
qed simp

text \<open>The query of a tuple whose elements each read one component selects the elements in order, from
  every table they read and no other, each named once and joined to the first one on time.\<close>

theorem tuple_query_closed:
  assumes "to_sql env cx (Tuple es) = Inr s" "\<forall>e \<in> set es. one_table e"
  shows "\<exists>parts ts. s = ''select '' @ join '', '' parts @ '' from '' @ join_tables ts \<and>
    list_all2 (\<lambda>e p. to_select_part env e = Inr p) es parts \<and>
    distinct ts \<and> set ts = (\<Union>e \<in> set es. expr_tables e)"
proof -
  have ne: "(es = []) = False" using assms(1) by (auto simp: tuple_sql_def)
  from assms(1) obtain tables where t: "try_map (to_table env) es = Inr tables"
    by (auto simp: tuple_sql_def bind_result_Inr_iff split: if_splits)
  obtain parts where p: "try_map (to_select_part env) es = Inr parts"
    using assms(1) t by (auto simp: tuple_sql_def bind_result_Inr_iff Let_def split: if_splits)
  let ?ts = "sort (remdups tables)"
  have "s = ''select '' @ join '', '' parts @ '' from '' @ join_tables ?ts"
  proof (cases "length ?ts = 1")
    case True
    then have tl: "tl ?ts = []" by (cases ?ts) auto
    have "Inr s = (Inr (''select '' @ join '', '' parts @ '' from '' @ hd ?ts) :: eql_error + string)"
      using assms(1) True t p by (simp only: to_sql.simps tuple_sql_def bind_result.simps Let_def ne if_True if_False simp_thms)
    then show ?thesis by (simp only: join_tables_def tl list.map concat.simps append_Nil2 sum.inject)
  next
    case False
    then have "Inr s = (Inr (''select '' @ join '', '' parts @ '' from '' @
        fold (\<lambda>table f. f @ '' JOIN '' @ table @ '' ON '' @ hd ?ts @ ''.time = '' @ table @ ''.time'') (tl ?ts) (hd ?ts)) :: eql_error + string)"
      using assms(1) t p by (simp only: to_sql.simps tuple_sql_def bind_result.simps Let_def ne if_False)
    then show ?thesis by (simp only: join_tables_def fold_append sum.inject)
  qed
  moreover have "set ?ts = (\<Union>e \<in> set es. expr_tables e)"
    using tables_of_elements [OF t [unfolded try_map_Inr] assms(2)] by simp
  ultimately show ?thesis using p by (intro exI [of _ parts] exI [of _ ?ts]) (simp add: try_map_Inr)
qed


section \<open>Queries that go wrong\<close>

text \<open>
  A sum of three columns of three tables selects a column of the second table, but names only
  the tables of the outermost operands.
\<close>

lemma nested_operand_table_missing:
  assumes "undot (ec_name a) \<noteq> undot (ec_name c)"
  shows "to_sql env cx (BinaryOp (BinaryOp (Time a) (Time b) op1) (Time c) op2) =
    Inr (''select ('' @ undot (ec_name a) @ ''.time '' @ op_to_str op1 @ '' '' @ undot (ec_name b) @ ''.time) '' @ op_to_str op2 @ '' '' @
      undot (ec_name c) @ ''.time from '' @ undot (ec_name a) @ '' join '' @ undot (ec_name c) @ '' on '' @ undot (ec_name a) @
      ''.time = '' @ undot (ec_name c) @ ''.time'')"
  using assms by (simp add: binary_sql_def Let_def)

text \<open>A column cannot be combined with a number: the number is asked for its table.\<close>

lemma literal_operand_fails: "\<exists>e. to_sql env cx (BinaryOp l (FloatLiteral f) op) = Inl e"
  by (cases "to_table env l") (simp_all add: binary_sql_def)

text \<open>The grammar nests pairs, so a list of three is a pair in a pair, which has no table.\<close>

lemma three_columns_fail: "\<exists>e. to_sql env cx (Tuple [Tuple [a, b], c]) = Inl e"
  by (simp add: tuple_sql_def)

text \<open>One time limit is put behind the query of its expression; a second one is refused.\<close>

lemma time_limits:
  assumes "to_sql env cx e = Inr s" "to_sql_time_field env e = Inr t"
  shows "to_sql env cx (First e d) = Inr (s @ '' where '' @ t @ '' <= to_timestamp('' @
      ee_seconds env (i64_wrap (cx_earliest cx + duration_micros d)) @ '')'')"
    "\<exists>e'. to_sql env cx (Last (First e d) d') = Inl e'"
  using assms by (simp_all add: Let_def)

text \<open>Different components can have the same table.\<close>

lemma tables_collide: "undot ''a.b_c'' = undot ''a_b.c''"
  by (simp add: undot_def)

text \<open>The table of a query is the component's name exactly when that has no dot.\<close>

lemma query_table_name:
  "to_table env (ComponentPart part) = Inr t \<Longrightarrow> t = cp_name part \<longleftrightarrow> CHR ''.'' \<notin> set (cp_name part)"
proof -
  assume "to_table env (ComponentPart part) = Inr t"
  moreover have "undot s = s \<longleftrightarrow> CHR ''.'' \<notin> set s" for s
    by (induction s) (auto simp: undot_def)
  ultimately show ?thesis by auto
qed

text \<open>A node without a component suggests its time, which does not resolve.\<close>

lemma time_suggested_in_vain:
  assumes "cp_component part = None" "map_of (cp_children part) ''time'' = None"
  shows "''time'' \<in> set (get_suggestions (ComponentPart part)) \<and>
    parse_field (ComponentPart part) ''time'' = Inl (EqlComponentNotFound ''time'')"
  using assms by (simp add: parse_field_def get_child_def)

end
