(* ===== verification/Arrow.thy ===== *)
theory Arrow
  imports Database
begin

text \<open>
  The tables that SQL queries and archives see (\<open>libs/db/src/arrow/mod.rs\<close>) and the order of
  spectra (\<open>libs/db/src/arrow/fft.rs\<close>).  Arrow, the query engine, the Fourier transform and
  the file writers are external: how a bit-packed buffer is read, how many rows a list array
  has and what registering a table or writing a file answers are parameters.  A panic is
  \<open>None\<close>.
\<close>

section \<open>Columns\<close>

datatype range_bound = Included nat | Excluded nat | Unbounded

text \<open>\<open>as_arrow_buffer_range\<close>: the buffer shares the bytes of the log.\<close>

definition arrow_buffer :: "'e append_log \<Rightarrow> range_bound \<times> range_bound \<Rightarrow> nat \<Rightarrow> byte list" where
  "arrow_buffer l rg esz =
     (let data = al_data l;
          start = (case fst rg of Included n \<Rightarrow> n * esz | Excluded n \<Rightarrow> (n + 1) * esz | Unbounded \<Rightarrow> 0);
          end' = (case snd rg of Included n \<Rightarrow> (n + 1) * esz | Excluded n \<Rightarrow> n * esz | Unbounded \<Rightarrow> length data);
          start = min start (length data);
          end' = min end' (length data)
      in slice start end' data)"

record arrow_env =
  ae_bit_at :: "byte list \<Rightarrow> nat \<Rightarrow> bool"
  ae_list_len :: "int \<Rightarrow> nat \<Rightarrow> nat option"

text \<open>\<open>node_array_ref\<close> and \<open>node_bool_ref\<close>: the elements of a node, by type.\<close>

definition node_array :: "arrow_env \<Rightarrow> ts_node \<Rightarrow> range_bound \<times> range_bound \<Rightarrow> prim_type \<Rightarrow> element_value list" where
  "node_array ae node rg ty =
     (let buffer = arrow_buffer (ts_data node) rg (element_size node)
      in if ty = Bool then map (\<lambda>i. EvBool (ae_bit_at ae buffer i)) [0..<length buffer]
         else cv_iter (view_of ty (length buffer div prim_size ty) buffer []))"

text \<open>The product of the dimensions, cast to an \<open>i32\<close>.\<close>

definition list_size :: "cschema \<Rightarrow> int" where
  "list_size s = (int (prod_list (cs_dim s) mod 2 ^ 64) + 2 ^ 31) mod 2 ^ 32 - 2 ^ 31"

text \<open>A column: its name, the size of its lists (none for a scalar), its length and its elements.\<close>

record arrow_column =
  ac_name :: string
  ac_size :: "int option"
  ac_len :: nat
  ac_values :: "element_value list"

definition as_data_array :: "arrow_env \<Rightarrow> string \<Rightarrow> range_bound \<times> range_bound \<Rightarrow> cschema \<Rightarrow> ts_node \<Rightarrow> arrow_column option" where
  "as_data_array ae name rg s node =
     (let values = node_array ae node rg (cs_prim_type s)
      in if cs_dim s = [] then Some \<lparr>ac_name = name, ac_size = None, ac_len = length values, ac_values = values\<rparr>
         else map_option (\<lambda>n. \<lparr>ac_name = name, ac_size = Some (list_size s), ac_len = n, ac_values = values\<rparr>)
                (ae_list_len ae (list_size s) (length values)))"

definition as_time_array :: "range_bound \<times> range_bound \<Rightarrow> ts_node \<Rightarrow> int list" where
  "as_time_array rg node = (let buffer = arrow_buffer (ts_index node) rg 8 in i64_elems (take (length buffer div 8 * 8) buffer))"

section \<open>Batches and tables\<close>

record record_batch =
  rb_times :: "int list"
  rb_column :: arrow_column

definition as_record_batch :: "arrow_env \<Rightarrow> string \<Rightarrow> range_bound \<times> range_bound \<Rightarrow> cschema \<Rightarrow> ts_node \<Rightarrow> record_batch option" where
  "as_record_batch ae name rg s node =
     map_option (\<lambda>col.
       let times = as_time_array rg node;
           len = min (ac_len col) (length times)
       in \<lparr>rb_times = take len times, rb_column = col\<lparr>ac_len := len\<rparr>\<rparr>)
       (as_data_array ae name rg s node)"

text \<open>A row of a column.\<close>

definition row :: "arrow_column \<Rightarrow> nat \<Rightarrow> element_value list" where
  "row col i = (case ac_size col of None \<Rightarrow> [ac_values col ! i] | Some n \<Rightarrow> slice (i * nat n) (i * nat n + nat n) (ac_values col))"

fun all_some :: "'a option list \<Rightarrow> 'a list option" where
  "all_some [] = Some []"
| "all_some (x # xs) = Option.bind x (\<lambda>y. map_option ((#) y) (all_some xs))"

text \<open>
  \<open>as_mem_table\<close>: one batch for each node, in the order of the stack, declared to be sorted by
  time; nothing for a series without nodes.
\<close>

record mem_table =
  mt_batches :: "record_batch list"
  mt_sorted_by_time :: bool

definition as_mem_table :: "arrow_env \<Rightarrow> string \<Rightarrow> component \<Rightarrow> mem_table option option" where
  "as_mem_table ae name c =
     (if ts_nodes (co_series c) = [] then Some None
      else map_option (\<lambda>bs. Some \<lparr>mt_batches = bs, mt_sorted_by_time = True\<rparr>)
        (all_some (map (as_record_batch ae name (Unbounded, Unbounded) (co_schema c)) (ts_nodes (co_series c)))))"

section \<open>The database\<close>

text \<open>
  \<open>as_session_context\<close>: a table for each component, in the order of the map, under the name
  in its metadata, which must be there.  \<open>register\<close> is what the engine answers, given the
  names it already has.
\<close>

fun register_tables :: "arrow_env \<Rightarrow> (string list \<Rightarrow> string \<Rightarrow> nat option) \<Rightarrow> 'm state \<Rightarrow> component list \<Rightarrow>
    (string \<times> mem_table) list \<Rightarrow> (nat + (string \<times> mem_table) list) option" where
  "register_tables ae register st [] tables = Some (Inr tables)"
| "register_tables ae register st (c # cs) tables =
     Option.bind (st_metadata st (co_id c)) (\<lambda>meta.
     Option.bind (as_mem_table ae (cm_name meta) c) (\<lambda>t.
       case t of
         None \<Rightarrow> register_tables ae register st cs tables
       | Some t \<Rightarrow>
           (case register (map fst tables) (cm_name meta) of
              Some e \<Rightarrow> Some (Inl e)
            | None \<Rightarrow> register_tables ae register st cs (tables @ [(cm_name meta, t)]))))"

text \<open>\<open>save_archive\<close>: a file for each component with metadata and data; the files that were written to
  the end are collected.\<close>

datatype archive_format = ArrowIpc | Parquet | Csv

fun archive_ext :: "archive_format \<Rightarrow> string" where
  "archive_ext ArrowIpc = ''.arrow''" | "archive_ext Parquet = ''.parquet''" | "archive_ext Csv = ''.csv''"

record archive_os =
  ao_mkdir :: "io_kind option"
  ao_parquet :: bool
  ao_write :: "string \<Rightarrow> record_batch list \<Rightarrow> db_error option"

fun save_components :: "arrow_env \<Rightarrow> archive_os \<Rightarrow> archive_format \<Rightarrow> 'm state \<Rightarrow> component list \<Rightarrow>
    (string \<times> record_batch list) list \<Rightarrow> ((db_error + unit) \<times> (string \<times> record_batch list) list) option" where
  "save_components ae os format st [] files = Some (Inr (), files)"
| "save_components ae os format st (c # cs) files =
     (case st_metadata st (co_id c) of
        None \<Rightarrow> save_components ae os format st cs files
      | Some meta \<Rightarrow>
          Option.bind (all_some (map (as_record_batch ae (cm_name meta) (Unbounded, Unbounded) (co_schema c)) (ts_nodes (co_series c)))) (\<lambda>bs.
            if bs = [] then save_components ae os format st cs files
            else if format = Parquet \<and> \<not> ao_parquet os then Some (Inl UnsupportedArchiveFormat, files)
            else
              (case ao_write os (cm_name meta @ archive_ext format) bs of
                 Some e \<Rightarrow> Some (Inl e, files)
               | None \<Rightarrow> save_components ae os format st cs (files @ [(cm_name meta @ archive_ext format, bs)]))))"

definition save_archive :: "arrow_env \<Rightarrow> archive_os \<Rightarrow> archive_format \<Rightarrow> 'm state \<Rightarrow> component list \<Rightarrow>
    ((db_error + unit) \<times> (string \<times> record_batch list) list) option" where
  "save_archive ae os format st cs =
     (case ao_mkdir os of Some e \<Rightarrow> Some (Inl (Io e), []) | None \<Rightarrow> save_components ae os format st cs [])"

section \<open>Spectra\<close>

text \<open>
  \<open>fft\<close>: the magnitudes of the external transform, rotated right by half their number;
  \<open>fftfreq\<close>: the frequency of each of them, as a multiple of the sample rate divided by the
  number of samples made even.
\<close>

definition rotate_right :: "nat \<Rightarrow> 'a list \<Rightarrow> 'a list" where
  "rotate_right k xs = drop (length xs - k) xs @ take (length xs - k) xs"

definition fft_magnitudes :: "('a list \<Rightarrow> 'b list) \<Rightarrow> 'a list \<Rightarrow> 'b list" where
  "fft_magnitudes transform input =
     (if input = [] then [] else (let mags = transform input in rotate_right (length mags div 2) mags))"

definition fft_frequencies :: "nat \<Rightarrow> int list" where
  "fft_frequencies len =
     (let n = (if len mod 2 = 0 then len else len - 1)
      in take len (map (\<lambda>i. - int i) (rev [0..<n div 2]) @ map int [0..<n div 2] @ replicate len 0))"

end
