(* ===== verification/ArrowCorrect.thy ===== *)
theory ArrowCorrect
  imports Arrow StreamsCorrect
begin

text \<open>
  Which rows the tables of a component have: a row for each sample, with its time and its
  elements; and where that fails.
\<close>

section \<open>Elements of a buffer\<close>

fun elem_of :: "prim_type \<Rightarrow> byte list \<Rightarrow> element_value" where
  "elem_of U8 bs = EvU8 (of_nat (le_to_nat bs))" | "elem_of U16 bs = EvU16 (of_nat (le_to_nat bs))"
| "elem_of U32 bs = EvU32 (of_nat (le_to_nat bs))" | "elem_of U64 bs = EvU64 (of_nat (le_to_nat bs))"
| "elem_of I8 bs = EvI8 (of_nat (le_to_nat bs))" | "elem_of I16 bs = EvI16 (of_nat (le_to_nat bs))"
| "elem_of I32 bs = EvI32 (of_nat (le_to_nat bs))" | "elem_of I64 bs = EvI64 (of_nat (le_to_nat bs))"
| "elem_of Bool bs = EvBool (bs = [1])"
| "elem_of F32 bs = EvF32 (of_nat (le_to_nat bs))" | "elem_of F64 bs = EvF64 (of_nat (le_to_nat bs))"

lemma iter_view_of:
  "ty \<noteq> Bool \<Longrightarrow> cv_iter (view_of ty n bs shape) =
     map (\<lambda>i. elem_of ty (slice (i * prim_size ty) (i * prim_size ty + prim_size ty) bs)) [0..<n]"
  by (cases ty) (simp_all add: elems_of_le_def)

lemma slice_slice: "b \<le> c \<Longrightarrow> slice a b (slice s (s + c) xs) = slice (s + a) (s + b) xs"
  by (simp add: slice_def drop_take add.commute min_def)

lemma slice_one: "k < length xs \<Longrightarrow> slice k (Suc k) xs = [xs ! k]"
  by (simp add: slice_def take_Suc hd_drop_conv_nth)

lemma slice_map_upt: "b \<le> n \<Longrightarrow> slice a b (map f [0..<n]) = map (\<lambda>j. f (a + j)) [0..<b - a]"
  by (intro nth_equalityI) (simp_all add: slice_def)

lemma arrow_buffer_all: "arrow_buffer l (Unbounded, Unbounded) sz = al_data l"
  by (simp add: arrow_buffer_def)

lemma times_of_node: "node_ok e n \<Longrightarrow> as_time_array (Unbounded, Unbounded) n = map fst (node_samples e n)"
proof -
  assume n: "node_ok e n"
  then have "length (al_data (ts_index n)) div 8 * 8 = length (al_data (ts_index n))"
    by (auto simp: node_ok_def)
  then show ?thesis using node_timestamps(2) [OF n] by (simp add: as_time_array_def arrow_buffer_all)
qed

text \<open>The values of a node of samples of \<open>m\<close> elements, row by row.\<close>

lemma values_of_node:
  assumes n: "node_ok (m * prim_size ty) n" and ty: "ty \<noteq> Bool" and m: "0 < m" and i: "i < length (node_samples (m * prim_size ty) n)"
  shows "length (node_array ae n (Unbounded, Unbounded) ty) = length (node_samples (m * prim_size ty) n) * m"
    "slice (i * m) (i * m + m) (node_array ae n (Unbounded, Unbounded) ty) =
       cv_iter (view_of ty m (snd (node_samples (m * prim_size ty) n ! i)) [])"
proof -
  let ?p = "prim_size ty" and ?e = "m * prim_size ty" and ?d = "al_data (ts_data n)" and ?k = "al_len (ts_index n) div 8"
  have p: "0 < ?p" by (cases ty) simp_all
  have l: "length ?d = ?k * ?e" using n by (simp add: node_ok_def mult.commute)
  have k: "length (node_samples ?e n) = ?k" by (rule node_timestamps(3) [OF n])
  have c: "length ?d div ?p = ?k * m" unfolding l mult.assoc [symmetric] using p by simp
  have vals: "node_array ae n (Unbounded, Unbounded) ty = map (\<lambda>i. elem_of ty (slice (i * ?p) (i * ?p + ?p) ?d)) [0..<?k * m]"
    using ty by (simp add: node_array_def Let_def arrow_buffer_all c iter_view_of)
  show "length (node_array ae n (Unbounded, Unbounded) ty) = length (node_samples ?e n) * m" by (simp add: vals k)
  have ik: "i * m + m \<le> ?k * m" using i unfolding k by (metis add.commute mult_Suc mult_le_mono1 Suc_leI)
  have s: "snd (node_samples ?e n ! i) = slice (i * ?e) (i * ?e + ?e) ?d"
    using i k by (simp add: node_samples_def add.commute)
  have "slice (i * m) (i * m + m) (node_array ae n (Unbounded, Unbounded) ty) =
      map (\<lambda>j. elem_of ty (slice ((i * m + j) * ?p) ((i * m + j) * ?p + ?p) ?d)) [0..<m]"
    unfolding vals by (simp add: slice_map_upt [OF ik])
  also have "\<dots> = map (\<lambda>j. elem_of ty (slice (j * ?p) (j * ?p + ?p) (slice (i * ?e) (i * ?e + ?e) ?d))) [0..<m]"
  proof (rule map_cong [OF refl])
    fix j assume "j \<in> set [0..<m]"
    then have "j * ?p + ?p \<le> ?e" using mult_le_mono1 [of "Suc j" m ?p] by simp
    then have "slice (j * ?p) (j * ?p + ?p) (slice (i * ?e) (i * ?e + ?e) ?d) = slice (i * ?e + j * ?p) (i * ?e + (j * ?p + ?p)) ?d"
      by (rule slice_slice)
    moreover have "(i * m + j) * ?p = i * ?e + j * ?p" by (simp add: algebra_simps)
    ultimately show "elem_of ty (slice ((i * m + j) * ?p) ((i * m + j) * ?p + ?p) ?d) =
        elem_of ty (slice (j * ?p) (j * ?p + ?p) (slice (i * ?e) (i * ?e + ?e) ?d))"
      by (simp add: add.assoc)
  qed
  finally show "slice (i * m) (i * m + m) (node_array ae n (Unbounded, Unbounded) ty) =
      cv_iter (view_of ty m (snd (node_samples ?e n ! i)) [])"
    by (simp add: s iter_view_of [OF ty])
qed

text \<open>What the documentation promises of a list array with a positive size.\<close>

definition lists_ok :: "arrow_env \<Rightarrow> bool" where
  "lists_ok ae \<longleftrightarrow> (\<forall>size n. 0 < size \<longrightarrow> ae_list_len ae size n = Some (n div nat size))"

text \<open>A batch with exactly one row for each sample: its time and the elements of its value in order.\<close>

definition batch_of :: "cschema \<Rightarrow> ts_node \<Rightarrow> record_batch \<Rightarrow> bool" where
  "batch_of s n b \<longleftrightarrow> rb_times b = map fst (node_samples (cs_size s) n) \<and>
    ac_len (rb_column b) = length (node_samples (cs_size s) n) \<and>
    (\<forall>i < length (node_samples (cs_size s) n). row (rb_column b) i =
       cv_iter (view_of (cs_prim_type s) (prod_list (cs_dim s)) (snd (node_samples (cs_size s) n ! i)) []))"

lemma record_batch_of_node:
  assumes "node_ok (cs_size s) n" "lists_ok ae" "cs_prim_type s \<noteq> Bool"
    and "0 < prod_list (cs_dim s)" "prod_list (cs_dim s) < 2 ^ 31"
  shows "\<exists>b. as_record_batch ae name (Unbounded, Unbounded) s n = Some b \<and> batch_of s n b"
proof -
  let ?m = "prod_list (cs_dim s)" and ?ty = "cs_prim_type s" and ?N = "length (node_samples (cs_size s) n)"
  let ?v = "node_array ae n (Unbounded, Unbounded) ?ty"
  have p: "prim_size ?ty \<le> 8" by (cases ?ty) simp_all
  have "?m * prim_size ?ty \<le> 2 ^ 31 * 8" using assms(5) p by (intro mult_le_mono) simp_all
  then have e: "cs_size s = ?m * prim_size ?ty" using assms(5) by (simp add: cs_size_def)
  have sz: "list_size s = int ?m" using assms(5) by (simp add: list_size_def)
  note v = values_of_node [OF assms(1) [unfolded e] assms(3,4)]
  have t: "as_time_array (Unbounded, Unbounded) n = map fst (node_samples (cs_size s) n)" by (rule times_of_node [OF assms(1)])
  show ?thesis
  proof (cases "?N = 0")
    case True
    have "length (al_data (ts_data n)) = 0" using True assms(1) node_timestamps(3) [OF assms(1)] by (simp add: node_ok_def)
    then have "al_data (ts_data n) = []" by simp
    then have "?v = []" using assms(3) by (simp add: node_array_def Let_def arrow_buffer_all iter_view_of)
    then show ?thesis using True assms(2,4) t
      by (auto simp: as_record_batch_def as_data_array_def lists_ok_def sz Let_def batch_of_def)
  next
    case False
    then have l: "length ?v = ?N * ?m" using v(1) [of 0 ae] e by simp
    have r: "slice (i * ?m) (i * ?m + ?m) ?v = cv_iter (view_of ?ty ?m (snd (node_samples (cs_size s) n ! i)) [])" if "i < ?N" for i
      using v(2) [of i ae] that e by simp
    show ?thesis
    proof (cases "cs_dim s = []")
      case True
      have "[?v ! i] = slice i (i + 1) ?v" if "i < ?N" for i
        using that l True by (simp add: slice_one)
      then show ?thesis using True l t r
        by (simp add: as_record_batch_def as_data_array_def row_def Let_def batch_of_def)
    next
      case False
      then show ?thesis using assms(2,4) l t r
        by (simp add: as_record_batch_def as_data_array_def lists_ok_def sz row_def Let_def batch_of_def)
    qed
  qed
qed

lemma all_some_list:
  "(\<And>x. x \<in> set xs \<Longrightarrow> \<exists>y. f x = Some y \<and> P x y) \<Longrightarrow> \<exists>ys. all_some (map f xs) = Some ys \<and> list_all2 P xs ys"
proof (induction xs)
  case (Cons x xs)
  obtain y where "f x = Some y" "P x y" using Cons.prems [of x] by auto
  moreover obtain ys where "all_some (map f xs) = Some ys" "list_all2 P xs ys" using Cons by auto
  ultimately show ?case by auto
qed simp

lemma mem_table_of_component:
  assumes "ts_inv (cs_size (co_schema c)) (co_series c)" "ts_nodes (co_series c) \<noteq> []" "lists_ok ae"
    and "cs_prim_type (co_schema c) \<noteq> Bool" "0 < prod_list (cs_dim (co_schema c))" "prod_list (cs_dim (co_schema c)) < 2 ^ 31"
  shows "\<exists>t. as_mem_table ae name c = Some (Some t) \<and> mt_sorted_by_time t \<and>
    list_all2 (batch_of (co_schema c)) (ts_nodes (co_series c)) (mt_batches t)"
proof -
  have "\<exists>b. as_record_batch ae name (Unbounded, Unbounded) (co_schema c) n = Some b \<and> batch_of (co_schema c) n b"
    if "n \<in> set (ts_nodes (co_series c))" for n
    using assms(1) that by (intro record_batch_of_node assms(3-6)) (simp add: ts_inv_def)
  from all_some_list [OF this, of "ts_nodes (co_series c)" "\<lambda>n. n"] show ?thesis using assms(2) by (auto simp: as_mem_table_def)
qed


section \<open>Where tables go wrong\<close>

text \<open>Arrow's boolean arrays are bit-packed, least significant bit first.\<close>

definition bits_ok :: "arrow_env \<Rightarrow> bool" where
  "bits_ok ae \<longleftrightarrow> (\<forall>bs i. ae_bit_at ae bs i = bit (bs ! (i div 8)) (i mod 8))"

text \<open>A boolean component is recorded with a byte for each sample, but its column is read as packed
  bits: the row of every sample whose number is not a multiple of eight reads false, and the
  others read the sample of an eighth of their number.\<close>

theorem bool_column_packed:
  assumes "node_ok 1 n" "bits_ok ae" "cs_prim_type s = Bool" "cs_dim s = []" "bools_ok (al_data (ts_data n))"
  shows "\<exists>b. as_record_batch ae name (Unbounded, Unbounded) s n = Some b \<and>
    ac_len (rb_column b) = length (node_samples 1 n) \<and>
    (\<forall>i < length (node_samples 1 n). row (rb_column b) i =
       [EvBool (i mod 8 = 0 \<and> snd (node_samples 1 n ! (i div 8)) = [1])])"
proof -
  let ?d = "al_data (ts_data n)" and ?N = "length (node_samples 1 n)"
  have l: "length ?d = ?N" using assms(1) node_timestamps(3) [OF assms(1)] by (simp add: node_ok_def)
  have t: "as_time_array (Unbounded, Unbounded) n = map fst (node_samples 1 n)" by (rule times_of_node [OF assms(1)])
  have b: "bit (?d ! (i div 8)) (i mod 8) = (i mod 8 = 0 \<and> snd (node_samples 1 n ! (i div 8)) = [1])" if i: "i < ?N" for i
  proof -
    have k: "i div 8 < ?N" using i by (meson div_le_dividend le_less_trans)
    then have s: "snd (node_samples 1 n ! (i div 8)) = [?d ! (i div 8)]"
      using l node_timestamps(3) [OF assms(1)] by (simp add: node_samples_def slice_one)
    have "?d ! (i div 8) \<in> set ?d" using k l by (intro nth_mem) simp
    then have "?d ! (i div 8) = 0 \<or> ?d ! (i div 8) = 1" using assms(5) by (simp add: bools_ok_def)
    then show ?thesis using s by (auto simp: bit_1_iff)
  qed
  have "node_array ae n (Unbounded, Unbounded) Bool = map (\<lambda>i. EvBool (i mod 8 = 0 \<and> snd (node_samples 1 n ! (i div 8)) = [1])) [0..<?N]"
    unfolding node_array_def Let_def arrow_buffer_all l if_True simp_thms
    by (rule map_cong [OF refl]) (use assms(2) b in \<open>simp add: bits_ok_def\<close>)
  then show ?thesis using assms(3,4) t
    by (simp add: as_record_batch_def as_data_array_def row_def Let_def)
qed

text \<open>The batches of a component stand with the newest node first, but the table is declared to be
  sorted by time: with an older sample in an older node it is not.\<close>

theorem mem_table_out_of_order:
  assumes "ts_inv (cs_size (co_schema c)) (co_series c)" "lists_ok ae"
    and "cs_prim_type (co_schema c) \<noteq> Bool" "0 < prod_list (cs_dim (co_schema c))" "prod_list (cs_dim (co_schema c)) < 2 ^ 31"
    and nodes: "ts_nodes (co_series c) = newest # older" "old \<in> set older"
    and "x \<in> set (node_samples (cs_size (co_schema c)) newest)" "y \<in> set (node_samples (cs_size (co_schema c)) old)" "fst y < fst x"
  shows "\<exists>t. as_mem_table ae name c = Some (Some t) \<and> mt_sorted_by_time t \<and> \<not> sorted (concat (map rb_times (mt_batches t)))"
proof -
  obtain t where t: "as_mem_table ae name c = Some (Some t)" "mt_sorted_by_time t"
    "list_all2 (batch_of (co_schema c)) (ts_nodes (co_series c)) (mt_batches t)"
    using mem_table_of_component [OF assms(1) _ assms(2-5)] nodes(1) by auto
  have "map rb_times (mt_batches t) = map (\<lambda>n. map fst (node_samples (cs_size (co_schema c)) n)) (ts_nodes (co_series c))"
    using t(3) by (induction rule: list_all2_induct) (simp_all add: batch_of_def)
  then have "concat (map rb_times (mt_batches t)) = map fst (node_samples (cs_size (co_schema c)) newest) @
      concat (map (\<lambda>n. map fst (node_samples (cs_size (co_schema c)) n)) older)"
    by (simp add: nodes(1))
  moreover have "fst x \<in> set (map fst (node_samples (cs_size (co_schema c)) newest))" using assms(8) by simp
  moreover have "fst y \<in> set (concat (map (\<lambda>n. map fst (node_samples (cs_size (co_schema c)) n)) older))"
    using assms(9) nodes(2) by auto
  ultimately have "\<not> sorted (concat (map rb_times (mt_batches t)))"
    using assms(10) by (metis not_le sorted_append)
  then show ?thesis using t by blast
qed

section \<open>Spectra\<close>

text \<open>Of a spectrum of an even number of samples, every magnitude in the lower half is labelled with
  the frequency of the next bin: the label misses the bin by one, and zero appears twice.  The
  upper half is labelled rightly.\<close>

theorem spectrum_labels:
  assumes "length (transform input) = length input" "length input = 2 * h" "j < 2 * h"
  shows "fft_magnitudes transform input ! j = transform input ! (if j < h then j + h else j - h) \<and>
    length (fft_frequencies (2 * h)) = 2 * h \<and>
    fft_frequencies (2 * h) ! j = (if j < h then int j - int h + 1 else int j - int h)"
proof -
  have m: "fft_magnitudes transform input = drop h (transform input) @ take h (transform input)"
    using assms(1,2) by (auto simp: fft_magnitudes_def rotate_right_def Let_def)
  have f: "fft_frequencies (2 * h) = map (\<lambda>i. - int i) (rev [0..<h]) @ map int [0..<h]"
    by (simp add: fft_frequencies_def)
  show ?thesis unfolding m f using assms by (auto simp: nth_append rev_nth add.commute)
qed

section \<open>Concrete tables\<close>

definition demo_arrow :: arrow_env where
  "demo_arrow = \<lparr>ae_bit_at = (\<lambda>bs i. bit (bs ! (i div 8)) (i mod 8)), ae_list_len = (\<lambda>size n. Some (n div nat size))\<rparr>"

lemma demo_arrow_ok: "lists_ok demo_arrow" "bits_ok demo_arrow"
  by (simp_all add: lists_ok_def bits_ok_def demo_arrow_def)

lemma demo_schema:
  "cs_size (co_schema demo_comp) = 8" "cs_prim_type (co_schema demo_comp) = F64" "cs_dim (co_schema demo_comp) = []"
  by (simp_all add: demo_comp_def cs_new_def cs_size_def)



definition bool_node :: ts_node where
  "bool_node = \<lparr>ts_index = sample_log 0 (concat (map i64_to_le [1, 2])),
     ts_data = \<lparr>al_map = replicate 24 0 @ [0, 1] @ replicate 78 0, al_committed = 26, al_head = 0, al_extra = 1, al_hdr = 24\<rparr>\<rparr>"

lemma bool_node_facts: "al_data (ts_data bool_node) = [0, 1]" "node_ok 1 bool_node" "length (node_samples 1 bool_node) = 2"
proof -
  show d: "al_data (ts_data bool_node) = [0, 1]" by (simp add: bool_node_def al_data_def slice_def)
  have "al_capacity (ts_data bool_node) = 80" "al_len (ts_data bool_node) = 2" "al_inv (ts_data bool_node)" "al_extra (ts_data bool_node) = 1"
    by (simp_all add: bool_node_def al_capacity_def al_len_def al_inv_def)
  moreover have "al_capacity (ts_index bool_node) = 80" "al_len (ts_index bool_node) = 16" "al_inv (ts_index bool_node)"
    by (simp_all add: bool_node_def)
  ultimately show n: "node_ok 1 bool_node" by (simp add: node_ok_def element_size_def)
  show "length (node_samples 1 bool_node) = 2"
    using node_timestamps(3) [OF n] by (simp add: bool_node_def)
qed


end
