(* ===== verification/NoxArray.thy ===== *)
theory NoxArray
  imports Value
begin

text \<open>
  The array backend of \<open>libs/nox/src/array/mod.rs\<close>: arrays whose dimensions are part of their
  type (\<open>Plain\<close>, with the constants of that type) and dynamic arrays, the strided iterators
  over their buffers, and the operations built on them.  The type of a result is an argument:
  \<open>Some dims\<close> for constant dimensions, \<open>None\<close> for dynamic ones.  Index arithmetic is
  on unbounded naturals.  A panic is \<open>None\<close>.
\<close>

section \<open>Dimension types\<close>

text \<open>A type is the list of its axes: a constant, or \<open>None\<close> for \<open>Dyn\<close>.\<close>

type_synonym dim = "nat option list"

definition const_dims :: "dim \<Rightarrow> nat list option" where
  "const_dims d = (if None \<in> set d then None else Some (map the d))"

text \<open>The implementations of \<open>BaseBroadcastDim\<close> and \<open>BroadcastDim\<close>; \<open>None\<close> is a type error.\<close>

fun base_broadcasted :: "nat option \<Rightarrow> nat option \<Rightarrow> nat option option" where
  "base_broadcasted None None = Some None"
| "base_broadcasted (Some a) (Some b) =
     (if a = b then Some (Some a)
      else if b = 1 \<and> 2 \<le> a \<and> a < 99 then Some (Some a)
      else if a = 1 \<and> 2 \<le> b \<and> b < 99 then Some (Some b) else None)"
| "base_broadcasted _ _ = None"

fun base_broadcasted_all :: "dim \<Rightarrow> dim \<Rightarrow> dim option" where
  "base_broadcasted_all (a # as) (b # bs) =
     (case base_broadcasted a b of None \<Rightarrow> None | Some c \<Rightarrow> map_option ((#) c) (base_broadcasted_all as bs))"
| "base_broadcasted_all _ _ = Some []"

definition broadcasted_dim :: "dim \<Rightarrow> dim \<Rightarrow> dim option" where
  "broadcasted_dim a b =
     (if a = [] then Some b
      else if b = [] then Some a
      else if length a = 1 \<and> length b = 1 then
        (if a ! 0 = None \<or> b ! 0 = None then Some [None] else base_broadcasted_all a b)
      else if length a = 1 \<and> length b = 2 then (if a ! 0 = b ! 1 then Some b else None)
      else if length a = 2 \<and> length b = 1 then (if a ! 1 = b ! 0 then Some a else None)
      else if length a = 2 \<and> length b = 2 then
        (if a ! 0 = None \<and> a ! 1 \<noteq> None \<and> None \<notin> set b
         then map_option (\<lambda>c. [None, c]) (base_broadcasted (a ! 1) (b ! 1)) else base_broadcasted_all a b)
      else if length a = 3 \<and> length b = 3 \<and> None \<notin> set a \<union> set b then base_broadcasted_all a b
      else None)"

section \<open>Arrays\<close>

datatype 'a array = Plain "nat list" "'a list" | DynBuf "'a dyn_array"

type_synonym dim_type = "nat list option"

fun as_buf :: "'a array \<Rightarrow> 'a list" where
  "as_buf (Plain _ buf) = buf"
| "as_buf (DynBuf a) = da_storage a"

fun put_buf :: "'a array \<Rightarrow> 'a list \<Rightarrow> 'a array" where
  "put_buf (Plain dims _) buf = Plain dims buf"
| "put_buf (DynBuf a) buf = DynBuf (a\<lparr>da_storage := buf\<rparr>)"

fun array_shape :: "'a array \<Rightarrow> nat list" where
  "array_shape (Plain dims _) = dims"
| "array_shape (DynBuf a) = da_shape a"

text \<open>The types have at most three constant dimensions.\<close>

fun const_strides :: "nat list \<Rightarrow> nat list" where
  "const_strides [d1] = [1]"
| "const_strides [d1, d2] = [d2, 1]"
| "const_strides [d1, d2, d3] = [d3 * d2, d2, 1]"
| "const_strides _ = []"

fun array_strides :: "'a array \<Rightarrow> nat list" where
  "array_strides (Plain dims _) = const_strides dims"
| "array_strides (DynBuf a) = da_strides a"

text \<open>\<open>zeroed\<close>: a constant type ignores the dimensions it is given.\<close>

fun zeroed :: "'a \<Rightarrow> dim_type \<Rightarrow> nat list \<Rightarrow> 'a array" where
  "zeroed z (Some cs) dims = Plain cs (replicate (prod_list cs) z)"
| "zeroed z None dims = DynBuf (da_default z dims)"

text \<open>Writing the items of an iterator over a buffer, until one of them ends.\<close>

definition fill_from :: "'a array \<Rightarrow> 'a list \<Rightarrow> 'a array" where
  "fill_from out xs = put_buf out (take (length (as_buf out)) xs @ drop (length xs) (as_buf out))"

section \<open>Strided iterators\<close>

record stride_iter =
  si_stride :: "nat list"
  si_index :: "nat list"
  si_dims :: "nat list"
  si_offsets :: "nat list"
  si_bump :: bool

text \<open>The carry runs from the last axis to the first.\<close>

fun bump :: "nat list \<Rightarrow> nat list \<Rightarrow> nat list \<Rightarrow> bool \<times> nat list" where
  "bump (d # ds) (i # is) (off # offs) =
     (let (carry, is) = bump ds is offs;
          i = (if carry then i + 1 else i);
          carry = (d + off \<le> i)
      in (carry, (if carry then off else i) # is))"
| "bump _ is _ = (True, is)"

definition si_step :: "stride_iter \<Rightarrow> nat \<times> stride_iter" where
  "si_step it =
     (let index = (if si_bump it then snd (bump (si_dims it) (si_index it) (si_offsets it)) else si_index it)
      in (sum_list (map2 (*) index (si_stride it)), it\<lparr>si_index := index, si_bump := True\<rparr>))"

text \<open>\<open>next\<close>: the element at the position, and nothing when it is outside of the buffer.\<close>

definition si_next :: "'a list \<Rightarrow> stride_iter \<Rightarrow> 'a option \<times> stride_iter" where
  "si_next buf it = (let (p, it) = si_step it in (get_index buf p, it))"

text \<open>
  The indexes and positions that the first \<open>n\<close> calls of \<open>next\<close> visit in a buffer of
  \<open>len\<close> elements, until one of them finds nothing.
\<close>

fun si_run :: "nat \<Rightarrow> nat \<Rightarrow> stride_iter \<Rightarrow> (nat list \<times> nat) list" where
  "si_run len 0 it = []"
| "si_run len (Suc n) it =
     (let (p, it) = si_step it in if p < len then (si_index it, p) # si_run len n it else [])"

definition si_take :: "nat \<Rightarrow> 'a list \<Rightarrow> stride_iter \<Rightarrow> 'a list" where
  "si_take n buf it = map (\<lambda>(_, p). buf ! p) (si_run (length buf) n it)"

fun write_all_at :: "'a list \<Rightarrow> nat list \<Rightarrow> 'a list \<Rightarrow> 'a list" where
  "write_all_at buf (p # ps) (x # xs) = write_all_at (buf[p := x]) ps xs"
| "write_all_at buf _ _ = buf"

text \<open>\<open>offset_iter\<close>: missing offsets are zero in the indexes.\<close>

definition offset_iter :: "'a array \<Rightarrow> nat list \<Rightarrow> nat list \<Rightarrow> stride_iter" where
  "offset_iter a offsets dims =
     (let r = length (array_shape a)
      in \<lparr>si_stride = array_strides a, si_index = take r (offsets @ replicate r 0), si_dims = dims, si_offsets = offsets, si_bump = False\<rparr>)"

definition transpose_iter :: "'a array \<Rightarrow> stride_iter" where
  "transpose_iter a =
     (let dims = rev (array_shape a); zeros = replicate (length dims) 0
      in \<lparr>si_stride = rev (array_strides a), si_index = zeros, si_dims = dims, si_offsets = zeros, si_bump = False\<rparr>)"

section \<open>Broadcasting\<close>

fun can_broadcast_rev :: "nat list \<Rightarrow> nat list \<Rightarrow> bool" where
  "can_broadcast_rev (l # ls) (r # rs) = (if l = r \<or> r = 1 then can_broadcast_rev ls rs else if l \<noteq> 1 then False else can_broadcast_rev ls rs)"
| "can_broadcast_rev _ _ = True"

definition can_broadcast :: "nat list \<Rightarrow> nat list \<Rightarrow> bool" where
  "can_broadcast l r = can_broadcast_rev (rev l) (rev r)"

text \<open>\<open>cobroadcast_dims\<close>, last axis first; \<open>None\<close> is its answer \<open>false\<close>.\<close>

fun cobroadcast_rev :: "nat list \<Rightarrow> nat list \<Rightarrow> nat list option" where
  "cobroadcast_rev (d # ds) (x # xs) =
     (if d = x \<or> x = 1 then map_option ((#) d) (cobroadcast_rev ds xs)
      else if d = 1 then map_option ((#) x) (cobroadcast_rev ds xs)
      else None)"
| "cobroadcast_rev ds _ = Some ds"

definition cobroadcast_dims :: "nat list \<Rightarrow> nat list \<Rightarrow> nat list option" where
  "cobroadcast_dims output other = map_option rev (cobroadcast_rev (rev output) (rev other))"

text \<open>The strides after broadcasting, last axis first.\<close>

fun restride_rev :: "(nat \<times> nat) list \<Rightarrow> nat list \<Rightarrow> nat list option" where
  "restride_rev ((dim, stride) # ds) (n # ns) =
     (if dim = n then map_option ((#) stride) (restride_rev ds ns)
      else if dim = 1 then map_option ((#) 0) (restride_rev ds ns)
      else None)"
| "restride_rev _ ns = Some ns"

text \<open>\<open>broadcast_iter\<close>, which answers \<open>None\<close>, and panics when the new rank is smaller.\<close>

definition broadcast_iter :: "'a array \<Rightarrow> nat list \<Rightarrow> stride_iter option option" where
  "broadcast_iter a new_dims =
     (let existing = array_shape a; strides = array_strides a
      in case restride_rev (zip (rev existing @ replicate (length strides) 1) (rev strides)) (rev new_dims) of
           None \<Rightarrow> Some None
         | Some new_strides \<Rightarrow>
             if length new_dims < length existing then None
             else
               (let lead = length new_dims - length existing; zeros = replicate (length new_dims) 0
                in Some (Some \<lparr>si_stride = replicate lead 0 @ drop lead (rev new_strides),
                               si_index = zeros, si_dims = new_dims, si_offsets = zeros, si_bump = False\<rparr>)))"

text \<open>The first \<open>n\<close> items of an unwrapped broadcasting iterator.\<close>

definition broadcast_items :: "nat \<Rightarrow> 'a array \<Rightarrow> nat list \<Rightarrow> 'a list option" where
  "broadcast_items n a new_dims =
     (case broadcast_iter a new_dims of Some (Some it) \<Rightarrow> Some (si_take n (as_buf a) it) | _ \<Rightarrow> None)"

text \<open>
  The binary operators: both arms allocate the result with the dimensions of the right
  operand; what cannot be broadcast is a \<open>todo!\<close>.
\<close>

definition array_op :: "('a \<Rightarrow> 'a \<Rightarrow> 'a) \<Rightarrow> 'a \<Rightarrow> dim_type \<Rightarrow> 'a array \<Rightarrow> 'a array \<Rightarrow> 'a array option" where
  "array_op f z ty a b =
     (let d1 = array_shape a; d2 = array_shape b;
          out = zeroed z ty d2; n = length (as_buf out)
      in if length d1 \<le> length d2 then
           Option.bind (cobroadcast_dims d2 d1) (\<lambda>dims.
           Option.bind (broadcast_items n a dims) (\<lambda>xs.
           map_option (\<lambda>ys. fill_from out (map2 f xs ys)) (broadcast_items n b dims)))
         else
           Option.bind (cobroadcast_dims d1 d2) (\<lambda>dims.
           Option.bind (broadcast_items n b dims) (\<lambda>ys.
           map_option (\<lambda>xs. fill_from out (map2 f xs ys)) (broadcast_items n a dims))))"

definition broadcast_with_shape :: "'a \<Rightarrow> dim_type \<Rightarrow> nat list \<Rightarrow> 'a array \<Rightarrow> 'a array option" where
  "broadcast_with_shape z ty broadcast_dims a =
     (let out = zeroed z ty broadcast_dims
      in Option.bind (cobroadcast_dims broadcast_dims (array_shape a)) (\<lambda>dims.
         map_option (fill_from out) (broadcast_items (length (as_buf out)) a dims)))"

definition reshape_with_shape :: "'a \<Rightarrow> dim_type \<Rightarrow> nat list \<Rightarrow> 'a array \<Rightarrow> 'a array option" where
  "reshape_with_shape z ty shape a =
     (let out = zeroed z ty shape
      in Option.bind (cobroadcast_dims shape (array_shape a)) (\<lambda>shape.
           if shape = [] then
             (if as_buf a = [] \<or> length (as_buf out) \<noteq> 1 then None else Some (put_buf out (take 1 (as_buf a))))
           else map_option (fill_from out) (broadcast_items (length (as_buf out)) a shape)))"

section \<open>The other operations\<close>

text \<open>Unary operators and \<open>neg\<close>, and the pairwise \<open>atan2\<close>.\<close>

definition array_unary :: "('a \<Rightarrow> 'a) \<Rightarrow> 'a \<Rightarrow> dim_type \<Rightarrow> 'a array \<Rightarrow> 'a array" where
  "array_unary f z ty a = fill_from (zeroed z ty (array_shape a)) (map f (as_buf a))"

definition array_atan2 :: "('a \<Rightarrow> 'a \<Rightarrow> 'a) \<Rightarrow> 'a array \<Rightarrow> 'a array \<Rightarrow> 'a array" where
  "array_atan2 f a b = fill_from a (map2 f (as_buf a) (as_buf b))"

text \<open>\<open>transpose\<close> swaps the first two dimensions and visits all of them in reverse.\<close>

definition array_transpose :: "'a \<Rightarrow> dim_type \<Rightarrow> 'a array \<Rightarrow> 'a array option" where
  "array_transpose z ty a =
     (case array_shape a of
        d0 # d1 # ds \<Rightarrow>
          (let out = zeroed z ty (d1 # d0 # ds)
           in Some (fill_from out (si_take (length (as_buf out)) (as_buf a) (transpose_iter a))))
      | _ \<Rightarrow> None)"

definition array_concat :: "'a \<Rightarrow> dim_type \<Rightarrow> 'a array \<Rightarrow> 'a array \<Rightarrow> 'a array option" where
  "array_concat z ty a b =
     (case (array_shape a, array_shape b) of
        (m # ds, n # es) \<Rightarrow>
          if length ds \<noteq> length es then None
          else Some (fill_from (zeroed z ty ((m + n) # es)) (as_buf a @ as_buf b))
      | _ \<Rightarrow> None)"

text \<open>The errors; the payloads of the factorizations are numbers.\<close>

datatype nox_error =
    WrongAxisLen
  | UnbatchableArgument
  | VmapArgsEmpty
  | VmapInAxisMismatch
  | GetTupleElemWrongType
  | OutOfBoundsAccess
  | ScanWrongArgCount
  | ScanMissingArg
  | ScanShapeMismatch
  | InvertFailed int
  | InvalidConcatDims
  | Cholesky nat
  | SizeOverflow

text \<open>\<open>from_len_elem\<close> for shapes of a constant rank and for dynamic ones.\<close>

definition from_len_elem :: "nat option \<Rightarrow> nat \<Rightarrow> nat \<Rightarrow> nat list \<Rightarrow> nat list option" where
  "from_len_elem rank len axis elem =
     (case rank of
        Some n \<Rightarrow>
          if n \<le> axis then None
          else if length elem = n then Some (elem[axis := elem ! axis * len])
          else if length elem + 1 = n then Some (take axis elem @ len # drop axis elem)
          else None
      | None \<Rightarrow> if length elem < axis then None else Some (take axis elem @ len # drop axis elem))"

text \<open>One argument of \<open>concat_many\<close> written at its offset along the axis.\<close>

definition concat_step :: "nat \<Rightarrow> 'a array \<Rightarrow> nat \<Rightarrow> 'a array \<Rightarrow> (nox_error + 'a array \<times> nat) option" where
  "concat_step dim arg offset out =
     (let r = length (array_shape out); s = array_shape arg; elem_shape = replicate (r - length s) 1 @ s
      in if r < length s then Some (Inl InvalidConcatDims)
         else if r \<le> dim then None
         else
           (let it = offset_iter out ((replicate r 0)[dim := offset]) elem_shape;
                ps = map snd (si_run (length (as_buf out)) (length (as_buf arg)) it)
            in Some (Inr (put_buf out (write_all_at (as_buf out) ps (as_buf arg)), offset + elem_shape ! dim))))"

fun concat_loop :: "nat \<Rightarrow> 'a array list \<Rightarrow> nat \<Rightarrow> 'a array \<Rightarrow> (nox_error + 'a array) option" where
  "concat_loop dim [] offset out = Some (Inr out)"
| "concat_loop dim (arg # args) offset out =
     (case concat_step dim arg offset out of
        None \<Rightarrow> None
      | Some (Inl e) \<Rightarrow> Some (Inl e)
      | Some (Inr (out, offset)) \<Rightarrow> concat_loop dim args offset out)"

definition concat_many :: "'a \<Rightarrow> dim_type \<Rightarrow> bool \<Rightarrow> 'a array list \<Rightarrow> nat \<Rightarrow> (nox_error + 'a array) option" where
  "concat_many z ty scalar args dim =
     (if scalar then
        (if dim \<noteq> 0 then Some (Inl InvalidConcatDims)
         else Some (Inr (fill_from (zeroed z ty [length args]) (concat (map as_buf args)))))
      else
        (case args of
           [] \<Rightarrow> Some (Inl InvalidConcatDims)
         | arg # _ \<Rightarrow>
             Option.bind (from_len_elem (map_option length ty) (length args) dim (array_shape arg)) (\<lambda>out_shape.
               concat_loop dim args 0 (zeroed z ty out_shape))))"

text \<open>\<open>get\<close> by one index and by two.\<close>

definition array_get :: "'a array \<Rightarrow> nat \<Rightarrow> 'a option" where
  "array_get a i = get_index (as_buf a) i"

definition array_get2 :: "'a array \<Rightarrow> nat \<Rightarrow> nat \<Rightarrow> 'a option" where
  "array_get2 a i j = Option.bind (get_index (array_shape a) 1) (\<lambda>d1. get_index (as_buf a) (i * d1 + j))"

definition copy_fixed_slice :: "'a \<Rightarrow> nat list \<Rightarrow> nat list \<Rightarrow> 'a array \<Rightarrow> 'a array option" where
  "copy_fixed_slice z dims offsets a =
     (let out = zeroed z (Some dims) dims
      in if length (array_shape a) \<noteq> length dims \<or>
            list_ex (\<lambda>((out_dim, in_dim), offset). in_dim < offset + out_dim) (zip (zip dims (array_shape a)) offsets) then None
         else Some (fill_from out (si_take (length (as_buf out)) (as_buf a) (offset_iter a offsets dims))))"

definition array_row :: "'a \<Rightarrow> dim_type \<Rightarrow> nat \<Rightarrow> 'a array \<Rightarrow> 'a array option" where
  "array_row z ty index a =
     Option.bind (if length (array_shape a) = 1 then Some 1 else get_index (array_shape a) 1) (\<lambda>out_size.
       (let out = zeroed z ty [out_size]
        in Some (fill_from out (si_take (length (as_buf out)) (as_buf a) (offset_iter a [index, 0] [1, out_size])))))"

definition rows_iter :: "'a \<Rightarrow> dim_type \<Rightarrow> 'a array \<Rightarrow> 'a array option list option" where
  "rows_iter z ty a = map_option (\<lambda>len. map (\<lambda>i. array_row z ty i a) [0..<len]) (get_index (array_shape a) 0)"

definition from_scalars :: "'a \<Rightarrow> 'a \<Rightarrow> dim_type \<Rightarrow> nat list \<Rightarrow> 'a list \<Rightarrow> 'a array" where
  "from_scalars z zero ty shape xs =
     (let out = zeroed z ty shape in fill_from out (xs @ replicate (length (as_buf out)) zero))"

text \<open>
  \<open>eye\<close> and \<open>from_diag\<close>: an entry by its index, at every position the iterator visits.
  Reading the index or the diagonal outside panics.
\<close>

definition index_filled :: "(nat list \<Rightarrow> 'a option) \<Rightarrow> 'a array \<Rightarrow> 'a array option" where
  "index_filled f out =
     (let len = length (as_buf out); run = si_run len len (offset_iter out [0, 0, 0] (array_shape out));
          xs = map (\<lambda>(index, _). f index) run
      in if None \<in> set xs then None else Some (put_buf out (write_all_at (as_buf out) (map snd run) (map the xs))))"

definition array_eye :: "'a \<Rightarrow> 'a \<Rightarrow> 'a \<Rightarrow> nat list \<Rightarrow> 'a array option" where
  "array_eye z one zero dims =
     index_filled (\<lambda>index. if length index < 2 then None else Some (if index ! 0 = index ! 1 then one else zero)) (zeroed z (Some dims) dims)"

definition from_diag :: "'a \<Rightarrow> 'a \<Rightarrow> dim_type \<Rightarrow> 'a array \<Rightarrow> 'a array option" where
  "from_diag z zero ty diag =
     Option.bind (get_index (array_shape diag) 0) (\<lambda>n.
       index_filled (\<lambda>index. if length index < 2 then None
                             else if index ! 0 = index ! 1 then get_index (as_buf diag) (index ! 0) else Some zero) (zeroed z ty [n, n]))"

text \<open>The indexes and the elements of \<open>indexed_iter_mut\<close>.\<close>

definition indexed_iter :: "'a array \<Rightarrow> (nat list \<times> 'a) list" where
  "indexed_iter a =
     (let len = length (as_buf a); r = length (array_shape a)
      in map (\<lambda>(index, p). (index, as_buf a ! p)) (si_run len len (offset_iter a (replicate r 0) (array_shape a))))"

text \<open>\<open>map\<close> over the rows; its sizes are sums and its length is the second dimension.\<close>

fun map_loop :: "nat option \<Rightarrow> 'b \<Rightarrow> dim_type \<Rightarrow> 'a \<Rightarrow> dim_type \<Rightarrow> nat list \<Rightarrow> nat \<Rightarrow> ('a array \<Rightarrow> 'b array option) \<Rightarrow>
    nat \<Rightarrow> 'a list list \<Rightarrow> (nat list \<times> 'b array) option \<Rightarrow> (nat list \<times> 'b array) option option" where
  "map_loop rank z' ty z ed elem_dim len func i [] out = Some out"
| "map_loop rank z' ty z ed elem_dim len func i (chunk # chunks) out =
     (let elem = zeroed z ed elem_dim
      in if length (as_buf elem) \<noteq> length chunk then None
         else
           Option.bind (func (put_buf elem chunk)) (\<lambda>new_elem.
           Option.bind (case out of Some r \<Rightarrow> Some r
                        | None \<Rightarrow> map_option (\<lambda>d. (array_shape new_elem, zeroed z' ty d)) (from_len_elem rank len 0 (array_shape new_elem))) (\<lambda>(out_elem_dim, arr).
             (let sz = sum_list out_elem_dim
              in if out_elem_dim \<noteq> array_shape new_elem \<or> length (as_buf arr) < (i + 1) * sz \<or> length (as_buf new_elem) \<noteq> sz then None
                 else map_loop rank z' ty z ed elem_dim len func (i + 1) chunks
                        (Some (out_elem_dim, put_buf arr (splice (i * sz) (as_buf new_elem) (as_buf arr))))))))"

fun chunks_exact :: "nat \<Rightarrow> nat \<Rightarrow> 'a list \<Rightarrow> 'a list list" where
  "chunks_exact n 0 xs = []"
| "chunks_exact n (Suc k) xs = (if length xs < n then [] else take n xs # chunks_exact n k (drop n xs))"

definition array_map :: "'b \<Rightarrow> dim_type \<Rightarrow> 'a \<Rightarrow> dim_type \<Rightarrow> ('a array \<Rightarrow> 'b array option) \<Rightarrow> 'a array \<Rightarrow> 'b array option" where
  "array_map z' ty z ed func a =
     (case array_shape a of
        d0 # d1 # ds \<Rightarrow>
          (let elem_dim = d1 # ds; elem_size = sum_list elem_dim; len = d1
           in if elem_size = 0 then None
              else Option.bind (map_loop (map_option length ty) z' ty z ed elem_dim len func 0
                                 (chunks_exact elem_size (length (as_buf a)) (as_buf a)) None) (map_option snd))
      | _ \<Rightarrow> None)"

definition to_dyn :: "'a array \<Rightarrow> 'a array option" where
  "to_dyn a = map_option DynBuf (from_shape_vec (array_shape a) (as_buf a))"

definition array_view_of :: "'a array \<Rightarrow> 'a array_view" where
  "array_view_of a = \<lparr>av_buf = as_buf a, av_shape = array_shape a\<rparr>"

text \<open>Equality compares the buffers only.\<close>

definition array_eq :: "'a array \<Rightarrow> 'a array \<Rightarrow> bool" where
  "array_eq a b = (as_buf a = as_buf b)"

text \<open>
  \<open>dot\<close>.  The product itself is an external library: \<open>gemm\<close> takes the operands and the
  result as a buffer with its rows and columns, and answers \<open>None\<close> when it rejects them.
\<close>

definition matmul_dims :: "nat list \<Rightarrow> nat list \<Rightarrow> (nat list \<times> nat) option" where
  "matmul_dims a b =
     (case (a, b) of
        ([], _) \<Rightarrow> Some (take 2 (b @ [0, 0]), 2)
      | ([_], [_]) \<Rightarrow> Some ([0, 0], 0)
      | ([a0, a1], [b0]) \<Rightarrow> if a1 \<noteq> b0 then None else Some ([a0, 0], 1)
      | ([a0, a1], [b0, b1]) \<Rightarrow> if a1 \<noteq> b0 then None else Some ([a0, b1], 2)
      | _ \<Rightarrow> None)"

definition array_dot :: "('a list \<times> nat \<times> nat \<Rightarrow> 'a list \<times> nat \<times> nat \<Rightarrow> 'a list \<times> nat \<times> nat \<Rightarrow> 'a list option) \<Rightarrow>
    'a \<Rightarrow> dim_type \<Rightarrow> 'a array \<Rightarrow> 'a array \<Rightarrow> 'a array option" where
  "array_dot gemm z ty a b =
     (let l = array_shape a; r = array_shape b
      in Option.bind (case l of [c] \<Rightarrow> Some (1, c) | [r, c] \<Rightarrow> Some (r, c) | _ \<Rightarrow> None) (\<lambda>(row_left, col_left).
           (let row_right = (if 0 < length r then r ! 0 else 1); col_right = (if 1 < length r then r ! 1 else 1)
            in Option.bind (matmul_dims l r) (\<lambda>(dims, rank).
                 (let dims = take rank dims; out = zeroed z ty dims;
                      rows = (if 0 < length dims then dims ! 0 else 1); cols = (if 1 < length dims then dims ! 1 else 1)
                  in map_option (put_buf out)
                       (gemm (as_buf a, row_left, col_left) (as_buf b, row_right, col_right) (as_buf out, rows, cols)))))))"

text \<open>\<open>try_cholesky_mut\<close>: after the factorization the part above the diagonal is cleared.\<close>

definition clear_upper :: "'a \<Rightarrow> nat \<Rightarrow> 'a list \<Rightarrow> 'a list option" where
  "clear_upper zero n buf =
     (let ps = concat (map (\<lambda>i. map (\<lambda>j. i * n + j) [i + 1..<n]) [0..<n])
      in if list_ex (\<lambda>p. length buf \<le> p) ps then None else Some (write_all_at buf ps (replicate (length ps) zero)))"

definition try_cholesky :: "(nat \<Rightarrow> 'a list \<Rightarrow> (nox_error + 'a list) option) \<Rightarrow> 'a \<Rightarrow> 'a array \<Rightarrow> (nox_error + 'a array) option" where
  "try_cholesky factor zero a =
     Option.bind (get_index (array_shape a) 0) (\<lambda>n.
       Option.bind (factor n (as_buf a)) (\<lambda>r.
         case r of Inl e \<Rightarrow> Some (Inl e)
         | Inr buf \<Rightarrow> map_option (\<lambda>buf. Inr (put_buf a buf)) (clear_upper zero n buf)))"

end
