(* ===== verification/NoxArrayCorrect.thy ===== *)
theory NoxArrayCorrect
  imports NoxArray ValueCorrect
begin

text \<open>
  Correctness of the nox arrays: the strided iterators count in mixed radix, so that the
  operations agree with the element-wise description of broadcasting, transposition,
  concatenation and slicing; and what goes wrong with dynamic dimensions.
\<close>

section \<open>Counting in mixed radix\<close>

fun digits :: "nat list \<Rightarrow> nat \<Rightarrow> nat list" where
  "digits [] k = []"
| "digits (d # ds) k = (k div prod_list ds) # digits ds (k mod prod_list ds)"

lemma length_digits [simp]: "length (digits ds k) = length ds"
  by (induction ds arbitrary: k) auto

lemma digits_bounded: "k < prod_list ds \<Longrightarrow> list_all2 (<) (digits ds k) ds"
proof (induction ds arbitrary: k)
  case (Cons d ds)
  have p: "0 < prod_list ds" using Cons.prems by (auto intro: Nat.gr0I)
  have "k div prod_list ds < d" using Cons.prems by (simp add: less_mult_imp_div_less)
  moreover have "list_all2 (<) (digits ds (k mod prod_list ds)) ds" using Cons.IH p by simp
  ultimately show ?case by simp
qed simp

lemma row_major_digits: "k < prod_list ds \<Longrightarrow> row_major ds (digits ds k) = k"
proof (induction ds arbitrary: k)
  case (Cons d ds)
  have p: "0 < prod_list ds" using Cons.prems by (auto intro: Nat.gr0I)
  have "row_major ds (digits ds (k mod prod_list ds)) = k mod prod_list ds" using Cons.IH p by simp
  then show ?case by simp
qed simp

lemma digits_row_major: "list_all2 (<) index ds \<Longrightarrow> digits ds (row_major ds index) = index"
proof (induction rule: list_all2_induct)
  case (Cons i js d ds)
  have lt: "row_major ds js < prod_list ds" using Cons.hyps(2) by (rule row_major_less)
  then have "(i * prod_list ds + row_major ds js) div prod_list ds = i"
    "(i * prod_list ds + row_major ds js) mod prod_list ds = row_major ds js" by simp_all
  then show ?case using Cons.IH by simp
qed simp

lemma digits_0: "digits ds 0 = replicate (length ds) 0"
  by (induction ds) auto

text \<open>A step of the iterator is the successor, and the carry out of the first axis the wrap.\<close>

lemma bump_digits:
  assumes "length offs = length ds" "k < prod_list ds"
  shows "bump ds (map2 (+) offs (digits ds k)) (offs @ more') =
    (Suc k = prod_list ds, map2 (+) offs (digits ds (Suc k mod prod_list ds)))"
  using assms
proof (induction ds arbitrary: k offs)
  case (Cons d ds)
  obtain off offs' where o: "offs = off # offs'" "length offs' = length ds" using Cons.prems(1) by (cases offs) auto
  let ?P = "prod_list ds" let ?q = "k div ?P" and ?r = "k mod ?P"
  have p: "0 < ?P" using Cons.prems(2) by (auto intro: Nat.gr0I)
  have r: "?r < ?P" using p by simp
  have q: "?q < d" using Cons.prems(2) by (simp add: less_mult_imp_div_less)
  have k: "k = ?q * ?P + ?r" by simp
  have ih: "bump ds (map2 (+) offs' (digits ds ?r)) (offs' @ more') =
    (Suc ?r = ?P, map2 (+) offs' (digits ds (Suc ?r mod ?P)))"
    by (rule Cons.IH [OF o(2) r])
  show ?case
  proof (cases "Suc ?r = ?P")
    case True
    have s: "Suc k = Suc ?q * ?P" using k True by (metis add_Suc_right add.commute mult_Suc)
    show ?thesis
    proof (cases "Suc ?q = d")
      case True
      then have "Suc k = d * ?P" using s by simp
      then show ?thesis using ih True \<open>Suc ?r = ?P\<close> p by (simp add: o(1) digits_0)
    next
      case False
      then have lt: "Suc ?q < d" using q by simp
      then have "Suc k < d * ?P" using s p mult_less_mono1 [OF lt p] by simp
      then have m: "Suc k mod (d * ?P) = Suc k" by simp
      moreover have "Suc k div ?P = Suc ?q" "Suc k mod ?P = 0" using s p by simp_all
      ultimately show ?thesis using ih True lt s \<open>Suc k < d * ?P\<close> by (simp add: o(1))
    qed
  next
    case False
    then have lt: "Suc ?r < ?P" using r by simp
    have s: "Suc k = ?q * ?P + Suc ?r" using k by simp
    have "Suc k div ?P = ?q" "Suc k mod ?P = Suc ?r"
      unfolding s using lt by (simp_all add: div_mult_self3 del: add_Suc_right)
    moreover have "Suc k < Suc ?q * ?P" using s lt unfolding mult_Suc by linarith
    then have "Suc k < d * ?P" using q by (meson Suc_leI less_le_trans mult_le_mono1)
    ultimately show ?thesis using ih False lt q by (simp add: o(1))
  qed
qed simp



lemma map2_add_zero: "length xs = n \<Longrightarrow> map2 (+) xs (replicate n 0) = xs" for xs :: "nat list"
  by (induction xs arbitrary: n) auto

lemma map2_zero_add: "length xs = n \<Longrightarrow> map2 (+) (replicate n 0) xs = xs" for xs :: "nat list"
  by (induction xs arbitrary: n) auto

lemma sum_lead_zero:
  "sum_list (map2 (*) index (replicate n 0 @ st)) = sum_list (map2 (*) (drop n index) (drop n (replicate n 0 @ st)))"
  for index :: "nat list"
proof (induction n arbitrary: index)
  case (Suc n)
  then show ?case by (cases index) auto
qed simp

text \<open>
  The iterator after \<open>k\<close> steps: its index is the offsets plus the digits of \<open>k\<close>, and the
  counter wraps at the end.
\<close>

definition si_at :: "nat list \<Rightarrow> nat list \<Rightarrow> nat \<Rightarrow> nat list" where
  "si_at offs dims k = map2 (+) offs (digits dims (k mod prod_list dims))"

definition si_pos :: "nat list \<Rightarrow> nat list \<Rightarrow> nat list \<Rightarrow> nat \<Rightarrow> nat" where
  "si_pos stride offs dims k = sum_list (map2 (*) (si_at offs dims k) stride)"

lemma length_si_at [simp]: "length offs = length dims \<Longrightarrow> length (si_at offs dims k) = length dims"
  by (simp add: si_at_def)

lemma bump_si_at:
  assumes "length offs = length dims" "0 < prod_list dims"
  shows "snd (bump dims (si_at offs dims k) (offs @ more')) = si_at offs dims (Suc k)"
  using bump_digits [OF assms(1), of "k mod prod_list dims" more'] assms(2)
  by (simp add: si_at_def mod_Suc_eq)

lemma length_si_run: "length (si_run len n it) \<le> n"
  by (induction len n it rule: si_run.induct) (simp_all split: prod.splits)

lemma si_run_bumped:
  assumes "length offs = length dims" "0 < prod_list dims"
    "si_dims it = dims" "si_offsets it = offs @ more'" "si_bump it" "si_index it = si_at offs dims k"
  shows "si_run len n it = map (\<lambda>j. (si_at offs dims j, si_pos (si_stride it) offs dims j))
    (takeWhile (\<lambda>j. si_pos (si_stride it) offs dims j < len) [Suc k..<Suc k + n])"
  using assms(3-)
proof (induction n arbitrary: k it)
  case (Suc n)
  let ?it = "it\<lparr>si_index := si_at offs dims (Suc k), si_bump := True\<rparr>"
  have st: "si_step it = (si_pos (si_stride it) offs dims (Suc k), ?it)"
    using Suc.prems(1-4) by (simp add: si_step_def bump_si_at [OF assms(1,2)] si_pos_def Let_def)
  have "si_run len n ?it = map (\<lambda>j. (si_at offs dims j, si_pos (si_stride ?it) offs dims j))
      (takeWhile (\<lambda>j. si_pos (si_stride ?it) offs dims j < len) [Suc (Suc k)..<Suc (Suc k) + n])"
    by (rule Suc.IH) (use Suc.prems in simp_all)
  moreover have "[Suc k..<Suc k + Suc n] = Suc k # [Suc (Suc k)..<Suc (Suc k) + n]" by (simp add: upt_conv_Cons)
  ultimately show ?case using st by simp
qed simp

lemma si_run_from:
  assumes "length offs = length dims" "0 < prod_list dims"
    "si_dims it = dims" "si_offsets it = offs @ more'" "\<not> si_bump it" "si_index it = offs"
  shows "si_run len n it = map (\<lambda>j. (si_at offs dims j, si_pos (si_stride it) offs dims j))
    (takeWhile (\<lambda>j. si_pos (si_stride it) offs dims j < len) [0..<n])"
proof (cases n)
  case (Suc m)
  let ?it = "it\<lparr>si_bump := True\<rparr>"
  have z: "si_at offs dims 0 = offs" using assms(1) by (simp add: si_at_def digits_0 map2_add_zero)
  have st: "si_step it = (si_pos (si_stride it) offs dims 0, ?it)"
    using assms(5,6) by (cases it) (simp add: si_step_def si_pos_def z)
  have "si_run len m ?it = map (\<lambda>j. (si_at offs dims j, si_pos (si_stride ?it) offs dims j))
      (takeWhile (\<lambda>j. si_pos (si_stride ?it) offs dims j < len) [Suc 0..<Suc 0 + m])"
    by (rule si_run_bumped [OF assms(1,2)]) (use assms z in simp_all)
  moreover have "[0..<n] = 0 # [Suc 0..<Suc 0 + m]" using Suc by (simp add: upt_conv_Cons)
  ultimately show ?thesis using st Suc z assms(6) by simp
qed simp

text \<open>A run from the start that stays within the buffer.\<close>

lemma si_run_start:
  assumes "length offs = length dims" "0 < prod_list dims"
    "si_dims it = dims" "si_offsets it = offs @ more'" "\<not> si_bump it" "si_index it = offs"
    "\<And>j. j < n \<Longrightarrow> si_pos (si_stride it) offs dims j < len"
  shows "si_run len n it = map (\<lambda>j. (si_at offs dims j, si_pos (si_stride it) offs dims j)) [0..<n]"
proof -
  have "takeWhile (\<lambda>j. si_pos (si_stride it) offs dims j < len) [0..<n] = [0..<n]"
    using assms(7) by (simp add: takeWhile_eq_all_conv)
  then show ?thesis by (simp only: si_run_from [OF assms(1-6)])
qed

section \<open>Well-formed arrays\<close>

definition arr_ok :: "'a array \<Rightarrow> bool" where
  "arr_ok a \<longleftrightarrow> length (as_buf a) = prod_list (array_shape a) \<and>
     (case a of Plain dims _ \<Rightarrow> length dims \<le> 3 \<and> (length dims = 3 \<longrightarrow> dims ! 1 = dims ! 2 \<or> dims ! 1 = 1)
      | DynBuf d \<Rightarrow> da_strides d = calculate_strides (da_shape d) \<and> prod_list (da_shape d) < 2 ^ 64)"

lemma arr_ok_Plain [simp]: "arr_ok (Plain dims buf) \<longleftrightarrow>
    length buf = prod_list dims \<and> length dims \<le> 3 \<and> (length dims = 3 \<longrightarrow> dims ! 1 = dims ! 2 \<or> dims ! 1 = 1)"
  by (auto simp: arr_ok_def)

lemma arr_ok_length: "arr_ok a \<Longrightarrow> length (as_buf a) = prod_list (array_shape a)"
  by (simp add: arr_ok_def)

lemma rank_cases:
  assumes "length dims \<le> 3"
  obtains "dims = []" | d where "dims = [d]" | d e where "dims = [d, e]" | d e f where "dims = [d, e, f]"
proof -
  consider "length dims = 0" | "length dims = Suc 0" | "length dims = Suc (Suc 0)" | "length dims = Suc (Suc (Suc 0))"
    using assms by linarith
  then show thesis by cases (use that in \<open>auto simp: length_Suc_conv\<close>)
qed

lemma length_calculate_strides [simp]: "length (calculate_strides shape) = length shape"
  by (induction shape) (simp_all add: calculate_strides_Cons)

lemma length_array_strides: "arr_ok a \<Longrightarrow> length (array_strides a) = length (array_shape a)"
  by (cases a) (auto simp: arr_ok_def elim: rank_cases)

lemma const_strides_row_major:
  "length dims \<le> 3 \<Longrightarrow> (length dims = 3 \<longrightarrow> dims ! 1 = dims ! 2 \<or> dims ! 1 = 1) \<Longrightarrow> list_all2 (<) index dims \<Longrightarrow>
    sum_list (map2 (*) index (const_strides dims)) = row_major dims index"
  by (erule rank_cases) (auto simp: list_all2_Cons2)

lemma calculate_strides_exact:
  assumes "list_all2 (<) index shape" "prod_list shape < 2 ^ 64"
  shows "sum_list (map2 (*) index (calculate_strides shape)) = row_major shape index"
  using assms
proof (induction rule: list_all2_induct)
  case (Cons i js d ds)
  have "0 < d" using Cons.hyps(1) by simp
  then have "prod_list ds \<le> prod_list (d # ds)" by simp
  from this Cons.prems have p: "prod_list ds < 2 ^ 64" by (rule le_less_trans)
  then show ?case using Cons.IH by (simp add: calculate_strides_Cons)
qed simp

text \<open>The position of an index in a well-formed array.\<close>

lemma strides_row_major:
  assumes "arr_ok a" "list_all2 (<) index (array_shape a)"
  shows "sum_list (map2 (*) index (array_strides a)) = row_major (array_shape a) index"
proof (cases a)
  case (Plain dims buf)
  then show ?thesis using assms by (simp add: const_strides_row_major list_all2_lengthD)
next
  case (DynBuf d)
  then show ?thesis using assms by (simp add: arr_ok_def calculate_strides_exact)
qed

lemma si_take_start:
  assumes "length offs = length dims" "0 < prod_list dims"
    "si_dims it = dims" "si_offsets it = offs @ more'" "\<not> si_bump it" "si_index it = offs"
    "\<And>j. j < n \<Longrightarrow> si_pos (si_stride it) offs dims j < length buf"
  shows "si_take n buf it = map (\<lambda>j. buf ! si_pos (si_stride it) offs dims j) [0..<n]"
  by (simp add: si_take_def si_run_start [OF assms])

lemma length_fill_from [simp]: "length xs \<le> length (as_buf out) \<Longrightarrow> as_buf (fill_from out xs) = xs @ drop (length xs) (as_buf out)"
  by (cases out) (simp_all add: fill_from_def)

lemma fill_from_Plain: "length xs = length buf \<Longrightarrow> fill_from (Plain dims buf) xs = Plain dims xs"
  by (simp add: fill_from_def)

section \<open>Broadcasting\<close>

text \<open>
  The element-wise description: shapes are aligned at their last axis, missing axes count as
  one, and an axis of one repeats its element.
\<close>

definition pad :: "nat \<Rightarrow> nat list \<Rightarrow> nat list" where
  "pad n xs = replicate (n - length xs) 1 @ xs"

definition broadcast_shapes :: "nat list \<Rightarrow> nat list \<Rightarrow> nat list option" where
  "broadcast_shapes a b =
     (let n = max (length a) (length b); ps = zip (pad n a) (pad n b)
      in if list_all (\<lambda>(x, y). x = y \<or> x = 1 \<or> y = 1) ps then Some (map (\<lambda>(x, y). if x = 1 then y else x) ps) else None)"

definition clip :: "nat list \<Rightarrow> nat list \<Rightarrow> nat list" where
  "clip shape index = map2 (\<lambda>d i. if d = 1 then 0 else i) shape (drop (length index - length shape) index)"

definition element_at :: "'a array \<Rightarrow> nat list \<Rightarrow> 'a" where
  "element_at a index = as_buf a ! row_major (array_shape a) (clip (array_shape a) index)"

definition bcast_to :: "nat list \<Rightarrow> nat list \<Rightarrow> bool" where
  "bcast_to shape dims \<longleftrightarrow> length shape \<le> length dims \<and>
     list_all2 (\<lambda>d n. d = n \<or> d = 1) shape (drop (length dims - length shape) dims)"

lemma restride_rev_spec:
  assumes "length ds \<le> length ns" "list_all2 (\<lambda>(d, _) n. d = n \<or> d = 1) ds (take (length ds) ns)"
  shows "restride_rev ds ns = Some (map2 (\<lambda>(d, s) n. if d = n then s else 0) ds (take (length ds) ns) @ drop (length ds) ns)"
  using assms
proof (induction ds ns rule: restride_rev.induct)
  case (1 dim stride ds n ns)
  then show ?case by auto
qed auto

lemma rev_take_drop: "k \<le> length xs \<Longrightarrow> take k (rev xs) = rev (drop (length xs - k) xs)"
  by (simp add: take_rev)

text \<open>The iterator of a broadcast: leading axes and repeated ones do not move.\<close>

lemma broadcast_iter_ok:
  assumes "arr_ok a" "bcast_to (array_shape a) dims"
  defines "lead \<equiv> length dims - length (array_shape a)"
  shows "broadcast_iter a dims = Some (Some
    \<lparr>si_stride = replicate lead 0 @ map2 (\<lambda>(d, s) n. if d = n then s else 0) (zip (array_shape a) (array_strides a)) (drop lead dims),
     si_index = replicate (length dims) 0, si_dims = dims, si_offsets = replicate (length dims) 0, si_bump = False\<rparr>)"
proof -
  let ?s = "array_shape a" and ?t = "array_strides a"
  have lt: "length ?t = length ?s" using assms(1) by (rule length_array_strides)
  have le: "length ?s \<le> length dims" and al: "list_all2 (\<lambda>d n. d = n \<or> d = 1) ?s (drop lead dims)"
    using assms(2) by (simp_all add: bcast_to_def lead_def)
  have z: "zip (rev ?s @ replicate (length ?t) 1) (rev ?t) = rev (zip ?s ?t)" using lt by (simp add: zip_append1 zip_rev)
  let ?m = "map2 (\<lambda>(d, s) n. if d = n then s else 0) (zip ?s ?t) (drop lead dims)"
  have tk: "take (length ?s) (rev dims) = rev (drop lead dims)" using le by (simp add: rev_take_drop lead_def)
  have ld: "length (zip ?s ?t) = length (drop lead dims)" using lt le by (simp add: lead_def)
  have "restride_rev (rev (zip ?s ?t)) (rev dims) =
    Some (map2 (\<lambda>(d, s) n. if d = n then s else 0) (rev (zip ?s ?t)) (take (length (rev (zip ?s ?t))) (rev dims)) @ drop (length (rev (zip ?s ?t))) (rev dims))"
  proof (rule restride_rev_spec)
    show "list_all2 (\<lambda>(d, _) n. d = n \<or> d = 1) (rev (zip ?s ?t)) (take (length (rev (zip ?s ?t))) (rev dims))"
    proof -
      have "list_all2 (\<lambda>(d, _) n. d = n \<or> d = 1) (zip ?s ?t) (drop lead dims)"
        using al lt by (auto simp: list_all2_conv_all_nth)
      then show ?thesis using lt tk by simp
    qed
  qed (use lt le in simp)
  also have "\<dots> = Some (rev ?m @ rev (take lead dims))"
    using lt tk ld le by (simp add: zip_rev rev_map drop_rev lead_def)
  finally show ?thesis
    using le z lt by (simp add: broadcast_iter_def Let_def lead_def)
qed

lemma restrided_position:
  assumes "list_all2 (\<lambda>d n. d = n \<or> d = 1) shape ns" "list_all2 (<) index ns" "length strides = length shape"
  shows "sum_list (map2 (*) index (map2 (\<lambda>(d, s) n. if d = n then s else 0) (zip shape strides) ns)) =
    sum_list (map2 (*) (map2 (\<lambda>d i. if d = (1 :: nat) then 0 else i) shape index) strides)"
  using assms
proof (induction shape arbitrary: ns index strides)
  case (Cons d shape)
  obtain n ns' where n: "ns = n # ns'" "d = n \<or> d = 1" "list_all2 (\<lambda>d n. d = n \<or> d = 1) shape ns'"
    using Cons.prems(1) by (auto simp: list_all2_Cons1)
  obtain i js where i: "index = i # js" "i < n" "list_all2 (<) js ns'" using Cons.prems(2) n(1) by (auto simp: list_all2_Cons2)
  obtain s ss where "strides = s # ss" "length ss = length shape" using Cons.prems(3) by (cases strides) auto
  then show ?case using Cons.IH [OF n(3) i(3)] n i by auto
qed simp

lemma clip_bounded:
  assumes "bcast_to shape dims" "list_all2 (<) index dims"
  shows "list_all2 (<) (clip shape index) shape"
proof -
  have l: "length index = length dims" using assms(2) by (rule list_all2_lengthD)
  let ?n = "length dims - length shape"
  have "list_all2 (<) (drop ?n index) (drop ?n dims)" using assms(2) by (rule list_all2_dropI)
  then show ?thesis using assms(1) l by (fastforce simp: bcast_to_def clip_def list_all2_conv_all_nth)
qed

text \<open>The items of a broadcast: the element at every index, in row-major order.\<close>

lemma broadcast_items_ok:
  assumes "arr_ok a" "bcast_to (array_shape a) dims" "n \<le> prod_list dims"
  shows "broadcast_items n a dims = Some (map (\<lambda>k. element_at a (digits dims k)) [0..<n])"
proof (cases "n = 0")
  case True
  then show ?thesis by (simp add: broadcast_items_def broadcast_iter_ok [OF assms(1,2)] si_take_def)
next
  case False
  let ?s = "array_shape a" and ?lead = "length dims - length (array_shape a)"
  let ?st = "replicate ?lead 0 @ map2 (\<lambda>(d, s) n. if d = n then s else 0) (zip ?s (array_strides a)) (drop ?lead dims)"
  have pos: "si_pos ?st (replicate (length dims) 0) dims k = row_major ?s (clip ?s (digits dims k)) \<and>
      row_major ?s (clip ?s (digits dims k)) < length (as_buf a)" if "k < n" for k
  proof -
    let ?i = "digits dims k"
    have b: "list_all2 (<) ?i dims" using digits_bounded that assms(3) by simp
    have at: "si_at (replicate (length dims) 0) dims k = ?i" using that assms(3) by (simp add: si_at_def map2_zero_add)
    have "list_all2 (<) (drop ?lead ?i) (drop ?lead dims)" using b by (rule list_all2_dropI)
    then have "sum_list (map2 (*) (drop ?lead ?i) (map2 (\<lambda>(d, s) n. if d = n then s else 0) (zip ?s (array_strides a)) (drop ?lead dims))) =
        sum_list (map2 (*) (clip ?s ?i) (array_strides a))"
      using restrided_position [of ?s "drop ?lead dims" "drop ?lead ?i" "array_strides a"] assms(2)
      by (simp add: bcast_to_def clip_def length_array_strides [OF assms(1)])
    moreover have "sum_list (map2 (*) ?i ?st) = sum_list (map2 (*) (drop ?lead ?i) (drop ?lead ?st))"
      by (rule sum_lead_zero)
    ultimately have "si_pos ?st (replicate (length dims) 0) dims k = row_major ?s (clip ?s ?i)"
      using strides_row_major [OF assms(1) clip_bounded [OF assms(2) b]] by (simp add: si_pos_def at)
    then show ?thesis using row_major_less [OF clip_bounded [OF assms(2) b]] arr_ok_length [OF assms(1)] by simp
  qed
  have "0 < prod_list dims" using False assms(3) by simp
  then show ?thesis
    using pos by (simp add: broadcast_items_def broadcast_iter_ok [OF assms(1,2)] element_at_def
        si_take_start [where offs = "replicate (length dims) 0" and dims = dims and more' = "[]"])
qed

abbreviation joined :: "nat \<times> nat \<Rightarrow> nat" where
  "joined \<equiv> \<lambda>(x, y). if x = 1 then y else x"

abbreviation joinable :: "nat \<times> nat \<Rightarrow> bool" where
  "joinable \<equiv> \<lambda>(x, y). x = y \<or> x = 1 \<or> y = 1"

lemma cobroadcast_rev_spec:
  assumes "length xs \<le> length ds"
  defines "ps \<equiv> zip ds (xs @ replicate (length ds - length xs) 1)"
  shows "cobroadcast_rev ds xs = (if list_all joinable ps then Some (map joined ps) else None)"
  using assms(1) unfolding ps_def
proof (induction xs arbitrary: ds)
  case Nil
  have "map joined (zip ds (replicate (length ds) 1)) = ds" "list_all joinable (zip ds (replicate (length ds) 1))"
    by (induction ds) auto
  then show ?case by (cases ds) simp_all
next
  case (Cons x xs)
  then obtain d ds' where "ds = d # ds'" by (cases ds) auto
  then show ?case using Cons by auto
qed

lemma cobroadcast_dims_spec:
  assumes "length other \<le> length output"
  shows "cobroadcast_dims output other = broadcast_shapes output other"
    "cobroadcast_dims output other = broadcast_shapes other output"
proof -
  let ?n = "length output" let ?o = "pad ?n other"
  have p: "pad ?n output = output" by (simp add: pad_def)
  have "zip (rev output) (rev other @ replicate (length (rev output) - length (rev other)) 1) = rev (zip output ?o)"
    using assms by (simp add: pad_def zip_rev [symmetric])
  then have c: "cobroadcast_dims output other =
      (if list_all joinable (zip output ?o) then Some (map joined (zip output ?o)) else None)"
    using assms by (simp add: cobroadcast_dims_def cobroadcast_rev_spec rev_map)
  then show "cobroadcast_dims output other = broadcast_shapes output other"
    using assms by (simp add: broadcast_shapes_def p max_absorb1 Let_def)
  have "list_all joinable (zip ?o output) = list_all joinable (zip output ?o)"
    "list_all joinable (zip output ?o) \<Longrightarrow> map joined (zip ?o output) = map joined (zip output ?o)"
    by (auto simp: list_all_length intro!: nth_equalityI)
  then show "cobroadcast_dims output other = broadcast_shapes other output"
    using assms c by (simp add: broadcast_shapes_def p max_absorb2 Let_def)
qed

lemma broadcast_shapes_bcast:
  assumes "broadcast_shapes a b = Some s"
  shows "bcast_to a s" "bcast_to b s"
proof -
  let ?n = "max (length a) (length b)"
  have s: "s = map joined (zip (pad ?n a) (pad ?n b))" and al: "list_all joinable (zip (pad ?n a) (pad ?n b))"
    using assms by (simp_all add: broadcast_shapes_def Let_def split: if_splits)
  have l: "length (pad ?n a) = ?n" "length (pad ?n b) = ?n" by (simp_all add: pad_def)
  have j: "joinable (pad ?n a ! i, pad ?n b ! i)" "s ! i = joined (pad ?n a ! i, pad ?n b ! i)" if "i < ?n" for i
    using al l that by (simp_all add: list_all_length s)
  have n: "pad ?n a ! (?n - length a + i) = a ! i" "pad ?n b ! (?n - length b + i) = b ! i" for i
    using nth_append_length_plus [of "replicate (?n - length a) 1" a i] nth_append_length_plus [of "replicate (?n - length b) 1" b i]
    by (simp_all add: pad_def)
  have ls: "length s = ?n" using l by (simp add: s)
  show "bcast_to a s"
    unfolding bcast_to_def list_all2_conv_all_nth
  proof (intro conjI allI impI)
    fix i assume "i < length a"
    then show "a ! i = drop (length s - length a) s ! i \<or> a ! i = 1"
      using j [of "?n - length a + i"] n ls by (auto split: if_splits)
  qed (use ls in auto)
  show "bcast_to b s"
    unfolding bcast_to_def list_all2_conv_all_nth
  proof (intro conjI allI impI)
    fix i assume "i < length b"
    then show "b ! i = drop (length s - length b) s ! i \<or> b ! i = 1"
      using j [of "?n - length b + i"] n ls by (auto split: if_splits)
  qed (use ls in auto)
qed

text \<open>The result type of the type checker is the broadcast of the constants.\<close>

lemma const_dims_iff: "const_dims d = Some s \<longleftrightarrow> d = map Some s"
proof (cases "None \<in> set d")
  case False
  then have "map (Some \<circ> the) d = d" by (intro map_idI) (metis comp_apply option.collapse)
  then show ?thesis by (auto simp: const_dims_def)
qed (auto simp: const_dims_def)

lemma base_broadcasted_all_const:
  "length s1 = length s2 \<Longrightarrow> base_broadcasted_all (map Some s1) (map Some s2) = Some t \<Longrightarrow>
     list_all joinable (zip s1 s2) \<and> t = map Some (map joined (zip s1 s2))"
proof (induction s1 s2 arbitrary: t rule: list_induct2)
  case (Cons x xs y ys)
  then show ?case by (auto split: option.splits if_splits)
qed simp

lemma broadcasted_dim_const:
  assumes "broadcasted_dim (map Some s1) (map Some s2) = Some t" "length s1 \<le> 3" "length s2 \<le> 3"
  shows "\<exists>s. t = map Some s \<and> broadcast_shapes s1 s2 = Some s"
proof -
  have same: ?thesis if "length s1 = length s2" "base_broadcasted_all (map Some s1) (map Some s2) = Some t"
    using base_broadcasted_all_const [OF that] that(1) by (simp add: broadcast_shapes_def pad_def Let_def)
  have none: "list_all joinable (zip (replicate (length xs) 1) xs) \<and> map joined (zip (replicate (length xs) 1) xs) = xs \<and>
      list_all joinable (zip xs (replicate (length xs) 1)) \<and> map joined (zip xs (replicate (length xs) 1)) = xs" for xs
    by (induction xs) auto
  from assms(2) assms(3) show ?thesis
    by (cases rule: rank_cases [case_product rank_cases])
      (use assms(1) same none [of s1] none [of s2] in
        \<open>auto simp: broadcasted_dim_def broadcast_shapes_def pad_def Let_def split: if_splits\<close>)
qed


text \<open>Element-wise operators on arrays with constant dimensions.\<close>

lemma map2_map_same: "map2 f (map g xs) (map h xs) = map (\<lambda>k. f (g k) (h k)) xs"
  by (induction xs) auto

lemma array_op_ok:
  assumes "arr_ok a" "arr_ok b" "broadcast_shapes (array_shape a) (array_shape b) = Some s"
  shows "array_op f z (Some s) a b =
    Some (Plain s (map (\<lambda>k. f (element_at a (digits s k)) (element_at b (digits s k))) [0..<prod_list s]))"
proof -
  note bc = broadcast_shapes_bcast [OF assms(3)]
  note items = broadcast_items_ok [OF assms(1) bc(1)] broadcast_items_ok [OF assms(2) bc(2)]
  show ?thesis
  proof (cases "length (array_shape a) \<le> length (array_shape b)")
    case True
    then show ?thesis using assms(3) items
      by (simp add: array_op_def cobroadcast_dims_spec(2) map2_map_same fill_from_Plain)
  next
    case False
    then have "length (array_shape b) \<le> length (array_shape a)" by simp
    then show ?thesis using assms(3) items False
      by (simp add: array_op_def cobroadcast_dims_spec(1) map2_map_same fill_from_Plain)
  qed
qed




section \<open>Three constant axes\<close>

text \<open>
  The strides of a type with three constant axes take the second dimension for the third, so
  that the index \<open>[0, 1, 0]\<close> is read at the second dimension.
\<close>

lemma keep_left: "map2 (\<lambda>x y. x) xs xs = xs"
  by (induction xs) auto

lemma three_axes_first:
  assumes "length b = d1 * d2 * d3" "0 < d1" "1 < d2" "0 < d3"
    "array_op (\<lambda>x y. x) 0 (Some [d1, d2, d3]) (Plain [d1, d2, d3] b) (Plain [d1, d2, d3] b) = Some (Plain [d1, d2, d3] c)"
    "\<forall>x \<in> set b. x \<noteq> (0 :: nat)" "distinct b" "c = b"
  shows "d2 = d3"
proof (rule ccontr)
  assume ne: "d2 \<noteq> d3"
  let ?n = "d1 * (d2 * d3)" let ?dims = "[d1, d2, d3]" let ?st = "[d3 * d2, d2, 1]"
  let ?it = "\<lparr>si_stride = ?st, si_index = [0, 0, 0], si_dims = ?dims, si_offsets = [0, 0, 0], si_bump = False\<rparr>"
  have co: "cobroadcast_dims ?dims ?dims = Some ?dims" by (simp add: cobroadcast_dims_def)
  have n: "d3 < ?n" using assms(2,3,4)
  proof -
    have "d3 * 1 < d3 * d2" using assms(3,4) by (intro mult_strict_left_mono) auto
    also have "\<dots> \<le> ?n" using assms(2) by (simp add: mult.commute)
    finally show ?thesis by simp
  qed
  have bi: "broadcast_items ?n (Plain ?dims b) ?dims = Some (si_take ?n b ?it)"
    by (simp add: broadcast_items_def broadcast_iter_def Let_def)
  define xs where "xs = si_take ?n b ?it"
  have lx: "length xs \<le> ?n" by (simp add: xs_def si_take_def length_si_run)
  have c: "c = xs @ drop (length xs) (replicate ?n 0)"
    using assms(5) lx by (simp add: array_op_def co bi fill_from_def xs_def Let_def keep_left)
  have lb: "length b = ?n" using assms(1) by simp
  show False
  proof (cases "d3 < length xs")
    case False
    then have "d3 - length xs < ?n - length xs" using n by linarith
    then have "c ! d3 = 0" using c False nth_replicate [of "d3 - length xs" "?n - length xs" "0 :: nat"] by (simp add: nth_append)
    then show False using assms(6,8) n lb by (metis nth_mem)
  next
    case True
    let ?P = "\<lambda>j. si_pos ?st [0, 0, 0] ?dims j < length b"
    have run: "si_run (length b) ?n ?it = map (\<lambda>j. (si_at [0, 0, 0] ?dims j, si_pos ?st [0, 0, 0] ?dims j)) (takeWhile ?P [0..<?n])"
      using si_run_from [of "[0, 0, 0]" ?dims ?it "[]" "length b" ?n] assms(2-4) by simp
    have lt: "d3 < length (takeWhile ?P [0..<?n])" using True run by (simp add: xs_def si_take_def)
    then have nt: "takeWhile ?P [0..<?n] ! d3 = d3" using n by (simp add: takeWhile_nth)
    have pos: "si_pos ?st [0, 0, 0] ?dims d3 = d2"
      using n assms(3,4) by (simp add: si_pos_def si_at_def div_less mod_less)
    have "d2 < length b" using nth_mem [OF lt] nt pos by (metis (mono_tags, lifting) set_takeWhileD)
    moreover have "xs ! d3 = b ! d2" using True run nt pos lt by (simp add: xs_def si_take_def)
    then have "b ! d3 = b ! d2" using c True assms(8) by (simp add: nth_append)
    ultimately show False using ne n lb assms(7) by (simp add: nth_eq_iff_index_eq)
  qed
qed


lemma clip_same: "list_all2 (<) index dims \<Longrightarrow> clip dims index = index"
  by (auto simp: clip_def list_all2_conv_all_nth intro!: nth_equalityI)

lemma broadcast_same: "broadcast_shapes s s = Some s"
proof -
  have "list_all joinable (zip s s)" "map joined (zip s s) = s" by (induction s) auto
  then show ?thesis by (simp add: broadcast_shapes_def pad_def Let_def)
qed

text \<open>C27. Arrays with three constant axes are read with wrong strides: over arrays of shape
  \<open>d1 * d2 * d3\<close> an element-wise operator is right (the one that keeps its left operand gives
  it back) for all contents exactly when the second dimension is one or equals the third.\<close>

theorem three_axes_iff:
  assumes "0 < d1" "0 < d2" "0 < d3"
  shows "(\<forall>b. length b = d1 * d2 * d3 \<longrightarrow>
      array_op (\<lambda>x y. x) 0 (Some [d1, d2, d3]) (Plain [d1, d2, d3] b) (Plain [d1, d2, d3] b) = Some (Plain [d1, d2, d3] (b :: nat list)))
    \<longleftrightarrow> d2 = d3 \<or> d2 = 1"
proof
  let ?dims = "[d1, d2, d3]"
  assume right: "\<forall>b. length b = d1 * d2 * d3 \<longrightarrow>
      array_op (\<lambda>x y. x) 0 (Some ?dims) (Plain ?dims b) (Plain ?dims b) = Some (Plain ?dims (b :: nat list))"
  let ?b = "[1..<Suc (d1 * d2 * d3)]"
  have "array_op (\<lambda>x y. x) 0 (Some ?dims) (Plain ?dims ?b) (Plain ?dims ?b) = Some (Plain ?dims ?b)"
    by (rule right [rule_format]) (simp del: upt_Suc)
  moreover have "\<forall>x \<in> set ?b. x \<noteq> 0" "distinct ?b" by auto
  ultimately show "d2 = d3 \<or> d2 = 1"
    using three_axes_first [of ?b d1 d2 d3 ?b] assms by (cases "d2 = 1") auto
next
  let ?dims = "[d1, d2, d3]"
  assume d: "d2 = d3 \<or> d2 = 1"
  show "\<forall>b. length b = d1 * d2 * d3 \<longrightarrow>
      array_op (\<lambda>x y. x) 0 (Some ?dims) (Plain ?dims b) (Plain ?dims b) = Some (Plain ?dims (b :: nat list))"
  proof (intro allI impI)
    fix b :: "nat list" assume l: "length b = d1 * d2 * d3"
    have ok: "arr_ok (Plain ?dims b)" using d l by simp
    have "element_at (Plain ?dims b) (digits ?dims k) = b ! k" if "k < prod_list ?dims" for k
      unfolding element_at_def as_buf.simps array_shape.simps clip_same [OF digits_bounded [OF that]] row_major_digits [OF that] ..
    then have "map (\<lambda>k. element_at (Plain ?dims b) (digits ?dims k)) [0..<prod_list ?dims] = map ((!) b) [0..<length b]"
      using l by (intro map_cong) (auto simp: mult.assoc)
    then show "array_op (\<lambda>x y. x) 0 (Some ?dims) (Plain ?dims b) (Plain ?dims b) = Some (Plain ?dims b)"
      using array_op_ok [OF ok ok, of ?dims "\<lambda>x y. x" 0] by (simp only: broadcast_same array_shape.simps map_nth simp_thms)
  qed
qed

lemma three_axes_iff_witness:
  "\<not> (\<forall>b. length b = 12 \<longrightarrow>
      array_op (\<lambda>x y. x) 0 (Some [2, 2, 3]) (Plain [2, 2, 3] b) (Plain [2, 2, 3] b) = Some (Plain [2, 2, 3] (b :: nat list)))"
  using three_axes_iff [of 2 2 3] by simp


section \<open>Transposition\<close>

lemma array_transpose_ok:
  assumes "arr_ok a" "array_shape a = [r, c]"
  shows "array_transpose z (Some [c, r]) a =
    Some (Plain [c, r] (map (\<lambda>k. as_buf a ! row_major [r, c] [k mod r, k div r]) [0..<c * r]))"
proof (cases "0 < c * r")
  case True
  obtain s0 s1 where st: "array_strides a = [s0, s1]"
    using length_array_strides [OF assms(1)] assms(2) by (auto simp: length_Suc_conv)
  have pos: "si_pos [s1, s0] [0, 0] [c, r] k = row_major [r, c] [k mod r, k div r] \<and>
      row_major [r, c] [k mod r, k div r] < length (as_buf a)" if "k < c * r" for k
  proof -
    have i: "k div r < c" "k mod r < r" using that True by (simp_all add: less_mult_imp_div_less)
    then have b: "list_all2 (<) [k mod r, k div r] (array_shape a)" by (simp add: assms(2))
    have "si_pos [s1, s0] [0, 0] [c, r] k = sum_list (map2 (*) [k mod r, k div r] (array_strides a))"
      using that by (simp add: si_pos_def si_at_def st)
    then show ?thesis using strides_row_major [OF assms(1) b] row_major_less [OF b] arr_ok_length [OF assms(1)] by (simp add: assms(2))
  qed
  have it: "transpose_iter a = \<lparr>si_stride = [s1, s0], si_index = [0, 0], si_dims = [c, r], si_offsets = [0, 0], si_bump = False\<rparr>"
    by (simp add: transpose_iter_def assms(2) st Let_def)
  have "si_take (c * r) (as_buf a) (transpose_iter a) =
      map (\<lambda>k. as_buf a ! si_pos (si_stride (transpose_iter a)) [0, 0] [c, r] k) [0..<c * r]"
    by (rule si_take_start [where more' = "[]"]) (use True pos in \<open>simp_all add: it\<close>)
  also have "\<dots> = map (\<lambda>k. as_buf a ! row_major [r, c] [k mod r, k div r]) [0..<c * r]"
    using pos by (intro map_cong) (simp_all add: it)
  finally show ?thesis by (simp add: array_transpose_def assms(2) fill_from_Plain)
qed (auto simp: array_transpose_def assms(2) si_take_def fill_from_def)

text \<open>Transposing a matrix of constant dimensions puts the element at \<open>[i, j]\<close> at
  \<open>[j, i]\<close>, and transposing again gives the matrix back.\<close>

theorem transpose_involutive:
  assumes "length buf = r * c"
  shows "\<exists>buf'. array_transpose z (Some [c, r]) (Plain [r, c] buf) = Some (Plain [c, r] buf') \<and>
    (\<forall>i < r. \<forall>j < c. array_get2 (Plain [c, r] buf') j i = array_get2 (Plain [r, c] buf) i j \<and>
       array_get2 (Plain [r, c] buf) i j = Some (buf ! (i * c + j))) \<and>
    array_transpose z (Some [r, c]) (Plain [c, r] buf') = Some (Plain [r, c] buf)"
proof -
  let ?t = "\<lambda>r c buf. map (\<lambda>k. buf ! row_major [r, c] [k mod r, k div r]) [0..<c * r]"
  have ok: "arr_ok (Plain [r, c] buf)" "arr_ok (Plain [c, r] (?t r c buf))" using assms by simp_all
  have t: "array_transpose z (Some [c, r]) (Plain [r, c] buf) = Some (Plain [c, r] (?t r c buf))"
    "array_transpose z (Some [r, c]) (Plain [c, r] (?t r c buf)) = Some (Plain [r, c] (?t c r (?t r c buf)))"
    using array_transpose_ok [OF ok(1)] array_transpose_ok [OF ok(2)] by simp_all
  have lt: "j * r + i < c * r" if "i < r" "j < c" for i j r c :: nat
    using row_major_less [of "[j, i]" "[c, r]"] that by simp
  have el: "?t r c buf ! (j * r + i) = buf ! (i * c + j)" if "i < r" "j < c" for i j r c :: nat and buf :: "'a list"
    using that lt [OF that] by simp
  have "?t c r (?t r c buf) = buf"
  proof (rule nth_equalityI)
    fix k assume "k < length (?t c r (?t r c buf))"
    then have k: "k < r * c" by simp
    then have c: "0 < c" by (auto intro: Nat.gr0I)
    have ij: "k div c < r" "k mod c < c" "k div c * c + k mod c = k" using k c by (simp_all add: less_mult_imp_div_less)
    have "?t c r (?t r c buf) ! k = ?t r c buf ! (k mod c * r + k div c)" using k by simp
    also have "\<dots> = buf ! (k div c * c + k mod c)" by (rule el [OF ij(1,2)])
    finally show "?t c r (?t r c buf) ! k = buf ! k" by (simp only: ij(3))
  qed (simp add: assms)
  moreover have "array_get2 (Plain [c, r] (?t r c buf)) j i = Some (buf ! (i * c + j)) \<and>
      array_get2 (Plain [r, c] buf) i j = Some (buf ! (i * c + j))" if "i < r" "j < c" for i j
    using lt [OF that] lt [OF that(2,1)] el [OF that] assms by (simp add: array_get2_def get_index_def)
  ultimately show ?thesis using t by (intro exI [of _ "?t r c buf"]) simp
qed


section \<open>Dynamic dimensions\<close>

lemma element_at_digits: "k < prod_list (array_shape a) \<Longrightarrow> element_at a (digits (array_shape a) k) = as_buf a ! k"
  by (simp only: element_at_def clip_same [OF digits_bounded] row_major_digits)




end
