(* ===== verification/NoxConcat.thy ===== *)
theory NoxConcat
  imports NoxArrayCorrect
begin

text \<open>
  Correctness of the nox operations that write through strided iterators or read a window of
  an array: concatenation along an axis, fixed slices, rows, diagonals and maps.
\<close>

section \<open>Windows of an array\<close>

text \<open>A window of dimensions \<open>dims\<close> at \<open>offs\<close> lies inside of a shape.\<close>

definition inside :: "nat list \<Rightarrow> nat list \<Rightarrow> nat list \<Rightarrow> bool" where
  "inside offs dims shape \<longleftrightarrow> length offs = length shape \<and> length dims = length shape \<and> (\<forall>i < length shape. offs ! i + dims ! i \<le> shape ! i)"

lemma inside_index:
  assumes "inside offs dims shape" "list_all2 (<) index dims"
  shows "list_all2 (<) (map2 (+) offs index) shape"
  using assms list_all2_lengthD [OF assms(2)]
  by (auto simp: inside_def list_all2_conv_all_nth intro: less_le_trans [OF add_strict_left_mono])

text \<open>The position of the \<open>k\<close>-th element of a window.\<close>

definition window_pos :: "nat list \<Rightarrow> nat list \<Rightarrow> nat list \<Rightarrow> nat \<Rightarrow> nat" where
  "window_pos shape offs dims k = row_major shape (map2 (+) offs (digits dims k))"

lemma offset_iter_pos:
  assumes "arr_ok a" "inside offs dims (array_shape a)" "k < prod_list dims"
  shows "si_pos (array_strides a) offs dims k = window_pos (array_shape a) offs dims k"
    "window_pos (array_shape a) offs dims k < length (as_buf a)"
proof -
  have b: "list_all2 (<) (map2 (+) offs (digits dims k)) (array_shape a)"
    using inside_index [OF assms(2)] digits_bounded assms(3) by simp
  show "si_pos (array_strides a) offs dims k = window_pos (array_shape a) offs dims k"
    using strides_row_major [OF assms(1) b] assms(3) by (simp add: si_pos_def si_at_def window_pos_def)
  show "window_pos (array_shape a) offs dims k < length (as_buf a)"
    using row_major_less [OF b] arr_ok_length [OF assms(1)] by (simp add: window_pos_def)
qed

lemma si_run_window:
  assumes "arr_ok a" "inside offs dims (array_shape a)" "n \<le> prod_list dims"
  shows "map snd (si_run (length (as_buf a)) n (offset_iter a (offs @ more') dims)) =
    map (window_pos (array_shape a) offs dims) [0..<n]"
proof (cases "n = 0")
  case False
  have l: "length offs = length (array_shape a)" "length dims = length (array_shape a)" using assms(2) by (simp_all add: inside_def)
  let ?it = "offset_iter a (offs @ more') dims"
  have it: "si_stride ?it = array_strides a" "si_index ?it = offs" "si_dims ?it = dims" "si_offsets ?it = offs @ more'" "\<not> si_bump ?it"
    using l by (simp_all add: offset_iter_def Let_def)
  have "si_run (length (as_buf a)) n ?it = map (\<lambda>j. (si_at offs dims j, si_pos (si_stride ?it) offs dims j)) [0..<n]"
    by (rule si_run_start) (use l it False assms(3) offset_iter_pos [OF assms(1,2)] in auto)
  then show ?thesis using it offset_iter_pos(1) [OF assms(1,2)] assms(3) by simp
qed simp

lemma si_take_window:
  assumes "arr_ok a" "inside offs dims (array_shape a)" "n \<le> prod_list dims"
  shows "si_take n (as_buf a) (offset_iter a offs dims) = map (\<lambda>k. as_buf a ! window_pos (array_shape a) offs dims k) [0..<n]"
proof -
  have w: "map snd (si_run (length (as_buf a)) n (offset_iter a offs dims)) = map (window_pos (array_shape a) offs dims) [0..<n]"
    using si_run_window [OF assms, of "[]"] by simp
  have "si_take n (as_buf a) (offset_iter a offs dims) = map ((!) (as_buf a)) (map snd (si_run (length (as_buf a)) n (offset_iter a offs dims)))"
    by (simp add: si_take_def case_prod_beta comp_def)
  then show ?thesis unfolding w by simp
qed

text \<open>Slicing reads the window.\<close>

lemma copy_fixed_slice_ok:
  assumes "arr_ok a" "inside offs dims (array_shape a)"
  shows "copy_fixed_slice z dims offs a =
    Some (Plain dims (map (\<lambda>k. as_buf a ! window_pos (array_shape a) offs dims k) [0..<prod_list dims]))"
proof -
  have l: "length (array_shape a) = length dims" using assms(2) by (simp add: inside_def)
  have "\<not> list_ex (\<lambda>((out_dim, in_dim), offset). in_dim < offset + out_dim) (zip (zip dims (array_shape a)) offs)"
    using assms(2) by (auto simp: list_ex_length inside_def not_less)
  then show ?thesis using l si_take_window [OF assms order_refl] by (simp add: copy_fixed_slice_def Let_def fill_from_Plain)
qed

text \<open>Different indexes have different positions.\<close>

lemma window_pos_inj:
  assumes "inside offs dims shape" "j < prod_list dims" "k < prod_list dims" "window_pos shape offs dims j = window_pos shape offs dims k"
  shows "j = k"
proof -
  have b: "list_all2 (<) (map2 (+) offs (digits dims j)) shape" "list_all2 (<) (map2 (+) offs (digits dims k)) shape"
    using inside_index [OF assms(1)] digits_bounded assms(2,3) by blast+
  have e: "map2 (+) offs (digits dims j) = map2 (+) offs (digits dims k)"
    using assms(4) unfolding window_pos_def by (metis digits_row_major [OF b(1)] digits_row_major [OF b(2)])
  have l: "length offs = length dims" using assms(1) by (simp add: inside_def)
  have "digits dims j ! i = digits dims k ! i" if "i < length dims" for i
    using arg_cong [OF e, of "\<lambda>xs. xs ! i"] that l by simp
  then have "digits dims j = digits dims k" by (intro nth_equalityI) simp_all
  then have "row_major dims (digits dims j) = row_major dims (digits dims k)" by (rule arg_cong)
  then show ?thesis unfolding row_major_digits [OF assms(2)] row_major_digits [OF assms(3)] .
qed

section \<open>Writing at positions\<close>

lemma length_write_all_at [simp]: "length (write_all_at buf ps xs) = length buf"
  by (induction buf ps xs rule: write_all_at.induct) simp_all

lemma write_all_at_other: "p \<notin> set ps \<Longrightarrow> write_all_at buf ps xs ! p = buf ! p"
  by (induction buf ps xs rule: write_all_at.induct) auto

lemma write_all_at_nth:
  "distinct ps \<Longrightarrow> length xs = length ps \<Longrightarrow> \<forall>p \<in> set ps. p < length buf \<Longrightarrow> i < length ps \<Longrightarrow>
     write_all_at buf ps xs ! (ps ! i) = xs ! i"
proof (induction buf ps xs arbitrary: i rule: write_all_at.induct)
  case (1 buf p ps x xs)
  then show ?case by (cases i) (auto simp: write_all_at_other)
qed auto

section \<open>Concatenation\<close>

text \<open>
  The window of the \<open>m\<close>-th argument: the dimensions of an element, at the multiple of its
  length along the axis.
\<close>

definition part_offs :: "nat list \<Rightarrow> nat \<Rightarrow> nat \<Rightarrow> nat list" where
  "part_offs es dim m = (replicate (length es) 0)[dim := m * es ! dim]"

definition joined_shape :: "nat list \<Rightarrow> nat \<Rightarrow> nat \<Rightarrow> nat list" where
  "joined_shape es dim n = es[dim := n * es ! dim]"

lemma part_inside: "dim < length es \<Longrightarrow> m < n \<Longrightarrow> inside (part_offs es dim m) es (joined_shape es dim n)"
  by (auto simp: inside_def part_offs_def joined_shape_def nth_list_update add.commute simp flip: mult_Suc intro!: mult_le_mono1)

definition part :: "nat list \<Rightarrow> nat list \<Rightarrow> nat \<Rightarrow> nat \<Rightarrow> 'a list \<Rightarrow> 'a list" where
  "part os es dim m buf = map (\<lambda>k. buf ! window_pos os (part_offs es dim m) es k) [0..<prod_list es]"

lemma parts_disjoint:
  assumes "dim < length es" "m < n" "m' < n" "j < prod_list es" "k < prod_list es"
    "window_pos (joined_shape es dim n) (part_offs es dim m) es j = window_pos (joined_shape es dim n) (part_offs es dim m') es k"
  shows "m = m'"
proof -
  let ?os = "joined_shape es dim n" let ?i = "\<lambda>m k. map2 (+) (part_offs es dim m) (digits es k)"
  have b: "list_all2 (<) (?i m j) ?os" "list_all2 (<) (?i m' k) ?os"
    using inside_index [OF part_inside] assms(1-5) digits_bounded by blast+
  have "?i m j = ?i m' k"
    using assms(6) unfolding window_pos_def by (metis digits_row_major [OF b(1)] digits_row_major [OF b(2)])
  then have "?i m j ! dim = ?i m' k ! dim" by simp
  then have e: "m * es ! dim + digits es j ! dim = m' * es ! dim + digits es k ! dim"
    using assms(1) by (simp add: part_offs_def)
  have "digits es j ! dim < es ! dim" "digits es k ! dim < es ! dim"
    using digits_bounded [OF assms(4)] digits_bounded [OF assms(5)] assms(1) by (simp_all add: list_all2_conv_all_nth)
  then have "(m * es ! dim + digits es j ! dim) div es ! dim = m" "(m' * es ! dim + digits es k ! dim) div es ! dim = m'"
    by simp_all
  then show ?thesis using e by simp
qed

text \<open>Writing one argument sets its part and leaves the others.\<close>

lemma concat_step_ok:
  assumes "dim < length es" "m < n" "arr_ok (Plain (joined_shape es dim n) buf)"
    "arr_ok arg" "es = replicate (length es - length (array_shape arg)) 1 @ array_shape arg"
  defines "os \<equiv> joined_shape es dim n"
  shows "\<exists>buf'. concat_step dim arg (m * es ! dim) (Plain os buf) = Some (Inr (Plain os buf', Suc m * es ! dim)) \<and>
    length buf' = length buf \<and> part os es dim m buf' = as_buf arg \<and>
    (\<forall>m' < n. m' \<noteq> m \<longrightarrow> part os es dim m' buf' = part os es dim m' buf)"
proof -
  let ?ps = "map (window_pos os (part_offs es dim m) es) [0..<prod_list es]"
  let ?buf = "write_all_at buf ?ps (as_buf arg)"
  note ins = part_inside [OF assms(1,2), folded os_def]
  have lo: "length os = length es" by (simp add: os_def joined_shape_def)
  have ls: "length (array_shape arg) \<le> length es" using arg_cong [OF assms(5), of length] by simp
  have pl: "prod_list es = prod_list (array_shape arg)"
    by (subst assms(5)) simp
  then have la: "length (as_buf arg) = prod_list es" using arr_ok_length [OF assms(4)] by simp
  have ok: "arr_ok (Plain os buf)" using assms(3) by (simp add: os_def)
  have run: "map snd (si_run (length buf) (prod_list es) (offset_iter (Plain os buf) (part_offs es dim m) es)) = ?ps"
    using si_run_window [OF ok, of "part_offs es dim m" es "prod_list es" "[]"] ins by simp
  have st: "concat_step dim arg (m * es ! dim) (Plain os buf) = Some (Inr (Plain os ?buf, Suc m * es ! dim))"
    using ls assms(1) lo run la assms(5) by (simp add: concat_step_def Let_def part_offs_def [symmetric] add.commute not_less)
  have lt: "window_pos os (part_offs es dim m) es k < length buf" if "k < prod_list es" for k
    using offset_iter_pos(2) [OF ok, of "part_offs es dim m" es k] ins that by simp
  have dist: "distinct ?ps"
    using window_pos_inj [OF ins] by (auto simp: distinct_map inj_on_def)
  have own: "?buf ! window_pos os (part_offs es dim m) es k = as_buf arg ! k" if "k < prod_list es" for k
    using write_all_at_nth [OF dist, of "as_buf arg" buf k] lt la that by auto
  have other: "?buf ! window_pos os (part_offs es dim m') es k = buf ! window_pos os (part_offs es dim m') es k"
    if "m' < n" "m' \<noteq> m" "k < prod_list es" for m' k
  proof (rule write_all_at_other, rule notI)
    assume "window_pos os (part_offs es dim m') es k \<in> set ?ps"
    then obtain j where "j < prod_list es" "window_pos os (part_offs es dim m') es k = window_pos os (part_offs es dim m) es j" by auto
    then show False using parts_disjoint [OF assms(1) that(1) assms(2) that(3)] that(2) by (auto simp: os_def)
  qed
  have "part os es dim m ?buf = as_buf arg"
    using own la by (simp add: part_def list_eq_iff_nth_eq)
  moreover have "part os es dim m' ?buf = part os es dim m' buf" if "m' < n" "m' \<noteq> m" for m'
    using other [OF that] by (simp add: part_def)
  ultimately show ?thesis using st by (intro exI [of _ ?buf]) simp
qed

lemma concat_loop_ok:
  assumes "dim < length es" "m + length args \<le> n" "arr_ok (Plain (joined_shape es dim n) buf)"
    "\<forall>arg \<in> set args. arr_ok arg \<and> es = replicate (length es - length (array_shape arg)) 1 @ array_shape arg"
  defines "os \<equiv> joined_shape es dim n"
  shows "\<exists>buf'. concat_loop dim args (m * es ! dim) (Plain os buf) = Some (Inr (Plain os buf')) \<and> length buf' = length buf \<and>
    (\<forall>m' < m. part os es dim m' buf' = part os es dim m' buf) \<and>
    (\<forall>i < length args. part os es dim (m + i) buf' = as_buf (args ! i))"
  using assms(2-4) unfolding os_def
proof (induction args arbitrary: m buf)
  case (Cons arg args)
  let ?os = "joined_shape es dim n"
  have "m < n" "arr_ok arg" "es = replicate (length es - length (array_shape arg)) 1 @ array_shape arg" using Cons.prems by auto
  from concat_step_ok [OF assms(1) this(1) Cons.prems(2) this(2,3)] obtain buf1 where
    s: "concat_step dim arg (m * es ! dim) (Plain ?os buf) = Some (Inr (Plain ?os buf1, Suc m * es ! dim))"
      "length buf1 = length buf" "part ?os es dim m buf1 = as_buf arg"
      "\<forall>m' < n. m' \<noteq> m \<longrightarrow> part ?os es dim m' buf1 = part ?os es dim m' buf" by blast
  have ok: "arr_ok (Plain ?os buf1)" using Cons.prems(2) s(2) by simp
  have "Suc m + length args \<le> n" "\<forall>arg \<in> set args. arr_ok arg \<and> es = replicate (length es - length (array_shape arg)) 1 @ array_shape arg"
    using Cons.prems by auto
  from Cons.IH [OF this(1) ok this(2)] obtain buf' where
    l: "concat_loop dim args (Suc m * es ! dim) (Plain ?os buf1) = Some (Inr (Plain ?os buf'))" "length buf' = length buf1"
      "\<forall>m' < Suc m. part ?os es dim m' buf' = part ?os es dim m' buf1"
      "\<forall>i < length args. part ?os es dim (Suc m + i) buf' = as_buf (args ! i)" by blast
  have "part ?os es dim (m + i) buf' = as_buf ((arg # args) ! i)" if "i < length (arg # args)" for i
    using that l(3,4) s(3) by (cases i) auto
  moreover have "part ?os es dim m' buf' = part ?os es dim m' buf" if "m' < m" for m'
    using that l(3) s(4) \<open>m < n\<close> by simp
  ultimately show ?case using s(1,2) l(1,2) by (intro exI [of _ buf']) (simp del: mult_Suc)
qed simp


lemma arr_ok_zeroed: "arr_ok (zeroed z (Some dims) ds) \<longleftrightarrow> length dims \<le> 3 \<and> (length dims = 3 \<longrightarrow> dims ! 1 = dims ! 2 \<or> dims ! 1 = 1)"
  by simp



section \<open>Rows\<close>

lemma array_row_ok:
  assumes "length buf = r * c" "i < r"
  shows "array_row z (Some [c]) i (Plain [r, c] buf) = Some (Plain [c] (slice (i * c) (i * c + c) buf))"
proof -
  have ok: "arr_ok (Plain [r, c] buf)" using assms(1) by simp
  have ins: "inside [i, 0] [1, c] (array_shape (Plain [r, c] buf))" using assms(2) by (auto simp: inside_def less_Suc_eq nth_Cons')
  have le: "i * c + c \<le> r * c" using assms(2) by (metis add.commute mult_Suc mult_le_mono1 Suc_leI)
  have sl: "map (\<lambda>k. buf ! window_pos [r, c] [i, 0] [1, c] k) [0..<c] = slice (i * c) (i * c + c) buf"
    using assms le by (intro nth_equalityI) (auto simp: window_pos_def slice_def)
  have "array_row z (Some [c]) i (Plain [r, c] buf) = Some (Plain [c] (map (\<lambda>k. buf ! window_pos [r, c] [i, 0] [1, c] k) [0..<c]))"
    using si_take_window [OF ok ins, of c] by (simp add: array_row_def get_index_def Let_def fill_from_Plain)
  then show ?thesis by (simp only: sl)
qed

text \<open>A row that is not there is all zeros.\<close>

lemma array_row_outside:
  assumes "length buf = r * c" "r \<le> i" "0 < c"
  shows "array_row z (Some [c]) i (Plain [r, c] buf) = Some (Plain [c] (replicate c z))"
proof -
  have "length buf \<le> i * c" using assms(1,2) by simp
  then have "si_run (length buf) c (offset_iter (Plain [r, c] buf) [i, 0] [1, c]) = []"
    using assms(3) by (cases c) (simp_all add: offset_iter_def si_step_def Let_def)
  then show ?thesis by (simp add: array_row_def get_index_def si_take_def fill_from_def Let_def)
qed

text \<open>Stacking vectors along a new first axis makes them the rows.\<close>

lemma stack_rows:
  assumes "args \<noteq> []" "\<forall>arg \<in> set args. array_shape arg = [c] \<and> arr_ok arg"
  shows "\<exists>buf. concat_many z (Some [length args, c]) False args 0 = Some (Inr (Plain [length args, c] buf)) \<and>
    (\<forall>m < length args. array_row z (Some [c]) m (Plain [length args, c] buf) = Some (Plain [c] (as_buf (args ! m))))"
proof -
  let ?n = "length args" let ?os = "[length args, c]"
  have os: "joined_shape [1, c] 0 ?n = ?os" by (simp add: joined_shape_def)
  obtain arg rest where a: "args = arg # rest" using assms(1) by (cases args) auto
  let ?zs = "replicate (prod_list ?os) z"
  have ok: "arr_ok (Plain (joined_shape [1, c] 0 ?n) ?zs)" by (simp add: joined_shape_def)
  have "\<forall>arg \<in> set args. arr_ok arg \<and> [1, c] = replicate (length [1, c] - length (array_shape arg)) 1 @ array_shape arg" using assms(2) by simp
  from concat_loop_ok [OF _ _ ok this, of 0] obtain buf where
    l: "concat_loop 0 args 0 (Plain ?os ?zs) = Some (Inr (Plain ?os buf))" "length buf = ?n * c"
      "\<forall>i < ?n. part ?os [1, c] 0 i buf = as_buf (args ! i)" by (auto simp: joined_shape_def)
  have "concat_many z (Some ?os) False args 0 = Some (Inr (Plain ?os buf))"
    using l(1) a assms(2) by (simp add: concat_many_def from_len_elem_def)
  moreover have "array_row z (Some [c]) m (Plain ?os buf) = Some (Plain [c] (as_buf (args ! m)))" if "m < ?n" for m
  proof -
    have ok': "arr_ok (Plain ?os buf)" using l(2) by simp
    have ins: "inside [m, 0] [1, c] (array_shape (Plain ?os buf))" using that by (auto simp: inside_def less_Suc_eq nth_Cons')
    have "part ?os [1, c] 0 m buf = map (\<lambda>k. buf ! window_pos ?os [m, 0] [1, c] k) [0..<c]" by (simp add: part_def part_offs_def)
    then show ?thesis using si_take_window [OF ok' ins, of c] l(3) that
      by (simp add: array_row_def get_index_def Let_def fill_from_Plain)
  qed
  ultimately show ?thesis by blast
qed


text \<open>
  Along a new last axis the code should make them the columns; instead they are laid one after
  the other, as if the axis were the first one and the dimensions were exchanged.
\<close>

lemma stack_last_axis:
  "concat_many 0 (Some [3, 2]) False [Plain [3] [1, 2, 3], Plain [3] [4, 5, 6]] 1 = Some (Inr (Plain [3, 2] [1, 2, 3, 4, 5, 6 :: nat]))"
  by code_simp

section \<open>Diagonals\<close>

lemma write_all_at_upt:
  "length xs = length buf \<Longrightarrow> write_all_at buf [0..<length buf] xs = xs"
proof (rule nth_equalityI)
  fix i assume l: "length xs = length buf" and i: "i < length (write_all_at buf [0..<length buf] xs)"
  then have "write_all_at buf [0..<length buf] xs ! ([0..<length buf] ! i) = xs ! i" by (intro write_all_at_nth) auto
  then show "write_all_at buf [0..<length buf] xs ! i = xs ! i" using i by simp
qed simp

lemma index_filled_ok:
  assumes "arr_ok out" "array_shape out = [r, c]" "\<forall>i < r. \<forall>j < c. f [i, j] \<noteq> None"
  shows "index_filled f out = Some (put_buf out (map (\<lambda>k. the (f [k div c, k mod c])) [0..<r * c]))"
proof (cases "0 < r * c")
  case True
  let ?it = "offset_iter out [0, 0, 0] [r, c]"
  have l: "length (as_buf out) = r * c" using arr_ok_length [OF assms(1)] assms(2) by simp
  have ins: "inside [0, 0] [r, c] (array_shape out)" using assms(2) by (auto simp: inside_def less_Suc_eq nth_Cons')
  have w: "window_pos [r, c] [0, 0] [r, c] k = k" if "k < r * c" for k
    using row_major_digits [of k "[r, c]"] that by (simp add: window_pos_def)
  have run: "si_run (r * c) (r * c) ?it = map (\<lambda>k. ([k div c, k mod c], k)) [0..<r * c]"
  proof -
    have it: "si_stride ?it = array_strides out" "si_index ?it = [0, 0]" "si_dims ?it = [r, c]" "si_offsets ?it = [0, 0] @ [0]" "\<not> si_bump ?it"
      using assms(2) by (simp_all add: offset_iter_def Let_def)
    have p: "si_pos (si_stride ?it) [0, 0] [r, c] k = k" if "k < r * c" for k
      using offset_iter_pos(1) [OF assms(1) ins, of k] w that assms(2) it(1) by simp
    have "si_run (r * c) (r * c) ?it = map (\<lambda>j. (si_at [0, 0] [r, c] j, si_pos (si_stride ?it) [0, 0] [r, c] j)) [0..<r * c]"
      by (rule si_run_start) (use True it p in auto)
    also have "\<dots> = map (\<lambda>k. ([k div c, k mod c], k)) [0..<r * c]"
      using p by (intro map_cong) (auto simp: si_at_def)
    finally show ?thesis .
  qed
  have "\<forall>k < r * c. f [k div c, k mod c] \<noteq> None"
    using assms(3) True by (auto simp: less_mult_imp_div_less)
  then have "None \<notin> (\<lambda>k. f [k div c, k mod c]) ` {0..<r * c}" by force
  moreover have "write_all_at (as_buf out) [0..<r * c] (map (\<lambda>k. the (f [k div c, k mod c])) [0..<r * c]) =
      map (\<lambda>k. the (f [k div c, k mod c])) [0..<r * c]"
    using write_all_at_upt [of "map (\<lambda>k. the (f [k div c, k mod c])) [0..<r * c]" "as_buf out"] l by simp
  ultimately show ?thesis using run l assms(2) by (simp add: index_filled_def Let_def comp_def image_image)
next
  case False
  then have "as_buf out = []" using arr_ok_length [OF assms(1)] assms(2) by (cases "as_buf out") auto
  then show ?thesis using False by (cases out) (simp_all add: index_filled_def)
qed

text \<open>The entries of a diagonal matrix and of the identity.\<close>

lemma from_diag_ok:
  assumes "length d = n" "i < n" "j < n"
  shows "\<exists>m. from_diag z zero (Some [n, n]) (Plain [n] d) = Some m \<and> array_get2 m i j = Some (if i = j then d ! i else zero)"
proof -
  let ?f = "\<lambda>index. if length index < 2 then None else if index ! 0 = index ! 1 then get_index (as_buf (Plain [n] d)) (index ! 0) else Some zero"
  have "from_diag z zero (Some [n, n]) (Plain [n] d) = Some (Plain [n, n] (map (\<lambda>k. the (?f [k div n, k mod n])) [0..<n * n]))"
    using index_filled_ok [of "zeroed z (Some [n, n]) [n, n]" n n ?f] assms(1)
    by (simp add: from_diag_def get_index_def)
  moreover have "i * n + j < n * n" using row_major_less [of "[i, j]" "[n, n]"] assms(2,3) by simp
  ultimately show ?thesis using assms by (cases "i = j") (simp_all add: array_get2_def get_index_def)
qed

lemma array_eye_ok:
  assumes "i < n" "j < n"
  shows "\<exists>m. array_eye z one zero [n, n] = Some m \<and> array_get2 m i j = Some (if i = j then one else zero)"
proof -
  let ?f = "\<lambda>index. if length index < 2 then None else Some (if index ! 0 = index ! 1 then one else zero)"
  have "array_eye z one zero [n, n] = Some (Plain [n, n] (map (\<lambda>k. the (?f [k div n, k mod n])) [0..<n * n]))"
    using index_filled_ok [of "zeroed z (Some [n, n]) [n, n]" n n ?f] by (simp add: array_eye_def)
  moreover have "i * n + j < n * n" using row_major_less [of "[i, j]" "[n, n]"] assms by simp
  ultimately show ?thesis using assms by (simp add: array_get2_def get_index_def)
qed

text \<open>\<open>map\<close> of a dynamic matrix whose rows are longer than it has of them panics or leaves elements out.\<close>

lemma dyn_map_short:
  "array_map (0 :: nat) None 0 None Some (DynBuf \<lparr>da_storage = [1, 2, 3, 4, 5, 6], da_shape = [3, 2], da_strides = [2, 1]\<rparr>) = None"
proof -
  have c: "chunks_exact 2 6 [1, 2, 3, 4, 5, 6 :: nat] = [[1, 2], [3, 4], [5, 6]]" by (simp add: eval_nat_numeral)
  show ?thesis by (simp add: array_map_def c Let_def from_len_elem_def da_default_def splice_def)
qed

text \<open>What \<open>reshape\<close> cannot broadcast it rejects: six elements are not made two rows of three.\<close>

lemma reshape_rejects: "reshape_with_shape z (Some [2, 3]) [2, 3] (Plain [6] buf) = None"
  by (simp add: reshape_with_shape_def cobroadcast_dims_def)

end
