(* ===== verification/WaitQueue.thy ===== *)
theory WaitQueue
  imports Prelude
begin

text \<open>
  The wait queue that every waiting task of the database sleeps on
  (\<open>libs/stellarator/maitake/sync/src/wait_queue.rs\<close>, re-exported as \<open>stellarator::sync\<close>).  The
  state word is an atomic that is read and written outside of the lock of the list as well,
  so an operation is a sequence of turns, one for each atomic access, and threads interleave.
  The list stands oldest waiter first: \<open>push_front\<close> appends and \<open>pop_back\<close> takes the head.
\<close>

section \<open>State\<close>

datatype q_state = QEmpty | QWaiting | QWoken | QClosed

record queue_word =
  qw_state :: q_state
  qw_wake_alls :: nat

definition with_state :: "queue_word \<Rightarrow> q_state \<Rightarrow> queue_word" where
  "with_state q s = q\<lparr>qw_state := s\<rparr>"

text \<open>One more call of \<open>wake_all\<close>, in the 62 upper bits.\<close>

definition one_wake_all :: "queue_word \<Rightarrow> queue_word" where
  "one_wake_all q = q\<lparr>qw_wake_alls := (qw_wake_alls q + 1) mod 2 ^ 62\<rparr>"

text \<open>What is left in a node; a waker is a number.\<close>

datatype wakeup = WkEmpty | WkWaiting nat | WkOne | WkAll | WkClosed

datatype wait_state = WStart | WWaiting | WWoken

record waiter =
  wt_state :: wait_state
  wt_wake_alls :: nat
  wt_waker :: wakeup

record wait_queue =
  wq_word :: queue_word
  wq_list :: "nat list"
  wq_nodes :: "nat \<Rightarrow> waiter option"
  wq_lock :: "nat option"

definition wq_make :: "q_state \<Rightarrow> wait_queue" where
  "wq_make s = \<lparr>wq_word = \<lparr>qw_state = s, qw_wake_alls = 0\<rparr>, wq_list = [], wq_nodes = (\<lambda>_. None), wq_lock = None\<rparr>"

definition wq_new :: wait_queue where
  "wq_new = wq_make QEmpty"

definition wq_new_woken :: wait_queue where
  "wq_new_woken = wq_make QWoken"

definition wq_is_closed :: "wait_queue \<Rightarrow> bool" where
  "wq_is_closed wq = (qw_state (wq_word wq) = QClosed)"

section \<open>Waiters\<close>

definition wq_waiter :: "wait_queue \<Rightarrow> waiter" where
  "wq_waiter wq = \<lparr>wt_state = WStart, wt_wake_alls = qw_wake_alls (wq_word wq), wt_waker = WkEmpty\<rparr>"

text \<open>\<open>Waiter::wake\<close>: the node and its waker; \<open>None\<close> where the code is unreachable.\<close>

definition node_wake :: "wakeup \<Rightarrow> waiter \<Rightarrow> (waiter \<times> nat option) option" where
  "node_wake wk w =
     (case wt_waker w of
        WkWaiting k \<Rightarrow> Some (w\<lparr>wt_waker := wk\<rparr>, Some k)
      | WkEmpty \<Rightarrow> Some (w\<lparr>wt_waker := wk\<rparr>, None)
      | _ \<Rightarrow> None)"

text \<open>
  \<open>drain_to_wake_batch\<close> with room for \<open>room\<close> more wakers: the nodes, what is left of the list
  and the wakers taken.  Nodes without a waker take no room.
\<close>

fun drain_batch :: "nat \<Rightarrow> wakeup \<Rightarrow> (nat \<Rightarrow> waiter option) \<Rightarrow> nat list \<Rightarrow> ((nat \<Rightarrow> waiter option) \<times> nat list \<times> nat list) option" where
  "drain_batch room wk nodes [] = Some (nodes, [], [])"
| "drain_batch room wk nodes (n # ns) =
     (case Option.bind (nodes n) (node_wake wk) of
        None \<Rightarrow> None
      | Some (w, None) \<Rightarrow> drain_batch room wk (nodes(n \<mapsto> w)) ns
      | Some (w, Some k) \<Rightarrow>
          if room \<le> 1 then Some (nodes(n \<mapsto> w), ns, [k])
          else map_option (\<lambda>(nodes, rest, ks). (nodes, rest, k # ks)) (drain_batch (room - 1) wk (nodes(n \<mapsto> w)) ns))"

definition max_wakers :: nat where
  "max_wakers = 16"

section \<open>Operations and their turns\<close>

datatype poll_result = Pending | ReadyOk | ReadyClosed | Finished

text \<open>
  Where a thread stands.  Polls and drops name their waiter; a poll has the waker of its task,
  or none from \<open>subscribe\<close>.
\<close>

datatype wq_pc =
    Idle
  | Done poll_result
  | Panicked
  | WakeStart | WakeLoop queue_word | WakeLock | WakeLoad | WakeLocked queue_word | StoreUnlock queue_word
  | AllLock | AllLoad | AllGot queue_word | AllDrain
  | CloseOr | CloseDrain
  | TryStart | TryLoop nat queue_word
  | WaitNew nat
  | PollStart nat "nat option" | PollCas nat "nat option" queue_word | PollLock nat "nat option"
  | PollLoad nat "nat option" | PollLoop nat "nat option" queue_word
  | DropStart nat | DropLoad nat | DropGot nat queue_word | DropStore queue_word queue_word bool

record wq_run =
  wr_queue :: wait_queue
  wr_pc :: "nat \<Rightarrow> wq_pc"
  wr_woken :: "nat list"

text \<open>The common ends of a turn.\<close>

definition goto :: "nat \<Rightarrow> wq_pc \<Rightarrow> wait_queue \<Rightarrow> wq_run \<Rightarrow> wq_run" where
  "goto t pc wq r = r\<lparr>wr_queue := wq, wr_pc := (wr_pc r)(t := pc)\<rparr>"

definition unlocked :: "wait_queue \<Rightarrow> wait_queue" where
  "unlocked wq = wq\<lparr>wq_lock := None\<rparr>"

definition wakes :: "nat list \<Rightarrow> wq_run \<Rightarrow> wq_run" where
  "wakes ks r = r\<lparr>wr_woken := wr_woken r @ ks\<rparr>"

definition set_word :: "queue_word \<Rightarrow> wait_queue \<Rightarrow> wait_queue" where
  "set_word q wq = wq\<lparr>wq_word := q\<rparr>"

definition set_node :: "nat \<Rightarrow> waiter \<Rightarrow> wait_queue \<Rightarrow> wait_queue" where
  "set_node n w wq = wq\<lparr>wq_nodes := (wq_nodes wq)(n \<mapsto> w)\<rparr>"

text \<open>A panic inside of the lock leaves it taken.\<close>

definition panic :: "nat \<Rightarrow> wq_run \<Rightarrow> wq_run" where
  "panic t r = goto t Panicked ((wr_queue r)\<lparr>wq_lock := Some t\<rparr>) r"

definition take_lock :: "nat \<Rightarrow> wq_pc \<Rightarrow> wq_run \<Rightarrow> wq_run option" where
  "take_lock t pc r = (if wq_lock (wr_queue r) = None then Some (goto t pc ((wr_queue r)\<lparr>wq_lock := Some t\<rparr>) r) else None)"

text \<open>\<open>wake_locked\<close> with the snapshot \<open>cur\<close>, up to a store that is still to come.\<close>

definition wake_locked :: "nat \<Rightarrow> queue_word \<Rightarrow> wq_run \<Rightarrow> wq_run" where
  "wake_locked t cur r =
     (let wq = wr_queue r
      in if qw_state cur \<noteq> QWaiting then
           (if wq_word wq = cur then goto t (Done Finished) (unlocked (set_word (with_state cur QWoken) wq)) r
            else goto t (StoreUnlock (with_state (wq_word wq) QWoken)) wq r)
         else
           (case wq_list wq of
              [] \<Rightarrow> panic t r
            | n # ns \<Rightarrow>
                (case Option.bind (wq_nodes wq n) (node_wake WkOne) of
                   None \<Rightarrow> panic t r
                 | Some (w, k) \<Rightarrow>
                     (let wq = set_node n w (wq\<lparr>wq_list := ns\<rparr>); r = wakes (case k of None \<Rightarrow> [] | Some k \<Rightarrow> [k]) r
                      in if ns = [] then goto t (StoreUnlock (with_state cur QEmpty)) wq r
                         else goto t (Done Finished) (unlocked wq) r))))"

text \<open>One batch of a drain, and whether another one follows.\<close>

definition drain_turn :: "nat \<Rightarrow> nat \<Rightarrow> wakeup \<Rightarrow> wq_pc \<Rightarrow> wait_queue \<Rightarrow> wq_run \<Rightarrow> wq_run" where
  "drain_turn cap t wk again wq r =
     (case drain_batch cap wk (wq_nodes wq) (wq_list wq) of
        None \<Rightarrow> panic t r
      | Some (nodes, rest, ks) \<Rightarrow>
          goto t (if rest = [] then Done Finished else again) (unlocked (wq\<lparr>wq_nodes := nodes, wq_list := rest\<rparr>)) (wakes ks r))"

definition enqueue :: "nat \<Rightarrow> nat \<Rightarrow> nat option \<Rightarrow> waiter \<Rightarrow> wait_queue \<Rightarrow> wq_run \<Rightarrow> wq_run" where
  "enqueue t n k w wq r =
     (let w = w\<lparr>wt_state := WWaiting, wt_waker := (case k of Some k \<Rightarrow> WkWaiting k | None \<Rightarrow> wt_waker w)\<rparr>
      in goto t (Done Pending) (unlocked (set_node n w (wq\<lparr>wq_list := wq_list wq @ [n]\<rparr>))) r)"

definition woken_now :: "nat \<Rightarrow> nat \<Rightarrow> waiter \<Rightarrow> wait_queue \<Rightarrow> wq_run \<Rightarrow> wq_run" where
  "woken_now t n w wq r = goto t (Done ReadyOk) (set_node n (w\<lparr>wt_state := WWoken\<rparr>) wq) r"

text \<open>\<open>poll_wait\<close> of a waiter that is enqueued, under the lock.\<close>

definition poll_waiting :: "nat option \<Rightarrow> waiter \<Rightarrow> waiter \<times> poll_result" where
  "poll_waiting k w =
     (case wt_waker w of
        WkWaiting k0 \<Rightarrow> (case k of None \<Rightarrow> (w, Pending) | Some k \<Rightarrow> (w\<lparr>wt_waker := WkWaiting k\<rparr>, Pending))
      | WkAll \<Rightarrow> (w\<lparr>wt_state := WWoken\<rparr>, ReadyOk)
      | WkOne \<Rightarrow> (w\<lparr>wt_state := WWoken\<rparr>, ReadyOk)
      | WkClosed \<Rightarrow> (w\<lparr>wt_state := WWoken\<rparr>, ReadyClosed)
      | WkEmpty \<Rightarrow> (case k of None \<Rightarrow> (w, Pending) | Some k \<Rightarrow> (w\<lparr>wt_waker := WkWaiting k\<rparr>, Pending)))"

text \<open>The turns of \<open>poll_wait\<close> and of \<open>release\<close> that find their waiter.\<close>

definition poll_start :: "nat \<Rightarrow> nat \<Rightarrow> nat option \<Rightarrow> waiter \<Rightarrow> wq_run \<Rightarrow> wq_run option" where
  "poll_start t n k w r =
     (let wq = wr_queue r
      in case wt_state w of
           WStart \<Rightarrow> Some (goto t (PollCas n k (wq_word wq)) wq r)
         | WWoken \<Rightarrow> Some (goto t (Done ReadyOk) wq r)
         | WWaiting \<Rightarrow>
             if wq_lock wq \<noteq> None then None
             else (let (w, res) = poll_waiting k w in Some (goto t (Done res) (set_node n w wq) r)))"

definition poll_loop :: "nat \<Rightarrow> nat \<Rightarrow> nat option \<Rightarrow> queue_word \<Rightarrow> waiter \<Rightarrow> wq_run \<Rightarrow> wq_run" where
  "poll_loop t n k q w r =
     (let wq = wr_queue r
      in case qw_state q of
           QEmpty \<Rightarrow>
             if wq_word wq = q then enqueue t n k w (set_word (with_state q QWaiting) wq) r
             else goto t (PollLoop n k (wq_word wq)) wq r
         | QWaiting \<Rightarrow> enqueue t n k w wq r
         | QWoken \<Rightarrow>
             if wq_word wq = q then woken_now t n w (unlocked (set_word (with_state q QEmpty) wq)) r
             else goto t (PollLoop n k (wq_word wq)) wq r
         | QClosed \<Rightarrow> goto t (Done ReadyClosed) (unlocked wq) r)"

text \<open>The waiter leaves the list and is gone; its wakeup may have to go to the next one.\<close>

definition drop_got :: "nat \<Rightarrow> nat \<Rightarrow> queue_word \<Rightarrow> waiter \<Rightarrow> wq_run \<Rightarrow> wq_run" where
  "drop_got t n q w r =
     (let wq = wr_queue r; list = remove1 n (wq_list wq); one = (wt_waker w = WkOne);
          wq = wq\<lparr>wq_list := list, wq_nodes := (wq_nodes wq)(n := None)\<rparr>
      in if list = [] \<and> qw_state q = QWaiting then goto t (DropStore (with_state q QEmpty) q one) wq r
         else if one then goto t (WakeLocked q) wq r
         else goto t (Done Finished) (unlocked wq) r)"

text \<open>The turns of \<open>wake\<close> outside of the lock, of \<open>wake_all\<close> in it, of \<open>close\<close> and \<open>try_wait\<close>.\<close>

definition wake_loop :: "nat \<Rightarrow> queue_word \<Rightarrow> wq_run \<Rightarrow> wq_run" where
  "wake_loop t s r =
     (let wq = wr_queue r
      in case qw_state s of
           QClosed \<Rightarrow> goto t (Done Finished) wq r
         | QWaiting \<Rightarrow> goto t WakeLock wq r
         | _ \<Rightarrow> if wq_word wq = s then goto t (Done Finished) (set_word (with_state s QWoken) wq) r
                else goto t (WakeLoop (wq_word wq)) wq r)"

definition all_got :: "nat \<Rightarrow> nat \<Rightarrow> queue_word \<Rightarrow> wq_run \<Rightarrow> wq_run" where
  "all_got cap t s r =
     (let wq = wr_queue r
      in case qw_state s of
           QClosed \<Rightarrow> goto t (Done Finished) (unlocked wq) r
         | QWaiting \<Rightarrow>
             if wq_word wq = s then drain_turn cap t WkAll AllDrain (set_word (one_wake_all (with_state s QEmpty)) wq) r
             else panic t r
         | _ \<Rightarrow> goto t (Done Finished) (unlocked (set_word (one_wake_all (wq_word wq)) wq)) r)"

definition close_or :: "nat \<Rightarrow> wq_run \<Rightarrow> wq_run" where
  "close_or t r =
     (let wq = wr_queue r; word = wq_word wq
      in goto t (if qw_state word = QWaiting then CloseDrain else Done Finished) (set_word (with_state word QClosed) wq) r)"

definition try_loop :: "nat \<Rightarrow> nat \<Rightarrow> queue_word \<Rightarrow> wq_run \<Rightarrow> wq_run" where
  "try_loop t initial s r =
     (let wq = wr_queue r; word = wq_word wq
      in if qw_state s = QWoken then
           (if word = s then goto t (Done ReadyOk) (set_word (with_state s QEmpty) wq) r
            else goto t (TryLoop initial word) wq r)
         else goto t (Done (if qw_state s = QClosed then ReadyClosed
                            else if initial < qw_wake_alls s then ReadyOk else Pending)) wq r)"

text \<open>The turns of a first poll before and in the lock, and of a drop.\<close>

definition poll_cas :: "nat \<Rightarrow> nat \<Rightarrow> nat option \<Rightarrow> queue_word \<Rightarrow> waiter \<Rightarrow> wq_run \<Rightarrow> wq_run" where
  "poll_cas t n k q w r =
     (let wq = wr_queue r
      in if wq_word wq = with_state q QWoken then woken_now t n w (set_word (with_state q QEmpty) wq) r
         else goto t (PollLock n k) wq r)"

definition poll_load :: "nat \<Rightarrow> nat \<Rightarrow> nat option \<Rightarrow> waiter \<Rightarrow> wq_run \<Rightarrow> wq_run" where
  "poll_load t n k w r =
     (let wq = wr_queue r; word = wq_word wq
      in if qw_wake_alls word \<noteq> wt_wake_alls w then woken_now t n w (unlocked wq) r
         else goto t (PollLoop n k word) wq r)"

definition drop_start :: "nat \<Rightarrow> nat \<Rightarrow> waiter \<Rightarrow> wq_run \<Rightarrow> wq_run option" where
  "drop_start t n w r =
     (let wq = wr_queue r
      in if wt_state w \<noteq> WWaiting then Some (goto t (Done Finished) (wq\<lparr>wq_nodes := (wq_nodes wq)(n := None)\<rparr>) r)
         else take_lock t (DropLoad n) r)"

text \<open>
  The next atomic turn of thread \<open>t\<close>; \<open>None\<close> when it waits for the lock or has nothing to
  do.  \<open>cap\<close> is the size of a batch of wakers.
\<close>

definition wq_turn :: "nat \<Rightarrow> nat \<Rightarrow> wq_run \<Rightarrow> wq_run option" where
  "wq_turn cap t r =
     (let wq = wr_queue r; word = wq_word wq
      in case wr_pc r t of
           WakeStart \<Rightarrow> Some (goto t (WakeLoop word) wq r)
         | WakeLoop s \<Rightarrow> Some (wake_loop t s r)
         | WakeLock \<Rightarrow> take_lock t WakeLoad r
         | WakeLoad \<Rightarrow> Some (goto t (WakeLocked word) wq r)
         | WakeLocked cur \<Rightarrow> Some (wake_locked t cur r)
         | StoreUnlock q \<Rightarrow> Some (goto t (Done Finished) (unlocked (set_word q wq)) r)
         | AllLock \<Rightarrow> take_lock t AllLoad r
         | AllLoad \<Rightarrow> Some (goto t (AllGot word) wq r)
         | AllGot s \<Rightarrow> Some (all_got cap t s r)
         | AllDrain \<Rightarrow> if wq_lock wq = None then Some (drain_turn cap t WkAll AllDrain wq r) else None
         | CloseOr \<Rightarrow> Some (close_or t r)
         | CloseDrain \<Rightarrow> if wq_lock wq = None then Some (drain_turn cap t WkClosed CloseDrain wq r) else None
         | TryStart \<Rightarrow> Some (goto t (TryLoop (qw_wake_alls word) word) wq r)
         | TryLoop initial s \<Rightarrow> Some (try_loop t initial s r)
         | WaitNew n \<Rightarrow> Some (goto t (Done Finished) (set_node n (wq_waiter wq) wq) r)
         | PollStart n k \<Rightarrow> Option.bind (wq_nodes wq n) (\<lambda>w. poll_start t n k w r)
         | PollCas n k q \<Rightarrow> map_option (\<lambda>w. poll_cas t n k q w r) (wq_nodes wq n)
         | PollLock n k \<Rightarrow> take_lock t (PollLoad n k) r
         | PollLoad n k \<Rightarrow> map_option (\<lambda>w. poll_load t n k w r) (wq_nodes wq n)
         | PollLoop n k q \<Rightarrow> map_option (\<lambda>w. poll_loop t n k q w r) (wq_nodes wq n)
         | DropStart n \<Rightarrow> Option.bind (wq_nodes wq n) (\<lambda>w. drop_start t n w r)
         | DropLoad n \<Rightarrow> Some (goto t (DropGot n word) wq r)
         | DropGot n q \<Rightarrow> map_option (\<lambda>w. drop_got t n q w r) (wq_nodes wq n)
         | DropStore q cur one \<Rightarrow>
             (if one then Some (goto t (WakeLocked cur) (set_word q wq) r)
              else Some (goto t (Done Finished) (unlocked (set_word q wq)) r))
         | _ \<Rightarrow> None)"

text \<open>To unfold a turn with all of these.\<close>

lemmas turn_defs = wq_turn_def wake_loop_def all_got_def close_or_def try_loop_def poll_cas_def poll_load_def drop_start_def Let_def

section \<open>Runs\<close>

datatype wq_op = OpWake | OpWakeAll | OpClose | OpTryWait | OpWait nat | OpPoll nat "nat option" | OpDrop nat

fun op_start :: "wq_op \<Rightarrow> wq_pc" where
  "op_start OpWake = WakeStart"
| "op_start OpWakeAll = AllLock"
| "op_start OpClose = CloseOr"
| "op_start OpTryWait = TryStart"
| "op_start (OpWait n) = WaitNew n"
| "op_start (OpPoll n k) = PollStart n k"
| "op_start (OpDrop n) = DropStart n"

fun pc_waiter :: "wq_pc \<Rightarrow> nat option" where
  "pc_waiter (WaitNew n) = Some n"
| "pc_waiter (PollStart n k) = Some n"
| "pc_waiter (PollCas n k q) = Some n"
| "pc_waiter (PollLock n k) = Some n"
| "pc_waiter (PollLoad n k) = Some n"
| "pc_waiter (PollLoop n k q) = Some n"
| "pc_waiter (DropStart n) = Some n"
| "pc_waiter (DropLoad n) = Some n"
| "pc_waiter (DropGot n q) = Some n"
| "pc_waiter _ = None"

fun idle :: "wq_pc \<Rightarrow> bool" where
  "idle Idle = True"
| "idle (Done res) = True"
| "idle _ = False"

text \<open>
  A waiter is borrowed by one thread at a time; polls and drops are of waiters that exist, a
  new waiter has a place of its own.
\<close>

definition may_start :: "wq_run \<Rightarrow> wq_op \<Rightarrow> bool" where
  "may_start r op =
     (case pc_waiter (op_start op) of
        None \<Rightarrow> True
      | Some n \<Rightarrow> (\<forall>t. pc_waiter (wr_pc r t) \<noteq> Some n) \<and> (wq_nodes (wr_queue r) n = None) = (op = OpWait n))"

inductive wq_step :: "nat \<Rightarrow> wq_run \<Rightarrow> wq_run \<Rightarrow> bool" for cap where
  start: "idle (wr_pc r t) \<Longrightarrow> may_start r op \<Longrightarrow> wq_step cap r (goto t (op_start op) (wr_queue r) r)"
| turn: "wq_turn cap t r = Some r' \<Longrightarrow> wq_step cap r r'"

definition wq_init :: wq_run where
  "wq_init = \<lparr>wr_queue = wq_new, wr_pc = (\<lambda>_. Idle), wr_woken = []\<rparr>"

inductive wq_reach :: "nat \<Rightarrow> wq_run \<Rightarrow> bool" for cap where
  init: "wq_reach cap wq_init"
| step: "wq_reach cap r \<Longrightarrow> wq_step cap r r' \<Longrightarrow> wq_reach cap r'"

text \<open>
  A schedule of the threads \<open>ts\<close>, the others staying idle: threads that start an operation
  or take a turn.
\<close>

datatype event = Start nat wq_op | Turn nat

definition may_start_in :: "nat list \<Rightarrow> wq_run \<Rightarrow> wq_op \<Rightarrow> bool" where
  "may_start_in ts r op =
     (case pc_waiter (op_start op) of
        None \<Rightarrow> True
      | Some n \<Rightarrow> list_all (\<lambda>t. pc_waiter (wr_pc r t) \<noteq> Some n) ts \<and> (wq_nodes (wr_queue r) n = None) = (op = OpWait n))"

fun wq_sched :: "nat \<Rightarrow> nat list \<Rightarrow> event list \<Rightarrow> wq_run \<Rightarrow> wq_run option" where
  "wq_sched cap ts [] r = Some r"
| "wq_sched cap ts (Start t op # es) r =
     (if t \<in> set ts \<and> idle (wr_pc r t) \<and> may_start_in ts r op then wq_sched cap ts es (goto t (op_start op) (wr_queue r) r) else None)"
| "wq_sched cap ts (Turn t # es) r = (if t \<in> set ts then Option.bind (wq_turn cap t r) (wq_sched cap ts es) else None)"

end
