(* ===== verification/WaitQueueCorrect.thy ===== *)
theory WaitQueueCorrect
  imports WaitQueue
begin

text \<open>
  What the wait queue keeps in every interleaving: the list holds exactly the waiters that
  were not woken yet, and no wake-up of all waiters passes one by.  Races with a close, and
  wake-ups of more waiters than a batch, can go wrong.
\<close>

section \<open>The invariant\<close>

fun holds :: "wq_pc \<Rightarrow> bool" where
  "holds Panicked = True"
| "holds WakeLoad = True"
| "holds (WakeLocked q) = True"
| "holds (StoreUnlock q) = True"
| "holds AllLoad = True"
| "holds (AllGot q) = True"
| "holds (PollLoad n k) = True"
| "holds (PollLoop n k q) = True"
| "holds (DropLoad n) = True"
| "holds (DropGot n q) = True"
| "holds (DropStore q cur one) = True"
| "holds _ = False"

fun drains :: "wq_pc \<Rightarrow> bool" where
  "drains AllDrain = True"
| "drains CloseDrain = True"
| "drains _ = False"

definition draining :: "wq_run \<Rightarrow> bool" where
  "draining r \<longleftrightarrow> (\<exists>t. drains (wr_pc r t))"

definition wakeable :: "waiter \<Rightarrow> bool" where
  "wakeable w \<longleftrightarrow> wt_waker w = WkEmpty \<or> (\<exists>k. wt_waker w = WkWaiting k)"

definition in_state :: "wait_state \<Rightarrow> wait_queue \<Rightarrow> nat \<Rightarrow> bool" where
  "in_state s wq n \<longleftrightarrow> (\<exists>w. wq_nodes wq n = Some w \<and> wt_state w = s)"

text \<open>What a thread relies on between its turns; \<open>d\<close> says that a drain is still to come.\<close>

fun local_ok :: "bool \<Rightarrow> wait_queue \<Rightarrow> wq_pc \<Rightarrow> bool" where
  "local_ok d wq (WaitNew n) \<longleftrightarrow> wq_nodes wq n = None"
| "local_ok d wq (PollStart n k) \<longleftrightarrow> wq_nodes wq n \<noteq> None"
| "local_ok d wq (PollCas n k q) \<longleftrightarrow> in_state WStart wq n"
| "local_ok d wq (PollLock n k) \<longleftrightarrow> in_state WStart wq n"
| "local_ok d wq (PollLoad n k) \<longleftrightarrow> in_state WStart wq n"
| "local_ok d wq (PollLoop n k q) \<longleftrightarrow>
     (\<exists>w. wq_nodes wq n = Some w \<and> wt_state w = WStart \<and> wt_wake_alls w = qw_wake_alls (wq_word wq)) \<and>
     qw_wake_alls q = qw_wake_alls (wq_word wq) \<and> (qw_state q = QWaiting \<longrightarrow> qw_state (wq_word wq) = QWaiting \<or> d)"
| "local_ok d wq (DropStart n) \<longleftrightarrow> wq_nodes wq n \<noteq> None"
| "local_ok d wq (DropLoad n) \<longleftrightarrow> in_state WWaiting wq n"
| "local_ok d wq (DropGot n q) \<longleftrightarrow> in_state WWaiting wq n \<and> qw_wake_alls q = qw_wake_alls (wq_word wq) \<and>
     (qw_state (wq_word wq) = QWaiting \<longrightarrow> qw_state q = QWaiting)"
| "local_ok d wq (DropStore q cur one) \<longleftrightarrow> qw_wake_alls q = qw_wake_alls (wq_word wq) \<and>
     qw_wake_alls cur = qw_wake_alls (wq_word wq) \<and> wq_list wq = [] \<and> qw_state q = QEmpty \<and> qw_state cur = QWaiting"
| "local_ok d wq (WakeLocked cur) \<longleftrightarrow> qw_wake_alls cur = qw_wake_alls (wq_word wq) \<and>
     (qw_state (wq_word wq) = QWaiting \<longrightarrow> qw_state cur = QWaiting)"
| "local_ok d wq (StoreUnlock q) \<longleftrightarrow> qw_wake_alls q = qw_wake_alls (wq_word wq) \<and>
     (wq_list wq = [] \<or> d) \<and> qw_state q \<in> {QEmpty, QWoken}"
| "local_ok d wq (AllGot s) \<longleftrightarrow> (qw_state (wq_word wq) = QWaiting \<longrightarrow> qw_state s = QWaiting)"
| "local_ok d wq _ \<longleftrightarrow> True"

definition queue_ok :: "bool \<Rightarrow> wait_queue \<Rightarrow> bool" where
  "queue_ok d wq \<longleftrightarrow> distinct (wq_list wq) \<and>
     (\<forall>n. n \<in> set (wq_list wq) \<longleftrightarrow> (\<exists>w. wq_nodes wq n = Some w \<and> wt_state w = WWaiting \<and> wakeable w)) \<and>
     (\<forall>n w. wq_nodes wq n = Some w \<longrightarrow> wt_state w = WStart \<longrightarrow> wt_waker w = WkEmpty) \<and>
     (\<forall>n \<in> set (wq_list wq). \<forall>w. wq_nodes wq n = Some w \<longrightarrow> wt_wake_alls w = qw_wake_alls (wq_word wq) \<or> d) \<and>
     (wq_list wq \<noteq> [] \<longrightarrow> qw_state (wq_word wq) = QWaiting \<or> d)"

definition wq_inv :: "wq_run \<Rightarrow> bool" where
  "wq_inv r \<longleftrightarrow>
     (\<forall>t. holds (wr_pc r t) \<longleftrightarrow> wq_lock (wr_queue r) = Some t) \<and>
     (\<forall>t t' n. pc_waiter (wr_pc r t) = Some n \<longrightarrow> pc_waiter (wr_pc r t') = Some n \<longrightarrow> t = t') \<and>
     (\<forall>t. local_ok (draining r) (wr_queue r) (wr_pc r t)) \<and>
     queue_ok (draining r) (wr_queue r)"

text \<open>How nodes and the word may change under the feet of another thread.\<close>

definition nodes_kept :: "nat option \<Rightarrow> wait_queue \<Rightarrow> wait_queue \<Rightarrow> bool" where
  "nodes_kept own wq wq' \<longleftrightarrow> (\<forall>n. Some n \<noteq> own \<longrightarrow>
     rel_option (\<lambda>w w'. wt_state w = wt_state w' \<and> wt_wake_alls w = wt_wake_alls w') (wq_nodes wq n) (wq_nodes wq' n))"

definition word_kept :: "bool \<Rightarrow> queue_word \<Rightarrow> queue_word \<Rightarrow> bool" where
  "word_kept d q q' \<longleftrightarrow> qw_wake_alls q' = qw_wake_alls q \<and> (qw_state q' = QWaiting \<longrightarrow> qw_state q = QWaiting) \<and>
     (qw_state q = QWaiting \<longrightarrow> qw_state q' = QWaiting \<or> d)"

lemma nodes_keptD:
  assumes "nodes_kept own wq wq'" "Some n \<noteq> own"
  shows "wq_nodes wq' n = None \<longleftrightarrow> wq_nodes wq n = None" "in_state s wq' n \<longleftrightarrow> in_state s wq n"
    "wq_nodes wq n = Some w \<Longrightarrow> \<exists>w'. wq_nodes wq' n = Some w' \<and> wt_state w' = wt_state w \<and> wt_wake_alls w' = wt_wake_alls w"
proof -
  have "rel_option (\<lambda>w w'. wt_state w = wt_state w' \<and> wt_wake_alls w = wt_wake_alls w') (wq_nodes wq n) (wq_nodes wq' n)"
    using assms unfolding nodes_kept_def by blast
  then show "wq_nodes wq' n = None \<longleftrightarrow> wq_nodes wq n = None" "in_state s wq' n \<longleftrightarrow> in_state s wq n"
    "wq_nodes wq n = Some w \<Longrightarrow> \<exists>w'. wq_nodes wq' n = Some w' \<and> wt_state w' = wt_state w \<and> wt_wake_alls w' = wt_wake_alls w"
    by (cases rule: option.rel_cases; simp add: in_state_def)+
qed

lemma local_ok_interfere:
  assumes "local_ok d wq pc" "nodes_kept own wq wq'" "pc_waiter pc = None \<or> pc_waiter pc \<noteq> own"
    "holds pc \<Longrightarrow> wq_list wq' = wq_list wq \<and> word_kept d' (wq_word wq) (wq_word wq') \<and> (d \<longrightarrow> d')"
  shows "local_ok d' wq' pc"
proof (cases pc)
  case (PollLoop n k q)
  then obtain w where w: "wq_nodes wq n = Some w" "wt_state w = WStart" "wt_wake_alls w = qw_wake_alls (wq_word wq)"
    using assms(1) by auto
  have "Some n \<noteq> own" using assms(3) PollLoop by simp
  from nodes_keptD(3) [OF assms(2) this w(1)] w show ?thesis using assms(1,4) PollLoop by (auto simp: word_kept_def)
qed (use assms nodes_keptD(1,2) [OF assms(2)] in \<open>auto simp: word_kept_def\<close>)

text \<open>A turn keeps the invariant when it keeps its own part and does not disturb the others.\<close>

lemma inv_goto:
  assumes inv: "wq_inv r"
    and lock: "if holds pc' then wq_lock wq' = Some t \<and> (holds (wr_pc r t) \<or> wq_lock (wr_queue r) = None)
      else if holds (wr_pc r t) then wq_lock wq' = None else wq_lock wq' = wq_lock (wr_queue r)"
    and own: "pc_waiter pc' = None \<or> pc_waiter pc' = pc_waiter (wr_pc r t)"
    and nodes: "nodes_kept (pc_waiter (wr_pc r t)) (wr_queue r) wq'"
    and word: "\<not> holds (wr_pc r t) \<Longrightarrow> wq_lock (wr_queue r) \<noteq> None \<Longrightarrow>
      wq_list wq' = wq_list (wr_queue r) \<and> word_kept (draining (goto t pc' wq' r)) (wq_word (wr_queue r)) (wq_word wq') \<and>
      (drains (wr_pc r t) \<longrightarrow> drains pc')"
    and mine: "local_ok (draining (goto t pc' wq' r)) wq' pc'"
    and queue: "queue_ok (draining (goto t pc' wq' r)) wq'"
  shows "wq_inv (goto t pc' wq' r)"
proof -
  have i: "\<And>t. holds (wr_pc r t) \<longleftrightarrow> wq_lock (wr_queue r) = Some t"
    "\<And>t t' n. pc_waiter (wr_pc r t) = Some n \<Longrightarrow> pc_waiter (wr_pc r t') = Some n \<Longrightarrow> t = t'"
    "\<And>t. local_ok (draining r) (wr_queue r) (wr_pc r t)"
    using inv by (auto simp: wq_inv_def)
  let ?r = "goto t pc' wq' r"
  have "holds (wr_pc ?r t') \<longleftrightarrow> wq_lock wq' = Some t'" for t'
    using lock i(1) [of t] i(1) [of t'] by (auto simp: goto_def split: if_splits)
  moreover have "pc_waiter (wr_pc r t') = Some n" if "pc_waiter (wr_pc ?r t') = Some n" for t' n
    using that own by (auto simp: goto_def split: if_splits)
  then have "t1 = t2" if "pc_waiter (wr_pc ?r t1) = Some n" "pc_waiter (wr_pc ?r t2) = Some n" for t1 t2 n
    using that i(2) by blast
  moreover have "local_ok (draining ?r) wq' (wr_pc ?r t')" for t'
  proof (cases "t' = t")
    case False
    have "local_ok (draining ?r) wq' (wr_pc r t')"
    proof (rule local_ok_interfere [OF i(3) nodes])
      show "pc_waiter (wr_pc r t') = None \<or> pc_waiter (wr_pc r t') \<noteq> pc_waiter (wr_pc r t)"
        using i(2) [of t' _ t] False by (cases "pc_waiter (wr_pc r t')") auto
      assume h: "holds (wr_pc r t')"
      then have "\<not> holds (wr_pc r t)" "wq_lock (wr_queue r) \<noteq> None" using i(1) [of t] i(1) [of t'] False by auto
      from word [OF this] have w: "wq_list wq' = wq_list (wr_queue r)" "word_kept (draining ?r) (wq_word (wr_queue r)) (wq_word wq')"
        "drains (wr_pc r t) \<longrightarrow> drains pc'" by auto
      have "draining r \<longrightarrow> draining ?r"
        using w(3) by (auto simp: draining_def goto_def)
      then show "wq_list wq' = wq_list (wr_queue r) \<and> word_kept (draining ?r) (wq_word (wr_queue r)) (wq_word wq') \<and> (draining r \<longrightarrow> draining ?r)"
        using w by simp
    qed
    then show ?thesis using False by (simp add: goto_def)
  qed (use mine in \<open>simp add: goto_def\<close>)
  moreover have "wr_queue ?r = wq'" by (simp add: goto_def)
  ultimately show ?thesis using queue unfolding wq_inv_def by simp
qed


lemma queue_ok_mono: "queue_ok d wq \<Longrightarrow> (d \<longrightarrow> d') \<Longrightarrow> queue_ok d' wq"
  by (auto simp: queue_ok_def)

lemma queue_listed:
  "queue_ok d wq \<Longrightarrow> n \<in> set (wq_list wq) \<longleftrightarrow> (\<exists>w. wq_nodes wq n = Some w \<and> wt_state w = WWaiting \<and> wakeable w)"
  by (simp add: queue_ok_def)

lemma draining_goto: "draining (goto t pc' wq' r) \<longleftrightarrow> drains pc' \<or> (\<exists>t'. t' \<noteq> t \<and> drains (wr_pc r t'))"
  by (auto simp: draining_def goto_def)

text \<open>The same for turns that do not end a drain.\<close>

lemma inv_turn:
  assumes "wq_inv r" "drains (wr_pc r t) \<longrightarrow> drains pc'"
    "if holds pc' then wq_lock wq' = Some t \<and> (holds (wr_pc r t) \<or> wq_lock (wr_queue r) = None)
      else if holds (wr_pc r t) then wq_lock wq' = None else wq_lock wq' = wq_lock (wr_queue r)"
    "pc_waiter pc' = None \<or> pc_waiter pc' = pc_waiter (wr_pc r t)"
    "nodes_kept (pc_waiter (wr_pc r t)) (wr_queue r) wq'"
    "\<not> holds (wr_pc r t) \<Longrightarrow> wq_lock (wr_queue r) \<noteq> None \<Longrightarrow>
      wq_list wq' = wq_list (wr_queue r) \<and> word_kept (draining r \<or> drains pc') (wq_word (wr_queue r)) (wq_word wq')"
    "local_ok (draining r \<or> drains pc') wq' pc'" "queue_ok (draining r \<or> drains pc') wq'"
  shows "wq_inv (goto t pc' wq' r)"
proof -
  have d: "draining (goto t pc' wq' r) = (draining r \<or> drains pc')"
    using assms(2) draining_goto [of t pc' wq' r] draining_def [of r] by metis
  show ?thesis
  proof (rule inv_goto [OF assms(1,3,4,5)])
    assume "\<not> holds (wr_pc r t)" "wq_lock (wr_queue r) \<noteq> None"
    from assms(6) [OF this] show "wq_list wq' = wq_list (wr_queue r) \<and>
        word_kept (draining (goto t pc' wq' r)) (wq_word (wr_queue r)) (wq_word wq') \<and> (drains (wr_pc r t) \<longrightarrow> drains pc')"
      using assms(2) unfolding d by blast
  qed (use assms(7,8) d in simp_all)
qed

lemma nodes_kept_refl [simp]: "wq_nodes wq' = wq_nodes wq \<Longrightarrow> nodes_kept own wq wq'"
  by (simp add: nodes_kept_def option.rel_refl)

lemma wq_invD:
  assumes "wq_inv r"
  shows "holds (wr_pc r t) \<longleftrightarrow> wq_lock (wr_queue r) = Some t" "local_ok (draining r) (wr_queue r) (wr_pc r t)"
    "queue_ok (draining r) (wr_queue r)"
  using assms by (auto simp: wq_inv_def)

lemma inv_wakes: "wq_inv (wakes ks r) \<longleftrightarrow> wq_inv r"
  by (simp add: wq_inv_def wakes_def draining_def)

lemma wakes_goto: "goto t pc wq (wakes ks r) = wakes ks (goto t pc wq r)"
  by (simp add: wakes_def goto_def)

lemmas state_simps = unlocked_def set_word_def set_node_def with_state_def one_wake_all_def

section \<open>Draining\<close>

definition marked :: "wakeup \<Rightarrow> nat set \<Rightarrow> (nat \<Rightarrow> waiter option) \<Rightarrow> nat \<Rightarrow> waiter option" where
  "marked wk A nodes n = (if n \<in> A then map_option (\<lambda>w. w\<lparr>wt_waker := wk\<rparr>) (nodes n) else nodes n)"

lemma node_wake_wakeable: "wakeable w \<Longrightarrow> \<exists>k. node_wake wk w = Some (w\<lparr>wt_waker := wk\<rparr>, k)"
  by (auto simp: wakeable_def node_wake_def)

lemma drain_batch_spec:
  assumes "distinct ns" "\<forall>n \<in> set ns. \<exists>w. nodes n = Some w \<and> wakeable w"
  shows "\<exists>taken rest ks. drain_batch room wk nodes ns = Some (marked wk (set taken) nodes, rest, ks) \<and> ns = taken @ rest"
  using assms
proof (induction ns arbitrary: room nodes)
  case Nil
  have "marked wk {} nodes = nodes" by (rule ext) (simp add: marked_def)
  then show ?case by simp
next
  case (Cons n ns)
  obtain w where w: "nodes n = Some w" "wakeable w" using Cons.prems(2) by auto
  obtain k where k: "node_wake wk w = Some (w\<lparr>wt_waker := wk\<rparr>, k)" using node_wake_wakeable [OF w(2)] by blast
  let ?nodes = "nodes(n \<mapsto> w\<lparr>wt_waker := wk\<rparr>)"
  have m: "marked wk (set taken) ?nodes = marked wk (set (n # taken)) nodes" if "n \<notin> set taken" for taken
    using that w(1) by (intro ext) (auto simp: marked_def)
  have ih: "\<exists>taken rest ks. drain_batch room' wk ?nodes ns = Some (marked wk (set taken) ?nodes, rest, ks) \<and> ns = taken @ rest" for room'
    using Cons.prems by (intro Cons.IH) auto
  show ?case
  proof (cases k)
    case None
    from ih [of room] obtain taken rest ks where d: "drain_batch room wk ?nodes ns = Some (marked wk (set taken) ?nodes, rest, ks)" "ns = taken @ rest"
      by blast
    then show ?thesis using None k w(1) m [of taken] Cons.prems(1) by - (rule exI [of _ "n # taken"], simp)
  next
    case (Some kk)
    show ?thesis
    proof (cases "room \<le> 1")
      case True
      then show ?thesis using Some k w(1) m [of "[]"] by - (rule exI [of _ "[n]"], simp add: marked_def [abs_def])
    next
      case False
      from ih [of "room - 1"] obtain taken rest ks where
        d: "drain_batch (room - 1) wk ?nodes ns = Some (marked wk (set taken) ?nodes, rest, ks)" "ns = taken @ rest" by blast
      then show ?thesis using Some False k w(1) m [of taken] Cons.prems(1) by - (rule exI [of _ "n # taken"], simp)
    qed
  qed
qed

lemma queue_ok_marked:
  assumes "queue_ok d wq" "wq_list wq = taken @ rest" "\<not> wakeable \<lparr>wt_state = WWaiting, wt_wake_alls = 0, wt_waker = wk\<rparr>"
    "rest \<noteq> [] \<longrightarrow> d'" "wq_list wq' = rest" "wq_nodes wq' = marked wk (set taken) (wq_nodes wq)"
  shows "queue_ok d' wq'"
proof -
  have q: "distinct (taken @ rest)" "\<And>n. n \<in> set (taken @ rest) \<longleftrightarrow> (\<exists>w. wq_nodes wq n = Some w \<and> wt_state w = WWaiting \<and> wakeable w)"
    "\<And>n w. wq_nodes wq n = Some w \<Longrightarrow> wt_state w = WStart \<Longrightarrow> wt_waker w = WkEmpty"
    using assms(1,2) by (auto simp: queue_ok_def)
  have w: "\<not> wakeable (w\<lparr>wt_waker := wk\<rparr>)" for w using assms(3) by (simp add: wakeable_def)
  have "n \<in> set rest \<longleftrightarrow> (\<exists>w. marked wk (set taken) (wq_nodes wq) n = Some w \<and> wt_state w = WWaiting \<and> wakeable w)" for n
    using q(1) q(2) [of n] w by (auto simp: marked_def)
  moreover have "wt_waker w = WkEmpty" if "marked wk (set taken) (wq_nodes wq) n = Some w" "wt_state w = WStart" for n w
  proof (cases "n \<in> set taken")
    case True
    then show ?thesis using that q(2) [of n] by (auto simp: marked_def)
  qed (use that q(3) in \<open>auto simp: marked_def\<close>)
  ultimately show ?thesis using assms(4-6) q(1) by (auto simp: queue_ok_def)
qed

lemma nodes_kept_marked: "wq_nodes wq' = marked wk A (wq_nodes wq) \<Longrightarrow> nodes_kept own wq wq'"
  by (auto simp: nodes_kept_def marked_def rel_option_iff split: option.splits)

text \<open>One batch, from the lock being free or from its holder.\<close>

lemma inv_drain:
  assumes inv: "wq_inv r" and pc: "pc_waiter (wr_pc r t) = None" "drains again" "pc_waiter again = None" "\<not> holds again"
      "\<And>d wq. local_ok d wq again"
    and lock: "holds (wr_pc r t) \<or> wq_lock (wr_queue r) = None"
    and wk: "wk \<in> {WkAll, WkClosed}"
    and wq: "wq_list wq = wq_list (wr_queue r)" "wq_nodes wq = wq_nodes (wr_queue r)"
  shows "wq_inv (drain_turn cap t wk again wq r)"
proof -
  note q = wq_invD(3) [OF inv]
  have "distinct (wq_list wq)" "\<forall>n \<in> set (wq_list wq). \<exists>w. wq_nodes wq n = Some w \<and> wakeable w"
    using q wq by (auto simp: queue_ok_def)
  from drain_batch_spec [OF this, of cap wk] obtain taken rest ks where
    d: "drain_batch cap wk (wq_nodes wq) (wq_list wq) = Some (marked wk (set taken) (wq_nodes wq), rest, ks)" "wq_list wq = taken @ rest" by blast
  let ?wq = "unlocked (wq\<lparr>wq_nodes := marked wk (set taken) (wq_nodes wq), wq_list := rest\<rparr>)"
  let ?pc = "if rest = [] then Done Finished else again"
  have "wq_inv (goto t ?pc ?wq r)"
  proof (rule inv_goto [OF inv])
    show "queue_ok (draining (goto t ?pc ?wq r)) ?wq"
      by (rule queue_ok_marked [OF q, of taken rest wk])
        (use d(2) wq pc wk in \<open>auto simp: draining_goto wakeable_def unlocked_def\<close>)
    show "nodes_kept (pc_waiter (wr_pc r t)) (wr_queue r) ?wq"
      by (rule nodes_kept_marked [where A = "set taken" and wk = wk]) (simp add: unlocked_def wq(2))
  qed (use pc lock in \<open>auto simp: unlocked_def\<close>)
  then show ?thesis by (simp add: drain_turn_def d(1) wakes_goto inv_wakes)
qed


section \<open>Every turn keeps the invariant\<close>

lemma inv_wake_locked:
  assumes inv: "wq_inv r" and pc: "wr_pc r t = WakeLocked cur"
  shows "wq_inv (wake_locked t cur r)"
proof -
  let ?wq = "wr_queue r"
  note q = wq_invD(3) [OF inv]
  have lo: "qw_wake_alls cur = qw_wake_alls (wq_word ?wq)" "qw_state (wq_word ?wq) = QWaiting \<longrightarrow> qw_state cur = QWaiting"
    using wq_invD(2) [OF inv, of t] pc by simp_all
  have lk: "wq_lock ?wq = Some t" using wq_invD(1) [OF inv, of t] pc by simp
  show ?thesis
  proof (cases "qw_state cur = QWaiting")
    case False
    then have e: "wq_list ?wq = [] \<or> draining r" using q lo(2) by (auto simp: queue_ok_def)
    show ?thesis
    proof (cases "wq_word ?wq = cur")
      case True
      have "wq_inv (goto t (Done Finished) (unlocked (set_word (with_state cur QWoken) ?wq)) r)"
        by (rule inv_turn [OF inv]) (use pc lk q e lo in \<open>auto simp: state_simps queue_ok_def\<close>)
      then show ?thesis using True \<open>qw_state cur \<noteq> QWaiting\<close> by (simp add: wake_locked_def Let_def)
    next
      case False
      have "wq_inv (goto t (StoreUnlock (with_state (wq_word ?wq) QWoken)) ?wq r)"
        by (rule inv_turn [OF inv]) (use pc lk q e in \<open>auto simp: state_simps\<close>)
      then show ?thesis using False \<open>qw_state cur \<noteq> QWaiting\<close> by (simp add: wake_locked_def Let_def)
    qed
  next
    case w: True
    show ?thesis
    proof (cases "wq_list ?wq")
      case Nil
      have "wq_inv (goto t Panicked (?wq\<lparr>wq_lock := Some t\<rparr>) r)"
        by (rule inv_turn [OF inv]) (use pc lk q in \<open>auto simp: queue_ok_def\<close>)
      then show ?thesis using w Nil by (simp add: wake_locked_def panic_def)
    next
      case (Cons n ns)
      obtain wt where wt: "wq_nodes ?wq n = Some wt" "wt_state wt = WWaiting" "wakeable wt"
        using queue_listed [OF q, of n] Cons by auto
      obtain k where k: "node_wake WkOne wt = Some (wt\<lparr>wt_waker := WkOne\<rparr>, k)" using node_wake_wakeable [OF wt(3)] by blast
      let ?wq' = "set_node n (wt\<lparr>wt_waker := WkOne\<rparr>) (?wq\<lparr>wq_list := ns\<rparr>)"
      have nw: "\<not> wakeable (wt\<lparr>wt_waker := WkOne\<rparr>)" by (simp add: wakeable_def)
      have q': "queue_ok d ?wq'" if "draining r \<longrightarrow> d" for d
      proof -
        have "queue_ok d ?wq" using q that by (rule queue_ok_mono)
        then show ?thesis using Cons wt nw by (auto simp: queue_ok_def state_simps)
      qed
      have nk: "nodes_kept own ?wq ?wq'" for own
        using wt by (auto simp: nodes_kept_def state_simps option.rel_refl)
      show ?thesis
      proof (cases "ns = []")
        case True
        have "wq_inv (goto t (StoreUnlock (with_state cur QEmpty)) ?wq' r)"
          by (rule inv_turn [OF inv]) (use pc lk q' nk lo True in \<open>auto simp: state_simps\<close>)
        then show ?thesis using w Cons wt k True by (simp add: wake_locked_def Let_def wakes_goto inv_wakes)
      next
        case False
        have "wq_inv (goto t (Done Finished) (unlocked ?wq') r)"
        proof (rule inv_turn [OF inv])
          show "queue_ok (draining r \<or> drains (Done Finished)) (unlocked ?wq')"
            using q' [of "draining r"] by (simp add: queue_ok_def unlocked_def)
          show "nodes_kept (pc_waiter (wr_pc r t)) ?wq (unlocked ?wq')"
            using nk by (simp add: nodes_kept_def unlocked_def)
        qed (use pc lk in \<open>auto simp: state_simps\<close>)
        then show ?thesis using w Cons wt k False by (simp add: wake_locked_def Let_def wakes_goto inv_wakes)
      qed
    qed
  qed
qed

text \<open>A waiter whose thread it is may be changed at will.\<close>

lemma nodes_kept_own: "(\<And>m. m \<noteq> n \<Longrightarrow> wq_nodes wq' m = wq_nodes wq m) \<Longrightarrow> nodes_kept (Some n) wq wq'"
  by (auto simp: nodes_kept_def option.rel_refl)

lemma inv_enqueue:
  assumes inv: "wq_inv r" and pc: "wr_pc r t = PollLoop n k q" and w: "wq_nodes (wr_queue r) n = Some w"
    and wq: "wq_nodes wq = wq_nodes (wr_queue r)" "wq_list wq = wq_list (wr_queue r)"
      "qw_wake_alls (wq_word wq) = qw_wake_alls (wq_word (wr_queue r))" "qw_state (wq_word wq) = QWaiting \<or> draining r"
  shows "wq_inv (enqueue t n k w wq r)"
proof -
  note qo = wq_invD(3) [OF inv]
  have lo: "wt_state w = WStart" "wt_wake_alls w = qw_wake_alls (wq_word (wr_queue r))"
    using wq_invD(2) [OF inv, of t] pc w by auto
  have emp: "wt_waker w = WkEmpty" and nl: "n \<notin> set (wq_list (wr_queue r))"
    using qo w lo(1) by (auto simp: queue_ok_def)
  let ?w = "w\<lparr>wt_state := WWaiting, wt_waker := (case k of Some k \<Rightarrow> WkWaiting k | None \<Rightarrow> wt_waker w)\<rparr>"
  have wk: "wakeable ?w" using emp by (auto simp: wakeable_def split: option.split)
  let ?wq = "unlocked (set_node n ?w (wq\<lparr>wq_list := wq_list wq @ [n]\<rparr>))"
  have "wq_inv (goto t (Done Pending) ?wq r)"
  proof (rule inv_turn [OF inv])
    show "nodes_kept (pc_waiter (wr_pc r t)) (wr_queue r) ?wq" using pc wq by (auto simp: state_simps intro: nodes_kept_own)
    show "queue_ok (draining r \<or> drains (Done Pending)) ?wq"
      using qo wq lo(2) nl wk w by (auto simp: queue_ok_def state_simps)
  qed (use pc in \<open>auto simp: state_simps\<close>)
  then show ?thesis by (simp add: enqueue_def Let_def)
qed

lemma inv_woken_now:
  assumes inv: "wq_inv r" and pc: "pc_waiter (wr_pc r t) = Some n" "\<not> drains (wr_pc r t)" and w: "wq_nodes (wr_queue r) n = Some w"
    and wt: "n \<notin> set (wq_list (wr_queue r))"
    and wq: "wq_nodes wq = wq_nodes (wr_queue r)" "wq_list wq = wq_list (wr_queue r)"
      "qw_wake_alls (wq_word wq) = qw_wake_alls (wq_word (wr_queue r))"
      "qw_state (wq_word wq) = QWaiting \<longleftrightarrow> qw_state (wq_word (wr_queue r)) = QWaiting"
      "wq_lock wq = (if holds (wr_pc r t) then None else wq_lock (wr_queue r))"
  shows "wq_inv (woken_now t n w wq r)"
  unfolding woken_now_def
proof (rule inv_turn [OF inv])
  show "nodes_kept (pc_waiter (wr_pc r t)) (wr_queue r) (set_node n (w\<lparr>wt_state := WWoken\<rparr>) wq)"
    using pc(1) wq by (auto simp: state_simps intro: nodes_kept_own)
  show "queue_ok (draining r \<or> drains (Done ReadyOk)) (set_node n (w\<lparr>wt_state := WWoken\<rparr>) wq)"
    using wq_invD(3) [OF inv] wq wt by (auto simp: queue_ok_def state_simps)
qed (use pc wq in \<open>auto simp: state_simps word_kept_def\<close>)


text \<open>Turns that only change the word or the lock, or nothing.\<close>

lemma inv_word:
  assumes inv: "wq_inv r" and pc: "\<not> drains (wr_pc r t)" "\<not> drains pc'"
    "pc_waiter pc' = None \<or> pc_waiter pc' = pc_waiter (wr_pc r t)"
    and wq: "wq_nodes wq' = wq_nodes (wr_queue r)" "wq_list wq' = wq_list (wr_queue r)"
    and lock: "if holds pc' then wq_lock wq' = Some t \<and> (holds (wr_pc r t) \<or> wq_lock (wr_queue r) = None)
      else if holds (wr_pc r t) then wq_lock wq' = None else wq_lock wq' = wq_lock (wr_queue r)"
    and word: "qw_wake_alls (wq_word wq') = qw_wake_alls (wq_word (wr_queue r))"
      "\<not> holds (wr_pc r t) \<Longrightarrow> qw_state (wq_word wq') = QWaiting \<longleftrightarrow> qw_state (wq_word (wr_queue r)) = QWaiting"
      "qw_state (wq_word (wr_queue r)) = QWaiting \<Longrightarrow> qw_state (wq_word wq') = QWaiting \<or> wq_list (wr_queue r) = [] \<or> draining r"
    and mine: "local_ok (draining r) wq' pc'"
  shows "wq_inv (goto t pc' wq' r)"
proof (rule inv_turn [OF inv])
  show "queue_ok (draining r \<or> drains pc') wq'"
    using wq_invD(3) [OF inv] wq word(1,3) pc(2) by (auto simp: queue_ok_def)
qed (use pc wq lock word mine in \<open>auto simp: word_kept_def\<close>)

lemma inv_take_lock:
  assumes "wq_inv r" "take_lock t pc' r = Some r'" "holds pc'" "\<not> holds (wr_pc r t)" "\<not> drains (wr_pc r t)" "\<not> drains pc'"
    "pc_waiter pc' = None \<or> pc_waiter pc' = pc_waiter (wr_pc r t)"
    "local_ok (draining r) ((wr_queue r)\<lparr>wq_lock := Some t\<rparr>) pc'"
  shows "wq_inv r'"
proof -
  have "wq_lock (wr_queue r) = None" "r' = goto t pc' ((wr_queue r)\<lparr>wq_lock := Some t\<rparr>) r"
    using assms(2) by (auto simp: take_lock_def split: if_splits)
  then show ?thesis using assms by (auto intro!: inv_word)
qed

text \<open>The turns by operation.\<close>

fun pc_group :: "wq_pc \<Rightarrow> nat" where
  "pc_group Idle = 0" | "pc_group (Done res) = 0" | "pc_group Panicked = 0"
| "pc_group WakeStart = 1" | "pc_group (WakeLoop s) = 1" | "pc_group WakeLock = 1" | "pc_group WakeLoad = 1"
| "pc_group (WakeLocked s) = 1" | "pc_group (StoreUnlock q) = 1"
| "pc_group (WaitNew n) = 3" | "pc_group (PollStart n k) = 3" | "pc_group (PollCas n k q) = 3"
| "pc_group (PollLock n k) = 3" | "pc_group (PollLoad n k) = 3" | "pc_group (PollLoop n k q) = 3"
| "pc_group (DropStart n) = 4" | "pc_group (DropLoad n) = 4" | "pc_group (DropGot n q) = 4" | "pc_group (DropStore q cur one) = 4"
| "pc_group _ = 2"

lemma inv_wake_turns:
  assumes inv: "wq_inv r" and turn: "wq_turn cap t r = Some r'"
    and pc: "pc_group (wr_pc r t) = 1"
  shows "wq_inv r'"
proof -
  note lo = wq_invD(2) [OF inv, of t] and lk = wq_invD(1) [OF inv, of t]
  consider "wr_pc r t = WakeStart" | s where "wr_pc r t = WakeLoop s" | "wr_pc r t = WakeLock" | "wr_pc r t = WakeLoad"
    | cur where "wr_pc r t = WakeLocked cur" | q where "wr_pc r t = StoreUnlock q"
    using pc by (cases "wr_pc r t") simp_all
  then show ?thesis
  proof cases
    case 2
    then show ?thesis using turn
      by (cases "qw_state s") (auto simp: turn_defs state_simps split: if_splits intro!: inv_word [OF inv])
  next
    case 3
    then show ?thesis using turn by (auto simp: turn_defs intro: inv_take_lock [OF inv, of t WakeLoad])
  next
    case 5
    then show ?thesis using turn inv_wake_locked [OF inv] by (auto simp: turn_defs)
  next
    case 6
    then show ?thesis using turn lo by (auto simp: turn_defs state_simps intro!: inv_word [OF inv])
  qed (use turn lk in \<open>auto simp: turn_defs intro!: inv_word [OF inv]\<close>)
qed

lemma inv_all_turns:
  assumes inv: "wq_inv r" and turn: "wq_turn cap t r = Some r'"
    and pc: "pc_group (wr_pc r t) = 2"
  shows "wq_inv r'"
proof -
  note lo = wq_invD(2) [OF inv, of t] and lk = wq_invD(1) [OF inv, of t] and qo = wq_invD(3) [OF inv]
  consider "wr_pc r t = AllLock" | "wr_pc r t = AllLoad" | "wr_pc r t = AllDrain" | "wr_pc r t = CloseOr" | "wr_pc r t = CloseDrain"
    | "wr_pc r t = TryStart" | s where "wr_pc r t = AllGot s" | i s where "wr_pc r t = TryLoop i s"
    using pc by (cases "wr_pc r t") simp_all
  then show ?thesis
  proof cases
    case 1
    then show ?thesis using turn by (auto simp: turn_defs intro: inv_take_lock [OF inv, of t AllLoad])
  next
    case 3
    then show ?thesis using turn by (auto simp: turn_defs split: if_splits intro!: inv_drain [OF inv])
  next
    case 4
    let ?pc = "if qw_state (wq_word (wr_queue r)) = QWaiting then CloseDrain else Done Finished"
    have "wq_inv (goto t ?pc (set_word (with_state (wq_word (wr_queue r)) QClosed) (wr_queue r)) r)"
    proof (rule inv_turn [OF inv])
      show "queue_ok (draining r \<or> drains ?pc) (set_word (with_state (wq_word (wr_queue r)) QClosed) (wr_queue r))"
        using qo by (auto simp: queue_ok_def state_simps)
    qed (use 4 in \<open>auto simp: state_simps word_kept_def\<close>)
    then show ?thesis using turn 4 by (simp add: turn_defs)
  next
    case 5
    then show ?thesis using turn by (auto simp: turn_defs split: if_splits intro!: inv_drain [OF inv])
  next
    case 7
    show ?thesis
    proof (cases "qw_state s")
      case QWaiting
      then show ?thesis using 7 turn lk
        by (auto simp: turn_defs panic_def state_simps split: if_splits intro!: inv_drain [OF inv] inv_word [OF inv])
    next
      case QClosed
      then show ?thesis using 7 turn lk by (auto simp: turn_defs state_simps intro!: inv_word [OF inv])
    next
      case QEmpty
      have "wq_inv (goto t (Done Finished) (unlocked (set_word (one_wake_all (wq_word (wr_queue r))) (wr_queue r))) r)"
        by (rule inv_turn [OF inv]) (use 7 QEmpty lo lk qo in \<open>auto simp: queue_ok_def state_simps\<close>)
      then show ?thesis using 7 turn QEmpty by (simp add: turn_defs)
    next
      case QWoken
      have "wq_inv (goto t (Done Finished) (unlocked (set_word (one_wake_all (wq_word (wr_queue r))) (wr_queue r))) r)"
        by (rule inv_turn [OF inv]) (use 7 QWoken lo lk qo in \<open>auto simp: queue_ok_def state_simps\<close>)
      then show ?thesis using 7 turn QWoken by (simp add: turn_defs)
    qed
  qed (use turn lk in \<open>auto simp: turn_defs state_simps split: if_splits intro!: inv_word [OF inv]\<close>)
qed


lemma not_listed: "queue_ok d wq \<Longrightarrow> in_state WStart wq n \<Longrightarrow> n \<notin> set (wq_list wq)"
  by (auto simp: queue_listed in_state_def)

lemma inv_set_node:
  assumes inv: "wq_inv r" and pc: "pc_waiter (wr_pc r t) = Some n" "\<not> drains (wr_pc r t)" "\<not> holds (wr_pc r t)"
    and w: "wq_nodes (wr_queue r) n = Some w" "wt_state w \<noteq> WStart" "wt_state w' \<noteq> WStart" "wt_wake_alls w' = wt_wake_alls w"
      "wakeable w' \<and> wt_state w' = WWaiting \<longleftrightarrow> wakeable w \<and> wt_state w = WWaiting"
  shows "wq_inv (goto t (Done res) (set_node n w' (wr_queue r)) r)"
proof (rule inv_turn [OF inv])
  show "nodes_kept (pc_waiter (wr_pc r t)) (wr_queue r) (set_node n w' (wr_queue r))"
    using pc(1) by (auto simp: state_simps intro: nodes_kept_own)
  show "queue_ok (draining r \<or> drains (Done res)) (set_node n w' (wr_queue r))"
    using wq_invD(3) [OF inv] w by (auto simp: queue_ok_def state_simps)
qed (use pc in \<open>auto simp: state_simps word_kept_def\<close>)

lemma inv_poll_turns:
  assumes inv: "wq_inv r" and turn: "wq_turn cap t r = Some r'"
    and pc: "pc_group (wr_pc r t) = 3"
  shows "wq_inv r'"
proof -
  note lo = wq_invD(2) [OF inv, of t] and lk = wq_invD(1) [OF inv, of t] and qo = wq_invD(3) [OF inv]
  let ?wq = "wr_queue r"
  consider n where "wr_pc r t = WaitNew n" | n k where "wr_pc r t = PollStart n k" | n k q where "wr_pc r t = PollCas n k q"
    | n k where "wr_pc r t = PollLock n k" | n k where "wr_pc r t = PollLoad n k" | n k q where "wr_pc r t = PollLoop n k q"
    using pc by (cases "wr_pc r t") simp_all
  then show ?thesis
  proof cases
    case (1 n)
    have "wq_inv (goto t (Done Finished) (set_node n (wq_waiter ?wq) ?wq) r)"
    proof (rule inv_turn [OF inv])
      show "nodes_kept (pc_waiter (wr_pc r t)) ?wq (set_node n (wq_waiter ?wq) ?wq)"
        using 1 by (auto simp: state_simps intro: nodes_kept_own)
      show "queue_ok (draining r \<or> drains (Done Finished)) (set_node n (wq_waiter ?wq) ?wq)"
        using qo lo 1 by (auto simp: queue_ok_def state_simps wq_waiter_def)
    qed (use 1 in \<open>auto simp: state_simps word_kept_def\<close>)
    then show ?thesis using 1 turn by (simp add: turn_defs)
  next
    case (2 n k)
    then obtain w where w: "wq_nodes ?wq n = Some w" using lo by auto
    show ?thesis
    proof (cases "wt_state w")
      case WStart
      then show ?thesis using 2 turn w
        by (auto simp: turn_defs poll_start_def Let_def in_state_def intro!: inv_word [OF inv])
    next
      case WWoken
      then show ?thesis using 2 turn w
        by (auto simp: turn_defs poll_start_def Let_def intro!: inv_word [OF inv])
    next
      case WWaiting
      obtain w' res where p: "poll_waiting k w = (w', res)" by (cases "poll_waiting k w") auto
      have "wt_state w' \<noteq> WStart" "wt_wake_alls w' = wt_wake_alls w"
        "wakeable w' \<and> wt_state w' = WWaiting \<longleftrightarrow> wakeable w \<and> wt_state w = WWaiting"
        using p WWaiting by (auto simp: poll_waiting_def wakeable_def split: wakeup.splits option.splits)
      then have "wq_inv (goto t (Done res) (set_node n w' ?wq) r)"
        using 2 w WWaiting by (intro inv_set_node [OF inv]) auto
      then show ?thesis using 2 turn w WWaiting p by (auto simp: turn_defs poll_start_def Let_def split: if_splits)
    qed
  next
    case (3 n k q)
    then obtain w where w: "wq_nodes ?wq n = Some w" "wt_state w = WStart" using lo by (auto simp: in_state_def)
    have nl: "n \<notin> set (wq_list ?wq)" using not_listed [OF qo] w by (auto simp: in_state_def)
    show ?thesis
    proof (cases "wq_word ?wq = with_state q QWoken")
      case True
      have "wq_inv (woken_now t n w (set_word (with_state q QEmpty) ?wq) r)"
        by (rule inv_woken_now [OF inv]) (use 3 w nl True in \<open>auto simp: state_simps\<close>)
      then show ?thesis using 3 turn w True by (simp add: turn_defs)
    next
      case False
      then show ?thesis using 3 turn lo by (auto simp: turn_defs intro!: inv_word [OF inv])
    qed
  next
    case (4 n k)
    then show ?thesis using turn lo
      by (auto simp: turn_defs in_state_def intro: inv_take_lock [OF inv, of t "PollLoad n k"])
  next
    case (5 n k)
    then obtain w where w: "wq_nodes ?wq n = Some w" "wt_state w = WStart" using lo by (auto simp: in_state_def)
    have nl: "n \<notin> set (wq_list ?wq)" using not_listed [OF qo] w by (auto simp: in_state_def)
    show ?thesis
    proof (cases "qw_wake_alls (wq_word ?wq) = wt_wake_alls w")
      case True
      then show ?thesis using 5 turn lk w by (auto simp: turn_defs intro!: inv_word [OF inv])
    next
      case False
      have "wq_inv (woken_now t n w (unlocked ?wq) r)"
        by (rule inv_woken_now [OF inv]) (use 5 w nl in \<open>auto simp: state_simps\<close>)
      then show ?thesis using 5 turn w False by (simp add: turn_defs)
    qed
  next
    case (6 n k q)
    then obtain w where w: "wq_nodes ?wq n = Some w" "wt_state w = WStart" "wt_wake_alls w = qw_wake_alls (wq_word ?wq)"
      "qw_wake_alls q = qw_wake_alls (wq_word ?wq)" "qw_state q = QWaiting \<longrightarrow> qw_state (wq_word ?wq) = QWaiting \<or> draining r"
      using lo by auto
    have nl: "n \<notin> set (wq_list ?wq)" using not_listed [OF qo] w by (auto simp: in_state_def)
    have r': "r' = poll_loop t n k q w r" using 6 turn w(1) by (simp add: turn_defs)
    have again: "wq_inv (goto t (PollLoop n k (wq_word ?wq)) ?wq r)"
      by (rule inv_word [OF inv]) (use 6 w lk in auto)
    show ?thesis
    proof (cases "qw_state q")
      case QEmpty
      have "wq_inv (enqueue t n k w (set_word (with_state q QWaiting) ?wq) r)"
        by (rule inv_enqueue [OF inv 6]) (use w in \<open>auto simp: state_simps\<close>)
      then show ?thesis using again QEmpty r' by (simp add: poll_loop_def Let_def)
    next
      case QWaiting
      have "wq_inv (enqueue t n k w ?wq r)" by (rule inv_enqueue [OF inv 6]) (use w QWaiting in auto)
      then show ?thesis using QWaiting r' by (simp add: poll_loop_def Let_def)
    next
      case QWoken
      have "wq_inv (woken_now t n w (unlocked (set_word (with_state q QEmpty) ?wq)) r)" if "wq_word ?wq = q"
        by (rule inv_woken_now [OF inv]) (use 6 w(1,4) nl QWoken in \<open>simp_all add: state_simps that\<close>)
      then show ?thesis using again QWoken r' by (simp add: poll_loop_def Let_def)
    next
      case QClosed
      have "wq_inv (goto t (Done ReadyClosed) (unlocked ?wq) r)"
        by (rule inv_word [OF inv]) (use 6 lk in \<open>auto simp: unlocked_def\<close>)
      then show ?thesis using QClosed r' by (simp add: poll_loop_def Let_def)
    qed
  qed
qed

lemma queue_ok_delete:
  assumes "queue_ok d wq" "wq_nodes wq n = Some w" "wt_state w \<noteq> WStart"
    "wq_nodes wq' = (wq_nodes wq)(n := None)" "wq_list wq' = remove1 n (wq_list wq)" "wq_word wq' = wq_word wq"
  shows "queue_ok d wq'"
proof -
  have "distinct (wq_list wq)" using assms(1) by (simp add: queue_ok_def)
  then have s: "set (wq_list wq') = set (wq_list wq) - {n}" "distinct (wq_list wq')" by (simp_all add: assms(5))
  moreover have "wq_list wq' \<noteq> [] \<longrightarrow> wq_list wq \<noteq> []" using assms(5) by auto
  ultimately show ?thesis using assms(1,4,6) by (auto simp: queue_ok_def)
qed

lemma inv_drop_turns:
  assumes inv: "wq_inv r" and turn: "wq_turn cap t r = Some r'"
    and pc: "pc_group (wr_pc r t) = 4"
  shows "wq_inv r'"
proof -
  note lo = wq_invD(2) [OF inv, of t] and lk = wq_invD(1) [OF inv, of t] and qo = wq_invD(3) [OF inv]
  let ?wq = "wr_queue r"
  consider n where "wr_pc r t = DropStart n" | n where "wr_pc r t = DropLoad n" | n q where "wr_pc r t = DropGot n q"
    | q cur one where "wr_pc r t = DropStore q cur one"
    using pc by (cases "wr_pc r t") simp_all
  then show ?thesis
  proof cases
    case (1 n)
    then obtain w where w: "wq_nodes ?wq n = Some w" using lo by auto
    show ?thesis
    proof (cases "wt_state w = WWaiting")
      case True
      then show ?thesis using 1 turn w
        by (auto simp: turn_defs in_state_def intro: inv_take_lock [OF inv, of t "DropLoad n"])
    next
      case False
      then have nl: "n \<notin> set (wq_list ?wq)" using queue_listed [OF qo] w by auto
      have "wq_inv (goto t (Done Finished) (?wq\<lparr>wq_nodes := (wq_nodes ?wq)(n := None)\<rparr>) r)"
      proof (rule inv_turn [OF inv])
        show "nodes_kept (pc_waiter (wr_pc r t)) ?wq (?wq\<lparr>wq_nodes := (wq_nodes ?wq)(n := None)\<rparr>)"
          using 1 by (auto intro: nodes_kept_own)
        show "queue_ok (draining r \<or> drains (Done Finished)) (?wq\<lparr>wq_nodes := (wq_nodes ?wq)(n := None)\<rparr>)"
          using qo nl by (auto simp: queue_ok_def)
      qed (use 1 in \<open>auto simp: word_kept_def\<close>)
      then show ?thesis using 1 turn w False by (simp add: turn_defs)
    qed
  next
    case (2 n)
    then show ?thesis using turn lo lk by (auto simp: turn_defs intro!: inv_word [OF inv])
  next
    case (3 n q)
    then obtain w where w: "wq_nodes ?wq n = Some w" "wt_state w = WWaiting" using lo by (auto simp: in_state_def)
    let ?wq' = "?wq\<lparr>wq_list := remove1 n (wq_list ?wq), wq_nodes := (wq_nodes ?wq)(n := None)\<rparr>"
    have q': "queue_ok (draining r) ?wq'" by (rule queue_ok_delete [OF qo w(1)]) (use w(2) in simp_all)
    have nk: "nodes_kept (pc_waiter (wr_pc r t)) ?wq ?wq'" using 3 by (auto intro: nodes_kept_own)
    have r': "r' = drop_got t n q w r" using 3 turn w(1) by (simp add: turn_defs)
    have g: "wq_inv (goto t pc' wq' r)" if "wq_nodes wq' = wq_nodes ?wq'" "wq_list wq' = wq_list ?wq'" "wq_word wq' = wq_word ?wq'"
      "wq_lock wq' = (if holds pc' then Some t else None)" "pc_waiter pc' = None" "local_ok (draining r) ?wq' pc'" "\<not> drains pc'"
      "local_ok (draining r) wq' pc' = local_ok (draining r) ?wq' pc'" for pc' wq'
      by (rule inv_turn [OF inv]) (use that 3 q' nk in \<open>auto simp: queue_ok_def nodes_kept_def\<close>)
    have a: "wq_inv (goto t (DropStore (with_state q QEmpty) q one) ?wq' r)" if "remove1 n (wq_list ?wq) = []" "qw_state q = QWaiting" for one
      by (rule g) (use that 3 lo lk in \<open>auto simp: state_simps\<close>)
    have b: "wq_inv (goto t (WakeLocked q) ?wq' r)" by (rule g) (use 3 lo lk in auto)
    have c: "wq_inv (goto t (Done Finished) (unlocked ?wq') r)" by (rule g) (auto simp: unlocked_def)
    show ?thesis using a b c unfolding r' drop_got_def Let_def by simp
  next
    case (4 q cur one)
    have l: "wq_list ?wq = []" using lo 4 by simp
    have a: "wq_inv (goto t (WakeLocked cur) (set_word q ?wq) r)"
      by (rule inv_word [OF inv]) (use 4 lo lk l in \<open>auto simp: state_simps\<close>)
    have b: "wq_inv (goto t (Done Finished) (unlocked (set_word q ?wq)) r)"
      by (rule inv_word [OF inv]) (use 4 lo lk l in \<open>auto simp: state_simps\<close>)
    show ?thesis using 4 turn a b by (auto simp: turn_defs split: if_splits)
  qed
qed

lemma inv_wq_turn:
  assumes "wq_inv r" "wq_turn cap t r = Some r'"
  shows "wq_inv r'"
proof -
  have "pc_group (wr_pc r t) \<noteq> 0"
  proof
    assume "pc_group (wr_pc r t) = 0"
    then have "wq_turn cap t r = None" by (cases "wr_pc r t") (simp_all add: turn_defs)
    then show False using assms(2) by simp
  qed
  moreover have "pc_group p < 5" for p by (cases p) simp_all
  then have "pc_group (wr_pc r t) < 5" .
  ultimately consider "pc_group (wr_pc r t) = 1" | "pc_group (wr_pc r t) = 2" | "pc_group (wr_pc r t) = 3" | "pc_group (wr_pc r t) = 4"
    by linarith
  then show ?thesis
    by cases (rule inv_wake_turns [OF assms] inv_all_turns [OF assms] inv_poll_turns [OF assms] inv_drop_turns [OF assms]; assumption)+
qed

lemma inv_start:
  assumes inv: "wq_inv r" and s: "idle (wr_pc r t)" "may_start r op"
  shows "wq_inv (goto t (op_start op) (wr_queue r) r)"
proof -
  let ?r = "goto t (op_start op) (wr_queue r) r"
  have p: "\<not> holds (wr_pc r t)" "\<not> drains (wr_pc r t)" "pc_waiter (wr_pc r t) = None" using s(1) by (cases "wr_pc r t"; simp)+
  have o': "\<not> holds (op_start op)" "\<not> drains (op_start op)" by (cases op; simp)+
  have d: "draining ?r = draining r" using p(2) o'(2) draining_goto [of t "op_start op" "wr_queue r" r] draining_def [of r] by metis
  have "local_ok d (wr_queue r) (op_start op)" for d using s(2) by (cases op) (auto simp: may_start_def)
  moreover have "pc_waiter (op_start op) = Some n \<Longrightarrow> pc_waiter (wr_pc r t') \<noteq> Some n" for n t'
    using s(2) by (auto simp: may_start_def)
  ultimately show ?thesis using inv p(1) o'(1) d unfolding wq_inv_def by (auto simp: goto_def)
qed

lemma wq_inv_init: "wq_inv wq_init"
  by (auto simp: wq_inv_def wq_init_def wq_new_def wq_make_def queue_ok_def)

theorem wq_reach_inv: "wq_reach cap r \<Longrightarrow> wq_inv r"
  by (induction rule: wq_reach.induct) (auto elim!: wq_step.cases intro: wq_inv_init inv_start inv_wq_turn)


section \<open>No wake-up is lost\<close>

text \<open>C6. No call of \<open>wake_all\<close> passes a waiter by.  In every reachable state in which no drain
  is still to come, whatever threads wake, close, poll and drop in any interleaving: a waiter
  that is enqueued and that was created before the last \<open>wake_all\<close> (the counter has moved on) is
  ready at its next poll; a waiter that is not ready is in the list, exactly once, and the
  state says that somebody waits, so that the next \<open>wake\<close> goes to the list.\<close>

theorem no_lost_wakeup:
  assumes "wq_reach cap r" "\<not> draining r" "wq_nodes (wr_queue r) n = Some w" "wt_state w = WWaiting"
  shows "(wt_wake_alls w \<noteq> qw_wake_alls (wq_word (wr_queue r)) \<longrightarrow> snd (poll_waiting k w) \<in> {ReadyOk, ReadyClosed}) \<and>
    (snd (poll_waiting k w) \<notin> {ReadyOk, ReadyClosed} \<longrightarrow>
       n \<in> set (wq_list (wr_queue r)) \<and> distinct (wq_list (wr_queue r)) \<and> qw_state (wq_word (wr_queue r)) = QWaiting)"
proof -
  have q: "queue_ok (draining r) (wr_queue r)" using wq_invD(3) [OF wq_reach_inv [OF assms(1)]] .
  have "wakeable w" if "snd (poll_waiting k w) \<notin> {ReadyOk, ReadyClosed}"
    using that by (cases "wt_waker w") (auto simp: poll_waiting_def wakeable_def)
  then have l: "n \<in> set (wq_list (wr_queue r))" if "snd (poll_waiting k w) \<notin> {ReadyOk, ReadyClosed}"
    using that queue_listed [OF q, of n] assms(3,4) by blast
  then have "wt_wake_alls w = qw_wake_alls (wq_word (wr_queue r))" "qw_state (wq_word (wr_queue r)) = QWaiting"
    "distinct (wq_list (wr_queue r))" if "snd (poll_waiting k w) \<notin> {ReadyOk, ReadyClosed}"
    using that q assms(2,3) by (auto simp: queue_ok_def)
  then show ?thesis using l by blast
qed

section \<open>Schedules\<close>

lemma may_start_in: "\<forall>t. t \<notin> set ts \<longrightarrow> wr_pc r t = Idle \<Longrightarrow> may_start_in ts r op \<Longrightarrow> may_start r op"
  by (force simp: may_start_in_def may_start_def list_all_iff split: option.splits)

lemma turn_others: "wq_turn cap t r = Some r' \<Longrightarrow> t' \<noteq> t \<Longrightarrow> wr_pc r' t' = wr_pc r t'"
  by (cases "wr_pc r t")
    (auto simp: turn_defs goto_def take_lock_def wake_locked_def panic_def wakes_def drain_turn_def enqueue_def
      woken_now_def poll_start_def poll_loop_def drop_got_def split: if_splits q_state.splits list.splits option.splits wait_state.splits prod.splits bind_splits)

lemma sched_reach:
  "wq_sched cap ts es r = Some r' \<Longrightarrow> \<forall>t. t \<notin> set ts \<longrightarrow> wr_pc r t = Idle \<Longrightarrow> wq_reach cap r \<Longrightarrow> wq_reach cap r'"
proof (induction cap ts es r rule: wq_sched.induct)
  case (2 cap ts t op es r)
  then have c: "t \<in> set ts" "idle (wr_pc r t)" "may_start_in ts r op" "wq_sched cap ts es (goto t (op_start op) (wr_queue r) r) = Some r'"
    by (auto split: if_splits)
  have "wq_reach cap (goto t (op_start op) (wr_queue r) r)"
    using wq_reach.step [OF "2.prems"(3)] wq_step.start [OF c(2) may_start_in [OF "2.prems"(2) c(3)]] by blast
  moreover have "\<forall>t'. t' \<notin> set ts \<longrightarrow> wr_pc (goto t (op_start op) (wr_queue r) r) t' = Idle"
    using "2.prems"(2) c(1) by (auto simp: goto_def)
  ultimately show ?case using "2.IH" c by blast
next
  case (3 cap ts t es r)
  then obtain r1 where c: "t \<in> set ts" "wq_turn cap t r = Some r1" "wq_sched cap ts es r1 = Some r'"
    by (auto split: if_splits bind_splits)
  have "wq_reach cap r1" using wq_reach.step [OF "3.prems"(3)] wq_step.turn [OF c(2)] by blast
  moreover have "\<forall>t'. t' \<notin> set ts \<longrightarrow> wr_pc r1 t' = Idle" using "3.prems"(2) c(1) turn_others [OF c(2)] by metis
  ultimately show ?case using "3.IH" c by blast
qed simp


lemmas run_simps = turn_defs goto_def state_simps take_lock_def wake_locked_def wakes_def drain_turn_def enqueue_def
  woken_now_def poll_start_def poll_loop_def drop_got_def node_wake_def wq_init_def wq_new_def wq_make_def wq_waiter_def
  may_start_in_def panic_def

text \<open>Thread \<open>t\<close> creates waiter \<open>n\<close> and polls it, with the waker \<open>n\<close>.\<close>

definition enqueue_run :: "nat \<Rightarrow> nat \<Rightarrow> event list" where
  "enqueue_run t n = [Start t (OpWait n), Turn t, Start t (OpPoll n (Some n)), Turn t, Turn t, Turn t, Turn t, Turn t]"

lemma sched_from_init:
  assumes "map_option f (wq_sched cap ts es wq_init) = Some x"
  shows "\<exists>r. wq_reach cap r \<and> f r = x"
proof -
  obtain r where r: "wq_sched cap ts es wq_init = Some r" "f r = x" using assms by auto
  have "\<forall>t. t \<notin> set ts \<longrightarrow> wr_pc wq_init t = Idle" by (simp add: wq_init_def)
  from sched_reach [OF r(1) this wq_reach.init] r(2) show ?thesis by blast
qed

lemma no_lost_wakeup_witness:
  "\<exists>r w. wq_reach 16 r \<and> wq_nodes (wr_queue r) 7 = Some w \<and> snd (poll_waiting (Some 3) w) \<in> {ReadyOk, ReadyClosed}"
proof -
  have "map_option (\<lambda>r. (wq_nodes (wr_queue r) 7, wq_word (wr_queue r), draining r))
      (wq_sched 16 [0, 1] (enqueue_run 0 7 @ [Start 1 OpWakeAll, Turn 1, Turn 1, Turn 1]) wq_init) =
    Some (Some \<lparr>wt_state = WWaiting, wt_wake_alls = 0, wt_waker = WkAll\<rparr>, \<lparr>qw_state = QEmpty, qw_wake_alls = 1\<rparr>, False)"
    by (simp add: run_simps enqueue_run_def draining_def)
  from sched_from_init [OF this] obtain r where r: "wq_reach 16 r" "wq_nodes (wr_queue r) 7 = Some \<lparr>wt_state = WWaiting, wt_wake_alls = 0, wt_waker = WkAll\<rparr>"
    "wq_word (wr_queue r) = \<lparr>qw_state = QEmpty, qw_wake_alls = 1\<rparr>" "\<not> draining r" by auto
  show ?thesis using no_lost_wakeup [OF r(1,4,2)] r by (intro exI [of _ r] exI) auto
qed

section \<open>Races with a close\<close>

text \<open>A close can be undone by a wake.  Whenever a thread that took the last waiter out of
  the queue, or found nobody there, is about to store the new state, a close that begins and
  sets its state now is overwritten by that store: after it the queue is open again although
  the closing thread is past its only write of the state.\<close>

theorem close_lost:
  assumes "wq_reach cap r" "wr_pc r t = StoreUnlock q" "idle (wr_pc r c)"
  shows "\<exists>r2 r3. wq_turn cap c (goto c (op_start OpClose) (wr_queue r) r) = Some r2 \<and> wq_is_closed (wr_queue r2) \<and>
    wr_pc r2 c \<in> {Done Finished, CloseDrain} \<and> wq_turn cap t r2 = Some r3 \<and> wr_pc r3 c = wr_pc r2 c \<and>
    \<not> wq_is_closed (wr_queue r3) \<and> wq_reach cap r3"
proof -
  have ne: "c \<noteq> t" using assms(2,3) by auto
  have q: "qw_state q \<noteq> QClosed" using wq_invD(2) [OF wq_reach_inv [OF assms(1)], of t] assms(2) by auto
  let ?r1 = "goto c (op_start OpClose) (wr_queue r) r"
  obtain r2 where r2: "wq_turn cap c ?r1 = Some r2" "wq_is_closed (wr_queue r2)" "wr_pc r2 c \<in> {Done Finished, CloseDrain}" "wr_pc r2 t = StoreUnlock q"
    using ne assms(2) by (simp add: turn_defs goto_def wq_is_closed_def state_simps)
  obtain r3 where r3: "wq_turn cap t r2 = Some r3" "\<not> wq_is_closed (wr_queue r3)" "wr_pc r3 c = wr_pc r2 c"
    using r2(4) ne q by (simp add: turn_defs goto_def wq_is_closed_def state_simps)
  have "wq_step cap r ?r1" using wq_step.start [OF assms(3), of OpClose] by (simp add: may_start_def)
  then have "wq_reach cap r3"
    using assms(1) r2(1) r3(1) by (meson wq_reach.step wq_step.turn)
  then show ?thesis using r2(1-3) r3 by blast
qed


text \<open>
  And \<open>wake_all\<close> panics when a close comes between its reading of the state and its exchange.
\<close>

lemma wake_all_panics_on_close:
  "\<exists>r. wq_reach max_wakers r \<and> wr_pc r 1 = Panicked"
proof -
  have "map_option (\<lambda>r. wr_pc r 1)
      (wq_sched max_wakers [0, 1, 2] (enqueue_run 0 7 @ [Start 1 OpWakeAll, Turn 1, Turn 1, Start 2 OpClose, Turn 2, Turn 1]) wq_init) = Some Panicked"
    by (simp add: run_simps enqueue_run_def max_wakers_def)
  from sched_from_init [OF this] show ?thesis by blast
qed

text \<open>
  With more waiters than a batch, \<open>wake_all\<close> empties the list after a new waiter has made the
  state say that somebody waits; the next \<open>wake\<close> panics.  Here batches have two wakers, as
  under the model checker.
\<close>

lemma wake_panics_after_batches:
  "\<exists>r. wq_reach 2 r \<and> wr_pc r 2 = Panicked"
proof -
  have "map_option (\<lambda>r. wr_pc r 2)
      (wq_sched 2 [0, 1, 2] (enqueue_run 0 7 @ enqueue_run 0 8 @ enqueue_run 0 9 @ [Start 1 OpWakeAll, Turn 1, Turn 1, Turn 1] @
         enqueue_run 0 10 @ [Turn 1, Start 2 OpWake, Turn 2, Turn 2, Turn 2, Turn 2, Turn 2]) wq_init) = Some Panicked"
    by (simp add: run_simps enqueue_run_def)
  from sched_from_init [OF this] show ?thesis by blast
qed

end
