(* ===== verification/WaitQueueCalm.thy ===== *)
theory WaitQueueCalm
  imports WaitQueueCorrect
begin

text \<open>
  The wait queue when nobody closes it and no \<open>wake_all\<close> needs a second batch of wakers: then
  the state says that somebody waits exactly when the list is not empty, and nothing panics.
\<close>

section \<open>Calm runs\<close>

text \<open>
  Runs in which nobody closes the queue and no \<open>wake_all\<close> needs a second batch.  What a thread
  relies on in addition:
\<close>

fun calm_pc :: "wq_pc \<Rightarrow> bool" where
  "calm_pc AllDrain = False"
| "calm_pc CloseOr = False"
| "calm_pc CloseDrain = False"
| "calm_pc _ = True"

fun calm_ok :: "wait_queue \<Rightarrow> wq_pc \<Rightarrow> bool" where
  "calm_ok wq Panicked = False"
| "calm_ok wq (AllGot s) = (qw_state s = QWaiting \<longrightarrow> wq_word wq = s)"
| "calm_ok wq (WakeLocked cur) = (qw_state cur = QWaiting \<longrightarrow> wq_list wq \<noteq> [])"
| "calm_ok wq (DropGot n q) = (qw_state q = QWaiting \<longrightarrow> qw_state (wq_word wq) = QWaiting)"
| "calm_ok wq (DropStore q cur one) = (\<not> one)"
| "calm_ok wq pc = calm_pc pc"

fun storing :: "wq_pc \<Rightarrow> bool" where
  "storing (StoreUnlock q) = True"
| "storing (DropStore q cur one) = True"
| "storing _ = False"

definition calm_inv :: "wq_run \<Rightarrow> bool" where
  "calm_inv r \<longleftrightarrow> (\<forall>t. calm_ok (wr_queue r) (wr_pc r t)) \<and> qw_state (wq_word (wr_queue r)) \<noteq> QClosed \<and>
     (qw_state (wq_word (wr_queue r)) = QWaiting \<longrightarrow> wq_list (wr_queue r) \<noteq> [] \<or> (\<exists>t. storing (wr_pc r t)))"

inductive wq_calm :: "nat \<Rightarrow> wq_run \<Rightarrow> bool" for cap where
  init: "wq_calm cap wq_init"
| step: "wq_calm cap r \<Longrightarrow> wq_step cap r r' \<Longrightarrow> (\<And>t. calm_pc (wr_pc r' t)) \<Longrightarrow> wq_calm cap r'"

lemma calm_reach: "wq_calm cap r \<Longrightarrow> wq_reach cap r"
  by (induction rule: wq_calm.induct) (auto intro: wq_reach.intros)

lemma calm_goto:
  assumes inv: "calm_inv r" "wq_inv r"
    and mine: "calm_ok wq' pc'" "qw_state (wq_word wq') \<noteq> QClosed"
      "qw_state (wq_word wq') = QWaiting \<longrightarrow> wq_list wq' \<noteq> [] \<or> storing pc' \<or> (\<exists>t'. t' \<noteq> t \<and> storing (wr_pc r t'))"
    and word: "\<not> holds (wr_pc r t) \<Longrightarrow> wq_lock (wr_queue r) \<noteq> None \<Longrightarrow>
      wq_list wq' = wq_list (wr_queue r) \<and> (qw_state (wq_word (wr_queue r)) = QWaiting \<longrightarrow> wq_word wq' = wq_word (wr_queue r))"
  shows "calm_inv (goto t pc' wq' r)"
proof -
  have "calm_ok wq' (wr_pc r t')" if "t' \<noteq> t" for t'
  proof (cases "holds (wr_pc r t')")
    case True
    then have "wq_lock (wr_queue r) = Some t'" "\<not> holds (wr_pc r t)" using wq_invD(1) [OF inv(2)] that by auto
    with word have w: "wq_list wq' = wq_list (wr_queue r)" "qw_state (wq_word (wr_queue r)) = QWaiting \<longrightarrow> wq_word wq' = wq_word (wr_queue r)" by auto
    have "calm_ok (wr_queue r) (wr_pc r t')" using inv(1) by (simp add: calm_inv_def)
    then show ?thesis using w by (cases "wr_pc r t'") auto
  next
    case False
    have "calm_ok (wr_queue r) (wr_pc r t')" using inv(1) by (simp add: calm_inv_def)
    then show ?thesis using False by (cases "wr_pc r t'") simp_all
  qed
  then show ?thesis using mine unfolding calm_inv_def goto_def by auto
qed

lemma calm_ok_pc: "calm_ok wq pc \<Longrightarrow> calm_pc pc"
  by (cases pc) simp_all

lemma calm_pc_drains: "calm_pc pc \<Longrightarrow> \<not> drains pc"
  by (cases pc) simp_all

lemma storing_holds: "storing pc \<Longrightarrow> holds pc"
  by (cases pc) simp_all

text \<open>What the two invariants say of the thread in the lock.\<close>

lemma calmD:
  assumes "calm_inv r" "wq_inv r"
  shows "\<not> draining r" "local_ok False (wr_queue r) (wr_pc r t)" "queue_ok False (wr_queue r)" "calm_ok (wr_queue r) (wr_pc r t)"
    "qw_state (wq_word (wr_queue r)) \<noteq> QClosed"
    "holds (wr_pc r t) \<Longrightarrow> \<not> storing (wr_pc r t) \<Longrightarrow> qw_state (wq_word (wr_queue r)) = QWaiting \<Longrightarrow> wq_list (wr_queue r) \<noteq> []"
    "\<not> holds (wr_pc r t) \<Longrightarrow> qw_state (wq_word (wr_queue r)) = QWaiting \<Longrightarrow>
      wq_list (wr_queue r) \<noteq> [] \<or> (\<exists>t'. t' \<noteq> t \<and> storing (wr_pc r t'))"
proof -
  show nd: "\<not> draining r"
    using assms(1) calm_pc_drains calm_ok_pc unfolding calm_inv_def draining_def by blast
  show "local_ok False (wr_queue r) (wr_pc r t)" "queue_ok False (wr_queue r)"
    using wq_invD(2,3) [OF assms(2)] nd by metis+
  show "calm_ok (wr_queue r) (wr_pc r t)" "qw_state (wq_word (wr_queue r)) \<noteq> QClosed"
    using assms(1) by (simp_all add: calm_inv_def)
  have w: "wq_list (wr_queue r) \<noteq> [] \<or> (\<exists>t'. storing (wr_pc r t'))" if "qw_state (wq_word (wr_queue r)) = QWaiting"
    using assms(1) that by (simp add: calm_inv_def)
  show "wq_list (wr_queue r) \<noteq> []"
    if "holds (wr_pc r t)" "\<not> storing (wr_pc r t)" "qw_state (wq_word (wr_queue r)) = QWaiting"
    using w [OF that(3)] that(1,2) wq_invD(1) [OF assms(2)] storing_holds by (metis option.inject)
  show "wq_list (wr_queue r) \<noteq> [] \<or> (\<exists>t'. t' \<noteq> t \<and> storing (wr_pc r t'))"
    if "\<not> holds (wr_pc r t)" "qw_state (wq_word (wr_queue r)) = QWaiting"
    using w [OF that(2)] that(1) storing_holds by metis
qed

lemma calm_wakes: "calm_inv (wakes ks r) \<longleftrightarrow> calm_inv r"
  by (simp add: calm_inv_def wakes_def)

text \<open>Turns that leave the word and the list alone, and turns that end with the word not waiting.\<close>

lemma calm_same:
  assumes inv: "calm_inv r" "wq_inv r"
    and pc: "\<not> storing (wr_pc r t)" "calm_ok wq' pc'"
    and wq: "wq_list wq' = wq_list (wr_queue r)" "wq_word wq' = wq_word (wr_queue r)"
  shows "calm_inv (goto t pc' wq' r)"
  by (rule calm_goto [OF inv pc(2)]) (use calmD(5) [OF inv] calmD(6,7) [OF inv, of t] pc(1) wq in auto)

lemma calm_not_waiting:
  assumes inv: "calm_inv r" "wq_inv r"
    and pc: "calm_ok wq' pc'" "qw_state (wq_word wq') \<in> {QEmpty, QWoken}"
    and word: "holds (wr_pc r t) \<or> wq_list wq' = wq_list (wr_queue r) \<and> qw_state (wq_word (wr_queue r)) \<noteq> QWaiting"
  shows "calm_inv (goto t pc' wq' r)"
  by (rule calm_goto [OF inv pc(1)]) (use pc(2) word in auto)

lemma calm_take_lock:
  assumes "calm_inv r" "wq_inv r" "take_lock t pc' r = Some r'" "\<not> storing (wr_pc r t)" "\<And>wq. calm_ok wq pc'"
  shows "calm_inv r'"
  using assms by (auto simp: take_lock_def split: if_splits intro!: calm_same)

section \<open>Every calm turn keeps it\<close>

lemma calm_wake_locked:
  assumes inv: "calm_inv r" "wq_inv r" and pc: "wr_pc r t = WakeLocked cur"
  shows "calm_inv (wake_locked t cur r)"
proof -
  let ?wq = "wr_queue r"
  note lo = calmD(2) [OF inv, of t] and q = calmD(3) [OF inv] and co = calmD(4) [OF inv, of t]
  show ?thesis
  proof (cases "qw_state cur = QWaiting")
    case False
    have a: "calm_inv (goto t (Done Finished) (unlocked (set_word (with_state cur QWoken) ?wq)) r)"
      by (rule calm_not_waiting [OF inv]) (use pc in \<open>simp_all add: state_simps\<close>)
    have b: "calm_inv (goto t (StoreUnlock (with_state (wq_word ?wq) QWoken)) ?wq r)"
      by (rule calm_same [OF inv]) (use pc in simp_all)
    show ?thesis using False a b by (simp add: wake_locked_def Let_def)
  next
    case True
    then obtain n ns where l: "wq_list ?wq = n # ns" using co pc by (cases "wq_list ?wq") auto
    obtain wt where wt: "wq_nodes ?wq n = Some wt" "wakeable wt" using queue_listed [OF q, of n] l by auto
    obtain k where k: "node_wake WkOne wt = Some (wt\<lparr>wt_waker := WkOne\<rparr>, k)" using node_wake_wakeable [OF wt(2)] by blast
    let ?wq' = "set_node n (wt\<lparr>wt_waker := WkOne\<rparr>) (?wq\<lparr>wq_list := ns\<rparr>)"
    have a: "calm_inv (goto t (StoreUnlock (with_state cur QEmpty)) ?wq' r)"
      by (rule calm_goto [OF inv]) (use pc calmD(5) [OF inv] in \<open>simp_all add: state_simps\<close>)
    have b: "calm_inv (goto t (Done Finished) (unlocked ?wq') r)" if "ns \<noteq> []"
      by (rule calm_goto [OF inv]) (use pc that calmD(5) [OF inv] in \<open>simp_all add: state_simps\<close>)
    show ?thesis using True l wt k a b by (cases "ns = []") (simp_all add: wake_locked_def Let_def wakes_goto calm_wakes)
  qed
qed

lemma calm_wake_turns:
  assumes inv: "calm_inv r" "wq_inv r" and turn: "wq_turn cap t r = Some r'"
    and pc: "pc_group (wr_pc r t) = 1"
  shows "calm_inv r'"
proof -
  note lo = calmD(2) [OF inv, of t] and co = calmD(5) [OF inv] calmD(4,6,7) [OF inv, of t]
  consider "wr_pc r t = WakeStart" | s where "wr_pc r t = WakeLoop s" | "wr_pc r t = WakeLock" | "wr_pc r t = WakeLoad"
    | cur where "wr_pc r t = WakeLocked cur" | q where "wr_pc r t = StoreUnlock q"
    using pc by (cases "wr_pc r t") simp_all
  then show ?thesis
  proof cases
    case (2 s)
    have "calm_inv (goto t (Done Finished) (set_word (with_state s QWoken) (wr_queue r)) r)"
      if "wq_word (wr_queue r) = s" "qw_state s \<noteq> QWaiting"
      by (rule calm_not_waiting [OF inv]) (use that in \<open>simp_all add: state_simps\<close>)
    then show ?thesis using 2 turn
      by (cases "qw_state s") (auto simp: turn_defs split: if_splits intro!: calm_same [OF inv])
  next
    case 3
    then show ?thesis using turn by (auto simp: turn_defs intro: calm_take_lock [OF inv, of t WakeLoad])
  next
    case 5
    then show ?thesis using turn calm_wake_locked [OF inv] by (auto simp: turn_defs)
  next
    case (6 q)
    then show ?thesis using turn lo by (auto simp: turn_defs state_simps intro!: calm_not_waiting [OF inv])
  qed (use turn co in \<open>auto simp: turn_defs intro!: calm_same [OF inv]\<close>)
qed

lemma calm_all_turns:
  assumes inv: "calm_inv r" "wq_inv r" and turn: "wq_turn cap t r = Some r'"
    and pc: "pc_group (wr_pc r t) = 2" and calm: "calm_pc (wr_pc r' t)"
  shows "calm_inv r'"
proof -
  note lo = calmD(2) [OF inv, of t] and q = calmD(3) [OF inv] and co = calmD(4) [OF inv, of t]
  let ?wq = "wr_queue r"
  have "calm_pc (wr_pc r t)" using co by (rule calm_ok_pc)
  then consider "wr_pc r t = AllLock" | "wr_pc r t = AllLoad" | "wr_pc r t = TryStart" | s where "wr_pc r t = AllGot s"
    | i s where "wr_pc r t = TryLoop i s"
    using pc by (cases "wr_pc r t") simp_all
  then show ?thesis
  proof cases
    case 1
    then show ?thesis using turn by (auto simp: turn_defs intro: calm_take_lock [OF inv, of t AllLoad])
  next
    case (4 s)
    show ?thesis
    proof (cases "qw_state s = QWaiting")
      case True
      let ?wq1 = "set_word (one_wake_all (with_state s QEmpty)) ?wq"
      have "\<forall>n \<in> set (wq_list ?wq). \<exists>w. wq_nodes ?wq n = Some w \<and> wakeable w" "distinct (wq_list ?wq)"
        using q by (auto simp: queue_ok_def)
      then obtain taken rest ks where d: "drain_batch cap WkAll (wq_nodes ?wq) (wq_list ?wq) =
          Some (marked WkAll (set taken) (wq_nodes ?wq), rest, ks)"
        using drain_batch_spec by blast
      have r': "r' = drain_turn cap t WkAll AllDrain ?wq1 r" using 4 True turn co by (simp add: turn_defs)
      have "calm_inv (goto t (Done Finished) (unlocked (?wq1\<lparr>wq_nodes := nodes, wq_list := rest\<rparr>)) r)" for nodes
        by (rule calm_not_waiting [OF inv]) (use 4 in \<open>simp_all add: state_simps\<close>)
      moreover have "rest = []" using calm d unfolding r' by (auto simp: drain_turn_def state_simps goto_def split: if_splits)
      ultimately show ?thesis using d unfolding r' by (simp add: drain_turn_def state_simps wakes_goto calm_wakes)
    next
      case False
      have a: "calm_inv (goto t (Done Finished) (unlocked ?wq) r)" by (rule calm_same [OF inv]) (use 4 in \<open>simp_all add: unlocked_def\<close>)
      have "qw_state (wq_word ?wq) \<in> {QEmpty, QWoken}"
        using lo 4 False calmD(5) [OF inv] by (cases "qw_state (wq_word ?wq)") auto
      then have "calm_inv (goto t (Done Finished) (unlocked (set_word (one_wake_all (wq_word ?wq)) ?wq)) r)"
        by (intro calm_not_waiting [OF inv]) (use 4 in \<open>simp_all add: state_simps\<close>)
      then show ?thesis using a False 4 turn by (cases "qw_state s") (simp_all add: turn_defs)
    qed
  next
    case (5 i s)
    have "calm_inv (goto t (Done ReadyOk) (set_word (with_state s QEmpty) ?wq) r)" if "wq_word ?wq = s" "qw_state s = QWoken"
      by (rule calm_not_waiting [OF inv]) (use that in \<open>simp_all add: state_simps\<close>)
    then show ?thesis using 5 turn by (auto simp: turn_defs split: if_splits intro!: calm_same [OF inv])
  qed (use turn in \<open>auto simp: turn_defs intro!: calm_same [OF inv]\<close>)
qed

lemma calm_woken_now:
  assumes inv: "calm_inv r" "wq_inv r" and pc: "\<not> storing (wr_pc r t)"
    and wq: "wq_list wq = wq_list (wr_queue r)"
      "wq_word wq = wq_word (wr_queue r) \<or> qw_state (wq_word (wr_queue r)) = QWoken \<and> qw_state (wq_word wq) = QEmpty"
  shows "calm_inv (woken_now t n w wq r)"
  unfolding woken_now_def
proof (rule calm_goto [OF inv])
  show "qw_state (wq_word (set_node n (w\<lparr>wt_state := WWoken\<rparr>) wq)) = QWaiting \<longrightarrow>
      wq_list (set_node n (w\<lparr>wt_state := WWoken\<rparr>) wq) \<noteq> [] \<or> storing (Done ReadyOk) \<or> (\<exists>t'. t' \<noteq> t \<and> storing (wr_pc r t'))"
    using calmD(6,7) [OF inv, of t] pc wq by (cases "holds (wr_pc r t)") (auto simp: state_simps)
qed (use calmD(5) [OF inv] wq in \<open>auto simp: state_simps\<close>)

lemma calm_poll_turns:
  assumes inv: "calm_inv r" "wq_inv r" and turn: "wq_turn cap t r = Some r'"
    and pc: "pc_group (wr_pc r t) = 3"
  shows "calm_inv r'"
proof -
  note lo = calmD(2) [OF inv, of t]
  let ?wq = "wr_queue r"
  have same: "calm_inv (goto t pc' wq' r)"
    if "\<And>wq. calm_ok wq pc'" "wq_list wq' = wq_list ?wq" "wq_word wq' = wq_word ?wq" for pc' wq'
    by (rule calm_same [OF inv]) (use that pc in \<open>cases "wr_pc r t"; simp\<close>)+
  consider n where "wr_pc r t = WaitNew n" | n k where "wr_pc r t = PollStart n k" | n k q where "wr_pc r t = PollCas n k q"
    | n k where "wr_pc r t = PollLock n k" | n k where "wr_pc r t = PollLoad n k" | n k q where "wr_pc r t = PollLoop n k q"
    using pc by (cases "wr_pc r t") simp_all
  then show ?thesis
  proof cases
    case (1 n)
    then show ?thesis using turn by (auto simp: turn_defs state_simps intro!: same)
  next
    case (2 n k)
    then show ?thesis using turn
      by (auto simp: turn_defs poll_start_def state_simps split: wait_state.splits if_splits prod.splits bind_splits intro!: same)
  next
    case (3 n k q)
    show ?thesis
    proof (cases "wq_word ?wq = with_state q QWoken")
      case True
      have "calm_inv (woken_now t n w (set_word (with_state q QEmpty) ?wq) r)" for w
        by (rule calm_woken_now [OF inv]) (use 3 True in \<open>simp_all add: state_simps\<close>)
      then show ?thesis using 3 True turn by (auto simp: turn_defs)
    next
      case False
      then show ?thesis using 3 turn by (auto simp: turn_defs intro!: same)
    qed
  next
    case (4 n k)
    then show ?thesis using turn by (auto simp: turn_defs intro: calm_take_lock [OF inv, of t "PollLoad n k"])
  next
    case (5 n k)
    have "calm_inv (woken_now t n w (unlocked ?wq) r)" for w
      by (rule calm_woken_now [OF inv]) (use 5 in \<open>simp_all add: unlocked_def\<close>)
    then show ?thesis using 5 turn by (auto simp: turn_defs split: if_splits intro!: same)
  next
    case (6 n k q)
    have enq: "calm_inv (enqueue t n k w wq r)" if "qw_state (wq_word wq) \<noteq> QClosed" for w wq
      unfolding enqueue_def Let_def by (rule calm_goto [OF inv]) (use 6 that in \<open>simp_all add: state_simps\<close>)
    have "calm_inv (woken_now t n w (unlocked (set_word (with_state q QEmpty) ?wq)) r)" if "wq_word ?wq = q" "qw_state q = QWoken" for w
      by (rule calm_woken_now [OF inv]) (use 6 that in \<open>simp_all add: state_simps\<close>)
    moreover have "calm_inv (goto t (PollLoop n k (wq_word ?wq)) ?wq r)" by (rule same) simp_all
    moreover have "calm_inv (goto t (Done ReadyClosed) (unlocked ?wq) r)" by (rule same) (simp_all add: unlocked_def)
    moreover have "calm_inv (enqueue t n k w (set_word (with_state q QWaiting) ?wq) r)" "calm_inv (enqueue t n k w ?wq r)" for w
      using calmD(5) [OF inv] by (auto intro!: enq simp: state_simps)
    ultimately show ?thesis using 6 turn by (cases "qw_state q") (auto simp: turn_defs poll_loop_def split: if_splits)
  qed
qed

lemma calm_drop_turns:
  assumes inv: "calm_inv r" "wq_inv r" and turn: "wq_turn cap t r = Some r'"
    and pc: "pc_group (wr_pc r t) = 4"
  shows "calm_inv r'"
proof -
  note lo = calmD(2) [OF inv, of t] and q = calmD(3) [OF inv] and co = calmD(4) [OF inv, of t]
  let ?wq = "wr_queue r"
  consider n where "wr_pc r t = DropStart n" | n where "wr_pc r t = DropLoad n" | n q where "wr_pc r t = DropGot n q"
    | q cur one where "wr_pc r t = DropStore q cur one"
    using pc by (cases "wr_pc r t") simp_all
  then show ?thesis
  proof cases
    case (1 n)
    then show ?thesis using turn
      by (auto simp: turn_defs split: bind_splits if_splits intro!: calm_same [OF inv] intro: calm_take_lock [OF inv, of t "DropLoad n"])
  next
    case (2 n)
    then show ?thesis using turn by (auto simp: turn_defs intro!: calm_same [OF inv])
  next
    case (3 n s)
    then obtain w where w: "wq_nodes ?wq n = Some w" "wt_state w = WWaiting" using lo by (auto simp: in_state_def)
    let ?list = "remove1 n (wq_list ?wq)"
    let ?wq' = "?wq\<lparr>wq_list := ?list, wq_nodes := (wq_nodes ?wq)(n := None)\<rparr>"
    have r': "r' = drop_got t n s w r" using 3 turn w(1) by (simp add: turn_defs)
    have sw: "qw_state s = QWaiting \<longleftrightarrow> qw_state (wq_word ?wq) = QWaiting" using lo co 3 by auto
    have ne: "wq_list ?wq \<noteq> []" if "qw_state s = QWaiting"
      using calmD(6) [OF inv, of t] 3 that sw by simp
    have one: "?list = wq_list ?wq" if "wt_waker w = WkOne"
    proof -
      have "n \<notin> set (wq_list ?wq)" using queue_listed [OF q, of n] w that by (auto simp: wakeable_def)
      then show ?thesis by (rule remove1_idem)
    qed
    have nc: "qw_state (wq_word ?wq) \<noteq> QClosed" by (rule calmD(5) [OF inv])
    have a: "calm_inv (goto t (DropStore (with_state s QEmpty) s (wt_waker w = WkOne)) ?wq' r)"
      if "?list = []" "qw_state s = QWaiting"
      by (rule calm_goto [OF inv]) (use 3 that one ne nc in \<open>auto simp: state_simps\<close>)
    have b: "calm_inv (goto t (WakeLocked s) ?wq' r)" if "qw_state s = QWaiting \<longrightarrow> ?list \<noteq> []"
      by (rule calm_goto [OF inv]) (use 3 that nc sw in simp_all)
    have c: "calm_inv (goto t (Done Finished) (unlocked ?wq') r)" if "qw_state s = QWaiting \<longrightarrow> ?list \<noteq> []"
      by (rule calm_goto [OF inv]) (use 3 that nc sw in \<open>simp_all add: unlocked_def\<close>)
    show ?thesis
    proof (cases "?list = [] \<and> qw_state s = QWaiting")
      case True
      then show ?thesis using a unfolding r' drop_got_def Let_def by simp
    next
      case False
      then show ?thesis using b c unfolding r' drop_got_def Let_def by auto
    qed
  next
    case (4 s cur one)
    then show ?thesis using turn lo co by (auto simp: turn_defs state_simps intro!: calm_not_waiting [OF inv])
  qed
qed

text \<open>So every calm run has the invariant.\<close>

lemma calm_wq_turn:
  assumes "calm_inv r" "wq_inv r" "wq_turn cap t r = Some r'" "calm_pc (wr_pc r' t)"
  shows "calm_inv r'"
proof -
  have "pc_group (wr_pc r t) \<noteq> 0" using assms(3) by (cases "wr_pc r t") (simp_all add: turn_defs)
  moreover have "pc_group p < 5" for p by (cases p) simp_all
  then have "pc_group (wr_pc r t) < 5" .
  ultimately consider "pc_group (wr_pc r t) = 1" | "pc_group (wr_pc r t) = 2" | "pc_group (wr_pc r t) = 3" | "pc_group (wr_pc r t) = 4"
    by linarith
  then show ?thesis
    by cases (rule calm_wake_turns [OF assms(1-3)] calm_all_turns [OF assms(1-3) _ assms(4)]
      calm_poll_turns [OF assms(1-3)] calm_drop_turns [OF assms(1-3)]; assumption)+
qed

lemma calm_start:
  assumes "calm_inv r" "wq_inv r" "idle (wr_pc r t)" "calm_pc (op_start op)"
  shows "calm_inv (goto t (op_start op) (wr_queue r) r)"
  by (rule calm_same [OF assms(1,2)]) (use assms(3,4) in \<open>cases "wr_pc r t"; cases op; simp\<close>)+

lemma calm_inv_init: "calm_inv wq_init"
  by (simp add: calm_inv_def wq_init_def wq_new_def wq_make_def)

lemma wq_calm_inv: "wq_calm cap r \<Longrightarrow> calm_inv r"
proof (induction rule: wq_calm.induct)
  case (step r r')
  note inv = step.IH wq_reach_inv [OF calm_reach [OF step.hyps(1)]]
  from step.hyps(2) show ?case
  proof cases
    case (start t op)
    have "calm_pc (op_start op)" using step.hyps(3) [of t] start(1) by (simp add: goto_def)
    then show ?thesis using calm_start [OF inv start(2)] start(1) by simp
  next
    case (turn t)
    then show ?thesis using calm_wq_turn [OF inv turn step.hyps(3)] by simp
  qed
qed (rule calm_inv_init)

text \<open>C19. When nobody closes the queue and no call of \<open>wake_all\<close> has to wake more waiters than a
  batch holds, no thread panics, in any interleaving of wakes, polls and drops: neither the
  unwrapped exchange of \<open>wake_all\<close> nor the taking of a waiter by \<open>wake\<close> or by the drop of one
  that was woken.  The queue is not closed, and whenever nobody is in the lock the state says
  that somebody waits exactly when the list is not empty.\<close>

theorem calm_never_panics:
  assumes "wq_calm cap r"
  shows "wr_pc r t \<noteq> Panicked \<and> \<not> wq_is_closed (wr_queue r) \<and>
    (wq_lock (wr_queue r) = None \<longrightarrow> (qw_state (wq_word (wr_queue r)) = QWaiting \<longleftrightarrow> wq_list (wr_queue r) \<noteq> []))"
proof -
  note inv = wq_calm_inv [OF assms] wq_reach_inv [OF calm_reach [OF assms]]
  have "wr_pc r t \<noteq> Panicked" using calmD(4) [OF inv, of t] by auto
  moreover have "\<not> wq_is_closed (wr_queue r)" using calmD(5) [OF inv] by (simp add: wq_is_closed_def)
  moreover have "qw_state (wq_word (wr_queue r)) = QWaiting \<longleftrightarrow> wq_list (wr_queue r) \<noteq> []" if "wq_lock (wr_queue r) = None"
  proof
    have "\<not> holds (wr_pc r t')" for t' using that wq_invD(1) [OF inv(2)] by simp
    then show "wq_list (wr_queue r) \<noteq> []" if "qw_state (wq_word (wr_queue r)) = QWaiting"
      using calmD(7) [OF inv _ that] storing_holds by blast
    show "qw_state (wq_word (wr_queue r)) = QWaiting" if "wq_list (wr_queue r) \<noteq> []"
      using calmD(3) [OF inv] that by (simp add: queue_ok_def)
  qed
  ultimately show ?thesis by blast
qed

text \<open>Schedules whose threads stay calm.\<close>

fun calm_sched :: "nat \<Rightarrow> nat list \<Rightarrow> event list \<Rightarrow> wq_run \<Rightarrow> wq_run option" where
  "calm_sched cap ts [] r = Some r"
| "calm_sched cap ts (e # es) r =
     (case wq_sched cap ts [e] r of
        None \<Rightarrow> None
      | Some r \<Rightarrow> if list_all (\<lambda>t. calm_pc (wr_pc r t)) ts then calm_sched cap ts es r else None)"

lemma sched_step:
  assumes "wq_sched cap ts [e] r = Some r'" "\<forall>t. t \<notin> set ts \<longrightarrow> wr_pc r t = Idle"
  shows "wq_step cap r r'" "\<forall>t. t \<notin> set ts \<longrightarrow> wr_pc r' t = Idle"
proof -
  have "wq_step cap r r' \<and> (\<forall>t. t \<notin> set ts \<longrightarrow> wr_pc r' t = Idle)"
  proof (cases e)
    case (Start t op)
    then have c: "t \<in> set ts" "idle (wr_pc r t)" "may_start_in ts r op" "r' = goto t (op_start op) (wr_queue r) r"
      using assms(1) by (auto split: if_splits)
    then show ?thesis using wq_step.start [OF c(2) may_start_in [OF assms(2) c(3)]] assms(2) by (auto simp: goto_def)
  next
    case (Turn t)
    then have c: "t \<in> set ts" "wq_turn cap t r = Some r'" using assms(1) by (auto split: if_splits bind_splits)
    then show ?thesis using wq_step.turn [OF c(2)] assms(2) turn_others [OF c(2)] by metis
  qed
  then show "wq_step cap r r'" "\<forall>t. t \<notin> set ts \<longrightarrow> wr_pc r' t = Idle" by blast+
qed

lemma calm_sched_calm:
  "calm_sched cap ts es r = Some r' \<Longrightarrow> \<forall>t. t \<notin> set ts \<longrightarrow> wr_pc r t = Idle \<Longrightarrow> wq_calm cap r \<Longrightarrow> wq_calm cap r'"
proof (induction cap ts es r rule: calm_sched.induct)
  case (2 cap ts e es r)
  then obtain r1 where c: "wq_sched cap ts [e] r = Some r1" "list_all (\<lambda>t. calm_pc (wr_pc r1 t)) ts" "calm_sched cap ts es r1 = Some r'"
    by (auto split: option.splits if_splits)
  note st = sched_step [OF c(1) "2.prems"(2)]
  have "calm_pc (wr_pc r1 t)" for t using c(2) st(2) by (cases "t \<in> set ts") (auto simp: list_all_iff)
  then have "wq_calm cap r1" using wq_calm.step [OF "2.prems"(3) st(1)] by blast
  then show ?case using "2.IH" [OF c(1,2)] c(3) st(2) by blast
qed simp

lemma calm_never_panics_witness:
  "\<exists>r. wq_calm 16 r \<and> wr_pc r 1 = WakeLocked \<lparr>qw_state = QWaiting, qw_wake_alls = 0\<rparr> \<and> wr_pc r 0 \<noteq> Panicked \<and> \<not> wq_is_closed (wr_queue r)"
proof -
  have "map_option (\<lambda>r. wr_pc r 1)
      (calm_sched 16 [0, 1] (enqueue_run 0 7 @ enqueue_run 0 8 @ [Start 1 OpWake, Turn 1, Turn 1, Turn 1, Turn 1]) wq_init) =
    Some (WakeLocked \<lparr>qw_state = QWaiting, qw_wake_alls = 0\<rparr>)"
    by (simp add: run_simps enqueue_run_def)
  then obtain r where r: "calm_sched 16 [0, 1] (enqueue_run 0 7 @ enqueue_run 0 8 @ [Start 1 OpWake, Turn 1, Turn 1, Turn 1, Turn 1]) wq_init = Some r"
    "wr_pc r 1 = WakeLocked \<lparr>qw_state = QWaiting, qw_wake_alls = 0\<rparr>" by auto
  have "wq_calm 16 r" using calm_sched_calm [OF r(1) _ wq_calm.init] by (simp add: wq_init_def)
  with calm_never_panics [OF this] r(2) show ?thesis by blast
qed

section \<open>Progress\<close>

lemma turn_unlocked:
  assumes "local_ok d (wr_queue r) (wr_pc r t)" "\<not> idle (wr_pc r t)" "wr_pc r t \<noteq> Panicked"
    "holds (wr_pc r t) \<or> wq_lock (wr_queue r) = None"
  shows "wq_turn cap t r \<noteq> None"
proof -
  have p: "poll_start t n k w r \<noteq> None" if "wr_pc r t = PollStart n k" for n k w
    using assms(4) that by (auto simp: poll_start_def Let_def split: wait_state.split prod.split)
  have "take_lock t pc' r \<noteq> None" if "\<not> holds (wr_pc r t)" for pc'
    using assms(4) that by (simp add: take_lock_def)
  then show ?thesis using assms p
    by (cases "wr_pc r t") (auto simp: turn_defs in_state_def split: q_state.split)
qed

text \<open>C39. In calm runs the queue never gets stuck: as long as any thread is in the middle of an
  operation, some thread can take its next turn, for the thread in the lock never waits and
  never panics.\<close>

theorem calm_progress:
  assumes "wq_calm cap r" "\<not> idle (wr_pc r t)"
  shows "\<exists>t'. wq_turn cap t' r \<noteq> None"
proof -
  note inv = wq_calm_inv [OF assms(1)] wq_reach_inv [OF calm_reach [OF assms(1)]]
  have np: "wr_pc r t' \<noteq> Panicked" for t' using calmD(4) [OF inv, of t'] by auto
  show ?thesis
  proof (cases "wq_lock (wr_queue r)")
    case None
    then show ?thesis using turn_unlocked [OF calmD(2) [OF inv] assms(2) np] by blast
  next
    case (Some t')
    then have h: "holds (wr_pc r t')" using wq_invD(1) [OF inv(2)] by simp
    then have "\<not> idle (wr_pc r t')" by (cases "wr_pc r t'") simp_all
    then show ?thesis using turn_unlocked [OF calmD(2) [OF inv] _ np] h by blast
  qed
qed

lemma calm_progress_witness:
  "\<exists>r t. wq_calm 16 r \<and> wr_pc r 1 = WakeLock \<and> wq_turn 16 t r \<noteq> None"
proof -
  let ?es = "enqueue_run 0 7 @ [Start 1 OpWake, Turn 1, Turn 1]"
  have "map_option (\<lambda>r. wr_pc r 1) (calm_sched 16 [0, 1] ?es wq_init) = Some WakeLock"
    by (simp add: run_simps enqueue_run_def)
  then obtain r where r: "calm_sched 16 [0, 1] ?es wq_init = Some r" "wr_pc r 1 = WakeLock" by auto
  have c: "wq_calm 16 r" using calm_sched_calm [OF r(1) _ wq_calm.init] by (simp add: wq_init_def)
  have "\<not> idle (wr_pc r 1)" using r(2) by simp
  from calm_progress [OF c this] c r(2) show ?thesis by blast
qed

end
