(* ===== verification/Schematic.thy ===== *)
theory Schematic
  imports Value Database
begin

text \<open>
  Schematics: the panels, dashboards and objects that a user lays out, as the configuration of
  the database carries them (\<open>libs/metor-proto/wkt/src/gui.rs\<close> and \<open>Color\<close> of \<open>lib.rs\<close>).  Every
  panel may carry auxiliary data of the user interface, the type \<open>'t\<close>; the saved ones carry
  none.  Floating-point numbers are their bits.
\<close>

section \<open>Numbers and colors\<close>

type_synonym f32 = "32 word"
type_synonym f64 = "64 word"

text \<open>The comparisons with \<open>==\<close> and \<open>> 0.0\<close>.\<close>

definition f32_nan :: "f32 \<Rightarrow> bool" where
  "f32_nan x \<longleftrightarrow> 0x7F800000 < x AND 0x7FFFFFFF"

definition f32_eq :: "f32 \<Rightarrow> f32 \<Rightarrow> bool" where
  "f32_eq x y \<longleftrightarrow> \<not> f32_nan x \<and> \<not> f32_nan y \<and> (x = y \<or> x AND 0x7FFFFFFF = 0 \<and> y AND 0x7FFFFFFF = 0)"

definition f32_pos :: "f32 \<Rightarrow> bool" where
  "f32_pos x \<longleftrightarrow> 0 < x \<and> x \<le> 0x7F800000"

definition f64_nan :: "f64 \<Rightarrow> bool" where
  "f64_nan x \<longleftrightarrow> 0x7FF0000000000000 < x AND 0x7FFFFFFFFFFFFFFF"

definition f64_eq :: "f64 \<Rightarrow> f64 \<Rightarrow> bool" where
  "f64_eq x y \<longleftrightarrow> \<not> f64_nan x \<and> \<not> f64_nan y \<and> (x = y \<or> x AND 0x7FFFFFFFFFFFFFFF = 0 \<and> y AND 0x7FFFFFFFFFFFFFFF = 0)"

text \<open>The literals 1.0, 16.0 and 45.0.\<close>

definition f32_1 :: f32 where
  "f32_1 = 0x3F800000"

definition f32_16 :: f32 where
  "f32_16 = 0x41800000"

definition f32_45 :: f32 where
  "f32_45 = 0x42340000"

definition f64_1 :: f64 where
  "f64_1 = 0x3FF0000000000000"

definition f64_45 :: f64 where
  "f64_45 = 0x4046800000000000"

record color =
  cl_r :: f32
  cl_g :: f32
  cl_b :: f32
  cl_a :: f32

definition rgba :: "f32 \<Rightarrow> f32 \<Rightarrow> f32 \<Rightarrow> f32 \<Rightarrow> color" where
  "rgba r g b a = \<lparr>cl_r = r, cl_g = g, cl_b = b, cl_a = a\<rparr>"

definition rgb :: "f32 \<Rightarrow> f32 \<Rightarrow> f32 \<Rightarrow> color" where
  "rgb r g b = rgba r g b f32_1"

definition color_white :: color where
  "color_white = rgb f32_1 f32_1 f32_1"

definition color_transparent :: color where
  "color_transparent = rgba 0 0 0 0"

text \<open>The colors that have a name in documents.\<close>

definition named_colors :: "(string \<times> color) list" where
  "named_colors =
     [(''black'', rgb 0 0 0), (''white'', color_white),
      (''turquoise'', rgb 0x3ED1EB85 0x3F333333 0x3F400000), (''slate'', rgb 0x3F000000 0x3EE147AE f32_1),
      (''pumpkin'', rgb f32_1 0x3EE147AE 0x3DF5C28F), (''yolk'', rgb f32_1 0x3F451EB8 0x3CA3D70A),
      (''peach'', rgb f32_1 0x3F570A3D 0x3F333333), (''reddish'', rgb 0x3F69BA5E 0x3E000000 0x3D09374C),
      (''hyperblue'', rgb 0x3DA3D70A 0x3EC28F5C 0x3F51EB85), (''mint'', rgb 0x3F07AE14 0x3F5EB852 0x3F1EB852)]"

section \<open>Layout of dashboards\<close>

text \<open>
  The enumerations with their names, in kebab case; a name is looked up, or else found for a
  value.
\<close>

datatype position_type =
    PosRelative | PosAbsolute

definition position_type_names :: "(string \<times> position_type) list" where
  "position_type_names = [(''relative'', PosRelative), (''absolute'', PosAbsolute)]"

datatype align_items =
    ItemsDefault | ItemsStart | ItemsEnd | ItemsFlexStart | ItemsFlexEnd | ItemsCenter
  | ItemsBaseline | ItemsStretch

definition align_items_names :: "(string \<times> align_items) list" where
  "align_items_names = [(''default'', ItemsDefault), (''start'', ItemsStart), (''end'', ItemsEnd), (''flex-start'', ItemsFlexStart), (''flex-end'', ItemsFlexEnd), (''center'', ItemsCenter), (''baseline'', ItemsBaseline), (''stretch'', ItemsStretch)]"

datatype justify_items =
    JItemsDefault | JItemsStart | JItemsEnd | JItemsCenter | JItemsBaseline | JItemsStretch

definition justify_items_names :: "(string \<times> justify_items) list" where
  "justify_items_names = [(''default'', JItemsDefault), (''start'', JItemsStart), (''end'', JItemsEnd), (''center'', JItemsCenter), (''baseline'', JItemsBaseline), (''stretch'', JItemsStretch)]"

datatype display =
    DispFlex | DispGrid | DispBlock | DispNone

definition display_names :: "(string \<times> display) list" where
  "display_names = [(''flex'', DispFlex), (''grid'', DispGrid), (''block'', DispBlock), (''none'', DispNone)]"

datatype box_sizing =
    SizingBorderBox | SizingContentBox

definition box_sizing_names :: "(string \<times> box_sizing) list" where
  "box_sizing_names = [(''border-box'', SizingBorderBox), (''content-box'', SizingContentBox)]"

datatype flex_direction =
    DirRow | DirColumn | DirRowReverse | DirColumnReverse

definition flex_direction_names :: "(string \<times> flex_direction) list" where
  "flex_direction_names = [(''row'', DirRow), (''column'', DirColumn), (''row-reverse'', DirRowReverse), (''column-reverse'', DirColumnReverse)]"

datatype flex_wrap =
    WrappingNoWrap | WrappingWrap | WrappingWrapReverse

definition flex_wrap_names :: "(string \<times> flex_wrap) list" where
  "flex_wrap_names = [(''no-wrap'', WrappingNoWrap), (''wrap'', WrappingWrap), (''wrap-reverse'', WrappingWrapReverse)]"

datatype align_self =
    SelfAuto | SelfStart | SelfEnd | SelfFlexStart | SelfFlexEnd | SelfCenter
  | SelfBaseline | SelfStretch

definition align_self_names :: "(string \<times> align_self) list" where
  "align_self_names = [(''auto'', SelfAuto), (''start'', SelfStart), (''end'', SelfEnd), (''flex-start'', SelfFlexStart), (''flex-end'', SelfFlexEnd), (''center'', SelfCenter), (''baseline'', SelfBaseline), (''stretch'', SelfStretch)]"

datatype justify_self =
    JSelfAuto | JSelfStart | JSelfEnd | JSelfCenter | JSelfBaseline | JSelfStretch

definition justify_self_names :: "(string \<times> justify_self) list" where
  "justify_self_names = [(''auto'', JSelfAuto), (''start'', JSelfStart), (''end'', JSelfEnd), (''center'', JSelfCenter), (''baseline'', JSelfBaseline), (''stretch'', JSelfStretch)]"

datatype align_content =
    ContentDefault | ContentStart | ContentEnd | ContentFlexStart | ContentFlexEnd | ContentCenter
  | ContentStretch | ContentSpaceBetween | ContentSpaceEvenly | ContentSpaceAround

definition align_content_names :: "(string \<times> align_content) list" where
  "align_content_names = [(''default'', ContentDefault), (''start'', ContentStart), (''end'', ContentEnd), (''flex-start'', ContentFlexStart), (''flex-end'', ContentFlexEnd), (''center'', ContentCenter), (''stretch'', ContentStretch), (''space-between'', ContentSpaceBetween), (''space-evenly'', ContentSpaceEvenly), (''space-around'', ContentSpaceAround)]"

datatype justify_content =
    JContentDefault | JContentStart | JContentEnd | JContentFlexStart | JContentFlexEnd | JContentCenter
  | JContentStretch | JContentSpaceBetween | JContentSpaceEvenly | JContentSpaceAround

definition justify_content_names :: "(string \<times> justify_content) list" where
  "justify_content_names = [(''default'', JContentDefault), (''start'', JContentStart), (''end'', JContentEnd), (''flex-start'', JContentFlexStart), (''flex-end'', JContentFlexEnd), (''center'', JContentCenter), (''stretch'', JContentStretch), (''space-between'', JContentSpaceBetween), (''space-evenly'', JContentSpaceEvenly), (''space-around'', JContentSpaceAround)]"

definition from_str :: "(string \<times> 'a) list \<Rightarrow> string \<Rightarrow> 'a option" where
  "from_str names s = map_of names s"

fun to_str :: "(string \<times> 'a) list \<Rightarrow> 'a \<Rightarrow> string" where
  "to_str [] x = []"
| "to_str ((s, y) # names) x = (if x = y then s else to_str names x)"

datatype overflow_axis = AxisVisible | AxisClip | AxisHidden | AxisScroll

record overflow =
  ov_x :: overflow_axis
  ov_y :: overflow_axis

datatype overflow_clip_box = ClipContentBox | ClipPaddingBox | ClipBorderBox

record overflow_clip_margin =
  oc_box :: overflow_clip_box
  oc_margin :: f32

text \<open>Lengths are expressions with a unit.\<close>

datatype val = ValAuto | ValPx string | ValPercent string | ValVw string | ValVh string | ValVMin string | ValVMax string

fun val_eql :: "val \<Rightarrow> string" where
  "val_eql ValAuto = []"
| "val_eql (ValPx v) = v"
| "val_eql (ValPercent v) = v"
| "val_eql (ValVw v) = v"
| "val_eql (ValVh v) = v"
| "val_eql (ValVMin v) = v"
| "val_eql (ValVMax v) = v"

record ui_rect =
  ur_left :: val
  ur_right :: val
  ur_top :: val
  ur_bottom :: val

definition ui_rect_default :: ui_rect where
  "ui_rect_default = \<lparr>ur_left = ValPx ''0.0'', ur_right = ValPx ''0.0'', ur_top = ValPx ''0.0'', ur_bottom = ValPx ''0.0''\<rparr>"

text \<open>A node of a dashboard: everything but its children.\<close>

record dash_props =
  dn_label :: "string option"
  dn_display :: display
  dn_box_sizing :: box_sizing
  dn_position_type :: position_type
  dn_overflow :: overflow
  dn_clip_margin :: overflow_clip_margin
  dn_left :: val
  dn_right :: val
  dn_top :: val
  dn_bottom :: val
  dn_width :: val
  dn_height :: val
  dn_min_width :: val
  dn_min_height :: val
  dn_max_width :: val
  dn_max_height :: val
  dn_aspect_ratio :: "f32 option"
  dn_align_items :: align_items
  dn_justify_items :: justify_items
  dn_align_self :: align_self
  dn_justify_self :: justify_self
  dn_align_content :: align_content
  dn_justify_content :: justify_content
  dn_margin :: ui_rect
  dn_padding :: ui_rect
  dn_border :: ui_rect
  dn_flex_direction :: flex_direction
  dn_flex_wrap :: flex_wrap
  dn_flex_grow :: f32
  dn_flex_shrink :: f32
  dn_flex_basis :: val
  dn_row_gap :: val
  dn_column_gap :: val
  dn_color :: color
  dn_text :: "string option"
  dn_font_size :: f32
  dn_text_color :: color

datatype 't dash_node = DashNode dash_props 't "'t dash_node list"

datatype 't dashboard = Dashboard "'t dash_node" 't

section \<open>Panels\<close>

datatype graph_type = LineGraph | PointGraph | BarGraph

datatype query_type = QueryEQL | QuerySQL

record 't viewport =
  vp_fov :: f32
  vp_active :: bool
  vp_show_grid :: bool
  vp_hdr :: bool
  vp_name :: "string option"
  vp_pos :: "string option"
  vp_look_at :: "string option"
  vp_aux :: 't

record 't graph =
  gr_eql :: string
  gr_name :: "string option"
  gr_type :: graph_type
  gr_auto_y_range :: bool
  gr_y_range :: "f64 \<times> f64"
  gr_aux :: 't

record action_pane =
  ap_label :: string
  ap_lua :: string

record query_table =
  qt_query :: string
  qt_type :: query_type

text \<open>Durations are in nanoseconds.\<close>

record 't query_plot =
  qp_label :: string
  qp_query :: string
  qp_refresh_interval :: nat
  qp_auto_refresh :: bool
  qp_color :: color
  qp_type :: query_type
  qp_aux :: 't

record 't map_panel =
  mp_eql :: string
  mp_aux :: 't

datatype 't panel =
    Viewport "'t viewport"
  | VSplit "'t split"
  | HSplit "'t split"
  | Graph "'t graph"
  | ComponentMonitor u64
  | ActionPane action_pane
  | QueryTable query_table
  | QueryPlot "'t query_plot"
  | Tabs "'t panel list"
  | Inspector
  | Hierarchy
  | SchematicTree
  | DashboardPanel "'t dashboard"
  | MapPanel "'t map_panel"
and 't split = Split (sp_panels: "'t panel list") (sp_shares: "nat \<rightharpoonup> f32") (sp_active: bool)

text \<open>Objects in the scene.\<close>

datatype mesh = Sphere f32 | MeshBox f32 f32 f32 | Cylinder f32 f32

datatype material = Material color

datatype object_mesh = GlbMesh string | ShapeMesh mesh material

record 't object_3d =
  ob_eql :: string
  ob_mesh :: object_mesh
  ob_aux :: 't

record 't line_3d =
  ln_eql :: string
  ln_width :: f32
  ln_color :: color
  ln_perspective :: bool
  ln_aux :: 't

datatype 't schematic_elem = PanelElem "'t panel" | Object3d "'t object_3d" | Line3d "'t line_3d"

type_synonym 't schematic = "'t schematic_elem list"

section \<open>Operations on panels\<close>

fun panel_label :: "'t panel \<Rightarrow> string" where
  "panel_label (Viewport v) = ''Viewport''"
| "panel_label (VSplit s) = ''Vertical Split''"
| "panel_label (HSplit s) = ''Horizontal Split''"
| "panel_label (Graph g) = ''Graph''"
| "panel_label (ComponentMonitor m) = ''Component Monitor''"
| "panel_label (ActionPane a) = ''Action Pane''"
| "panel_label (QueryTable q) = ''Query Table''"
| "panel_label (QueryPlot q) = qp_label q"
| "panel_label (Tabs ps) = ''Tabs''"
| "panel_label Inspector = ''Inspector''"
| "panel_label Hierarchy = ''Hierarchy''"
| "panel_label SchematicTree = ''Tree''"
| "panel_label (DashboardPanel (Dashboard (DashNode p x cs) y)) = (case dn_label p of Some l \<Rightarrow> l | None \<Rightarrow> ''Dashboard'')"
| "panel_label (MapPanel m) = ''Map''"

text \<open>Tabs of a single panel are that panel.\<close>

fun collapse :: "'t panel \<Rightarrow> 't panel" where
  "collapse (Tabs [p]) = collapse p"
| "collapse p = p"

fun panel_children :: "'t panel \<Rightarrow> 't panel list" where
  "panel_children (HSplit s) = sp_panels s"
| "panel_children (VSplit s) = sp_panels s"
| "panel_children (Tabs ps) = ps"
| "panel_children _ = []"

fun map_aux_node :: "('t \<Rightarrow> 'u) \<Rightarrow> 't dash_node \<Rightarrow> 'u dash_node" where
  "map_aux_node f (DashNode p x cs) = DashNode p (f x) (map (map_aux_node f) cs)"

definition map_aux_viewport :: "('t \<Rightarrow> 'u) \<Rightarrow> 't viewport \<Rightarrow> 'u viewport" where
  "map_aux_viewport f v =
     \<lparr>vp_fov = vp_fov v, vp_active = vp_active v, vp_show_grid = vp_show_grid v, vp_hdr = vp_hdr v, vp_name = vp_name v,
      vp_pos = vp_pos v, vp_look_at = vp_look_at v, vp_aux = f (vp_aux v)\<rparr>"

definition map_aux_graph :: "('t \<Rightarrow> 'u) \<Rightarrow> 't graph \<Rightarrow> 'u graph" where
  "map_aux_graph f g =
     \<lparr>gr_eql = gr_eql g, gr_name = gr_name g, gr_type = gr_type g, gr_auto_y_range = gr_auto_y_range g,
      gr_y_range = gr_y_range g, gr_aux = f (gr_aux g)\<rparr>"

definition map_aux_plot :: "('t \<Rightarrow> 'u) \<Rightarrow> 't query_plot \<Rightarrow> 'u query_plot" where
  "map_aux_plot f q =
     \<lparr>qp_label = qp_label q, qp_query = qp_query q, qp_refresh_interval = qp_refresh_interval q,
      qp_auto_refresh = qp_auto_refresh q, qp_color = qp_color q, qp_type = qp_type q, qp_aux = f (qp_aux q)\<rparr>"

fun map_aux :: "('t \<Rightarrow> 'u) \<Rightarrow> 't panel \<Rightarrow> 'u panel"
  and map_aux_split :: "('t \<Rightarrow> 'u) \<Rightarrow> 't split \<Rightarrow> 'u split" where
  "map_aux f (HSplit s) = HSplit (map_aux_split f s)"
| "map_aux f (VSplit s) = VSplit (map_aux_split f s)"
| "map_aux f (Tabs ps) = Tabs (map (map_aux f) ps)"
| "map_aux f (Graph g) = Graph (map_aux_graph f g)"
| "map_aux f (ComponentMonitor m) = ComponentMonitor m"
| "map_aux f (ActionPane a) = ActionPane a"
| "map_aux f (QueryTable q) = QueryTable q"
| "map_aux f (QueryPlot q) = QueryPlot (map_aux_plot f q)"
| "map_aux f Hierarchy = Hierarchy"
| "map_aux f SchematicTree = SchematicTree"
| "map_aux f Inspector = Inspector"
| "map_aux f (Viewport v) = Viewport (map_aux_viewport f v)"
| "map_aux f (DashboardPanel (Dashboard n x)) = DashboardPanel (Dashboard (map_aux_node f n) (f x))"
| "map_aux f (MapPanel m) = MapPanel \<lparr>mp_eql = mp_eql m, mp_aux = f (mp_aux m)\<rparr>"
| "map_aux_split f (Split ps shares active) = Split (map (map_aux f) ps) shares active"

fun panel_aux :: "'t panel \<Rightarrow> 't option" where
  "panel_aux (Graph g) = Some (gr_aux g)"
| "panel_aux (QueryPlot q) = Some (qp_aux q)"
| "panel_aux (Viewport v) = Some (vp_aux v)"
| "panel_aux (DashboardPanel (Dashboard n x)) = Some x"
| "panel_aux (MapPanel m) = Some (mp_aux m)"
| "panel_aux _ = None"

fun clear_aux :: "'t schematic_elem \<Rightarrow> unit schematic_elem" where
  "clear_aux (PanelElem p) = PanelElem (map_aux (\<lambda>_. ()) p)"
| "clear_aux (Object3d ob) = Object3d \<lparr>ob_eql = ob_eql ob, ob_mesh = ob_mesh ob, ob_aux = ()\<rparr>"
| "clear_aux (Line3d l) = Line3d \<lparr>ln_eql = ln_eql l, ln_width = ln_width l, ln_color = ln_color l, ln_perspective = ln_perspective l, ln_aux = ()\<rparr>"

text \<open>Auxiliary data can be changed step by step, and does not change what a panel is.\<close>

lemma map_aux_node_comp: "map_aux_node f (map_aux_node g n) = map_aux_node (\<lambda>x. f (g x)) n"
  by (induction n) simp

lemma map_aux_comp:
  fixes p :: "'t panel" and s :: "'t split"
  shows "map_aux f (map_aux g p) = map_aux (\<lambda>x. f (g x)) p" and "map_aux_split f (map_aux_split g s) = map_aux_split (\<lambda>x. f (g x)) s"
proof (induction p and s rule: panel.induct split.induct)
  case (DashboardPanel d)
  then show ?case by (cases d) (simp add: map_aux_node_comp)
qed (simp_all add: map_aux_viewport_def map_aux_graph_def map_aux_plot_def)

lemma panel_aux_map_aux: "panel_aux (map_aux f p) = map_option f (panel_aux p)"
proof (cases p)
  case (DashboardPanel d)
  then show ?thesis by (cases d) simp
qed (simp_all add: map_aux_viewport_def map_aux_graph_def map_aux_plot_def)

lemma collapse_map_aux:
  fixes p :: "'t panel"
  shows "collapse (map_aux f p) = map_aux f (collapse p)"
proof -
  have "collapse (map_aux f (DashboardPanel d)) = map_aux f (DashboardPanel d)" for d :: "'t dashboard" by (cases d) simp
  then show ?thesis by (induction p rule: collapse.induct) simp_all
qed

end
