(* ===== verification/SchematicKdl.thy ===== *)
theory SchematicKdl
  imports Schematic
begin

text \<open>
  Schematics as KDL documents (\<open>libs/metor-proto/kdl\<close>): \<open>ser.rs\<close> builds the nodes of a document
  from a schematic, \<open>de.rs\<close> reads them.  The document library is external: its nodes are data,
  its text format, its lookup of properties and its way to display an entry are parameters.
\<close>

section \<open>Documents\<close>

datatype kdl_value = KString string | KInteger int | KFloat f64 | KBool bool | KNull

fun as_string :: "kdl_value \<Rightarrow> string option" where
  "as_string (KString s) = Some s"
| "as_string _ = None"

fun as_float :: "kdl_value \<Rightarrow> f64 option" where
  "as_float (KFloat x) = Some x"
| "as_float _ = None"

fun as_integer :: "kdl_value \<Rightarrow> int option" where
  "as_integer (KInteger i) = Some i"
| "as_integer _ = None"

fun as_bool :: "kdl_value \<Rightarrow> bool option" where
  "as_bool (KBool b) = Some b"
| "as_bool _ = None"

text \<open>An entry is an argument or a property; its layout is opaque, a node knows its place.\<close>

record kdl_entry =
  ke_name :: "string option"
  ke_value :: kdl_value
  ke_format :: string

datatype ('e, 's) kdl_node =
  KdlNode (kn_name: string) (kn_entries: "'e list") (kn_children: "('e, 's) kdl_node list option") (kn_span: 's)

type_synonym span = "nat \<times> nat"
type_synonym node = "(kdl_entry, span) kdl_node"

record kdl_lib =
  kl_get :: "node \<Rightarrow> string \<Rightarrow> kdl_value option"
  kl_entry_text :: "kdl_entry \<Rightarrow> string"
  kl_name_text :: "node \<Rightarrow> string"
  kl_print :: "node list \<Rightarrow> string"
  kl_parse :: "string \<Rightarrow> string + node list"
  kl_show_f32 :: "f32 \<Rightarrow> string"
  kl_hash :: "string \<Rightarrow> u64"
  kl_floats :: float_ops

text \<open>\<open>x as f64\<close>, \<open>x as f32\<close>.\<close>

abbreviation wide :: "kdl_lib \<Rightarrow> f32 \<Rightarrow> f64" where
  "wide L \<equiv> f64_of_f32 (kl_floats L)"

abbreviation narrow :: "kdl_lib \<Rightarrow> f64 \<Rightarrow> f32" where
  "narrow L \<equiv> f32_of_f64 (kl_floats L)"

section \<open>Writing\<close>

text \<open>\<open>KdlEntry::new\<close>, \<open>new_prop\<close>, \<open>KdlNode::new\<close> and what is set after it.\<close>

definition new_arg :: "kdl_value \<Rightarrow> kdl_entry" where
  "new_arg v = \<lparr>ke_name = None, ke_value = v, ke_format = []\<rparr>"

definition new_prop :: "string \<Rightarrow> kdl_value \<Rightarrow> kdl_entry" where
  "new_prop k v = \<lparr>ke_name = Some k, ke_value = v, ke_format = []\<rparr>"

definition new_node :: "string \<Rightarrow> kdl_entry list \<Rightarrow> node" where
  "new_node name es = KdlNode name es None (0, 0)"

definition with_children :: "node \<Rightarrow> node list \<Rightarrow> node" where
  "with_children n cs = KdlNode (kn_name n) (kn_entries n) (Some cs) (kn_span n)"

definition push_prop :: "string \<Rightarrow> kdl_value \<Rightarrow> node \<Rightarrow> node" where
  "push_prop k v n = KdlNode (kn_name n) (kn_entries n @ [new_prop k v]) (kn_children n) (kn_span n)"

text \<open>Properties pushed one after the other, those with a value.\<close>

fun props :: "(string \<times> kdl_value option) list \<Rightarrow> kdl_entry list" where
  "props [] = []"
| "props ((k, None) # ps) = props ps"
| "props ((k, Some v) # ps) = new_prop k v # props ps"

definition prop_if :: "bool \<Rightarrow> kdl_value \<Rightarrow> kdl_value option" where
  "prop_if b v = (if b then Some v else None)"

definition color_props :: "kdl_lib \<Rightarrow> color \<Rightarrow> (string \<times> kdl_value option) list" where
  "color_props L c =
     [(''r'', Some (KFloat (wide L (cl_r c)))), (''g'', Some (KFloat (wide L (cl_g c)))), (''b'', Some (KFloat (wide L (cl_b c))))]"

definition serialize_viewport :: "kdl_lib \<Rightarrow> 't viewport \<Rightarrow> node" where
  "serialize_viewport L v = new_node ''viewport'' (props
     [(''name'', map_option KString (vp_name v)),
      (''fov'', prop_if (\<not> f32_eq (vp_fov v) f32_45) (KFloat (wide L (vp_fov v)))),
      (''active'', prop_if (vp_active v) (KBool True)),
      (''show_grid'', prop_if (vp_show_grid v) (KBool True)),
      (''hdr'', prop_if (vp_hdr v) (KBool True)),
      (''pos'', map_option KString (vp_pos v)),
      (''look_at'', map_option KString (vp_look_at v))])"

definition serialize_graph :: "'t graph \<Rightarrow> node" where
  "serialize_graph g =
     (let range = \<not> gr_auto_y_range g \<and> (\<not> f64_eq (fst (gr_y_range g)) 0 \<or> \<not> f64_eq (snd (gr_y_range g)) f64_1)
      in new_node ''graph'' (new_arg (KString (gr_eql g)) # props
        [(''name'', map_option KString (gr_name g)),
         (''type'', case gr_type g of LineGraph \<Rightarrow> None | PointGraph \<Rightarrow> Some (KString ''point'') | BarGraph \<Rightarrow> Some (KString ''bar'')),
         (''auto_y_range'', prop_if (\<not> gr_auto_y_range g) (KBool False)),
         (''y_min'', prop_if range (KFloat (fst (gr_y_range g)))),
         (''y_max'', prop_if range (KFloat (snd (gr_y_range g))))]))"

definition serialize_component_monitor :: "u64 \<Rightarrow> node" where
  "serialize_component_monitor cid = new_node ''component_monitor'' (props [(''component_id'', Some (KString (decimal (unat cid))))])"

definition serialize_action_pane :: "action_pane \<Rightarrow> node" where
  "serialize_action_pane a = new_node ''action_pane'' (new_arg (KString (ap_label a)) # props [(''lua'', Some (KString (ap_lua a)))])"

definition query_type_prop :: "query_type \<Rightarrow> kdl_value option" where
  "query_type_prop t = (case t of QueryEQL \<Rightarrow> None | QuerySQL \<Rightarrow> Some (KString ''sql''))"

definition serialize_query_table :: "query_table \<Rightarrow> node" where
  "serialize_query_table q = new_node ''query_table''
     ((if qt_query q = [] then [] else [new_arg (KString (qt_query q))]) @ props [(''type'', query_type_prop (qt_type q))])"

definition as_millis :: "nat \<Rightarrow> nat" where
  "as_millis d = d div 10 ^ 6"

definition serialize_query_plot :: "kdl_lib \<Rightarrow> 't query_plot \<Rightarrow> node" where
  "serialize_query_plot L q = new_node ''query_plot'' (new_arg (KString (qp_label q)) # props
     ([(''query'', Some (KString (qp_query q))),
       (''refresh_interval'', prop_if (as_millis (qp_refresh_interval q) \<noteq> 1000) (KInteger (int (as_millis (qp_refresh_interval q))))),
       (''auto_refresh'', prop_if (qp_auto_refresh q) (KBool True))] @
      color_props L (qp_color q) @
      [(''type'', query_type_prop (qp_type q))]))"

definition serialize_mesh :: "kdl_lib \<Rightarrow> object_mesh \<Rightarrow> node" where
  "serialize_mesh L m =
     (let num = (\<lambda>x. Some (KFloat (wide L x)))
      in case m of
           GlbMesh path \<Rightarrow> new_node ''glb'' [new_arg (KString path)]
         | ShapeMesh mesh (Material c) \<Rightarrow>
             (case mesh of
                Sphere radius \<Rightarrow> new_node ''sphere'' (props ([(''radius'', num radius)] @ color_props L c))
              | MeshBox x y z \<Rightarrow> new_node ''box'' (props ([(''x'', num x), (''y'', num y), (''z'', num z)] @ color_props L c))
              | Cylinder radius height \<Rightarrow>
                  new_node ''cylinder'' (props ([(''radius'', num radius), (''height'', num height)] @ color_props L c))))"

definition serialize_object_3d :: "kdl_lib \<Rightarrow> 't object_3d \<Rightarrow> node" where
  "serialize_object_3d L ob = with_children (new_node ''object_3d'' [new_arg (KString (ob_eql ob))]) [serialize_mesh L (ob_mesh ob)]"

definition serialize_line_3d :: "kdl_lib \<Rightarrow> 't line_3d \<Rightarrow> node" where
  "serialize_line_3d L l = new_node ''line_3d'' (new_arg (KString (ln_eql l)) # props
     ([(''line_width'', prop_if (\<not> f32_eq (ln_width l) f32_1) (KFloat (wide L (ln_width l))))] @
      color_props L (ln_color l) @
      [(''perspective'', prop_if (\<not> ln_perspective l) (KBool False))]))"

definition serialize_map :: "'t map_panel \<Rightarrow> node" where
  "serialize_map m = new_node ''map'' [new_arg (KString (mp_eql m))]"

subsection \<open>Dashboards\<close>

fun val_prop :: "val \<Rightarrow> kdl_value option" where
  "val_prop ValAuto = None"
| "val_prop (ValPx s) = Some (KString (s @ ''px''))"
| "val_prop (ValPercent s) = Some (KString (s @ ''%''))"
| "val_prop (ValVw s) = Some (KString (s @ ''vw''))"
| "val_prop (ValVh s) = Some (KString (s @ ''vh''))"
| "val_prop (ValVMin s) = Some (KString (s @ ''vmin''))"
| "val_prop (ValVMax s) = Some (KString (s @ ''vmax''))"

definition enum_prop :: "(string \<times> 'a) list \<Rightarrow> 'a \<Rightarrow> kdl_value option" where
  "enum_prop names x = prop_if (x \<noteq> snd (hd names)) (KString (to_str names x))"

definition rect_props :: "ui_rect \<Rightarrow> (string \<times> kdl_value option) list" where
  "rect_props r =
     [(''left'', val_prop (ur_left r)), (''right'', val_prop (ur_right r)), (''top'', val_prop (ur_top r)), (''bottom'', val_prop (ur_bottom r))]"

definition dash_node_props :: "kdl_lib \<Rightarrow> dash_props \<Rightarrow> (string \<times> kdl_value option) list" where
  "dash_node_props L p =
     [(''label'', map_option KString (dn_label p)),
      (''display'', enum_prop display_names (dn_display p)),
      (''box_sizing'', enum_prop box_sizing_names (dn_box_sizing p)),
      (''position_type'', enum_prop position_type_names (dn_position_type p)),
      (''left'', val_prop (dn_left p)), (''right'', val_prop (dn_right p)), (''top'', val_prop (dn_top p)), (''bottom'', val_prop (dn_bottom p)),
      (''width'', val_prop (dn_width p)), (''height'', val_prop (dn_height p)),
      (''min_width'', val_prop (dn_min_width p)), (''min_height'', val_prop (dn_min_height p)),
      (''max_width'', val_prop (dn_max_width p)), (''max_height'', val_prop (dn_max_height p)),
      (''aspect_ratio'', map_option (\<lambda>x. KFloat (wide L x)) (dn_aspect_ratio p)),
      (''align_items'', enum_prop align_items_names (dn_align_items p)),
      (''justify_items'', enum_prop justify_items_names (dn_justify_items p)),
      (''align_self'', enum_prop align_self_names (dn_align_self p)),
      (''justify_self'', enum_prop justify_self_names (dn_justify_self p)),
      (''align_content'', enum_prop align_content_names (dn_align_content p)),
      (''justify_content'', enum_prop justify_content_names (dn_justify_content p)),
      (''flex_direction'', enum_prop flex_direction_names (dn_flex_direction p)),
      (''flex_wrap'', enum_prop flex_wrap_names (dn_flex_wrap p)),
      (''flex_grow'', prop_if (\<not> f32_eq (dn_flex_grow p) 0) (KFloat (wide L (dn_flex_grow p)))),
      (''flex_shrink'', prop_if (\<not> f32_eq (dn_flex_shrink p) f32_1) (KFloat (wide L (dn_flex_shrink p)))),
      (''flex_basis'', val_prop (dn_flex_basis p)),
      (''row_gap'', val_prop (dn_row_gap p)), (''column_gap'', val_prop (dn_column_gap p)),
      (''text'', map_option KString (dn_text p)),
      (''font_size'', prop_if (\<not> f32_eq (dn_font_size p) f32_16) (KFloat (wide L (dn_font_size p))))]"

definition rect_node :: "string \<Rightarrow> ui_rect \<Rightarrow> node list" where
  "rect_node name r = (if r = ui_rect_default then [] else [new_node name (props (rect_props r))])"

fun serialize_dash_node :: "kdl_lib \<Rightarrow> 't dash_node \<Rightarrow> node" where
  "serialize_dash_node L (DashNode p x cs) =
     with_children (new_node ''node'' (props (dash_node_props L p)))
       (rect_node ''margin'' (dn_margin p) @ rect_node ''padding'' (dn_padding p) @ rect_node ''border'' (dn_border p) @
        (if f32_pos (cl_a (dn_color p)) then [new_node ''bg'' (props (color_props L (dn_color p)))] else []) @
        [new_node ''text_color'' (props (color_props L (dn_text_color p)))] @
        map (serialize_dash_node L) cs)"

fun serialize_dashboard :: "kdl_lib \<Rightarrow> 't dashboard \<Rightarrow> node" where
  "serialize_dashboard L (Dashboard n x) =
     (let k = serialize_dash_node L n in KdlNode ''dashboard'' (kn_entries k) (kn_children k) (kn_span k))"

subsection \<open>Panels and schematics\<close>

fun serialize_panel :: "kdl_lib \<Rightarrow> 't panel \<Rightarrow> node"
  and serialize_split :: "kdl_lib \<Rightarrow> 't split \<Rightarrow> bool \<Rightarrow> node"
  and serialize_shared :: "kdl_lib \<Rightarrow> (nat \<rightharpoonup> f32) \<Rightarrow> nat \<Rightarrow> 't panel list \<Rightarrow> node list" where
  "serialize_panel L (Tabs ps) = with_children (new_node ''tabs'' []) (map (serialize_panel L) ps)"
| "serialize_panel L (HSplit s) = serialize_split L s True"
| "serialize_panel L (VSplit s) = serialize_split L s False"
| "serialize_panel L (Viewport v) = serialize_viewport L v"
| "serialize_panel L (Graph g) = serialize_graph g"
| "serialize_panel L (ComponentMonitor m) = serialize_component_monitor m"
| "serialize_panel L (ActionPane a) = serialize_action_pane a"
| "serialize_panel L (QueryTable q) = serialize_query_table q"
| "serialize_panel L (QueryPlot q) = serialize_query_plot L q"
| "serialize_panel L Inspector = new_node ''inspector'' []"
| "serialize_panel L Hierarchy = new_node ''hierarchy'' []"
| "serialize_panel L SchematicTree = new_node ''schematic_tree'' []"
| "serialize_panel L (DashboardPanel d) = serialize_dashboard L d"
| "serialize_panel L (MapPanel m) = serialize_map m"
| "serialize_split L (Split ps shares active) horizontal =
     with_children (new_node (if horizontal then ''hsplit'' else ''vsplit'') (props [(''active'', prop_if active (KBool True))]))
       (serialize_shared L shares 0 ps)"
| "serialize_shared L shares i [] = []"
| "serialize_shared L shares i (p # ps) =
     (case shares i of None \<Rightarrow> serialize_panel L p | Some x \<Rightarrow> push_prop ''share'' (KFloat (wide L x)) (serialize_panel L p)) #
     serialize_shared L shares (Suc i) ps"

fun serialize_schematic_elem :: "kdl_lib \<Rightarrow> 't schematic_elem \<Rightarrow> node" where
  "serialize_schematic_elem L (PanelElem p) = serialize_panel L p"
| "serialize_schematic_elem L (Object3d ob) = serialize_object_3d L ob"
| "serialize_schematic_elem L (Line3d l) = serialize_line_3d L l"

definition serialize_schematic :: "kdl_lib \<Rightarrow> 't schematic \<Rightarrow> string" where
  "serialize_schematic L s = kl_print L (map (serialize_schematic_elem L) s)"

section \<open>Reading\<close>

datatype kdl_error =
    KdlParseError string string span
  | KdlMissingProperty string string string span
  | KdlInvalidValue string string string string span
  | KdlUnknownNode string string span

definition get_bool :: "kdl_lib \<Rightarrow> node \<Rightarrow> string \<Rightarrow> bool \<Rightarrow> bool" where
  "get_bool L n k d = (case Option.bind (kl_get L n k) as_bool of None \<Rightarrow> d | Some b \<Rightarrow> b)"

definition get_string :: "kdl_lib \<Rightarrow> node \<Rightarrow> string \<Rightarrow> string option" where
  "get_string L n k = Option.bind (kl_get L n k) as_string"

definition get_float :: "kdl_lib \<Rightarrow> node \<Rightarrow> string \<Rightarrow> f64 option" where
  "get_float L n k = Option.bind (kl_get L n k) as_float"

definition or_else :: "'a option \<Rightarrow> 'a \<Rightarrow> 'a" where
  "or_else x d = (case x of None \<Rightarrow> d | Some y \<Rightarrow> y)"

text \<open>The first entry without a name.\<close>

definition first_arg :: "node \<Rightarrow> kdl_entry option" where
  "first_arg n = find (\<lambda>e. ke_name e = None) (kn_entries n)"

definition arg_string :: "node \<Rightarrow> string option" where
  "arg_string n = Option.bind (first_arg n) (\<lambda>e. as_string (ke_value e))"

text \<open>\<open>ok_or_else\<close> with the missing property.\<close>

definition required :: "string \<Rightarrow> string \<Rightarrow> string \<Rightarrow> node \<Rightarrow> 'a option \<Rightarrow> kdl_error + 'a" where
  "required property name src n x = (case x of None \<Rightarrow> Inl (KdlMissingProperty property name src (kn_span n)) | Some y \<Rightarrow> Inr y)"

definition and_then :: "'e + 'a \<Rightarrow> ('a \<Rightarrow> 'e + 'b) \<Rightarrow> 'e + 'b" where
  "and_then x f = (case x of Inl e \<Rightarrow> Inl e | Inr y \<Rightarrow> f y)"

definition parse_viewport :: "kdl_lib \<Rightarrow> node \<Rightarrow> unit panel" where
  "parse_viewport L n = Viewport
     \<lparr>vp_fov = narrow L (or_else (get_float L n ''fov'') f64_45), vp_active = get_bool L n ''active'' False,
      vp_show_grid = get_bool L n ''show_grid'' False, vp_hdr = get_bool L n ''hdr'' False, vp_name = get_string L n ''name'',
      vp_pos = get_string L n ''pos'', vp_look_at = get_string L n ''look_at'', vp_aux = ()\<rparr>"

definition parse_graph :: "kdl_lib \<Rightarrow> node \<Rightarrow> string \<Rightarrow> kdl_error + unit panel" where
  "parse_graph L n src =
     and_then (required ''eql'' ''graph'' src n (arg_string n)) (\<lambda>eql. Inr (Graph
       \<lparr>gr_eql = eql, gr_name = get_string L n ''name'',
        gr_type = (case get_string L n ''type'' of
                     None \<Rightarrow> LineGraph
                   | Some s \<Rightarrow> if s = ''line'' then LineGraph else if s = ''point'' then PointGraph else if s = ''bar'' then BarGraph else LineGraph),
        gr_auto_y_range = get_bool L n ''auto_y_range'' True,
        gr_y_range = (case (get_float L n ''y_min'', get_float L n ''y_max'') of (Some a, Some b) \<Rightarrow> (a, b) | _ \<Rightarrow> (0, f64_1)),
        gr_aux = ()\<rparr>))"

definition parse_component_monitor :: "kdl_lib \<Rightarrow> node \<Rightarrow> string \<Rightarrow> kdl_error + unit panel" where
  "parse_component_monitor L n src =
     and_then (required ''component_id'' ''component_monitor'' src n (map_option (component_id_new (kl_hash L)) (get_string L n ''component_id'')))
       (\<lambda>cid. Inr (ComponentMonitor cid))"

definition parse_action_pane :: "kdl_lib \<Rightarrow> node \<Rightarrow> string \<Rightarrow> kdl_error + unit panel" where
  "parse_action_pane L n src =
     and_then (required ''label'' ''action_pane'' src n (arg_string n)) (\<lambda>label.
     and_then (required ''lua'' ''action_pane'' src n (get_string L n ''lua'')) (\<lambda>lua.
       Inr (ActionPane \<lparr>ap_label = label, ap_lua = lua\<rparr>)))"

definition parse_query_type :: "kdl_lib \<Rightarrow> node \<Rightarrow> query_type" where
  "parse_query_type L n =
     (case get_string L n ''type'' of
        None \<Rightarrow> QueryEQL
      | Some s \<Rightarrow> if s = ''sql'' then QuerySQL else if s = ''eql'' then QueryEQL else QueryEQL)"

definition parse_query_table :: "kdl_lib \<Rightarrow> node \<Rightarrow> unit panel" where
  "parse_query_table L n = QueryTable \<lparr>qt_query = or_else (arg_string n) [], qt_type = parse_query_type L n\<rparr>"

definition parse_color_from_node :: "kdl_lib \<Rightarrow> node \<Rightarrow> color option" where
  "parse_color_from_node L n =
     (case (get_float L n ''r'', get_float L n ''g'', get_float L n ''b'') of
        (Some r, Some g, Some b) \<Rightarrow>
          Some (rgba (narrow L r) (narrow L g) (narrow L b) (narrow L (or_else (get_float L n ''a'') f64_1)))
      | _ \<Rightarrow> Option.bind (get_string L n ''color'') (map_of named_colors))"

text \<open>A label is the text of its entry, not its string.  \<open>ms as u64\<close> wraps.\<close>

definition parse_query_plot :: "kdl_lib \<Rightarrow> node \<Rightarrow> string \<Rightarrow> kdl_error + unit panel" where
  "parse_query_plot L n src =
     and_then (required ''label'' ''query_plot'' src n (map_option (kl_entry_text L) (first_arg n))) (\<lambda>label.
     and_then (required ''query'' ''query_plot'' src n (get_string L n ''query'')) (\<lambda>query.
       Inr (QueryPlot
         \<lparr>qp_label = label, qp_query = query,
          qp_refresh_interval =
            (case Option.bind (kl_get L n ''refresh_interval'') as_integer of None \<Rightarrow> 10 ^ 9 | Some ms \<Rightarrow> nat (ms mod 2 ^ 64) * 10 ^ 6),
          qp_auto_refresh = get_bool L n ''auto_refresh'' False, qp_color = or_else (parse_color_from_node L n) color_white,
          qp_type = parse_query_type L n, qp_aux = ()\<rparr>)))"

definition parse_material_from_node :: "kdl_lib \<Rightarrow> node \<Rightarrow> material option" where
  "parse_material_from_node L n = map_option Material (parse_color_from_node L n)"

definition required_f32 :: "kdl_lib \<Rightarrow> string \<Rightarrow> string \<Rightarrow> string \<Rightarrow> node \<Rightarrow> kdl_error + f32" where
  "required_f32 L property name src n = and_then (required property name src n (get_float L n property)) (\<lambda>x. Inr (narrow L x))"

definition parse_object_3d_mesh :: "kdl_lib \<Rightarrow> node option \<Rightarrow> string \<Rightarrow> kdl_error + object_mesh" where
  "parse_object_3d_mesh L n src =
     (case n of
        None \<Rightarrow> Inl (KdlMissingProperty ''mesh'' ''object_3d'' src (0, 0))
      | Some n \<Rightarrow>
          (let name = kn_name n; shape = (\<lambda>mesh. ShapeMesh mesh (or_else (parse_material_from_node L n) (Material color_white)))
           in if name = ''glb'' then
                and_then (required ''path'' ''glb'' src n (arg_string n)) (\<lambda>path. Inr (GlbMesh path))
              else if name = ''sphere'' then
                and_then (required_f32 L ''radius'' ''sphere'' src n) (\<lambda>radius. Inr (shape (Sphere radius)))
              else if name = ''box'' then
                and_then (required_f32 L ''x'' ''box'' src n) (\<lambda>x.
                and_then (required_f32 L ''y'' ''box'' src n) (\<lambda>y.
                and_then (required_f32 L ''z'' ''box'' src n) (\<lambda>z. Inr (shape (MeshBox x y z)))))
              else if name = ''cylinder'' then
                and_then (required_f32 L ''radius'' ''cylinder'' src n) (\<lambda>radius.
                and_then (required_f32 L ''height'' ''cylinder'' src n) (\<lambda>height. Inr (shape (Cylinder radius height))))
              else Inl (KdlUnknownNode name src (kn_span n))))"

definition parse_object_3d :: "kdl_lib \<Rightarrow> node \<Rightarrow> string \<Rightarrow> kdl_error + unit object_3d" where
  "parse_object_3d L n src =
     and_then (required ''eql'' ''object_3d'' src n (arg_string n)) (\<lambda>eql.
     and_then (required ''mesh'' ''object_3d'' src n (kn_children n)) (\<lambda>cs.
     and_then (parse_object_3d_mesh L (case cs of [] \<Rightarrow> None | c # _ \<Rightarrow> Some c) src) (\<lambda>mesh.
       Inr \<lparr>ob_eql = eql, ob_mesh = mesh, ob_aux = ()\<rparr>)))"

definition parse_line_3d :: "kdl_lib \<Rightarrow> node \<Rightarrow> string \<Rightarrow> kdl_error + unit line_3d" where
  "parse_line_3d L n src =
     and_then (required ''eql'' ''line_3d'' src n (arg_string n)) (\<lambda>eql. Inr
       \<lparr>ln_eql = eql, ln_width = narrow L (or_else (get_float L n ''line_width'') f64_1),
        ln_color = or_else (parse_color_from_node L n) color_white, ln_perspective = get_bool L n ''perspective'' True, ln_aux = ()\<rparr>)"

definition parse_map :: "node \<Rightarrow> string \<Rightarrow> kdl_error + unit panel" where
  "parse_map n src = and_then (required ''eql'' ''map'' src n (arg_string n)) (\<lambda>eql. Inr (MapPanel \<lparr>mp_eql = eql, mp_aux = ()\<rparr>))"

subsection \<open>Dashboards\<close>

text \<open>\<open>str::trim\<close>, for ASCII, and \<open>trim_end_matches\<close>.\<close>

definition is_space :: "char \<Rightarrow> bool" where
  "is_space c \<longleftrightarrow> c \<in> {CHR 0x09, CHR 0x0A, CHR 0x0B, CHR 0x0C, CHR 0x0D, CHR 0x20}"

definition trim :: "string \<Rightarrow> string" where
  "trim s = rev (dropWhile is_space (rev (dropWhile is_space s)))"

definition ends_with :: "string \<Rightarrow> string \<Rightarrow> bool" where
  "ends_with s e \<longleftrightarrow> length e \<le> length s \<and> drop (length s - length e) s = e"

function trim_end_matches :: "string \<Rightarrow> string \<Rightarrow> string" where
  "trim_end_matches e s = (if e \<noteq> [] \<and> ends_with s e then trim_end_matches e (take (length s - length e) s) else s)"
  by auto
termination by (relation "measure (\<lambda>(e, s). length s)") (simp, clarsimp simp: ends_with_def, metis diff_less length_greater_0_conv order_less_le_trans)

declare trim_end_matches.simps [simp del]

definition without_unit :: "string \<Rightarrow> string \<Rightarrow> string" where
  "without_unit unit s = trim (trim_end_matches unit s)"

definition val_of_string :: "string \<Rightarrow> val" where
  "val_of_string s =
     (if s = ''auto'' then ValAuto
      else if ends_with s ''px'' then ValPx (without_unit ''px'' s)
      else if ends_with s ''%'' then ValPercent (without_unit ''%'' s)
      else if ends_with s ''vw'' then ValVw (without_unit ''vw'' s)
      else if ends_with s ''vh'' then ValVh (without_unit ''vh'' s)
      else if ends_with s ''vmin'' then ValVMin (without_unit ''vmin'' s)
      else if ends_with s ''vmax'' then ValVMax (without_unit ''vmax'' s)
      else ValAuto)"

definition parse_val_from_value :: "kdl_lib \<Rightarrow> kdl_value \<Rightarrow> val" where
  "parse_val_from_value L v =
     (case v of
        KString s \<Rightarrow> val_of_string s
      | KFloat x \<Rightarrow> ValPx (kl_show_f32 L (narrow L x))
      | KInteger i \<Rightarrow> ValPx (kl_show_f32 L (f32_of_int (kl_floats L) i))
      | _ \<Rightarrow> ValAuto)"

definition get_val :: "kdl_lib \<Rightarrow> node \<Rightarrow> string \<Rightarrow> val" where
  "get_val L n k = or_else (map_option (parse_val_from_value L) (kl_get L n k)) ValAuto"

definition get_enum :: "kdl_lib \<Rightarrow> node \<Rightarrow> string \<Rightarrow> (string \<times> 'a) list \<Rightarrow> 'a" where
  "get_enum L n k names = or_else (Option.bind (get_string L n k) (from_str names)) (snd (hd names))"

definition get_f32 :: "kdl_lib \<Rightarrow> node \<Rightarrow> string \<Rightarrow> f32 option" where
  "get_f32 L n k = map_option (narrow L) (get_float L n k)"

definition parse_overflow_axis :: "string \<Rightarrow> overflow_axis" where
  "parse_overflow_axis s =
     (if s = ''visible'' then AxisVisible else if s = ''clip'' then AxisClip else if s = ''hidden'' then AxisHidden
      else if s = ''scroll'' then AxisScroll else AxisVisible)"

definition parse_overflow_from_value :: "kdl_value \<Rightarrow> overflow option" where
  "parse_overflow_from_value v = map_option (\<lambda>s. let a = parse_overflow_axis s in \<lparr>ov_x = a, ov_y = a\<rparr>) (as_string v)"

definition parse_overflow_clip_margin_from_value :: "kdl_value \<Rightarrow> overflow_clip_margin option" where
  "parse_overflow_clip_margin_from_value v = map_option (\<lambda>_. \<lparr>oc_box = ClipContentBox, oc_margin = 0\<rparr>) (as_string v)"

definition parse_ui_rect_from_node :: "kdl_lib \<Rightarrow> node \<Rightarrow> ui_rect option" where
  "parse_ui_rect_from_node L n =
     Some \<lparr>ur_left = get_val L n ''left'', ur_right = get_val L n ''right'', ur_top = get_val L n ''top'', ur_bottom = get_val L n ''bottom''\<rparr>"

text \<open>What the entries of a node say; its children come after that.\<close>

definition parse_dash_props :: "kdl_lib \<Rightarrow> node \<Rightarrow> dash_props" where
  "parse_dash_props L n =
     \<lparr>dn_label = get_string L n ''label'',
      dn_display = get_enum L n ''display'' display_names,
      dn_box_sizing = get_enum L n ''box_sizing'' box_sizing_names,
      dn_position_type = get_enum L n ''position_type'' position_type_names,
      dn_overflow = or_else (Option.bind (kl_get L n ''overflow'') parse_overflow_from_value) \<lparr>ov_x = AxisVisible, ov_y = AxisVisible\<rparr>,
      dn_clip_margin = or_else (Option.bind (kl_get L n ''overflow_clip_margin'') parse_overflow_clip_margin_from_value)
        \<lparr>oc_box = ClipContentBox, oc_margin = 0\<rparr>,
      dn_left = get_val L n ''left'', dn_right = get_val L n ''right'', dn_top = get_val L n ''top'', dn_bottom = get_val L n ''bottom'',
      dn_width = get_val L n ''width'', dn_height = get_val L n ''height'',
      dn_min_width = get_val L n ''min_width'', dn_min_height = get_val L n ''min_height'',
      dn_max_width = get_val L n ''max_width'', dn_max_height = get_val L n ''max_height'',
      dn_aspect_ratio = get_f32 L n ''aspect_ratio'',
      dn_align_items = get_enum L n ''align_items'' align_items_names,
      dn_justify_items = get_enum L n ''justify_items'' justify_items_names,
      dn_align_self = get_enum L n ''align_self'' align_self_names,
      dn_justify_self = get_enum L n ''justify_self'' justify_self_names,
      dn_align_content = get_enum L n ''align_content'' align_content_names,
      dn_justify_content = get_enum L n ''justify_content'' justify_content_names,
      dn_margin = ui_rect_default, dn_padding = ui_rect_default, dn_border = ui_rect_default,
      dn_flex_direction = get_enum L n ''flex_direction'' flex_direction_names,
      dn_flex_wrap = get_enum L n ''flex_wrap'' flex_wrap_names,
      dn_flex_grow = or_else (get_f32 L n ''flex_grow'') 0,
      dn_flex_shrink = or_else (get_f32 L n ''flex_shrink'') f32_1,
      dn_flex_basis = get_val L n ''flex_basis'', dn_row_gap = get_val L n ''row_gap'', dn_column_gap = get_val L n ''column_gap'',
      dn_color = color_transparent,
      dn_text = get_string L n ''text'',
      dn_font_size = or_else (get_f32 L n ''font_size'') f32_16,
      dn_text_color = color_white\<rparr>"

text \<open>Children with one of these names style their parent, all others are nodes.\<close>

definition parse_dash_style :: "kdl_lib \<Rightarrow> node \<Rightarrow> dash_props \<Rightarrow> dash_props option" where
  "parse_dash_style L c p =
     (let name = kn_name c; rect = or_else (parse_ui_rect_from_node L c) ui_rect_default
      in if name = ''text_color'' then Some (p\<lparr>dn_text_color := or_else (parse_color_from_node L c) color_white\<rparr>)
         else if name = ''bg'' \<or> name = ''background'' then Some (p\<lparr>dn_color := or_else (parse_color_from_node L c) color_transparent\<rparr>)
         else if name = ''margin'' then Some (p\<lparr>dn_margin := rect\<rparr>)
         else if name = ''padding'' then Some (p\<lparr>dn_padding := rect\<rparr>)
         else if name = ''border'' then Some (p\<lparr>dn_border := rect\<rparr>)
         else None)"

fun parse_dash_node :: "kdl_lib \<Rightarrow> node \<Rightarrow> kdl_error + unit dash_node"
  and parse_dash_children :: "kdl_lib \<Rightarrow> dash_props \<Rightarrow> unit dash_node list \<Rightarrow> node list \<Rightarrow> kdl_error + unit dash_node" where
  "parse_dash_node L (KdlNode name es cs sp) =
     (let p = parse_dash_props L (KdlNode name es cs sp)
      in case cs of None \<Rightarrow> Inr (DashNode p () []) | Some cs \<Rightarrow> parse_dash_children L p [] cs)"
| "parse_dash_children L p kids [] = Inr (DashNode p () kids)"
| "parse_dash_children L p kids (c # cs) =
     (case parse_dash_style L c p of
        Some p \<Rightarrow> parse_dash_children L p kids cs
      | None \<Rightarrow>
          (case parse_dash_node L c of
             Inl e \<Rightarrow> Inl e
           | Inr kid \<Rightarrow> parse_dash_children L p (kids @ [kid]) cs))"

definition parse_dashboard :: "kdl_lib \<Rightarrow> node \<Rightarrow> kdl_error + unit panel" where
  "parse_dashboard L n = and_then (parse_dash_node L n) (\<lambda>root. Inr (DashboardPanel (Dashboard root ())))"

subsection \<open>Panels and schematics\<close>

fun parse_panel :: "kdl_lib \<Rightarrow> node \<Rightarrow> string \<Rightarrow> kdl_error + unit panel"
  and parse_panels :: "kdl_lib \<Rightarrow> node list \<Rightarrow> string \<Rightarrow> nat \<Rightarrow> kdl_error + (unit panel list \<times> (nat \<rightharpoonup> f32))" where
  "parse_panel L (KdlNode name es cs sp) src =
     (let n = KdlNode name es cs sp; split = (\<lambda>(ps, shares). Split ps shares (get_bool L n ''active'' False))
      in if name = ''tabs'' then
           and_then (case cs of None \<Rightarrow> Inr ([], Map.empty) | Some cs \<Rightarrow> parse_panels L cs src 0) (\<lambda>(ps, _). Inr (Tabs ps))
         else if name = ''hsplit'' then
           and_then (case cs of None \<Rightarrow> Inr ([], Map.empty) | Some cs \<Rightarrow> parse_panels L cs src 0) (\<lambda>r. Inr (HSplit (split r)))
         else if name = ''vsplit'' then
           and_then (case cs of None \<Rightarrow> Inr ([], Map.empty) | Some cs \<Rightarrow> parse_panels L cs src 0) (\<lambda>r. Inr (VSplit (split r)))
         else if name = ''viewport'' then Inr (parse_viewport L n)
         else if name = ''graph'' then parse_graph L n src
         else if name = ''component_monitor'' then parse_component_monitor L n src
         else if name = ''action_pane'' then parse_action_pane L n src
         else if name = ''query_table'' then Inr (parse_query_table L n)
         else if name = ''query_plot'' then parse_query_plot L n src
         else if name = ''inspector'' then Inr Inspector
         else if name = ''hierarchy'' then Inr Hierarchy
         else if name = ''schematic_tree'' then Inr SchematicTree
         else if name = ''dashboard'' then parse_dashboard L n
         else if name = ''map'' then parse_map n src
         else Inl (KdlUnknownNode (kl_name_text L n) src sp))"
| "parse_panels L [] src i = Inr ([], Map.empty)"
| "parse_panels L (c # cs) src i =
     (case parse_panel L c src of
        Inl e \<Rightarrow> Inl e
      | Inr p \<Rightarrow>
          (case parse_panels L cs src (Suc i) of
             Inl e \<Rightarrow> Inl e
           | Inr (ps, shares) \<Rightarrow>
               Inr (p # ps, case get_float L c ''share'' of None \<Rightarrow> shares | Some x \<Rightarrow> shares(i \<mapsto> narrow L x))))"

definition panel_names :: "string list" where
  "panel_names =
     [''tabs'', ''hsplit'', ''vsplit'', ''viewport'', ''graph'', ''component_monitor'', ''action_pane'', ''query_table'', ''query_plot'',
      ''inspector'', ''hierarchy'', ''schematic_tree'', ''dashboard'', ''map'']"

definition parse_schematic_elem :: "kdl_lib \<Rightarrow> node \<Rightarrow> string \<Rightarrow> kdl_error + unit schematic_elem" where
  "parse_schematic_elem L n src =
     (if kn_name n \<in> set panel_names then and_then (parse_panel L n src) (\<lambda>p. Inr (PanelElem p))
      else if kn_name n = ''object_3d'' then and_then (parse_object_3d L n src) (\<lambda>ob. Inr (Object3d ob))
      else if kn_name n = ''line_3d'' then and_then (parse_line_3d L n src) (\<lambda>l. Inr (Line3d l))
      else Inl (KdlUnknownNode (kl_name_text L n) src (kn_span n)))"

fun parse_elems :: "kdl_lib \<Rightarrow> string \<Rightarrow> node list \<Rightarrow> kdl_error + unit schematic" where
  "parse_elems L src [] = Inr []"
| "parse_elems L src (n # ns) =
     and_then (parse_schematic_elem L n src) (\<lambda>x. and_then (parse_elems L src ns) (\<lambda>xs. Inr (x # xs)))"

definition parse_schematic :: "kdl_lib \<Rightarrow> string \<Rightarrow> kdl_error + unit schematic" where
  "parse_schematic L input =
     (case kl_parse L input of Inl e \<Rightarrow> Inl (KdlParseError e input (0, length input)) | Inr doc \<Rightarrow> parse_elems L input doc)"

end
