(* ===== verification/SchematicKdlCorrect.thy ===== *)
theory SchematicKdlCorrect
  imports SchematicKdl
begin

text \<open>
  What is left of a schematic that is written as a document and read again: the function
  \<open>saved\<close>, field by field.  Reading never fails on what was written; the theorem needs of the
  document library only that it finds a property that a node has once, and that a printed
  document reads back as the same nodes.
\<close>

section \<open>The document library\<close>

definition named :: "string \<Rightarrow> kdl_entry list \<Rightarrow> kdl_entry list" where
  "named k es = filter (\<lambda>e. ke_name e = Some k) es"

definition get_ok :: "kdl_lib \<Rightarrow> bool" where
  "get_ok L \<longleftrightarrow> (\<forall>n k. length (named k (kn_entries n)) \<le> 1 \<longrightarrow>
     kl_get L n k = (case named k (kn_entries n) of [] \<Rightarrow> None | e # _ \<Rightarrow> Some (ke_value e)))"

text \<open>
  An entry that was printed and read again has its name and its value; an argument displays as
  \<open>shown\<close> of its string.
\<close>

definition same_entry :: "kdl_lib \<Rightarrow> (string \<Rightarrow> string) \<Rightarrow> kdl_entry \<Rightarrow> kdl_entry \<Rightarrow> bool" where
  "same_entry L shown e e' \<longleftrightarrow> ke_name e' = ke_name e \<and> ke_value e' = ke_value e \<and>
     (\<forall>s. ke_name e = None \<longrightarrow> ke_value e = KString s \<longrightarrow> kl_entry_text L e' = shown s)"

abbreviation same_node :: "kdl_lib \<Rightarrow> (string \<Rightarrow> string) \<Rightarrow> node \<Rightarrow> node \<Rightarrow> bool" where
  "same_node L shown \<equiv> rel_kdl_node (same_entry L shown) (\<lambda>_ _. True)"

definition reads_back :: "kdl_lib \<Rightarrow> (string \<Rightarrow> string) \<Rightarrow> node list \<Rightarrow> bool" where
  "reads_back L shown doc \<longleftrightarrow> (\<exists>doc'. kl_parse L (kl_print L doc) = Inr doc' \<and> list_all2 (same_node L shown) doc doc')"

text \<open>The node \<open>n\<close> has the arguments \<open>vs\<close> and the properties \<open>ps\<close>, and perhaps a share.\<close>

definition has_entries :: "kdl_lib \<Rightarrow> (string \<Rightarrow> string) \<Rightarrow> node \<Rightarrow> kdl_value list \<Rightarrow> (string \<times> kdl_value option) list \<Rightarrow> bool" where
  "has_entries L shown n vs ps \<longleftrightarrow> (\<exists>ex. list_all2 (same_entry L shown) (map new_arg vs @ props ps @ ex) (kn_entries n) \<and>
     (\<forall>e \<in> set ex. ke_name e = Some ''share''))"

lemma named_same: "list_all2 (same_entry L shown) es es' \<Longrightarrow> map ke_value (named k es') = map ke_value (named k es)"
  by (induction rule: list_all2_induct) (auto simp: named_def same_entry_def)

lemma named_args [simp]: "named k (map new_arg vs) = []"
  by (induction vs) (simp_all add: named_def new_arg_def)

lemma named_append [simp]: "named k (xs @ ys) = named k xs @ named k ys"
  by (simp add: named_def)

lemma named_props:
  "distinct (map fst ps) \<Longrightarrow> named k (props ps) = (case Option.bind (map_of ps k) id of None \<Rightarrow> [] | Some v \<Rightarrow> [new_prop k v])"
proof (induction ps rule: props.induct)
  case (3 k' v ps)
  have "k \<notin> fst ` set ps \<Longrightarrow> map_of ps k = None" by (simp add: map_of_eq_None_iff)
  then show ?case using 3 by (auto simp: named_def new_prop_def)
next
  case (2 k' ps)
  have "k \<notin> fst ` set ps \<Longrightarrow> map_of ps k = None" by (simp add: map_of_eq_None_iff)
  then show ?case using 2 by (auto simp: named_def)
qed (simp add: named_def)

lemma has_entries_get:
  assumes "get_ok L" "has_entries L shown n vs ps" "distinct (map fst ps)" "k \<noteq> ''share''"
  shows "kl_get L n k = Option.bind (map_of ps k) id"
proof -
  obtain ex where ex: "list_all2 (same_entry L shown) (map new_arg vs @ props ps @ ex) (kn_entries n)"
    "\<forall>e \<in> set ex. ke_name e = Some ''share''"
    using assms(2) by (auto simp: has_entries_def)
  have "named k ex = []" using ex(2) assms(4) by (auto simp: named_def filter_empty_conv)
  then have m: "map ke_value (named k (kn_entries n)) = (case Option.bind (map_of ps k) id of None \<Rightarrow> [] | Some v \<Rightarrow> [v])"
    using named_same [OF ex(1), of k] named_props [OF assms(3), of k] by (simp add: new_prop_def split: option.splits)
  show ?thesis
  proof (cases "Option.bind (map_of ps k) id")
    case None
    then have "named k (kn_entries n) = []" using m by simp
    then show ?thesis using assms(1) None unfolding get_ok_def by simp
  next
    case (Some v)
    then obtain e where "named k (kn_entries n) = [e]" "ke_value e = v" using m by auto
    then show ?thesis using assms(1) Some unfolding get_ok_def by simp
  qed
qed

lemma props_named: "e \<in> set (props ps) \<Longrightarrow> ke_name e \<noteq> None"
  by (induction ps rule: props.induct) (auto simp: new_prop_def)

lemma has_entries_first:
  assumes "has_entries L shown n vs ps"
  shows "case vs of [] \<Rightarrow> first_arg n = None
    | v # _ \<Rightarrow> \<exists>e. first_arg n = Some e \<and> ke_value e = v \<and> (\<forall>s. v = KString s \<longrightarrow> kl_entry_text L e = shown s)"
proof -
  obtain ex where ex: "list_all2 (same_entry L shown) (map new_arg vs @ props ps @ ex) (kn_entries n)"
    "\<forall>e \<in> set ex. ke_name e = Some ''share''"
    using assms by (auto simp: has_entries_def)
  show ?thesis
  proof (cases vs)
    case Nil
    have "find (\<lambda>e. ke_name e = None) es' = None" if "list_all2 (same_entry L shown) es es'" "\<forall>e \<in> set es. ke_name e \<noteq> None" for es es'
      using that by (induction rule: list_all2_induct) (auto simp: same_entry_def)
    moreover have "\<forall>e \<in> set (props ps @ ex). ke_name e \<noteq> None" using ex(2) props_named by auto
    ultimately show ?thesis using ex(1) Nil by (simp add: first_arg_def)
  next
    case (Cons v vs')
    then show ?thesis using ex(1) by (auto simp: first_arg_def list_all2_Cons1 same_entry_def new_arg_def)
  qed
qed

lemma has_entries_arg: "has_entries L shown n vs ps \<Longrightarrow> arg_string n = (case vs of [] \<Rightarrow> None | v # _ \<Rightarrow> as_string v)"
  using has_entries_first [of L shown n vs ps] by (cases vs) (auto simp: arg_string_def)

text \<open>How a node is written is how its reading sees it.\<close>

definition like_panel :: "kdl_lib \<Rightarrow> (string \<Rightarrow> string) \<Rightarrow> node \<Rightarrow> node \<Rightarrow> bool" where
  "like_panel L shown n n' \<longleftrightarrow> kn_name n' = kn_name n \<and> rel_option (list_all2 (same_node L shown)) (kn_children n) (kn_children n') \<and>
     (\<exists>ex. list_all2 (same_entry L shown) (kn_entries n @ ex) (kn_entries n') \<and> (\<forall>e \<in> set ex. ke_name e = Some ''share''))"

lemma like_has_entries:
  "like_panel L shown n n' \<Longrightarrow> kn_entries n = map new_arg vs @ props ps \<Longrightarrow> has_entries L shown n' vs ps"
  by (simp add: like_panel_def has_entries_def)

lemma same_like: "same_node L shown n n' \<Longrightarrow> like_panel L shown n n'"
proof -
  assume s: "same_node L shown n n'"
  obtain name es cs sp where n: "n = KdlNode name es cs sp" by (cases n)
  obtain name' es' cs' sp' where n': "n' = KdlNode name' es' cs' sp'" by (cases n')
  have "list_all2 (same_entry L shown) (es @ []) es'" using s n n' by simp
  then have "\<exists>ex. list_all2 (same_entry L shown) (es @ ex) es' \<and> (\<forall>e \<in> set ex. ke_name e = Some ''share'')"
    by (intro exI [of _ "[]"]) simp
  then show ?thesis using s n n' by (simp add: like_panel_def)
qed

section \<open>What is saved\<close>

text \<open>A number goes through 64 bits.\<close>

definition via :: "kdl_lib \<Rightarrow> f32 \<Rightarrow> f32" where
  "via L x = narrow L (wide L x)"

text \<open>The transparency of a color is lost.\<close>

definition saved_color :: "kdl_lib \<Rightarrow> color \<Rightarrow> color" where
  "saved_color L c = rgba (via L (cl_r c)) (via L (cl_g c)) (via L (cl_b c)) (narrow L f64_1)"

text \<open>White space and repeated units around the number are lost.\<close>

fun saved_val :: "val \<Rightarrow> val" where
  "saved_val ValAuto = ValAuto"
| "saved_val (ValPx s) = ValPx (without_unit ''px'' s)"
| "saved_val (ValPercent s) = ValPercent (without_unit ''%'' s)"
| "saved_val (ValVw s) = ValVw (without_unit ''vw'' s)"
| "saved_val (ValVh s) = ValVh (without_unit ''vh'' s)"
| "saved_val (ValVMin s) = ValVMin (without_unit ''vmin'' s)"
| "saved_val (ValVMax s) = ValVMax (without_unit ''vmax'' s)"

definition saved_rect :: "ui_rect \<Rightarrow> ui_rect" where
  "saved_rect r = \<lparr>ur_left = saved_val (ur_left r), ur_right = saved_val (ur_right r), ur_top = saved_val (ur_top r), ur_bottom = saved_val (ur_bottom r)\<rparr>"

text \<open>So are the overflow of a node, and its color when it is not drawn.\<close>

definition saved_props :: "kdl_lib \<Rightarrow> dash_props \<Rightarrow> dash_props" where
  "saved_props L p =
     \<lparr>dn_label = dn_label p, dn_display = dn_display p, dn_box_sizing = dn_box_sizing p, dn_position_type = dn_position_type p,
      dn_overflow = \<lparr>ov_x = AxisVisible, ov_y = AxisVisible\<rparr>, dn_clip_margin = \<lparr>oc_box = ClipContentBox, oc_margin = 0\<rparr>,
      dn_left = saved_val (dn_left p), dn_right = saved_val (dn_right p), dn_top = saved_val (dn_top p), dn_bottom = saved_val (dn_bottom p),
      dn_width = saved_val (dn_width p), dn_height = saved_val (dn_height p),
      dn_min_width = saved_val (dn_min_width p), dn_min_height = saved_val (dn_min_height p),
      dn_max_width = saved_val (dn_max_width p), dn_max_height = saved_val (dn_max_height p),
      dn_aspect_ratio = map_option (via L) (dn_aspect_ratio p),
      dn_align_items = dn_align_items p, dn_justify_items = dn_justify_items p,
      dn_align_self = dn_align_self p, dn_justify_self = dn_justify_self p,
      dn_align_content = dn_align_content p, dn_justify_content = dn_justify_content p,
      dn_margin = saved_rect (dn_margin p), dn_padding = saved_rect (dn_padding p), dn_border = saved_rect (dn_border p),
      dn_flex_direction = dn_flex_direction p, dn_flex_wrap = dn_flex_wrap p,
      dn_flex_grow = (if f32_eq (dn_flex_grow p) 0 then 0 else via L (dn_flex_grow p)),
      dn_flex_shrink = (if f32_eq (dn_flex_shrink p) f32_1 then f32_1 else via L (dn_flex_shrink p)),
      dn_flex_basis = saved_val (dn_flex_basis p), dn_row_gap = saved_val (dn_row_gap p), dn_column_gap = saved_val (dn_column_gap p),
      dn_color = (if f32_pos (cl_a (dn_color p)) then saved_color L (dn_color p) else color_transparent),
      dn_text = dn_text p,
      dn_font_size = (if f32_eq (dn_font_size p) f32_16 then f32_16 else via L (dn_font_size p)),
      dn_text_color = saved_color L (dn_text_color p)\<rparr>"

fun saved_node :: "kdl_lib \<Rightarrow> 't dash_node \<Rightarrow> unit dash_node" where
  "saved_node L (DashNode p x cs) = DashNode (saved_props L p) () (map (saved_node L) cs)"

fun saved_dashboard :: "kdl_lib \<Rightarrow> 't dashboard \<Rightarrow> unit dashboard" where
  "saved_dashboard L (Dashboard n x) = Dashboard (saved_node L n) ()"

definition saved_viewport :: "kdl_lib \<Rightarrow> 't viewport \<Rightarrow> unit viewport" where
  "saved_viewport L v =
     \<lparr>vp_fov = (if f32_eq (vp_fov v) f32_45 then narrow L f64_45 else via L (vp_fov v)), vp_active = vp_active v,
      vp_show_grid = vp_show_grid v, vp_hdr = vp_hdr v, vp_name = vp_name v, vp_pos = vp_pos v, vp_look_at = vp_look_at v, vp_aux = ()\<rparr>"

text \<open>The range of a graph that scales itself is lost.\<close>

definition saved_graph :: "'t graph \<Rightarrow> unit graph" where
  "saved_graph g =
     \<lparr>gr_eql = gr_eql g, gr_name = gr_name g, gr_type = gr_type g, gr_auto_y_range = gr_auto_y_range g,
      gr_y_range = (if gr_auto_y_range g \<or> f64_eq (fst (gr_y_range g)) 0 \<and> f64_eq (snd (gr_y_range g)) f64_1 then (0, f64_1) else gr_y_range g),
      gr_aux = ()\<rparr>"

text \<open>
  A monitor comes back with the hash of the digits of its component's id, a plot with the text
  of its label as the document has it, and with whole milliseconds.
\<close>

definition saved_monitor :: "kdl_lib \<Rightarrow> u64 \<Rightarrow> u64" where
  "saved_monitor L cid = component_id_new (kl_hash L) (decimal (unat cid))"

definition saved_plot :: "kdl_lib \<Rightarrow> (string \<Rightarrow> string) \<Rightarrow> 't query_plot \<Rightarrow> unit query_plot" where
  "saved_plot L shown q =
     \<lparr>qp_label = shown (qp_label q), qp_query = qp_query q,
      qp_refresh_interval = as_millis (qp_refresh_interval q) mod 2 ^ 64 * 10 ^ 6,
      qp_auto_refresh = qp_auto_refresh q, qp_color = saved_color L (qp_color q), qp_type = qp_type q, qp_aux = ()\<rparr>"

text \<open>Shares of panels that are not there are lost.\<close>

fun saved_panel :: "kdl_lib \<Rightarrow> (string \<Rightarrow> string) \<Rightarrow> 't panel \<Rightarrow> unit panel"
  and saved_split :: "kdl_lib \<Rightarrow> (string \<Rightarrow> string) \<Rightarrow> 't split \<Rightarrow> unit split" where
  "saved_panel L shown (Tabs ps) = Tabs (map (saved_panel L shown) ps)"
| "saved_panel L shown (HSplit s) = HSplit (saved_split L shown s)"
| "saved_panel L shown (VSplit s) = VSplit (saved_split L shown s)"
| "saved_panel L shown (Viewport v) = Viewport (saved_viewport L v)"
| "saved_panel L shown (Graph g) = Graph (saved_graph g)"
| "saved_panel L shown (ComponentMonitor cid) = ComponentMonitor (saved_monitor L cid)"
| "saved_panel L shown (ActionPane a) = ActionPane a"
| "saved_panel L shown (QueryTable q) = QueryTable q"
| "saved_panel L shown (QueryPlot q) = QueryPlot (saved_plot L shown q)"
| "saved_panel L shown Inspector = Inspector"
| "saved_panel L shown Hierarchy = Hierarchy"
| "saved_panel L shown SchematicTree = SchematicTree"
| "saved_panel L shown (DashboardPanel d) = DashboardPanel (saved_dashboard L d)"
| "saved_panel L shown (MapPanel m) = MapPanel \<lparr>mp_eql = mp_eql m, mp_aux = ()\<rparr>"
| "saved_split L shown (Split ps shares active) =
     Split (map (saved_panel L shown) ps) (\<lambda>i. if i < length ps then map_option (via L) (shares i) else None) active"

fun saved_mesh :: "kdl_lib \<Rightarrow> object_mesh \<Rightarrow> object_mesh" where
  "saved_mesh L (GlbMesh path) = GlbMesh path"
| "saved_mesh L (ShapeMesh mesh (Material c)) =
     ShapeMesh (case mesh of
                  Sphere radius \<Rightarrow> Sphere (via L radius)
                | MeshBox x y z \<Rightarrow> MeshBox (via L x) (via L y) (via L z)
                | Cylinder radius height \<Rightarrow> Cylinder (via L radius) (via L height)) (Material (saved_color L c))"

fun saved_elem :: "kdl_lib \<Rightarrow> (string \<Rightarrow> string) \<Rightarrow> 't schematic_elem \<Rightarrow> unit schematic_elem" where
  "saved_elem L shown (PanelElem p) = PanelElem (saved_panel L shown p)"
| "saved_elem L shown (Object3d ob) = Object3d \<lparr>ob_eql = ob_eql ob, ob_mesh = saved_mesh L (ob_mesh ob), ob_aux = ()\<rparr>"
| "saved_elem L shown (Line3d l) = Line3d
     \<lparr>ln_eql = ln_eql l, ln_width = (if f32_eq (ln_width l) f32_1 then narrow L f64_1 else via L (ln_width l)),
      ln_color = saved_color L (ln_color l), ln_perspective = ln_perspective l, ln_aux = ()\<rparr>"

section \<open>Single panels\<close>

lemma get_enum_prop:
  assumes "kl_get L n k = enum_prop names x" "from_str names (to_str names x) = Some x"
  shows "get_enum L n k names = x"
  using assms by (auto simp: get_enum_def get_string_def enum_prop_def prop_if_def or_else_def)

lemma enum_names:
  "from_str display_names (to_str display_names d) = Some d"
  "from_str box_sizing_names (to_str box_sizing_names bs) = Some bs"
  "from_str position_type_names (to_str position_type_names pt) = Some pt"
  "from_str align_items_names (to_str align_items_names ai) = Some ai"
  "from_str justify_items_names (to_str justify_items_names ji) = Some ji"
  "from_str align_self_names (to_str align_self_names as') = Some as'"
  "from_str justify_self_names (to_str justify_self_names js) = Some js"
  "from_str align_content_names (to_str align_content_names ac) = Some ac"
  "from_str justify_content_names (to_str justify_content_names jc) = Some jc"
  "from_str flex_direction_names (to_str flex_direction_names fd) = Some fd"
  "from_str flex_wrap_names (to_str flex_wrap_names fw) = Some fw"
proof -
  show "from_str display_names (to_str display_names d) = Some d"
    by (cases d) (simp_all add: from_str_def display_names_def)
  show "from_str box_sizing_names (to_str box_sizing_names bs) = Some bs"
    by (cases bs) (simp_all add: from_str_def box_sizing_names_def)
  show "from_str position_type_names (to_str position_type_names pt) = Some pt"
    by (cases pt) (simp_all add: from_str_def position_type_names_def)
  show "from_str align_items_names (to_str align_items_names ai) = Some ai"
    by (cases ai) (simp_all add: from_str_def align_items_names_def)
  show "from_str justify_items_names (to_str justify_items_names ji) = Some ji"
    by (cases ji) (simp_all add: from_str_def justify_items_names_def)
  show "from_str align_self_names (to_str align_self_names as') = Some as'"
    by (cases as') (simp_all add: from_str_def align_self_names_def)
  show "from_str justify_self_names (to_str justify_self_names js) = Some js"
    by (cases js) (simp_all add: from_str_def justify_self_names_def)
  show "from_str align_content_names (to_str align_content_names ac) = Some ac"
    by (cases ac) (simp_all add: from_str_def align_content_names_def)
  show "from_str justify_content_names (to_str justify_content_names jc) = Some jc"
    by (cases jc) (simp_all add: from_str_def justify_content_names_def)
  show "from_str flex_direction_names (to_str flex_direction_names fd) = Some fd"
    by (cases fd) (simp_all add: from_str_def flex_direction_names_def)
  show "from_str flex_wrap_names (to_str flex_wrap_names fw) = Some fw"
    by (cases fw) (simp_all add: from_str_def flex_wrap_names_def)
qed

text \<open>Units are found again.\<close>

lemma ends_with_append: "length e \<le> length u \<Longrightarrow> ends_with (s @ u) e \<longleftrightarrow> drop (length u - length e) u = e"
  by (simp add: ends_with_def)

lemma ends_with_last: "u \<noteq> [] \<Longrightarrow> e \<noteq> [] \<Longrightarrow> last u \<noteq> last e \<Longrightarrow> \<not> ends_with (s @ u) e"
  unfolding ends_with_def by (metis append_is_Nil_conv append_take_drop_id last_appendR)

lemma trim_end_append: "e \<noteq> [] \<Longrightarrow> trim_end_matches e (s @ e) = trim_end_matches e s"
  by (subst trim_end_matches.simps) (simp add: ends_with_def)

lemma val_of_units:
  "val_of_string (s @ ''px'') = saved_val (ValPx s)" "val_of_string (s @ ''%'') = saved_val (ValPercent s)"
  "val_of_string (s @ ''vw'') = saved_val (ValVw s)" "val_of_string (s @ ''vh'') = saved_val (ValVh s)"
  "val_of_string (s @ ''vmin'') = saved_val (ValVMin s)" "val_of_string (s @ ''vmax'') = saved_val (ValVMax s)"
proof -
  have "s @ u \<noteq> ''auto''" if "u \<noteq> []" "last u \<noteq> CHR ''o''" for u :: string
  proof
    assume "s @ u = ''auto''"
    then have "last (s @ u) = CHR ''o''" by simp
    then show False using that by simp
  qed
  from this [of "''px''"] this [of "''%''"] this [of "''vw''"] this [of "''vh''"] this [of "''vmin''"] this [of "''vmax''"]
  have auto: "s @ ''px'' \<noteq> ''auto''" "s @ ''%'' \<noteq> ''auto''" "s @ ''vw'' \<noteq> ''auto''" "s @ ''vh'' \<noteq> ''auto''"
    "s @ ''vmin'' \<noteq> ''auto''" "s @ ''vmax'' \<noteq> ''auto''" by simp_all
  note last = ends_with_last [of _ "''px''"] ends_with_last [of _ "''%''"] ends_with_last [of _ "''vw''"] ends_with_last [of _ "''vh''"]
    ends_with_last [of _ "''vmin''"]
  note unit = without_unit_def trim_end_append
  show "val_of_string (s @ ''px'') = saved_val (ValPx s)" by (simp add: val_of_string_def auto(1) ends_with_append unit)
  show "val_of_string (s @ ''%'') = saved_val (ValPercent s)" by (simp add: val_of_string_def auto(2) ends_with_append last unit)
  show "val_of_string (s @ ''vw'') = saved_val (ValVw s)" by (simp add: val_of_string_def auto(3) ends_with_append unit)
  show "val_of_string (s @ ''vh'') = saved_val (ValVh s)" by (simp add: val_of_string_def auto(4) ends_with_append unit)
  show "val_of_string (s @ ''vmin'') = saved_val (ValVMin s)" by (simp add: val_of_string_def auto(5) ends_with_append unit)
  show "val_of_string (s @ ''vmax'') = saved_val (ValVMax s)" by (simp add: val_of_string_def auto(6) ends_with_append unit)
qed

lemma get_val_prop: "kl_get L n k = val_prop v \<Longrightarrow> get_val L n k = saved_val v"
  by (cases v) (simp_all add: get_val_def or_else_def parse_val_from_value_def val_of_units del: saved_val.simps(2-))

lemma color_from_props:
  assumes "kl_get L n ''r'' = Some (KFloat (wide L (cl_r c)))" "kl_get L n ''g'' = Some (KFloat (wide L (cl_g c)))"
    "kl_get L n ''b'' = Some (KFloat (wide L (cl_b c)))" "kl_get L n ''a'' = None"
  shows "parse_color_from_node L n = Some (saved_color L c)"
  using assms by (simp add: parse_color_from_node_def get_float_def saved_color_def via_def or_else_def)

lemmas get_defs = get_bool_def get_string_def get_float_def prop_if_def or_else_def

lemma parse_viewport_saved:
  assumes "get_ok L" "like_panel L shown (serialize_viewport L v) n"
  shows "parse_viewport L n = Viewport (saved_viewport L v)"
proof -
  let ?ps = "[(''name'', map_option KString (vp_name v)),
      (''fov'', prop_if (\<not> f32_eq (vp_fov v) f32_45) (KFloat (wide L (vp_fov v)))),
      (''active'', prop_if (vp_active v) (KBool True)), (''show_grid'', prop_if (vp_show_grid v) (KBool True)),
      (''hdr'', prop_if (vp_hdr v) (KBool True)), (''pos'', map_option KString (vp_pos v)),
      (''look_at'', map_option KString (vp_look_at v))]"
  have "has_entries L shown n [] ?ps"
    by (rule like_has_entries [OF assms(2)]) (simp add: serialize_viewport_def new_node_def)
  then have g: "kl_get L n k = Option.bind (map_of ?ps k) id" if "k \<noteq> ''share''" for k
    using has_entries_get [OF assms(1) _ _ that, where ps = ?ps] by simp
  have o: "Option.bind (map_option KString x) as_string = x" for x by (cases x) simp_all
  show ?thesis by (simp add: parse_viewport_def saved_viewport_def g get_defs o via_def split: option.split)
qed

text \<open>The same for the others: the entries of a node are known, and what is read from them follows.\<close>

lemma like_get:
  assumes "get_ok L" "like_panel L shown n n'" "kn_entries n = map new_arg vs @ props ps" "distinct (map fst ps)" "k \<noteq> ''share''"
  shows "kl_get L n' k = Option.bind (map_of ps k) id"
  using has_entries_get [OF assms(1) like_has_entries [OF assms(2,3)] assms(4,5)] .

lemma like_arg:
  "like_panel L shown n n' \<Longrightarrow> kn_entries n = map new_arg vs @ props ps \<Longrightarrow> arg_string n' = (case vs of [] \<Rightarrow> None | v # _ \<Rightarrow> as_string v)"
  by (rule has_entries_arg [OF like_has_entries])

lemma bind_map_string [simp]: "Option.bind (map_option KString x) as_string = x"
  by (cases x) simp_all

lemmas panel_defs = and_then_def required_def via_def new_node_def

lemma parse_graph_saved:
  assumes "get_ok L" "like_panel L shown (serialize_graph g) n"
  shows "parse_graph L n src = Inr (Graph (saved_graph g))"
proof -
  define range where "range = (\<not> gr_auto_y_range g \<and> (\<not> f64_eq (fst (gr_y_range g)) 0 \<or> \<not> f64_eq (snd (gr_y_range g)) f64_1))"
  let ?ps = "[(''name'', map_option KString (gr_name g)),
    (''type'', case gr_type g of LineGraph \<Rightarrow> None | PointGraph \<Rightarrow> Some (KString ''point'') | BarGraph \<Rightarrow> Some (KString ''bar'')),
    (''auto_y_range'', prop_if (\<not> gr_auto_y_range g) (KBool False)),
    (''y_min'', prop_if range (KFloat (fst (gr_y_range g)))), (''y_max'', prop_if range (KFloat (snd (gr_y_range g))))]"
  have e: "kn_entries (serialize_graph g) = map new_arg [KString (gr_eql g)] @ props ?ps"
    by (simp add: serialize_graph_def new_node_def range_def Let_def)
  note g = like_get [OF assms e] and a = like_arg [OF assms(2) e]
  have "(case (get_float L n ''y_min'', get_float L n ''y_max'') of (Some a, Some b) \<Rightarrow> (a, b) | _ \<Rightarrow> (0, f64_1)) = gr_y_range (saved_graph g)"
    by (simp add: g get_defs range_def saved_graph_def)
  then show ?thesis
    by (simp add: parse_graph_def g a get_defs panel_defs saved_graph_def split: graph_type.split)
qed

lemma parse_component_monitor_saved:
  assumes "get_ok L" "like_panel L shown (serialize_component_monitor cid) n"
  shows "parse_component_monitor L n src = Inr (ComponentMonitor (saved_monitor L cid))"
proof -
  have e: "kn_entries (serialize_component_monitor cid) = map new_arg [] @ props [(''component_id'', Some (KString (decimal (unat cid))))]"
    by (simp add: serialize_component_monitor_def new_node_def)
  show ?thesis by (simp add: parse_component_monitor_def like_get [OF assms e] get_defs panel_defs saved_monitor_def)
qed

lemma parse_action_pane_saved:
  assumes "get_ok L" "like_panel L shown (serialize_action_pane a) n"
  shows "parse_action_pane L n src = Inr (ActionPane a)"
proof -
  have e: "kn_entries (serialize_action_pane a) = map new_arg [KString (ap_label a)] @ props [(''lua'', Some (KString (ap_lua a)))]"
    by (simp add: serialize_action_pane_def new_node_def)
  show ?thesis by (simp add: parse_action_pane_def like_get [OF assms e] like_arg [OF assms(2) e] get_defs panel_defs)
qed

lemma parse_query_type_prop: "kl_get L n ''type'' = query_type_prop t \<Longrightarrow> parse_query_type L n = t"
  by (cases t) (simp_all add: parse_query_type_def query_type_prop_def get_defs)

lemma parse_query_table_saved:
  assumes "get_ok L" "like_panel L shown (serialize_query_table q) n"
  shows "parse_query_table L n = QueryTable q"
proof -
  have e: "kn_entries (serialize_query_table q) =
      map new_arg (if qt_query q = [] then [] else [KString (qt_query q)]) @ props [(''type'', query_type_prop (qt_type q))]"
    by (simp add: serialize_query_table_def new_node_def)
  have "kl_get L n ''type'' = query_type_prop (qt_type q)" by (simp add: like_get [OF assms e])
  then show ?thesis by (simp add: parse_query_table_def parse_query_type_prop like_arg [OF assms(2) e] or_else_def)
qed

lemma parse_query_plot_saved:
  assumes "get_ok L" "like_panel L shown (serialize_query_plot L q) n"
  shows "parse_query_plot L n src = Inr (QueryPlot (saved_plot L shown q))"
proof -
  let ?ms = "as_millis (qp_refresh_interval q)"
  let ?ps = "[(''query'', Some (KString (qp_query q))), (''refresh_interval'', prop_if (?ms \<noteq> 1000) (KInteger (int ?ms))),
       (''auto_refresh'', prop_if (qp_auto_refresh q) (KBool True))] @ color_props L (qp_color q) @ [(''type'', query_type_prop (qp_type q))]"
  have e: "kn_entries (serialize_query_plot L q) = map new_arg [KString (qp_label q)] @ props ?ps"
    by (simp add: serialize_query_plot_def new_node_def)
  have d: "distinct (map fst ?ps)" by (simp add: color_props_def)
  note g = like_get [OF assms e d, unfolded color_props_def append_Cons append_Nil]
  obtain k where k: "first_arg n = Some k" "kl_entry_text L k = shown (qp_label q)"
    using has_entries_first [OF like_has_entries [OF assms(2) e]] by auto
  have c: "parse_color_from_node L n = Some (saved_color L (qp_color q))" by (rule color_from_props) (simp_all add: g)
  have t: "parse_query_type L n = qp_type q" by (rule parse_query_type_prop) (simp add: g)
  have "nat (int ?ms mod 2 ^ 64) = ?ms mod 2 ^ 64" by (simp add: nat_mod_as_int)
  then have r: "(case Option.bind (kl_get L n ''refresh_interval'') as_integer of None \<Rightarrow> 10 ^ 9 | Some ms \<Rightarrow> nat (ms mod 2 ^ 64) * 10 ^ 6) =
      ?ms mod 2 ^ 64 * 10 ^ 6"
    by (simp add: g prop_if_def)
  show ?thesis
    unfolding parse_query_plot_def r c t by (simp add: g k get_defs panel_defs saved_plot_def)
qed

lemma parse_map_saved:
  assumes "like_panel L shown (serialize_map m) n"
  shows "parse_map n src = Inr (MapPanel \<lparr>mp_eql = mp_eql m, mp_aux = ()\<rparr>)"
proof -
  have e: "kn_entries (serialize_map m) = map new_arg [KString (mp_eql m)] @ props []"
    by (simp add: serialize_map_def new_node_def)
  show ?thesis by (simp add: parse_map_def like_arg [OF assms e] panel_defs)
qed

section \<open>Objects and lines\<close>

lemma parse_mesh_saved:
  assumes ok: "get_ok L" and like: "like_panel L shown (serialize_mesh L m) n"
  shows "parse_object_3d_mesh L (Some n) src = Inr (saved_mesh L m)"
proof (cases m)
  case (GlbMesh path)
  have e: "kn_entries (serialize_mesh L m) = map new_arg [KString path] @ props []"
    by (simp add: serialize_mesh_def new_node_def GlbMesh)
  have "kn_name n = ''glb''" using like by (simp add: like_panel_def serialize_mesh_def new_node_def GlbMesh)
  then show ?thesis by (simp add: parse_object_3d_mesh_def like_arg [OF like e] panel_defs GlbMesh)
next
  case (ShapeMesh mesh mat)
  obtain c where mat: "mat = Material c" by (cases mat)
  let ?num = "\<lambda>x. Some (KFloat (wide L x))"
  let ?ps = "(case mesh of Sphere radius \<Rightarrow> [(''radius'', ?num radius)] | MeshBox x y z \<Rightarrow> [(''x'', ?num x), (''y'', ?num y), (''z'', ?num z)]
      | Cylinder radius height \<Rightarrow> [(''radius'', ?num radius), (''height'', ?num height)]) @ color_props L c"
  have e: "kn_entries (serialize_mesh L m) = map new_arg [] @ props ?ps"
    by (simp add: serialize_mesh_def new_node_def ShapeMesh mat Let_def split: mesh.split)
  have d: "distinct (map fst ?ps)" by (simp add: color_props_def split: mesh.split)
  note g = like_get [OF ok like e d]
  have c: "parse_color_from_node L n = Some (saved_color L c)"
    by (rule color_from_props) (simp_all add: g color_props_def split: mesh.split)
  have n: "kn_name n = (case mesh of Sphere radius \<Rightarrow> ''sphere'' | MeshBox x y z \<Rightarrow> ''box'' | Cylinder radius height \<Rightarrow> ''cylinder'')"
    using like by (simp add: like_panel_def serialize_mesh_def new_node_def ShapeMesh mat Let_def split: mesh.splits)
  show ?thesis
    by (cases mesh) (simp_all add: parse_object_3d_mesh_def n c g required_f32_def parse_material_from_node_def get_defs panel_defs
      ShapeMesh mat Let_def)
qed

lemma parse_object_3d_saved:
  assumes ok: "get_ok L" and like: "like_panel L shown (serialize_object_3d L ob) n"
  shows "parse_object_3d L n src = Inr \<lparr>ob_eql = ob_eql ob, ob_mesh = saved_mesh L (ob_mesh ob), ob_aux = ()\<rparr>"
proof -
  have e: "kn_entries (serialize_object_3d L ob) = map new_arg [KString (ob_eql ob)] @ props []"
    by (simp add: serialize_object_3d_def new_node_def with_children_def)
  have "rel_option (list_all2 (same_node L shown)) (Some [serialize_mesh L (ob_mesh ob)]) (kn_children n)"
    using like by (simp add: like_panel_def serialize_object_3d_def with_children_def)
  then obtain c where c: "kn_children n = Some [c]" "same_node L shown (serialize_mesh L (ob_mesh ob)) c"
    by (auto simp: option_rel_Some1 list_all2_Cons1)
  show ?thesis
    using parse_mesh_saved [OF ok same_like [OF c(2)]] by (simp add: parse_object_3d_def like_arg [OF like e] c(1) and_then_def required_def)
qed

lemma parse_line_3d_saved:
  assumes "get_ok L" "like_panel L shown (serialize_line_3d L l) n"
  shows "map_sum id Line3d (parse_line_3d L n src) = Inr (saved_elem L shown (Line3d l))"
proof -
  let ?ps = "[(''line_width'', prop_if (\<not> f32_eq (ln_width l) f32_1) (KFloat (wide L (ln_width l))))] @
      color_props L (ln_color l) @ [(''perspective'', prop_if (\<not> ln_perspective l) (KBool False))]"
  have e: "kn_entries (serialize_line_3d L l) = map new_arg [KString (ln_eql l)] @ props ?ps"
    by (simp add: serialize_line_3d_def new_node_def)
  have d: "distinct (map fst ?ps)" by (simp add: color_props_def)
  note g = like_get [OF assms e d, unfolded color_props_def append_Cons append_Nil]
  have c: "parse_color_from_node L n = Some (saved_color L (ln_color l))" by (rule color_from_props) (simp_all add: g)
  show ?thesis by (simp add: parse_line_3d_def like_arg [OF assms(2) e] g c get_defs panel_defs)
qed

section \<open>Dashboards\<close>

lemma without_unit_default [simp]: "without_unit ''px'' ''0.0'' = ''0.0''"
proof -
  have "\<not> ends_with ''0.0'' ''px''" by (simp add: ends_with_def)
  then have a: "trim_end_matches ''px'' ''0.0'' = ''0.0''" by (simp add: trim_end_matches.simps)
  have b: "trim ''0.0'' = ''0.0''" by (simp add: trim_def is_space_def)
  show ?thesis unfolding without_unit_def a b ..
qed

lemma saved_rect_default [simp]: "saved_rect ui_rect_default = ui_rect_default"
  by (simp add: saved_rect_def ui_rect_default_def)

lemma parse_dash_props_saved:
  assumes "get_ok L" "has_entries L shown n [] (dash_node_props L p)"
  shows "parse_dash_props L n = (saved_props L p)
    \<lparr>dn_margin := ui_rect_default, dn_padding := ui_rect_default, dn_border := ui_rect_default,
     dn_color := color_transparent, dn_text_color := color_white\<rparr>"
proof -
  have d: "distinct (map fst (dash_node_props L p))" by (simp add: dash_node_props_def)
  note g = has_entries_get [OF assms d, unfolded dash_node_props_def]
  note enum = get_enum_prop [OF _ enum_names(1), of L n] get_enum_prop [OF _ enum_names(2), of L n]
    get_enum_prop [OF _ enum_names(3), of L n] get_enum_prop [OF _ enum_names(4), of L n] get_enum_prop [OF _ enum_names(5), of L n]
    get_enum_prop [OF _ enum_names(6), of L n] get_enum_prop [OF _ enum_names(7), of L n] get_enum_prop [OF _ enum_names(8), of L n]
    get_enum_prop [OF _ enum_names(9), of L n] get_enum_prop [OF _ enum_names(10), of L n] get_enum_prop [OF _ enum_names(11), of L n]
  have f: "or_else (get_f32 L n k) e = (if f32_eq x c then e else via L x)"
    if "kl_get L n k = prop_if (\<not> f32_eq x c) (KFloat (wide L x))" for k e x c
    using that by (simp add: get_f32_def get_defs via_def)
  have a: "get_f32 L n ''aspect_ratio'' = map_option (via L) (dn_aspect_ratio p)"
    by (cases "dn_aspect_ratio p") (simp_all add: get_f32_def g get_defs via_def)
  have v: "get_val L n ''left'' = saved_val (dn_left p)" "get_val L n ''right'' = saved_val (dn_right p)"
    "get_val L n ''top'' = saved_val (dn_top p)" "get_val L n ''bottom'' = saved_val (dn_bottom p)"
    "get_val L n ''width'' = saved_val (dn_width p)" "get_val L n ''height'' = saved_val (dn_height p)"
    "get_val L n ''min_width'' = saved_val (dn_min_width p)" "get_val L n ''min_height'' = saved_val (dn_min_height p)"
    "get_val L n ''max_width'' = saved_val (dn_max_width p)" "get_val L n ''max_height'' = saved_val (dn_max_height p)"
    "get_val L n ''flex_basis'' = saved_val (dn_flex_basis p)" "get_val L n ''row_gap'' = saved_val (dn_row_gap p)"
    "get_val L n ''column_gap'' = saved_val (dn_column_gap p)"
    by (rule get_val_prop, simp add: g)+
  have e: "get_enum L n ''display'' display_names = dn_display p" "get_enum L n ''box_sizing'' box_sizing_names = dn_box_sizing p"
    "get_enum L n ''position_type'' position_type_names = dn_position_type p"
    "get_enum L n ''align_items'' align_items_names = dn_align_items p" "get_enum L n ''justify_items'' justify_items_names = dn_justify_items p"
    "get_enum L n ''align_self'' align_self_names = dn_align_self p" "get_enum L n ''justify_self'' justify_self_names = dn_justify_self p"
    "get_enum L n ''align_content'' align_content_names = dn_align_content p"
    "get_enum L n ''justify_content'' justify_content_names = dn_justify_content p"
    "get_enum L n ''flex_direction'' flex_direction_names = dn_flex_direction p" "get_enum L n ''flex_wrap'' flex_wrap_names = dn_flex_wrap p"
    by (rule enum, simp add: g)+
  have x: "or_else (get_f32 L n ''flex_grow'') 0 = dn_flex_grow (saved_props L p)"
    "or_else (get_f32 L n ''flex_shrink'') f32_1 = dn_flex_shrink (saved_props L p)"
    "or_else (get_f32 L n ''font_size'') f32_16 = dn_font_size (saved_props L p)"
    by (subst f, simp add: g, simp add: saved_props_def)+
  have t: "get_string L n ''label'' = dn_label p" "get_string L n ''text'' = dn_text p" by (simp_all add: get_string_def g)
  have o: "kl_get L n ''overflow'' = None" "kl_get L n ''overflow_clip_margin'' = None" by (simp_all add: g)
  show ?thesis
    unfolding parse_dash_props_def v e x t a o by (simp add: saved_props_def or_else_def)
qed

lemma parse_rect_saved:
  assumes "get_ok L" "same_node L shown (new_node name (props (rect_props r))) c"
  shows "parse_ui_rect_from_node L c = Some (saved_rect r)"
proof -
  have e: "kn_entries (new_node name (props (rect_props r))) = map new_arg [] @ props (rect_props r)" by (simp add: new_node_def)
  have d: "distinct (map fst (rect_props r))" by (simp add: rect_props_def)
  note g = like_get [OF assms(1) same_like [OF assms(2)] e d, unfolded rect_props_def]
  have "get_val L c ''left'' = saved_val (ur_left r)" "get_val L c ''right'' = saved_val (ur_right r)"
    "get_val L c ''top'' = saved_val (ur_top r)" "get_val L c ''bottom'' = saved_val (ur_bottom r)"
    by (rule get_val_prop, simp add: g)+
  then show ?thesis by (simp add: parse_ui_rect_from_node_def saved_rect_def)
qed

lemma parse_color_saved:
  assumes "get_ok L" "same_node L shown (new_node name (props (color_props L c))) n"
  shows "parse_color_from_node L n = Some (saved_color L c)"
proof -
  have e: "kn_entries (new_node name (props (color_props L c))) = map new_arg [] @ props (color_props L c)" by (simp add: new_node_def)
  have d: "distinct (map fst (color_props L c))" by (simp add: color_props_def)
  note g = like_get [OF assms(1) same_like [OF assms(2)] e d, unfolded color_props_def]
  show ?thesis by (rule color_from_props) (simp_all add: g)
qed

lemma same_name: "same_node L shown n n' \<Longrightarrow> kn_name n' = kn_name n"
  by (drule same_like) (simp add: like_panel_def)

text \<open>A rectangle that is written sets its field; one that is not is the default already.\<close>

lemma parse_rect_node:
  assumes ok: "get_ok L" and cs: "list_all2 (same_node L shown) (rect_node name r) cs"
  shows "(\<exists>c. cs = [c] \<and> kn_name c = name \<and> parse_ui_rect_from_node L c = Some (saved_rect r)) \<or> cs = [] \<and> saved_rect r = ui_rect_default"
proof (cases "r = ui_rect_default")
  case False
  then obtain c where c: "cs = [c]" "same_node L shown (new_node name (props (rect_props r))) c"
    using cs by (auto simp: rect_node_def list_all2_Cons1)
  then show ?thesis using same_name [OF c(2)] parse_rect_saved [OF ok c(2)] by (simp add: new_node_def)
qed (use cs in \<open>simp add: rect_node_def\<close>)

lemma parse_margin:
  assumes "get_ok L" "list_all2 (same_node L shown) (rect_node ''margin'' r) cs" "dn_margin p = ui_rect_default"
  shows "parse_dash_children L p kids (cs @ cs') = parse_dash_children L (p\<lparr>dn_margin := saved_rect r\<rparr>) kids cs'"
  using parse_rect_node [OF assms(1,2)]
proof (elim disjE exE conjE)
  assume "cs = []" "saved_rect r = ui_rect_default"
  moreover have "p\<lparr>dn_margin := ui_rect_default\<rparr> = p" using assms(3) by simp
  ultimately show ?thesis by simp
qed (simp add: parse_dash_style_def or_else_def Let_def)

lemma parse_padding:
  assumes "get_ok L" "list_all2 (same_node L shown) (rect_node ''padding'' r) cs" "dn_padding p = ui_rect_default"
  shows "parse_dash_children L p kids (cs @ cs') = parse_dash_children L (p\<lparr>dn_padding := saved_rect r\<rparr>) kids cs'"
  using parse_rect_node [OF assms(1,2)]
proof (elim disjE exE conjE)
  assume "cs = []" "saved_rect r = ui_rect_default"
  moreover have "p\<lparr>dn_padding := ui_rect_default\<rparr> = p" using assms(3) by simp
  ultimately show ?thesis by simp
qed (simp add: parse_dash_style_def or_else_def Let_def)

lemma parse_border:
  assumes "get_ok L" "list_all2 (same_node L shown) (rect_node ''border'' r) cs" "dn_border p = ui_rect_default"
  shows "parse_dash_children L p kids (cs @ cs') = parse_dash_children L (p\<lparr>dn_border := saved_rect r\<rparr>) kids cs'"
  using parse_rect_node [OF assms(1,2)]
proof (elim disjE exE conjE)
  assume "cs = []" "saved_rect r = ui_rect_default"
  moreover have "p\<lparr>dn_border := ui_rect_default\<rparr> = p" using assms(3) by simp
  ultimately show ?thesis by simp
qed (simp add: parse_dash_style_def or_else_def Let_def)

lemma parse_bg:
  assumes "get_ok L" "list_all2 (same_node L shown) (if f32_pos (cl_a c) then [new_node ''bg'' (props (color_props L c))] else []) cs"
    "dn_color p = color_transparent"
  shows "parse_dash_children L p kids (cs @ cs') =
    parse_dash_children L (p\<lparr>dn_color := if f32_pos (cl_a c) then saved_color L c else color_transparent\<rparr>) kids cs'"
proof (cases "f32_pos (cl_a c)")
  case True
  then obtain n where n: "cs = [n]" "same_node L shown (new_node ''bg'' (props (color_props L c))) n"
    using assms(2) by (auto simp: list_all2_Cons1)
  have "kn_name n = ''bg''" using same_name [OF n(2)] by (simp add: new_node_def)
  then show ?thesis using True n(1) parse_color_saved [OF assms(1) n(2)] by (simp add: parse_dash_style_def or_else_def Let_def)
next
  case False
  moreover have "p\<lparr>dn_color := color_transparent\<rparr> = p" using assms(3) by simp
  ultimately show ?thesis using assms(2) by simp
qed

lemma parse_text_color:
  assumes "get_ok L" "list_all2 (same_node L shown) [new_node ''text_color'' (props (color_props L c))] cs"
  shows "parse_dash_children L p kids (cs @ cs') = parse_dash_children L (p\<lparr>dn_text_color := saved_color L c\<rparr>) kids cs'"
proof -
  obtain n where n: "cs = [n]" "same_node L shown (new_node ''text_color'' (props (color_props L c))) n"
    using assms(2) by (auto simp: list_all2_Cons1)
  have "kn_name n = ''text_color''" using same_name [OF n(2)] by (simp add: new_node_def)
  then show ?thesis using n(1) parse_color_saved [OF assms(1) n(2)] by (simp add: parse_dash_style_def or_else_def Let_def)
qed

lemma parse_dash_kids:
  assumes "\<And>d n. d \<in> set ds \<Longrightarrow> same_node L shown (serialize_dash_node L d) n \<Longrightarrow> parse_dash_node L n = Inr (saved_node L d)"
    and "list_all2 (same_node L shown) (map (serialize_dash_node L) ds) cs"
  shows "parse_dash_children L p kids cs = Inr (DashNode p () (kids @ map (saved_node L) ds))"
  using assms
proof (induction ds arbitrary: cs kids)
  case (Cons d ds)
  obtain c cs' where c: "cs = c # cs'" "same_node L shown (serialize_dash_node L d) c"
    "list_all2 (same_node L shown) (map (serialize_dash_node L) ds) cs'"
    using Cons.prems(2) by (auto simp: list_all2_Cons1)
  have "kn_name (serialize_dash_node L d) = ''node''" by (cases d) (simp add: with_children_def new_node_def)
  then have "parse_dash_style L c p = None" using same_name [OF c(2)] by (simp add: parse_dash_style_def Let_def)
  moreover have "parse_dash_node L c = Inr (saved_node L d)" using Cons.prems(1) c(2) by simp
  moreover have "parse_dash_children L p (kids @ [saved_node L d]) cs' = Inr (DashNode p () ((kids @ [saved_node L d]) @ map (saved_node L) ds))"
    by (rule Cons.IH) (use Cons.prems(1) c(3) in auto)
  ultimately show ?case using c(1) by simp
qed simp

lemma parse_dash_node_saved:
  assumes ok: "get_ok L"
  shows "has_entries L shown n [] (dash_node_props L p) \<Longrightarrow>
    rel_option (list_all2 (same_node L shown)) (kn_children (serialize_dash_node L (DashNode p x ds))) (kn_children n) \<Longrightarrow>
    (\<And>d n. d \<in> set ds \<Longrightarrow> same_node L shown (serialize_dash_node L d) n \<Longrightarrow> parse_dash_node L n = Inr (saved_node L d)) \<Longrightarrow>
    parse_dash_node L n = Inr (saved_node L (DashNode p x ds))"
proof -
  assume e: "has_entries L shown n [] (dash_node_props L p)"
    and c: "rel_option (list_all2 (same_node L shown)) (kn_children (serialize_dash_node L (DashNode p x ds))) (kn_children n)"
    and kids: "\<And>d n. d \<in> set ds \<Longrightarrow> same_node L shown (serialize_dash_node L d) n \<Longrightarrow> parse_dash_node L n = Inr (saved_node L d)"
  obtain c1 c2 c3 c4 c5 c6 where cs: "kn_children n = Some (c1 @ c2 @ c3 @ c4 @ c5 @ c6)"
    "list_all2 (same_node L shown) (rect_node ''margin'' (dn_margin p)) c1"
    "list_all2 (same_node L shown) (rect_node ''padding'' (dn_padding p)) c2"
    "list_all2 (same_node L shown) (rect_node ''border'' (dn_border p)) c3"
    "list_all2 (same_node L shown) (if f32_pos (cl_a (dn_color p)) then [new_node ''bg'' (props (color_props L (dn_color p)))] else []) c4"
    "list_all2 (same_node L shown) [new_node ''text_color'' (props (color_props L (dn_text_color p)))] c5"
    "list_all2 (same_node L shown) (map (serialize_dash_node L) ds) c6"
    using c by (auto simp: with_children_def option_rel_Some1 list_all2_append1 simp del: append_Cons append_Nil)
  note pr = parse_dash_props_saved [OF ok e]
  have "parse_dash_node L n = parse_dash_children L (parse_dash_props L n) [] (c1 @ c2 @ c3 @ c4 @ c5 @ c6)"
    using cs(1) by (cases n) simp
  also have "\<dots> = Inr (DashNode (saved_props L p) () ([] @ map (saved_node L) ds))"
    unfolding pr
    by (subst parse_margin [OF ok cs(2)], simp, subst parse_padding [OF ok cs(3)], simp, subst parse_border [OF ok cs(4)], simp,
        subst parse_bg [OF ok cs(5)], simp, subst parse_text_color [OF ok cs(6)], subst parse_dash_kids [OF kids cs(7)])
      (simp_all add: saved_props_def)
  finally show ?thesis by simp
qed

lemma parse_dash_nodes_saved:
  assumes ok: "get_ok L"
  shows "same_node L shown (serialize_dash_node L d) n \<Longrightarrow> parse_dash_node L n = Inr (saved_node L d)"
proof (induction d arbitrary: n)
  case (DashNode p x ds)
  note like = same_like [OF DashNode.prems]
  show ?case
  proof (rule parse_dash_node_saved [OF ok])
    show "has_entries L shown n [] (dash_node_props L p)"
      by (rule like_has_entries [OF like]) (simp add: with_children_def new_node_def)
    show "rel_option (list_all2 (same_node L shown)) (kn_children (serialize_dash_node L (DashNode p x ds))) (kn_children n)"
      using like by (simp add: like_panel_def)
  qed (rule DashNode.IH)
qed

lemma parse_dashboard_saved:
  assumes ok: "get_ok L" and like: "like_panel L shown (serialize_dashboard L d) n"
  shows "parse_dashboard L n = Inr (DashboardPanel (saved_dashboard L d))"
proof -
  obtain root y where d: "d = Dashboard root y" by (cases d)
  obtain p x ds where root: "root = DashNode p x ds" by (cases root)
  have "parse_dash_node L n = Inr (saved_node L (DashNode p x ds))"
  proof (rule parse_dash_node_saved [OF ok])
    show "has_entries L shown n [] (dash_node_props L p)"
      by (rule like_has_entries [OF like]) (simp add: d root with_children_def new_node_def Let_def)
    show "rel_option (list_all2 (same_node L shown)) (kn_children (serialize_dash_node L (DashNode p x ds))) (kn_children n)"
      using like by (simp add: like_panel_def d root Let_def)
  qed (rule parse_dash_nodes_saved [OF ok])
  then show ?thesis by (simp add: parse_dashboard_def and_then_def d root)
qed

section \<open>Panels and schematics\<close>

lemma shared_none: "serialize_shared L Map.empty i ps = map (serialize_panel L) ps"
  by (induction ps arbitrary: i) simp_all

text \<open>A panel in a split may have a share, which only the split reads.\<close>

lemma get_share:
  assumes "get_ok L" "same_node L shown (push_prop ''share'' v m) n" "named ''share'' (kn_entries m) = []"
  shows "kl_get L n ''share'' = Some v"
proof -
  obtain es cs sp where n: "n = KdlNode (kn_name m) es cs sp" "list_all2 (same_entry L shown) (kn_entries m @ [new_prop ''share'' v]) es"
    using assms(2) by (cases n) (auto simp: push_prop_def)
  have "map ke_value (named ''share'' es) = [v]"
    using named_same [OF n(2), of "''share''"] assms(3) by (simp add: named_def new_prop_def)
  then obtain e where "named ''share'' es = [e]" "ke_value e = v" by auto
  then show ?thesis using assms(1) n(1) unfolding get_ok_def by simp
qed

lemma no_share_props: "''share'' \<notin> fst ` set ps \<Longrightarrow> named ''share'' (props ps) = []"
  by (induction ps rule: props.induct) (auto simp: named_def new_prop_def)

lemma no_share_arg [simp]: "named k (new_arg v # es) = named k es"
  by (simp add: named_def new_arg_def)

lemma no_share: "named ''share'' (kn_entries (serialize_panel L p)) = []"
proof (cases p)
  case (VSplit s)
  then show ?thesis by (cases s) (simp add: with_children_def new_node_def no_share_props)
next
  case (HSplit s)
  then show ?thesis by (cases s) (simp add: with_children_def new_node_def no_share_props)
next
  case (DashboardPanel d)
  obtain q x ds y where "d = Dashboard (DashNode q x ds) y" by (metis dash_node.exhaust dashboard.exhaust)
  then show ?thesis using DashboardPanel
    by (simp add: with_children_def new_node_def Let_def no_share_props dash_node_props_def)
next
  case (QueryPlot q)
  have ns: "''share'' \<notin> fst ` set ([(''query'', a), (''refresh_interval'', b), (''auto_refresh'', c)] @ color_props L k @ [(''type'', t)])" for a b c k t
    by (simp add: color_props_def)
  show ?thesis
    unfolding QueryPlot serialize_panel.simps serialize_query_plot_def new_node_def kdl_node.sel no_share_arg by (rule no_share_props [OF ns])
next
  case (MapPanel m)
  then show ?thesis using no_share_props [of "[]"] by (simp add: serialize_map_def new_node_def)
qed (simp_all add: with_children_def new_node_def serialize_viewport_def serialize_component_monitor_def serialize_graph_def
  serialize_action_pane_def serialize_query_table_def Let_def no_share_props, simp_all add: named_def new_prop_def)

lemma parse_shared:
  assumes ok: "get_ok L"
    and IH: "\<And>p n. p \<in> set ps \<Longrightarrow> like_panel L shown (serialize_panel L p) n \<Longrightarrow> parse_panel L n src = Inr (saved_panel L shown p)"
    and cs: "list_all2 (same_node L shown) (serialize_shared L shares i ps) cs"
  shows "parse_panels L cs src i = Inr (map (saved_panel L shown) ps,
    \<lambda>j. if i \<le> j \<and> j < i + length ps then map_option (via L) (shares j) else None)"
  using IH cs
proof (induction ps arbitrary: i cs)
  case Nil
  then show ?case by (auto simp: fun_eq_iff)
next
  case (Cons p ps)
  let ?m = "case shares i of None \<Rightarrow> serialize_panel L p | Some x \<Rightarrow> push_prop ''share'' (KFloat (wide L x)) (serialize_panel L p)"
  obtain c cs' where c: "cs = c # cs'" "same_node L shown ?m c" "list_all2 (same_node L shown) (serialize_shared L shares (Suc i) ps) cs'"
    using Cons.prems(2) by (auto simp: list_all2_Cons1)
  have like: "like_panel L shown (serialize_panel L p) c"
  proof (cases "shares i")
    case None
    then show ?thesis using c(2) same_like by simp
  next
    case (Some x)
    then show ?thesis using c(2) by (cases c) (fastforce simp: like_panel_def push_prop_def new_prop_def)
  qed
  then have p: "parse_panel L c src = Inr (saved_panel L shown p)" using Cons.prems(1) by simp
  have share: "get_float L c ''share'' = map_option (wide L) (shares i)"
  proof (cases "shares i")
    case None
    have "map ke_value (named ''share'' (kn_entries c)) = map ke_value (named ''share'' (kn_entries (serialize_panel L p)))"
      by (rule named_same [of L shown]) (use c(2) None in \<open>cases c; cases "serialize_panel L p"; simp\<close>)
    then have "named ''share'' (kn_entries c) = []" using no_share [of L p] by simp
    then have "kl_get L c ''share'' = None" using ok by (simp add: get_ok_def)
    then show ?thesis using None by (simp add: get_float_def)
  next
    case (Some x)
    then have "kl_get L c ''share'' = Some (KFloat (wide L x))" using get_share [OF ok _ no_share] c(2) by simp
    then show ?thesis using Some by (simp add: get_float_def)
  qed
  have "parse_panels L cs' src (Suc i) = Inr (map (saved_panel L shown) ps,
      \<lambda>j. if Suc i \<le> j \<and> j < Suc i + length ps then map_option (via L) (shares j) else None)"
    by (rule Cons.IH) (use Cons.prems(1) c(3) in auto)
  moreover have "(\<lambda>j. if i \<le> j \<and> j < i + length (p # ps) then map_option (via L) (shares j) else None) =
      (let m = \<lambda>j. if Suc i \<le> j \<and> j < Suc i + length ps then map_option (via L) (shares j) else None
       in case shares i of None \<Rightarrow> m | Some x \<Rightarrow> m(i \<mapsto> via L x))"
  proof (rule ext)
    fix j
    show "(if i \<le> j \<and> j < i + length (p # ps) then map_option (via L) (shares j) else None) =
      (let m = \<lambda>j. if Suc i \<le> j \<and> j < Suc i + length ps then map_option (via L) (shares j) else None
       in case shares i of None \<Rightarrow> m | Some x \<Rightarrow> m(i \<mapsto> via L x)) j"
      by (cases "j = i") (auto simp: Let_def split: option.split)
  qed
  ultimately show ?case using c(1) p share by (cases "shares i") (simp_all add: via_def Let_def)
qed

lemma like_children:
  "like_panel L shown (with_children m cs) (KdlNode name es cs' sp) \<Longrightarrow> \<exists>cs''. cs' = Some cs'' \<and> list_all2 (same_node L shown) cs cs''"
  by (auto simp: like_panel_def with_children_def option_rel_Some1)

lemma parse_split_saved:
  assumes ok: "get_ok L" and s: "s = Split ps shares active"
    and IH: "\<And>p n. p \<in> set ps \<Longrightarrow> like_panel L shown (serialize_panel L p) n \<Longrightarrow> parse_panel L n src = Inr (saved_panel L shown p)"
    and like: "like_panel L shown (serialize_split L s h) n"
  shows "parse_panel L n src = Inr ((if h then HSplit else VSplit) (saved_split L shown s))"
proof -
  obtain name es cs sp where n: "n = KdlNode name es cs sp" by (cases n)
  have "like_panel L shown (with_children (new_node (if h then ''hsplit'' else ''vsplit'') (props [(''active'', prop_if active (KBool True))]))
      (serialize_shared L shares 0 ps)) (KdlNode name es cs sp)"
    using like by (simp only: s n serialize_split.simps)
  from like_children [OF this] obtain cs' where cs: "cs = Some cs'" "list_all2 (same_node L shown) (serialize_shared L shares 0 ps) cs'"
    by blast
  have e: "kn_entries (serialize_split L s h) = map new_arg [] @ props [(''active'', prop_if active (KBool True))]"
    by (simp add: s with_children_def new_node_def)
  have a: "get_bool L n ''active'' False = active" by (simp add: get_bool_def like_get [OF ok like e] prop_if_def)
  have "name = (if h then ''hsplit'' else ''vsplit'')" using like n s by (simp add: like_panel_def with_children_def new_node_def)
  then show ?thesis using parse_shared [OF ok IH cs(2)] a n cs(1) s by (cases h) (simp_all add: and_then_def)
qed

lemma parse_panel_saved:
  fixes p :: "'t panel" and s :: "'t split"
  assumes ok: "get_ok L"
  shows "like_panel L shown (serialize_panel L p) n \<Longrightarrow> parse_panel L n src = Inr (saved_panel L shown p)"
    and "\<forall>p \<in> set (sp_panels s). \<forall>n. like_panel L shown (serialize_panel L p) n \<longrightarrow> parse_panel L n src = Inr (saved_panel L shown p)"
proof (induction p and s arbitrary: n rule: panel.induct split.induct)
  case (Split ps shares active)
  then show ?case by simp
next
  case (VSplit s)
  obtain ps shares active where s: "s = Split ps shares active" by (cases s)
  show ?case using parse_split_saved [OF ok s, of shown src False n] VSplit s by simp
next
  case (HSplit s)
  obtain ps shares active where s: "s = Split ps shares active" by (cases s)
  show ?case using parse_split_saved [OF ok s, of shown src True n] HSplit s by simp
next
  case (Tabs ps)
  obtain name es cs sp where n: "n = KdlNode name es cs sp" by (cases n)
  have "like_panel L shown (with_children (new_node ''tabs'' []) (serialize_shared L Map.empty 0 ps)) (KdlNode name es cs sp)"
    using Tabs.prems by (simp only: n shared_none serialize_panel.simps)
  from like_children [OF this] obtain cs' where cs: "cs = Some cs'" "list_all2 (same_node L shown) (serialize_shared L Map.empty 0 ps) cs'"
    by blast
  have "name = ''tabs''" using Tabs.prems n by (simp add: like_panel_def with_children_def new_node_def)
  then show ?case using parse_shared [OF ok Tabs.IH cs(2)] n cs(1) by (simp add: and_then_def)
next
  case (Viewport v)
  then have "kn_name n = ''viewport''" by (simp add: like_panel_def serialize_viewport_def new_node_def)
  then show ?case using parse_viewport_saved [OF ok, of shown v n] Viewport by (cases n) simp
next
  case (Graph g)
  then have "kn_name n = ''graph''" by (simp add: like_panel_def serialize_graph_def new_node_def Let_def)
  then show ?case using parse_graph_saved [OF ok, of shown g n] Graph by (cases n) simp
next
  case (ComponentMonitor m)
  then have "kn_name n = ''component_monitor''" by (simp add: like_panel_def serialize_component_monitor_def new_node_def)
  then show ?case using parse_component_monitor_saved [OF ok, of shown m n] ComponentMonitor by (cases n) simp
next
  case (ActionPane a)
  then have "kn_name n = ''action_pane''" by (simp add: like_panel_def serialize_action_pane_def new_node_def)
  then show ?case using parse_action_pane_saved [OF ok, of shown a n] ActionPane by (cases n) simp
next
  case (QueryTable q)
  then have "kn_name n = ''query_table''" by (simp add: like_panel_def serialize_query_table_def new_node_def)
  then show ?case using parse_query_table_saved [OF ok, of shown q n] QueryTable by (cases n) simp
next
  case (QueryPlot q)
  then have "kn_name n = ''query_plot''" by (simp add: like_panel_def serialize_query_plot_def new_node_def)
  then show ?case using parse_query_plot_saved [OF ok, of shown q n] QueryPlot by (cases n) simp
next
  case (DashboardPanel d)
  obtain q x ds y where d: "d = Dashboard (DashNode q x ds) y" by (metis dash_node.exhaust dashboard.exhaust)
  have "kn_name n = ''dashboard''" using DashboardPanel by (simp add: like_panel_def d Let_def)
  then show ?case using parse_dashboard_saved [OF ok, of shown d n] DashboardPanel by (cases n) simp
next
  case (MapPanel m)
  then have "kn_name n = ''map''" by (simp add: like_panel_def serialize_map_def new_node_def)
  then show ?case using parse_map_saved [of L shown m n] MapPanel by (cases n) simp
next
  case Inspector
  then have "kn_name n = ''inspector''" by (simp add: like_panel_def new_node_def)
  then show ?case by (cases n) simp
next
  case Hierarchy
  then have "kn_name n = ''hierarchy''" by (simp add: like_panel_def new_node_def)
  then show ?case by (cases n) simp
next
  case SchematicTree
  then have "kn_name n = ''schematic_tree''" by (simp add: like_panel_def new_node_def)
  then show ?case by (cases n) simp
qed

lemma parse_elem_saved:
  assumes ok: "get_ok L" and s: "same_node L shown (serialize_schematic_elem L x) n"
  shows "parse_schematic_elem L n src = Inr (saved_elem L shown x)"
proof (cases x)
  case (PanelElem p)
  have like: "like_panel L shown (serialize_panel L p) n" using same_like [OF s] PanelElem by simp
  have "kn_name (serialize_panel L p) \<in> set panel_names"
  proof (cases p)
    case (VSplit s)
    then show ?thesis by (cases s) (simp add: with_children_def new_node_def panel_names_def)
  next
    case (HSplit s)
    then show ?thesis by (cases s) (simp add: with_children_def new_node_def panel_names_def)
  next
    case (DashboardPanel d)
    then show ?thesis by (cases d) (simp add: Let_def panel_names_def)
  qed (simp_all add: with_children_def new_node_def serialize_viewport_def serialize_component_monitor_def serialize_graph_def
    serialize_action_pane_def serialize_query_table_def serialize_query_plot_def serialize_map_def Let_def panel_names_def)
  then have "kn_name n \<in> set panel_names" using like by (simp add: like_panel_def)
  then show ?thesis using parse_panel_saved(1) [OF ok like] PanelElem by (simp add: parse_schematic_elem_def and_then_def)
next
  case (Object3d ob)
  have like: "like_panel L shown (serialize_object_3d L ob) n" using same_like [OF s] Object3d by simp
  then have "kn_name n = ''object_3d''" by (simp add: like_panel_def serialize_object_3d_def with_children_def new_node_def)
  then show ?thesis using parse_object_3d_saved [OF ok like] Object3d by (simp add: parse_schematic_elem_def and_then_def panel_names_def)
next
  case (Line3d l)
  have like: "like_panel L shown (serialize_line_3d L l) n" using same_like [OF s] Line3d by simp
  then have "kn_name n = ''line_3d''" by (simp add: like_panel_def serialize_line_3d_def new_node_def)
  then show ?thesis using parse_line_3d_saved [OF ok like, of src] Line3d
    by (cases "parse_line_3d L n src") (simp_all add: parse_schematic_elem_def and_then_def panel_names_def)
qed

lemma parse_elems_saved:
  assumes ok: "get_ok L"
  shows "list_all2 (same_node L shown) (map (serialize_schematic_elem L) s) doc \<Longrightarrow> parse_elems L src doc = Inr (map (saved_elem L shown) s)"
proof (induction s arbitrary: doc)
  case (Cons x s)
  then obtain n ns where n: "doc = n # ns" "same_node L shown (serialize_schematic_elem L x) n"
    "list_all2 (same_node L shown) (map (serialize_schematic_elem L) s) ns"
    by (auto simp: list_all2_Cons1)
  show ?case using parse_elem_saved [OF ok n(2)] Cons.IH [OF n(3)] n(1) by (simp add: and_then_def)
qed simp

lemma parse_schematic_saved:
  assumes "get_ok L" "reads_back L shown (map (serialize_schematic_elem L) s)"
  shows "parse_schematic L (serialize_schematic L s) = Inr (map (saved_elem L shown) s)"
  using assms parse_elems_saved [OF assms(1)]
  by (auto simp: reads_back_def serialize_schematic_def parse_schematic_def)

end
