(* ===== verification/SchematicKept.thy ===== *)
theory SchematicKept
  imports SchematicKdlCorrect
begin

text \<open>
  Which schematics come back exactly as they were saved, and two instances: one that is kept
  and one that is not.
\<close>

section \<open>What is kept\<close>

text \<open>\<open>as f64 as f32\<close> is exact for every number.\<close>

definition float_ok :: "kdl_lib \<Rightarrow> bool" where
  "float_ok L \<longleftrightarrow> narrow L f64_1 = f32_1 \<and> narrow L f64_45 = f32_45 \<and> (\<forall>x. \<not> f32_nan x \<longrightarrow> via L x = x)"

text \<open>Minus zero is not told from zero.\<close>

definition minus_zero :: f32 where
  "minus_zero = 0x80000000"

definition kept_color :: "color \<Rightarrow> bool" where
  "kept_color c \<longleftrightarrow> \<not> f32_nan (cl_r c) \<and> \<not> f32_nan (cl_g c) \<and> \<not> f32_nan (cl_b c) \<and> cl_a c = f32_1"

definition kept_amount :: "string \<Rightarrow> string \<Rightarrow> bool" where
  "kept_amount unit s \<longleftrightarrow> \<not> ends_with s unit \<and> trim s = s"

fun kept_val :: "val \<Rightarrow> bool" where
  "kept_val ValAuto = True"
| "kept_val (ValPx s) = kept_amount ''px'' s"
| "kept_val (ValPercent s) = kept_amount ''%'' s"
| "kept_val (ValVw s) = kept_amount ''vw'' s"
| "kept_val (ValVh s) = kept_amount ''vh'' s"
| "kept_val (ValVMin s) = kept_amount ''vmin'' s"
| "kept_val (ValVMax s) = kept_amount ''vmax'' s"

definition kept_rect :: "ui_rect \<Rightarrow> bool" where
  "kept_rect r \<longleftrightarrow> kept_val (ur_left r) \<and> kept_val (ur_right r) \<and> kept_val (ur_top r) \<and> kept_val (ur_bottom r)"

definition kept_props :: "dash_props \<Rightarrow> bool" where
  "kept_props p \<longleftrightarrow>
     dn_overflow p = \<lparr>ov_x = AxisVisible, ov_y = AxisVisible\<rparr> \<and> dn_clip_margin p = \<lparr>oc_box = ClipContentBox, oc_margin = 0\<rparr> \<and>
     list_all kept_val [dn_left p, dn_right p, dn_top p, dn_bottom p, dn_width p, dn_height p, dn_min_width p, dn_min_height p,
       dn_max_width p, dn_max_height p, dn_flex_basis p, dn_row_gap p, dn_column_gap p] \<and>
     list_all kept_rect [dn_margin p, dn_padding p, dn_border p] \<and>
     list_all (\<lambda>x. \<not> f32_nan x) [dn_flex_grow p, dn_flex_shrink p, dn_font_size p] \<and> dn_flex_grow p \<noteq> minus_zero \<and>
     (case dn_aspect_ratio p of None \<Rightarrow> True | Some x \<Rightarrow> \<not> f32_nan x) \<and>
     kept_color (dn_text_color p) \<and> (kept_color (dn_color p) \<or> dn_color p = color_transparent)"

fun kept_node :: "'t dash_node \<Rightarrow> bool" where
  "kept_node (DashNode p x cs) \<longleftrightarrow> kept_props p \<and> list_all kept_node cs"

fun kept_panel :: "kdl_lib \<Rightarrow> (string \<Rightarrow> string) \<Rightarrow> 't panel \<Rightarrow> bool"
  and kept_split :: "kdl_lib \<Rightarrow> (string \<Rightarrow> string) \<Rightarrow> 't split \<Rightarrow> bool" where
  "kept_panel L shown (Tabs ps) = list_all (kept_panel L shown) ps"
| "kept_panel L shown (HSplit s) = kept_split L shown s"
| "kept_panel L shown (VSplit s) = kept_split L shown s"
| "kept_panel L shown (Viewport v) = (\<not> f32_nan (vp_fov v))"
| "kept_panel L shown (Graph g) =
     (if gr_auto_y_range g then gr_y_range g = (0, f64_1)
      else f64_eq (fst (gr_y_range g)) 0 \<and> f64_eq (snd (gr_y_range g)) f64_1 \<longrightarrow> fst (gr_y_range g) = 0)"
| "kept_panel L shown (ComponentMonitor cid) = (saved_monitor L cid = cid)"
| "kept_panel L shown (QueryPlot q) =
     (shown (qp_label q) = qp_label q \<and> qp_refresh_interval q mod 10 ^ 6 = 0 \<and> qp_refresh_interval q div 10 ^ 6 < 2 ^ 64 \<and> kept_color (qp_color q))"
| "kept_panel L shown (DashboardPanel (Dashboard n x)) = kept_node n"
| "kept_panel L shown _ = True"
| "kept_split L shown (Split ps shares active) =
     (list_all (kept_panel L shown) ps \<and> (\<forall>i. case shares i of None \<Rightarrow> True | Some x \<Rightarrow> i < length ps \<and> \<not> f32_nan x))"

fun kept_elem :: "kdl_lib \<Rightarrow> (string \<Rightarrow> string) \<Rightarrow> 't schematic_elem \<Rightarrow> bool" where
  "kept_elem L shown (PanelElem p) = kept_panel L shown p"
| "kept_elem L shown (Object3d ob) =
     (case ob_mesh ob of
        GlbMesh path \<Rightarrow> True
      | ShapeMesh mesh (Material c) \<Rightarrow> kept_color c \<and>
          list_all (\<lambda>x. \<not> f32_nan x) (case mesh of Sphere r \<Rightarrow> [r] | MeshBox x y z \<Rightarrow> [x, y, z] | Cylinder r h \<Rightarrow> [r, h]))"
| "kept_elem L shown (Line3d l) = (\<not> f32_nan (ln_width l) \<and> kept_color (ln_color l))"

lemma f32_eq_const:
  "f32_eq x f32_1 \<longleftrightarrow> x = f32_1" "f32_eq x f32_16 \<longleftrightarrow> x = f32_16" "f32_eq x f32_45 \<longleftrightarrow> x = f32_45"
  by (auto simp: f32_eq_def f32_nan_def f32_1_def f32_16_def f32_45_def)

lemma f64_eq_1: "f64_eq x f64_1 \<longleftrightarrow> x = f64_1"
  by (auto simp: f64_eq_def f64_nan_def f64_1_def)

lemma and_exp: "x AND 2 ^ n = (if bit x n then 2 ^ n else 0)" for x :: "'a::len word"
  by (rule bit_word_eqI) (auto simp: bit_simps)

lemma f32_eq_0:
  assumes "f32_eq x 0" "x \<noteq> minus_zero"
  shows "x = 0"
proof -
  have z: "x AND 0x7FFFFFFF = 0" using assms(1) by (auto simp: f32_eq_def)
  have m: "(0x7FFFFFFF OR 0x80000000 :: f32) = - 1" by simp
  have "x = x AND (0x7FFFFFFF OR 0x80000000)" unfolding m by simp
  then have "x = (x AND 0x7FFFFFFF) OR (x AND 0x80000000)" by (simp only: bit.conj_disj_distrib)
  then have x: "x = x AND 0x80000000" using z by simp
  have "x AND 2 ^ 31 = (if bit x 31 then 2 ^ 31 else 0)" by (rule and_exp)
  then show "x = 0" using x assms(2) by (cases "bit x 31") (simp_all add: minus_zero_def)
qed

lemma saved_val_kept: "kept_val v \<Longrightarrow> saved_val v = v"
proof -
  have "kept_amount u s \<Longrightarrow> without_unit u s = s" for u s
    by (simp add: kept_amount_def without_unit_def trim_end_matches.simps)
  then show "kept_val v \<Longrightarrow> saved_val v = v" by (cases v) simp_all
qed

lemma saved_rect_kept: "kept_rect r \<Longrightarrow> saved_rect r = r"
  by (simp add: kept_rect_def saved_rect_def saved_val_kept)

lemma saved_color_kept: "float_ok L \<Longrightarrow> kept_color c \<Longrightarrow> saved_color L c = c"
  by (simp add: kept_color_def saved_color_def float_ok_def rgba_def)

lemma saved_default:
  assumes "float_ok L" "\<not> f32_nan x"
  shows "(if f32_eq x f32_1 then f32_1 else via L x) = x" "(if f32_eq x f32_16 then f32_16 else via L x) = x"
    "(if f32_eq x f32_45 then narrow L f64_45 else via L x) = x" "(if f32_eq x f32_1 then narrow L f64_1 else via L x) = x"
    "x \<noteq> minus_zero \<Longrightarrow> (if f32_eq x 0 then 0 else via L x) = x"
  using assms f32_eq_0 [of x] by (auto simp: f32_eq_const float_ok_def)

lemma saved_props_kept:
  assumes "float_ok L" "kept_props p"
  shows "saved_props L p = p"
proof -
  have v: "list_all kept_val [dn_left p, dn_right p, dn_top p, dn_bottom p, dn_width p, dn_height p, dn_min_width p, dn_min_height p,
       dn_max_width p, dn_max_height p, dn_flex_basis p, dn_row_gap p, dn_column_gap p]" using assms(2) unfolding kept_props_def by blast
  have r: "list_all kept_rect [dn_margin p, dn_padding p, dn_border p]" using assms(2) unfolding kept_props_def by blast
  have f: "list_all (\<lambda>x. \<not> f32_nan x) [dn_flex_grow p, dn_flex_shrink p, dn_font_size p]" "dn_flex_grow p \<noteq> minus_zero"
    using assms(2) unfolding kept_props_def by blast+
  have a: "map_option (via L) (dn_aspect_ratio p) = dn_aspect_ratio p"
    using assms by (cases "dn_aspect_ratio p") (simp_all add: kept_props_def float_ok_def)
  have c: "(if f32_pos (cl_a (dn_color p)) then saved_color L (dn_color p) else color_transparent) = dn_color p"
    using assms saved_color_kept [of L "dn_color p"]
    by (auto simp: kept_props_def kept_color_def f32_pos_def f32_1_def color_transparent_def rgba_def)
  have t: "saved_color L (dn_text_color p) = dn_text_color p"
    by (rule saved_color_kept [OF assms(1)]) (use assms(2) in \<open>simp add: kept_props_def\<close>)
  have o: "dn_overflow p = \<lparr>ov_x = AxisVisible, ov_y = AxisVisible\<rparr>" "dn_clip_margin p = \<lparr>oc_box = ClipContentBox, oc_margin = 0\<rparr>"
    using assms(2) by (simp_all add: kept_props_def)
  show ?thesis
    using v r f saved_default [OF assms(1)]
    by (simp only: saved_props_def a c t flip: o) (simp add: saved_val_kept saved_rect_kept)
qed

lemma saved_node_kept: "float_ok L \<Longrightarrow> kept_node d \<Longrightarrow> saved_node L d = map_aux_node (\<lambda>_. ()) d"
proof (induction d)
  case (DashNode p x ds)
  then show ?case by (simp add: saved_props_kept list_all_iff)
qed

lemma saved_panel_kept:
  fixes p :: "'t panel" and s :: "'t split"
  assumes f: "float_ok L"
  shows "kept_panel L shown p \<Longrightarrow> saved_panel L shown p = map_aux (\<lambda>_. ()) p"
    and "kept_split L shown s \<Longrightarrow> saved_split L shown s = map_aux_split (\<lambda>_. ()) s"
proof (induction p and s rule: panel.induct split.induct)
  case (Viewport v)
  then show ?case using saved_default(3) [OF f] by (simp add: saved_viewport_def map_aux_viewport_def)
next
  case (Graph g)
  then show ?case by (cases "gr_y_range g") (auto simp: saved_graph_def map_aux_graph_def f64_eq_1 split: if_splits)
next
  case (QueryPlot q)
  then have "as_millis (qp_refresh_interval q) mod 2 ^ 64 * 10 ^ 6 = qp_refresh_interval q"
    by (simp add: as_millis_def) (metis dvd_div_mult_self mod_0_imp_dvd)
  then show ?case using QueryPlot saved_color_kept [OF f] by (simp add: saved_plot_def map_aux_plot_def)
next
  case (DashboardPanel d)
  then show ?case using saved_node_kept [OF f] by (cases d) simp
next
  case (Split ps shares active)
  have "(if i < length ps then map_option (via L) (shares i) else None) = shares i" for i
  proof (cases "shares i")
    case (Some x)
    have "case shares i of None \<Rightarrow> True | Some x \<Rightarrow> i < length ps \<and> \<not> f32_nan x" using Split.prems by simp
    then show ?thesis using Some f by (simp add: float_ok_def)
  qed simp
  then show ?case using Split by (simp add: list_all_iff)
qed (simp_all add: list_all_iff)

lemma saved_elem_kept:
  assumes f: "float_ok L" and k: "kept_elem L shown x"
  shows "saved_elem L shown x = clear_aux x"
proof (cases x)
  case (Object3d ob)
  show ?thesis
  proof (cases "ob_mesh ob")
    case (ShapeMesh mesh mat)
    then show ?thesis using Object3d k f saved_color_kept [OF f]
      by (cases mat; cases mesh) (simp_all add: float_ok_def)
  qed (use Object3d in simp)
next
  case (Line3d l)
  then show ?thesis using k saved_color_kept [OF f] saved_default(4) [OF f] by simp
qed (use k saved_panel_kept [OF f] in simp)

text \<open>C23. A schematic without such things comes back as it was, without the data of the user
  interface: numbers that are not NaN, opaque colors, trimmed lengths, no overflow, whole
  milliseconds, ranges only on graphs that do not scale themselves, shares of the panels that
  are there, and no monitor.\<close>

theorem schematic_kept:
  assumes "get_ok L" "float_ok L" "reads_back L shown (map (serialize_schematic_elem L) s)" "list_all (kept_elem L shown) s"
  shows "parse_schematic L (serialize_schematic L s) = Inr (map clear_aux s)"
proof -
  have "map (saved_elem L shown) s = map clear_aux s"
    using assms(4) by (simp add: list_all_iff saved_elem_kept [OF assms(2), of shown])
  then show ?thesis using parse_schematic_saved [OF assms(1,3)] by simp
qed

section \<open>Instances\<close>

text \<open>Writing uses nothing of the library but the width of numbers.\<close>

lemma serialize_node_floats: "kl_floats L = kl_floats L' \<Longrightarrow> serialize_dash_node L d = serialize_dash_node L' d"
  by (induction d) (simp add: dash_node_props_def color_props_def cong: map_cong)

lemma serialize_panel_floats:
  fixes p :: "'t panel" and s :: "'t split"
  assumes f: "kl_floats L = kl_floats L'"
  shows "serialize_panel L p = serialize_panel L' p"
    and "\<forall>p \<in> set (sp_panels s). serialize_panel L p = serialize_panel L' p"
proof (induction p and s rule: panel.induct split.induct)
  case (DashboardPanel d)
  then show ?case by (cases d) (simp add: Let_def serialize_node_floats [OF f])
next
  case (VSplit s)
  have "\<forall>p \<in> set ps. serialize_panel L p = serialize_panel L' p \<Longrightarrow> serialize_shared L sh i ps = serialize_shared L' sh i ps" for ps :: "'t panel list" and sh i
    by (induction ps arbitrary: i) (simp_all add: f split: option.split)
  then show ?case using VSplit by (cases s) simp
next
  case (HSplit s)
  have "\<forall>p \<in> set ps. serialize_panel L p = serialize_panel L' p \<Longrightarrow> serialize_shared L sh i ps = serialize_shared L' sh i ps" for ps :: "'t panel list" and sh i
    by (induction ps arbitrary: i) (simp_all add: f split: option.split)
  then show ?case using HSplit by (cases s) simp
qed (simp_all add: serialize_viewport_def serialize_query_plot_def color_props_def f cong: map_cong)

lemma serialize_elem_floats:
  assumes f: "kl_floats L = kl_floats L'"
  shows "serialize_schematic_elem L x = serialize_schematic_elem L' x"
proof -
  have c: "color_props L = color_props L'" by (rule ext) (simp add: color_props_def f)
  have m: "serialize_mesh L m = serialize_mesh L' m" for m
    by (simp add: serialize_mesh_def f c split: object_mesh.split material.split mesh.split)
  show ?thesis
    by (cases x) (simp_all add: f c m serialize_panel_floats(1) [OF f] serialize_object_3d_def serialize_line_3d_def)
qed

text \<open>A document library that reads one document.\<close>

definition one_doc :: "node list \<Rightarrow> kdl_lib" where
  "one_doc doc =
     \<lparr>kl_get = (\<lambda>n k. map_option ke_value (find (\<lambda>e. ke_name e = Some k) (rev (kn_entries n)))),
      kl_entry_text = (\<lambda>e. case ke_value e of KString s \<Rightarrow> s | _ \<Rightarrow> []), kl_name_text = kn_name,
      kl_print = (\<lambda>_. ''document''), kl_parse = (\<lambda>_. Inr doc), kl_show_f32 = (\<lambda>_. ''0''), kl_hash = (\<lambda>s. of_nat (length s)),
      kl_floats = \<lparr>f32_add = (+), f64_add = (+), f32_div = (\<lambda>a _. a), f64_div = (\<lambda>a _. a), f32_of_int = word_of_int,
        f64_of_int = word_of_int, f32_clamp = (\<lambda>a b x. a), f64_clamp = (\<lambda>a b x. a),
        f32_of_f64 = (\<lambda>x. if x = f64_1 then f32_1 else if x = f64_45 then f32_45 else ucast x), f64_of_f32 = ucast\<rparr>\<rparr>"

lemma find_filter: "find P xs = (case filter P xs of [] \<Rightarrow> None | x # _ \<Rightarrow> Some x)"
  by (induction xs) simp_all

lemma one_doc_get: "get_ok (one_doc doc)"
proof -
  have "map_option ke_value (find (\<lambda>e. ke_name e = Some k) (rev es)) = (case named k es of [] \<Rightarrow> None | e # _ \<Rightarrow> Some (ke_value e))"
    if "length (named k es) \<le> 1" for k es
  proof (cases "named k es")
    case Nil
    then show ?thesis by (auto simp: named_def find_None_iff filter_empty_conv)
  next
    case (Cons e es')
    then have "named k es = [e]" using that by (cases es') auto
    then have "filter (\<lambda>e. ke_name e = Some k) (rev es) = [e]" by (simp add: named_def flip: rev_filter)
    then have "find (\<lambda>e. ke_name e = Some k) (rev es) = Some e" by (simp add: find_filter)
    then show ?thesis using Cons by simp
  qed
  then show ?thesis by (simp add: get_ok_def one_doc_def)
qed

lemma one_doc_same: "same_node (one_doc doc) id n n"
  by (rule kdl_node.rel_refl) (simp_all add: same_entry_def one_doc_def)

lemma one_doc_reads: "reads_back (one_doc doc) id doc"
  using one_doc_same by (auto simp: reads_back_def one_doc_def list_all2_same)

lemma one_doc_floats: "float_ok (one_doc doc)"
proof -
  have "unat (ucast x :: f64) < 2 ^ 32" for x :: f32
  proof -
    have "unat (ucast x :: f64) \<le> unat x" by (simp add: unsigned_ucast_eq take_bit_eq_mod)
    then show ?thesis using unat_lt_power [of x] by simp
  qed
  moreover have "2 ^ 32 \<le> unat f64_1" "2 ^ 32 \<le> unat f64_45" by (simp_all add: f64_1_def f64_45_def)
  ultimately have n: "(ucast x :: f64) \<noteq> f64_1" "(ucast x :: f64) \<noteq> f64_45" for x :: f32
    by (metis leD)+
  have "(ucast (ucast x :: f64) :: f32) = x" for x :: f32 by (rule bit_word_eqI) (simp add: bit_simps)
  then show ?thesis using n by (simp add: float_ok_def via_def one_doc_def f64_1_def f64_45_def)
qed

text \<open>A split of a plot, a dashboard and a monitor, and a box.\<close>

definition sample_props :: dash_props where
  "sample_props =
     \<lparr>dn_label = Some ''engine'', dn_display = DispGrid, dn_box_sizing = SizingContentBox, dn_position_type = PosRelative,
      dn_overflow = \<lparr>ov_x = AxisVisible, ov_y = AxisVisible\<rparr>, dn_clip_margin = \<lparr>oc_box = ClipContentBox, oc_margin = 0\<rparr>,
      dn_left = ValAuto, dn_right = ValAuto, dn_top = ValAuto, dn_bottom = ValAuto, dn_width = ValPx ''100'', dn_height = ValPercent ''50'',
      dn_min_width = ValAuto, dn_min_height = ValAuto, dn_max_width = ValVMax ''7'', dn_max_height = ValAuto,
      dn_aspect_ratio = Some f32_16, dn_align_items = ItemsDefault, dn_justify_items = JItemsDefault, dn_align_self = SelfAuto,
      dn_justify_self = JSelfAuto, dn_align_content = ContentDefault, dn_justify_content = JContentDefault,
      dn_margin = ui_rect_default, dn_padding = ui_rect_default\<lparr>ur_left := ValPx ''8''\<rparr>, dn_border = ui_rect_default,
      dn_flex_direction = DirColumn, dn_flex_wrap = WrappingNoWrap, dn_flex_grow = f32_1, dn_flex_shrink = 0,
      dn_flex_basis = ValAuto, dn_row_gap = ValAuto, dn_column_gap = ValAuto, dn_color = rgb f32_1 0 0, dn_text = None,
      dn_font_size = f32_16, dn_text_color = color_white\<rparr>"

definition sample_schematic :: "nat schematic" where
  "sample_schematic =
     [PanelElem (HSplit (Split
        [QueryPlot \<lparr>qp_label = ''speed'', qp_query = ''a.v'', qp_refresh_interval = 250000000, qp_auto_refresh = True,
           qp_color = color_white, qp_type = QuerySQL, qp_aux = 1\<rparr>,
         DashboardPanel (Dashboard (DashNode sample_props 2 [DashNode sample_props 3 []]) 4)] [0 \<mapsto> f32_45] True)),
      Object3d \<lparr>ob_eql = ''a.pos'', ob_mesh = ShapeMesh (MeshBox f32_1 f32_1 f32_16) (Material color_white), ob_aux = 5\<rparr>]"

text \<open>A half-transparent line and a monitor do not come back as they were.\<close>

definition lossy_schematic :: "unit schematic" where
  "lossy_schematic =
     [Line3d \<lparr>ln_eql = ''a.pos'', ln_width = f32_16, ln_color = rgba f32_1 0 0 0x3F000000, ln_perspective = True, ln_aux = ()\<rparr>,
      PanelElem (ComponentMonitor 12345)]"

text \<open>C16. A saved schematic is always read again, and what comes back is \<open>saved\<close> of it: panels,
  splits with their shares, dashboards with all their properties, objects and lines in their
  order, up to exactly these losses: colors become opaque and invisible backgrounds transparent black,
  overflow is reset, automatic ranges and shares of missing panels go, intervals are cut to
  milliseconds, lengths are trimmed, a plot's label is replaced by its text in the document,
  and a component monitor watches the component whose name is the number of the old one.\<close>

theorem schematic_reload:
  assumes "get_ok L" "reads_back L shown (map (serialize_schematic_elem L) s)"
  shows "parse_schematic L (serialize_schematic L s) = Inr (map (saved_elem L shown) s)"
  by (rule parse_schematic_saved [OF assms])

lemma schematic_reload_witness:
  "\<exists>L. parse_schematic L (serialize_schematic L lossy_schematic) =
    Inr [Line3d \<lparr>ln_eql = ''a.pos'', ln_width = f32_16, ln_color = rgb f32_1 0 0, ln_perspective = True, ln_aux = ()\<rparr>,
         PanelElem (ComponentMonitor 5)]"
proof -
  let ?L = "one_doc (map (serialize_schematic_elem (one_doc [])) lossy_schematic)"
  have "kl_floats ?L = kl_floats (one_doc [])" by (simp add: one_doc_def)
  then have e: "map (serialize_schematic_elem ?L) lossy_schematic = map (serialize_schematic_elem (one_doc [])) lossy_schematic"
    using serialize_elem_floats by (intro map_cong) auto
  have "reads_back ?L id (map (serialize_schematic_elem ?L) lossy_schematic)" by (subst e) (rule one_doc_reads)
  note r = schematic_reload [OF one_doc_get this]
  have "via ?L x = x" if "\<not> f32_nan x" for x using one_doc_floats that by (simp add: float_ok_def)
  then have v: "via ?L f32_16 = f32_16" "via ?L f32_1 = f32_1" "via ?L 0 = 0"
    by (simp_all add: f32_nan_def f32_16_def f32_1_def)
  have v1: "narrow ?L f64_1 = f32_1" using one_doc_floats by (simp add: float_ok_def)
  have m: "saved_monitor ?L 12345 = 5"
    by (simp add: saved_monitor_def one_doc_def component_id_new_def decimal.simps)
  have ne: "f32_16 \<noteq> f32_1" by (simp add: f32_16_def f32_1_def)
  have "map (saved_elem L id) lossy_schematic =
      [Line3d \<lparr>ln_eql = ''a.pos'', ln_width = f32_16, ln_color = rgb f32_1 0 0, ln_perspective = True, ln_aux = ()\<rparr>,
       PanelElem (ComponentMonitor 5)]"
    if "via L f32_16 = f32_16" "via L f32_1 = f32_1" "via L 0 = 0" "narrow L f64_1 = f32_1" "saved_monitor L 12345 = 5" for L
    using ne that by (simp add: lossy_schematic_def saved_color_def rgb_def rgba_def f32_eq_const)
  from this [OF v v1 m]
  show ?thesis using r by metis
qed

lemma schematic_kept_witness:
  "\<exists>L. parse_schematic L (serialize_schematic L sample_schematic) = Inr (map clear_aux sample_schematic)"
proof -
  let ?L = "one_doc (map (serialize_schematic_elem (one_doc [])) sample_schematic)"
  have n: "kept_amount ''px'' ''100''" "kept_amount ''%'' ''50''" "kept_amount ''vmax'' ''7''" "kept_amount ''px'' ''8''" "kept_amount ''px'' ''0.0''"
    by (simp_all add: kept_amount_def ends_with_def trim_def is_space_def)
  have p: "kept_props sample_props"
    by (simp add: kept_props_def sample_props_def n kept_rect_def ui_rect_default_def kept_color_def color_white_def rgb_def rgba_def
      f32_nan_def f32_1_def f32_16_def minus_zero_def)
  have k: "list_all (kept_elem ?L id) sample_schematic"
    by (simp add: sample_schematic_def p kept_color_def color_white_def rgb_def rgba_def f32_nan_def f32_1_def f32_16_def f32_45_def)
  have "kl_floats ?L = kl_floats (one_doc [])" by (simp add: one_doc_def)
  then have e: "map (serialize_schematic_elem ?L) sample_schematic = map (serialize_schematic_elem (one_doc [])) sample_schematic"
    using serialize_elem_floats by (intro map_cong) auto
  have "reads_back ?L id (map (serialize_schematic_elem ?L) sample_schematic)" by (subst e) (rule one_doc_reads)
  from schematic_kept [OF one_doc_get one_doc_floats this k] show ?thesis by blast
qed

end
