(* ===== verification/PlotBuffers.thy ===== *)
theory PlotBuffers
  imports Value
begin

text \<open>
  The samples a plot keeps (\<open>libs/metor-ui/src/ui/plot/data.rs\<close>).  A line is an interval map of
  chunks; every chunk has a buffer of times and a buffer of values, each with a shard of a GPU
  buffer once it has been drawn.  The interval map, the bitmap of free shards, the rendering
  device and floating-point arithmetic are external and enter as parameters.  An \<open>Arc\<close> that
  clones of a chunk share is an address of the line's store of cells; what the line queues for
  the device is a list of writes.  Panics are \<open>None\<close>; \<open>pe_debug\<close> says whether assertions and
  overflow checks are compiled in, without them arithmetic wraps.
\<close>

section \<open>Parameters\<close>

type_synonym f32_bits = "32 word"

text \<open>\<open>RoaringBitmap\<close>: a set of \<open>u32\<close>; \<open>bm_next\<close> is \<open>iter().next()\<close>.\<close>

record 'b bitmap_lib =
  bm_new :: 'b
  bm_insert :: "nat \<Rightarrow> 'b \<Rightarrow> 'b"
  bm_remove :: "nat \<Rightarrow> 'b \<Rightarrow> 'b"
  bm_next :: "'b \<Rightarrow> nat option"
  bm_contains :: "'b \<Rightarrow> nat \<Rightarrow> bool"

text \<open>The buffer of a plot's values; the cell is the pair of its \<open>gpu\<close> and \<open>gpu_dirty\<close>.\<close>

record shared_buffer =
  sb_cpu :: "f32_bits list"
  sb_cell :: nat

record chunk_summary =
  su_len :: nat
  su_start :: int
  su_end :: int
  su_min :: "f32_bits option"
  su_max :: "f32_bits option"

record plot_chunk =
  ch_timestamps :: "int list"
  ch_times :: shared_buffer
  ch_data :: shared_buffer
  ch_summary :: chunk_summary

type_synonym interval = "int \<times> int"

text \<open>
  \<open>NoditMap\<close>: a map from disjoint closed intervals, iterated in order.  The constructors of
  intervals panic on an empty interval.
\<close>

record 't nodit_lib =
  nd_ii :: "int \<Rightarrow> int \<Rightarrow> interval option"
  nd_ie :: "int \<Rightarrow> int \<Rightarrow> interval option"
  nd_ee :: "int \<Rightarrow> int \<Rightarrow> interval option"
  nd_new :: 't
  nd_iter :: "'t \<Rightarrow> (interval \<times> plot_chunk) list"
  nd_insert_overwrite :: "interval \<Rightarrow> plot_chunk \<Rightarrow> 't \<Rightarrow> 't"
  nd_overlapping :: "interval \<Rightarrow> 't \<Rightarrow> (interval \<times> plot_chunk) list"
  nd_last :: "'t \<Rightarrow> (interval \<times> plot_chunk) option"
  nd_remove_last :: "'t \<Rightarrow> 't"
  nd_gaps_trimmed :: "interval \<Rightarrow> 't \<Rightarrow> interval list"

record ('b, 't) plot_env =
  pe_debug :: bool
  pe_floats :: float_ops
  pe_min :: "f32_bits \<Rightarrow> f32_bits \<Rightarrow> f32_bits"
  pe_max :: "f32_bits \<Rightarrow> f32_bits \<Rightarrow> f32_bits"
  pe_bits :: "'b bitmap_lib"
  pe_tree :: "'t nodit_lib"

section \<open>Checked arithmetic\<close>

definition i64_op :: "('b, 't) plot_env \<Rightarrow> int \<Rightarrow> int option" where
  "i64_op E x = (if pe_debug E \<and> \<not> i64_range x then None else Some (i64_wrap x))"

definition usize_mul :: "('b, 't) plot_env \<Rightarrow> nat \<Rightarrow> nat \<Rightarrow> nat option" where
  "usize_mul E a b = (if pe_debug E \<and> 2 ^ 64 \<le> a * b then None else Some ((a * b) mod 2 ^ 64))"

definition usize_sub :: "('b, 't) plot_env \<Rightarrow> nat \<Rightarrow> nat \<Rightarrow> nat option" where
  "usize_sub E a b =
     (if b \<le> a then Some (a - b) else if pe_debug E then None else Some (a + 2 ^ 64 - b))"

definition div_ceil :: "nat \<Rightarrow> nat \<Rightarrow> nat option" where
  "div_ceil a b = (if b = 0 then None else Some (if a mod b = 0 then a div b else Suc (a div b)))"

text \<open>\<open>Iterator::step_by\<close>.\<close>

fun step_by :: "nat \<Rightarrow> 'a list \<Rightarrow> 'a list" where
  "step_by n [] = []"
| "step_by n (x # xs) = x # step_by n (drop (n - 1) xs)"

section \<open>Shards of a GPU buffer\<close>

definition CHUNK_COUNT :: nat where "CHUNK_COUNT = 0x4000"
definition CHUNK_LEN :: nat where "CHUNK_LEN = 0xC00"

text \<open>The part of a buffer of shards that the shader sees.\<close>

definition VALUE_BUFFER_SIZE :: nat where "VALUE_BUFFER_SIZE = CHUNK_COUNT * CHUNK_LEN * 4"

record shard =
  sh_buffer :: nat
  sh_start :: nat
  sh_end :: nat

record 'b shard_alloc =
  sa_buffer :: nat
  sa_chunk_size :: nat
  sa_free :: 'b

text \<open>A write to a buffer: the buffer, the offset in it and the bytes.\<close>

type_synonym gpu_write = "nat \<times> nat \<times> byte list"

definition sa_new :: "('b, 't) plot_env \<Rightarrow> nat \<Rightarrow> nat \<Rightarrow> nat \<Rightarrow> nat \<Rightarrow> 'b shard_alloc" where
  "sa_new E buffer elem chunks chunk_len =
     \<lparr>sa_buffer = buffer, sa_chunk_size = elem * chunk_len,
      sa_free = fold (\<lambda>i. bm_insert (pe_bits E) (i mod 2 ^ 32)) [0..<chunks] (bm_new (pe_bits E))\<rparr>"

definition sa_allocate :: "('b, 't) plot_env \<Rightarrow> 'b shard_alloc \<Rightarrow> (shard \<times> 'b shard_alloc) option" where
  "sa_allocate E al =
     (case bm_next (pe_bits E) (sa_free al) of
        None \<Rightarrow> None
      | Some i \<Rightarrow>
          Some (\<lparr>sh_buffer = sa_buffer al, sh_start = i * sa_chunk_size al, sh_end = (i + 1) * sa_chunk_size al\<rparr>,
                al\<lparr>sa_free := bm_remove (pe_bits E) i (sa_free al)\<rparr>))"

definition sa_dealloc :: "('b, 't) plot_env \<Rightarrow> shard \<Rightarrow> 'b shard_alloc \<Rightarrow> 'b shard_alloc option" where
  "sa_dealloc E s al =
     (if pe_debug E \<and> sa_buffer al \<noteq> sh_buffer s then None
      else if sa_chunk_size al = 0 then None
      else let i = sh_start s div sa_chunk_size al
           in Some (al\<lparr>sa_free := bm_insert (pe_bits E) (i mod 2 ^ 32) (sa_free al)\<rparr>))"

text \<open>What does not fit the shard is cut off.\<close>

definition write_buffer_shard :: "shard \<Rightarrow> byte list \<Rightarrow> gpu_write" where
  "write_buffer_shard s data = (sh_buffer s, sh_start s, take (sh_end s - sh_start s) data)"

definition f32_NAN :: f32_bits where "f32_NAN = 0x7FC00000"

definition with_nan_chunk ::
  "('b, 't) plot_env \<Rightarrow> nat \<Rightarrow> nat \<Rightarrow> nat \<Rightarrow> ('b shard_alloc \<times> gpu_write) option" where
  "with_nan_chunk E buffer chunks chunk_len =
     (case sa_allocate E (sa_new E buffer 4 (chunks + 1) chunk_len) of
        None \<Rightarrow> None
      | Some (s, al) \<Rightarrow> Some (al, write_buffer_shard s (u32_to_le f32_NAN)))"

section \<open>Shared buffers\<close>

record cell =
  ce_gpu :: "shard option"
  ce_dirty :: bool

text \<open>A fresh \<open>Arc\<close> is the next address.\<close>

definition fresh_cell :: "cell list \<Rightarrow> nat \<times> cell list" where
  "fresh_cell cells = (length cells, cells @ [\<lparr>ce_gpu = None, ce_dirty = True\<rparr>])"

definition sb_default :: "cell list \<Rightarrow> shared_buffer \<times> cell list" where
  "sb_default cells = (let (a, cells') = fresh_cell cells in (\<lparr>sb_cpu = [], sb_cell = a\<rparr>, cells'))"

definition set_dirty :: "bool \<Rightarrow> nat \<Rightarrow> cell list \<Rightarrow> cell list" where
  "set_dirty d a cells = cells[a := (cells ! a)\<lparr>ce_dirty := d\<rparr>]"

definition sb_push :: "shared_buffer \<Rightarrow> f32_bits \<Rightarrow> cell list \<Rightarrow> shared_buffer \<times> cell list" where
  "sb_push b v cells = (b\<lparr>sb_cpu := sb_cpu b @ [v]\<rparr>, set_dirty True (sb_cell b) cells)"

definition sb_queue_load ::
  "('b, 't) plot_env \<Rightarrow> shared_buffer \<Rightarrow> cell list \<Rightarrow> 'b shard_alloc
   \<Rightarrow> cell list \<times> 'b shard_alloc \<times> gpu_write list" where
  "sb_queue_load E b cells al =
     (let a = sb_cell b; c = cells ! a
      in if \<not> ce_dirty c then (cells, al, [])
         else case (case ce_gpu c of Some s \<Rightarrow> Some (s, al) | None \<Rightarrow> sa_allocate E al) of
                None \<Rightarrow> (cells, al, [])
              | Some (s, al') \<Rightarrow>
                  (cells[a := \<lparr>ce_gpu = Some s, ce_dirty = False\<rparr>], al',
                   [write_buffer_shard s (elems_to_le 4 (sb_cpu b))]))"

section \<open>Chunks\<close>

text \<open>Times are drawn as offsets from the earliest time.\<close>

definition time_float :: "('b, 't) plot_env \<Rightarrow> int \<Rightarrow> int \<Rightarrow> f32_bits option" where
  "time_float E earliest t = map_option (f32_of_int (pe_floats E)) (i64_op E (t - earliest))"

text \<open>The fold of \<open>from_iter\<close> over the values.\<close>

definition fold_bound :: "(f32_bits \<Rightarrow> f32_bits \<Rightarrow> f32_bits) \<Rightarrow> f32_bits list \<Rightarrow> f32_bits option" where
  "fold_bound f xs = fold (\<lambda>x acc. case acc of Some y \<Rightarrow> Some (f y x) | None \<Rightarrow> Some x) xs None"

fun sequence_some :: "'a option list \<Rightarrow> 'a list option" where
  "sequence_some [] = Some []"
| "sequence_some (None # xs) = None"
| "sequence_some (Some x # xs) = map_option ((#) x) (sequence_some xs)"

text \<open>The outer \<open>None\<close> is a panic, the inner one the chunk of no timestamps.\<close>

definition ch_from_iter ::
  "('b, 't) plot_env \<Rightarrow> int list \<Rightarrow> int \<Rightarrow> f32_bits list \<Rightarrow> cell list \<Rightarrow> (plot_chunk \<times> cell list) option option" where
  "ch_from_iter E timestamps earliest values cells =
     (let (a, cells1) = fresh_cell cells
      in if timestamps = [] then Some None
         else
           let summary = \<lparr>su_len = length timestamps, su_start = hd timestamps, su_end = last timestamps,
                          su_min = fold_bound (pe_min E) values, su_max = fold_bound (pe_max E) values\<rparr>
           in case sequence_some (map (time_float E earliest) timestamps) of
                None \<Rightarrow> None
              | Some floats \<Rightarrow>
                  let (b, cells2) = fresh_cell cells1
                  in Some (Some (\<lparr>ch_timestamps = timestamps,
                                  ch_times = \<lparr>sb_cpu = floats, sb_cell = b\<rparr>,
                                  ch_data = \<lparr>sb_cpu = values, sb_cell = a\<rparr>,
                                  ch_summary = summary\<rparr>, cells2)))"

definition ch_push ::
  "('b, 't) plot_env \<Rightarrow> int \<Rightarrow> int \<Rightarrow> f32_bits \<Rightarrow> plot_chunk \<Rightarrow> cell list \<Rightarrow> (plot_chunk \<times> cell list) option" where
  "ch_push E timestamp earliest value c cells =
     (case time_float E earliest timestamp of
        None \<Rightarrow> None
      | Some x \<Rightarrow>
          let (times, cells1) = sb_push (ch_times c) x cells;
              (data, cells2) = sb_push (ch_data c) value cells1;
              s = ch_summary c;
              least = (case su_min s of Some y \<Rightarrow> y | None \<Rightarrow> value);
              most = (case su_max s of Some y \<Rightarrow> y | None \<Rightarrow> value)
          in Some (\<lparr>ch_timestamps = ch_timestamps c @ [timestamp], ch_times = times, ch_data = data,
                    ch_summary = \<lparr>su_len = su_len s + 1, su_start = min (su_start s) timestamp,
                                  su_end = max (su_end s) timestamp,
                                  su_min = Some (pe_min E least value), su_max = Some (pe_max E most value)\<rparr>\<rparr>,
                   cells2))"

definition ch_from_initial_value ::
  "('b, 't) plot_env \<Rightarrow> int \<Rightarrow> int \<Rightarrow> f32_bits \<Rightarrow> cell list \<Rightarrow> (plot_chunk \<times> cell list) option" where
  "ch_from_initial_value E timestamp earliest value cells =
     (let (times, cells1) = sb_default cells; (data, cells2) = sb_default cells1
      in ch_push E timestamp earliest value
           \<lparr>ch_timestamps = [], ch_times = times, ch_data = data,
            ch_summary = \<lparr>su_len = 0, su_start = timestamp, su_end = timestamp,
                          su_min = Some value, su_max = Some value\<rparr>\<rparr> cells2)"

definition ch_queue_load ::
  "('b, 't) plot_env \<Rightarrow> plot_chunk \<Rightarrow> cell list \<Rightarrow> 'b shard_alloc \<Rightarrow> 'b shard_alloc
   \<Rightarrow> cell list \<times> 'b shard_alloc \<times> 'b shard_alloc \<times> gpu_write list" where
  "ch_queue_load E c cells data_alloc time_alloc =
     (let (cells1, time_alloc', w1) = sb_queue_load E (ch_times c) cells time_alloc;
          (cells2, data_alloc', w2) = sb_queue_load E (ch_data c) cells1 data_alloc
      in (cells2, data_alloc', time_alloc', w1 @ w2))"

definition su_default :: chunk_summary where
  "su_default = \<lparr>su_len = 0, su_start = 2 ^ 63 - 1, su_end = - (2 ^ 63), su_min = None, su_max = None\<rparr>"

fun join_bound :: "(f32_bits \<Rightarrow> f32_bits \<Rightarrow> f32_bits) \<Rightarrow> f32_bits option \<Rightarrow> f32_bits option \<Rightarrow> f32_bits option" where
  "join_bound f None None = None"
| "join_bound f None (Some m) = Some m"
| "join_bound f (Some m) None = Some m"
| "join_bound f (Some a) (Some b) = Some (f a b)"

definition add_summary :: "('b, 't) plot_env \<Rightarrow> chunk_summary \<Rightarrow> chunk_summary \<Rightarrow> chunk_summary" where
  "add_summary E s t =
     \<lparr>su_len = su_len s + su_len t, su_start = min (su_start s) (su_start t), su_end = max (su_end s) (su_end t),
      su_min = join_bound (pe_min E) (su_min s) (su_min t), su_max = join_bound (pe_max E) (su_max s) (su_max t)\<rparr>"

section \<open>Lines\<close>

record ('b, 't) line_tree =
  lt_tree :: 't
  lt_data_alloc :: "'b shard_alloc option"
  lt_time_alloc :: "'b shard_alloc option"
  lt_cells :: "cell list"
  lt_writes :: "gpu_write list"

definition lt_default :: "('b, 't) plot_env \<Rightarrow> ('b, 't) line_tree" where
  "lt_default E = \<lparr>lt_tree = nd_new (pe_tree E), lt_data_alloc = None, lt_time_alloc = None, lt_cells = [], lt_writes = []\<rparr>"

definition lt_range_iter :: "('b, 't) plot_env \<Rightarrow> int \<Rightarrow> int \<Rightarrow> ('b, 't) line_tree \<Rightarrow> plot_chunk list option" where
  "lt_range_iter E a b l =
     map_option (\<lambda>i. map snd (nd_overlapping (pe_tree E) i (lt_tree l))) (nd_ii (pe_tree E) a b)"

definition lt_insert :: "('b, 't) plot_env \<Rightarrow> plot_chunk \<Rightarrow> ('b, 't) line_tree \<Rightarrow> ('b, 't) line_tree option" where
  "lt_insert E c l =
     (case nd_ii (pe_tree E) (su_start (ch_summary c)) (su_end (ch_summary c)) of
        None \<Rightarrow> None
      | Some i \<Rightarrow> Some (l\<lparr>lt_tree := nd_insert_overwrite (pe_tree E) i c (lt_tree l)\<rparr>))"

definition lt_update_last ::
  "('b, 't) plot_env \<Rightarrow> (plot_chunk \<Rightarrow> cell list \<Rightarrow> (plot_chunk \<times> cell list) option) \<Rightarrow> ('b, 't) line_tree \<Rightarrow> ('b, 't) line_tree option" where
  "lt_update_last E f l =
     (case nd_last (pe_tree E) (lt_tree l) of
        None \<Rightarrow> Some l
      | Some (_, c) \<Rightarrow>
          (case f c (lt_cells l) of
             None \<Rightarrow> None
           | Some (c', cells) \<Rightarrow>
               lt_insert E c' (l\<lparr>lt_tree := nd_remove_last (pe_tree E) (lt_tree l), lt_cells := cells\<rparr>)))"

definition lt_last :: "('b, 't) plot_env \<Rightarrow> ('b, 't) line_tree \<Rightarrow> plot_chunk option" where
  "lt_last E l = map_option snd (nd_last (pe_tree E) (lt_tree l))"

definition lt_range_summary :: "('b, 't) plot_env \<Rightarrow> int \<Rightarrow> int \<Rightarrow> ('b, 't) line_tree \<Rightarrow> chunk_summary option" where
  "lt_range_summary E a b l =
     map_option (\<lambda>cs. fold (\<lambda>c s. add_summary E s (ch_summary c)) cs su_default) (lt_range_iter E a b l)"

definition lt_get_nearest ::
  "('b, 't) plot_env \<Rightarrow> int \<Rightarrow> ('b, 't) line_tree \<Rightarrow> (int \<times> f32_bits) option option" where
  "lt_get_nearest E timestamp l =
     (case nd_ii (pe_tree E) timestamp timestamp of
        None \<Rightarrow> None
      | Some i \<Rightarrow>
          (case nd_overlapping (pe_tree E) i (lt_tree l) of
             [] \<Rightarrow> Some None
           | (_, c) # _ \<Rightarrow>
               let index = (case binary_search (ch_timestamps c) timestamp of Inl i \<Rightarrow> i | Inr i \<Rightarrow> i - 1)
               in Some (case (get_index (ch_timestamps c) index, get_index (sb_cpu (ch_data c)) index) of
                          (Some t, Some v) \<Rightarrow> Some (t, v)
                        | _ \<Rightarrow> None)))"

text \<open>\<open>buffers\<close> are the two buffers the device creates when the line has none yet.\<close>

definition get_alloc ::
  "('b, 't) plot_env \<Rightarrow> nat \<Rightarrow> 'b shard_alloc option \<Rightarrow> ('b shard_alloc \<times> gpu_write list) option" where
  "get_alloc E buffer al =
     (case al of
        Some al' \<Rightarrow> Some (al', [])
      | None \<Rightarrow> map_option (\<lambda>(al', w). (al', [w])) (with_nan_chunk E buffer CHUNK_COUNT CHUNK_LEN))"

fun load_chunks ::
  "('b, 't) plot_env \<Rightarrow> plot_chunk list \<Rightarrow> cell list \<Rightarrow> 'b shard_alloc \<Rightarrow> 'b shard_alloc
   \<Rightarrow> cell list \<times> 'b shard_alloc \<times> 'b shard_alloc \<times> gpu_write list" where
  "load_chunks E [] cells da ta = (cells, da, ta, [])"
| "load_chunks E (c # cs) cells da ta =
     (let (cells1, da1, ta1, w1) = ch_queue_load E c cells da ta;
          (cells2, da2, ta2, w2) = load_chunks E cs cells1 da1 ta1
      in (cells2, da2, ta2, w1 @ w2))"

definition lt_queue_load_range ::
  "('b, 't) plot_env \<Rightarrow> nat \<times> nat \<Rightarrow> int \<Rightarrow> int \<Rightarrow> ('b, 't) line_tree \<Rightarrow> ('b, 't) line_tree option" where
  "lt_queue_load_range E buffers a b l =
     (case (get_alloc E (fst buffers) (lt_data_alloc l), get_alloc E (snd buffers) (lt_time_alloc l),
            lt_range_iter E a b l) of
        (Some (da, w1), Some (ta, w2), Some cs) \<Rightarrow>
          let (cells, da', ta', w3) = load_chunks E cs (lt_cells l) da ta
          in Some (l\<lparr>lt_data_alloc := Some da', lt_time_alloc := Some ta', lt_cells := cells,
                     lt_writes := lt_writes l @ w1 @ w2 @ w3\<rparr>)
      | _ \<Rightarrow> None)"

text \<open>
  What a plot does to one line: the body of the loop of \<open>push_value\<close>, for a sample that has just
  arrived, and of \<open>process_time_series\<close>, for the samples of a reply.
\<close>

definition lt_push_value ::
  "('b, 't) plot_env \<Rightarrow> int \<Rightarrow> int \<Rightarrow> f32_bits \<Rightarrow> ('b, 't) line_tree \<Rightarrow> ('b, 't) line_tree option" where
  "lt_push_value E timestamp earliest value l =
     (if (case lt_last E l of Some c \<Rightarrow> length (ch_timestamps c) < CHUNK_LEN | None \<Rightarrow> False)
      then lt_update_last E (ch_push E timestamp earliest value) l
      else (case ch_from_initial_value E timestamp earliest value (lt_cells l) of
              None \<Rightarrow> None
            | Some (c, cells) \<Rightarrow> lt_insert E c (l\<lparr>lt_cells := cells\<rparr>)))"

definition lt_add_series ::
  "('b, 't) plot_env \<Rightarrow> int list \<Rightarrow> int \<Rightarrow> f32_bits list \<Rightarrow> ('b, 't) line_tree \<Rightarrow> ('b, 't) line_tree option" where
  "lt_add_series E timestamps earliest values l =
     (case ch_from_iter E timestamps earliest values (lt_cells l) of
        None \<Rightarrow> None
      | Some None \<Rightarrow> Some l
      | Some (Some (c, cells)) \<Rightarrow> lt_insert E c (l\<lparr>lt_cells := cells\<rparr>))"

section \<open>Index buffers\<close>

definition INDEX_BUFFER_LEN :: nat where "INDEX_BUFFER_LEN = 1024 * 4"

record index_chunk =
  ic_start :: nat
  ic_end :: nat
  ic_len :: nat

definition as_index_chunk :: "nat \<Rightarrow> nat \<Rightarrow> shard \<Rightarrow> index_chunk" where
  "as_index_chunk elem len s =
     \<lparr>ic_start = (sh_start s div elem) mod 2 ^ 32, ic_end = (sh_end s div elem) mod 2 ^ 32, ic_len = len\<rparr>"

definition into_index_iter :: "index_chunk \<Rightarrow> nat list" where
  "into_index_iter ic = take (ic_len ic) [ic_start ic..<ic_end ic]"

text \<open>
  The chunk of a buffer; \<open>None\<close> is the failed assertion of a debug build, the inner \<open>None\<close> a
  chunk that has no shard.
\<close>

definition draw_index_chunk :: "('b, 't) plot_env \<Rightarrow> cell list \<Rightarrow> plot_chunk \<Rightarrow> index_chunk option option" where
  "draw_index_chunk E cells c =
     (case ce_gpu (cells ! sb_cell (ch_data c)) of
        None \<Rightarrow> Some None
      | Some s \<Rightarrow>
          let ic = as_index_chunk 4 (su_len (ch_summary c)) s
          in if pe_debug E
             then (case ce_gpu (cells ! sb_cell (ch_times c)) of
                     None \<Rightarrow> Some None
                   | Some t \<Rightarrow> if ic = as_index_chunk 4 (su_len (ch_summary c)) t then Some (Some ic) else None)
             else Some (Some ic))"

definition lt_draw_index_chunk_iter ::
  "('b, 't) plot_env \<Rightarrow> int \<Rightarrow> int \<Rightarrow> ('b, 't) line_tree \<Rightarrow> index_chunk list option" where
  "lt_draw_index_chunk_iter E a b l =
     (case lt_range_iter E a b l of
        None \<Rightarrow> None
      | Some cs \<Rightarrow> map_option (\<lambda>ics. map the (filter (\<lambda>x. x \<noteq> None) ics))
                     (sequence_some (map (draw_index_chunk E (lt_cells l)) cs)))"

definition lt_draw_index_count :: "('b, 't) plot_env \<Rightarrow> int \<Rightarrow> int \<Rightarrow> ('b, 't) line_tree \<Rightarrow> (nat \<times> nat) option" where
  "lt_draw_index_count E a b l =
     map_option (\<lambda>ics. (length ics, sum_list (map (\<lambda>ic. length (into_index_iter ic) + 6) ics)))
       (lt_draw_index_chunk_iter E a b l)"

text \<open>The view of the index buffer: the indices written so far and the bytes left.\<close>

type_synonym index_view = "nat list \<times> nat"

fun append_u32 :: "nat \<Rightarrow> index_view \<Rightarrow> index_view" where
  "append_u32 v (xs, left) = (if left < 4 then (xs, left) else (xs @ [v], left - 4))"

text \<open>The entries of one chunk; the view and the count go along.\<close>

definition write_chunk :: "nat \<Rightarrow> index_chunk \<Rightarrow> index_view \<times> nat \<Rightarrow> index_view \<times> nat" where
  "write_chunk step ic st =
     (let (view, count) = st;
          view0 = append_u32 0 view;
          ids = into_index_iter ic;
          (view1, count1) = (case ids of [] \<Rightarrow> (view0, count) | x # _ \<Rightarrow> (append_u32 x view0, count + 1));
          rest = step_by step (tl ids);
          (view2, count2) = (fold append_u32 rest view1, count1 + length rest);
          (view3, count3) = (case ids of [] \<Rightarrow> (view2, count2) | _ \<Rightarrow> (append_u32 (last ids) view2, count2 + 1))
      in (append_u32 0 view3, count3 + 2))"

definition lt_write_to_index_buffer ::
  "('b, 't) plot_env \<Rightarrow> int \<Rightarrow> int \<Rightarrow> nat \<Rightarrow> ('b, 't) line_tree \<Rightarrow> (nat list \<times> nat) option" where
  "lt_write_to_index_buffer E a b pixel_width l =
     (case (lt_draw_index_count E a b l, usize_mul E pixel_width 4) of
        (Some (chunk_count, index_count), Some px) \<Rightarrow>
          let desired = min INDEX_BUFFER_LEN px
          in (case usize_sub E desired (6 * chunk_count) of
                None \<Rightarrow> None
              | Some d \<Rightarrow>
                  (case (div_ceil index_count d, div_ceil (chunk_count * 6) desired, lt_draw_index_chunk_iter E a b l) of
                     (Some q, Some r, Some ics) \<Rightarrow>
                       let ((xs, left), count) =
                             fold (write_chunk (max q 1)) (step_by (max r 1) ics) (([], INDEX_BUFFER_LEN * 4), 0)
                       in Some (xs, count)
                   | _ \<Rightarrow> None))
      | _ \<Rightarrow> None)"

section \<open>Giving shards back\<close>

definition free_cell ::
  "('b, 't) plot_env \<Rightarrow> nat \<Rightarrow> cell list \<Rightarrow> 'b shard_alloc option \<Rightarrow> (cell list \<times> 'b shard_alloc option) option" where
  "free_cell E a cells al =
     (case (al, ce_gpu (cells ! a)) of
        (Some al', Some s) \<Rightarrow>
          map_option (\<lambda>al''. (cells[a := \<lparr>ce_gpu = None, ce_dirty = True\<rparr>], Some al'')) (sa_dealloc E s al')
      | _ \<Rightarrow> Some (cells, al))"

definition collect_chunk ::
  "('b, 't) plot_env \<Rightarrow> plot_chunk \<Rightarrow> ('b, 't) line_tree \<Rightarrow> ('b, 't) line_tree option" where
  "collect_chunk E c l =
     (case free_cell E (sb_cell (ch_data c)) (lt_cells l) (lt_data_alloc l) of
        None \<Rightarrow> None
      | Some (cells1, da) \<Rightarrow>
          (case free_cell E (sb_cell (ch_times c)) cells1 (lt_time_alloc l) of
             None \<Rightarrow> None
           | Some (cells2, ta) \<Rightarrow> Some (l\<lparr>lt_cells := cells2, lt_data_alloc := da, lt_time_alloc := ta\<rparr>)))"

text \<open>A chunk with an end in the range \<open>a..b\<close> is kept.\<close>

fun collect_chunks ::
  "('b, 't) plot_env \<Rightarrow> int \<Rightarrow> int \<Rightarrow> (interval \<times> plot_chunk) list \<Rightarrow> ('b, 't) line_tree \<Rightarrow> ('b, 't) line_tree option" where
  "collect_chunks E a b [] l = Some l"
| "collect_chunks E a b (((lo, hi), c) # es) l =
     (if a \<le> lo \<and> lo < b \<or> a \<le> hi \<and> hi < b then collect_chunks E a b es l
      else case collect_chunk E c l of None \<Rightarrow> None | Some l' \<Rightarrow> collect_chunks E a b es l')"

definition lt_garbage_collect ::
  "('b, 't) plot_env \<Rightarrow> int \<Rightarrow> int \<Rightarrow> ('b, 't) line_tree \<Rightarrow> ('b, 't) line_tree option" where
  "lt_garbage_collect E a b l =
     (case (i64_op E (a - 1), i64_op E (b + 1)) of
        (Some a', Some b') \<Rightarrow>
          (case (nd_ee (pe_tree E) (- (2 ^ 63)) a', nd_ee (pe_tree E) b' (2 ^ 63 - 1)) of
             (Some i, Some j) \<Rightarrow>
               collect_chunks E a b
                 (nd_overlapping (pe_tree E) i (lt_tree l) @ nd_overlapping (pe_tree E) j (lt_tree l)) l
           | _ \<Rightarrow> None)
      | _ \<Rightarrow> None)"

section \<open>Lines of a phase plot\<close>

text \<open>Their buffers are never cloned; they keep their cells in a store of the line all the same.\<close>

record 'b xy_line =
  xy_x_alloc :: "'b shard_alloc option"
  xy_y_alloc :: "'b shard_alloc option"
  xy_x_values :: "shared_buffer list"
  xy_y_values :: "shared_buffer list"
  xy_cells :: "cell list"
  xy_writes :: "gpu_write list"

fun load_buffers ::
  "('b, 't) plot_env \<Rightarrow> shared_buffer list \<Rightarrow> cell list \<Rightarrow> 'b shard_alloc \<Rightarrow> cell list \<times> 'b shard_alloc \<times> gpu_write list" where
  "load_buffers E [] cells al = (cells, al, [])"
| "load_buffers E (b # bs) cells al =
     (let (cells1, al1, w1) = sb_queue_load E b cells al; (cells2, al2, w2) = load_buffers E bs cells1 al1
      in (cells2, al2, w1 @ w2))"

definition xy_queue_load :: "('b, 't) plot_env \<Rightarrow> nat \<times> nat \<Rightarrow> 'b xy_line \<Rightarrow> 'b xy_line option" where
  "xy_queue_load E buffers l =
     (case (get_alloc E (fst buffers) (xy_x_alloc l), get_alloc E (snd buffers) (xy_y_alloc l)) of
        (Some (xa, w1), Some (ya, w2)) \<Rightarrow>
          let (cells1, xa', w3) = load_buffers E (xy_x_values l) (xy_cells l) xa;
              (cells2, ya', w4) = load_buffers E (xy_y_values l) cells1 ya
          in Some (l\<lparr>xy_x_alloc := Some xa', xy_y_alloc := Some ya', xy_cells := cells2,
                     xy_writes := xy_writes l @ w1 @ w2 @ w3 @ w4\<rparr>)
      | _ \<Rightarrow> None)"

text \<open>A buffer without a shard ends the loop with the count 0.\<close>

fun xy_write_loop :: "cell list \<Rightarrow> shared_buffer list \<Rightarrow> index_view \<Rightarrow> nat \<Rightarrow> nat list \<times> nat" where
  "xy_write_loop cells [] view count = (fst view, count)"
| "xy_write_loop cells (b # bs) view count =
     (case ce_gpu (cells ! sb_cell b) of
        None \<Rightarrow> (fst view, 0)
      | Some s \<Rightarrow>
          xy_write_loop cells bs (fold append_u32 (into_index_iter (as_index_chunk 4 (length (sb_cpu b)) s)) view)
            (count + length (sb_cpu b)))"

definition xy_write_to_index_buffer :: "'b xy_line \<Rightarrow> nat list \<times> nat" where
  "xy_write_to_index_buffer l = xy_write_loop (xy_cells l) (xy_x_values l) ([], INDEX_BUFFER_LEN * 4) 0"

definition push_values :: "f32_bits \<Rightarrow> shared_buffer list \<Rightarrow> cell list \<Rightarrow> shared_buffer list \<times> cell list" where
  "push_values v bs cells =
     (if bs \<noteq> [] \<and> length (sb_cpu (last bs)) < CHUNK_LEN
      then (let (b, cells') = sb_push (last bs) v cells in (butlast bs @ [b], cells'))
      else (let (b, cells1) = sb_default cells; (b', cells2) = sb_push b v cells1 in (bs @ [b'], cells2)))"

definition xy_push_x_value :: "f32_bits \<Rightarrow> 'b xy_line \<Rightarrow> 'b xy_line" where
  "xy_push_x_value v l = (let (bs, cells) = push_values v (xy_x_values l) (xy_cells l)
                          in l\<lparr>xy_x_values := bs, xy_cells := cells\<rparr>)"

definition xy_push_y_value :: "f32_bits \<Rightarrow> 'b xy_line \<Rightarrow> 'b xy_line" where
  "xy_push_y_value v l = (let (bs, cells) = push_values v (xy_y_values l) (xy_cells l)
                          in l\<lparr>xy_y_values := bs, xy_cells := cells\<rparr>)"

end
