(* ===== verification/PlotRequests.thy ===== *)
theory PlotRequests
  imports PlotBuffers Handlers
begin

text \<open>
  How a plot gets its samples (\<open>libs/metor-ui/src/ui/plot/data.rs\<close>): live values from the packets
  of a stream, past ones by requests for the gaps of its lines, each reply of which may ask for
  what follows.  Lines are assets of the engine: a handle is an index of the list of assets.
  The engine's entities, the clock (milliseconds), random identifiers and the outcomes of
  sending are parameters; the times of one call are all \<open>now\<close>.
\<close>

section \<open>Components of a plot\<close>

datatype request_state = Requested nat | Returned nat "int option"

record ('b, 't) plot_line =
  li_label :: string
  li_data :: "('b, 't) line_tree"
  li_last_queried :: "nat option"

text \<open>\<open>lines\<close> is a \<open>BTreeMap\<close>, kept in the order of its keys.\<close>

record plot_component =
  pc_label :: string
  pc_element_names :: "string list"
  pc_lines :: "(nat \<times> nat) list"
  pc_requests :: "int \<Rightarrow> request_state option"
  pc_started :: bool

definition plot_component_new :: "string \<Rightarrow> string list \<Rightarrow> plot_component" where
  "plot_component_new label names = \<lparr>pc_label = label, pc_element_names = names, pc_lines = [], pc_requests = Map.empty, pc_started = False\<rparr>"

type_synonym ('b, 't) assets = "('b, 't) plot_line list"

definition bracket_label :: "nat \<Rightarrow> string" where
  "bracket_label i = ''['' @ decimal i @ '']''"

text \<open>\<open>entry(i).or_insert_with\<close>, adding an asset.\<close>

definition line_entry ::
  "('b, 't) plot_env \<Rightarrow> nat \<Rightarrow> string \<Rightarrow> plot_component \<times> ('b, 't) assets \<Rightarrow> nat \<times> plot_component \<times> ('b, 't) assets" where
  "line_entry E i label st =
     (let (c, assets) = st
      in case map_of (pc_lines c) i of
           Some h \<Rightarrow> (h, c, assets)
         | None \<Rightarrow>
             (length assets, c\<lparr>pc_lines := insort_key fst (i, length assets) (pc_lines c)\<rparr>,
              assets @ [\<lparr>li_label = label, li_data = lt_default E, li_last_queried = None\<rparr>]))"

definition as_f32 :: "('b, 't) plot_env \<Rightarrow> element_value \<Rightarrow> f32_bits" where
  "as_f32 E x = num_to_f32 (pe_floats E) (elem_number x)"

text \<open>The values of a sample, one for each line; a name stands for a label while there are names.\<close>

fun push_elements ::
  "('b, 't) plot_env \<Rightarrow> int \<Rightarrow> int \<Rightarrow> nat \<Rightarrow> element_value list \<Rightarrow> string list \<Rightarrow> plot_component \<times> ('b, 't) assets
   \<Rightarrow> (plot_component \<times> ('b, 't) assets) option" where
  "push_elements E timestamp earliest i [] names st = Some st"
| "push_elements E timestamp earliest i (x # xs) names st =
     (let label = (case names of n # _ \<Rightarrow> n | [] \<Rightarrow> bracket_label i);
          (h, c, assets) = line_entry E i label st
      in if length assets \<le> h then None
         else case lt_push_value E timestamp earliest (as_f32 E x) (li_data (assets ! h)) of
                None \<Rightarrow> None
              | Some d \<Rightarrow>
                  push_elements E timestamp earliest (i + 1) xs (drop 1 names)
                    (c, assets[h := (assets ! h)\<lparr>li_data := d\<rparr>]))"

definition pc_push_value ::
  "('b, 't) plot_env \<Rightarrow> component_view \<Rightarrow> int \<Rightarrow> int \<Rightarrow> plot_component \<times> ('b, 't) assets
   \<Rightarrow> (plot_component \<times> ('b, 't) assets) option" where
  "pc_push_value E view timestamp earliest st =
     push_elements E timestamp earliest 0 (cv_iter view) (filter (\<lambda>n. n \<noteq> []) (pc_element_names (fst st))) st"

text \<open>The components collected for graphs.\<close>

type_synonym ('b, 't) graph_data = "(u64 \<Rightarrow> plot_component option) \<times> ('b, 't) assets"

definition graph_line :: "('b, 't) graph_data \<Rightarrow> u64 \<Rightarrow> nat \<Rightarrow> nat option" where
  "graph_line g cid i = Option.bind (fst g cid) (\<lambda>c. map_of (pc_lines c) i)"

text \<open>
  A packet of a stream.  The current time is sunk into a copy, so of the two applications of
  the table only the one to the graphs has an effect; errors are logged.
\<close>

definition graph_sink ::
  "('b, 't) plot_env \<Rightarrow> int \<Rightarrow> ('b, 't) graph_data \<Rightarrow> u64 \<Rightarrow> component_view \<Rightarrow> int option
   \<Rightarrow> ((unit + unit) \<times> ('b, 't) graph_data) option" where
  "graph_sink E earliest g cid view timestamp =
     (case (fst g cid, timestamp) of
        (Some c, Some t) \<Rightarrow>
          map_option (\<lambda>(c', assets). (Inr (), (fst g)(cid \<mapsto> c'), assets)) (pc_push_value E view t earliest (c, snd g))
      | _ \<Rightarrow> Some (Inr (), g))"

definition plot_pkt_handler ::
  "('b, 't) plot_env \<Rightarrow> caster \<Rightarrow> nat \<Rightarrow> (packet_id \<Rightarrow> vtable option) \<Rightarrow> packet_id \<Rightarrow> int \<Rightarrow> owned_packet
   \<Rightarrow> ('b, 't) graph_data \<Rightarrow> ('b, 't) graph_data option" where
  "plot_pkt_handler E zc base registry current earliest pkt g =
     (case pkt of
        PktTable t \<Rightarrow>
          if ot_id t = current then Some g
          else map_option snd (table_sink zc base registry t (graph_sink E earliest) g)
      | _ \<Rightarrow> Some g)"

section \<open>Replies\<close>

text \<open>\<open>skip(i).step_by(len)\<close>; there is no step when \<open>len\<close> is 0.\<close>

definition lane :: "nat \<Rightarrow> nat \<Rightarrow> 'a list \<Rightarrow> 'a list" where
  "lane i len xs = step_by len (drop i xs)"

fun process_lanes ::
  "('b, 't) plot_env \<Rightarrow> int list \<Rightarrow> int \<Rightarrow> nat \<Rightarrow> f32_bits list \<Rightarrow> nat list \<Rightarrow> plot_component \<times> ('b, 't) assets
   \<Rightarrow> (plot_component \<times> ('b, 't) assets) option" where
  "process_lanes E tms earliest len data [] st = Some st"
| "process_lanes E tms earliest len data (i # is) st =
     (let (h, c, assets) = line_entry E i (bracket_label i) st
      in if length assets \<le> h then process_lanes E tms earliest len data is (c, assets)
         else case lt_add_series E tms earliest (lane i len data) (li_data (assets ! h)) of
                None \<Rightarrow> None
              | Some d \<Rightarrow>
                  process_lanes E tms earliest len data is (c, assets[h := (assets ! h)\<lparr>li_data := d\<rparr>]))"

definition process_time_series ::
  "('b, 't) plot_env \<Rightarrow> caster \<Rightarrow> prim_type \<Rightarrow> aslice \<Rightarrow> int list \<Rightarrow> nat \<Rightarrow> int \<Rightarrow> plot_component \<times> ('b, 't) assets
   \<Rightarrow> (plot_component \<times> ('b, 't) assets) option" where
  "process_time_series E zc ty buf tms len earliest st =
     (let n = length (snd buf) div prim_size ty
      in case zc (if ty = Bool then ElemsOf 1 1 n True else SliceOf (prim_size ty) (alignment ty)) buf of
           Some _ \<Rightarrow> Some st
         | None \<Rightarrow>
             process_lanes E tms earliest len (map (as_f32 E) (cv_iter (view_of ty n (snd buf) [n]))) [0..<len] st)"

record series_request =
  rq_id :: packet_id
  rq_start :: int
  rq_end :: int
  rq_component :: u64
  rq_limit :: "nat option"

text \<open>\<open>fold(1, |xs, &x| x * xs)\<close>.\<close>

fun usize_product :: "('b, 't) plot_env \<Rightarrow> nat list \<Rightarrow> nat \<Rightarrow> nat option" where
  "usize_product E [] acc = Some acc"
| "usize_product E (x # xs) acc = (case usize_mul E x acc of None \<Rightarrow> None | Some y \<Rightarrow> usize_product E xs y)"

definition next_range ::
  "('b, 't) plot_env \<Rightarrow> int \<Rightarrow> int \<Rightarrow> plot_component \<Rightarrow> ('b, 't) assets \<Rightarrow> (int \<times> int) option" where
  "next_range E a b c assets =
     (case pc_lines c of
        [] \<Rightarrow> Some (a, b)
      | (_, h) # _ \<Rightarrow>
          if length assets \<le> h then Some (a, b)
          else case lt_range_iter E a b (li_data (assets ! h)) of
                 None \<Rightarrow> None
               | Some [] \<Rightarrow> Some (a, b)
               | Some (ch # _) \<Rightarrow> Some (if su_start (ch_summary ch) \<le> a then su_end (ch_summary ch) else a, b))"

text \<open>
  The range asked for after a reply with these times, when the reply was full and ended before
  the range did.
\<close>

definition follow_up ::
  "('b, 't) plot_env \<Rightarrow> packet_id \<Rightarrow> u64 \<Rightarrow> int \<Rightarrow> int \<Rightarrow> int list \<Rightarrow> plot_component \<Rightarrow> ('b, 't) assets
   \<Rightarrow> series_request option option" where
  "follow_up E pid cid a b tms c assets =
     (if tms = [] \<or> b \<le> last tms \<or> length tms < CHUNK_LEN then Some None
      else map_option (\<lambda>(a', b'). Some \<lparr>rq_id = pid, rq_start = a', rq_end = b', rq_component = cid, rq_limit = Some CHUNK_LEN\<rparr>)
             (next_range E (last tms) b c assets))"

text \<open>
  \<open>value\<close> is the shape and type of the entity's current value, \<open>schemas\<close> the registry of schemas.
\<close>

definition handle_time_series ::
  "('b, 't) plot_env \<Rightarrow> caster \<Rightarrow> (nat list \<times> prim_type) option \<Rightarrow> (u64 \<Rightarrow> schema option) \<Rightarrow> packet_id \<Rightarrow> int
   \<Rightarrow> int \<Rightarrow> int \<Rightarrow> u64 \<Rightarrow> owned_packet \<Rightarrow> ('b, 't) graph_data \<Rightarrow> (('b, 't) graph_data \<times> series_request option) option" where
  "handle_time_series E zc value schemas pid earliest a b cid pkt g =
     (case pkt of
        PktTimeSeries s \<Rightarrow>
          (case (case value of Some v \<Rightarrow> Some v
                 | None \<Rightarrow> map_option (\<lambda>sc. (sc_shape sc, sc_prim_type sc)) (schemas cid)) of
             None \<Rightarrow> Some (g, None)
           | Some (shape, ty) \<Rightarrow>
               (case usize_product E shape 1 of
                  None \<Rightarrow> None
                | Some len \<Rightarrow>
                    (case series_timestamps zc s of
                       None \<Rightarrow> None
                     | Some (Inl _) \<Rightarrow> Some (g, None)
                     | Some (Inr tms) \<Rightarrow>
                         (case (series_data s, fst g cid) of
                            (Inr buf, Some c) \<Rightarrow>
                              (let c1 = c\<lparr>pc_requests := (pc_requests c)(a \<mapsto> Returned (length tms)
                                     (if tms = [] then None else Some (last tms)))\<rparr>
                               in case process_time_series E zc ty buf tms len earliest (c1, snd g) of
                                    None \<Rightarrow> None
                                  | Some (c2, assets) \<Rightarrow>
                                      map_option (\<lambda>r. (((fst g)(cid \<mapsto> c2), assets), r))
                                        (follow_up E pid cid a b tms c2 assets))
                          | _ \<Rightarrow> Some (g, None)))))
      | _ \<Rightarrow> Some (g, None))"

section \<open>Requests\<close>

text \<open>Whether the range that starts at \<open>a\<close> is asked for.\<close>

definition wants_range :: "nat \<Rightarrow> int \<Rightarrow> request_state option \<Rightarrow> bool" where
  "wants_range now sel_end st \<longleftrightarrow>
     (case st of
        Some (Requested t) \<Rightarrow> 10000 < now - t
      | Some (Returned len last_timestamp) \<Rightarrow>
          len < CHUNK_LEN \<and> (case last_timestamp of Some t \<Rightarrow> t < sel_end | None \<Rightarrow> False)
      | None \<Rightarrow> True)"

definition process_range ::
  "nat \<Rightarrow> int \<Rightarrow> packet_id \<Rightarrow> u64 \<Rightarrow> int \<times> int \<Rightarrow> plot_component \<Rightarrow> plot_component \<times> series_request list" where
  "process_range now sel_end pid cid r c =
     (if wants_range now sel_end (pc_requests c (fst r))
      then (c\<lparr>pc_requests := (pc_requests c)(fst r \<mapsto> Requested now)\<rparr>,
            [\<lparr>rq_id = pid, rq_start = fst r, rq_end = snd r, rq_component = cid, rq_limit = Some CHUNK_LEN\<rparr>])
      else (c, []))"

fun process_ranges ::
  "nat \<Rightarrow> int \<Rightarrow> (nat \<Rightarrow> packet_id) \<Rightarrow> u64 \<Rightarrow> (int \<times> int) list \<Rightarrow> plot_component \<Rightarrow> plot_component \<times> series_request list" where
  "process_ranges now sel_end pids cid [] c = (c, [])"
| "process_ranges now sel_end pids cid (r # rs) c =
     (let (c1, q1) = process_range now sel_end (pids 0) cid r c;
          (c2, q2) = process_ranges now sel_end (\<lambda>n. pids (n + 1)) cid rs c1
      in (c2, q1 @ q2))"

text \<open>The time of a sample in the first eight bytes of the table, its value behind it.\<close>

definition plot_vtable :: "u64 \<Rightarrow> schema \<Rightarrow> vtable" where
  "plot_vtable cid s =
     (let time = b_raw_table 0 0 8;
          fld = b_raw_field 8 (of_nat (schema_size s))
            (b_timestamp 6 time (b_schema 3 4 5 (sc_prim_type s) (map of_nat (sc_shape s)) (b_component 1 2 cid)))
      in build_vtable [fld])"

definition start_real_time :: "packet_id \<Rightarrow> u64 \<Rightarrow> schema \<Rightarrow> 'm request list" where
  "start_real_time pid cid s = [VTableMsg pid (plot_vtable cid s), VTableStreamMsg pid]"

text \<open>\<open>oks\<close> are the outcomes of \<open>try_send\<close>; a failure ends the system.\<close>

fun send_all :: "'m request list \<Rightarrow> bool list \<Rightarrow> 'm request list \<times> bool list \<times> bool" where
  "send_all [] oks = ([], oks, True)"
| "send_all (m # ms) oks =
     (case oks of
        True # rest \<Rightarrow> (let (sent, rest', ok) = send_all ms rest in (m # sent, rest', ok))
      | _ \<Rightarrow> ([], drop 1 oks, False))"

text \<open>The ranges of a component: the gaps of its first line, or all of the selected range.\<close>

definition query_ranges ::
  "('b, 't) plot_env \<Rightarrow> nat \<Rightarrow> int \<Rightarrow> int \<Rightarrow> plot_component \<Rightarrow> ('b, 't) assets
   \<Rightarrow> ((int \<times> int) list \<times> ('b, 't) assets) option" where
  "query_ranges E now a b c assets =
     (case pc_lines c of
        (_, h) # _ \<Rightarrow>
          if length assets \<le> h then Some ([(a, b)], assets)
          else if (case li_last_queried (assets ! h) of Some t \<Rightarrow> now - t \<le> 250 | None \<Rightarrow> False) then Some ([], assets)
          else map_option
                 (\<lambda>i. (nd_gaps_trimmed (pe_tree E) i (lt_tree (li_data (assets ! h))),
                       assets[h := (assets ! h)\<lparr>li_last_queried := Some now\<rparr>]))
                 (nd_ie (pe_tree E) a b)
      | [] \<Rightarrow> Some ([(a, b)], assets))"

text \<open>The live stream of a component is asked for once its schema is known.\<close>

definition start_component ::
  "(u64 \<Rightarrow> schema option) \<Rightarrow> packet_id \<Rightarrow> bool list \<Rightarrow> u64 \<Rightarrow> plot_component
   \<Rightarrow> 'm request list \<times> bool list \<times> bool \<times> plot_component" where
  "start_component schemas stream_id oks cid c =
     (case (pc_started c, schemas cid) of
        (False, Some s) \<Rightarrow>
          (let (sent, oks', ok) = send_all (start_real_time stream_id cid s) oks
           in (sent, oks', ok, if ok then c\<lparr>pc_started := True\<rparr> else c))
      | _ \<Rightarrow> ([], oks, True, c))"

text \<open>
  One round over the components, in the order of their keys: the components and lines after it,
  the messages sent and the requests made.  A send that fails stops the round.
\<close>

fun queue_components ::
  "('b, 't) plot_env \<Rightarrow> nat \<Rightarrow> (u64 \<Rightarrow> schema option) \<Rightarrow> (u64 \<Rightarrow> packet_id) \<Rightarrow> (u64 \<Rightarrow> nat \<Rightarrow> packet_id) \<Rightarrow> int \<Rightarrow> int
   \<Rightarrow> bool list \<Rightarrow> (u64 \<times> plot_component) list \<Rightarrow> ('b, 't) assets
   \<Rightarrow> ((u64 \<times> plot_component) list \<times> ('b, 't) assets \<times> 'm request list \<times> series_request list) option" where
  "queue_components E now schemas stream_ids pids a b oks [] assets = Some ([], assets, [], [])"
| "queue_components E now schemas stream_ids pids a b oks ((cid, c) # cs) assets =
     (let (sent, oks', go, c1) = start_component schemas (stream_ids cid) oks cid c
      in if \<not> go then Some ((cid, c1) # cs, assets, sent, [])
         else case query_ranges E now a b c1 assets of
                None \<Rightarrow> None
              | Some (ranges, assets1) \<Rightarrow>
                  (let (c2, qs) = process_ranges now b (pids cid) cid ranges c1
                   in map_option (\<lambda>(cs', assets', sent', qs'). ((cid, c2) # cs', assets', sent @ sent', qs @ qs'))
                        (queue_components E now schemas stream_ids pids a b oks' cs assets1)))"

definition queue_timestamp_read ::
  "('b, 't) plot_env \<Rightarrow> nat \<Rightarrow> (u64 \<Rightarrow> schema option) \<Rightarrow> (u64 \<Rightarrow> packet_id) \<Rightarrow> (u64 \<Rightarrow> nat \<Rightarrow> packet_id) \<Rightarrow> int \<Rightarrow> int
   \<Rightarrow> bool list \<Rightarrow> (u64 \<times> plot_component) list \<Rightarrow> ('b, 't) assets
   \<Rightarrow> ((u64 \<times> plot_component) list \<times> ('b, 't) assets \<times> 'm request list \<times> series_request list) option" where
  "queue_timestamp_read E now schemas stream_ids pids a b oks cs assets =
     (if b = - (2 ^ 63) \<or> a = 2 ^ 63 - 1 then Some (cs, assets, [], [])
      else queue_components E now schemas stream_ids pids a b oks cs assets)"

section \<open>Collecting garbage\<close>

text \<open>The lines of the components, when the range they show has changed.\<close>

fun collect_lines :: "('b, 't) plot_env \<Rightarrow> int \<Rightarrow> int \<Rightarrow> nat list \<Rightarrow> ('b, 't) assets \<Rightarrow> ('b, 't) assets option" where
  "collect_lines E a b [] assets = Some assets"
| "collect_lines E a b (h # hs) assets =
     (if length assets \<le> h then collect_lines E a b hs assets
      else case lt_garbage_collect E a b (li_data (assets ! h)) of
             None \<Rightarrow> None
           | Some d \<Rightarrow> collect_lines E a b hs (assets[h := (assets ! h)\<lparr>li_data := d\<rparr>]))"

definition collect_garbage ::
  "('b, 't) plot_env \<Rightarrow> bool \<Rightarrow> int \<Rightarrow> int \<Rightarrow> (u64 \<times> plot_component) list \<Rightarrow> ('b, 't) assets \<Rightarrow> ('b, 't) assets option" where
  "collect_garbage E changed a b cs assets =
     (if changed then collect_lines E a b (concat (map (\<lambda>(_, c). map snd (pc_lines c)) cs)) assets else Some assets)"

end
