(* ===== verification/PlotBuffersCorrect.thy ===== *)
theory PlotBuffersCorrect
  imports PlotBuffers
begin

text \<open>
  What a plot draws.  The documented behaviour of the external bitmap and interval map, the
  contents of the device's buffers after the queued writes, and the invariant of a line: every
  chunk has the same shard number in both buffers, no two chunks share one, and the shard of a
  clean chunk holds its samples.  From it: every index that reaches the index buffer reads a
  sample of a visible chunk, or the gap that separates chunks.
\<close>

section \<open>The external data structures\<close>

definition bitmap_ok :: "'b bitmap_lib \<Rightarrow> bool" where
  "bitmap_ok B \<longleftrightarrow>
     (\<forall>j. \<not> bm_contains B (bm_new B) j) \<and>
     (\<forall>i s j. bm_contains B (bm_insert B i s) j \<longleftrightarrow> j = i \<or> bm_contains B s j) \<and>
     (\<forall>i s j. bm_contains B (bm_remove B i s) j \<longleftrightarrow> j \<noteq> i \<and> bm_contains B s j) \<and>
     (\<forall>s. bm_next B s = None \<longrightarrow> (\<forall>j. \<not> bm_contains B s j)) \<and>
     (\<forall>s i. bm_next B s = Some i \<longrightarrow> bm_contains B s i \<and> (\<forall>j. bm_contains B s j \<longrightarrow> i \<le> j))"

text \<open>What an insertion leaves of an entry.\<close>

fun cut :: "interval \<Rightarrow> interval \<times> plot_chunk \<Rightarrow> (interval \<times> plot_chunk) list" where
  "cut (a, b) ((lo, hi), c) =
     (if lo < a then [((lo, min hi (a - 1)), c)] else []) @ (if b < hi then [((max lo (b + 1), hi), c)] else [])"

text \<open>\<open>I\<close> is the invariant of the map.\<close>

definition sorted_law :: "'t nodit_lib \<Rightarrow> ('t \<Rightarrow> bool) \<Rightarrow> bool" where
  "sorted_law N I \<longleftrightarrow>
     (\<forall>t. I t \<longrightarrow> sorted_wrt (\<lambda>e f. snd (fst e) < fst (fst f)) (nd_iter N t) \<and>
                  (\<forall>e \<in> set (nd_iter N t). fst (fst e) \<le> snd (fst e)))"

definition insert_law :: "'t nodit_lib \<Rightarrow> ('t \<Rightarrow> bool) \<Rightarrow> bool" where
  "insert_law N I \<longleftrightarrow>
     (\<forall>t a b c. I t \<longrightarrow> a \<le> b \<longrightarrow> I (nd_insert_overwrite N (a, b) c t) \<and>
        set (nd_iter N (nd_insert_overwrite N (a, b) c t)) =
          insert ((a, b), c) (\<Union>e \<in> set (nd_iter N t). set (cut (a, b) e)))"

definition overlap_law :: "'t nodit_lib \<Rightarrow> ('t \<Rightarrow> bool) \<Rightarrow> bool" where
  "overlap_law N I \<longleftrightarrow>
     (\<forall>t i. I t \<longrightarrow> nd_overlapping N i t = filter (\<lambda>((lo, hi), c). lo \<le> snd i \<and> fst i \<le> hi) (nd_iter N t))"

definition last_law :: "'t nodit_lib \<Rightarrow> ('t \<Rightarrow> bool) \<Rightarrow> bool" where
  "last_law N I \<longleftrightarrow>
     (\<forall>t. I t \<longrightarrow> nd_last N t = (if nd_iter N t = [] then None else Some (last (nd_iter N t))) \<and>
                  I (nd_remove_last N t) \<and> nd_iter N (nd_remove_last N t) = butlast (nd_iter N t))"

definition nodit_ok :: "'t nodit_lib \<Rightarrow> ('t \<Rightarrow> bool) \<Rightarrow> bool" where
  "nodit_ok N I \<longleftrightarrow>
     (\<forall>a b. nd_ii N a b = (if a \<le> b then Some (a, b) else None)) \<and>
     I (nd_new N) \<and> nd_iter N (nd_new N) = [] \<and>
     sorted_law N I \<and> insert_law N I \<and> overlap_law N I \<and> last_law N I"

lemma nodit_basic:
  assumes "nodit_ok N I"
  shows "nd_ii N a b = (if a \<le> b then Some (a, b) else None)" "I (nd_new N)" "nd_iter N (nd_new N) = []"
    and "sorted_law N I" "insert_law N I" "overlap_law N I" "last_law N I"
  using assms by (simp_all add: nodit_ok_def)

lemma nodit_sorted:
  assumes "nodit_ok N I" "I t"
  shows "sorted_wrt (\<lambda>e f. snd (fst e) < fst (fst f)) (nd_iter N t)"
    and "e \<in> set (nd_iter N t) \<Longrightarrow> fst (fst e) \<le> snd (fst e)"
  using nodit_basic(4) [OF assms(1)] assms(2) by (simp_all add: sorted_law_def)

lemma nodit_insert:
  assumes "nodit_ok N I" "I t" "a \<le> b"
  shows "I (nd_insert_overwrite N (a, b) c t)"
    and "set (nd_iter N (nd_insert_overwrite N (a, b) c t)) =
          insert ((a, b), c) (\<Union>e \<in> set (nd_iter N t). set (cut (a, b) e))"
  using nodit_basic(5) [OF assms(1)] assms(2,3) unfolding insert_law_def by blast+

lemma nodit_overlapping:
  assumes "nodit_ok N I" "I t"
  shows "nd_overlapping N i t = filter (\<lambda>((lo, hi), c). lo \<le> snd i \<and> fst i \<le> hi) (nd_iter N t)"
  using nodit_basic(6) [OF assms(1)] assms(2) unfolding overlap_law_def by blast

lemma nodit_last:
  assumes "nodit_ok N I" "I t"
  shows "nd_last N t = (if nd_iter N t = [] then None else Some (last (nd_iter N t)))"
    and "I (nd_remove_last N t)" "nd_iter N (nd_remove_last N t) = butlast (nd_iter N t)"
  using nodit_basic(7) [OF assms(1)] assms(2) unfolding last_law_def by blast+

section \<open>The contents of the device's buffers\<close>

definition gpu_apply :: "gpu_write \<Rightarrow> (nat \<Rightarrow> nat \<Rightarrow> byte option) \<Rightarrow> nat \<Rightarrow> nat \<Rightarrow> byte option" where
  "gpu_apply w m b i = (case w of (b', off, data) \<Rightarrow>
     if b = b' \<and> off \<le> i \<and> i < off + length data then Some (data ! (i - off)) else m b i)"

definition gpu_mem :: "gpu_write list \<Rightarrow> nat \<Rightarrow> nat \<Rightarrow> byte option" where
  "gpu_mem ws = fold gpu_apply ws (\<lambda>_ _. None)"

text \<open>The float at an index of a buffer.\<close>

definition gpu_holds :: "gpu_write list \<Rightarrow> nat \<Rightarrow> nat \<Rightarrow> f32_bits \<Rightarrow> bool" where
  "gpu_holds ws b k v \<longleftrightarrow> map (\<lambda>j. gpu_mem ws b (4 * k + j)) [0..<4] = map Some (u32_to_le v)"

definition shard_of :: "nat \<Rightarrow> nat \<Rightarrow> shard" where
  "shard_of b i = \<lparr>sh_buffer = b, sh_start = i * (4 * CHUNK_LEN), sh_end = (i + 1) * (4 * CHUNK_LEN)\<rparr>"

lemma gpu_mem_snoc: "gpu_mem (ws @ [w]) = gpu_apply w (gpu_mem ws)"
  by (simp add: gpu_mem_def)

lemma elems_bytes_length: "length (elems_to_le k ws) = k * length ws"
  by (induction ws) (simp_all add: elems_to_le_def)

lemma elems_to_le_nth:
  "i < length ws \<Longrightarrow> j < k \<Longrightarrow> elems_to_le k ws ! (k * i + j) = nat_to_le k (unat (ws ! i)) ! j"
proof (induction ws arbitrary: i)
  case (Cons w ws)
  show ?case
  proof (cases i)
    case 0
    then show ?thesis using Cons.prems by (simp add: elems_to_le_def nth_append)
  next
    case (Suc i')
    have "elems_to_le k (w # ws) = nat_to_le k (unat w) @ elems_to_le k ws" by (simp add: elems_to_le_def)
    then show ?thesis using Suc Cons by (simp add: nth_append)
  qed
qed simp

lemma write_shard_holds:
  assumes "k < length xs" "k < CHUNK_LEN"
  shows "gpu_holds (ws @ [write_buffer_shard (shard_of b i) (elems_to_le 4 xs)]) b (CHUNK_LEN * i + k) (xs ! k)"
proof -
  have "gpu_mem (ws @ [write_buffer_shard (shard_of b i) (elems_to_le 4 xs)]) b (4 * (CHUNK_LEN * i + k) + j)
      = Some (u32_to_le (xs ! k) ! j)" if "j < 4" for j
  proof -
    have "4 * k + j < 4 * length xs" "4 * k + j < 4 * CHUNK_LEN" using assms that by auto
    moreover have "4 * (CHUNK_LEN * i + k) + j = i * (4 * CHUNK_LEN) + (4 * k + j)" by (simp add: algebra_simps)
    ultimately show ?thesis
      using elems_to_le_nth [OF assms(1) that]
      by (simp add: gpu_mem_snoc gpu_apply_def write_buffer_shard_def shard_of_def elems_bytes_length u32_to_le_def
          add_mult_distrib)
  qed
  then show ?thesis by (auto simp: gpu_holds_def u32_to_le_def intro!: nth_equalityI)
qed

lemma write_shard_frame:
  assumes "b' \<noteq> b \<or> k < CHUNK_LEN * i \<or> CHUNK_LEN * (i + 1) \<le> k"
  shows "gpu_holds (ws @ [write_buffer_shard (shard_of b i) data]) b' k v \<longleftrightarrow> gpu_holds ws b' k v"
proof -
  have "gpu_mem (ws @ [write_buffer_shard (shard_of b i) data]) b' (4 * k + j) = gpu_mem ws b' (4 * k + j)"
    if "j < 4" for j
    using assms that by (auto simp: gpu_mem_snoc gpu_apply_def write_buffer_shard_def shard_of_def algebra_simps)
  then have "map (\<lambda>j. gpu_mem (ws @ [write_buffer_shard (shard_of b i) data]) b' (4 * k + j)) [0..<4]
      = map (\<lambda>j. gpu_mem ws b' (4 * k + j)) [0..<4]" by (intro map_cong) auto
  then show ?thesis by (simp only: gpu_holds_def)
qed

section \<open>Shards and their owners\<close>

abbreviation data_cell :: "cell list \<Rightarrow> plot_chunk \<Rightarrow> cell" where
  "data_cell cells c \<equiv> cells ! sb_cell (ch_data c)"

abbreviation time_cell :: "cell list \<Rightarrow> plot_chunk \<Rightarrow> cell" where
  "time_cell cells c \<equiv> cells ! sb_cell (ch_times c)"

definition chunk_cells :: "plot_chunk \<Rightarrow> nat set" where
  "chunk_cells c = {sb_cell (ch_data c), sb_cell (ch_times c)}"

text \<open>The cells of the chunks are there, and only clones of a chunk share them.\<close>

definition cells_ok :: "cell list \<Rightarrow> plot_chunk set \<Rightarrow> bool" where
  "cells_ok cells cs \<longleftrightarrow>
     (\<forall>c \<in> cs. sb_cell (ch_data c) < length cells \<and> sb_cell (ch_times c) < length cells \<and>
        sb_cell (ch_data c) \<noteq> sb_cell (ch_times c) \<and>
        length (sb_cpu (ch_data c)) = length (ch_timestamps c) \<and>
        length (sb_cpu (ch_times c)) = length (ch_timestamps c) \<and> su_len (ch_summary c) = length (ch_timestamps c)) \<and>
     (\<forall>c \<in> cs. \<forall>d \<in> cs. c \<noteq> d \<longrightarrow> chunk_cells c \<inter> chunk_cells d = {})"

definition blank :: "cell list \<Rightarrow> plot_chunk \<Rightarrow> bool" where
  "blank cells c \<longleftrightarrow> data_cell cells c = \<lparr>ce_gpu = None, ce_dirty = True\<rparr> \<and> time_cell cells c = \<lparr>ce_gpu = None, ce_dirty = True\<rparr>"

text \<open>Values \<open>xs\<close> are in the shard \<open>i\<close> of a buffer.\<close>

definition shard_holds :: "gpu_write list \<Rightarrow> nat \<Rightarrow> nat \<Rightarrow> f32_bits list \<Rightarrow> bool" where
  "shard_holds ws b i xs \<longleftrightarrow> (\<forall>k < min (length xs) CHUNK_LEN. gpu_holds ws b (CHUNK_LEN * i + k) (xs ! k))"

text \<open>A chunk with the shard \<open>i\<close> of both buffers.\<close>

definition placed :: "gpu_write list \<Rightarrow> nat \<Rightarrow> nat \<Rightarrow> cell list \<Rightarrow> plot_chunk \<Rightarrow> nat \<Rightarrow> bool" where
  "placed ws bd bt cells c i \<longleftrightarrow>
     1 \<le> i \<and> i \<le> CHUNK_COUNT \<and>
     ce_gpu (data_cell cells c) = Some (shard_of bd i) \<and> ce_gpu (time_cell cells c) = Some (shard_of bt i) \<and>
     ce_dirty (data_cell cells c) = ce_dirty (time_cell cells c) \<and>
     (\<not> ce_dirty (data_cell cells c) \<longrightarrow>
        shard_holds ws bd i (sb_cpu (ch_data c)) \<and> shard_holds ws bt i (sb_cpu (ch_times c)))"

definition allocs_ok :: "('b, 't) plot_env \<Rightarrow> gpu_write list \<Rightarrow> 'b shard_alloc \<Rightarrow> 'b shard_alloc \<Rightarrow> bool" where
  "allocs_ok E ws da ta \<longleftrightarrow>
     sa_buffer da \<noteq> sa_buffer ta \<and> sa_chunk_size da = 4 * CHUNK_LEN \<and> sa_chunk_size ta = 4 * CHUNK_LEN \<and>
     (\<forall>j. bm_contains (pe_bits E) (sa_free da) j \<longleftrightarrow> bm_contains (pe_bits E) (sa_free ta) j) \<and>
     (\<forall>j. bm_contains (pe_bits E) (sa_free da) j \<longrightarrow> 1 \<le> j \<and> j \<le> CHUNK_COUNT) \<and>
     gpu_holds ws (sa_buffer da) 0 f32_NAN \<and> gpu_holds ws (sa_buffer ta) 0 f32_NAN"

definition owned ::
  "('b, 't) plot_env \<Rightarrow> gpu_write list \<Rightarrow> 'b shard_alloc \<Rightarrow> 'b shard_alloc \<Rightarrow> cell list \<Rightarrow> plot_chunk set \<Rightarrow> bool" where
  "owned E ws da ta cells cs \<longleftrightarrow>
     allocs_ok E ws da ta \<and>
     (\<forall>c \<in> cs. blank cells c \<or>
        (\<exists>i. placed ws (sa_buffer da) (sa_buffer ta) cells c i \<and> \<not> bm_contains (pe_bits E) (sa_free da) i)) \<and>
     (\<forall>c \<in> cs. \<forall>d \<in> cs. \<forall>i. placed ws (sa_buffer da) (sa_buffer ta) cells c i \<longrightarrow>
        placed ws (sa_buffer da) (sa_buffer ta) cells d i \<longrightarrow> c = d)"

lemma shard_of_inject [simp]: "shard_of b i = shard_of b' i' \<longleftrightarrow> b = b' \<and> i = i'"
  by (auto simp: shard_of_def CHUNK_LEN_def)

lemma placed_cong:
  assumes "data_cell cells c = data_cell cells' c" "time_cell cells c = time_cell cells' c"
  shows "placed ws bd bt cells c i \<longleftrightarrow> placed ws bd bt cells' c i"
  using assms by (simp add: placed_def)

lemma blank_cong:
  assumes "data_cell cells c = data_cell cells' c" "time_cell cells c = time_cell cells' c"
  shows "blank cells c \<longleftrightarrow> blank cells' c"
  using assms by (simp add: blank_def)

lemma blank_not_placed: "blank cells c \<Longrightarrow> \<not> placed ws bd bt cells c i"
  by (simp add: blank_def placed_def)

lemma placed_unique: "placed ws bd bt cells c i \<Longrightarrow> placed ws bd bt cells c j \<Longrightarrow> i = j"
  by (simp add: placed_def)

lemma cells_ok_mono: "cells_ok cells cs \<Longrightarrow> ds \<subseteq> cs \<Longrightarrow> cells_ok cells ds"
  unfolding cells_ok_def by blast

lemma owned_mono: "owned E ws da ta cells cs \<Longrightarrow> ds \<subseteq> cs \<Longrightarrow> owned E ws da ta cells ds"
  unfolding owned_def by blast

lemma shard_holds_frame:
  assumes "b' \<noteq> b \<or> j \<noteq> i"
  shows "shard_holds (ws @ [write_buffer_shard (shard_of b i) data]) b' j xs \<longleftrightarrow> shard_holds ws b' j xs"
proof -
  have "b' \<noteq> b \<or> CHUNK_LEN * j + k < CHUNK_LEN * i \<or> CHUNK_LEN * (i + 1) \<le> CHUNK_LEN * j + k" if "k < CHUNK_LEN" for k
  proof (cases "j < i")
    case True
    then have "CHUNK_LEN * (j + 1) \<le> CHUNK_LEN * i" by (intro mult_le_mono2) simp
    then show ?thesis using that by (simp add: algebra_simps)
  next
    case False
    then have "b' \<noteq> b \<or> CHUNK_LEN * (i + 1) \<le> CHUNK_LEN * j" using assms by (auto intro!: mult_le_mono2 simp del: mult_Suc_right)
    then show ?thesis by auto
  qed
  then show ?thesis unfolding shard_holds_def using write_shard_frame by (metis min_less_iff_conj)
qed

lemma write_shard_holds_all: "shard_holds (ws @ [write_buffer_shard (shard_of b i) (elems_to_le 4 xs)]) b i xs"
  by (simp add: shard_holds_def write_shard_holds)

lemma nan_frame:
  assumes "1 \<le> i"
  shows "gpu_holds (ws @ [write_buffer_shard (shard_of b i) data]) b' 0 v \<longleftrightarrow> gpu_holds ws b' 0 v"
  using assms by (intro write_shard_frame) (simp add: CHUNK_LEN_def)

text \<open>Two writes of one shard to the two buffers.\<close>

lemma two_writes:
  fixes ws :: "gpu_write list" and xs ys :: "f32_bits list"
  assumes "bd \<noteq> bt" "1 \<le> i"
  defines "ws' \<equiv> ws @ [write_buffer_shard (shard_of bt i) (elems_to_le 4 ys), write_buffer_shard (shard_of bd i) (elems_to_le 4 xs)]"
  shows "shard_holds ws' bd i xs" "shard_holds ws' bt i ys"
    and "j \<noteq> i \<Longrightarrow> shard_holds ws' b j zs \<longleftrightarrow> shard_holds ws b j zs"
    and "gpu_holds ws' b 0 v \<longleftrightarrow> gpu_holds ws b 0 v"
proof -
  have w: "ws' = (ws @ [write_buffer_shard (shard_of bt i) (elems_to_le 4 ys)]) @ [write_buffer_shard (shard_of bd i) (elems_to_le 4 xs)]"
    by (simp add: ws'_def)
  show "shard_holds ws' bd i xs" unfolding w by (rule write_shard_holds_all)
  have "shard_holds ws' bt i ys \<longleftrightarrow> shard_holds (ws @ [write_buffer_shard (shard_of bt i) (elems_to_le 4 ys)]) bt i ys"
    unfolding w using assms(1) by (intro shard_holds_frame) auto
  then show "shard_holds ws' bt i ys" by (simp add: write_shard_holds_all)
  show "shard_holds ws' b j zs \<longleftrightarrow> shard_holds ws b j zs" if "j \<noteq> i"
    unfolding w using that by (simp only: shard_holds_frame simp_thms)
  show "gpu_holds ws' b 0 v \<longleftrightarrow> gpu_holds ws b 0 v"
    unfolding w by (simp only: nan_frame [OF assms(2)])
qed

section \<open>Loading\<close>

lemma owned_split:
  assumes "owned E ws da ta cells cs"
  shows "allocs_ok E ws da ta"
    and "c \<in> cs \<Longrightarrow> \<not> blank cells c \<Longrightarrow>
      \<exists>i. placed ws (sa_buffer da) (sa_buffer ta) cells c i \<and> \<not> bm_contains (pe_bits E) (sa_free da) i"
    and "c \<in> cs \<Longrightarrow> d \<in> cs \<Longrightarrow> placed ws (sa_buffer da) (sa_buffer ta) cells c i \<Longrightarrow>
      placed ws (sa_buffer da) (sa_buffer ta) cells d i \<Longrightarrow> c = d"
  using assms unfolding owned_def by blast+

lemma cells_apart:
  assumes "cells_ok cells cs" "c \<in> cs" "d \<in> cs" "c \<noteq> d"
  shows "sb_cell (ch_data d) \<notin> chunk_cells c" "sb_cell (ch_times d) \<notin> chunk_cells c"
  using assms unfolding cells_ok_def chunk_cells_def by fastforce+

lemma cells_in:
  assumes "cells_ok cells cs" "c \<in> cs"
  shows "sb_cell (ch_data c) < length cells" "sb_cell (ch_times c) < length cells" "sb_cell (ch_data c) \<noteq> sb_cell (ch_times c)"
    and "length (sb_cpu (ch_data c)) = length (ch_timestamps c)" "length (sb_cpu (ch_times c)) = length (ch_timestamps c)"
    and "su_len (ch_summary c) = length (ch_timestamps c)"
  using assms unfolding cells_ok_def by blast+

lemma cells_ok_length:
  assumes "cells_ok cells cs" "length cells' = length cells"
  shows "cells_ok cells' cs"
  using assms by (simp add: cells_ok_def)

text \<open>Setting the two cells of a chunk leaves the other chunks as they are.\<close>

lemma others_kept:
  assumes "cells_ok cells cs" "c \<in> cs" "d \<in> cs" "c \<noteq> d"
    and "cells' = cells[sb_cell (ch_times c) := x, sb_cell (ch_data c) := y]"
  shows "data_cell cells' d = data_cell cells d" "time_cell cells' d = time_cell cells d"
  using cells_apart [OF assms(1-4)] assms(5) by (simp_all add: chunk_cells_def nth_list_update)

lemma own_set:
  assumes "cells_ok cells cs" "c \<in> cs"
    and "cells' = cells[sb_cell (ch_times c) := x, sb_cell (ch_data c) := y]"
  shows "data_cell cells' c = y" "time_cell cells' c = x" "length cells' = length cells"
  using cells_in [OF assms(1,2)] assms(3) by (simp_all add: nth_list_update)

definition same_place :: "'b shard_alloc \<Rightarrow> 'b shard_alloc \<Rightarrow> bool" where
  "same_place a b \<longleftrightarrow> sa_buffer a = sa_buffer b \<and> sa_chunk_size a = sa_chunk_size b"

lemma place_owned:
  assumes o: "owned E ws da ta cells cs" and c: "cells_ok cells cs" "c \<in> cs" and i: "1 \<le> i" "i \<le> CHUNK_COUNT"
    and al: "same_place da' da" "same_place ta' ta"
    and free: "\<And>j. bm_contains (pe_bits E) (sa_free da') j \<longleftrightarrow> bm_contains (pe_bits E) (sa_free da) j \<and> j \<noteq> i"
      "\<And>j. bm_contains (pe_bits E) (sa_free ta') j \<longleftrightarrow> bm_contains (pe_bits E) (sa_free ta) j \<and> j \<noteq> i"
    and other: "\<And>d. d \<in> cs \<Longrightarrow> placed ws (sa_buffer da) (sa_buffer ta) cells d i \<Longrightarrow> d = c"
    and cells': "cells' = cells[sb_cell (ch_times c) := \<lparr>ce_gpu = Some (shard_of (sa_buffer ta) i), ce_dirty = False\<rparr>,
        sb_cell (ch_data c) := \<lparr>ce_gpu = Some (shard_of (sa_buffer da) i), ce_dirty = False\<rparr>]"
    and ws': "ws' = ws @ [write_buffer_shard (shard_of (sa_buffer ta) i) (elems_to_le 4 (sb_cpu (ch_times c))),
        write_buffer_shard (shard_of (sa_buffer da) i) (elems_to_le 4 (sb_cpu (ch_data c)))]"
  shows "owned E ws' da' ta' cells' cs"
proof -
  let ?bd = "sa_buffer da" and ?bt = "sa_buffer ta"
  have b: "?bd \<noteq> ?bt" using owned_split(1) [OF o] by (simp add: allocs_ok_def)
  note w = two_writes [OF b i(1), where ws = ws and xs = "sb_cpu (ch_data c)" and ys = "sb_cpu (ch_times c)", folded ws']
  have a: "allocs_ok E ws' da' ta'"
    using owned_split(1) [OF o] al free w(4) by (simp add: allocs_ok_def same_place_def)
  have own: "placed ws' ?bd ?bt cells' c i"
    using own_set [OF c cells'] i w(1,2) by (simp add: placed_def)
  have keep: "placed ws' ?bd ?bt cells' d j \<longleftrightarrow> placed ws ?bd ?bt cells d j" if "d \<in> cs" "d \<noteq> c" "j \<noteq> i" for d j
    using others_kept [OF c(1,2) that(1) that(2) [symmetric] cells'] w(3) [OF that(3)] by (simp add: placed_def)
  have new: "\<not> placed ws' ?bd ?bt cells' d i" if d: "d \<in> cs" "d \<noteq> c" for d
  proof
    assume p: "placed ws' ?bd ?bt cells' d i"
    then have "\<not> blank cells d"
      using others_kept [OF c(1,2) d(1) d(2) [symmetric] cells'] blank_not_placed blank_cong by metis
    then obtain j where j: "placed ws ?bd ?bt cells d j" using owned_split(2) [OF o d(1)] by blast
    then have "j \<noteq> i" using other d by blast
    then have "placed ws' ?bd ?bt cells' d j" using keep d j by blast
    then show False using placed_unique [OF p] \<open>j \<noteq> i\<close> by blast
  qed
  have "blank cells' d \<or> (\<exists>j. placed ws' ?bd ?bt cells' d j \<and> \<not> bm_contains (pe_bits E) (sa_free da') j)" if d: "d \<in> cs" for d
  proof (cases "d = c")
    case False
    show ?thesis
    proof (cases "blank cells d")
      case True
      then show ?thesis using others_kept [OF c(1,2) d False [symmetric] cells'] blank_cong by metis
    next
      case nb: False
      then obtain j where "placed ws ?bd ?bt cells d j" "\<not> bm_contains (pe_bits E) (sa_free da) j"
        using owned_split(2) [OF o d] by blast
      moreover from this have "j \<noteq> i" using other d False by blast
      ultimately show ?thesis using keep d False free by blast
    qed
  qed (use own free in blast)
  moreover have "d = e" if "d \<in> cs" "e \<in> cs" "placed ws' ?bd ?bt cells' d j" "placed ws' ?bd ?bt cells' e j" for d e j
  proof (cases "j = i")
    case True
    then show ?thesis using new that by blast
  next
    case False
    have "d \<noteq> c" "e \<noteq> c" using placed_unique [OF own] that False by blast+
    then show ?thesis using keep that False owned_split(3) [OF o] by blast
  qed
  ultimately show ?thesis using a al unfolding owned_def same_place_def by metis
qed

text \<open>A chunk is loaded when its shard, if it has one, holds its samples.\<close>

definition loaded :: "cell list \<Rightarrow> plot_chunk \<Rightarrow> bool" where
  "loaded cells c \<longleftrightarrow> ce_gpu (data_cell cells c) = None \<or> \<not> ce_dirty (data_cell cells c)"

lemma bitmap_next:
  assumes "bitmap_ok B"
  shows "bm_next B s = None \<Longrightarrow> \<not> bm_contains B s j"
    and "bm_next B s = Some i \<Longrightarrow> bm_contains B s i"
    and "bm_next B s = Some i \<Longrightarrow> bm_contains B s j \<Longrightarrow> i \<le> j"
    and "bm_contains B (bm_insert B i s) j \<longleftrightarrow> j = i \<or> bm_contains B s j"
    and "bm_contains B (bm_remove B i s) j \<longleftrightarrow> bm_contains B s j \<and> j \<noteq> i"
    and "\<not> bm_contains B (bm_new B) j"
proof -
  note laws = assms [unfolded bitmap_ok_def]
  from laws have n: "\<forall>s. bm_next B s = None \<longrightarrow> (\<forall>j. \<not> bm_contains B s j)" by (elim conjE)
  from laws have m: "\<forall>s i. bm_next B s = Some i \<longrightarrow> bm_contains B s i \<and> (\<forall>j. bm_contains B s j \<longrightarrow> i \<le> j)" by (elim conjE)
  show "bm_next B s = None \<Longrightarrow> \<not> bm_contains B s j" using n by blast
  show "bm_next B s = Some i \<Longrightarrow> bm_contains B s i" "bm_next B s = Some i \<Longrightarrow> bm_contains B s j \<Longrightarrow> i \<le> j" using m by blast+
qed (use assms in \<open>auto simp: bitmap_ok_def\<close>)

lemma bitmap_next_same:
  assumes "bitmap_ok B" "\<And>j. bm_contains B s j \<longleftrightarrow> bm_contains B t j"
  shows "bm_next B s = bm_next B t"
proof (cases "bm_next B s")
  case None
  then have "bm_next B t \<noteq> Some i" for i using bitmap_next(1,2) [OF assms(1)] assms(2) by blast
  then show ?thesis using None by (cases "bm_next B t") auto
next
  case (Some i)
  then have "bm_next B t \<noteq> None" using bitmap_next(1,2) [OF assms(1)] assms(2) by blast
  then obtain j where j: "bm_next B t = Some j" by blast
  have "i \<le> j" "j \<le> i" using bitmap_next(2,3) [OF assms(1)] assms(2) Some j by blast+
  then show ?thesis using Some j by simp
qed

lemma placed_cells:
  "placed ws bd bt cells c i \<Longrightarrow> ce_gpu (data_cell cells c) = Some (shard_of bd i)"
  "placed ws bd bt cells c i \<Longrightarrow> ce_gpu (time_cell cells c) = Some (shard_of bt i)"
  "placed ws bd bt cells c i \<Longrightarrow> ce_dirty (time_cell cells c) = ce_dirty (data_cell cells c)"
  "placed ws bd bt cells c i \<Longrightarrow> 1 \<le> i \<and> i \<le> CHUNK_COUNT"
  by (simp_all add: placed_def)

lemma ch_queue_load_owned:
  assumes B: "bitmap_ok (pe_bits E)" and o: "owned E ws da ta cells cs" and c: "cells_ok cells cs" "c \<in> cs"
    and r: "ch_queue_load E c cells da ta = (cells', da', ta', w)"
  shows "owned E (ws @ w) da' ta' cells' cs \<and> same_place da' da \<and> same_place ta' ta \<and>
    length cells' = length cells \<and> loaded cells' c \<and> (\<forall>d \<in> cs. loaded cells d \<longrightarrow> loaded cells' d)"
proof -
  let ?bd = "sa_buffer da" and ?bt = "sa_buffer ta"
  let ?wt = "\<lambda>i. write_buffer_shard (shard_of ?bt i) (elems_to_le 4 (sb_cpu (ch_times c)))"
  let ?wd = "\<lambda>i. write_buffer_shard (shard_of ?bd i) (elems_to_le 4 (sb_cpu (ch_data c)))"
  let ?cells = "\<lambda>i. cells[sb_cell (ch_times c) := \<lparr>ce_gpu = Some (shard_of ?bt i), ce_dirty = False\<rparr>,
      sb_cell (ch_data c) := \<lparr>ce_gpu = Some (shard_of ?bd i), ce_dirty = False\<rparr>]"
  note al = owned_split(1) [OF o, unfolded allocs_ok_def]
  note ci = cells_in [OF c]
  have t: "\<not> ce_dirty (time_cell cells c) \<Longrightarrow> sb_queue_load E (ch_times c) cells ta = (cells, ta, [])"
    by (simp add: sb_queue_load_def Let_def)
  have loads: ?thesis
    if i: "1 \<le> i" "i \<le> CHUNK_COUNT" "same_place da' da" "same_place ta' ta"
      and f: "\<And>j. bm_contains (pe_bits E) (sa_free da') j \<longleftrightarrow> bm_contains (pe_bits E) (sa_free da) j \<and> j \<noteq> i"
        "\<And>j. bm_contains (pe_bits E) (sa_free ta') j \<longleftrightarrow> bm_contains (pe_bits E) (sa_free ta) j \<and> j \<noteq> i"
      and p: "\<And>d. d \<in> cs \<Longrightarrow> placed ws ?bd ?bt cells d i \<Longrightarrow> d = c"
      and e: "cells' = ?cells i" "w = [?wt i, ?wd i]" for i
  proof -
    have "loaded cells' d" if d: "d \<in> cs" "loaded cells d" for d
      using others_kept(1) [OF c(1,2) d(1) _ e(1)] own_set(1) [OF c e(1)] d(2) by (cases "c = d") (auto simp: loaded_def)
    then show ?thesis
      using place_owned [OF o c i f p e(1) refl] own_set [OF c e(1)] i(3,4) e(2) by (auto simp: loaded_def)
  qed
  consider (clean) "\<not> ce_dirty (data_cell cells c)" | (dirty) i where "ce_dirty (data_cell cells c)" "placed ws ?bd ?bt cells c i"
      "\<not> bm_contains (pe_bits E) (sa_free da) i" | (blank) "blank cells c"
    using owned_split(2) [OF o c(2)] by blast
  then show ?thesis
  proof cases
    case clean
    then have "\<not> blank cells c" by (auto simp: blank_def)
    then obtain i where "placed ws ?bd ?bt cells c i" using owned_split(2) [OF o c(2)] by blast
    then have "\<not> ce_dirty (time_cell cells c)" using clean placed_cells(3) by blast
    then have "cells' = cells" "da' = da" "ta' = ta" "w = []"
      using r clean t by (auto simp: ch_queue_load_def sb_queue_load_def Let_def)
    then show ?thesis using o clean by (simp add: same_place_def loaded_def)
  next
    case (dirty i)
    then have "cells' = ?cells i" "da' = da" "ta' = ta" "w = [?wt i, ?wd i]"
      using r placed_cells [OF dirty(2)] ci(3) by (auto simp: ch_queue_load_def sb_queue_load_def Let_def)
    then show ?thesis
      using loads [of i] placed_cells(4) [OF dirty(2)] dirty(3) al owned_split(3) [OF o _ c(2) _ dirty(2)]
      by (auto simp: same_place_def)
  next
    case blank
    have same: "bm_next (pe_bits E) (sa_free ta) = bm_next (pe_bits E) (sa_free da)"
      using bitmap_next_same [OF B] al by metis
    show ?thesis
    proof (cases "bm_next (pe_bits E) (sa_free da)")
      case None
      then have "cells' = cells" "da' = da" "ta' = ta" "w = []"
        using r blank same by (auto simp: ch_queue_load_def sb_queue_load_def sa_allocate_def blank_def Let_def)
      then show ?thesis using o blank by (simp add: same_place_def loaded_def blank_def)
    next
      case (Some i)
      then have in': "bm_contains (pe_bits E) (sa_free da) i" using bitmap_next(2) [OF B] by blast
      have e: "cells' = ?cells i" "da' = da\<lparr>sa_free := bm_remove (pe_bits E) i (sa_free da)\<rparr>"
        "ta' = ta\<lparr>sa_free := bm_remove (pe_bits E) i (sa_free ta)\<rparr>" "w = [?wt i, ?wd i]"
        using r blank same Some ci(3) al
        by (auto simp: ch_queue_load_def sb_queue_load_def sa_allocate_def blank_def shard_of_def Let_def)
      have "d = c" if "d \<in> cs" "placed ws ?bd ?bt cells d i" for d
        using owned_split(2) [OF o that(1)] blank_not_placed placed_unique [OF that(2)] that(2) in' by blast
      then show ?thesis
        using loads [of i] e al in' by (simp add: same_place_def bitmap_next(5) [OF B])
    qed
  qed
qed

lemma load_chunks_owned:
  assumes "bitmap_ok (pe_bits E)" "owned E ws da ta cells cs" "cells_ok cells cs" "set ds \<subseteq> cs"
    and "load_chunks E ds cells da ta = (cells', da', ta', w)"
  shows "owned E (ws @ w) da' ta' cells' cs \<and> same_place da' da \<and> same_place ta' ta \<and>
    length cells' = length cells \<and> (\<forall>d \<in> cs. d \<in> set ds \<or> loaded cells d \<longrightarrow> loaded cells' d)"
  using assms(2-)
proof (induction ds arbitrary: ws cells da ta w cells' da' ta')
  case Nil
  then show ?case by (simp add: same_place_def)
next
  case (Cons d ds)
  obtain cells1 da1 ta1 w1 where 1: "ch_queue_load E d cells da ta = (cells1, da1, ta1, w1)" by (metis prod_cases4)
  obtain cells2 da2 ta2 w2 where 2: "load_chunks E ds cells1 da1 ta1 = (cells2, da2, ta2, w2)" by (metis prod_cases4)
  have d: "d \<in> cs" "set ds \<subseteq> cs" using Cons.prems(3) by auto
  note a = ch_queue_load_owned [OF assms(1) Cons.prems(1,2) d(1) 1]
  have ok: "cells_ok cells1 cs" using Cons.prems(2) a cells_ok_length by blast
  have e: "cells' = cells2" "da' = da2" "ta' = ta2" "w = w1 @ w2" using Cons.prems(4) 1 2 by auto
  have "owned E (ws @ w1) da1 ta1 cells1 cs" using a by blast
  from Cons.IH [OF this ok d(2) 2] a show ?case unfolding e same_place_def by auto
qed

section \<open>The invariant of a line\<close>

definition entries :: "('b, 't) plot_env \<Rightarrow> ('b, 't) line_tree \<Rightarrow> (interval \<times> plot_chunk) set" where
  "entries E l = set (nd_iter (pe_tree E) (lt_tree l))"

abbreviation chunks :: "('b, 't) plot_env \<Rightarrow> ('b, 't) line_tree \<Rightarrow> plot_chunk set" where
  "chunks E l \<equiv> snd ` entries E l"

text \<open>An entry lies within the times of its chunk.\<close>

definition fits :: "interval \<times> plot_chunk \<Rightarrow> bool" where
  "fits e \<longleftrightarrow> su_start (ch_summary (snd e)) \<le> fst (fst e) \<and> snd (fst e) \<le> su_end (ch_summary (snd e))"

definition store_ok ::
  "('b, 't) plot_env \<Rightarrow> gpu_write list \<Rightarrow> 'b shard_alloc option \<Rightarrow> 'b shard_alloc option \<Rightarrow> cell list \<Rightarrow> plot_chunk set \<Rightarrow> bool" where
  "store_ok E ws da ta cells cs \<longleftrightarrow>
     (case (da, ta) of
        (Some da', Some ta') \<Rightarrow> owned E ws da' ta' cells cs
      | (None, None) \<Rightarrow> \<forall>c \<in> cs. blank cells c
      | _ \<Rightarrow> False)"

definition line_inv :: "('b, 't) plot_env \<Rightarrow> ('t \<Rightarrow> bool) \<Rightarrow> ('b, 't) line_tree \<Rightarrow> bool" where
  "line_inv E I l \<longleftrightarrow>
     I (lt_tree l) \<and> (\<forall>e \<in> entries E l. fits e) \<and> cells_ok (lt_cells l) (chunks E l) \<and>
     store_ok E (lt_writes l) (lt_data_alloc l) (lt_time_alloc l) (lt_cells l) (chunks E l)"

lemma store_ok_cases:
  assumes "store_ok E ws da ta cells cs"
  obtains "da = None" "ta = None" "\<forall>c \<in> cs. blank cells c"
  | da' ta' where "da = Some da'" "ta = Some ta'" "owned E ws da' ta' cells cs"
  using assms by (auto simp: store_ok_def split: option.splits)

lemma store_ok_mono: "store_ok E ws da ta cells cs \<Longrightarrow> ds \<subseteq> cs \<Longrightarrow> store_ok E ws da ta cells ds"
  by (auto simp: store_ok_def split: option.splits intro: owned_mono)

text \<open>What the store says of a chunk depends on its two cells only.\<close>

lemma owned_cong:
  assumes "owned E ws da ta cells cs"
    and "\<And>c. c \<in> cs \<Longrightarrow> data_cell cells' c = data_cell cells c \<and> time_cell cells' c = time_cell cells c"
  shows "owned E ws da ta cells' cs"
  using assms(1) blank_cong placed_cong assms(2) unfolding owned_def by (metis (no_types, lifting))

lemma store_ok_cong:
  assumes "store_ok E ws da ta cells cs"
    and "\<And>c. c \<in> cs \<Longrightarrow> data_cell cells' c = data_cell cells c \<and> time_cell cells' c = time_cell cells c"
  shows "store_ok E ws da ta cells' cs"
  using assms(1)
proof (cases rule: store_ok_cases)
  case 1
  have "blank cells' c" if "c \<in> cs" for c using assms(2) [OF that] 1(3) that by (simp add: blank_def)
  then show ?thesis using 1 by (simp add: store_ok_def)
next
  case (2 da' ta')
  then show ?thesis using owned_cong [OF _ assms(2)] by (simp add: store_ok_def)
qed

lemma owned_blank_insert:
  assumes "owned E ws da ta cells cs" "blank cells c"
  shows "owned E ws da ta cells (insert c cs)"
  using assms blank_not_placed unfolding owned_def by (metis insert_iff)

text \<open>A chunk with fresh cells.\<close>

definition fresh_chunk :: "cell list \<Rightarrow> plot_chunk \<Rightarrow> bool" where
  "fresh_chunk cells c \<longleftrightarrow>
     chunk_cells c = {length cells, Suc (length cells)} \<and>
     length (sb_cpu (ch_data c)) = length (ch_timestamps c) \<and>
     length (sb_cpu (ch_times c)) = length (ch_timestamps c) \<and> su_len (ch_summary c) = length (ch_timestamps c)"

abbreviation two_blank :: "cell list" where
  "two_blank \<equiv> [\<lparr>ce_gpu = None, ce_dirty = True\<rparr>, \<lparr>ce_gpu = None, ce_dirty = True\<rparr>]"

lemma store_add:
  assumes "store_ok E ws da ta cells cs" "cells_ok cells cs" "fresh_chunk cells c"
  shows "store_ok E ws da ta (cells @ two_blank) (insert c cs)" "cells_ok (cells @ two_blank) (insert c cs)"
proof -
  have old: "data_cell (cells @ two_blank) d = data_cell cells d \<and> time_cell (cells @ two_blank) d = time_cell cells d"
    if "d \<in> cs" for d
    using cells_in [OF assms(2) that] by (simp add: nth_append)
  have n: "sb_cell (ch_data c) = length cells \<and> sb_cell (ch_times c) = Suc (length cells) \<or>
      sb_cell (ch_times c) = length cells \<and> sb_cell (ch_data c) = Suc (length cells)"
    using assms(3) by (auto simp: fresh_chunk_def chunk_cells_def doubleton_eq_iff)
  have b: "blank (cells @ two_blank) c" using n by (auto simp: blank_def nth_append)
  show "store_ok E ws da ta (cells @ two_blank) (insert c cs)"
    using store_ok_cong [OF assms(1) old] b
    by (auto simp: store_ok_def owned_blank_insert split: option.splits)
  have apart: "chunk_cells c \<inter> chunk_cells d = {}" if "d \<in> cs" for d
    using cells_in [OF assms(2) that] assms(3) by (auto simp: fresh_chunk_def chunk_cells_def)
  show "cells_ok (cells @ two_blank) (insert c cs)"
    unfolding cells_ok_def
  proof (intro conjI ballI impI)
    fix d assume "d \<in> insert c cs"
    then show "sb_cell (ch_data d) < length (cells @ two_blank)" "sb_cell (ch_times d) < length (cells @ two_blank)"
      "sb_cell (ch_data d) \<noteq> sb_cell (ch_times d)" "length (sb_cpu (ch_data d)) = length (ch_timestamps d)"
      "length (sb_cpu (ch_times d)) = length (ch_timestamps d)" "su_len (ch_summary d) = length (ch_timestamps d)"
      using n cells_in [OF assms(2), of d] assms(3) by (auto simp: fresh_chunk_def)
  next
    fix d e assume "d \<in> insert c cs" "e \<in> insert c cs" "d \<noteq> e"
    then show "chunk_cells d \<inter> chunk_cells e = {}" using apart assms(2) unfolding cells_ok_def by blast
  qed
qed

text \<open>A chunk whose samples have changed: the same cells, both dirty.\<close>

lemma store_push:
  assumes "store_ok E ws da ta cells cs" "cells_ok cells cs" "c \<in> cs"
    and c': "sb_cell (ch_data c') = sb_cell (ch_data c)" "sb_cell (ch_times c') = sb_cell (ch_times c)"
      "length (sb_cpu (ch_data c')) = length (ch_timestamps c')" "length (sb_cpu (ch_times c')) = length (ch_timestamps c')"
      "su_len (ch_summary c') = length (ch_timestamps c')"
    and cells': "cells' = set_dirty True (sb_cell (ch_data c)) (set_dirty True (sb_cell (ch_times c)) cells)"
  shows "store_ok E ws da ta cells' (insert c' (cs - {c}))" "cells_ok cells' (insert c' (cs - {c}))"
proof -
  note ci = cells_in [OF assms(2,3)]
  have e: "cells' = cells[sb_cell (ch_times c) := (time_cell cells c)\<lparr>ce_dirty := True\<rparr>,
      sb_cell (ch_data c) := (data_cell cells c)\<lparr>ce_dirty := True\<rparr>]"
    using ci(3) by (simp add: cells' set_dirty_def)
  have len: "length cells' = length cells" by (simp add: e)
  have own: "data_cell cells' c' = (data_cell cells c)\<lparr>ce_dirty := True\<rparr>" "time_cell cells' c' = (time_cell cells c)\<lparr>ce_dirty := True\<rparr>"
    using own_set [OF assms(2,3) e] c' by simp_all
  have old: "data_cell cells' d = data_cell cells d \<and> time_cell cells' d = time_cell cells d" if "d \<in> cs - {c}" for d
    using others_kept [OF assms(2,3) _ _ e] that by blast
  have cc: "chunk_cells c' = chunk_cells c" using c' by (simp add: chunk_cells_def)
  have apart: "chunk_cells c \<inter> chunk_cells d = {}" "chunk_cells d \<inter> chunk_cells c = {}" if "d \<in> cs - {c}" for d
    using assms(2,3) that unfolding cells_ok_def by blast+
  show "cells_ok cells' (insert c' (cs - {c}))"
    unfolding cells_ok_def
  proof (intro conjI ballI impI)
    fix d assume "d \<in> insert c' (cs - {c})"
    then show "sb_cell (ch_data d) < length cells'" "sb_cell (ch_times d) < length cells'"
      "sb_cell (ch_data d) \<noteq> sb_cell (ch_times d)" "length (sb_cpu (ch_data d)) = length (ch_timestamps d)"
      "length (sb_cpu (ch_times d)) = length (ch_timestamps d)" "su_len (ch_summary d) = length (ch_timestamps d)"
      using ci cells_in [OF assms(2), of d] c' len by auto
  next
    fix d f assume "d \<in> insert c' (cs - {c})" "f \<in> insert c' (cs - {c})" "d \<noteq> f"
    then show "chunk_cells d \<inter> chunk_cells f = {}"
      using apart cc assms(2) unfolding cells_ok_def by (metis DiffD1 insert_iff)
  qed
  have kept: "store_ok E ws da ta cells' (cs - {c})"
    using store_ok_cong [OF store_ok_mono [OF assms(1) Diff_subset] old] .
  show "store_ok E ws da ta cells' (insert c' (cs - {c}))"
    using assms(1)
  proof (cases rule: store_ok_cases)
    case 1
    then show ?thesis using kept own assms(3) by (auto simp: store_ok_def blank_def)
  next
    case (2 da' ta')
    let ?bd = "sa_buffer da'" and ?bt = "sa_buffer ta'"
    have o': "owned E ws da' ta' cells' (cs - {c})" using kept 2 by (simp add: store_ok_def)
    have pl: "placed ws ?bd ?bt cells' c' i \<longleftrightarrow> placed ws ?bd ?bt cells c i" for i
    proof
      assume p: "placed ws ?bd ?bt cells' c' i"
      then have g: "ce_gpu (data_cell cells c) = Some (shard_of ?bd i)" using own by (simp add: placed_def)
      then have "\<not> blank cells c" by (auto simp: blank_def)
      then obtain j where j: "placed ws ?bd ?bt cells c j" using owned_split(2) [OF 2(3) assms(3)] by blast
      then show "placed ws ?bd ?bt cells c i" using g placed_cells(1) [OF j] by simp
    qed (use own in \<open>simp add: placed_def\<close>)
    have bl: "blank cells c \<Longrightarrow> blank cells' c'" using own by (simp add: blank_def)
    have "owned E ws da' ta' cells' (insert c' (cs - {c}))"
      unfolding owned_def
    proof (intro conjI ballI allI impI)
      show "allocs_ok E ws da' ta'" using owned_split(1) [OF o'] .
    next
      fix d assume "d \<in> insert c' (cs - {c})"
      then show "blank cells' d \<or> (\<exists>i. placed ws ?bd ?bt cells' d i \<and> \<not> bm_contains (pe_bits E) (sa_free da') i)"
        using owned_split(2) [OF o', of d] owned_split(2) [OF 2(3) assms(3)] pl bl by blast
    next
      fix d f i assume d: "d \<in> insert c' (cs - {c})" "f \<in> insert c' (cs - {c})"
        and p: "placed ws ?bd ?bt cells' d i" "placed ws ?bd ?bt cells' f i"
      have q: "g = c'" if "g \<in> cs - {c}" "placed ws ?bd ?bt cells' g i" "placed ws ?bd ?bt cells' c' i" for g
      proof -
        have "placed ws ?bd ?bt cells g i" "placed ws ?bd ?bt cells c i" using that old placed_cong pl by metis+
        then show ?thesis using owned_split(3) [OF 2(3) _ assms(3)] that(1) by blast
      qed
      then show "d = f" using d p owned_split(3) [OF o'] by (metis insert_iff)
    qed
    then show ?thesis using 2 by (simp add: store_ok_def)
  qed
qed

section \<open>Every operation keeps the invariant\<close>

lemma line_inv_split:
  assumes "line_inv E I l"
  shows "I (lt_tree l)" "e \<in> entries E l \<Longrightarrow> fits e" "cells_ok (lt_cells l) (chunks E l)"
    and "store_ok E (lt_writes l) (lt_data_alloc l) (lt_time_alloc l) (lt_cells l) (chunks E l)"
  using assms by (auto simp: line_inv_def)

lemma cut_within:
  assumes "x \<in> set (cut i e)"
  shows "snd x = snd e" "fst (fst e) \<le> fst (fst x)" "snd (fst x) \<le> snd (fst e)"
  using assms by (cases i; cases e; auto split: if_splits)+

lemma cut_covered: "fst i \<le> fst (fst e) \<Longrightarrow> snd (fst e) \<le> snd i \<Longrightarrow> cut i e = []"
  by (cases i; cases e) auto

text \<open>
  Inserting a chunk: what is left of the tree belongs to the chunks \<open>ds\<close> when the new chunk
  covers the times of every other one.
\<close>

lemma lt_insert_inv:
  assumes N: "nodit_ok (pe_tree E) I" and I: "I (lt_tree l)" and fit: "\<And>e. e \<in> entries E l \<Longrightarrow> fits e"
    and r: "lt_insert E c l = Some l'"
    and st: "store_ok E (lt_writes l) (lt_data_alloc l) (lt_time_alloc l) (lt_cells l) (insert c ds)"
      "cells_ok (lt_cells l) (insert c ds)"
    and ds: "\<And>e. e \<in> entries E l \<Longrightarrow> snd e \<in> ds \<or>
      su_start (ch_summary c) \<le> su_start (ch_summary (snd e)) \<and> su_end (ch_summary (snd e)) \<le> su_end (ch_summary c)"
  shows "line_inv E I l'"
proof -
  let ?a = "su_start (ch_summary c)" and ?b = "su_end (ch_summary c)"
  let ?t = "nd_insert_overwrite (pe_tree E) (?a, ?b) c (lt_tree l)"
  have ab: "?a \<le> ?b" and l': "l' = l\<lparr>lt_tree := ?t\<rparr>"
    using r nodit_basic(1) [OF N] by (auto simp: lt_insert_def split: if_splits)
  have es: "entries E l' = insert ((?a, ?b), c) (\<Union>e \<in> entries E l. set (cut (?a, ?b) e))"
    using nodit_insert(2) [OF N I ab] by (simp add: entries_def l')
  have "fits x \<and> snd x \<in> insert c ds" if x: "x \<in> entries E l'" for x
  proof (cases "x = ((?a, ?b), c)")
    case False
    then obtain e where e: "e \<in> entries E l" "x \<in> set (cut (?a, ?b) e)" using x es by auto
    note w = cut_within [OF e(2)]
    have "fits x" using fit [OF e(1)] w by (simp add: fits_def)
    moreover have "snd e \<in> ds"
      using ds [OF e(1)] fit [OF e(1)] cut_covered [of "(?a, ?b)" e] e(2) by (fastforce simp: fits_def)
    ultimately show ?thesis using w(1) by simp
  qed (simp add: fits_def)
  then have 1: "\<forall>e \<in> entries E l'. fits e" and 2: "chunks E l' \<subseteq> insert c ds" by auto
  show ?thesis
    using 1 nodit_insert(1) [OF N I ab] cells_ok_mono [OF st(2) 2] store_ok_mono [OF st(1) 2]
    by (simp add: line_inv_def l')
qed

lemma sequence_some_length: "sequence_some xs = Some ys \<Longrightarrow> length ys = length xs"
  by (induction xs arbitrary: ys rule: sequence_some.induct) auto

lemma sequence_some_nth: "sequence_some xs = Some ys \<Longrightarrow> i < length xs \<Longrightarrow> xs ! i = Some (ys ! i)"
  by (induction xs arbitrary: ys i rule: sequence_some.induct) (auto simp: less_Suc_eq_0_disj)

lemma ch_from_iter_fresh:
  assumes "ch_from_iter E ts earliest vs cells = Some (Some (c, cells'))" "length vs = length ts"
  shows "fresh_chunk cells c" "cells' = cells @ two_blank" "ch_timestamps c = ts" "sb_cpu (ch_data c) = vs"
  using assms
  by (auto simp: ch_from_iter_def fresh_cell_def fresh_chunk_def chunk_cells_def Let_def
      split: if_splits option.splits dest: sequence_some_length)

lemma ch_from_initial_fresh:
  assumes "ch_from_initial_value E t earliest v cells = Some (c, cells')"
  shows "fresh_chunk cells c" "cells' = cells @ two_blank"
  using assms
  by (auto simp: ch_from_initial_value_def sb_default_def fresh_cell_def fresh_chunk_def chunk_cells_def ch_push_def
      sb_push_def set_dirty_def Let_def nth_append list_update_append split: option.splits)

lemma insert_fresh_inv:
  assumes N: "nodit_ok (pe_tree E) I" and l: "line_inv E I l"
    and c: "fresh_chunk (lt_cells l) c" and r: "lt_insert E c (l\<lparr>lt_cells := lt_cells l @ two_blank\<rparr>) = Some l'"
  shows "line_inv E I l'"
proof (rule lt_insert_inv [OF N _ _ r])
  have e: "entries E (l\<lparr>lt_cells := lt_cells l @ two_blank\<rparr>) = entries E l" by (simp add: entries_def)
  note sp = line_inv_split [OF l]
  show "I (lt_tree (l\<lparr>lt_cells := lt_cells l @ two_blank\<rparr>))" using sp(1) by simp
  show "fits x" if "x \<in> entries E (l\<lparr>lt_cells := lt_cells l @ two_blank\<rparr>)" for x using that e sp(2) by simp
  show "store_ok E (lt_writes (l\<lparr>lt_cells := lt_cells l @ two_blank\<rparr>)) (lt_data_alloc (l\<lparr>lt_cells := lt_cells l @ two_blank\<rparr>))
      (lt_time_alloc (l\<lparr>lt_cells := lt_cells l @ two_blank\<rparr>)) (lt_cells (l\<lparr>lt_cells := lt_cells l @ two_blank\<rparr>)) (insert c (chunks E l))"
    "cells_ok (lt_cells (l\<lparr>lt_cells := lt_cells l @ two_blank\<rparr>)) (insert c (chunks E l))"
    using store_add [OF sp(4,3) c] by simp_all
  show "snd x \<in> chunks E l \<or> su_start (ch_summary c) \<le> su_start (ch_summary (snd x)) \<and>
      su_end (ch_summary (snd x)) \<le> su_end (ch_summary c)" if "x \<in> entries E (l\<lparr>lt_cells := lt_cells l @ two_blank\<rparr>)" for x
    using that e by auto
qed

lemma lt_add_series_inv:
  assumes "nodit_ok (pe_tree E) I" "line_inv E I l" "length vs = length ts"
    and "lt_add_series E ts earliest vs l = Some l'"
  shows "line_inv E I l'"
  using assms(4) insert_fresh_inv [OF assms(1,2)] ch_from_iter_fresh [OF _ assms(3)] assms(2)
  by (fastforce simp: lt_add_series_def split: option.splits)

lemma ch_push_shape:
  assumes "ch_push E t earliest v c cells = Some (c', cells')" "cells_ok cells cs" "c \<in> cs"
  shows "sb_cell (ch_data c') = sb_cell (ch_data c)" "sb_cell (ch_times c') = sb_cell (ch_times c)"
    "length (sb_cpu (ch_data c')) = length (ch_timestamps c')" "length (sb_cpu (ch_times c')) = length (ch_timestamps c')"
    "su_len (ch_summary c') = length (ch_timestamps c')"
    "cells' = set_dirty True (sb_cell (ch_data c)) (set_dirty True (sb_cell (ch_times c)) cells)"
    "su_start (ch_summary c') \<le> su_start (ch_summary c)" "su_end (ch_summary c) \<le> su_end (ch_summary c')"
  using assms(1) cells_in [OF assms(2,3)]
  by (auto simp: ch_push_def sb_push_def Let_def split: option.splits)

lemma lt_update_last_inv:
  assumes N: "nodit_ok (pe_tree E) I" and l: "line_inv E I l"
    and r: "lt_update_last E (ch_push E t earliest v) l = Some l'"
  shows "line_inv E I l'"
proof (cases "nd_iter (pe_tree E) (lt_tree l) = []")
  case True
  then show ?thesis using r l nodit_last(1) [OF N line_inv_split(1) [OF l]] by (simp add: lt_update_last_def)
next
  case False
  note sp = line_inv_split [OF l]
  let ?es = "nd_iter (pe_tree E) (lt_tree l)"
  obtain i c where lst: "last ?es = (i, c)" by fastforce
  have c: "c \<in> chunks E l" using False lst last_in_set [OF False] by (force simp: entries_def)
  let ?l = "\<lambda>cells. l\<lparr>lt_tree := nd_remove_last (pe_tree E) (lt_tree l), lt_cells := cells\<rparr>"
  obtain c' cells where p: "ch_push E t earliest v c (lt_cells l) = Some (c', cells)" "lt_insert E c' (?l cells) = Some l'"
    using r nodit_last(1) [OF N sp(1)] False lst by (auto simp: lt_update_last_def split: option.splits)
  note sh = ch_push_shape [OF p(1) sp(3) c]
  have sub: "entries E (?l cells) \<subseteq> entries E l"
    using nodit_last(3) [OF N sp(1)] by (auto simp: entries_def dest: in_set_butlastD)
  have st: "store_ok E (lt_writes l) (lt_data_alloc l) (lt_time_alloc l) cells (insert c' (chunks E l - {c}))"
    "cells_ok cells (insert c' (chunks E l - {c}))"
    using store_push [OF sp(4,3) c sh(1-6)] by blast+
  show ?thesis
  proof (rule lt_insert_inv [OF N _ _ p(2)])
    show "I (lt_tree (?l cells))" using nodit_last(2) [OF N sp(1)] by simp
    show "fits e" if "e \<in> entries E (?l cells)" for e using that sub sp(2) by blast
    show "store_ok E (lt_writes (?l cells)) (lt_data_alloc (?l cells)) (lt_time_alloc (?l cells)) (lt_cells (?l cells))
        (insert c' (chunks E l - {c}))" "cells_ok (lt_cells (?l cells)) (insert c' (chunks E l - {c}))"
      using st by simp_all
    show "snd e \<in> chunks E l - {c} \<or> su_start (ch_summary c') \<le> su_start (ch_summary (snd e)) \<and>
        su_end (ch_summary (snd e)) \<le> su_end (ch_summary c')" if "e \<in> entries E (?l cells)" for e
      using that sub sh(7,8) by (cases "snd e = c") auto
  qed
qed

lemma lt_push_value_inv:
  assumes "nodit_ok (pe_tree E) I" "line_inv E I l" "lt_push_value E t earliest v l = Some l'"
  shows "line_inv E I l'"
  using assms(3) lt_update_last_inv [OF assms(1,2)] insert_fresh_inv [OF assms(1,2)] ch_from_initial_fresh
  by (fastforce simp: lt_push_value_def split: if_splits option.splits)

text \<open>A new allocator has all shards but the first, which holds the gap.\<close>

lemma new_free:
  assumes "bitmap_ok B" "n \<le> 2 ^ 32"
  shows "bm_contains B (fold (\<lambda>i. bm_insert B (i mod 2 ^ 32)) [0..<n] (bm_new B)) j \<longleftrightarrow> j < n"
  using assms(2) by (induction n) (auto simp: bitmap_next(4,6) [OF assms(1)])

lemma with_nan_chunk_new:
  assumes B: "bitmap_ok (pe_bits E)" and r: "with_nan_chunk E b CHUNK_COUNT CHUNK_LEN = Some (al, w)"
  shows "sa_buffer al = b" "sa_chunk_size al = 4 * CHUNK_LEN"
    and "bm_contains (pe_bits E) (sa_free al) j \<longleftrightarrow> 1 \<le> j \<and> j \<le> CHUNK_COUNT"
    and "w = write_buffer_shard (shard_of b 0) (elems_to_le 4 [f32_NAN])"
proof -
  let ?f = "fold (\<lambda>i. bm_insert (pe_bits E) (i mod 2 ^ 32)) [0..<CHUNK_COUNT + 1] (bm_new (pe_bits E))"
  have f: "bm_contains (pe_bits E) ?f j \<longleftrightarrow> j \<le> CHUNK_COUNT" for j
    using new_free [OF B, of "CHUNK_COUNT + 1" j] by (auto simp: CHUNK_COUNT_def)
  obtain i where i: "bm_next (pe_bits E) ?f = Some i"
    using r by (auto simp: with_nan_chunk_def sa_allocate_def sa_new_def simp del: upt_Suc split: option.splits)
  have "i \<le> 0" using bitmap_next(3) [OF B i, of 0] f by simp
  then have e: "al = \<lparr>sa_buffer = b, sa_chunk_size = 4 * CHUNK_LEN, sa_free = bm_remove (pe_bits E) 0 ?f\<rparr>"
    "w = write_buffer_shard (shard_of b 0) (u32_to_le f32_NAN)"
    using r i by (auto simp: with_nan_chunk_def sa_allocate_def sa_new_def shard_of_def simp del: upt_Suc split: option.splits)
  show "sa_buffer al = b" "sa_chunk_size al = 4 * CHUNK_LEN" by (simp_all add: e)
  show "bm_contains (pe_bits E) (sa_free al) j \<longleftrightarrow> 1 \<le> j \<and> j \<le> CHUNK_COUNT"
    using f by (simp add: e bitmap_next(5) [OF B] del: upt_Suc) auto
  show "w = write_buffer_shard (shard_of b 0) (elems_to_le 4 [f32_NAN])" by (simp add: e elems_to_le_def u32_to_le_def)
qed

lemma get_allocs_owned:
  assumes B: "bitmap_ok (pe_bits E)" and b: "bd \<noteq> bt" and st: "store_ok E ws da ta cells cs"
    and r: "get_alloc E bd da = Some (da', w1)" "get_alloc E bt ta = Some (ta', w2)"
  shows "owned E (ws @ w1 @ w2) da' ta' cells cs"
  using st
proof (cases rule: store_ok_cases)
  case 1
  obtain x y where x: "with_nan_chunk E bd CHUNK_COUNT CHUNK_LEN = Some (da', x)" "w1 = [x]"
    and y: "with_nan_chunk E bt CHUNK_COUNT CHUNK_LEN = Some (ta', y)" "w2 = [y]"
    using r 1(1,2) by (auto simp: get_alloc_def)
  note nx = with_nan_chunk_new [OF B x(1)] and ny = with_nan_chunk_new [OF B y(1)]
  have n: "gpu_holds (ws @ [x]) bd 0 f32_NAN" "gpu_holds ((ws @ [x]) @ [y]) bt 0 f32_NAN"
    using write_shard_holds [of 0 "[f32_NAN]" ws bd 0] write_shard_holds [of 0 "[f32_NAN]" "ws @ [x]" bt 0]
    by (simp_all add: nx(4) ny(4) CHUNK_LEN_def)
  have "gpu_holds ((ws @ [x]) @ [y]) bd 0 f32_NAN"
    using n(1) write_shard_frame [of bd bt 0 0 "ws @ [x]"] b by (simp only: ny(4) simp_thms)
  then have "allocs_ok E (ws @ w1 @ w2) da' ta'" using n nx ny b by (simp add: allocs_ok_def x(2) y(2))
  then show ?thesis using 1(3) blank_not_placed unfolding owned_def by blast
qed (use r in \<open>auto simp: get_alloc_def\<close>)

lemma range_iter_chunks:
  assumes "nodit_ok (pe_tree E) I" "I (lt_tree l)" "lt_range_iter E a b l = Some cs"
  shows "a \<le> b" "set cs = snd ` {((lo, hi), c) \<in> entries E l. lo \<le> b \<and> a \<le> hi}" "set cs \<subseteq> chunks E l"
proof -
  show "a \<le> b" using assms(3) nodit_basic(1) [OF assms(1)] by (auto simp: lt_range_iter_def split: if_splits)
  then have "cs = map snd (filter (\<lambda>((lo, hi), c). lo \<le> b \<and> a \<le> hi) (nd_iter (pe_tree E) (lt_tree l)))"
    using assms(3) nodit_basic(1) [OF assms(1)] nodit_overlapping [OF assms(1,2), of "(a, b)"]
    by (simp add: lt_range_iter_def)
  then show e: "set cs = snd ` {((lo, hi), c) \<in> entries E l. lo \<le> b \<and> a \<le> hi}" by (auto simp: entries_def)
  show "set cs \<subseteq> chunks E l" unfolding e by auto
qed

text \<open>Loading a range: the chunks of the range are loaded, and the line is as before otherwise.\<close>

lemma lt_queue_load_range_inv:
  assumes B: "bitmap_ok (pe_bits E)" and N: "nodit_ok (pe_tree E) I" and b: "fst bufs \<noteq> snd bufs"
    and l: "line_inv E I l" and r: "lt_queue_load_range E bufs a b l = Some l'"
  obtains cs da ta where "line_inv E I l'" "lt_tree l' = lt_tree l" "lt_range_iter E a b l = Some cs"
    "lt_data_alloc l' = Some da" "lt_time_alloc l' = Some ta"
    "owned E (lt_writes l') da ta (lt_cells l') (chunks E l)" "\<forall>c \<in> set cs. loaded (lt_cells l') c"
proof -
  note sp = line_inv_split [OF l]
  obtain cs da w1 ta w2 where g: "get_alloc E (fst bufs) (lt_data_alloc l) = Some (da, w1)"
    "get_alloc E (snd bufs) (lt_time_alloc l) = Some (ta, w2)" "lt_range_iter E a b l = Some cs"
    using r by (auto simp: lt_queue_load_range_def split: option.splits prod.splits)
  obtain cells da' ta' w3 where ld: "load_chunks E cs (lt_cells l) da ta = (cells, da', ta', w3)" by (metis prod_cases4)
  have l': "l' = l\<lparr>lt_data_alloc := Some da', lt_time_alloc := Some ta', lt_cells := cells,
      lt_writes := lt_writes l @ w1 @ w2 @ w3\<rparr>"
    using r g ld by (simp add: lt_queue_load_range_def)
  note o = get_allocs_owned [OF B b sp(4) g(1,2)]
  note k = load_chunks_owned [OF B o sp(3) range_iter_chunks(3) [OF N sp(1) g(3)] ld]
  have e: "entries E l' = entries E l" by (simp add: entries_def l')
  have "cells_ok cells (chunks E l)" using cells_ok_length [OF sp(3)] k by blast
  then have "line_inv E I l'" using sp k e by (simp add: line_inv_def l' store_ok_def)
  then show ?thesis using that [of cs da' ta'] k g(3) range_iter_chunks(3) [OF N sp(1) g(3)] by (auto simp: l')
qed

lemma dealloc_shard:
  assumes "sa_chunk_size al = 4 * CHUNK_LEN" "sa_buffer al = b" "i \<le> CHUNK_COUNT"
  shows "sa_dealloc E (shard_of b i) al = Some (al\<lparr>sa_free := bm_insert (pe_bits E) i (sa_free al)\<rparr>)"
  using assms by (simp add: sa_dealloc_def shard_of_def CHUNK_LEN_def CHUNK_COUNT_def)

text \<open>Taking both shards of a chunk back.\<close>

lemma collect_owned:
  assumes B: "bitmap_ok (pe_bits E)" and o: "owned E ws da ta cells cs" and c: "cells_ok cells cs" "c \<in> cs"
    and p: "placed ws (sa_buffer da) (sa_buffer ta) cells c i"
    and da': "da' = da\<lparr>sa_free := bm_insert (pe_bits E) i (sa_free da)\<rparr>"
    and ta': "ta' = ta\<lparr>sa_free := bm_insert (pe_bits E) i (sa_free ta)\<rparr>"
    and cells': "cells' = cells[sb_cell (ch_times c) := \<lparr>ce_gpu = None, ce_dirty = True\<rparr>,
        sb_cell (ch_data c) := \<lparr>ce_gpu = None, ce_dirty = True\<rparr>]"
  shows "owned E ws da' ta' cells' cs"
proof -
  let ?bd = "sa_buffer da" and ?bt = "sa_buffer ta"
  have same: "sa_buffer da' = ?bd" "sa_buffer ta' = ?bt" by (simp_all add: da' ta')
  have free: "bm_contains (pe_bits E) (sa_free da') j \<longleftrightarrow> j = i \<or> bm_contains (pe_bits E) (sa_free da) j" for j
    by (simp add: da' bitmap_next(4) [OF B])
  have a: "allocs_ok E ws da' ta'"
    using owned_split(1) [OF o] placed_cells(4) [OF p] by (auto simp: allocs_ok_def da' ta' bitmap_next(4) [OF B])
  have own: "blank cells' c" using own_set [OF c cells'] by (simp add: blank_def)
  have kept: "data_cell cells' d = data_cell cells d" "time_cell cells' d = time_cell cells d" if "d \<in> cs" "d \<noteq> c" for d
    using others_kept [OF c that(1) that(2) [symmetric] cells'] by blast+
  have pl: "placed ws ?bd ?bt cells' d j \<longleftrightarrow> placed ws ?bd ?bt cells d j" "blank cells' d \<longleftrightarrow> blank cells d"
    if "d \<in> cs" "d \<noteq> c" for d j
    using placed_cong blank_cong kept [OF that] by metis+
  have "blank cells' d \<or> (\<exists>j. placed ws ?bd ?bt cells' d j \<and> \<not> bm_contains (pe_bits E) (sa_free da') j)" if d: "d \<in> cs" for d
  proof (cases "d = c \<or> blank cells d")
    case True
    then show ?thesis using own pl(2) [OF d] by blast
  next
    case False
    then obtain j where j: "placed ws ?bd ?bt cells d j" "\<not> bm_contains (pe_bits E) (sa_free da) j"
      using owned_split(2) [OF o d] by blast
    then have "j \<noteq> i" using owned_split(3) [OF o d c(2) _ p] False by blast
    then show ?thesis using j pl(1) [OF d] False free by blast
  qed
  moreover have "d = e" if "d \<in> cs" "e \<in> cs" "placed ws ?bd ?bt cells' d j" "placed ws ?bd ?bt cells' e j" for d e j
  proof -
    have "d \<noteq> c" "e \<noteq> c" using own blank_not_placed that by blast+
    then show ?thesis using pl(1) that owned_split(3) [OF o] by blast
  qed
  ultimately show ?thesis using a unfolding owned_def same by blast
qed

lemma collect_chunk_inv:
  assumes B: "bitmap_ok (pe_bits E)" and l: "line_inv E I l" and c: "c \<in> chunks E l"
  shows "\<exists>l'. collect_chunk E c l = Some l' \<and> line_inv E I l' \<and> lt_tree l' = lt_tree l \<and> blank (lt_cells l') c"
proof -
  note sp = line_inv_split [OF l]
  note ci = cells_in [OF sp(3) c]
  show ?thesis
    using sp(4)
  proof (cases rule: store_ok_cases)
    case 1
    then have "collect_chunk E c l = Some l" by (simp add: collect_chunk_def free_cell_def)
    moreover have "blank (lt_cells l) c" using 1(3) c by blast
    ultimately show ?thesis using l by simp
  next
    case (2 da ta)
    let ?cells = "(lt_cells l)[sb_cell (ch_times c) := \<lparr>ce_gpu = None, ce_dirty = True\<rparr>,
        sb_cell (ch_data c) := \<lparr>ce_gpu = None, ce_dirty = True\<rparr>]"
    show ?thesis
    proof (cases "blank (lt_cells l) c")
      case True
      then have "collect_chunk E c l = Some l" by (simp add: collect_chunk_def free_cell_def blank_def split: option.splits)
      then show ?thesis using l True by simp
    next
      case False
      then obtain i where p: "placed (lt_writes l) (sa_buffer da) (sa_buffer ta) (lt_cells l) c i"
        using owned_split(2) [OF 2(3) c] by blast
      let ?da = "da\<lparr>sa_free := bm_insert (pe_bits E) i (sa_free da)\<rparr>"
      let ?ta = "ta\<lparr>sa_free := bm_insert (pe_bits E) i (sa_free ta)\<rparr>"
      let ?l = "l\<lparr>lt_cells := ?cells, lt_data_alloc := Some ?da, lt_time_alloc := Some ?ta\<rparr>"
      have al: "sa_chunk_size da = 4 * CHUNK_LEN" "sa_chunk_size ta = 4 * CHUNK_LEN"
        using owned_split(1) [OF 2(3)] by (simp_all add: allocs_ok_def)
      have sw: "(lt_cells l)[sb_cell (ch_data c) := x, sb_cell (ch_times c) := y] =
          (lt_cells l)[sb_cell (ch_times c) := y, sb_cell (ch_data c) := x]" for x y
        using ci(3) by (rule list_update_swap)
      have r: "collect_chunk E c l = Some ?l"
        using placed_cells [OF p] dealloc_shard [OF al(1) refl, of i E] dealloc_shard [OF al(2) refl, of i E] 2(1,2) ci(3)
        by (simp add: collect_chunk_def free_cell_def sw)
      have e: "entries E ?l = entries E l" by (simp add: entries_def)
      have o: "owned E (lt_writes l) ?da ?ta ?cells (chunks E l)"
        by (rule collect_owned [OF B 2(3) sp(3) c p]) (rule refl)+
      have "line_inv E I ?l"
        using sp(1,2) cells_ok_length [OF sp(3), of ?cells] o unfolding line_inv_def e by (simp add: store_ok_def)
      then show ?thesis using r own_set [OF sp(3) c refl] by (auto simp: blank_def)
    qed
  qed
qed

lemma collect_chunks_inv:
  assumes "bitmap_ok (pe_bits E)" "line_inv E I l" "snd ` set es \<subseteq> chunks E l"
  shows "\<exists>l'. collect_chunks E a b es l = Some l' \<and> line_inv E I l' \<and> lt_tree l' = lt_tree l"
  using assms(2,3)
proof (induction es arbitrary: l)
  case (Cons x es)
  obtain lo hi c where x: "x = ((lo, hi), c)" by (metis prod.collapse)
  have in': "c \<in> chunks E l" "snd ` set es \<subseteq> chunks E l" using Cons.prems(2) by (auto simp: x)
  show ?case
  proof (cases "a \<le> lo \<and> lo < b \<or> a \<le> hi \<and> hi < b")
    case True
    then show ?thesis using Cons.IH [OF Cons.prems(1) in'(2)] by (simp add: x)
  next
    case False
    obtain l1 where l1: "collect_chunk E c l = Some l1" "line_inv E I l1" "lt_tree l1 = lt_tree l"
      using collect_chunk_inv [OF assms(1) Cons.prems(1) in'(1)] by blast
    then have "entries E l1 = entries E l" by (simp add: entries_def)
    moreover have "collect_chunks E a b (x # es) l = collect_chunks E a b es l1" using l1(1) False by (auto simp: x)
    ultimately show ?thesis using Cons.IH [OF l1(2)] in'(2) l1(3) by simp
  qed
qed simp

text \<open>Collection never trips over a shard; it only panics where an interval is empty.\<close>

lemma lt_garbage_collect_inv:
  assumes "bitmap_ok (pe_bits E)" "nodit_ok (pe_tree E) I" "line_inv E I l" "lt_garbage_collect E a b l = Some l'"
  shows "line_inv E I l' \<and> lt_tree l' = lt_tree l"
proof -
  have sub: "snd ` set (nd_overlapping (pe_tree E) i (lt_tree l) @ nd_overlapping (pe_tree E) j (lt_tree l)) \<subseteq> chunks E l" for i j
    using nodit_overlapping [OF assms(2) line_inv_split(1) [OF assms(3)]] by (auto simp: entries_def)
  obtain i j where "collect_chunks E a b (nd_overlapping (pe_tree E) i (lt_tree l) @ nd_overlapping (pe_tree E) j (lt_tree l)) l = Some l'"
    using assms(4) by (auto simp: lt_garbage_collect_def split: option.splits)
  then show ?thesis using collect_chunks_inv [OF assms(1,3) sub] by (metis option.inject)
qed

section \<open>Runs\<close>

text \<open>
  What happens to a line, in any order.  A reply brings as many values as times; the device
  gives two buffers.
\<close>

inductive line_run :: "('b, 't) plot_env \<Rightarrow> ('b, 't) line_tree \<Rightarrow> bool" for E where
  lr_new: "line_run E (lt_default E)"
| lr_series: "line_run E l \<Longrightarrow> length vs = length ts \<Longrightarrow> lt_add_series E ts earliest vs l = Some l' \<Longrightarrow> line_run E l'"
| lr_value: "line_run E l \<Longrightarrow> lt_push_value E t earliest v l = Some l' \<Longrightarrow> line_run E l'"
| lr_load: "line_run E l \<Longrightarrow> fst bufs \<noteq> snd bufs \<Longrightarrow> lt_queue_load_range E bufs a b l = Some l' \<Longrightarrow> line_run E l'"
| lr_collect: "line_run E l \<Longrightarrow> lt_garbage_collect E a b l = Some l' \<Longrightarrow> line_run E l'"

lemma line_run_inv:
  assumes "line_run E l" "bitmap_ok (pe_bits E)" "nodit_ok (pe_tree E) I"
  shows "line_inv E I l"
  using assms(1)
proof induction
  case lr_new
  show ?case
    using nodit_basic(2,3) [OF assms(3)]
    by (simp add: line_inv_def lt_default_def entries_def cells_ok_def store_ok_def)
next
  case (lr_series l vs ts earliest l')
  then show ?case using lt_add_series_inv [OF assms(3)] by blast
next
  case (lr_value l t earliest v l')
  then show ?case using lt_push_value_inv [OF assms(3)] by blast
next
  case (lr_load l bufs a b l')
  then show ?case using lt_queue_load_range_inv [OF assms(2,3)] by metis
next
  case (lr_collect l a b l')
  then show ?case using lt_garbage_collect_inv [OF assms(2,3)] by blast
qed

end
