(* ===== verification/PlotDraw.thy ===== *)
theory PlotDraw
  imports PlotBuffersCorrect ValueCorrect
begin

text \<open>
  The index buffer of a plot: what is written to it, that it fits, and that after any history
  of a line every index reads a sample of a visible chunk, or the gap between chunks.
\<close>

section \<open>The entries written\<close>

definition chunk_entries :: "nat \<Rightarrow> nat list \<Rightarrow> nat list" where
  "chunk_entries step ids =
     0 # (case ids of [] \<Rightarrow> [] | x # rest \<Rightarrow> x # step_by step rest @ [last ids]) @ [0]"

definition line_entries :: "nat \<Rightarrow> index_chunk list \<Rightarrow> nat list" where
  "line_entries step ics = concat (map (\<lambda>ic. chunk_entries step (into_index_iter ic)) ics)"

lemma append_all: "fold append_u32 xs (ys, 4 * m) = (ys @ take m xs, 4 * (m - length xs))"
proof (induction xs arbitrary: ys m)
  case (Cons x xs)
  show ?case
  proof (cases m)
    case 0
    then show ?thesis using Cons.IH [of ys 0] by simp
  next
    case (Suc m')
    then show ?thesis using Cons.IH [of "ys @ [x]" m'] by simp
  qed
qed simp

lemma write_chunk_entries:
  "write_chunk step ic (view, count) =
     (fold append_u32 (chunk_entries step (into_index_iter ic)) view, count + length (chunk_entries step (into_index_iter ic)))"
  by (simp add: write_chunk_def chunk_entries_def Let_def split: list.splits)

lemma write_chunks_entries:
  "fold (write_chunk step) ics (view, count) =
     (fold append_u32 (line_entries step ics) view, count + length (line_entries step ics))"
proof (induction ics arbitrary: view count)
  case (Cons ic ics)
  show ?case by (simp add: write_chunk_entries Cons.IH) (simp add: line_entries_def)
qed (simp add: line_entries_def)

lemma write_to_index_buffer_entries:
  assumes "lt_write_to_index_buffer E a b w l = Some (xs, count)"
  obtains ics step skip where "lt_draw_index_chunk_iter E a b l = Some ics"
    "xs = take INDEX_BUFFER_LEN (line_entries step (step_by skip ics))" "count = length (line_entries step (step_by skip ics))"
proof -
  obtain k n px d q r ics where *: "lt_draw_index_count E a b l = Some (k, n)" "usize_mul E w 4 = Some px"
    "usize_sub E (min INDEX_BUFFER_LEN px) (6 * k) = Some d" "div_ceil n d = Some q"
    "div_ceil (k * 6) (min INDEX_BUFFER_LEN px) = Some r" "lt_draw_index_chunk_iter E a b l = Some ics"
    using assms by (auto simp: lt_write_to_index_buffer_def Let_def split: option.splits prod.splits)
  have "(xs, count) = (take INDEX_BUFFER_LEN (line_entries (max q 1) (step_by (max r 1) ics)),
      length (line_entries (max q 1) (step_by (max r 1) ics)))"
    using assms * append_all [of _ "[]" INDEX_BUFFER_LEN]
    by (simp add: lt_write_to_index_buffer_def write_chunks_entries mult.commute [of INDEX_BUFFER_LEN])
  then show ?thesis using that [OF *(6)] by simp
qed

section \<open>The index buffer is large enough\<close>

lemma step_by_bound: "0 < n \<Longrightarrow> n * length (step_by n xs) \<le> length xs + (n - 1)"
proof (induction n xs rule: step_by.induct)
  case (2 n x xs)
  then have "n * length (step_by n (x # xs)) \<le> n + (length xs - (n - 1) + (n - 1))" by simp
  also have "\<dots> \<le> length (x # xs) + (n - 1)" if "n - 1 \<le> length xs" using that 2(2) by simp
  finally show ?case
  proof (cases "n - 1 \<le> length xs")
    case False
    then have "step_by n (x # xs) = [x]" by simp
    then show ?thesis by simp
  qed simp
qed simp

lemma step_by_one [simp]: "step_by (Suc 0) xs = xs"
  by (induction "Suc 0" xs rule: step_by.induct) simp_all

lemma set_step_by: "set (step_by n xs) \<subseteq> set xs"
proof (induction n xs rule: step_by.induct)
  case (2 n x xs)
  then show ?case using set_drop_subset [of "n - 1" xs] by auto
qed simp

lemma chunk_entries_bound:
  assumes "0 < s"
  shows "s * length (chunk_entries s ids) \<le> 5 * s + length ids"
proof (cases ids)
  case (Cons x rest)
  have "s * length (step_by s rest) \<le> length rest + (s - 1)" by (rule step_by_bound [OF assms])
  then show ?thesis using assms by (simp add: chunk_entries_def Cons algebra_simps)
qed (simp add: chunk_entries_def)

lemma line_entries_bound:
  assumes "0 < s"
  shows "s * length (line_entries s ics) \<le> 5 * s * length ics + (\<Sum>ic \<leftarrow> ics. length (into_index_iter ic))"
proof (induction ics)
  case (Cons ic ics)
  have "s * length (line_entries s (ic # ics)) =
      s * length (chunk_entries s (into_index_iter ic)) + s * length (line_entries s ics)"
    by (simp add: line_entries_def algebra_simps)
  also have "\<dots> \<le> (5 * s + length (into_index_iter ic)) + (5 * s * length ics + (\<Sum>ic \<leftarrow> ics. length (into_index_iter ic)))"
    by (intro add_mono chunk_entries_bound [OF assms] Cons.IH)
  finally show ?case by (simp add: algebra_simps)
qed (simp add: line_entries_def)

lemma div_ceil_bound: "div_ceil a b = Some q \<Longrightarrow> 0 < b \<and> a \<le> q * b"
proof -
  assume q: "div_ceil a b = Some q"
  then have b: "0 < b" by (auto simp: div_ceil_def split: if_splits)
  have "a mod b \<le> b" using b by (intro less_imp_le) simp
  then have "a \<le> a div b * b + b" using div_mult_mod_eq [of a b] by linarith
  then have "a \<le> q * b" using q b by (auto simp: div_ceil_def split: if_splits)
  then show ?thesis using b by blast
qed

lemma div_ceil_one: "a \<le> b \<Longrightarrow> 0 < b \<Longrightarrow> \<exists>q. div_ceil a b = Some q \<and> q \<le> 1"
  by (cases "a = b") (auto simp: div_ceil_def)

lemma sum_counts: "(\<Sum>ic \<leftarrow> ics. length (into_index_iter ic) + 6) = (\<Sum>ic \<leftarrow> ics. length (into_index_iter ic)) + 6 * length ics"
  by (induction ics) simp_all

text \<open>C22. While six entries for each chunk leave room, the index buffer holds all that is
  written: nothing is cut off, the count returned is the number of entries, and every visible
  chunk has its part, with its first and last index.
\<close>

theorem index_buffer_fits:
  assumes "lt_draw_index_chunk_iter E a b l = Some ics" "w * 4 < 2 ^ 64"
    and "6 * length ics < min INDEX_BUFFER_LEN (w * 4)"
  shows "\<exists>step \<ge> 1. \<exists>xs. lt_write_to_index_buffer E a b w l = Some (xs, length xs) \<and>
    xs = concat (map (\<lambda>ic. chunk_entries step (into_index_iter ic)) ics) \<and>
    length xs + length ics \<le> min INDEX_BUFFER_LEN (w * 4)"
proof -
  let ?D = "min INDEX_BUFFER_LEN (w * 4)" and ?k = "length ics"
  let ?n = "\<Sum>ic \<leftarrow> ics. length (into_index_iter ic) + 6"
  have c: "lt_draw_index_count E a b l = Some (?k, ?n)" by (simp add: lt_draw_index_count_def assms(1))
  have px: "usize_mul E w 4 = Some (w * 4)" using assms(2) by (simp add: usize_mul_def)
  have d: "usize_sub E ?D (6 * ?k) = Some (?D - 6 * ?k)" using assms(3) by (simp add: usize_sub_def)
  obtain q where q: "div_ceil ?n (?D - 6 * ?k) = Some q" using assms(3) by (simp add: div_ceil_def)
  obtain r where r: "div_ceil (?k * 6) ?D = Some r" "r \<le> 1" using div_ceil_one [of "?k * 6" ?D] assms(3) by auto
  then have r1: "max r 1 = Suc 0" by simp
  let ?s = "max q 1"
  have eq: "lt_write_to_index_buffer E a b w l =
      Some (take INDEX_BUFFER_LEN (line_entries ?s ics), length (line_entries ?s ics))"
    using c px d q r append_all [of "line_entries ?s ics" "[]" INDEX_BUFFER_LEN] assms(1) r1
    by (simp add: lt_write_to_index_buffer_def write_chunks_entries mult.commute [of INDEX_BUFFER_LEN])
  have "?n \<le> ?s * (?D - 6 * ?k)" 
    using div_ceil_bound [OF q] by (intro le_trans [OF _ mult_le_mono1 [of q ?s "?D - 6 * ?k"]]) simp_all
  then have "?s * length (line_entries ?s ics) + 6 * ?k \<le> 5 * ?s * ?k + ?s * (?D - 6 * ?k)"
    using line_entries_bound [of ?s ics] sum_counts [of ics] by linarith
  then have "?s * length (line_entries ?s ics) \<le> ?s * (5 * ?k + (?D - 6 * ?k))" by (simp add: algebra_simps)
  then have "length (line_entries ?s ics) \<le> 5 * ?k + (?D - 6 * ?k)" by simp
  then have len: "length (line_entries ?s ics) + ?k \<le> ?D" using assms(3) by linarith
  then have "take INDEX_BUFFER_LEN (line_entries ?s ics) = line_entries ?s ics" by simp
  then show ?thesis using eq len by (intro exI [of _ ?s]) (simp add: line_entries_def)
qed

text \<open>
  A plot that has more chunks than that, for its width: the subtraction underflows before the
  step over chunks, which is there for this case, is of any use.
\<close>

lemma crowded_plot:
  assumes "pe_debug E" "lt_draw_index_chunk_iter E a b l = Some ics" "w * 4 < 2 ^ 64"
    and "min INDEX_BUFFER_LEN (w * 4) \<le> 6 * length ics"
  shows "lt_write_to_index_buffer E a b w l = None"
proof -
  let ?D = "min INDEX_BUFFER_LEN (w * 4)"
  have "lt_draw_index_count E a b l = Some (length ics, \<Sum>ic \<leftarrow> ics. length (into_index_iter ic) + 6)"
    by (simp add: lt_draw_index_count_def assms(2))
  moreover have "usize_mul E w 4 = Some (w * 4)" using assms(3) by (simp add: usize_mul_def)
  moreover have "usize_sub E ?D (6 * length ics) = (if ?D = 6 * length ics then Some 0 else None)"
  proof (cases "?D = 6 * length ics")
    case True
    then show ?thesis unfolding usize_sub_def True by simp
  next
    case False
    then have "\<not> 6 * length ics \<le> ?D" using assms(4) by linarith
    then show ?thesis using assms(1) False by (simp only: usize_sub_def if_False if_True)
  qed
  moreover have "div_ceil n 0 = None" for n by (simp add: div_ceil_def)
  ultimately show ?thesis by (simp add: lt_write_to_index_buffer_def Let_def)
qed

text \<open>
  A phase plot counts every value it has, also those that no longer fit the index buffer.
\<close>

lemma xy_count:
  assumes "\<forall>b \<in> set (xy_x_values l). ce_gpu (xy_cells l ! sb_cell b) \<noteq> None"
  shows "snd (xy_write_to_index_buffer l) = (\<Sum>b \<leftarrow> xy_x_values l. length (sb_cpu b))"
    and "length (fst (xy_write_to_index_buffer l)) \<le> INDEX_BUFFER_LEN"
proof -
  have loop: "snd (xy_write_loop cells bs view n) = n + (\<Sum>b \<leftarrow> bs. length (sb_cpu b))"
    if "\<forall>b \<in> set bs. ce_gpu (cells ! sb_cell b) \<noteq> None" for cells bs view n
    using that
  proof (induction bs arbitrary: view n)
    case (Cons b bs)
    obtain s where "ce_gpu (cells ! sb_cell b) = Some s" using Cons.prems by auto
    then show ?case using Cons.prems by (simp add: Cons.IH)
  qed simp
  show "snd (xy_write_to_index_buffer l) = (\<Sum>b \<leftarrow> xy_x_values l. length (sb_cpu b))"
    using loop [OF assms] by (simp add: xy_write_to_index_buffer_def)
  have room: "4 * length (fst (xy_write_loop cells bs (ys, 4 * m) n)) \<le> 4 * (length ys + m)" for cells bs ys m n
  proof (induction bs arbitrary: ys m n)
    case (Cons b bs)
    show ?case
    proof (cases "ce_gpu (cells ! sb_cell b)")
      case (Some s)
      let ?ids = "into_index_iter (as_index_chunk 4 (length (sb_cpu b)) s)"
      show ?thesis using Cons.IH [of "ys @ take m ?ids" "m - length ?ids" "n + length (sb_cpu b)"] Some
        by (simp add: append_all min_def split: if_splits)
    qed simp
  qed simp
  show "length (fst (xy_write_to_index_buffer l)) \<le> INDEX_BUFFER_LEN"
    using room [of "xy_cells l" "xy_x_values l" "[]" INDEX_BUFFER_LEN 0]
    by (simp add: xy_write_to_index_buffer_def mult.commute [of INDEX_BUFFER_LEN])
qed

text \<open>A chunk that covers the whole visible range has no end in it, so its shards are taken back.\<close>

lemma covering_chunk_freed:
  assumes "bitmap_ok (pe_bits E)" "line_inv E I l" "c \<in> chunks E l" "lo < a" "b \<le> hi"
  shows "\<exists>l'. collect_chunks E a b [((lo, hi), c)] l = Some l' \<and> blank (lt_cells l') c"
  using collect_chunk_inv [OF assms(1-3)] assms(4,5) by auto

text \<open>A buffer has one shard more, for the gap, than the part of it that is bound: the last one lies outside.\<close>

lemma last_shard_unbound: "VALUE_BUFFER_SIZE \<le> sh_start (shard_of b CHUNK_COUNT)"
  by (simp add: VALUE_BUFFER_SIZE_def shard_of_def)

section \<open>What an index reads\<close>

lemma index_chunk_of_shard:
  assumes "i \<le> CHUNK_COUNT"
  shows "as_index_chunk 4 n (shard_of b i) = \<lparr>ic_start = CHUNK_LEN * i, ic_end = CHUNK_LEN * (i + 1), ic_len = n\<rparr>"
proof -
  have "i * (4 * CHUNK_LEN) div 4 = CHUNK_LEN * i" "(i + 1) * (4 * CHUNK_LEN) div 4 = CHUNK_LEN * (i + 1)"
    by (simp_all add: CHUNK_LEN_def)
  then show ?thesis using assms by (simp add: as_index_chunk_def shard_of_def CHUNK_LEN_def CHUNK_COUNT_def)
qed

lemma index_iter_shard:
  "set (into_index_iter \<lparr>ic_start = CHUNK_LEN * i, ic_end = CHUNK_LEN * (i + 1), ic_len = n\<rparr>) =
     (\<lambda>k. CHUNK_LEN * i + k) ` {..<min n CHUNK_LEN}"
proof -
  have "take n [CHUNK_LEN * i..<CHUNK_LEN * (i + 1)] = [CHUNK_LEN * i..<CHUNK_LEN * i + min n CHUNK_LEN]"
    by (cases "n \<le> CHUNK_LEN") (simp_all add: min_def take_upt add.commute)
  then show ?thesis by (auto simp: into_index_iter_def image_iff Bex_def intro: le_Suc_ex dest!: le_Suc_ex)
qed

lemma set_chunk_entries: "set (chunk_entries step ids) \<subseteq> insert 0 (set ids)"
proof (cases ids)
  case (Cons x rest)
  have "set (step_by step rest) \<subseteq> set rest" by (rule set_step_by)
  then show ?thesis using last_in_set [of rest] by (auto simp: chunk_entries_def Cons)
qed (simp add: chunk_entries_def)

lemma set_line_entries: "set (line_entries step ics) \<subseteq> insert 0 (\<Union>ic \<in> set ics. set (into_index_iter ic))"
  using set_chunk_entries by (fastforce simp: line_entries_def)

lemma draw_index_chunk_owned:
  assumes "owned E ws da ta cells cs" "cells_ok cells cs" "c \<in> cs"
  shows "(blank cells c \<and> draw_index_chunk E cells c = Some None) \<or>
    (\<exists>i. placed ws (sa_buffer da) (sa_buffer ta) cells c i \<and> draw_index_chunk E cells c =
       Some (Some \<lparr>ic_start = CHUNK_LEN * i, ic_end = CHUNK_LEN * (i + 1), ic_len = length (ch_timestamps c)\<rparr>))"
proof (cases "blank cells c")
  case True
  then show ?thesis by (simp add: draw_index_chunk_def blank_def)
next
  case False
  then obtain i where p: "placed ws (sa_buffer da) (sa_buffer ta) cells c i"
    using owned_split(2) [OF assms(1,3)] by blast
  have "i \<le> CHUNK_COUNT" using placed_cells(4) [OF p] by blast
  then show ?thesis
    using p placed_cells(1,2) [OF p] cells_in(6) [OF assms(2,3)]
    by (intro disjI2 exI [of _ i]) (simp add: draw_index_chunk_def index_chunk_of_shard Let_def)
qed

lemma sequence_some_map: "(\<And>x. x \<in> set xs \<Longrightarrow> f x \<noteq> None) \<Longrightarrow> sequence_some (map f xs) = Some (map (\<lambda>x. the (f x)) xs)"
proof (induction xs)
  case (Cons x xs)
  obtain y where "f x = Some y" using Cons.prems by fastforce
  then show ?case using Cons.IH Cons.prems by simp
qed simp

text \<open>What is at an index: the gap, or the sample \<open>k\<close> of a chunk.\<close>

definition gap_at :: "('b, 't) line_tree \<Rightarrow> nat \<Rightarrow> bool" where
  "gap_at l x \<longleftrightarrow> gpu_holds (lt_writes l) (sa_buffer (the (lt_data_alloc l))) x f32_NAN \<and>
     gpu_holds (lt_writes l) (sa_buffer (the (lt_time_alloc l))) x f32_NAN"

definition sample_at :: "('b, 't) line_tree \<Rightarrow> nat \<Rightarrow> plot_chunk \<Rightarrow> nat \<Rightarrow> bool" where
  "sample_at l x c k \<longleftrightarrow> k < length (ch_timestamps c) \<and>
     gpu_holds (lt_writes l) (sa_buffer (the (lt_data_alloc l))) x (sb_cpu (ch_data c) ! k) \<and>
     gpu_holds (lt_writes l) (sa_buffer (the (lt_time_alloc l))) x (sb_cpu (ch_times c) ! k)"

lemma drawn_indices:
  assumes B: "bitmap_ok (pe_bits E)" and N: "nodit_ok (pe_tree E) I" and b: "fst bufs \<noteq> snd bufs"
    and l: "line_inv E I l" and r: "lt_queue_load_range E bufs a b l = Some l'"
  obtains ics cs where "lt_draw_index_chunk_iter E a b l' = Some ics" "lt_range_iter E a b l = Some cs" "gap_at l' 0"
    "\<forall>ic \<in> set ics. \<forall>x \<in> set (into_index_iter ic). \<exists>c \<in> set cs. \<exists>k. sample_at l' x c k"
proof -
  obtain cs da ta where q: "line_inv E I l'" "lt_tree l' = lt_tree l" "lt_range_iter E a b l = Some cs"
    "lt_data_alloc l' = Some da" "lt_time_alloc l' = Some ta"
    "owned E (lt_writes l') da ta (lt_cells l') (chunks E l)" "\<forall>c \<in> set cs. loaded (lt_cells l') c"
    using lt_queue_load_range_inv [OF B N b l r] by metis
  have e: "chunks E l' = chunks E l" "lt_range_iter E a b l' = Some cs"
    using q(2,3) by (simp_all add: entries_def lt_range_iter_def)
  have ok: "cells_ok (lt_cells l') (chunks E l)" using line_inv_split(3) [OF q(1)] e by simp
  have sub: "set cs \<subseteq> chunks E l" using range_iter_chunks(3) [OF N line_inv_split(1) [OF l] q(3)] .
  note dr = draw_index_chunk_owned [OF q(6) ok]
  let ?f = "draw_index_chunk E (lt_cells l')"
  have "?f c \<noteq> None" if "c \<in> set cs" for c using dr that sub by fastforce
  then have it: "lt_draw_index_chunk_iter E a b l' = Some (map the (filter (\<lambda>x. x \<noteq> None) (map (\<lambda>c. the (?f c)) cs)))"
    using sequence_some_map [of cs ?f] by (simp add: lt_draw_index_chunk_iter_def e(2))
  have "\<exists>c \<in> set cs. \<exists>k. sample_at l' x c k"
    if ic: "ic \<in> set (map the (filter (\<lambda>x. x \<noteq> None) (map (\<lambda>c. the (?f c)) cs)))" "x \<in> set (into_index_iter ic)" for ic x
  proof -
    obtain c where c: "c \<in> set cs" "the (?f c) \<noteq> None" "ic = the (the (?f c))" using ic(1) by auto
    then have cc: "c \<in> chunks E l" using sub by blast
    obtain i where i: "placed (lt_writes l') (sa_buffer da) (sa_buffer ta) (lt_cells l') c i"
      "ic = \<lparr>ic_start = CHUNK_LEN * i, ic_end = CHUNK_LEN * (i + 1), ic_len = length (ch_timestamps c)\<rparr>"
      using dr [OF cc] c(2,3) by auto
    obtain k where k: "x = CHUNK_LEN * i + k" "k < length (ch_timestamps c)" "k < CHUNK_LEN"
      using ic(2) index_iter_shard [of i "length (ch_timestamps c)"] i(2) by auto
    have "\<not> ce_dirty (data_cell (lt_cells l') c)"
      using q(7) c(1) placed_cells(1) [OF i(1)] by (auto simp: loaded_def)
    then have "shard_holds (lt_writes l') (sa_buffer da) i (sb_cpu (ch_data c))"
      "shard_holds (lt_writes l') (sa_buffer ta) i (sb_cpu (ch_times c))" using i(1) by (simp_all add: placed_def)
    then have "sample_at l' x c k"
      using k cells_in(4,5) [OF ok cc] q(4,5) by (simp add: sample_at_def shard_holds_def)
    then show ?thesis using c(1) by blast
  qed
  moreover have "gap_at l' 0" using owned_split(1) [OF q(6)] q(4,5) by (simp add: gap_at_def allocs_ok_def)
  ultimately show ?thesis using that [OF it q(3)] by blast
qed

lemma line_indices:
  assumes "bitmap_ok (pe_bits E)" "nodit_ok (pe_tree E) I" "fst bufs \<noteq> snd bufs"
    and "line_run E l" "lt_queue_load_range E bufs a b l = Some l'"
  shows "\<exists>cs. lt_range_iter E a b l = Some cs \<and> lt_draw_index_chunk_iter E a b l' \<noteq> None \<and>
    (\<forall>w xs count. lt_write_to_index_buffer E a b w l' = Some (xs, count) \<longrightarrow>
       (\<forall>x \<in> set xs. x = 0 \<and> gap_at l' 0 \<or> (\<exists>c \<in> set cs. \<exists>k. sample_at l' x c k)))"
proof -
  obtain ics cs where d: "lt_draw_index_chunk_iter E a b l' = Some ics" "lt_range_iter E a b l = Some cs" "gap_at l' 0"
    "\<forall>ic \<in> set ics. \<forall>x \<in> set (into_index_iter ic). \<exists>c \<in> set cs. \<exists>k. sample_at l' x c k"
    using drawn_indices [OF assms(1-3) line_run_inv [OF assms(4,1,2)] assms(5)] by metis
  have "x = 0 \<and> gap_at l' 0 \<or> (\<exists>c \<in> set cs. \<exists>k. sample_at l' x c k)"
    if w: "lt_write_to_index_buffer E a b w l' = Some (xs, count)" "x \<in> set xs" for w xs count x
  proof -
    obtain step skip where "xs = take INDEX_BUFFER_LEN (line_entries step (step_by skip ics))"
      using write_to_index_buffer_entries [OF w(1)] d(1) by (metis option.inject)
    then have "x \<in> insert 0 (\<Union>ic \<in> set ics. set (into_index_iter ic))"
      using w(2) set_line_entries [of step "step_by skip ics"] set_step_by [of skip ics] by (auto dest: in_set_takeD)
    then show ?thesis using d(3,4) by blast
  qed
  then show ?thesis using d(1,2) by blast
qed

section \<open>An instance\<close>

text \<open>Lists keep the laws of the external structures: a set of shards, and entries in order.\<close>

definition demo_bits :: "nat list bitmap_lib" where
  "demo_bits = \<lparr>bm_new = [], bm_insert = (#), bm_remove = removeAll,
     bm_next = (\<lambda>s. if s = [] then None else Some (Min (set s))), bm_contains = (\<lambda>s j. j \<in> set s)\<rparr>"

lemma demo_bits_ok: "bitmap_ok demo_bits"
  by (auto simp: bitmap_ok_def demo_bits_def)

fun left_of :: "interval \<Rightarrow> interval \<times> plot_chunk \<Rightarrow> (interval \<times> plot_chunk) list" where
  "left_of (a, b) ((lo, hi), c) = (if lo < a then [((lo, min hi (a - 1)), c)] else [])"

fun right_of :: "interval \<Rightarrow> interval \<times> plot_chunk \<Rightarrow> (interval \<times> plot_chunk) list" where
  "right_of (a, b) ((lo, hi), c) = (if b < hi then [((max lo (b + 1), hi), c)] else [])"

definition demo_tree :: "(interval \<times> plot_chunk) list nodit_lib" where
  "demo_tree = \<lparr>nd_ii = (\<lambda>a b. if a \<le> b then Some (a, b) else None),
     nd_ie = (\<lambda>a b. if a < b then Some (a, b - 1) else None),
     nd_ee = (\<lambda>a b. if a + 1 < b then Some (a + 1, b - 1) else None),
     nd_new = [], nd_iter = id,
     nd_insert_overwrite = (\<lambda>i c t. concat (map (left_of i) t) @ (i, c) # concat (map (right_of i) t)),
     nd_overlapping = (\<lambda>i t. filter (\<lambda>((lo, hi), c). lo \<le> snd i \<and> fst i \<le> hi) t),
     nd_last = (\<lambda>t. if t = [] then None else Some (last t)), nd_remove_last = butlast,
     nd_gaps_trimmed = (\<lambda>i t. if t = [] then [i] else [])\<rparr>"

definition in_order :: "(interval \<times> plot_chunk) list \<Rightarrow> bool" where
  "in_order t \<longleftrightarrow> sorted_wrt (\<lambda>e f. snd (fst e) < fst (fst f)) t \<and> (\<forall>e \<in> set t. fst (fst e) \<le> snd (fst e))"

lemma cut_split: "set (cut i e) = set (left_of i e) \<union> set (right_of i e)"
  by (cases i; cases e) auto

lemma left_within: "x \<in> set (left_of i e) \<Longrightarrow> fst (fst e) \<le> snd (fst e) \<Longrightarrow>
    fst (fst x) = fst (fst e) \<and> snd (fst x) \<le> snd (fst e) \<and> fst (fst x) \<le> snd (fst x) \<and> snd (fst x) < fst i"
  by (cases i; cases e) (auto split: if_splits)

lemma right_within: "x \<in> set (right_of i e) \<Longrightarrow> fst (fst e) \<le> snd (fst e) \<Longrightarrow>
    fst (fst e) \<le> fst (fst x) \<and> snd (fst x) = snd (fst e) \<and> fst (fst x) \<le> snd (fst x) \<and> snd i < fst (fst x)"
  by (cases i; cases e) (auto split: if_splits)

lemma in_order_append:
  "in_order (s @ t) \<longleftrightarrow> in_order s \<and> in_order t \<and> (\<forall>x \<in> set s. \<forall>y \<in> set t. snd (fst x) < fst (fst y))"
  by (auto simp: in_order_def sorted_wrt_append)

lemma in_order_Cons:
  "in_order (e # t) \<longleftrightarrow> fst (fst e) \<le> snd (fst e) \<and> in_order t \<and> (\<forall>y \<in> set t. snd (fst e) < fst (fst y))"
  by (auto simp: in_order_def)

lemma in_order_Nil [simp]: "in_order []"
  by (simp add: in_order_def)

lemma in_order_parts:
  assumes "in_order t"
  shows "in_order (concat (map (left_of i) t))" "in_order (concat (map (right_of i) t))"
proof -
  have one: "in_order (left_of i e) \<and> in_order (right_of i e)" if "fst (fst e) \<le> snd (fst e)" for e
    using that by (induction i e rule: left_of.induct) (simp add: in_order_Cons)
  show "in_order (concat (map (left_of i) t))"
    using assms
  proof (induction t)
    case (Cons e t)
    then have e: "fst (fst e) \<le> snd (fst e)" "in_order t" "\<And>y. y \<in> set t \<Longrightarrow> snd (fst e) < fst (fst y) \<and> fst (fst y) \<le> snd (fst y)"
      by (simp_all add: in_order_Cons) (simp add: in_order_def)
    have "snd (fst x) < fst (fst y)" if x: "x \<in> set (left_of i e)" and y: "y \<in> set (concat (map (left_of i) t))" for x y
    proof -
      obtain f where f: "f \<in> set t" "y \<in> set (left_of i f)" using y by auto
      then show ?thesis using left_within [OF x e(1)] left_within [OF f(2)] e(3) [OF f(1)] by simp
    qed
    then show ?case using Cons.IH [OF e(2)] one [OF e(1)] by (simp add: in_order_append)
  qed simp
  show "in_order (concat (map (right_of i) t))"
    using assms
  proof (induction t)
    case (Cons e t)
    then have e: "fst (fst e) \<le> snd (fst e)" "in_order t" "\<And>y. y \<in> set t \<Longrightarrow> snd (fst e) < fst (fst y) \<and> fst (fst y) \<le> snd (fst y)"
      by (simp_all add: in_order_Cons) (simp add: in_order_def)
    have "snd (fst x) < fst (fst y)" if x: "x \<in> set (right_of i e)" and y: "y \<in> set (concat (map (right_of i) t))" for x y
    proof -
      obtain f where f: "f \<in> set t" "y \<in> set (right_of i f)" using y by auto
      then show ?thesis using right_within [OF x e(1)] right_within [OF f(2)] e(3) [OF f(1)] by simp
    qed
    then show ?case using Cons.IH [OF e(2)] one [OF e(1)] by (simp add: in_order_append)
  qed simp
qed

lemma in_order_insert:
  assumes "in_order t" "a \<le> b"
  shows "in_order (concat (map (left_of (a, b)) t) @ ((a, b), c) # concat (map (right_of (a, b)) t))"
proof -
  have e: "fst (fst e) \<le> snd (fst e)" if "e \<in> set t" for e using assms(1) that by (simp add: in_order_def)
  have l: "snd (fst x) < a" if x: "x \<in> set (concat (map (left_of (a, b)) t))" for x
  proof -
    obtain f where f: "f \<in> set t" "x \<in> set (left_of (a, b) f)" using x by auto
    show ?thesis using left_within [OF f(2) e [OF f(1)]] by simp
  qed
  have r: "b < fst (fst x)" if x: "x \<in> set (concat (map (right_of (a, b)) t))" for x
  proof -
    obtain f where f: "f \<in> set t" "x \<in> set (right_of (a, b) f)" using x by auto
    show ?thesis using right_within [OF f(2) e [OF f(1)]] by simp
  qed
  have lr: "snd (fst x) < fst (fst y)" if "x \<in> set (concat (map (left_of (a, b)) t))" "y \<in> set (concat (map (right_of (a, b)) t))" for x y
    using l [OF that(1)] r [OF that(2)] assms(2) by simp
  show ?thesis
    unfolding in_order_append in_order_Cons
    using in_order_parts [OF assms(1), of "(a, b)"] l r lr assms(2)
    by (simp only: list.set(2) ball_simps(7) fst_conv snd_conv) blast
qed

lemma in_order_butlast: "in_order t \<Longrightarrow> in_order (butlast t)"
  by (cases t rule: rev_cases) (auto simp: in_order_def sorted_wrt_append)

lemma demo_tree_ok: "nodit_ok demo_tree in_order"
proof -
  have "sorted_law demo_tree in_order" by (simp add: sorted_law_def demo_tree_def in_order_def)
  moreover have "insert_law demo_tree in_order"
    by (auto simp: insert_law_def demo_tree_def in_order_insert cut_split simp del: cut.simps left_of.simps right_of.simps)
  moreover have "overlap_law demo_tree in_order" by (simp add: overlap_law_def demo_tree_def)
  moreover have "last_law demo_tree in_order" by (simp add: last_law_def demo_tree_def in_order_butlast)
  moreover have "in_order []" by (simp add: in_order_def)
  ultimately show ?thesis by (simp add: nodit_ok_def) (simp add: demo_tree_def)
qed

definition demo_plot :: "(nat list, (interval \<times> plot_chunk) list) plot_env" where
  "demo_plot = \<lparr>pe_debug = True, pe_floats = int_floats, pe_min = (\<lambda>x y. if sint y < sint x then y else x),
     pe_max = (\<lambda>x y. if sint x < sint y then y else x), pe_bits = demo_bits, pe_tree = demo_tree\<rparr>"

lemma demo_plot_ok: "bitmap_ok (pe_bits demo_plot)" "nodit_ok (pe_tree demo_plot) in_order"
  by (simp_all add: demo_plot_def demo_bits_ok demo_tree_ok)

text \<open>Loading returns: a new buffer has room for the gap.\<close>

lemma get_alloc_returns:
  assumes "bitmap_ok (pe_bits E)"
  shows "\<exists>x. get_alloc E b al = Some x"
proof (cases al)
  case None
  let ?f = "fold (\<lambda>i. bm_insert (pe_bits E) (i mod 2 ^ 32)) [0..<CHUNK_COUNT + 1] (bm_new (pe_bits E))"
  have "bm_contains (pe_bits E) ?f 0" using new_free [OF assms, of "CHUNK_COUNT + 1" 0] by (simp add: CHUNK_COUNT_def)
  then have "bm_next (pe_bits E) ?f \<noteq> None" using bitmap_next(1) [OF assms] by blast
  then show ?thesis
    by (auto simp: None get_alloc_def with_nan_chunk_def write_buffer_shard_def sa_allocate_def sa_new_def simp del: upt_Suc split: option.splits)
qed (simp add: get_alloc_def)

lemma load_returns:
  assumes "bitmap_ok (pe_bits E)" "nodit_ok (pe_tree E) I" "a \<le> b"
  shows "\<exists>l'. lt_queue_load_range E bufs a b l = Some l'"
proof -
  obtain da w1 ta w2 where g: "get_alloc E (fst bufs) (lt_data_alloc l) = Some (da, w1)"
    "get_alloc E (snd bufs) (lt_time_alloc l) = Some (ta, w2)"
    using get_alloc_returns [OF assms(1)] by (metis surj_pair)
  obtain cells da' ta' w3 where
    "load_chunks E (map snd (nd_overlapping (pe_tree E) (a, b) (lt_tree l))) (lt_cells l) da ta = (cells, da', ta', w3)"
    by (metis prod_cases4)
  then show ?thesis
    using g nodit_basic(1) [OF assms(2)] assms(3) by (simp add: lt_queue_load_range_def lt_range_iter_def)
qed

text \<open>A line whose only chunk has two samples and the first shard.\<close>

definition demo_drawn :: "(nat list, (interval \<times> plot_chunk) list) line_tree" where
  "demo_drawn = \<lparr>lt_tree = [((1, 2), \<lparr>ch_timestamps = [1, 2], ch_times = \<lparr>sb_cpu = [1, 2], sb_cell = 0\<rparr>,
       ch_data = \<lparr>sb_cpu = [7, 8], sb_cell = 1\<rparr>,
       ch_summary = \<lparr>su_len = 2, su_start = 1, su_end = 2, su_min = Some 7, su_max = Some 8\<rparr>\<rparr>)],
     lt_data_alloc = None, lt_time_alloc = None,
     lt_cells = [\<lparr>ce_gpu = Some (shard_of 1 1), ce_dirty = False\<rparr>, \<lparr>ce_gpu = Some (shard_of 0 1), ce_dirty = False\<rparr>],
     lt_writes = []\<rparr>"

lemma demo_drawn_iter: "lt_draw_index_chunk_iter demo_plot 0 5 demo_drawn = Some [\<lparr>ic_start = 3072, ic_end = 6144, ic_len = 2\<rparr>]"
  by (simp add: lt_draw_index_chunk_iter_def lt_range_iter_def demo_plot_def demo_tree_def demo_drawn_def draw_index_chunk_def
      as_index_chunk_def shard_of_def CHUNK_LEN_def Let_def)

theorem index_buffer_fits_witness:
  "\<exists>step \<ge> 1. \<exists>xs. lt_write_to_index_buffer demo_plot 0 5 100 demo_drawn = Some (xs, length xs) \<and>
    xs = concat (map (\<lambda>ic. chunk_entries step (into_index_iter ic)) [\<lparr>ic_start = 3072, ic_end = 6144, ic_len = 2\<rparr>]) \<and>
    length xs + 1 \<le> 400"
  using index_buffer_fits [OF demo_drawn_iter, of 100] by (simp add: INDEX_BUFFER_LEN_def)

end
