(* ===== verification/PlotRuns.thy ===== *)
theory PlotRuns
  imports PlotRequests PlotDraw
begin

text \<open>
  Plots as a whole: in every run of packets, replies, requests, loads and collections every
  line has a history of its own, so what is drawn of it are its samples; and a chain of requests
  for the rest of a range gets on.
\<close>

section \<open>Lanes of a reply\<close>

lemma step_by_length: "0 < n \<Longrightarrow> length (step_by n xs) = (length xs + (n - 1)) div n"
proof (induction n xs rule: step_by.induct)
  case (2 n x xs)
  show ?case
  proof (cases "n - 1 \<le> length xs")
    case True
    then have "length (step_by n (x # xs)) = Suc ((length xs - (n - 1) + (n - 1)) div n)" using 2 by simp
    also have "\<dots> = (length xs + n) div n" using True 2(2) by simp
    finally show ?thesis using 2(2) by simp
  next
    case False
    then have "length xs + n = n * 1 + length xs" "length xs < n" by simp_all
    then have "(length xs + n) div n = 1" by simp
    then show ?thesis using False 2(2) by simp
  qed
qed simp

lemma step_by_nth: "0 < n \<Longrightarrow> k < length (step_by n xs) \<Longrightarrow> step_by n xs ! k = xs ! (n * k)"
proof (induction n xs arbitrary: k rule: step_by.induct)
  case (2 n x xs)
  show ?case
  proof (cases k)
    case (Suc j)
    then have j: "j < length (step_by n (drop (n - 1) xs))" using 2(3) by simp
    have "n - 1 \<le> length xs" using j by (cases "n - 1 \<le> length xs") simp_all
    then have "step_by n (x # xs) ! k = xs ! (n - 1 + n * j)" using 2(1) [OF 2(2) j] by (simp add: Suc)
    moreover have "n * k = Suc (n - 1 + n * j)" using 2(2) by (simp add: Suc)
    ultimately show ?thesis by simp
  qed simp
qed simp

lemma lane_length: "length xs = m * len \<Longrightarrow> i < len \<Longrightarrow> length (lane i len xs) = m"
proof (cases m)
  case (Suc m')
  assume a: "length xs = m * len" "i < len"
  have "len * Suc m' - i + (len - 1) = len * Suc m' + (len - 1 - i)" using a(2) by simp
  then have "(len * Suc m' - i + (len - 1)) div len = Suc m'" using a(2) by (simp only: div_mult_self4) simp
  then show ?thesis using a by (simp add: lane_def step_by_length Suc mult.commute)
qed (simp add: lane_def)

text \<open>The lane \<open>i\<close> has the element \<open>i\<close> of every sample.\<close>

lemma lane_nth:
  assumes "length xs = m * len" "i < len" "k < m"
  shows "lane i len xs ! k = xs ! (k * len + i)"
proof -
  have "k < length (step_by len (drop i xs))" using lane_length [OF assms(1,2)] assms(3) by (simp add: lane_def)
  moreover have "i \<le> length xs" using assms by (cases m) auto
  ultimately show ?thesis using assms(2) by (simp add: lane_def step_by_nth algebra_simps)
qed

section \<open>Every line has a history\<close>

definition lines_ok :: "('b, 't) plot_env \<Rightarrow> ('b, 't) assets \<Rightarrow> bool" where
  "lines_ok E assets \<longleftrightarrow> (\<forall>x \<in> set assets. line_run E (li_data x))"

lemma lines_ok_update: "lines_ok E assets \<Longrightarrow> line_run E (li_data x) \<Longrightarrow> lines_ok E (assets[h := x])"
  by (auto simp: lines_ok_def dest!: set_update_subset_insert [THEN subsetD])

lemma lines_ok_nth: "lines_ok E assets \<Longrightarrow> h < length assets \<Longrightarrow> line_run E (li_data (assets ! h))"
  by (simp add: lines_ok_def)

lemma line_entry_ok: "line_entry E i label (c, assets) = (h, c', assets') \<Longrightarrow> lines_ok E assets \<Longrightarrow> lines_ok E assets'"
  by (auto simp: line_entry_def lines_ok_def lr_new split: option.splits)

lemma push_elements_ok:
  "push_elements E t earliest i xs names (c, assets) = Some (c', assets') \<Longrightarrow> lines_ok E assets \<Longrightarrow> lines_ok E assets'"
proof (induction xs arbitrary: i names c assets)
  case (Cons x xs)
  obtain h c1 assets1 where e: "line_entry E i (case names of n # _ \<Rightarrow> n | [] \<Rightarrow> bracket_label i) (c, assets) = (h, c1, assets1)"
    by (metis prod_cases3)
  obtain d where d: "h < length assets1" "lt_push_value E t earliest (as_f32 E x) (li_data (assets1 ! h)) = Some d"
    "push_elements E t earliest (i + 1) xs (drop 1 names) (c1, assets1[h := (assets1 ! h)\<lparr>li_data := d\<rparr>]) = Some (c', assets')"
    using Cons.prems(1) e by (auto simp: Let_def split: if_splits option.splits)
  note ok = line_entry_ok [OF e Cons.prems(2)]
  have "line_run E d" using lr_value [OF lines_ok_nth [OF ok d(1)] d(2)] .
  then show ?case using Cons.IH [OF d(3)] lines_ok_update [OF ok] by simp
qed simp

lemma process_lanes_ok:
  assumes "length data = length tms * len" "set is \<subseteq> {..<len}"
    and "process_lanes E tms earliest len data is (c, assets) = Some (c', assets')" "lines_ok E assets"
  shows "lines_ok E assets'"
  using assms(2-)
proof (induction "is" arbitrary: c assets)
  case (Cons i "is")
  obtain h c1 assets1 where e: "line_entry E i (bracket_label i) (c, assets) = (h, c1, assets1)" by (metis prod_cases3)
  note ok = line_entry_ok [OF e Cons.prems(3)]
  show ?case
  proof (cases "length assets1 \<le> h")
    case True
    then show ?thesis using Cons e ok by simp
  next
    case False
    then obtain d where d: "lt_add_series E tms earliest (lane i len data) (li_data (assets1 ! h)) = Some d"
      "process_lanes E tms earliest len data is (c1, assets1[h := (assets1 ! h)\<lparr>li_data := d\<rparr>]) = Some (c', assets')"
      using Cons.prems(2) e by (auto simp: Let_def split: option.splits)
    have "i < len" using Cons.prems(1) by simp
    then have "length (lane i len data) = length tms" using lane_length [OF assms(1)] by blast
    then have "line_run E d" using lr_series [OF lines_ok_nth [OF ok] _ d(1)] False by simp
    then show ?thesis using Cons.IH [OF _ d(2)] Cons.prems(1) lines_ok_update [OF ok] by simp
  qed
qed simp

lemma graph_sink_ok:
  assumes "graph_sink E earliest g cid view t = Some (r, g')" "lines_ok E (snd g)"
  shows "lines_ok E (snd g')"
  using assms push_elements_ok
  by (fastforce simp: graph_sink_def pc_push_value_def split: option.splits)

lemma apply_fields_keep:
  assumes "apply_fields zc base vt table fs sink s = Some (r, s')" "P s"
    and "\<And>s cid view t x s'. sink s cid view t = Some (x, s') \<Longrightarrow> P s \<Longrightarrow> P s'"
  shows "P s'"
  using assms(1,2)
proof (induction fs arbitrary: s)
  case (Cons f fs)
  show ?case
    using Cons.prems Cons.IH assms(3)
    by (simp split: option.splits sum.splits prod.splits)
qed simp

lemma plot_pkt_handler_ok:
  assumes "plot_pkt_handler E zc base registry current earliest pkt g = Some g'" "lines_ok E (snd g)"
  shows "lines_ok E (snd g')"
proof (cases pkt)
  case (PktTable t)
  show ?thesis
  proof (cases "ot_id t = current")
    case False
    then obtain r where r: "table_sink zc base registry t (graph_sink E earliest) g = Some (r, g')"
      using assms(1) PktTable by (auto simp: plot_pkt_handler_def)
    show ?thesis
    proof (cases "registry (ot_id t)")
      case (Some vt)
      then have "apply_fields zc base vt (ot_buf t) (vt_fields vt) (graph_sink E earliest) g = Some (r, g')"
        using r by (simp add: table_sink_def apply_table_def)
      then show ?thesis
        by (rule apply_fields_keep [where P = "\<lambda>g. lines_ok E (snd g)"]) (use assms(2) graph_sink_ok in blast)+
    qed (use r assms(2) in \<open>auto simp: table_sink_def\<close>)
  qed (use assms PktTable in \<open>simp add: plot_pkt_handler_def\<close>)
qed (use assms in \<open>simp_all add: plot_pkt_handler_def\<close>)

text \<open>A reply whose data are as many values as its times and the shape ask for.\<close>

definition shape_of :: "(nat list \<times> prim_type) option \<Rightarrow> (u64 \<Rightarrow> schema option) \<Rightarrow> u64 \<Rightarrow> (nat list \<times> prim_type) option" where
  "shape_of value schemas cid =
     (case value of Some v \<Rightarrow> Some v | None \<Rightarrow> map_option (\<lambda>sc. (sc_shape sc, sc_prim_type sc)) (schemas cid))"

definition reply_fits ::
  "('b, 't) plot_env \<Rightarrow> caster \<Rightarrow> (nat list \<times> prim_type) option \<Rightarrow> (u64 \<Rightarrow> schema option) \<Rightarrow> u64 \<Rightarrow> owned_packet \<Rightarrow> bool" where
  "reply_fits E zc value schemas cid pkt \<longleftrightarrow>
     (\<forall>s shape ty len tms buf. pkt = PktTimeSeries s \<longrightarrow> shape_of value schemas cid = Some (shape, ty) \<longrightarrow>
        usize_product E shape 1 = Some len \<longrightarrow> series_timestamps zc s = Some (Inr tms) \<longrightarrow> series_data s = Inr buf \<longrightarrow>
        length (snd buf) = length tms * len * prim_size ty)"

lemma length_cv_iter_view: "length (snd buf) = n * prim_size ty \<Longrightarrow> length (cv_iter (view_of ty n (snd buf) sh)) = n"
  by (cases ty) (simp_all add: elems_of_le_def bools_of_bytes_def)

lemma prim_size_pos: "0 < prim_size ty"
  by (cases ty) simp_all

lemma process_time_series_ok:
  assumes "process_time_series E zc ty buf tms len earliest (c, assets) = Some (c', assets')" "lines_ok E assets"
    and "length (snd buf) = length tms * len * prim_size ty"
  shows "lines_ok E assets'"
proof -
  have n: "length (snd buf) div prim_size ty = length tms * len" using assms(3) prim_size_pos [of ty] by simp
  have l: "length (map (as_f32 E) (cv_iter (view_of ty (length tms * len) (snd buf) [length tms * len]))) = length tms * len"
    using length_cv_iter_view [OF assms(3)] by simp
  have sub: "set [0..<len] \<subseteq> {..<len}" by auto
  show ?thesis
    using assms(1,2) process_lanes_ok [OF l sub] unfolding process_time_series_def n Let_def
    by (auto split: option.splits)
qed

text \<open>What a reply does to the plot when it does anything.\<close>

lemma handle_time_series_cases:
  assumes "handle_time_series E zc value schemas pid earliest a b cid pkt g = Some (g', q)"
  obtains "g' = g" "q = None"
  | s shape ty len tms buf c c2 where "pkt = PktTimeSeries s" "shape_of value schemas cid = Some (shape, ty)"
      "usize_product E shape 1 = Some len" "series_timestamps zc s = Some (Inr tms)" "series_data s = Inr buf" "fst g cid = Some c"
      "process_time_series E zc ty buf tms len earliest
         (c\<lparr>pc_requests := (pc_requests c)(a \<mapsto> Returned (length tms) (if tms = [] then None else Some (last tms)))\<rparr>, snd g)
         = Some (c2, snd g')"
      "fst g' = (fst g)(cid \<mapsto> c2)" "follow_up E pid cid a b tms c2 (snd g') = Some q"
proof (cases pkt)
  case (PktTimeSeries s)
  note r = assms [unfolded handle_time_series_def PktTimeSeries owned_packet.case, folded shape_of_def]
  show ?thesis
  proof (cases "shape_of value schemas cid")
    case None
    then show ?thesis using r that(1) by simp
  next
    case (Some p)
    obtain shape ty where p: "p = (shape, ty)" by (cases p)
    obtain len x where l: "usize_product E shape 1 = Some len" "series_timestamps zc s = Some x"
      using r Some p by (simp split: option.splits)
    show ?thesis
    proof (cases x)
      case (Inl e)
      then show ?thesis using r Some p l that(1) by simp
    next
      case (Inr tms)
      show ?thesis
      proof (cases "series_data s")
        case (Inl e)
        then show ?thesis using r Some p l Inr that(1) by simp
      next
        case d: (Inr buf)
        show ?thesis
        proof (cases "fst g cid")
          case None
          then show ?thesis using r Some p l Inr d that(1) by simp
        next
          case c: (Some c)
          then obtain c2 assets where ps: "process_time_series E zc ty buf tms len earliest
              (c\<lparr>pc_requests := (pc_requests c)(a \<mapsto> Returned (length tms) (if tms = [] then None else Some (last tms)))\<rparr>, snd g)
              = Some (c2, assets)"
            "map_option (\<lambda>r. (((fst g)(cid \<mapsto> c2), assets), r)) (follow_up E pid cid a b tms c2 assets) = Some (g', q)"
            using r Some p l Inr d by (simp add: Let_def split: option.splits prod.splits)
          then have "follow_up E pid cid a b tms c2 assets = Some q" "g' = ((fst g)(cid \<mapsto> c2), assets)" by auto
          then show ?thesis using that(2) [OF PktTimeSeries Some [unfolded p] l(1) _ d c] l(2) Inr ps(1) by simp
        qed
      qed
    qed
  qed
qed (use assms that(1) in \<open>simp_all add: handle_time_series_def\<close>)

lemma handle_time_series_ok:
  assumes "handle_time_series E zc value schemas pid earliest a b cid pkt g = Some (g', q)" "lines_ok E (snd g)"
    and "reply_fits E zc value schemas cid pkt"
  shows "lines_ok E (snd g')"
  using assms(1)
proof (cases rule: handle_time_series_cases)
  case (2 s shape ty len tms buf c c2)
  then have "length (snd buf) = length tms * len * prim_size ty" using assms(3) unfolding reply_fits_def by blast
  then show ?thesis using process_time_series_ok [OF 2(7) assms(2)] by blast
qed (use assms(2) in simp)

lemma query_ranges_ok:
  assumes "query_ranges E now a b c assets = Some (rs, assets')" "lines_ok E assets"
  shows "lines_ok E assets'"
proof (cases "pc_lines c")
  case (Cons x xs)
  obtain i h where x: "x = (i, h)" by (cases x)
  show ?thesis
  proof (cases "length assets \<le> h")
    case False
    then have "line_run E (li_data ((assets ! h)\<lparr>li_last_queried := Some now\<rparr>))" using lines_ok_nth [OF assms(2)] by simp
    then have "lines_ok E (assets[h := (assets ! h)\<lparr>li_last_queried := Some now\<rparr>])" by (rule lines_ok_update [OF assms(2)])
    moreover have "assets' = assets \<or> assets' = assets[h := (assets ! h)\<lparr>li_last_queried := Some now\<rparr>]"
    proof (cases "case li_last_queried (assets ! h) of Some t \<Rightarrow> now - t \<le> 250 | None \<Rightarrow> False")
      case True
      then show ?thesis using assms(1) False by (simp add: query_ranges_def Cons x)
    next
      case old: False
      then have "map_option (\<lambda>i. (nd_gaps_trimmed (pe_tree E) i (lt_tree (li_data (assets ! h))),
          assets[h := (assets ! h)\<lparr>li_last_queried := Some now\<rparr>])) (nd_ie (pe_tree E) a b) = Some (rs, assets')"
        using assms(1) False by (simp only: query_ranges_def Cons x list.case prod.case if_False)
      then show ?thesis by auto
    qed
    ultimately show ?thesis using assms(2) by blast
  qed (use assms Cons x in \<open>simp add: query_ranges_def\<close>)
qed (use assms in \<open>simp add: query_ranges_def\<close>)

lemma queue_components_ok:
  "queue_components E now schemas stream_ids pids a b oks cs assets = Some (cs', assets', (sent :: 'm request list), qs) \<Longrightarrow>
   lines_ok E assets \<Longrightarrow> lines_ok E assets'"
proof (induction cs arbitrary: oks assets cs' assets' sent qs)
  case (Cons x cs)
  obtain cid c where x: "x = (cid, c)" by (cases x)
  obtain sent1 oks1 go c1 where 1: "start_component schemas (stream_ids cid) oks cid c = ((sent1 :: 'm request list), oks1, go, c1)"
    by (metis prod_cases4)
  show ?case
  proof (cases go)
    case False
    then show ?thesis using Cons.prems 1 by (simp add: x)
  next
    case True
    obtain rs assets1 where q: "query_ranges E now a b c1 assets = Some (rs, assets1)"
      using Cons.prems(1) 1 True by (auto simp: x split: option.splits)
    obtain c2 qs1 where p: "process_ranges now b (pids cid) cid rs c1 = (c2, qs1)" by fastforce
    obtain cs2 sent2 qs2 where n: "queue_components E now schemas stream_ids pids a b oks1 cs assets1 = Some (cs2, assets', (sent2 :: 'm request list), qs2)"
      using Cons.prems(1) 1 True q p by (auto simp: x)
    show ?thesis using Cons.IH [OF n query_ranges_ok [OF q Cons.prems(2)]] .
  qed
qed simp

lemma collect_lines_ok:
  "collect_lines E a b hs assets = Some assets' \<Longrightarrow> lines_ok E assets \<Longrightarrow> lines_ok E assets'"
proof (induction hs arbitrary: assets)
  case (Cons h hs)
  show ?case
  proof (cases "length assets \<le> h")
    case False
    then obtain d where d: "lt_garbage_collect E a b (li_data (assets ! h)) = Some d"
      "collect_lines E a b hs (assets[h := (assets ! h)\<lparr>li_data := d\<rparr>]) = Some assets'"
      using Cons.prems(1) by (auto split: option.splits)
    have "h < length assets" using False by simp
    then have "line_run E d" using lr_collect [OF lines_ok_nth [OF Cons.prems(2)] d(1)] by blast
    then show ?thesis using Cons.IH [OF d(2)] lines_ok_update [OF Cons.prems(2)] by simp
  qed (use Cons in simp)
qed simp

section \<open>Runs of a plot\<close>

inductive plot_run :: "('b, 't) plot_env \<Rightarrow> caster \<Rightarrow> ('b, 't) graph_data \<Rightarrow> bool" for E zc where
  pr_new: "plot_run E zc (Map.empty, [])"
| pr_component: "plot_run E zc g \<Longrightarrow> plot_run E zc ((fst g)(cid \<mapsto> plot_component_new label names), snd g)"
| pr_packet: "plot_run E zc g \<Longrightarrow> plot_pkt_handler E zc base registry current earliest pkt g = Some g' \<Longrightarrow> plot_run E zc g'"
| pr_reply: "plot_run E zc g \<Longrightarrow> reply_fits E zc value schemas cid pkt \<Longrightarrow>
    handle_time_series E zc value schemas pid earliest a b cid pkt g = Some (g', q) \<Longrightarrow> plot_run E zc g'"
| pr_query: "plot_run E zc g \<Longrightarrow> fst g = map_of cs \<Longrightarrow>
    queue_timestamp_read E now schemas stream_ids pids a b oks cs (snd g) = Some (cs', assets', (sent :: unit request list), qs) \<Longrightarrow>
    plot_run E zc (map_of cs', assets')"
| pr_collect: "plot_run E zc g \<Longrightarrow> fst g = map_of cs \<Longrightarrow> collect_garbage E changed a b cs (snd g) = Some assets' \<Longrightarrow>
    plot_run E zc (fst g, assets')"
| pr_load: "plot_run E zc g \<Longrightarrow> h < length (snd g) \<Longrightarrow> fst bufs \<noteq> snd bufs \<Longrightarrow>
    lt_queue_load_range E bufs a b (li_data (snd g ! h)) = Some d \<Longrightarrow>
    plot_run E zc (fst g, (snd g)[h := (snd g ! h)\<lparr>li_data := d\<rparr>])"

lemma plot_run_lines: "plot_run E zc g \<Longrightarrow> lines_ok E (snd g)"
proof (induction rule: plot_run.induct)
  case (pr_packet g base registry current earliest pkt g')
  then show ?case using plot_pkt_handler_ok by blast
next
  case (pr_reply g "value" schemas cid pkt pid earliest a b g' q)
  then show ?case using handle_time_series_ok by blast
next
  case (pr_query g cs now schemas stream_ids pids a b oks cs' assets' sent qs)
  then show ?case using queue_components_ok by (auto simp: queue_timestamp_read_def split: if_splits)
next
  case (pr_collect g cs changed a b assets')
  then show ?case using collect_lines_ok by (auto simp: collect_garbage_def split: if_splits)
next
  case (pr_load g h bufs a b d)
  have "line_run E d" using lr_load [OF lines_ok_nth [OF pr_load(5,2)] pr_load(3,4)] .
  then show ?case using lines_ok_update [OF pr_load(5)] by simp
qed (simp_all add: lines_ok_def)

text \<open>C8. In every run of packets, replies, requests, loads and collections: once the visible
  range of a line is loaded, the assertion that its two buffers agree holds, and every entry of
  the index buffer reads a sample of a visible chunk, its time in one buffer and its value in
  the other, or the gap, which is not a number.
\<close>

theorem index_reads_samples:
  assumes "bitmap_ok (pe_bits E)" "nodit_ok (pe_tree E) I" "fst bufs \<noteq> snd bufs"
    and "plot_run E zc g" "h < length (snd g)" "lt_queue_load_range E bufs a b (li_data (snd g ! h)) = Some l"
  shows "\<exists>cs. lt_range_iter E a b (li_data (snd g ! h)) = Some cs \<and> lt_draw_index_chunk_iter E a b l \<noteq> None \<and>
    (\<forall>w xs count. lt_write_to_index_buffer E a b w l = Some (xs, count) \<longrightarrow>
       (\<forall>x \<in> set xs. x = 0 \<and> gap_at l 0 \<or> (\<exists>c \<in> set cs. \<exists>k. sample_at l x c k)))"
  by (rule line_indices [OF assms(1-3) lines_ok_nth [OF plot_run_lines [OF assms(4)] assms(5)] assms(6)])

section \<open>Asking for the rest\<close>

lemma next_range_start:
  assumes "nodit_ok (pe_tree E) I" "bitmap_ok (pe_bits E)" "lines_ok E assets"
    and "next_range E a b c assets = Some (a', b')"
  shows "a \<le> a' \<and> b' = b"
proof (cases "pc_lines c")
  case (Cons x xs)
  obtain i h where x: "x = (i, h)" by (cases x)
  show ?thesis
  proof (cases "length assets \<le> h")
    case False
    let ?l = "li_data (assets ! h)"
    have h: "h < length assets" using False by simp
    note inv = line_run_inv [OF lines_ok_nth [OF assms(3) h] assms(2,1)]
    obtain cs where cs: "lt_range_iter E a b ?l = Some cs"
      using assms(4) Cons x False by (auto simp: next_range_def split: option.splits)
    have "a \<le> su_end (ch_summary (hd cs))" if "cs \<noteq> []"
    proof -
      have "hd cs \<in> snd ` {((lo, hi), c) \<in> entries E ?l. lo \<le> b \<and> a \<le> hi}"
        using hd_in_set [OF that] unfolding range_iter_chunks(2) [OF assms(1) line_inv_split(1) [OF inv] cs] .
      then obtain lo hi ch where e: "((lo, hi), ch) \<in> entries E ?l" "a \<le> hi" "hd cs = ch" by auto
      have "fits ((lo, hi), ch)" using line_inv_split(2) [OF inv e(1)] .
      then show ?thesis using e(2,3) by (simp add: fits_def)
    qed
    then show ?thesis
      using assms(4) Cons x False cs by (cases cs) (auto simp: next_range_def split: if_splits)
  qed (use assms(4) Cons x in \<open>simp add: next_range_def\<close>)
qed (use assms(4) in \<open>simp add: next_range_def\<close>)

text \<open>C37. The request that follows a reply, in any run, asks only for what the reply left out: it
  comes after a full reply that ended before the range did, goes to the end of the range and
  starts no earlier than the last time received.  So the range shrinks with every reply that
  holds a later time than the start of its range, and a chain of such requests ends.
\<close>

theorem follow_up_shrinks:
  assumes "bitmap_ok (pe_bits E)" "nodit_ok (pe_tree E) I" "plot_run E zc g" "reply_fits E zc value schemas cid (PktTimeSeries s)"
    and "handle_time_series E zc value schemas pid earliest a b cid (PktTimeSeries s) g = Some (g', Some q)"
    and "series_timestamps zc s = Some (Inr tms)"
  shows "CHUNK_LEN \<le> length tms \<and> last tms < b \<and> rq_component q = cid \<and> rq_end q = b \<and> last tms \<le> rq_start q \<and>
    rq_limit q = Some CHUNK_LEN \<and> (a < last tms \<longrightarrow> nat (rq_end q - rq_start q) < nat (b - a))"
  using assms(5)
proof (cases rule: handle_time_series_cases)
  case (2 s' shape ty len tms' buf c c2)
  have t: "tms' = tms" using 2(1,4) assms(6) by simp
  note f = 2(9) [unfolded t]
  have c: "tms \<noteq> []" "last tms < b" "CHUNK_LEN \<le> length tms"
    using f by (simp_all add: follow_up_def not_le not_less split: if_splits)
  obtain a' b' where n: "next_range E (last tms) b c2 (snd g') = Some (a', b')"
    "q = \<lparr>rq_id = pid, rq_start = a', rq_end = b', rq_component = cid, rq_limit = Some CHUNK_LEN\<rparr>"
    using f c by (auto simp: follow_up_def)
  have "lines_ok E (snd g')" using handle_time_series_ok [OF assms(5) plot_run_lines [OF assms(3)] assms(4)] .
  then have "last tms \<le> a' \<and> b' = b" using next_range_start [OF assms(2,1) _ n(1)] by blast
  then show ?thesis using c n(2) by simp
qed simp

section \<open>A concrete plot\<close>

text \<open>A plot of one component, a byte, and a reply of \<open>n\<close> samples at the time 1.\<close>

definition demo_graph :: "(nat list, (interval \<times> plot_chunk) list) graph_data" where
  "demo_graph = (Map.empty(7 \<mapsto> plot_component_new ''x'' []), [])"

definition demo_times :: "nat \<Rightarrow> byte list" where
  "demo_times n = concat (map i64_to_le (replicate n 1))"

definition demo_series :: "nat \<Rightarrow> owned_time_series" where
  "demo_series n = \<lparr>os_id = (0, 0), os_req_id = 0, os_len = n, os_buf = (0, replicate 8 0 @ demo_times n @ replicate n 9)\<rparr>"

lemma demo_times_length [simp]: "length (demo_times n) = 8 * n"
  by (induction n) (simp_all add: demo_times_def)

lemma demo_series_parts:
  assumes "n < 2 ^ 32"
  shows "series_timestamps zc_ok (demo_series n) = Some (Inr (replicate n 1))"
    and "series_data (demo_series n) = Inr (8 + n * 8, replicate n 9)"
proof -
  have m: "(8 + n * 8) mod 2 ^ 64 = 8 + n * 8" using assms by simp
  have "slice 8 (8 + n * 8) (replicate 8 0 @ demo_times n @ replicate n 9) = demo_times n"
    by (simp add: slice_def)
  moreover have "i64_elems (demo_times n) = replicate n 1"
    unfolding demo_times_def by (rule i64_elems_concat) (simp add: i64_range_def)
  ultimately show "series_timestamps zc_ok (demo_series n) = Some (Inr (replicate n 1))"
    using m by (simp add: series_timestamps_def demo_series_def as_get_def get_range_def zc_ok_def del: replicate_Suc)
  have "slice (8 + n * 8) (8 + 8 * n + n) (replicate 8 0 @ demo_times n @ replicate n 9) = replicate n 9"
    by (simp add: slice_def)
  then show "series_data (demo_series n) = Inr (8 + n * 8, replicate n 9)"
    using m by (simp add: series_data_def demo_series_def try_slice_from_def as_get_def get_range_def Let_def add.commute del: replicate_Suc)
qed

lemma demo_reply_fits: "n < 2 ^ 32 \<Longrightarrow> reply_fits demo_plot zc_ok (Some ([], U8)) schemas 7 (PktTimeSeries (demo_series n))"
  using demo_series_parts [of n] by (auto simp: reply_fits_def shape_of_def)

lemma demo_run: "plot_run demo_plot zc_ok demo_graph"
  using pr_component [OF pr_new, of demo_plot zc_ok 7 "''x''" "[]"] by (simp add: demo_graph_def)

lemma demo_time_float: "time_float demo_plot 0 1 = Some 1"
  by (simp add: time_float_def i64_op_def i64_range_def demo_plot_def int_floats_def)

lemma demo_reply_handled:
  assumes "n < 2 ^ 32" "0 < n"
  shows "\<exists>g' q. handle_time_series demo_plot zc_ok (Some ([], U8)) schemas (0, 0) 0 0 5 7 (PktTimeSeries (demo_series n)) demo_graph
      = Some (g', q) \<and> length (snd g') = 1 \<and> (CHUNK_LEN \<le> n \<longrightarrow> q \<noteq> None)"
proof -
  let ?c = "(plot_component_new ''x'' [])\<lparr>pc_requests := (pc_requests (plot_component_new ''x'' []))(0 \<mapsto> Returned (length (replicate n (1 :: int)))
      (if replicate n (1 :: int) = [] then None else Some (last (replicate n 1))))\<rparr>"
  have no_lines: "pc_lines (plot_component_new ''x'' []) = []" by (simp add: plot_component_new_def)
  define vs where "vs = map (as_f32 demo_plot) (cv_iter (view_of U8 n (replicate n 9) [n]))"
  have rep: "replicate n (1 :: int) \<noteq> []" "hd (replicate n (1 :: int)) = 1" "last (replicate n (1 :: int)) = 1"
    using assms(2) by (cases n; simp add: last_replicate)+
  have fl: "sequence_some (map (time_float demo_plot 0) (replicate n 1)) = Some (replicate n 1)"
    using sequence_some_map [of "replicate n 1" "time_float demo_plot 0"] demo_time_float by simp
  obtain c cells where c: "ch_from_iter demo_plot (replicate n 1) 0 (lane 0 1 vs) [] = Some (Some (c, cells))"
    "su_start (ch_summary c) = 1" "su_end (ch_summary c) = 1"
    using rep fl by (simp add: ch_from_iter_def fresh_cell_def)
  have ins: "lt_add_series demo_plot (replicate n 1) 0 (lane 0 1 vs) (lt_default demo_plot)
      = Some ((lt_default demo_plot)\<lparr>lt_cells := cells, lt_tree := [((1, 1), c)]\<rparr>)"
    using c by (simp add: lt_add_series_def lt_insert_def lt_default_def demo_plot_def demo_tree_def)
  have z: "zc_ok (SliceOf 1 1) (8 + n * 8, replicate n 9) = None" by (simp add: zc_ok_def)
  define l where "l = \<lparr>li_label = bracket_label 0, li_data = (lt_default demo_plot)\<lparr>lt_cells := cells, lt_tree := [((1, 1), c)]\<rparr>,
      li_last_queried = None\<rparr>"
  let ?c2 = "?c\<lparr>pc_lines := [(0, 0)]\<rparr>"
  have pr: "process_time_series demo_plot zc_ok U8 (8 + n * 8, replicate n 9) (replicate n 1) 1 0 (?c, []) = Some (?c2, [l])"
  proof -
    have e: "line_entry demo_plot 0 (bracket_label 0) (?c, []) =
        (0, ?c2, [\<lparr>li_label = bracket_label 0, li_data = lt_default demo_plot, li_last_queried = None\<rparr>])"
      using no_lines by (simp add: line_entry_def)
    have "process_time_series demo_plot zc_ok U8 (8 + n * 8, replicate n 9) (replicate n 1) 1 0 (?c, []) =
        process_lanes demo_plot (replicate n 1) 0 1 vs [0] (?c, [])"
      using z by (simp add: process_time_series_def vs_def)
    also have "\<dots> = Some (?c2, [l])" using ins unfolding process_lanes.simps e by (simp add: l_def)
    finally show ?thesis .
  qed
  have nr: "next_range demo_plot 1 5 ?c2 [l] = Some (1, 5)"
    using c(2,3) by (simp add: next_range_def l_def lt_range_iter_def demo_plot_def demo_tree_def)
  have fu: "\<exists>q. follow_up demo_plot (0, 0) 7 0 5 (replicate n 1) ?c2 [l] = Some q \<and> (CHUNK_LEN \<le> n \<longrightarrow> q \<noteq> None)"
    using rep nr by (auto simp: follow_up_def not_le)
  show ?thesis
    using fu demo_series_parts [OF assms(1)] pr
    by (auto simp: handle_time_series_def demo_graph_def Let_def simp del: replicate.simps)
qed

theorem index_reads_samples_witness:
  "\<exists>g cs l. plot_run demo_plot zc_ok g \<and> length (snd g) = 1 \<and>
    lt_queue_load_range demo_plot (0, 1) 0 5 (li_data (snd g ! 0)) = Some l \<and>
    lt_range_iter demo_plot 0 5 (li_data (snd g ! 0)) = Some cs \<and> lt_draw_index_chunk_iter demo_plot 0 5 l \<noteq> None \<and>
    (\<forall>w xs count. lt_write_to_index_buffer demo_plot 0 5 w l = Some (xs, count) \<longrightarrow>
       (\<forall>x \<in> set xs. x = 0 \<and> gap_at l 0 \<or> (\<exists>c \<in> set cs. \<exists>k. sample_at l x c k)))"
proof -
  obtain g q where g: "handle_time_series demo_plot zc_ok (Some ([], U8)) (\<lambda>_. None) (0, 0) 0 0 5 7 (PktTimeSeries (demo_series 2)) demo_graph
      = Some (g, q)" "length (snd g) = 1" using demo_reply_handled [of 2 "\<lambda>_. None"] by auto
  have run: "plot_run demo_plot zc_ok g" using pr_reply [OF demo_run demo_reply_fits g(1)] by simp
  obtain l where l: "lt_queue_load_range demo_plot (0, 1) 0 5 (li_data (snd g ! 0)) = Some l"
    using load_returns [OF demo_plot_ok, of 0 5] by fastforce
  have "fst (0 :: nat, 1 :: nat) \<noteq> snd (0 :: nat, 1 :: nat)" "0 < length (snd g)" using g(2) by simp_all
  from index_reads_samples [OF demo_plot_ok this(1) run this(2) l] show ?thesis using run g(2) l by blast
qed

theorem follow_up_shrinks_witness:
  "\<exists>g' q. handle_time_series demo_plot zc_ok (Some ([], U8)) (\<lambda>_. None) (0, 0) 0 0 5 7 (PktTimeSeries (demo_series CHUNK_LEN)) demo_graph
      = Some (g', Some q) \<and> rq_end q = 5 \<and> 1 \<le> rq_start q \<and> nat (rq_end q - rq_start q) < nat (5 - 0)"
proof -
  have n: "CHUNK_LEN < 2 ^ 32" "0 < CHUNK_LEN" by (simp_all add: CHUNK_LEN_def)
  obtain g' q where g: "handle_time_series demo_plot zc_ok (Some ([], U8)) (\<lambda>_. None) (0, 0) 0 0 5 7
      (PktTimeSeries (demo_series CHUNK_LEN)) demo_graph = Some (g', Some q)"
    using demo_reply_handled [OF n, of "\<lambda>_. None"] by auto
  have "last (replicate CHUNK_LEN (1 :: int)) = 1" using n(2) by (simp add: last_replicate)
  then show ?thesis
    using follow_up_shrinks [OF demo_plot_ok demo_run demo_reply_fits [OF n(1)] g demo_series_parts(1) [OF n(1)]] g by auto
qed

end
