(* ===== verification/Spec2Isabelle.thy ===== *)
theory Spec2Isabelle
  imports DisruptorRun AtomicStack MsgLog VTableBuild ComponentRun DatabaseCorrect StreamsCorrect ValueCorrect VTableStreamCorrect MeanCorrect MessageServe Server EqlCorrect ArrowCorrect NoxConcat WaitQueueCalm SchematicKept PlotRuns
begin

text \<open>
  Metor: a model of the telemetry database, its wire protocol and its client.

  The program.  Components send samples of fixed-size values to a database and read them
  back as time series, live streams or SQL tables.  A client (\<open>libs/metor-proto/stellar\<close>) and
  the server (\<open>libs/db/src/lib.rs\<close>) exchange length-delimited packets
  (\<open>libs/metor-proto/src/types.rs\<close>) over a byte stream (\<open>libs/stellarator/src/io.rs\<close>).  A table
  packet is taken apart by a vtable (\<open>libs/metor-proto/src/vtable.rs\<close>), a small program that
  says which bytes are which component's value.  Each component has a ring of fresh samples
  (\<open>libs/db/src/disruptor.rs\<close>) that live readers and a persist task read, and a time series
  (\<open>libs/db/src/time_series_2.rs\<close>), a lock-free stack (\<open>libs/db/src/arc_ring.rs\<close>) of nodes over
  memory-mapped append-only logs (\<open>libs/db/src/append_log.rs\<close>).  Messages go through the same
  ring into message logs (\<open>libs/db/src/msg_log_2.rs\<close>).  Queries are written in a small language
  (\<open>libs/db/eql\<close>) and run as SQL over tables built from the nodes (\<open>libs/db/src/arrow\<close>).

  The theories, from the bottom up.
  \<^item> \<open>Prelude\<close> and \<open>Errors\<close>: machine integers, checked slices, little-endian bytes, padding,
    binary search; the error types and results.
  \<^item> \<open>AppendLog\<close>, \<open>AtomicStack\<close>, \<open>TimeSeries\<close>: the logs, the stack as a step relation over a
    heap with reference counts, the nodes of a series with writing, lookup and ranges.
  \<^item> \<open>Disruptor\<close>, \<open>DisruptorRun\<close>: the ring, its grants and readers; the step relation of
    writers and readers with its reachable states.
  \<^item> \<open>MsgLog\<close>: message logs, their frames and the persist task.
  \<^item> \<open>ProtoTypes\<close>, \<open>VTable\<close>, \<open>VTableCorrect\<close>, \<open>VTableBuild\<close>: packets, views and schemas; the
    evaluator of vtables, their builder, and that built vtables mirror their description.
  \<^item> \<open>Component\<close>, \<open>ComponentRun\<close>, \<open>FixedRate\<close>: a component's ring and series together, its
    runs, and the state of fixed-rate streams.
  \<^item> \<open>Database\<close>, \<open>DatabaseCorrect\<close>: the database's state, its operations and files, tables
    received, opening and reopening.
  \<^item> \<open>Value\<close>, \<open>ValueCorrect\<close>: owned values, casts and array indexing.
  \<^item> \<open>Streams\<close>, \<open>StreamsCorrect\<close>, \<open>VTableStream\<close>, \<open>VTableStreamCorrect\<close>, \<open>MeanCorrect\<close>: real-time
    and fixed-rate streams, streams of vtables with their plans, stages and sending task.
  \<^item> \<open>Handlers\<close>, \<open>HandlersCorrect\<close>, \<open>MessageServe\<close>: every branch of the request handler, a
    connection's turn, and the streams of messages.
  \<^item> \<open>Framing\<close>, \<open>Client\<close>, \<open>ClientCorrect\<close>, \<open>Server\<close>: the length-delimited reader, the client,
    the connection loop, and client, transport and server composed.
  \<^item> \<open>Eql\<close>, \<open>EqlCorrect\<close>, \<open>Arrow\<close>, \<open>ArrowCorrect\<close>: name resolution and translation to SQL; the
    tables, archives and spectra.
  \<^item> \<open>NoxArray\<close>, \<open>NoxArrayCorrect\<close>, \<open>NoxConcat\<close>: the arrays of the numerical library
    (\<open>libs/nox/src/array\<close>), with constant and dynamic dimensions, strided iterators,
    broadcasting, concatenation and slices.
  \<^item> \<open>WaitQueue\<close>, \<open>WaitQueueCorrect\<close>, \<open>WaitQueueCalm\<close>: the queue that waiting tasks sleep on
    (\<open>libs/stellarator/maitake/sync/src/wait_queue.rs\<close>), as a step relation over its atomic
    accesses.
  \<^item> \<open>Schematic\<close>, \<open>SchematicKdl\<close>, \<open>SchematicKdlCorrect\<close>, \<open>SchematicKept\<close>: the layouts that users
    save (\<open>libs/metor-proto/wkt/src/gui.rs\<close>), as documents and back (\<open>libs/metor-proto/kdl\<close>).
  \<^item> \<open>PlotBuffers\<close>, \<open>PlotBuffersCorrect\<close>, \<open>PlotDraw\<close>, \<open>PlotRequests\<close>, \<open>PlotRuns\<close>: the samples a plot
    keeps (\<open>libs/metor-ui/src/ui/plot/data.rs\<close>): chunks in an interval map with cells that clones
    share, the shards of their device buffers, the index buffer, live values, requests for the
    gaps and their replies; the invariant of a line, and runs of a whole plot.

  What the lemmas show.  The ring loses nothing as long as readers keep up, and where it
  does not; a series holds exactly the samples accepted, in order, and lookups and ranges
  return them; a component's series followed by its ring is what was accepted, in every run.
  Whatever packets arrive, the database stays well formed.  Frames of messages, packets and
  vtables round-trip.  A client's request is answered by exactly the samples asked for,
  through both byte streams.  Queries name the tables they read.  Operators on arrays broadcast
  as their element-wise description says.  No wake-up passes a waiting task by, and nothing
  gets stuck while nobody closes a queue.  A saved schematic can always be read again, and a
  function says what is left of it.  Whatever a plot has received, requested, loaded and thrown
  away, what it draws of a line are samples of the line.  Where the code does not
  keep a promise (full laps of the ring, offsets past 4 GB, limits over several nodes,
  request ids, rejected packets, boolean columns, the order of tables, arrays of three
  constant or of dynamic dimensions, closing a queue in the middle of a wake, colors and monitors in documents, plots with many chunks in view) a theorem says
  what happens instead.

  How code is modelled.  A \<open>usize\<close> is a natural number, with the wrap-around of products
  written out; fields of the wire format are words; an \<open>i64\<close> is an integer in its range;
  floating-point values are their bits, with their arithmetic a parameter.  A \<open>Result\<close> is a
  sum, a panic is \<open>None\<close>, outside of both.  Concurrent code is a step relation or a
  parameter that stands for what the other tasks do; a panic inside of a lock leaves the lock
  taken.  Index arithmetic of arrays is on unbounded numbers.  Results of the operating system, hash
  functions, identifiers, serialisers (postcard), the casts of zerocopy, Arrow, the SQL
  engine, the library for documents, the parser generator, the interval map and bitmap of a plot and the order of hash maps are
  parameters; the contracts assumed of them (\<open>zc_spec\<close>, \<open>nodit_ok\<close>, \<open>lists_ok\<close> and the like) each have an instance.

  Bounds and fuel.  Loops are recursive functions with termination proofs, or, for the
  evaluator of vtables, partial functions whose termination on well-formed vtables is a
  theorem.  The search for a free plan is bounded by 65535, as in the code.  The loop that
  pushes a sample has fuel 3: it creates at most one node, and its theorem shows that fuel
  never runs out.  Freeing a chain of nodes is bounded by the number of addresses handed
  out.  The batches of the wait queue have any size \<open>cap\<close>; the code takes 16, and 2 under its
  model checker.

  Not modelled.  The user interface (\<open>libs/metor-ui\<close>) but for the samples of its plots, the plugin for the game engine, the
  numerical libraries for simulation and control and their compilers beyond arrays, the
  asynchronous runtime below reads and writes (reactors, timers, and the scheduler and tasks of
  the vendored task library), the command line, the HTTP interface,
  device drivers and code generation for C: they draw, compute with floating-point numbers,
  call the operating system or generate code, and nothing above rests on them but through
  parameters.  The old storage files of the database (\<open>time_series.rs\<close>, \<open>msg_log.rs\<close>,
  \<open>control.rs\<close>, \<open>registry.rs\<close>) are not compiled.  The completion of half-typed queries is left
  out, since it rests on the generated parser.
\<close>

end
